(* ===== verification/Prelude.thy ===== *)
theory Prelude
  imports Main
begin

text \<open>
  What every component of the development shares: the exceptions the Python code
  raises and the result type that carries them, the indexing rule of Python lists, the
  binary search of the \<open>bisect\<close> module, insertion ordered dictionaries as association
  lists, and the contract of a finite state machine whose state never moves
  backwards (\<open>ranked_fsm\<close>), which the channel and the data source FSM both meet.
\<close>

named_theorems py_simps \<open>unfolding rules for the Python primitives\<close>

section \<open>Exceptions and results\<close>

datatype py_exn =
    AssertionError
  | AttributeError
  | IndexError
  | KeyError
  | NotImplementedError
  | OverflowError
  | RuntimeError
  | OpError  \<comment> \<open>raised by the file system of TensorFlow\<close>
  | StopIteration
  | TypeError
  | ValueError
  | ZeroDivisionError
  | ProcessExit  \<comment> \<open>\<open>os._exit(-1)\<close>: the process ends\<close>

type_synonym 'a result = "py_exn + 'a"

definition bind_result :: "'a result \<Rightarrow> ('a \<Rightarrow> 'b result) \<Rightarrow> 'b result" where
  "bind_result r f = (case r of Inl e \<Rightarrow> Inl e | Inr a \<Rightarrow> f a)"

lemma bind_result_simps [simp]:
  "bind_result (Inl e) f = Inl e"
  "bind_result (Inr a) f = f a"
  by (simp_all add: bind_result_def)

lemma bind_result_Inr_iff:
  "bind_result r f = Inr b \<longleftrightarrow> (\<exists>a. r = Inr a \<and> f a = Inr b)"
  by (cases r) simp_all

lemma bind_result_assoc:
  "bind_result (bind_result r f) g = bind_result r (\<lambda>a. bind_result (f a) g)"
  by (cases r) simp_all

text \<open>A loop that collects what its body yields, and stops at the first exception.\<close>

fun traverse :: "('a \<Rightarrow> 'b result) \<Rightarrow> 'a list \<Rightarrow> 'b list result" where
  "traverse f [] = Inr []"
| "traverse f (x # xs) = bind_result (f x) (\<lambda>y. bind_result (traverse f xs) (\<lambda>ys. Inr (y # ys)))"

lemma traverse_Inr:
  "(\<And>x. x \<in> set xs \<Longrightarrow> f x = Inr (g x)) \<Longrightarrow> traverse f xs = Inr (map g xs)"
  by (induction xs) auto

lemma traverse_mem:
  "traverse f xs = Inr ys \<Longrightarrow> y \<in> set ys \<Longrightarrow> \<exists>x \<in> set xs. f x = Inr y"
  by (induction xs arbitrary: ys) (auto simp: bind_result_Inr_iff)

lemma traverse_error:
  assumes "\<And>x e. x \<in> set xs \<Longrightarrow> f x = Inl e \<Longrightarrow> e = err"
    and "\<exists>x \<in> set xs. \<exists>e. f x = Inl e"
  shows "traverse f xs = Inl err"
  using assms
proof (induction xs)
  case (Cons x xs)
  show ?case
  proof (cases "f x")
    case (Inl e)
    then show ?thesis using Cons.prems(1) [of x e] by simp
  next
    case (Inr y)
    then have "\<exists>x \<in> set xs. \<exists>e. f x = Inl e" using Cons.prems(2) by auto
    then have "traverse f xs = Inl err"
      by (intro Cons.IH) (use Cons.prems(1) in \<open>auto\<close>)
    then show ?thesis using Inr by simp
  qed
qed simp

lemma traverse_length: "traverse f xs = Inr ys \<Longrightarrow> length ys = length xs"
  by (induction xs arbitrary: ys) (auto simp: bind_result_Inr_iff)

definition py_assert :: "bool \<Rightarrow> 'a result \<Rightarrow> 'a result" where
  [py_simps]: "py_assert b r = (if b then r else Inl AssertionError)"

section \<open>State and exceptions\<close>

text \<open>
  A method of an object that may raise: what it returns or raises, and the state that it
  leaves, which is kept when it raises. \<open>sx_keeps\<close> says that an invariant survives every
  outcome, \<open>sx_ensures\<close> what holds of a normal one.
\<close>

type_synonym ('s, 'a) sx = "'s \<Rightarrow> 'a result \<times> 's"

definition sx_return :: "'a \<Rightarrow> ('s, 'a) sx" where
  "sx_return a s = (Inr a, s)"

definition sx_raise :: "py_exn \<Rightarrow> ('s, 'a) sx" where
  "sx_raise e s = (Inl e, s)"

definition sx_bind :: "('s, 'a) sx \<Rightarrow> ('a \<Rightarrow> ('s, 'b) sx) \<Rightarrow> ('s, 'b) sx" where
  "sx_bind f g s = (case f s of (Inl e, s1) \<Rightarrow> (Inl e, s1) | (Inr a, s1) \<Rightarrow> g a s1)"

definition sx_get :: "('s, 's) sx" where
  "sx_get s = (Inr s, s)"

definition sx_modify :: "('s \<Rightarrow> 's) \<Rightarrow> ('s, unit) sx" where
  "sx_modify f s = (Inr (), f s)"

definition sx_assert :: "bool \<Rightarrow> ('s, unit) sx" where
  "sx_assert b = (if b then sx_return () else sx_raise AssertionError)"

lemma sx_simps [simp]:
  "sx_return a s = (Inr a, s)"
  "sx_raise e s = (Inl e, s)"
  "sx_bind (sx_return a) g = g a"
  "sx_bind (sx_raise e) g = sx_raise e"
  "sx_bind sx_get k s = k s s"
  "sx_bind (sx_modify f) h s = h () (f s)"
  "sx_modify f s = (Inr (), f s)"
  "sx_get s = (Inr s, s)"
  by (simp_all add: sx_return_def sx_raise_def sx_bind_def sx_get_def sx_modify_def fun_eq_iff)

lemma sx_bind_assoc: "sx_bind (sx_bind f g) h = sx_bind f (\<lambda>a. sx_bind (g a) h)"
  by (auto simp: sx_bind_def fun_eq_iff split: prod.split sum.split)

lemma sx_bind_Inr:
  "sx_bind f g s = (Inr b, s') \<longleftrightarrow> (\<exists>a s1. f s = (Inr a, s1) \<and> g a s1 = (Inr b, s'))"
  by (auto simp: sx_bind_def split: prod.splits sum.splits)

lemma sx_bind_cases:
  "(\<And>e s1. f s = (Inl e, s1) \<Longrightarrow> P (Inl e, s1)) \<Longrightarrow>
   (\<And>a s1. f s = (Inr a, s1) \<Longrightarrow> P (g a s1)) \<Longrightarrow> P (sx_bind f g s)"
  by (auto simp: sx_bind_def split: prod.splits sum.splits)

definition sx_keeps :: "('s \<Rightarrow> bool) \<Rightarrow> ('s, 'a) sx \<Rightarrow> bool" where
  "sx_keeps I f \<longleftrightarrow> (\<forall>s. I s \<longrightarrow> I (snd (f s)))"

lemma sx_keepsD: "sx_keeps I f \<Longrightarrow> I s \<Longrightarrow> f s = (r, s') \<Longrightarrow> I s'"
  by (fastforce simp: sx_keeps_def)

lemma sx_keeps_return [simp, intro]: "sx_keeps I (sx_return a)"
  by (simp add: sx_keeps_def)

lemma sx_keeps_raise [simp, intro]: "sx_keeps I (sx_raise e)"
  by (simp add: sx_keeps_def)

lemma sx_keeps_assert [simp, intro]: "sx_keeps I (sx_assert b)"
  by (simp add: sx_assert_def)

lemma sx_keeps_get [simp, intro]: "sx_keeps I sx_get"
  by (simp add: sx_keeps_def)

lemma sx_keeps_modify: "(\<And>s. I s \<Longrightarrow> I (f s)) \<Longrightarrow> sx_keeps I (sx_modify f)"
  by (simp add: sx_keeps_def)

lemma sx_keeps_bind [intro]:
  "sx_keeps I f \<Longrightarrow> (\<And>a. sx_keeps I (g a)) \<Longrightarrow> sx_keeps I (sx_bind f g)"
proof -
  assume f: "sx_keeps I f" and g: "\<And>a. sx_keeps I (g a)"
  have "I (snd (sx_bind f g s))" if "I s" for s
  proof (rule sx_bind_cases)
    show "I (snd (Inl e, s1))" if "f s = (Inl e, s1)" for e s1
      using sx_keepsD [OF f \<open>I s\<close> that] by simp
    show "I (snd (g a s1))" if "f s = (Inr a, s1)" for a s1
      using g sx_keepsD [OF f \<open>I s\<close> that] by (simp add: sx_keeps_def)
  qed
  then show "sx_keeps I (sx_bind f g)" by (simp add: sx_keeps_def)
qed

lemma sx_keeps_if [intro]:
  "(b \<Longrightarrow> sx_keeps I f) \<Longrightarrow> (\<not> b \<Longrightarrow> sx_keeps I g) \<Longrightarrow> sx_keeps I (if b then f else g)"
  by simp

lemma sx_keeps_option [intro]:
  "sx_keeps I f \<Longrightarrow> (\<And>x. sx_keeps I (g x)) \<Longrightarrow>
     sx_keeps I (case o1 of None \<Rightarrow> f | Some x \<Rightarrow> g x)"
  by (simp split: option.split)

fun sx_mapM :: "('a \<Rightarrow> ('s, 'b) sx) \<Rightarrow> 'a list \<Rightarrow> ('s, 'b list) sx" where
  "sx_mapM f [] = sx_return []"
| "sx_mapM f (x # xs) =
     sx_bind (f x) (\<lambda>y. sx_bind (sx_mapM f xs) (\<lambda>ys. sx_return (y # ys)))"

lemma sx_keeps_mapM [intro]: "(\<And>x. sx_keeps I (f x)) \<Longrightarrow> sx_keeps I (sx_mapM f xs)"
  by (induction xs) auto

text \<open>\<open>sx_ok P f Q I\<close>: from \<open>P\<close>, a normal outcome satisfies \<open>Q\<close> and an exception leaves \<open>I\<close>.\<close>

definition sx_ok ::
    "('s \<Rightarrow> bool) \<Rightarrow> ('s, 'a) sx \<Rightarrow> ('a \<Rightarrow> 's \<Rightarrow> bool) \<Rightarrow> ('s \<Rightarrow> bool) \<Rightarrow> bool" where
  "sx_ok P f Q I \<longleftrightarrow>
     (\<forall>s. P s \<longrightarrow> (case f s of (Inl _, s') \<Rightarrow> I s' | (Inr a, s') \<Rightarrow> Q a s'))"

lemma sx_okD:
  assumes "sx_ok P f Q I" "P s"
  shows "f s = (Inr a, s') \<Longrightarrow> Q a s'" "f s = (Inl e, s') \<Longrightarrow> I s'"
  using assms by (fastforce simp: sx_ok_def)+

lemma sx_ok_case:
  "sx_ok P f Q I \<Longrightarrow> P s \<Longrightarrow> case f s of (Inl _, s') \<Rightarrow> I s' | (Inr a, s') \<Rightarrow> Q a s'"
  by (simp add: sx_ok_def)

lemma sx_okI:
  "(\<And>s e s'. P s \<Longrightarrow> f s = (Inl e, s') \<Longrightarrow> I s') \<Longrightarrow>
   (\<And>s a s'. P s \<Longrightarrow> f s = (Inr a, s') \<Longrightarrow> Q a s') \<Longrightarrow> sx_ok P f Q I"
  by (auto simp: sx_ok_def split: prod.splits sum.splits)

lemma sx_ok_bind:
  assumes "sx_ok P f R I" "\<And>a. sx_ok (R a) (g a) Q I"
  shows "sx_ok P (sx_bind f g) Q I"
proof (rule sx_okI)
  fix s e s' assume P: "P s" and "sx_bind f g s = (Inl e, s')"
  then consider "f s = (Inl e, s')" | a s1 where "f s = (Inr a, s1)" "g a s1 = (Inl e, s')"
    by (auto simp: sx_bind_def split: prod.splits sum.splits)
  then show "I s'" using sx_okD [OF assms(1) P] sx_okD [OF assms(2)] by cases blast+
next
  fix s b s' assume P: "P s" and "sx_bind f g s = (Inr b, s')"
  then obtain a s1 where "f s = (Inr a, s1)" "g a s1 = (Inr b, s')" by (auto simp: sx_bind_Inr)
  then show "Q b s'" using sx_okD [OF assms(1) P] sx_okD [OF assms(2)] by blast
qed

lemma sx_ok_return: "(\<And>s. P s \<Longrightarrow> Q a s) \<Longrightarrow> sx_ok P (sx_return a) Q I"
  by (simp add: sx_ok_def)

lemma sx_ok_raise: "(\<And>s. P s \<Longrightarrow> I s) \<Longrightarrow> sx_ok P (sx_raise e) Q I"
  by (simp add: sx_ok_def)

lemma sx_ok_assert:
  "(\<And>s. P s \<Longrightarrow> I s) \<Longrightarrow> sx_ok P (sx_assert b) (\<lambda>_ s. P s \<and> b) I"
  by (simp add: sx_ok_def sx_assert_def)

lemma sx_ok_get: "sx_ok P sx_get (\<lambda>s0 s. P s \<and> s0 = s) I"
  by (simp add: sx_ok_def)

lemma sx_ok_modify: "(\<And>s. P s \<Longrightarrow> Q () (f s)) \<Longrightarrow> sx_ok P (sx_modify f) Q I"
  by (simp add: sx_ok_def)

lemma sx_ok_if:
  "sx_ok (\<lambda>s. P s \<and> b) f Q I \<Longrightarrow> sx_ok (\<lambda>s. P s \<and> \<not> b) g Q I \<Longrightarrow> sx_ok P (if b then f else g) Q I"
  by (simp add: sx_ok_def)

lemma sx_ok_pre: "sx_ok P f Q I \<Longrightarrow> (\<And>s. P' s \<Longrightarrow> P s) \<Longrightarrow> sx_ok P' f Q I"
  by (auto simp: sx_ok_def)

lemma sx_ok_post:
  "sx_ok P f Q I \<Longrightarrow> (\<And>a s. Q a s \<Longrightarrow> Q' a s) \<Longrightarrow> sx_ok P f Q' I"
  by (fastforce simp: sx_ok_def split: prod.splits sum.splits)

lemma sx_ok_pure: "(b \<Longrightarrow> sx_ok P f Q I) \<Longrightarrow> sx_ok (\<lambda>s. P s \<and> b) f Q I"
  by (auto simp: sx_ok_def)

lemma sx_ok_keeps: "sx_keeps I f \<longleftrightarrow> sx_ok I f (\<lambda>_. I) I"
  by (auto simp: sx_ok_def sx_keeps_def split: prod.splits sum.splits)
    (metis prod.collapse)

section \<open>List indexing\<close>

text \<open>\<open>xs[i]\<close>: a negative index counts from the end, any other miss raises.\<close>

definition py_index :: "'a list \<Rightarrow> int \<Rightarrow> nat option" where
  "py_index xs i =
     (if - int (length xs) \<le> i \<and> i < int (length xs)
      then Some (nat (i mod int (length xs))) else None)"

definition list_at :: "'a list \<Rightarrow> int \<Rightarrow> 'a result" where
  [py_simps]: "list_at xs i =
     (case py_index xs i of None \<Rightarrow> Inl IndexError | Some k \<Rightarrow> Inr (xs ! k))"

lemma list_at_nat [simp]: "k < length xs \<Longrightarrow> list_at xs (int k) = Inr (xs ! k)"
  by (simp add: list_at_def py_index_def)

lemma list_at_Cons [simp]:
  "list_at (x # xs) 0 = Inr x"
  "list_at (x # y # xs) 1 = Inr y"
  using list_at_nat [of 0 "x # xs"] list_at_nat [of 1 "x # y # xs"] by simp_all

lemma list_at_last: "xs \<noteq> [] \<Longrightarrow> list_at xs (- 1) = Inr (last xs)"
proof -
  assume "xs \<noteq> []"
  then have "(- 1 :: int) mod int (length xs) = int (length xs) - 1"
    by (simp add: zmod_minus1)
  then show ?thesis
    using \<open>xs \<noteq> []\<close>
    by (cases xs) (simp_all add: list_at_def py_index_def last_conv_nth nat_diff_distrib)
qed

lemma list_at_beyond: "int (length xs) \<le> i \<Longrightarrow> list_at xs i = Inl IndexError"
  by (simp add: list_at_def py_index_def)

text \<open>\<open>xs[:n]\<close>\<close>

definition slice_to :: "int \<Rightarrow> 'a list \<Rightarrow> 'a list" where
  "slice_to n xs = take (nat (if n < 0 then n + int (length xs) else n)) xs"

section \<open>Binary search\<close>

text \<open>
  \<open>bisect.bisect_left(a, x)\<close> halves the interval \<open>[lo, hi)\<close> and keeps the part in
  which the boundary lies; \<open>lt k\<close> stands for \<open>a[k] < x\<close>.
\<close>

function bisect_loop :: "(nat \<Rightarrow> bool) \<Rightarrow> nat \<Rightarrow> nat \<Rightarrow> nat" where
  "bisect_loop lt lo hi =
     (if lo < hi
      then let mid = (lo + hi) div 2
           in if lt mid then bisect_loop lt (Suc mid) hi else bisect_loop lt lo mid
      else lo)"
  by pat_completeness auto
termination
  by (relation "measure (\<lambda>(lt, lo, hi). hi - lo)") auto

declare bisect_loop.simps [simp del]

definition bisect_left :: "('a \<Rightarrow> bool) \<Rightarrow> 'a list \<Rightarrow> nat" where
  "bisect_left lt xs = bisect_loop (\<lambda>k. lt (xs ! k)) 0 (length xs)"

text \<open>
  On an input that is partitioned at \<open>b\<close> (which a sorted list is), the search
  returns the boundary.
\<close>

lemma bisect_loop_boundary:
  assumes "\<And>k. lo \<le> k \<Longrightarrow> k < hi \<Longrightarrow> lt k \<longleftrightarrow> k < b"
    and "lo \<le> b" "b \<le> hi"
  shows "bisect_loop lt lo hi = b"
  using assms
proof (induction lt lo hi rule: bisect_loop.induct)
  case (1 lt lo hi)
  let ?mid = "(lo + hi) div 2"
  show ?case
  proof (cases "lo < hi")
    case False
    then show ?thesis using "1.prems" by (simp add: bisect_loop.simps [of lt lo hi])
  next
    case lh: True
    then have mid: "lo \<le> ?mid" "?mid < hi" by auto
    show ?thesis
    proof (cases "lt ?mid")
      case True
      then have "?mid < b" using "1.prems"(1) mid by blast
      then have "bisect_loop lt (Suc ?mid) hi = b"
        using "1.IH"(1) [OF lh refl True] "1.prems" mid by simp
      then show ?thesis using lh True by (simp add: bisect_loop.simps [of lt lo hi] Let_def)
    next
      case False
      then have "b \<le> ?mid" using "1.prems"(1) mid by (meson not_le)
      then have "bisect_loop lt lo ?mid = b"
        using "1.IH"(2) [OF lh refl False] "1.prems" mid by simp
      then show ?thesis using lh False by (simp add: bisect_loop.simps [of lt lo hi] Let_def)
    qed
  qed
qed

lemma bisect_left_boundary:
  assumes "\<And>k. k < length xs \<Longrightarrow> lt (xs ! k) \<longleftrightarrow> k < b" and "b \<le> length xs"
  shows "bisect_left lt xs = b"
  unfolding bisect_left_def using assms by (intro bisect_loop_boundary) auto

lemma sorted_boundary_ex:
  fixes f :: "'a \<Rightarrow> 'b::linorder"
  assumes "sorted (map f xs)"
  shows "\<exists>b \<le> length xs. \<forall>k < length xs. f (xs ! k) < v \<longleftrightarrow> k < b"
proof -
  let ?b = "length (takeWhile (\<lambda>x. f x < v) xs)"
  have "f (xs ! k) < v \<longleftrightarrow> k < ?b" if k: "k < length xs" for k
  proof
    assume "k < ?b"
    then show "f (xs ! k) < v" by (metis nth_mem set_takeWhileD takeWhile_nth)
  next
    assume lt: "f (xs ! k) < v"
    show "k < ?b"
    proof (rule ccontr)
      assume "\<not> k < ?b"
      then have b: "?b \<le> k" "?b < length xs" using k by auto
      then have "\<not> f (xs ! ?b) < v" using nth_length_takeWhile by blast
      moreover have "f (xs ! ?b) \<le> f (xs ! k)"
        using assms b k by (metis length_map nth_map sorted_nth_mono)
      ultimately show False using lt by simp
    qed
  qed
  moreover have "?b \<le> length xs" by (rule length_takeWhile_le)
  ultimately show ?thesis by blast
qed

text \<open>The specification the callers use: the number of keys below the one searched for.\<close>

lemma bisect_left_sorted:
  fixes f :: "'a \<Rightarrow> 'b::linorder"
  assumes "sorted (map f xs)"
  shows "bisect_left (\<lambda>x. f x < v) xs \<le> length xs"
    and "\<And>k. k < length xs \<Longrightarrow> f (xs ! k) < v \<longleftrightarrow> k < bisect_left (\<lambda>x. f x < v) xs"
proof -
  obtain b where b: "b \<le> length xs" "\<forall>k < length xs. f (xs ! k) < v \<longleftrightarrow> k < b"
    using sorted_boundary_ex [OF assms] by blast
  then have eq: "bisect_left (\<lambda>x. f x < v) xs = b" by (intro bisect_left_boundary) auto
  show "bisect_left (\<lambda>x. f x < v) xs \<le> length xs" using b eq by simp
  show "\<And>k. k < length xs \<Longrightarrow> f (xs ! k) < v \<longleftrightarrow> k < bisect_left (\<lambda>x. f x < v) xs"
    using b eq by simp
qed

section \<open>State machines whose state never moves back\<close>

text \<open>
  \<open>fsm_run\<close> feeds a list of events to a step function; \<open>fsm_changes\<close> counts how often
  the state differs from the one before.
\<close>

definition fsm_run :: "('s \<Rightarrow> 'e \<Rightarrow> 's) \<Rightarrow> 's \<Rightarrow> 'e list \<Rightarrow> 's" where
  "fsm_run nxt s es = foldl nxt s es"

primrec fsm_changes :: "('s \<Rightarrow> 'e \<Rightarrow> 's) \<Rightarrow> 's \<Rightarrow> 'e list \<Rightarrow> nat" where
  "fsm_changes nxt s [] = 0"
| "fsm_changes nxt s (e # es) = (if nxt s e = s then 0 else 1) + fsm_changes nxt (nxt s e) es"

lemma fsm_run_simps [simp]:
  "fsm_run nxt s [] = s"
  "fsm_run nxt s (e # es) = fsm_run nxt (nxt s e) es"
  "fsm_run nxt s (es @ fs) = fsm_run nxt (fsm_run nxt s es) fs"
  by (simp_all add: fsm_run_def)

locale ranked_fsm =
  fixes nxt :: "'s \<Rightarrow> 'e \<Rightarrow> 's"
    and rank :: "'s \<Rightarrow> nat"
    and top :: nat
  assumes progress: "nxt s e \<noteq> s \<Longrightarrow> rank s < rank (nxt s e)"
    and rank_top: "rank s \<le> top"
begin

lemma step_rank: "rank s \<le> rank (nxt s e)"
  using progress by (cases "nxt s e = s") (auto simp: less_imp_le)

lemma run_rank: "rank s \<le> rank (fsm_run nxt s es)"
  by (induction es arbitrary: s) (auto intro: order_trans [OF step_rank])

lemma changes_rank: "fsm_changes nxt s es + rank s \<le> rank (fsm_run nxt s es)"
proof (induction es arbitrary: s)
  case (Cons e es)
  have "fsm_changes nxt (nxt s e) es + rank (nxt s e) \<le> rank (fsm_run nxt s (e # es))"
    using Cons.IH [of "nxt s e"] by simp
  then show ?case using progress [of s e] by (cases "nxt s e = s") auto
qed simp

lemma changes_bound: "fsm_changes nxt s es + rank s \<le> top"
  using changes_rank rank_top order_trans by blast

lemma top_absorbing: "rank s = top \<Longrightarrow> nxt s e = s"
  using progress [of s e] rank_top [of "nxt s e"] by fastforce

lemma no_return:
  assumes "nxt s e \<noteq> s"
  shows "fsm_run nxt (nxt s e) es \<noteq> s"
proof
  assume "fsm_run nxt (nxt s e) es = s"
  then have "rank (nxt s e) \<le> rank s" using run_rank by metis
  then show False using progress [OF assms] by simp
qed

end

end
