(* ===== verification/Channel.thy ===== *)
theory Channel
  imports Prelude Complex_Main
begin

text \<open>
  The bidirectional channel of \<open>fedlearner/channel/channel.py\<close>: its eleven states and
  six events, the transition table, every method of \<open>Channel\<close> that reads or writes the
  state, and the concurrent system they form (the state thread, the gRPC handler threads
  and the user), as an inductive step relation.

  A method takes the channel record and the clock readings it makes and returns the new
  record, or the exception it raises. Clock readings are rationals (the source's floats
  without rounding). The remote call of \<open>_call_locked\<close> releases the lock, so it is split
  there: a call to be made (\<open>Do_call\<close>) and the handling of its outcome (\<open>call_done\<close>).
  Log and metric calls have no counterpart. An event callback is user code and is modelled
  by the record that it was called; it is taken not to change the channel. The gRPC
  plumbing (\<open>unary_unary\<close> and its three siblings) is in the theory of the interceptors.
\<close>

section \<open>States, events and the transition table\<close>

datatype chan_state =
    S_IDLE
  | S_CONNECTING_UNCONNECTED
  | S_CONNECTED_UNCONNECTED
  | S_CONNECTING_CONNECTED
  | S_READY
  | S_CONNECTED_CLOSED
  | S_CLOSING_CONNECTED
  | S_CLOSING_CLOSED
  | S_CLOSED_CONNECTED
  | S_DONE
  | S_ERROR

datatype chan_event =
    E_CONNECTED | E_CLOSING | E_CLOSED | E_PEER_CONNECTED | E_PEER_CLOSED | E_ERROR

fun next_table :: "chan_state \<Rightarrow> chan_event \<rightharpoonup> chan_state" where
  "next_table S_IDLE = Map.empty"
| "next_table S_CONNECTING_UNCONNECTED =
     [E_CONNECTED \<mapsto> S_CONNECTED_UNCONNECTED,
      E_PEER_CONNECTED \<mapsto> S_CONNECTING_CONNECTED,
      E_ERROR \<mapsto> S_ERROR]"
| "next_table S_CONNECTED_UNCONNECTED =
     [E_PEER_CONNECTED \<mapsto> S_READY, E_ERROR \<mapsto> S_ERROR]"
| "next_table S_CONNECTING_CONNECTED =
     [E_CONNECTED \<mapsto> S_READY, E_ERROR \<mapsto> S_ERROR]"
| "next_table S_READY =
     [E_CLOSING \<mapsto> S_CLOSING_CONNECTED,
      E_PEER_CLOSED \<mapsto> S_CONNECTED_CLOSED,
      E_ERROR \<mapsto> S_ERROR]"
| "next_table S_CONNECTED_CLOSED =
     [E_CLOSING \<mapsto> S_CLOSING_CLOSED, E_CLOSED \<mapsto> S_DONE, E_ERROR \<mapsto> S_ERROR]"
| "next_table S_CLOSING_CONNECTED =
     [E_CLOSED \<mapsto> S_CLOSED_CONNECTED,
      E_PEER_CLOSED \<mapsto> S_CLOSING_CLOSED,
      E_ERROR \<mapsto> S_ERROR]"
| "next_table S_CLOSING_CLOSED = [E_CLOSED \<mapsto> S_DONE, E_ERROR \<mapsto> S_ERROR]"
| "next_table S_CLOSED_CONNECTED = [E_PEER_CLOSED \<mapsto> S_DONE, E_ERROR \<mapsto> S_ERROR]"
| "next_table S_DONE = Map.empty"
| "next_table S_ERROR = Map.empty"

definition next_state :: "chan_state \<Rightarrow> chan_event \<Rightarrow> chan_state" where
  "next_state s e = (case next_table s e of Some s' \<Rightarrow> s' | None \<Rightarrow> s)"

definition connecting_states :: "chan_state list" where
  "connecting_states = [S_CONNECTING_UNCONNECTED, S_CONNECTING_CONNECTED]"

definition closing_states :: "chan_state list" where
  "closing_states = [S_CLOSING_CONNECTED, S_CLOSING_CLOSED]"

definition peer_unconnected_states :: "chan_state list" where
  "peer_unconnected_states = [S_CONNECTING_UNCONNECTED, S_CONNECTED_UNCONNECTED]"

definition peer_closed_states :: "chan_state list" where
  "peer_closed_states = [S_CONNECTED_CLOSED, S_CLOSING_CLOSED]"

lemmas state_set_defs =
  connecting_states_def closing_states_def peer_unconnected_states_def peer_closed_states_def

text \<open>The level of a state: how far the handshake and the shutdown have come.\<close>

fun chan_rank :: "chan_state \<Rightarrow> nat" where
  "chan_rank S_IDLE = 0"
| "chan_rank S_CONNECTING_UNCONNECTED = 1"
| "chan_rank S_CONNECTED_UNCONNECTED = 2"
| "chan_rank S_CONNECTING_CONNECTED = 2"
| "chan_rank S_READY = 3"
| "chan_rank S_CONNECTED_CLOSED = 4"
| "chan_rank S_CLOSING_CONNECTED = 4"
| "chan_rank S_CLOSING_CLOSED = 5"
| "chan_rank S_CLOSED_CONNECTED = 5"
| "chan_rank S_DONE = 6"
| "chan_rank S_ERROR = 7"

interpretation chan_fsm: ranked_fsm next_state chan_rank 7
proof unfold_locales
  show "next_state s e \<noteq> s \<Longrightarrow> chan_rank s < chan_rank (next_state s e)" for s e
    by (cases s; cases e) (simp_all add: next_state_def)
  show "chan_rank s \<le> 7" for s by (cases s) simp_all
qed

section \<open>The channel object\<close>

datatype call_type = T_UNSET | T_CONNECT | T_HEARTBEAT | T_CLOSE

datatype code =
    C_OK | C_UNAUTHORIZED | C_UNIDENTIFIED | C_UNCONNECTED | C_CLOSED
  | C_UNKNOW_TYPE | C_EXCEPTION

text \<open>The \<open>ChannelError\<close> messages, one constructor per format string.\<close>

datatype chan_error =
    Err_unauthorized
  | Err_unidentified
  | Err_call_code code call_type
  | Err_response_code code
  | Err_heartbeat rat
  | Err_peer_heartbeat rat
  | Err_close_unready

record call_request =
  rq_type :: call_type
  rq_token :: string
  rq_identifier :: string
  rq_peer_identifier :: string

record call_response =
  rs_code :: code
  rs_timestamp :: int

record channel =
  ch_identifier :: string
  ch_peer_identifier :: string
  ch_token :: string
  ch_heartbeat_timeout :: rat
  ch_heartbeat_interval :: rat
  ch_next_heartbeat_at :: rat
  ch_heartbeat_timeout_at :: rat
  ch_peer_heartbeat_timeout_at :: rat
  ch_connected_at :: int
  ch_closed_at :: int
  ch_peer_connected_at :: int
  ch_peer_closed_at :: int
  ch_retry_interval :: rat
  ch_next_retry_at :: rat
  ch_ready_event :: bool
  ch_closed_event :: bool
  ch_error_event :: bool
  ch_state :: chan_state
  ch_error :: "chan_error option"
  ch_callbacks :: "chan_event \<Rightarrow> nat list"
  ch_called :: "(nat \<times> chan_event) list"
  ch_server_peer :: "string option"

definition channel_init ::
    "string \<Rightarrow> string option \<Rightarrow> rat \<Rightarrow> rat \<Rightarrow> channel result" where
  "channel_init uuid token heartbeat_timeout retry_interval =
     (if heartbeat_timeout \<le> 0 then Inl ValueError
      else if retry_interval \<le> 0 then Inl ValueError
      else Inr
        \<lparr>ch_identifier = take 16 uuid,
         ch_peer_identifier = '''',
         ch_token = (case token of Some t \<Rightarrow> t | None \<Rightarrow> ''''),
         ch_heartbeat_timeout = heartbeat_timeout,
         ch_heartbeat_interval = heartbeat_timeout / 6,
         ch_next_heartbeat_at = 0,
         ch_heartbeat_timeout_at = 0,
         ch_peer_heartbeat_timeout_at = 0,
         ch_connected_at = 0,
         ch_closed_at = 0,
         ch_peer_connected_at = 0,
         ch_peer_closed_at = 0,
         ch_retry_interval = retry_interval,
         ch_next_retry_at = 0,
         ch_ready_event = False,
         ch_closed_event = False,
         ch_error_event = False,
         ch_state = S_IDLE,
         ch_error = None,
         ch_callbacks = (\<lambda>_. []),
         ch_called = [],
         ch_server_peer = None\<rparr>)"

definition connected_at :: "channel \<Rightarrow> int" where
  "connected_at ch =
     (if ch_state ch = S_IDLE then 0 else max (ch_connected_at ch) (ch_peer_connected_at ch))"

definition closed_at :: "channel \<Rightarrow> int" where
  "closed_at ch =
     (if ch_state ch \<noteq> S_DONE then 0 else max (ch_closed_at ch) (ch_peer_closed_at ch))"

section \<open>Emitting events\<close>

definition event_callback :: "chan_event \<Rightarrow> channel \<Rightarrow> channel" where
  "event_callback ev ch =
     ch\<lparr>ch_called := ch_called ch @ map (\<lambda>cb. (cb, ev)) (ch_callbacks ch ev)\<rparr>"

text \<open>
  \<open>_emit_event\<close>. Only a move to \<open>ERROR\<close> records the error, and it asserts that one was
  given; a move to \<open>READY\<close> sets the ready event. An event with no entry in the table
  changes nothing and calls nobody.
\<close>

definition emit_event :: "chan_event \<Rightarrow> chan_error option \<Rightarrow> channel \<Rightarrow> channel result" where
  "emit_event ev err ch =
     (let s' = next_state (ch_state ch) ev
      in if ch_state ch \<noteq> s'
         then let ch1 = ch\<lparr>ch_state := s'\<rparr>
              in if s' = S_ERROR
                 then py_assert (err \<noteq> None)
                        (Inr (event_callback ev
                                (ch1\<lparr>ch_error_event := True, ch_error := err\<rparr>)))
                 else if s' = S_READY
                 then Inr (event_callback ev (ch1\<lparr>ch_ready_event := True\<rparr>))
                 else Inr (event_callback ev ch1)
         else Inr ch)"

definition emit_error :: "chan_error \<Rightarrow> channel \<Rightarrow> channel result" where
  "emit_error err ch = emit_event E_ERROR (Some err) ch"

text \<open>\<open>subscribe\<close>: without an event the callback is added to every one of them.\<close>

definition subscribe :: "nat \<Rightarrow> chan_event option \<Rightarrow> channel \<Rightarrow> channel" where
  "subscribe cb evo ch =
     (case evo of
        Some ev \<Rightarrow> ch\<lparr>ch_callbacks := (ch_callbacks ch)(ev := ch_callbacks ch ev @ [cb])\<rparr>
      | None \<Rightarrow> ch\<lparr>ch_callbacks := (\<lambda>ev. ch_callbacks ch ev @ [cb])\<rparr>)"

text \<open>What a caller of the public methods can get besides a result.\<close>

datatype chan_exn = Raise_error "chan_error option" | Reconnect | Close_before_connect | Py py_exn

definition lift_py :: "'a result \<Rightarrow> chan_exn + 'a" where
  "lift_py r = (case r of Inl e \<Rightarrow> Inl (Py e) | Inr a \<Rightarrow> Inr a)"

definition raise_if_error :: "channel \<Rightarrow> chan_exn option" where
  "raise_if_error ch = (if ch_error_event ch then Some (Raise_error (ch_error ch)) else None)"

text \<open>
  \<open>wait_for_ready\<close> and \<open>wait_for_closed\<close> at the moment their wait ends: \<open>event.wait\<close>
  returns whether the event is set, then the error is raised if there is one.
\<close>

definition wait_for_ready :: "channel \<Rightarrow> chan_exn + bool" where
  "wait_for_ready ch =
     (case raise_if_error ch of Some e \<Rightarrow> Inl e | None \<Rightarrow> Inr (ch_ready_event ch))"

definition wait_for_closed :: "channel \<Rightarrow> chan_exn + bool" where
  "wait_for_closed ch =
     (case raise_if_error ch of Some e \<Rightarrow> Inl e | None \<Rightarrow> Inr (ch_closed_event ch))"

definition connect :: "channel \<Rightarrow> chan_exn + channel" where
  "connect ch =
     (case raise_if_error ch of
        Some e \<Rightarrow> Inl e
      | None \<Rightarrow>
          if ch_state ch \<noteq> S_IDLE then Inl Reconnect
          else Inr (ch\<lparr>ch_state := S_CONNECTING_UNCONNECTED\<rparr>))"

definition close :: "channel \<Rightarrow> chan_exn + channel" where
  "close ch =
     (case raise_if_error ch of
        Some e \<Rightarrow> Inl e
      | None \<Rightarrow>
          if ch_state ch = S_IDLE then Inl Close_before_connect
          else if ch_state ch \<in> set [S_CONNECTING_UNCONNECTED, S_CONNECTED_UNCONNECTED,
                                     S_CONNECTING_CONNECTED]
          then lift_py (emit_error Err_close_unready ch)
          else lift_py (emit_event E_CLOSING None ch))"

text \<open>
  \<open>_channel_response_check_fn\<close>, called on every response of a wrapped call: the channel
  after it and what it raises, if anything.
\<close>

definition channel_response_check ::
    "code \<Rightarrow> channel \<Rightarrow> (channel \<times> chan_exn option) result" where
  "channel_response_check c ch =
     (case raise_if_error ch of
        Some e \<Rightarrow> Inr (ch, Some e)
      | None \<Rightarrow>
          if c = C_OK then Inr (ch, None)
          else bind_result
                 (emit_error (if c = C_UNIDENTIFIED then Err_unidentified
                              else Err_response_code c) ch)
                 (\<lambda>ch'. Inr (ch', raise_if_error ch')))"

section \<open>The state thread\<close>

definition refresh_heartbeat_timeout :: "rat \<Rightarrow> channel \<Rightarrow> channel" where
  "refresh_heartbeat_timeout now ch =
     ch\<lparr>ch_heartbeat_timeout_at := now + ch_heartbeat_timeout ch,
        ch_next_heartbeat_at := now + ch_heartbeat_interval ch\<rparr>"

definition refresh_peer_heartbeat_timeout :: "rat \<Rightarrow> channel \<Rightarrow> channel" where
  "refresh_peer_heartbeat_timeout now ch =
     ch\<lparr>ch_peer_heartbeat_timeout_at := now + ch_heartbeat_timeout ch\<rparr>"

definition make_call_request :: "call_type \<Rightarrow> channel \<Rightarrow> call_request" where
  "make_call_request ct ch =
     \<lparr>rq_type = ct, rq_token = ch_token ch, rq_identifier = ch_identifier ch,
      rq_peer_identifier = ch_peer_identifier ch\<rparr>"

text \<open>
  \<open>_call_locked\<close> once the lock is held again. \<open>None\<close> is a call that raised; then nothing
  changes and the method returns False.
\<close>

definition call_done ::
    "rat \<Rightarrow> call_type \<Rightarrow> call_response option \<Rightarrow> channel \<Rightarrow> (bool \<times> channel) result" where
  "call_done now ct res ch =
     (case res of
        None \<Rightarrow> Inr (False, ch)
      | Some r \<Rightarrow>
          if rs_code r = C_OK then
            let ch1 = refresh_heartbeat_timeout now ch
            in if ct = T_CONNECT
               then bind_result (emit_event E_CONNECTED None (ch1\<lparr>ch_connected_at := rs_timestamp r\<rparr>))
                      (\<lambda>ch2. Inr (True, ch2))
               else if ct = T_CLOSE
               then bind_result (emit_event E_CLOSED None (ch1\<lparr>ch_closed_at := rs_timestamp r\<rparr>))
                      (\<lambda>ch2. Inr (True, ch2))
               else Inr (True, ch1)
          else if rs_code r = C_UNAUTHORIZED then
            bind_result (emit_event E_ERROR (Some Err_unauthorized) ch) (\<lambda>ch1. Inr (False, ch1))
          else if rs_code r = C_UNIDENTIFIED then
            if ch_peer_identifier ch = '''' then Inr (False, ch)
            else bind_result (emit_error Err_unidentified ch) (\<lambda>ch1. Inr (False, ch1))
          else bind_result (emit_error (Err_call_code (rs_code r) ct) ch)
                 (\<lambda>ch1. Inr (False, ch1)))"

text \<open>
  One round of the loop of \<open>_state_fn\<close> up to the point where it breaks, starts over,
  releases the lock for a call, or waits on the condition.
\<close>

datatype thread_action = Break | Continue | Do_call call_type | Wait rat

text \<open>The two tests for a connection that is lost, in one's own and in the peer's direction.\<close>

definition own_timed_out :: "rat \<Rightarrow> channel \<Rightarrow> bool" where
  "own_timed_out now ch =
     (ch_state ch \<notin> set connecting_states \<and> ch_heartbeat_timeout_at ch \<le> now)"

definition peer_timed_out :: "rat \<Rightarrow> channel \<Rightarrow> bool" where
  "peer_timed_out now ch =
     (ch_state ch \<notin> set peer_unconnected_states \<and> ch_peer_heartbeat_timeout_at ch \<le> now)"

definition state_fn_round :: "rat \<Rightarrow> channel \<Rightarrow> (thread_action \<times> channel) result" where
  "state_fn_round now ch =
     (if ch_state ch \<in> set [S_DONE, S_ERROR] then Inr (Break, ch)
      else if own_timed_out now ch
      then bind_result (emit_error (Err_heartbeat (ch_heartbeat_timeout ch)) ch)
             (\<lambda>ch1. Inr (Continue, ch1))
      else let w1 = (if ch_state ch \<notin> set connecting_states
                     then min 10 (ch_heartbeat_timeout_at ch - now) else 10)
      in if peer_timed_out now ch
      then bind_result (emit_error (Err_peer_heartbeat (ch_heartbeat_timeout ch)) ch)
             (\<lambda>ch1. Inr (Continue, ch1))
      else let w2 = (if ch_state ch \<notin> set peer_unconnected_states
                     then min w1 (ch_peer_heartbeat_timeout_at ch - now) else w1)
      in if ch_next_retry_at ch \<le> now
      then let ch1 = ch\<lparr>ch_next_retry_at := 0\<rparr>
           in if ch_state ch \<in> set connecting_states then Inr (Do_call T_CONNECT, ch1)
              else if ch_state ch \<in> set closing_states then Inr (Do_call T_CLOSE, ch1)
              else if ch_next_heartbeat_at ch \<le> now then Inr (Do_call T_HEARTBEAT, ch1)
              else Inr (Wait (min w2 (ch_next_heartbeat_at ch - now)), ch1)
      else Inr (Wait (min w2 (ch_next_retry_at ch - now)), ch))"

text \<open>The part of the round after \<open>_call_locked\<close> returned, for the call it made.\<close>

definition state_fn_resume :: "rat \<Rightarrow> call_type \<Rightarrow> bool \<Rightarrow> channel \<Rightarrow> channel result" where
  "state_fn_resume now ct ok ch =
     (case ct of
        T_CONNECT \<Rightarrow>
          if ok then bind_result (emit_event E_CONNECTED None ch)
                       (\<lambda>ch1. Inr (refresh_heartbeat_timeout now ch1))
          else Inr (ch\<lparr>ch_next_retry_at := now + ch_retry_interval ch\<rparr>)
      | T_CLOSE \<Rightarrow>
          if ok then bind_result (emit_event E_CLOSED None ch)
                       (\<lambda>ch1. Inr (refresh_heartbeat_timeout now ch1))
          else Inr (ch\<lparr>ch_next_retry_at := 0\<rparr>)
      | _ \<Rightarrow>
          if ok then Inr (refresh_heartbeat_timeout now ch)
          else Inr (ch\<lparr>ch_next_retry_at :=
                 now + min (ch_heartbeat_interval ch) (ch_retry_interval ch)\<rparr>))"

text \<open>After the loop, once the server has stopped, both events are set.\<close>

definition state_fn_exit :: "channel \<Rightarrow> channel" where
  "state_fn_exit ch = ch\<lparr>ch_ready_event := True, ch_closed_event := True\<rparr>"

section \<open>The handler of the peer's calls\<close>

definition check_token :: "string \<Rightarrow> channel \<Rightarrow> bool" where
  "check_token token ch = (ch_token ch = token)"

definition check_identifier :: "string \<Rightarrow> string \<Rightarrow> channel \<Rightarrow> bool \<times> channel" where
  "check_identifier identifier peer_identifier ch =
     (if peer_identifier \<noteq> '''' \<and> ch_identifier ch \<noteq> peer_identifier then (False, ch)
      else if identifier = '''' then (False, ch)
      else let ch1 = (if ch_peer_identifier ch = ''''
                      then ch\<lparr>ch_peer_identifier := identifier,
                              ch_server_peer := Some identifier\<rparr>
                      else ch)
           in (ch_peer_identifier ch1 = identifier, ch1))"

definition plain_response :: "code \<Rightarrow> call_response" where
  "plain_response c = \<lparr>rs_code = c, rs_timestamp = 0\<rparr>"

text \<open>The answers to CONNECT and CLOSE; the time of the first one is kept.\<close>

definition accept_connect :: "rat \<Rightarrow> channel \<Rightarrow> (call_response \<times> channel) result" where
  "accept_connect now ch =
     bind_result (emit_event E_PEER_CONNECTED None ch) (\<lambda>ch1.
       let ch2 = refresh_peer_heartbeat_timeout now ch1;
           ch3 = (if ch_peer_connected_at ch2 = 0
                  then ch2\<lparr>ch_peer_connected_at := \<lfloor>now\<rfloor>\<rparr> else ch2)
       in Inr (\<lparr>rs_code = C_OK, rs_timestamp = ch_peer_connected_at ch3\<rparr>, ch3))"

definition accept_close :: "rat \<Rightarrow> channel \<Rightarrow> (call_response \<times> channel) result" where
  "accept_close now ch =
     bind_result (emit_event E_PEER_CLOSED None ch) (\<lambda>ch1.
       let ch2 = refresh_peer_heartbeat_timeout now ch1;
           ch3 = (if ch_peer_closed_at ch2 = 0
                  then ch2\<lparr>ch_peer_closed_at := \<lfloor>now\<rfloor>\<rparr> else ch2)
       in Inr (\<lparr>rs_code = C_OK, rs_timestamp = ch_peer_closed_at ch3\<rparr>, ch3))"

text \<open>The part of \<open>_call_handler\<close> that runs under the lock.\<close>

definition call_handler_locked ::
    "rat \<Rightarrow> call_type \<Rightarrow> channel \<Rightarrow> (call_response \<times> channel) result" where
  "call_handler_locked now ct ch =
     (if ch_state ch = S_ERROR then Inr (plain_response C_EXCEPTION, ch)
      else if ct = T_CONNECT then
        if ch_state ch \<in> set peer_closed_states then Inr (plain_response C_CLOSED, ch)
        else accept_connect now ch
      else if ch_state ch \<in> set peer_unconnected_states then
        Inr (plain_response C_UNCONNECTED, ch)
      else if ct = T_HEARTBEAT then
        Inr (\<lparr>rs_code = C_OK, rs_timestamp = \<lfloor>now\<rfloor>\<rparr>, refresh_peer_heartbeat_timeout now ch)
      else if ct = T_CLOSE then accept_close now ch
      else Inr (plain_response C_UNKNOW_TYPE, ch))"

definition call_handler ::
    "rat \<Rightarrow> call_request \<Rightarrow> channel \<Rightarrow> (call_response \<times> channel) result" where
  "call_handler now rq ch =
     (if \<not> check_token (rq_token rq) ch then Inr (plain_response C_UNAUTHORIZED, ch)
      else case check_identifier (rq_identifier rq) (rq_peer_identifier rq) ch of
        (ok, ch1) \<Rightarrow>
          if \<not> ok then Inr (plain_response C_UNIDENTIFIED, ch1)
          else call_handler_locked now (rq_type rq) ch1)"

end
