(* ===== verification/Channel_System.thy ===== *)
theory Channel_System
  imports Channel
begin

text \<open>
  The channel under concurrency: the state thread, the handler threads of the gRPC server
  and the user's calls interleave, each atomic between two points where the lock is
  released. The step relation \<open>chan_step\<close> has a rule per such piece of code. The
  invariant \<open>chan_inv\<close> ties the state of the channel to what has happened: no channel is
  ready before its own CONNECT was acknowledged and the peer's was accepted, and none is
  done before the same holds of the two CLOSE calls.
\<close>

section \<open>What an emitted event does\<close>

text \<open>The effect of an event once its assertion holds.\<close>

definition emitted :: "chan_event \<Rightarrow> chan_error option \<Rightarrow> channel \<Rightarrow> channel" where
  "emitted ev err ch = (case emit_event ev err ch of Inr c \<Rightarrow> c | Inl _ \<Rightarrow> ch)"

lemma next_state_ERROR [simp]:
  "next_state s ev = S_ERROR \<longleftrightarrow> s = S_ERROR \<or> (ev = E_ERROR \<and> s \<notin> {S_IDLE, S_DONE})"
  by (cases s; cases ev) (simp_all add: next_state_def)

lemma next_state_absorbing [simp]:
  "next_state S_ERROR ev = S_ERROR" "next_state S_DONE ev = S_DONE" "next_state S_IDLE ev = S_IDLE"
  by (simp_all add: next_state_def)

lemma next_state_E_ERROR [simp]:
  "next_state s E_ERROR = (if s \<in> {S_IDLE, S_DONE} then s else S_ERROR)"
  by (cases s) (simp_all add: next_state_def)

lemma emit_event_emitted [simp]:
  "ev \<noteq> E_ERROR \<Longrightarrow> emit_event ev None ch = Inr (emitted ev None ch)"
  "emit_event ev (Some e) ch = Inr (emitted ev (Some e) ch)"
  by (auto simp: emitted_def emit_event_def py_assert_def Let_def)

lemma emit_error_emitted [simp]: "emit_error e ch = Inr (emitted E_ERROR (Some e) ch)"
  by (simp add: emit_error_def)

lemma next_state_READY_change:
  "next_state s ev = S_READY \<Longrightarrow> s \<noteq> S_READY \<Longrightarrow> s \<noteq> S_ERROR \<and> ev \<noteq> E_ERROR"
  by (cases s; cases ev) (simp_all add: next_state_def)

text \<open>\<open>emitted\<close> by fields: the state follows the table, everything else but the events
  and the error is untouched.\<close>

lemma emitted_sel:
  assumes "ev \<noteq> E_ERROR \<or> err \<noteq> None"
  shows "ch_state (emitted ev err ch) = next_state (ch_state ch) ev"
    and "ch_ready_event (emitted ev err ch) =
      (ch_ready_event ch \<or> (ch_state ch \<noteq> S_READY \<and> next_state (ch_state ch) ev = S_READY))"
    and "ch_error_event (emitted ev err ch) =
      (ch_error_event ch \<or> (ch_state ch \<noteq> S_ERROR \<and> next_state (ch_state ch) ev = S_ERROR))"
    and "ch_error (emitted ev err ch) =
      (if ch_state ch \<noteq> S_ERROR \<and> next_state (ch_state ch) ev = S_ERROR then err
       else ch_error ch)"
  using assms
  by (auto simp: emitted_def emit_event_def event_callback_def py_assert_def Let_def)

lemma emitted_frame [simp]:
  "ch_identifier (emitted ev err ch) = ch_identifier ch"
  "ch_peer_identifier (emitted ev err ch) = ch_peer_identifier ch"
  "ch_token (emitted ev err ch) = ch_token ch"
  "ch_heartbeat_timeout (emitted ev err ch) = ch_heartbeat_timeout ch"
  "ch_heartbeat_interval (emitted ev err ch) = ch_heartbeat_interval ch"
  "ch_next_heartbeat_at (emitted ev err ch) = ch_next_heartbeat_at ch"
  "ch_heartbeat_timeout_at (emitted ev err ch) = ch_heartbeat_timeout_at ch"
  "ch_peer_heartbeat_timeout_at (emitted ev err ch) = ch_peer_heartbeat_timeout_at ch"
  "ch_connected_at (emitted ev err ch) = ch_connected_at ch"
  "ch_closed_at (emitted ev err ch) = ch_closed_at ch"
  "ch_peer_connected_at (emitted ev err ch) = ch_peer_connected_at ch"
  "ch_peer_closed_at (emitted ev err ch) = ch_peer_closed_at ch"
  "ch_retry_interval (emitted ev err ch) = ch_retry_interval ch"
  "ch_next_retry_at (emitted ev err ch) = ch_next_retry_at ch"
  "ch_closed_event (emitted ev err ch) = ch_closed_event ch"
  "ch_server_peer (emitted ev err ch) = ch_server_peer ch"
  by (auto simp: emitted_def emit_event_def event_callback_def py_assert_def Let_def
      split: if_splits)

lemma emitted_sel_simps [simp]:
  "ev \<noteq> E_ERROR \<Longrightarrow> ch_state (emitted ev None ch) = next_state (ch_state ch) ev"
  "ch_state (emitted ev (Some e) ch) = next_state (ch_state ch) ev"
  by (simp_all add: emitted_sel)

section \<open>The system\<close>

text \<open>
  The phase of the state thread: \<open>At_top\<close> of the loop, or with the lock released inside
  \<open>_call_locked\<close>, or past the loop. \<open>cs_pending\<close> holds the calls of the peer that have
  passed the token and identifier checks, which run before the lock is taken. The ghosts
  \<open>cs_connect_acked\<close> and \<open>cs_close_acked\<close> record that an OK answer to that call came in.
\<close>

datatype phase = Not_started | At_top | Calling call_type | Stopping | Exited

record chan_sys =
  cs_ch :: channel
  cs_phase :: phase
  cs_pending :: "call_type list"
  cs_connect_acked :: bool
  cs_close_acked :: bool

definition acked :: "call_type \<Rightarrow> call_response option \<Rightarrow> call_type \<Rightarrow> bool" where
  "acked ct res ct' = (ct = ct' \<and> (\<exists>r. res = Some r \<and> rs_code r = C_OK))"

inductive chan_step :: "chan_sys \<Rightarrow> chan_sys \<Rightarrow> bool" where
  connect:
    "connect (cs_ch s) = Inr c \<Longrightarrow> chan_step s (s\<lparr>cs_ch := c\<rparr>)"
| start:
    "cs_phase s = Not_started \<Longrightarrow> ch_state (cs_ch s) \<noteq> S_IDLE \<Longrightarrow>
     chan_step s (s\<lparr>cs_phase := At_top\<rparr>)"
| subscribe:
    "chan_step s (s\<lparr>cs_ch := subscribe cb ev (cs_ch s)\<rparr>)"
| close:
    "close (cs_ch s) = Inr c \<Longrightarrow> chan_step s (s\<lparr>cs_ch := c\<rparr>)"
| check:
    "channel_response_check cd (cs_ch s) = Inr (c, e) \<Longrightarrow> cs_phase s \<noteq> Not_started \<Longrightarrow>
     chan_step s (s\<lparr>cs_ch := c\<rparr>)"
| round_break:
    "cs_phase s = At_top \<Longrightarrow> state_fn_round now (cs_ch s) = Inr (Break, c) \<Longrightarrow>
     chan_step s (s\<lparr>cs_ch := c, cs_phase := Stopping\<rparr>)"
| round_again:
    "cs_phase s = At_top \<Longrightarrow> state_fn_round now (cs_ch s) = Inr (a, c) \<Longrightarrow>
     a = Continue \<or> a = Wait t \<Longrightarrow> chan_step s (s\<lparr>cs_ch := c\<rparr>)"
| round_call:
    "cs_phase s = At_top \<Longrightarrow> state_fn_round now (cs_ch s) = Inr (Do_call ct, c) \<Longrightarrow>
     chan_step s (s\<lparr>cs_ch := c, cs_phase := Calling ct\<rparr>)"
| call_return:
    "cs_phase s = Calling ct \<Longrightarrow> call_done now ct res (cs_ch s) = Inr (ok, c) \<Longrightarrow>
     state_fn_resume now' ct ok c = Inr c' \<Longrightarrow>
     chan_step s (s\<lparr>cs_ch := c', cs_phase := At_top,
       cs_connect_acked := cs_connect_acked s \<or> acked ct res T_CONNECT,
       cs_close_acked := cs_close_acked s \<or> acked ct res T_CLOSE\<rparr>)"
| thread_exit:
    "cs_phase s = Stopping \<Longrightarrow>
     chan_step s (s\<lparr>cs_ch := state_fn_exit (cs_ch s), cs_phase := Exited\<rparr>)"
| peer_check:
    "cs_phase s \<in> {At_top, Stopping} \<union> range Calling \<Longrightarrow> check_token (rq_token (rq :: call_request)) (cs_ch s) \<Longrightarrow>
     check_identifier (rq_identifier rq) (rq_peer_identifier rq) (cs_ch s) = (ok, c) \<Longrightarrow>
     chan_step s (s\<lparr>cs_ch := c,
       cs_pending := (if ok then rq_type rq # cs_pending s else cs_pending s)\<rparr>)"
| peer_locked:
    "ct \<in> set (cs_pending s) \<Longrightarrow> 1 \<le> now \<Longrightarrow>
     call_handler_locked now ct (cs_ch s) = Inr (rs, c) \<Longrightarrow>
     chan_step s (s\<lparr>cs_ch := c, cs_pending := remove1 ct (cs_pending s)\<rparr>)"

definition chan_start :: "channel \<Rightarrow> chan_sys" where
  "chan_start ch = \<lparr>cs_ch = ch, cs_phase = Not_started, cs_pending = [],
                    cs_connect_acked = False, cs_close_acked = False\<rparr>"

inductive chan_reach :: "channel \<Rightarrow> chan_sys \<Rightarrow> bool" for ch0 :: channel where
  start: "chan_reach ch0 (chan_start ch0)"
| step: "chan_reach ch0 s \<Longrightarrow> chan_step s t \<Longrightarrow> chan_reach ch0 t"

section \<open>The invariant\<close>

definition own_connected :: "chan_state \<Rightarrow> bool" where
  "own_connected s \<longleftrightarrow> s \<notin> {S_IDLE, S_CONNECTING_UNCONNECTED, S_CONNECTING_CONNECTED, S_ERROR}"

definition peer_connected :: "chan_state \<Rightarrow> bool" where
  "peer_connected s \<longleftrightarrow>
     s \<notin> {S_IDLE, S_CONNECTING_UNCONNECTED, S_CONNECTED_UNCONNECTED, S_ERROR}"

text \<open>What the fields of the channel say of each other.\<close>

definition channel_inv :: "channel \<Rightarrow> bool" where
  "channel_inv ch \<longleftrightarrow>
     (ch_error_event ch \<longleftrightarrow> ch_state ch = S_ERROR) \<and>
     (ch_error ch \<noteq> None \<longleftrightarrow> ch_state ch = S_ERROR) \<and>
     (ch_ready_event ch \<longrightarrow> 3 \<le> chan_rank (ch_state ch)) \<and>
     (peer_connected (ch_state ch) \<longrightarrow> ch_peer_identifier ch \<noteq> '''' \<and> 1 \<le> ch_peer_connected_at ch) \<and>
     (ch_state ch \<in> {S_CONNECTED_CLOSED, S_CLOSING_CLOSED, S_DONE} \<longrightarrow> 1 \<le> ch_peer_closed_at ch) \<and>
     0 \<le> ch_peer_connected_at ch \<and> 0 \<le> ch_peer_closed_at ch \<and>
     ch_server_peer ch =
       (if ch_peer_identifier ch = '''' then None else Some (ch_peer_identifier ch))"

text \<open>How the channel agrees with the state thread, the pending calls and the ghosts.\<close>

definition thread_inv :: "phase \<Rightarrow> chan_state \<Rightarrow> bool" where
  "thread_inv p s \<longleftrightarrow>
     (p = Calling T_CONNECT \<longrightarrow> s \<in> {S_CONNECTING_UNCONNECTED, S_CONNECTING_CONNECTED, S_ERROR}) \<and>
     (p = Calling T_CLOSE \<longrightarrow> s \<in> {S_CLOSING_CONNECTED, S_CLOSING_CLOSED, S_ERROR}) \<and>
     (p \<in> {Stopping, Exited} \<longrightarrow> s \<in> {S_DONE, S_ERROR}) \<and>
     p \<noteq> Calling T_UNSET \<and>
     (p \<noteq> Not_started \<longrightarrow> s \<noteq> S_IDLE)"

definition chan_inv :: "chan_sys \<Rightarrow> bool" where
  "chan_inv s \<longleftrightarrow>
     channel_inv (cs_ch s) \<and> thread_inv (cs_phase s) (ch_state (cs_ch s)) \<and>
     (own_connected (ch_state (cs_ch s)) \<longrightarrow> cs_connect_acked s) \<and>
     (ch_state (cs_ch s) \<in> {S_CLOSED_CONNECTED, S_DONE} \<longrightarrow> cs_close_acked s) \<and>
     (ch_closed_event (cs_ch s) \<longleftrightarrow> cs_phase s = Exited) \<and>
     (cs_pending s \<noteq> [] \<longrightarrow> ch_peer_identifier (cs_ch s) \<noteq> '''' \<and> cs_phase s \<noteq> Not_started)"

lemmas inv_defs = chan_inv_def channel_inv_def thread_inv_def own_connected_def peer_connected_def

subsection \<open>Each operation keeps the channel's part\<close>

text \<open>
  An emitted event keeps it when what the new state promises holds already; the frame
  facts of \<open>emitted\<close> do the rest.
\<close>

lemma channel_inv_emitted:
  assumes "channel_inv ch" and "ev \<noteq> E_ERROR \<or> err \<noteq> None"
    and "peer_connected (next_state (ch_state ch) ev) \<Longrightarrow>
      ch_peer_identifier ch \<noteq> '''' \<and> 1 \<le> ch_peer_connected_at ch"
    and "next_state (ch_state ch) ev \<in> {S_CONNECTED_CLOSED, S_CLOSING_CLOSED, S_DONE} \<Longrightarrow>
      1 \<le> ch_peer_closed_at ch"
  shows "channel_inv (emitted ev err ch)"
proof -
  have rank: "chan_rank (ch_state ch) \<le> chan_rank (next_state (ch_state ch) ev)"
    by (rule chan_fsm.step_rank)
  show ?thesis
    unfolding channel_inv_def
    using assms rank by (auto simp: channel_inv_def emitted_sel)
qed

lemma own_event_backward:
  assumes "ev \<notin> {E_PEER_CONNECTED, E_PEER_CLOSED}"
  shows "peer_connected (next_state s ev) \<Longrightarrow> peer_connected s"
    and "next_state s ev \<in> {S_CONNECTED_CLOSED, S_CLOSING_CLOSED, S_DONE} \<Longrightarrow>
      s \<in> {S_CONNECTED_CLOSED, S_CLOSING_CLOSED, S_DONE}"
  using assms by (cases s; cases ev; simp add: next_state_def peer_connected_def)+

lemma channel_inv_own_event:
  assumes "channel_inv ch" and "ev \<noteq> E_ERROR \<or> err \<noteq> None"
    and "ev \<notin> {E_PEER_CONNECTED, E_PEER_CLOSED}"
  shows "channel_inv (emitted ev err ch)"
proof (rule channel_inv_emitted [OF assms(1,2)])
  assume "peer_connected (next_state (ch_state ch) ev)"
  then show "ch_peer_identifier ch \<noteq> '''' \<and> 1 \<le> ch_peer_connected_at ch"
    using own_event_backward(1) [OF assms(3)] assms(1) unfolding channel_inv_def by blast
next
  assume "next_state (ch_state ch) ev \<in> {S_CONNECTED_CLOSED, S_CLOSING_CLOSED, S_DONE}"
  then show "1 \<le> ch_peer_closed_at ch"
    using own_event_backward(2) [OF assms(3)] assms(1) unfolding channel_inv_def by blast
qed

text \<open>Updates of fields the invariant does not read.\<close>

lemma channel_inv_frame [simp]:
  "channel_inv (refresh_heartbeat_timeout now ch) = channel_inv ch"
  "channel_inv (refresh_peer_heartbeat_timeout now ch) = channel_inv ch"
  "channel_inv (ch\<lparr>ch_next_retry_at := t\<rparr>) = channel_inv ch"
  "channel_inv (ch\<lparr>ch_connected_at := n\<rparr>) = channel_inv ch"
  "channel_inv (ch\<lparr>ch_closed_at := n\<rparr>) = channel_inv ch"
  "channel_inv (ch\<lparr>ch_closed_event := b\<rparr>) = channel_inv ch"
  "channel_inv (subscribe cb evo ch) = channel_inv ch"
  by (simp_all add: channel_inv_def refresh_heartbeat_timeout_def
      refresh_peer_heartbeat_timeout_def subscribe_def split: option.splits)

lemma state_frame [simp]:
  "ch_state (refresh_heartbeat_timeout now ch) = ch_state ch"
  "ch_state (refresh_peer_heartbeat_timeout now ch) = ch_state ch"
  "ch_state (subscribe cb evo ch) = ch_state ch"
  "ch_closed_event (refresh_heartbeat_timeout now ch) = ch_closed_event ch"
  "ch_closed_event (refresh_peer_heartbeat_timeout now ch) = ch_closed_event ch"
  "ch_closed_event (subscribe cb evo ch) = ch_closed_event ch"
  "ch_peer_identifier (refresh_heartbeat_timeout now ch) = ch_peer_identifier ch"
  "ch_peer_identifier (refresh_peer_heartbeat_timeout now ch) = ch_peer_identifier ch"
  "ch_peer_identifier (subscribe cb evo ch) = ch_peer_identifier ch"
  by (simp_all add: refresh_heartbeat_timeout_def refresh_peer_heartbeat_timeout_def
      subscribe_def split: option.splits)

text \<open>The events other than \<open>CONNECTED\<close> and \<open>CLOSED\<close> can come at any phase of the thread.\<close>

lemma thread_inv_next:
  assumes "thread_inv p s" and "ev \<notin> {E_CONNECTED, E_CLOSED}"
  shows "thread_inv p (next_state s ev)"
proof -
  have "s \<noteq> S_IDLE \<Longrightarrow> next_state s ev \<noteq> S_IDLE"
    by (cases s; cases ev) (simp_all add: next_state_def)
  then show ?thesis
    using assms unfolding thread_inv_def
    by (cases ev) (auto simp: next_state_def split: if_splits)
qed

lemma ack_backward:
  "ev \<noteq> E_CONNECTED \<Longrightarrow> own_connected (next_state s ev) \<Longrightarrow> own_connected s"
  "ev \<noteq> E_CLOSED \<Longrightarrow> next_state s ev \<in> {S_CLOSED_CONNECTED, S_DONE} \<Longrightarrow>
     s \<in> {S_CLOSED_CONNECTED, S_DONE}"
  by (cases s; cases ev; simp add: next_state_def own_connected_def)+

text \<open>
  So a step of another thread that emits such an event, and keeps the channel's own
  part, keeps the whole invariant.
\<close>

lemma chan_inv_other:
  assumes inv: "chan_inv s" and c: "channel_inv c"
    and st: "ch_state c = ch_state (cs_ch s) \<or>
      (\<exists>ev. ev \<notin> {E_CONNECTED, E_CLOSED} \<and> ch_state c = next_state (ch_state (cs_ch s)) ev)"
    and frame: "ch_closed_event c = ch_closed_event (cs_ch s)"
      "ch_peer_identifier (cs_ch s) \<noteq> '''' \<Longrightarrow> ch_peer_identifier c \<noteq> ''''"
  shows "chan_inv (s\<lparr>cs_ch := c\<rparr>)"
proof -
  have "thread_inv (cs_phase s) (ch_state c)"
    using st inv thread_inv_next unfolding chan_inv_def by metis
  moreover have "own_connected (ch_state c) \<Longrightarrow> cs_connect_acked s"
    using st inv ack_backward(1) unfolding chan_inv_def by (metis insertCI)
  moreover have "ch_state c \<in> {S_CLOSED_CONNECTED, S_DONE} \<Longrightarrow> cs_close_acked s"
    using st inv ack_backward(2) unfolding chan_inv_def by (metis insertCI)
  ultimately show ?thesis
    using inv c frame unfolding chan_inv_def by simp
qed

lemma chan_inv_emit:
  assumes "chan_inv s" and "ev \<in> {E_CLOSING, E_ERROR}" and "ev \<noteq> E_ERROR \<or> err \<noteq> None"
  shows "chan_inv (s\<lparr>cs_ch := emitted ev err (cs_ch s)\<rparr>)"
proof (rule chan_inv_other [OF assms(1)])
  show "channel_inv (emitted ev err (cs_ch s))"
    using assms by (intro channel_inv_own_event) (auto simp: chan_inv_def)
  show "ch_state (emitted ev err (cs_ch s)) = ch_state (cs_ch s) \<or>
      (\<exists>ev'. ev' \<notin> {E_CONNECTED, E_CLOSED} \<and>
        ch_state (emitted ev err (cs_ch s)) = next_state (ch_state (cs_ch s)) ev')"
    using assms(2) emitted_sel(1) [OF assms(3)] by auto
qed simp_all

subsection \<open>One lemma per kind of step\<close>

lemma connect_inv:
  assumes "chan_inv s" and "connect (cs_ch s) = Inr c"
  shows "chan_inv (s\<lparr>cs_ch := c\<rparr>)"
proof -
  have idle: "ch_state (cs_ch s) = S_IDLE"
    and c: "c = (cs_ch s)\<lparr>ch_state := S_CONNECTING_UNCONNECTED\<rparr>"
    using assms(2) by (auto simp: connect_def split: option.splits if_splits)
  have "cs_phase s = Not_started"
    using assms(1) idle by (auto simp: inv_defs)
  then show ?thesis using assms(1) idle c by (auto simp: inv_defs)
qed

lemma close_inv:
  assumes "chan_inv s" and "close (cs_ch s) = Inr c"
  shows "chan_inv (s\<lparr>cs_ch := c\<rparr>)"
proof -
  have "c = emitted E_ERROR (Some Err_close_unready) (cs_ch s) \<or>
      c = emitted E_CLOSING None (cs_ch s)"
    using assms(2) by (auto simp: close_def lift_py_def split: option.splits if_splits)
  then show ?thesis using chan_inv_emit [OF assms(1)] by auto
qed

lemma check_inv:
  assumes "chan_inv s" and "channel_response_check cd (cs_ch s) = Inr (c, e)"
  shows "chan_inv (s\<lparr>cs_ch := c\<rparr>)"
proof -
  have "c = cs_ch s \<or> (\<exists>err. c = emitted E_ERROR (Some err) (cs_ch s))"
    using assms(2)
    by (auto simp: channel_response_check_def split: option.splits if_splits)
  then show ?thesis using assms(1) chan_inv_emit [OF assms(1)] by auto
qed

lemma state_fn_round_cases:
  assumes "state_fn_round now ch = Inr (a, c)"
  obtains (stop) "a = Break" "c = ch" "ch_state ch \<in> {S_DONE, S_ERROR}"
  | (timeout) err where "a = Continue" "c = emitted E_ERROR (Some err) ch"
      "ch_state ch \<notin> {S_DONE, S_ERROR}"
  | (call_connect) "a = Do_call T_CONNECT" "c = ch\<lparr>ch_next_retry_at := 0\<rparr>"
      "ch_state ch \<in> set connecting_states"
  | (call_close) "a = Do_call T_CLOSE" "c = ch\<lparr>ch_next_retry_at := 0\<rparr>"
      "ch_state ch \<in> set closing_states"
  | (call_heartbeat) "a = Do_call T_HEARTBEAT" "c = ch\<lparr>ch_next_retry_at := 0\<rparr>"
  | (wait) t where "a = Wait t" "c = ch \<or> c = ch\<lparr>ch_next_retry_at := 0\<rparr>"
proof (cases "ch_state ch \<in> set [S_DONE, S_ERROR]")
  case True
  then show ?thesis using assms stop by (auto simp: state_fn_round_def)
next
  case going: False
  then have live: "ch_state ch \<notin> {S_DONE, S_ERROR}" by simp
  let ?c = "own_timed_out now ch" and ?p = "peer_timed_out now ch"
  show ?thesis
  proof (cases "?c \<or> ?p")
    case True
    then show ?thesis
      using assms timeout [OF _ _ live] going
      by (cases ?c) (auto simp: state_fn_round_def Let_def)
  next
    case False
    then have c: "\<not> ?c" and p: "\<not> ?p" by blast+
    show ?thesis
    proof (cases "ch_next_retry_at ch \<le> now")
      case True
      consider "ch_state ch \<in> set connecting_states"
        | "ch_state ch \<notin> set connecting_states" "ch_state ch \<in> set closing_states"
        | "ch_state ch \<notin> set connecting_states" "ch_state ch \<notin> set closing_states"
        by blast
      then show ?thesis
        using assms going c p True call_connect call_close call_heartbeat wait
        by cases (auto simp: state_fn_round_def Let_def split: if_splits)
    next
      case False
      then show ?thesis
        using assms going c p wait by (auto simp: state_fn_round_def Let_def)
    qed
  qed
qed

lemma round_stay_inv:
  assumes "chan_inv s" and "state_fn_round now (cs_ch s) = Inr (a, c)"
  shows "chan_inv (s\<lparr>cs_ch := c\<rparr>)"
proof -
  have retry: "chan_inv (s\<lparr>cs_ch := (cs_ch s)\<lparr>ch_next_retry_at := 0\<rparr>\<rparr>)"
    using assms(1) by (intro chan_inv_other [OF assms(1)]) (auto simp: chan_inv_def)
  from assms(2) show ?thesis
    by (cases rule: state_fn_round_cases)
      (use assms(1) retry chan_inv_emit [OF assms(1), of E_ERROR] in auto)
qed

lemma round_break_inv:
  assumes "chan_inv s" "cs_phase s = At_top" "state_fn_round now (cs_ch s) = Inr (Break, c)"
  shows "chan_inv (s\<lparr>cs_ch := c, cs_phase := Stopping\<rparr>)"
  using assms(3) by (cases rule: state_fn_round_cases)
    (use assms(1,2) in \<open>auto simp: chan_inv_def thread_inv_def\<close>)

lemma round_call_inv:
  assumes "chan_inv s" "cs_phase s = At_top" "state_fn_round now (cs_ch s) = Inr (Do_call ct, c)"
  shows "chan_inv (s\<lparr>cs_ch := c, cs_phase := Calling ct\<rparr>)"
  using assms(3) by (cases rule: state_fn_round_cases)
    (use assms(1,2) in \<open>auto simp: chan_inv_def thread_inv_def state_set_defs\<close>)

text \<open>
  The outcome of a call: an error at most, or the call's own event, which the second
  emission in \<open>_state_fn\<close> repeats without effect.
\<close>

lemma next_state_idem [simp]:
  "next_state (next_state s E_CONNECTED) E_CONNECTED = next_state s E_CONNECTED"
  "next_state (next_state s E_CLOSED) E_CLOSED = next_state s E_CLOSED"
  by (cases s; simp add: next_state_def)+

lemma call_done_cases:
  assumes "call_done now ct res ch = Inr (ok, c)"
  obtains (failed) "\<not> ok" "c = ch \<or> (\<exists>e. c = emitted E_ERROR (Some e) ch)"
  | (connected) n where "ok" "ct = T_CONNECT" "acked ct res T_CONNECT"
      "c = emitted E_CONNECTED None ((refresh_heartbeat_timeout now ch)\<lparr>ch_connected_at := n\<rparr>)"
  | (closed) n where "ok" "ct = T_CLOSE" "acked ct res T_CLOSE"
      "c = emitted E_CLOSED None ((refresh_heartbeat_timeout now ch)\<lparr>ch_closed_at := n\<rparr>)"
  | (beat) "ok" "ct \<notin> {T_CONNECT, T_CLOSE}" "c = refresh_heartbeat_timeout now ch"
proof (cases res)
  case None
  then have "\<not> ok" "c = ch" using assms by (simp_all add: call_done_def)
  then show ?thesis by (intro failed) simp_all
next
  case (Some r)
  show ?thesis
  proof (cases "rs_code r = C_OK")
    case True
    let ?c = "refresh_heartbeat_timeout now ch"
    consider (a) "ct = T_CONNECT" | (b) "ct = T_CLOSE" | (d) "ct \<notin> {T_CONNECT, T_CLOSE}" by blast
    then show ?thesis
    proof cases
      case a
      then have "ok" "acked ct res T_CONNECT"
        "c = emitted E_CONNECTED None (?c\<lparr>ch_connected_at := rs_timestamp r\<rparr>)"
        using assms Some True by (simp_all add: call_done_def Let_def acked_def)
      then show ?thesis by (rule connected [OF _ a])
    next
      case b
      then have "ok" "acked ct res T_CLOSE"
        "c = emitted E_CLOSED None (?c\<lparr>ch_closed_at := rs_timestamp r\<rparr>)"
        using assms Some True by (simp_all add: call_done_def Let_def acked_def)
      then show ?thesis by (rule closed [OF _ b])
    next
      case d
      then have "ok" "c = ?c"
        using assms Some True by (simp_all add: call_done_def Let_def)
      then show ?thesis by (rule beat [OF _ d])
    qed
  next
    case False
    then have "\<not> ok" "c = ch \<or> (\<exists>e. c = emitted E_ERROR (Some e) ch)"
      using assms Some by (auto simp: call_done_def split: if_splits)
    then show ?thesis by (rule failed)
  qed
qed

lemma state_fn_resume_fail:
  assumes "state_fn_resume now ct False c = Inr c'"
  shows "\<exists>t. c' = c\<lparr>ch_next_retry_at := t\<rparr>"
  using assms by (cases ct) (auto simp: state_fn_resume_def)

lemma state_fn_resume_ok:
  "state_fn_resume now T_CONNECT True c = Inr (refresh_heartbeat_timeout now (emitted E_CONNECTED None c))"
  "state_fn_resume now T_CLOSE True c = Inr (refresh_heartbeat_timeout now (emitted E_CLOSED None c))"
  "ct \<notin> {T_CONNECT, T_CLOSE} \<Longrightarrow>
     state_fn_resume now ct True c = Inr (refresh_heartbeat_timeout now c)"
  by (simp_all add: state_fn_resume_def split: call_type.splits)

lemma call_return_cases:
  assumes ret: "call_done now ct res ch = Inr (ok, c)"
    and resume: "state_fn_resume now' ct ok c = Inr c'"
    and inv: "channel_inv ch"
  obtains (acked_connect) "ct = T_CONNECT" "acked ct res T_CONNECT"
      "channel_inv c'" "ch_state c' = next_state (ch_state ch) E_CONNECTED"
  | (acked_close) "ct = T_CLOSE" "acked ct res T_CLOSE"
      "channel_inv c'" "ch_state c' = next_state (ch_state ch) E_CLOSED"
  | (other) "channel_inv c'" "ch_state c' = ch_state ch \<or> ch_state c' = next_state (ch_state ch) E_ERROR"
proof -
  have keep: "channel_inv (emitted ev None d)" if "channel_inv d" "ev \<in> {E_CONNECTED, E_CLOSED}"
    for ev d using that by (intro channel_inv_own_event) auto
  have fail: "channel_inv (emitted E_ERROR (Some e) d)" if "channel_inv d" for e d
    using that by (intro channel_inv_own_event) auto
  from ret show ?thesis
  proof (cases rule: call_done_cases)
    case failed
    then obtain t where "c' = c\<lparr>ch_next_retry_at := t\<rparr>"
      using resume state_fn_resume_fail [of now' ct c c'] by auto
    then show ?thesis using failed(2) inv fail other by auto
  next
    case (connected n)
    then show ?thesis
      using resume inv acked_connect by (auto simp: state_fn_resume_ok keep)
  next
    case (closed n)
    then show ?thesis
      using resume inv acked_close by (auto simp: state_fn_resume_ok keep)
  next
    case beat
    then show ?thesis using resume inv other by (auto simp: state_fn_resume_ok)
  qed
qed

lemma call_return_frame:
  assumes "call_done now ct res ch = Inr (ok, c)" and "state_fn_resume now' ct ok c = Inr c'"
  shows "ch_closed_event c' = ch_closed_event ch \<and> ch_peer_identifier c' = ch_peer_identifier ch"
proof -
  have "ch_closed_event c = ch_closed_event ch \<and> ch_peer_identifier c = ch_peer_identifier ch"
    using assms(1) by (cases rule: call_done_cases) auto
  moreover have "ch_closed_event c' = ch_closed_event c \<and>
      ch_peer_identifier c' = ch_peer_identifier c"
    using assms(2) by (cases ct; cases ok) (auto simp: state_fn_resume_def)
  ultimately show ?thesis by simp
qed

lemma call_return_inv:
  assumes inv: "chan_inv s" and p: "cs_phase s = Calling ct"
    and ret: "call_done now ct res (cs_ch s) = Inr (ok, c)"
    and res: "state_fn_resume now' ct ok c = Inr c'"
  shows "chan_inv (s\<lparr>cs_ch := c', cs_phase := At_top,
       cs_connect_acked := cs_connect_acked s \<or> acked ct res T_CONNECT,
       cs_close_acked := cs_close_acked s \<or> acked ct res T_CLOSE\<rparr>)"
proof -
  have frame: "ch_closed_event c' = ch_closed_event (cs_ch s)"
    "ch_peer_identifier c' = ch_peer_identifier (cs_ch s)"
    using call_return_frame [OF ret res] by simp_all
  have ci: "channel_inv (cs_ch s)" using inv by (simp add: chan_inv_def)
  have th: "thread_inv (Calling ct) (ch_state (cs_ch s))"
    using inv p by (simp add: chan_inv_def)
  from ret res ci show ?thesis
  proof (cases rule: call_return_cases)
    case acked_connect
    then show ?thesis
      using inv p th frame unfolding chan_inv_def thread_inv_def
      by (auto simp: next_state_def own_connected_def)
  next
    case acked_close
    then show ?thesis
      using inv p th frame unfolding chan_inv_def thread_inv_def
      by (auto simp: next_state_def own_connected_def)
  next
    case other
    have "chan_inv (s\<lparr>cs_ch := c'\<rparr>)"
      using other frame by (intro chan_inv_other [OF inv]) auto
    then show ?thesis
      using p unfolding chan_inv_def thread_inv_def by auto
  qed
qed

lemma check_identifier_cases:
  assumes "check_identifier i peer_id ch = (ok, c)"
  shows "c = ch \<and> (ok \<longrightarrow> ch_peer_identifier ch \<noteq> '''') \<or>
      i \<noteq> '''' \<and> ch_peer_identifier ch = '''' \<and>
      c = ch\<lparr>ch_peer_identifier := i, ch_server_peer := Some i\<rparr>"
  using assms unfolding check_identifier_def Let_def
  by (cases "ch_peer_identifier ch = ''''") (auto split: if_splits)

lemma channel_inv_identify:
  "channel_inv ch \<Longrightarrow> i \<noteq> '''' \<Longrightarrow>
     channel_inv (ch\<lparr>ch_peer_identifier := i, ch_server_peer := Some i\<rparr>)"
  by (simp add: channel_inv_def)

lemma chan_inv_pending:
  assumes "chan_inv s" and "cs_phase s \<noteq> Not_started" "ch_peer_identifier (cs_ch s) \<noteq> ''''"
  shows "chan_inv (s\<lparr>cs_pending := cts\<rparr>)"
  using assms by (simp add: chan_inv_def)

lemma peer_check_inv:
  assumes inv: "chan_inv s" and ph: "cs_phase s \<in> {At_top, Stopping} \<union> range Calling"
    and chk: "check_identifier i peer_id (cs_ch s) = (ok, c)"
  shows "chan_inv (s\<lparr>cs_ch := c,
       cs_pending := (if ok then ct # cs_pending s else cs_pending s)\<rparr>)"
proof -
  have "channel_inv c" "ch_state c = ch_state (cs_ch s)"
    "ch_closed_event c = ch_closed_event (cs_ch s)"
    "ch_peer_identifier (cs_ch s) \<noteq> '''' \<Longrightarrow> ch_peer_identifier c \<noteq> ''''"
    "ok \<Longrightarrow> ch_peer_identifier c \<noteq> ''''"
    using check_identifier_cases [OF chk] inv channel_inv_identify
    unfolding chan_inv_def by auto
  moreover from this have "chan_inv (s\<lparr>cs_ch := c\<rparr>)"
    by (intro chan_inv_other [OF inv]) simp_all
  moreover have "cs_phase s \<noteq> Not_started" using ph by auto
  ultimately show ?thesis
    using chan_inv_pending [of "s\<lparr>cs_ch := c\<rparr>" "ct # cs_pending s"] by (cases ok) simp_all
qed

lemma accept_connect_inv:
  assumes inv: "channel_inv ch" and id: "ch_peer_identifier ch \<noteq> ''''" and now: "1 \<le> now"
    and acc: "accept_connect now ch = Inr (rs, c)"
  shows "channel_inv c" and "ch_state c = next_state (ch_state ch) E_PEER_CONNECTED"
    and "ch_closed_event c = ch_closed_event ch" "ch_peer_identifier c = ch_peer_identifier ch"
proof -
  define d where "d = emitted E_PEER_CONNECTED None ch"
  define n where "n = (if ch_peer_connected_at ch = 0 then \<lfloor>now\<rfloor> else ch_peer_connected_at ch)"
  have n: "1 \<le> n" using inv now by (simp add: n_def channel_inv_def)
  have rank: "chan_rank (ch_state ch) \<le> chan_rank (next_state (ch_state ch) E_PEER_CONNECTED)"
    by (rule chan_fsm.step_rank)
  have closed: "next_state (ch_state ch) E_PEER_CONNECTED \<in> {S_CONNECTED_CLOSED, S_CLOSING_CLOSED, S_DONE} \<Longrightarrow>
      ch_state ch \<in> {S_CONNECTED_CLOSED, S_CLOSING_CLOSED, S_DONE}"
    by (cases "ch_state ch") (simp_all add: next_state_def)
  have "channel_inv (d\<lparr>ch_peer_connected_at := n\<rparr>)"
    using inv id n rank closed unfolding d_def channel_inv_def by (auto simp: emitted_sel)
  moreover have c: "c = (refresh_peer_heartbeat_timeout now d)\<lparr>ch_peer_connected_at := n\<rparr>"
    using acc unfolding accept_connect_def d_def n_def
    by (auto simp: refresh_peer_heartbeat_timeout_def Let_def split: if_splits)
  ultimately show "channel_inv c"
    by (simp add: channel_inv_def refresh_peer_heartbeat_timeout_def)
  show "ch_state c = next_state (ch_state ch) E_PEER_CONNECTED"
    "ch_closed_event c = ch_closed_event ch" "ch_peer_identifier c = ch_peer_identifier ch"
    using c by (simp_all add: d_def)
qed

lemma accept_close_inv:
  assumes inv: "channel_inv ch" and st: "ch_state ch \<notin> set peer_unconnected_states"
    and now: "1 \<le> now" and acc: "accept_close now ch = Inr (rs, c)"
  shows "channel_inv c" and "ch_state c = next_state (ch_state ch) E_PEER_CLOSED"
    and "ch_closed_event c = ch_closed_event ch" "ch_peer_identifier c = ch_peer_identifier ch"
proof -
  define d where "d = emitted E_PEER_CLOSED None ch"
  define n where "n = (if ch_peer_closed_at ch = 0 then \<lfloor>now\<rfloor> else ch_peer_closed_at ch)"
  have n: "1 \<le> n" using inv now by (simp add: n_def channel_inv_def)
  have rank: "chan_rank (ch_state ch) \<le> chan_rank (next_state (ch_state ch) E_PEER_CLOSED)"
    by (rule chan_fsm.step_rank)
  have pc: "peer_connected (next_state (ch_state ch) E_PEER_CLOSED) \<Longrightarrow> peer_connected (ch_state ch)"
    using st by (cases "ch_state ch")
      (simp_all add: next_state_def peer_connected_def state_set_defs)
  have "channel_inv (d\<lparr>ch_peer_closed_at := n\<rparr>)"
    using inv n rank pc unfolding d_def channel_inv_def by (auto simp: emitted_sel)
  moreover have c: "c = (refresh_peer_heartbeat_timeout now d)\<lparr>ch_peer_closed_at := n\<rparr>"
    using acc unfolding accept_close_def d_def n_def
    by (auto simp: refresh_peer_heartbeat_timeout_def Let_def split: if_splits)
  ultimately show "channel_inv c"
    by (simp add: channel_inv_def refresh_peer_heartbeat_timeout_def)
  show "ch_state c = next_state (ch_state ch) E_PEER_CLOSED"
    "ch_closed_event c = ch_closed_event ch" "ch_peer_identifier c = ch_peer_identifier ch"
    using c by (simp_all add: d_def)
qed

lemma peer_locked_inv:
  assumes inv: "chan_inv s" and ct: "ct \<in> set (cs_pending s)" and now: "1 \<le> now"
    and h: "call_handler_locked now ct (cs_ch s) = Inr (rs, c)"
  shows "chan_inv (s\<lparr>cs_ch := c, cs_pending := remove1 ct (cs_pending s)\<rparr>)"
proof -
  have ne: "cs_pending s \<noteq> []" using ct by auto
  have ch: "channel_inv (cs_ch s)" using inv by (simp add: chan_inv_def)
  have id: "ch_peer_identifier (cs_ch s) \<noteq> ''''" and ph: "cs_phase s \<noteq> Not_started"
    using inv ne by (auto simp: chan_inv_def)
  consider (same) "c = cs_ch s" | (beat) "c = refresh_peer_heartbeat_timeout now (cs_ch s)"
    | (conn) "accept_connect now (cs_ch s) = Inr (rs, c)"
    | (close) "accept_close now (cs_ch s) = Inr (rs, c)"
        "ch_state (cs_ch s) \<notin> set peer_unconnected_states"
    using h unfolding call_handler_locked_def by (auto split: if_splits)
  then have "channel_inv c \<and>
      (ch_state c = ch_state (cs_ch s) \<or>
        (\<exists>ev. ev \<notin> {E_CONNECTED, E_CLOSED} \<and> ch_state c = next_state (ch_state (cs_ch s)) ev)) \<and>
      ch_closed_event c = ch_closed_event (cs_ch s) \<and>
      ch_peer_identifier c = ch_peer_identifier (cs_ch s)"
  proof cases
    case conn
    from accept_connect_inv [OF ch id now conn] show ?thesis
      by (intro conjI disjI2 exI [of _ E_PEER_CONNECTED]) simp_all
  next
    case close
    from accept_close_inv [OF ch close(2) now close(1)] show ?thesis
      by (intro conjI disjI2 exI [of _ E_PEER_CLOSED]) simp_all
  qed (use ch in simp_all)
  moreover from this have "chan_inv (s\<lparr>cs_ch := c\<rparr>)"
    using id by (intro chan_inv_other [OF inv]) simp_all
  ultimately show ?thesis
    using chan_inv_pending [of "s\<lparr>cs_ch := c\<rparr>"] id ph by simp
qed

lemma thread_exit_inv:
  assumes "chan_inv s" "cs_phase s = Stopping"
  shows "chan_inv (s\<lparr>cs_ch := state_fn_exit (cs_ch s), cs_phase := Exited\<rparr>)"
proof -
  have st: "ch_state (cs_ch s) = S_DONE \<or> ch_state (cs_ch s) = S_ERROR"
    using assms by (simp add: chan_inv_def thread_inv_def)
  then have "channel_inv (state_fn_exit (cs_ch s))"
    using assms(1) unfolding chan_inv_def channel_inv_def state_fn_exit_def peer_connected_def
    by (elim disjE) simp_all
  moreover have "thread_inv Exited (ch_state (cs_ch s))"
    using st by (elim disjE) (simp_all add: thread_inv_def)
  moreover have "ch_state (state_fn_exit c) = ch_state c" "ch_closed_event (state_fn_exit c)"
    "ch_peer_identifier (state_fn_exit c) = ch_peer_identifier c" for c
    by (simp_all add: state_fn_exit_def)
  ultimately show ?thesis
    using assms unfolding chan_inv_def by simp
qed

subsection \<open>Every step, every reachable state\<close>

lemma chan_step_inv: "chan_step s t \<Longrightarrow> chan_inv s \<Longrightarrow> chan_inv t"
proof (induction rule: chan_step.induct)
  case (start s)
  then show ?case by (auto simp: chan_inv_def thread_inv_def)
next
  case (subscribe s cb ev)
  then show ?case by (intro chan_inv_other) (auto simp: chan_inv_def)
next
  case (round_again s now a c t)
  then show ?case by (auto intro: round_stay_inv)
next
  case (peer_check s rq ok c)
  from peer_check(4) peer_check(1,3) show ?case by (rule peer_check_inv)
next
  case (connect s c)
  from connect(2,1) show ?case by (rule connect_inv)
next
  case (close s c)
  from close(2,1) show ?case by (rule close_inv)
next
  case (check cd s c e)
  from check(3,1) show ?case by (rule check_inv)
next
  case (round_break s now c)
  from round_break(3,1,2) show ?case by (rule round_break_inv)
next
  case (round_call s now ct c)
  from round_call(3,1,2) show ?case by (rule round_call_inv)
next
  case (call_return s ct now res ok c now' c')
  from call_return(4,1-3) show ?case by (rule call_return_inv)
next
  case (thread_exit s)
  from thread_exit(2,1) show ?case by (rule thread_exit_inv)
next
  case (peer_locked ct s now rs c)
  from peer_locked(4,1-3) show ?case by (rule peer_locked_inv)
qed

lemma channel_init_inv:
  assumes "channel_init uuid token hb retry = Inr ch"
  shows "chan_inv (chan_start ch)"
  using assms by (auto simp: channel_init_def chan_start_def inv_defs split: if_splits)

lemma chan_reach_inv:
  assumes "channel_init uuid token hb retry = Inr ch0" and "chan_reach ch0 s"
  shows "chan_inv s"
  using assms(2) by induction (auto intro: channel_init_inv [OF assms(1)] chan_step_inv)

text \<open>The level of the state never decreases along a step.\<close>

lemma chan_step_rank:
  assumes "chan_step s t" "chan_inv s"
  shows "chan_rank (ch_state (cs_ch s)) \<le> chan_rank (ch_state (cs_ch t))"
  using assms
proof (induction rule: chan_step.induct)
  case (connect s c)
  then show ?case by (auto simp: connect_def split: option.splits if_splits)
next
  case (close s c)
  then show ?case
    by (auto simp: close_def lift_py_def chan_fsm.step_rank split: option.splits if_splits)
next
  case (check cd s c e)
  then show ?case
    by (auto simp: channel_response_check_def chan_fsm.step_rank simp del: next_state_E_ERROR
        split: option.splits if_splits)
next
  case (call_return s ct now res ok c now' c')
  then have "channel_inv (cs_ch s)" by (simp add: chan_inv_def)
  with call_return(2,3) show ?case
    by (cases rule: call_return_cases)
      (auto simp: chan_fsm.step_rank simp del: next_state_E_ERROR)
next
  case (peer_check s rq ok c)
  then show ?case using check_identifier_cases by fastforce
next
  case (peer_locked ct s now rs c)
  have inv: "channel_inv (cs_ch s)" and id: "ch_peer_identifier (cs_ch s) \<noteq> ''''"
    using peer_locked by (auto simp: chan_inv_def)
  show ?case
    using peer_locked(2,3) accept_connect_inv(2) [OF inv id] accept_close_inv(2) [OF inv]
    by (auto simp: call_handler_locked_def chan_fsm.step_rank split: if_splits)
qed (auto elim!: state_fn_round_cases simp: chan_fsm.step_rank state_fn_exit_def
  simp del: next_state_E_ERROR)

section \<open>Properties\<close>

text \<open>
  C1. Handshake and shutdown safety. In every state the threads of a channel can reach:
  \<open>READY\<close> means that the peer answered our CONNECT with OK and that we accepted a CONNECT
  of an identified peer; \<open>DONE\<close> means that the peer answered our CLOSE with OK and that we
  accepted its CLOSE; the error event, the stored error and the \<open>ERROR\<close> state go together;
  the server interceptor knows exactly the peer that was identified.
\<close>

theorem channel_handshake_safety:
  assumes "channel_init uuid token hb retry = Inr ch0" and "chan_reach ch0 s"
  shows "(ch_state (cs_ch s) = S_READY \<longrightarrow>
       cs_connect_acked s \<and> ch_peer_identifier (cs_ch s) \<noteq> [] \<and>
       1 \<le> ch_peer_connected_at (cs_ch s)) \<and>
     (ch_state (cs_ch s) = S_DONE \<longrightarrow>
       cs_connect_acked s \<and> cs_close_acked s \<and> 1 \<le> ch_peer_closed_at (cs_ch s)) \<and>
     (ch_error_event (cs_ch s) \<longleftrightarrow> ch_state (cs_ch s) = S_ERROR) \<and>
     (ch_error (cs_ch s) \<noteq> None \<longleftrightarrow> ch_state (cs_ch s) = S_ERROR) \<and>
     ch_server_peer (cs_ch s) =
       (if ch_peer_identifier (cs_ch s) = [] then None else Some (ch_peer_identifier (cs_ch s)))"
  using chan_reach_inv [OF assms]
  unfolding chan_inv_def channel_inv_def own_connected_def peer_connected_def by simp

text \<open>A run that ends in \<open>READY\<close>: our CONNECT is answered, then the peer's comes in.\<close>

definition demo_channel :: channel where
  "demo_channel = (case channel_init ''0123456789abcdef'' (Some ''tok'') 120 2 of Inr c \<Rightarrow> c)"

definition demo_ready :: chan_sys where
  "demo_ready =
     \<lparr>cs_ch = demo_channel
        \<lparr>ch_state := S_READY, ch_ready_event := True, ch_peer_identifier := ''peer'',
         ch_server_peer := Some ''peer'', ch_connected_at := 5, ch_peer_connected_at := 3,
         ch_heartbeat_timeout_at := 122, ch_next_heartbeat_at := 22,
         ch_peer_heartbeat_timeout_at := 123\<rparr>,
      cs_phase = At_top, cs_pending = [], cs_connect_acked = True, cs_close_acked = False\<rparr>"

lemma demo_channel_eq: "channel_init ''0123456789abcdef'' (Some ''tok'') 120 2 = Inr demo_channel"
  by (simp add: demo_channel_def channel_init_def)

lemma demo_ready_reach: "chan_reach demo_channel demo_ready"
proof -
  let ?c0 = demo_channel
  let ?c1 = "?c0\<lparr>ch_state := S_CONNECTING_UNCONNECTED\<rparr>"
  let ?c2 = "?c0\<lparr>ch_state := S_CONNECTED_UNCONNECTED, ch_connected_at := 5,
      ch_heartbeat_timeout_at := 122, ch_next_heartbeat_at := 22\<rparr>"
  let ?c3 = "?c2\<lparr>ch_peer_identifier := ''peer'', ch_server_peer := Some ''peer''\<rparr>"
  let ?s = "chan_start ?c0"
  note evals = demo_channel_def channel_init_def
  have "chan_step ?s (?s\<lparr>cs_ch := ?c1\<rparr>)"
    by (rule chan_step.connect) (simp add: chan_start_def connect_def raise_if_error_def evals)
  moreover have "chan_step (?s\<lparr>cs_ch := ?c1\<rparr>) (?s\<lparr>cs_ch := ?c1, cs_phase := At_top\<rparr>)"
    using chan_step.start [of "?s\<lparr>cs_ch := ?c1\<rparr>"] by (simp add: chan_start_def)
  moreover have "chan_step (?s\<lparr>cs_ch := ?c1, cs_phase := At_top\<rparr>)
      (?s\<lparr>cs_ch := ?c1, cs_phase := Calling T_CONNECT\<rparr>)"
    using chan_step.round_call [of "?s\<lparr>cs_ch := ?c1, cs_phase := At_top\<rparr>" 1 T_CONNECT ?c1]
    by (simp add: chan_start_def state_fn_round_def own_timed_out_def peer_timed_out_def
        state_set_defs Let_def evals)
  moreover have "chan_step (?s\<lparr>cs_ch := ?c1, cs_phase := Calling T_CONNECT\<rparr>)
      (?s\<lparr>cs_ch := ?c2, cs_phase := At_top, cs_connect_acked := True\<rparr>)"
    using chan_step.call_return [of "?s\<lparr>cs_ch := ?c1, cs_phase := Calling T_CONNECT\<rparr>" T_CONNECT 2
        "Some \<lparr>rs_code = C_OK, rs_timestamp = 5\<rparr>" True ?c2 2 ?c2]
    by (simp add: chan_start_def call_done_def state_fn_resume_def emitted_def emit_event_def
        event_callback_def next_state_def refresh_heartbeat_timeout_def acked_def Let_def evals)
  moreover have "chan_step (?s\<lparr>cs_ch := ?c2, cs_phase := At_top, cs_connect_acked := True\<rparr>)
      (?s\<lparr>cs_ch := ?c3, cs_phase := At_top, cs_connect_acked := True, cs_pending := [T_CONNECT]\<rparr>)"
    using chan_step.peer_check [of "?s\<lparr>cs_ch := ?c2, cs_phase := At_top, cs_connect_acked := True\<rparr>"
        "\<lparr>rq_type = T_CONNECT, rq_token = ''tok'', rq_identifier = ''peer'',
          rq_peer_identifier = ''''\<rparr>" True ?c3]
    by (simp add: chan_start_def check_token_def check_identifier_def evals)
  moreover have "chan_step
      (?s\<lparr>cs_ch := ?c3, cs_phase := At_top, cs_connect_acked := True, cs_pending := [T_CONNECT]\<rparr>)
      demo_ready"
    using chan_step.peer_locked [of T_CONNECT
        "?s\<lparr>cs_ch := ?c3, cs_phase := At_top, cs_connect_acked := True, cs_pending := [T_CONNECT]\<rparr>"
        3 "\<lparr>rs_code = C_OK, rs_timestamp = 3\<rparr>" "cs_ch demo_ready"]
    by (simp add: demo_ready_def chan_start_def call_handler_locked_def accept_connect_def
        emitted_def emit_event_def event_callback_def next_state_def state_set_defs
        refresh_peer_heartbeat_timeout_def Let_def evals)
  ultimately show ?thesis
    by (meson chan_reach.start chan_reach.step)
qed

theorem channel_handshake_safety_witness:
  "cs_connect_acked demo_ready \<and> ch_peer_identifier (cs_ch demo_ready) \<noteq> [] \<and>
   1 \<le> ch_peer_connected_at (cs_ch demo_ready)"
proof -
  have "ch_state (cs_ch demo_ready) = S_READY" by (simp add: demo_ready_def)
  then show ?thesis
    using channel_handshake_safety [OF demo_channel_eq demo_ready_reach] by blast
qed

text \<open>
  C17. \<open>wait_for_ready\<close>. When it returns True without raising, the channel has been
  ready: its own CONNECT was answered, the peer is identified, and the state is \<open>READY\<close>
  or one of the shutdown states after it; and \<open>wait_for_closed\<close> returning True means \<open>DONE\<close>.
\<close>

theorem channel_wait_sound:
  assumes "channel_init uuid token hb retry = Inr ch0" and "chan_reach ch0 s"
  shows "(wait_for_ready (cs_ch s) = Inr True \<longrightarrow>
       cs_connect_acked s \<and> ch_peer_identifier (cs_ch s) \<noteq> [] \<and>
       ch_state (cs_ch s) \<in> {S_READY, S_CONNECTED_CLOSED, S_CLOSING_CONNECTED,
         S_CLOSING_CLOSED, S_CLOSED_CONNECTED, S_DONE}) \<and>
     (wait_for_closed (cs_ch s) = Inr True \<longrightarrow>
       ch_state (cs_ch s) = S_DONE \<and> cs_close_acked s)"
proof -
  have inv: "chan_inv s" by (rule chan_reach_inv [OF assms])
  have "cs_connect_acked s \<and> ch_peer_identifier (cs_ch s) \<noteq> [] \<and>
       ch_state (cs_ch s) \<in> {S_READY, S_CONNECTED_CLOSED, S_CLOSING_CONNECTED,
         S_CLOSING_CLOSED, S_CLOSED_CONNECTED, S_DONE}"
    if "wait_for_ready (cs_ch s) = Inr True"
  proof -
    have "\<not> ch_error_event (cs_ch s)" "ch_ready_event (cs_ch s)"
      using that by (auto simp: wait_for_ready_def raise_if_error_def split: if_splits)
    then have "ch_state (cs_ch s) \<noteq> S_ERROR" "3 \<le> chan_rank (ch_state (cs_ch s))"
      using inv by (simp_all add: chan_inv_def channel_inv_def)
    then show ?thesis
      using inv unfolding chan_inv_def channel_inv_def own_connected_def peer_connected_def
      by (cases "ch_state (cs_ch s)") simp_all
  qed
  moreover have "ch_state (cs_ch s) = S_DONE \<and> cs_close_acked s"
    if "wait_for_closed (cs_ch s) = Inr True"
  proof -
    have "\<not> ch_error_event (cs_ch s)" "ch_closed_event (cs_ch s)"
      using that by (auto simp: wait_for_closed_def raise_if_error_def split: if_splits)
    then show ?thesis
      using inv by (auto simp: chan_inv_def channel_inv_def thread_inv_def)
  qed
  ultimately show ?thesis by blast
qed

theorem channel_wait_sound_witness:
  "wait_for_ready (cs_ch demo_ready) = Inr True \<and> cs_connect_acked demo_ready"
proof -
  have "wait_for_ready (cs_ch demo_ready) = Inr True"
    by (simp add: wait_for_ready_def raise_if_error_def demo_ready_def demo_channel_def channel_init_def)
  then show ?thesis
    using channel_wait_sound [OF demo_channel_eq demo_ready_reach] by blast
qed

text \<open>
  C24. Progress of the state machine. Along any interleaving of the threads the state moves
  forward only, through at most seven changes whatever events come, and \<open>DONE\<close> and
  \<open>ERROR\<close> are final.
\<close>

theorem channel_moves_forward:
  assumes "channel_init uuid token hb retry = Inr ch0" and "chan_reach ch0 s"
    and "chan_step\<^sup>*\<^sup>* s t"
  shows "chan_rank (ch_state (cs_ch s)) \<le> chan_rank (ch_state (cs_ch t)) \<and>
     fsm_changes next_state (ch_state (cs_ch s)) es + chan_rank (ch_state (cs_ch s)) \<le> 7 \<and>
     (ch_state (cs_ch s) \<in> {S_DONE, S_ERROR} \<longrightarrow>
        fsm_run next_state (ch_state (cs_ch s)) es = ch_state (cs_ch s))"
proof -
  have "chan_inv t \<and> chan_rank (ch_state (cs_ch s)) \<le> chan_rank (ch_state (cs_ch t))"
    using assms(3)
  proof induction
    case base
    show ?case using chan_reach_inv [OF assms(1,2)] by simp
  next
    case (step t u)
    then show ?case using chan_step_inv chan_step_rank order_trans by blast
  qed
  moreover have "fsm_run next_state x es = x" if "x \<in> {S_DONE, S_ERROR}" for x
    using that by (induction es) auto
  ultimately show ?thesis using chan_fsm.changes_bound by blast
qed

theorem channel_moves_forward_witness:
  "3 \<le> chan_rank (ch_state (cs_ch demo_ready))"
  using channel_moves_forward [OF demo_channel_eq demo_ready_reach rtranclp.rtrancl_refl]
  by (simp add: demo_ready_def)



end
