(* ===== verification/Send_Queue.thy ===== *)
theory Send_Queue
  imports Prelude
begin

text \<open>
  The interceptors of \<open>fedlearner/channel/client_interceptor.py\<close> and
  \<open>server_interceptor.py\<close>: the resend queue of a stream call
  (\<open>_SingleConsumerSendRequestQueue\<close>), the retry loop, the response iterator that
  acknowledges what the peer has answered, the metadata that carries the channel
  identifier, and the server's side of it.

  A queue is used by one consumer at a time, the call that is open now; a reconnect makes a
  new consumer and starts again at the first request that is not acknowledged. Requests are
  read from the user's iterator (a list here) one at a time under \<open>_request_lock\<close>; a
  request that has been read and not queued yet is \<open>sq_inflight\<close>. The serializer of
  the method is an argument. Locks, metrics and time stamps have no counterpart.
\<close>

section \<open>The send queue\<close>

type_synonym seq_req = "int \<times> string"  \<comment> \<open>\<open>SendRequest\<close>: \<open>seq\<close> and \<open>payload\<close>\<close>

record 'r send_queue =
  sq_seq :: int
  sq_offset :: int
  sq_deque :: "seq_req list"
  sq_consumer :: "nat option"
  sq_fresh :: nat  \<comment> \<open>identity of the next consumer object\<close>
  sq_input :: "'r list"
  sq_inflight :: "'r option"

definition sq_init :: "'r list \<Rightarrow> 'r send_queue" where
  "sq_init xs = \<lparr>sq_seq = 0, sq_offset = 0, sq_deque = [], sq_consumer = None,
                 sq_fresh = 0, sq_input = xs, sq_inflight = None\<rparr>"

definition sq_reset :: "'r send_queue \<Rightarrow> 'r send_queue" where
  "sq_reset q = q\<lparr>sq_offset := 0\<rparr>"

definition sq_empty :: "'r send_queue \<Rightarrow> bool" where
  "sq_empty q = (sq_offset q = int (length (sq_deque q)))"

definition sq_get :: "'r send_queue \<Rightarrow> (seq_req \<times> 'r send_queue) result" where
  "sq_get q =
     py_assert (\<not> sq_empty q)
       (bind_result (list_at (sq_deque q) (sq_offset q))
          (\<lambda>req. Inr (req, q\<lparr>sq_offset := sq_offset q + 1\<rparr>)))"

definition sq_add :: "('r \<Rightarrow> string) \<Rightarrow> 'r \<Rightarrow> 'r send_queue \<Rightarrow> 'r send_queue" where
  "sq_add ser raw q =
     q\<lparr>sq_deque := sq_deque q @ [(sq_seq q, ser raw)], sq_seq := sq_seq q + 1\<rparr>"

definition sq_consumer_check :: "nat \<Rightarrow> 'r send_queue \<Rightarrow> bool" where
  "sq_consumer_check c q = (sq_consumer q = Some c)"

text \<open>The loop of \<open>ack\<close>: drop from the left while at least \<open>n\<close> requests are queued.\<close>

fun sq_ack_loop :: "int \<Rightarrow> seq_req list \<Rightarrow> int \<Rightarrow> seq_req list \<times> int" where
  "sq_ack_loop n [] off = ([], off)"
| "sq_ack_loop n (r # rs) off =
     (if n \<le> int (length (r # rs)) then sq_ack_loop n rs (off - 1) else (r # rs, off))"

definition sq_ack :: "nat \<Rightarrow> int \<Rightarrow> 'r send_queue \<Rightarrow> bool \<times> 'r send_queue" where
  "sq_ack c a q =
     (if \<not> sq_consumer_check c q then (False, q)
      else if sq_seq q \<le> a then (False, q)
      else case sq_ack_loop (sq_seq q - a) (sq_deque q) (sq_offset q) of
        (d, off) \<Rightarrow> (True, q\<lparr>sq_deque := d, sq_offset := off\<rparr>))"

definition sq_new_consumer :: "'r send_queue \<Rightarrow> nat \<times> 'r send_queue" where
  "sq_new_consumer q =
     (let q1 = sq_reset q
      in (sq_fresh q1, q1\<lparr>sq_consumer := Some (sq_fresh q1), sq_fresh := Suc (sq_fresh q1)\<rparr>))"

text \<open>
  \<open>next\<close>. Its locked part stops a consumer that has been replaced, or hands out the next
  queued request; otherwise a request has to be read (\<open>Need_input\<close>), with the request lock
  held and the check repeated, and queued.
\<close>

datatype next_result = Stop_iteration | Got seq_req | Need_input

definition sq_try_next :: "nat \<Rightarrow> 'r send_queue \<Rightarrow> (next_result \<times> 'r send_queue) result" where
  "sq_try_next c q =
     (if \<not> sq_consumer_check c q then Inr (Stop_iteration, q)
      else if \<not> sq_empty q then bind_result (sq_get q) (\<lambda>(r, q1). Inr (Got r, q1))
      else Inr (Need_input, q))"

definition sq_read :: "'r send_queue \<Rightarrow> 'r send_queue option" where
  "sq_read q =
     (case sq_input q of [] \<Rightarrow> None
      | x # xs \<Rightarrow> Some (q\<lparr>sq_input := xs, sq_inflight := Some x\<rparr>))"

definition sq_store :: "('r \<Rightarrow> string) \<Rightarrow> 'r send_queue \<Rightarrow> 'r send_queue" where
  "sq_store ser q =
     (case sq_inflight q of None \<Rightarrow> q | Some x \<Rightarrow> (sq_add ser x q)\<lparr>sq_inflight := None\<rparr>)"

text \<open>The whole of \<open>next\<close> when nobody interferes: at most one request is read.\<close>

definition sq_next ::
    "('r \<Rightarrow> string) \<Rightarrow> nat \<Rightarrow> 'r send_queue \<Rightarrow> (next_result \<times> 'r send_queue) result" where
  "sq_next ser c q =
     bind_result (sq_try_next c q) (\<lambda>(r, q1).
       case r of
         Need_input \<Rightarrow>
           (case sq_read q1 of
              None \<Rightarrow> Inr (Stop_iteration, q1)
            | Some q2 \<Rightarrow> sq_try_next c (sq_store ser q2))
       | _ \<Rightarrow> Inr (r, q1))"

text \<open>The next \<open>n\<close> requests a consumer gets.\<close>

fun sq_take ::
    "('r \<Rightarrow> string) \<Rightarrow> nat \<Rightarrow> nat \<Rightarrow> 'r send_queue \<Rightarrow> (seq_req list \<times> 'r send_queue) result" where
  "sq_take ser c 0 q = Inr ([], q)"
| "sq_take ser c (Suc n) q =
     bind_result (sq_next ser c q) (\<lambda>(r, q1).
       case r of
         Got req \<Rightarrow> bind_result (sq_take ser c n q1) (\<lambda>(rs, q2). Inr (req # rs, q2))
       | _ \<Rightarrow> Inr ([], q1))"

section \<open>Basic lemmas\<close>

lemma sq_ack_loop_drop:
  assumes "1 \<le> n"
  shows "sq_ack_loop n d off =
     (let k = length d - nat (n - 1) in (drop k d, off - int k))"
  using assms
proof (induction n d off rule: sq_ack_loop.induct)
  case (1 n off)
  then show ?case by simp
next
  case (2 n r rs off)
  show ?case
  proof (cases "n \<le> int (length (r # rs))")
    case True
    then have "Suc (length rs) - nat (n - 1) = Suc (length rs - nat (n - 1))"
      using "2.prems" by auto
    then show ?thesis using True 2 by (simp add: Let_def)
  next
    case False
    then have "Suc (length rs) - nat (n - 1) = 0" by simp
    then show ?thesis using False by (simp add: Let_def)
  qed
qed

text \<open>The queue proper: consecutive sequence numbers up to \<open>sq_seq\<close>.\<close>

definition sq_wf :: "'r send_queue \<Rightarrow> bool" where
  "sq_wf q \<longleftrightarrow>
     int (length (sq_deque q)) \<le> sq_seq q \<and>
     map fst (sq_deque q) = map int [nat (sq_seq q) - length (sq_deque q)..<nat (sq_seq q)]"

definition sq_offset_ok :: "'r send_queue \<Rightarrow> bool" where
  "sq_offset_ok q \<longleftrightarrow> 0 \<le> sq_offset q \<and> sq_offset q \<le> int (length (sq_deque q))"

lemma sq_wf_nth:
  assumes "sq_wf q" "i < length (sq_deque q)"
  shows "fst (sq_deque q ! i) = sq_seq q - int (length (sq_deque q)) + int i"
proof -
  have "map fst (sq_deque q) ! i = map int [nat (sq_seq q) - length (sq_deque q)..<nat (sq_seq q)] ! i"
    using assms by (simp add: sq_wf_def)
  moreover have "length (sq_deque q) \<le> nat (sq_seq q)" using assms(1) by (simp add: sq_wf_def le_nat_iff)
  ultimately show ?thesis using assms(2) by (simp add: nth_append)
qed

lemma sq_wf_drop:
  assumes "sq_wf q"
  shows "sq_wf (q\<lparr>sq_deque := drop k (sq_deque q), sq_offset := off\<rparr>)"
proof -
  let ?l = "length (sq_deque q)"
  have l: "?l \<le> nat (sq_seq q)" using assms by (simp add: sq_wf_def le_nat_iff)
  have "drop k [nat (sq_seq q) - ?l..<nat (sq_seq q)] =
      [nat (sq_seq q) - (?l - k)..<nat (sq_seq q)]"
    using l by (cases "k \<le> ?l") simp_all
  moreover have "map fst (drop k (sq_deque q)) =
      map int (drop k [nat (sq_seq q) - ?l..<nat (sq_seq q)])"
    using assms unfolding sq_wf_def by (metis drop_map)
  moreover have "int (?l - k) \<le> sq_seq q"
    using assms order_trans [of "int (?l - k)" "int ?l" "sq_seq q"] by (simp add: sq_wf_def)
  ultimately show ?thesis using l by (simp add: sq_wf_def)
qed

lemma sq_wf_add:
  assumes "sq_wf q"
  shows "sq_wf (sq_add ser x q)"
proof -
  have "0 \<le> sq_seq q" using assms by (simp add: sq_wf_def)
  moreover from this have "nat (sq_seq q + 1) = Suc (nat (sq_seq q))" by simp
  ultimately show ?thesis using assms by (auto simp: sq_wf_def sq_add_def)
qed

text \<open>
  \<open>ack\<close> by its effect: it drops exactly the queued requests up to the acknowledged number
  and moves the offset by as many.
\<close>

lemma sq_ack_effect:
  assumes wf: "sq_wf q" and c: "sq_consumer q = Some c" and a: "0 \<le> a" "a < sq_seq q"
  shows "\<exists>k. sq_ack c a q = (True, q\<lparr>sq_deque := drop k (sq_deque q), sq_offset := sq_offset q - int k\<rparr>) \<and>
     k \<le> length (sq_deque q) \<and>
     (\<forall>i < length (sq_deque q). i < k \<longleftrightarrow> fst (sq_deque q ! i) \<le> a)"
proof -
  let ?d = "sq_deque q" let ?k = "length ?d - nat (sq_seq q - a - 1)"
  have "sq_ack c a q = (True, q\<lparr>sq_deque := drop ?k ?d, sq_offset := sq_offset q - int ?k\<rparr>)"
    using c a sq_ack_loop_drop [of "sq_seq q - a" ?d "sq_offset q"]
    by (simp add: sq_ack_def sq_consumer_check_def Let_def)
  moreover have "i < ?k \<longleftrightarrow> fst (?d ! i) \<le> a" if "i < length ?d" for i
    using sq_wf_nth [OF wf that] a that by auto
  ultimately show ?thesis by (intro exI [of _ ?k]) simp
qed

section \<open>Interleaved use\<close>

text \<open>
  The consumers, the reader of the user's iterator and the response iterator act in any
  order; a read may be followed by a reconnect before the request is queued. \<open>acks\<close> are
  the acknowledgements that were accepted so far.
\<close>

inductive sq_reach :: "('r \<Rightarrow> string) \<Rightarrow> 'r list \<Rightarrow> int list \<Rightarrow> 'r send_queue \<Rightarrow> bool"
  for ser :: "'r \<Rightarrow> string" and xs :: "'r list" where
  init: "sq_reach ser xs [] (sq_init xs)"
| reconnect: "sq_reach ser xs acks q \<Longrightarrow> sq_new_consumer q = (c, q') \<Longrightarrow> sq_reach ser xs acks q'"
| pull: "sq_reach ser xs acks q \<Longrightarrow> sq_try_next c q = Inr (r, q') \<Longrightarrow> sq_reach ser xs acks q'"
| read: "sq_reach ser xs acks q \<Longrightarrow> sq_inflight q = None \<Longrightarrow> sq_read q = Some q' \<Longrightarrow>
     sq_reach ser xs acks q'"
| store: "sq_reach ser xs acks q \<Longrightarrow> sq_reach ser xs acks (sq_store ser q)"
| ack: "sq_reach ser xs acks q \<Longrightarrow> 0 \<le> a \<Longrightarrow> sq_ack c a q = (ok, q') \<Longrightarrow>
     sq_reach ser xs (if ok then a # acks else acks) q'"

text \<open>What is queued is a slice of the input, what is not read is the rest of it.\<close>

definition sq_inv :: "('r \<Rightarrow> string) \<Rightarrow> 'r list \<Rightarrow> int list \<Rightarrow> 'r send_queue \<Rightarrow> bool" where
  "sq_inv ser xs acks q \<longleftrightarrow>
     sq_wf q \<and> nat (sq_seq q) \<le> length xs \<and>
     map snd (sq_deque q) =
       map ser (drop (nat (sq_seq q) - length (sq_deque q)) (take (nat (sq_seq q)) xs)) \<and>
     (case sq_inflight q of None \<Rightarrow> [] | Some x \<Rightarrow> [x]) @ sq_input q = drop (nat (sq_seq q)) xs \<and>
     (\<forall>i < nat (sq_seq q) - length (sq_deque q). \<exists>a \<in> set acks. int i \<le> a)"

lemma sq_inv_frame [simp]:
  "sq_inv ser xs acks (q\<lparr>sq_offset := off\<rparr>) = sq_inv ser xs acks q"
  "sq_inv ser xs acks (q\<lparr>sq_consumer := co\<rparr>) = sq_inv ser xs acks q"
  "sq_inv ser xs acks (q\<lparr>sq_fresh := fr\<rparr>) = sq_inv ser xs acks q"
  by (simp_all add: sq_inv_def sq_wf_def split: option.splits)

lemma sq_inv_store:
  assumes "sq_inv ser xs acks q"
  shows "sq_inv ser xs acks (sq_store ser q)"
proof (cases "sq_inflight q")
  case None
  then show ?thesis using assms by (simp add: sq_store_def)
next
  case (Some x)
  let ?f = "nat (sq_seq q)" and ?l = "length (sq_deque q)"
  have wf: "sq_wf q" and dr: "drop ?f xs = x # sq_input q" and f: "?f \<le> length xs"
    and sl: "map snd (sq_deque q) = map ser (drop (?f - ?l) (take ?f xs))"
    using assms Some by (auto simp: sq_inv_def)
  have s: "nat (sq_seq q + 1) = Suc ?f" "?l \<le> ?f" using wf by (auto simp: sq_wf_def le_nat_iff)
  have lt: "?f < length xs" using dr by (metis drop_eq_Nil list.discI not_le)
  then have x: "xs ! ?f = x" "drop (Suc ?f) xs = sq_input q"
    using dr by (metis Cons_nth_drop_Suc list.inject)+
  have "map snd (sq_deque q @ [(sq_seq q, ser x)]) =
      map ser (drop (Suc ?f - Suc ?l) (take (Suc ?f) xs))"
    using sl lt x s(2) by (simp add: take_Suc_conv_app_nth)
  then show ?thesis
    using assms Some x s lt sq_wf_add [OF wf, of ser x]
    by (simp add: sq_inv_def sq_store_def sq_add_def sq_wf_def)
qed

lemma sq_inv_ack:
  assumes inv: "sq_inv ser xs acks q" and a: "0 \<le> a" and ack: "sq_ack c a q = (ok, q')"
  shows "sq_inv ser xs (if ok then a # acks else acks) q'"
proof (cases "sq_consumer q = Some c \<and> a < sq_seq q")
  case False
  then have "q' = q \<and> \<not> ok"
    using ack by (auto simp: sq_ack_def sq_consumer_check_def split: if_splits)
  then show ?thesis using inv by simp
next
  case True
  have wf: "sq_wf q" using inv by (simp add: sq_inv_def)
  let ?f = "nat (sq_seq q)" and ?l = "length (sq_deque q)"
  obtain k where q': "q' = q\<lparr>sq_deque := drop k (sq_deque q), sq_offset := sq_offset q - int k\<rparr>"
    and ok: "ok" and k: "k \<le> ?l"
    and le: "\<forall>i < ?l. i < k \<longleftrightarrow> fst (sq_deque q ! i) \<le> a"
    using sq_ack_effect [OF wf, of c a] True a ack by auto
  have l: "?l \<le> ?f" using wf by (simp add: sq_wf_def le_nat_iff)
  have acked: "\<exists>b \<in> set (a # acks). int i \<le> b" if i: "i < ?f - (?l - k)" for i
  proof (cases "i < ?f - ?l")
    case True
    then show ?thesis using inv by (auto simp: sq_inv_def)
  next
    case False
    then have j: "i - (?f - ?l) < k" "i - (?f - ?l) < ?l" using i k l by auto
    then have "fst (sq_deque q ! (i - (?f - ?l))) \<le> a" using le by blast
    moreover have "0 \<le> sq_seq q" using wf by (simp add: sq_wf_def)
    ultimately have "int i \<le> a" using sq_wf_nth [OF wf j(2)] False l by simp
    then show ?thesis by auto
  qed
  have "map snd (drop k (sq_deque q)) = drop k (map ser (drop (?f - ?l) (take ?f xs)))"
    using inv unfolding sq_inv_def by (metis drop_map)
  also have "\<dots> = map ser (drop (?f - (?l - k)) (take ?f xs))"
    using k l by (simp add: drop_map add.commute)
  finally show ?thesis
    using inv q' ok acked sq_wf_drop [OF wf] by (simp add: sq_inv_def)
qed

lemma sq_reach_inv: "sq_reach ser xs acks q \<Longrightarrow> sq_inv ser xs acks q"
proof (induction rule: sq_reach.induct)
  case init
  show ?case by (simp add: sq_inv_def sq_init_def sq_wf_def)
next
  case (reconnect acks q c q')
  then show ?case by (auto simp: sq_new_consumer_def sq_reset_def Let_def)
next
  case (pull acks q c r q')
  then have "q' = q \<or> q' = q\<lparr>sq_offset := sq_offset q + 1\<rparr>"
    by (auto simp: sq_try_next_def sq_get_def py_assert_def bind_result_Inr_iff split: if_splits)
  then show ?case using pull by auto
next
  case (read acks q q')
  then show ?case by (auto simp: sq_read_def sq_inv_def sq_wf_def split: list.splits)
next
  case (store acks q)
  then show ?case by (simp add: sq_inv_store)
next
  case (ack acks q a c ok q')
  then show ?case by (simp add: sq_inv_ack)
qed

section \<open>What a consumer gets\<close>

text \<open>The requests still ahead of a consumer at offset \<open>sq_offset\<close>: queued, then new ones.\<close>

definition sq_ahead :: "('r \<Rightarrow> string) \<Rightarrow> 'r send_queue \<Rightarrow> seq_req list" where
  "sq_ahead ser q =
     drop (nat (sq_offset q)) (sq_deque q) @
     map (\<lambda>i. (sq_seq q + int i, ser (sq_input q ! i))) [0..<length (sq_input q)]"

lemma sq_try_next_queued:
  assumes "sq_consumer q = Some c" "0 \<le> sq_offset q" "sq_offset q < int (length (sq_deque q))"
  shows "sq_try_next c q =
     Inr (Got (sq_deque q ! nat (sq_offset q)), q\<lparr>sq_offset := sq_offset q + 1\<rparr>)"
proof -
  have "list_at (sq_deque q) (sq_offset q) = Inr (sq_deque q ! nat (sq_offset q))"
    using assms list_at_nat [of "nat (sq_offset q)" "sq_deque q"] by simp
  then show ?thesis
    using assms by (simp add: sq_try_next_def sq_consumer_check_def sq_get_def sq_empty_def
        py_assert_def)
qed

lemma sq_next_ahead:
  assumes c: "sq_consumer q = Some c" and off: "sq_offset_ok q" and infl: "sq_inflight q = None"
  shows "case sq_ahead ser q of
       [] \<Rightarrow> sq_next ser c q = Inr (Stop_iteration, q)
     | r # rs \<Rightarrow> \<exists>q'. sq_next ser c q = Inr (Got r, q') \<and> sq_ahead ser q' = rs \<and>
         sq_consumer q' = Some c \<and> sq_offset_ok q' \<and> sq_inflight q' = None"
proof (cases "sq_offset q < int (length (sq_deque q))")
  case True
  let ?o = "nat (sq_offset q)"
  have o: "0 \<le> sq_offset q" "?o < length (sq_deque q)" using off True by (auto simp: sq_offset_ok_def)
  then have "drop ?o (sq_deque q) = sq_deque q ! ?o # drop (Suc ?o) (sq_deque q)"
    by (simp add: Cons_nth_drop_Suc)
  moreover have "nat (sq_offset q + 1) = Suc ?o" using o by simp
  ultimately show ?thesis
    using sq_try_next_queued [OF c o(1) True] c infl o
    by (simp add: sq_next_def sq_ahead_def sq_offset_ok_def)
next
  case False
  then have e: "sq_offset q = int (length (sq_deque q))" using off by (simp add: sq_offset_ok_def)
  then have need: "sq_try_next c q = Inr (Need_input, q)"
    using c by (simp add: sq_try_next_def sq_consumer_check_def sq_empty_def)
  show ?thesis
  proof (cases "sq_input q")
    case Nil
    then show ?thesis using need e by (simp add: sq_next_def sq_read_def sq_ahead_def)
  next
    case (Cons x ys)
    let ?q1 = "sq_store ser (q\<lparr>sq_input := ys, sq_inflight := Some x\<rparr>)"
    have q1: "sq_deque ?q1 = sq_deque q @ [(sq_seq q, ser x)]" "sq_seq ?q1 = sq_seq q + 1"
      "sq_offset ?q1 = sq_offset q" "sq_consumer ?q1 = Some c" "sq_inflight ?q1 = None"
      "sq_input ?q1 = ys"
      using c by (simp_all add: sq_store_def sq_add_def)
    have "sq_next ser c q =
        Inr (Got (sq_seq q, ser x), ?q1\<lparr>sq_offset := sq_offset q + 1\<rparr>)"
      using need Cons sq_try_next_queued [of ?q1 c] q1 e
      by (simp add: sq_next_def sq_read_def)
    moreover have "nat (int (length (sq_deque q)) + 1) = Suc (length (sq_deque q))" by simp
    moreover have "map (\<lambda>i. (sq_seq q + int i, ser ((x # ys) ! i))) [0..<length (x # ys)] =
        (sq_seq q, ser x) # map (\<lambda>i. (sq_seq q + 1 + int i, ser (ys ! i))) [0..<length ys]"
      by (simp add: map_upt_Suc del: upt_Suc)
    ultimately show ?thesis
      using q1 e Cons by (simp add: sq_ahead_def sq_offset_ok_def)
  qed
qed

lemma sq_take_ahead:
  assumes "sq_consumer q = Some c" "sq_offset_ok q" "sq_inflight q = None"
  shows "\<exists>q'. sq_take ser c n q = Inr (take n (sq_ahead ser q), q')"
  using assms
proof (induction n arbitrary: q)
  case (Suc n)
  show ?case
  proof (cases "sq_ahead ser q")
    case Nil
    then show ?thesis using sq_next_ahead [OF Suc.prems, of ser] by simp
  next
    case (Cons r rs)
    then obtain q1 where q1: "sq_next ser c q = Inr (Got r, q1)" "sq_ahead ser q1 = rs"
      "sq_consumer q1 = Some c" "sq_offset_ok q1" "sq_inflight q1 = None"
      using sq_next_ahead [OF Suc.prems, of ser] by auto
    then show ?thesis using Suc.IH [of q1] Cons by auto
  qed
qed simp

section \<open>Retries, responses and the server's acknowledgements\<close>

text \<open>
  \<open>_grpc_with_retry\<close>: the outcomes of the successive calls; \<open>_grpc_error_need_recover\<close> ends
  in \<open>return True\<close>, so any RPC error is tried again. \<open>None\<close>: still retrying.
\<close>

datatype status_code = UNAVAILABLE | INTERNAL | UNIMPLEMENTED | UNKNOWN | OTHER_STATUS

datatype 'v call_outcome = Returned 'v | Rpc_error status_code | Other_exception

definition grpc_error_need_recover :: "status_code \<Rightarrow> bool" where
  "grpc_error_need_recover cd =
     (if cd \<in> set [UNAVAILABLE, INTERNAL, UNIMPLEMENTED] then True else True)"

fun grpc_with_retry :: "'v call_outcome list \<Rightarrow> 'v call_outcome option" where
  "grpc_with_retry [] = None"
| "grpc_with_retry (Returned v # os) = Some (Returned v)"
| "grpc_with_retry (Rpc_error cd # os) =
     (if grpc_error_need_recover cd then grpc_with_retry os else Some (Rpc_error cd))"
| "grpc_with_retry (Other_exception # os) = Some Other_exception"

text \<open>
  The response iterator of \<open>intercept_stream_stream\<close>, with the events its call sees: a
  response (whose code the channel checks), the end of the stream, an RPC error, after which
  every attempt to call again makes a new consumer, and the transport pulling a request.
\<close>

datatype stream_event = Ev_response bool int string | Ev_end | Ev_rpc_error | Ev_pull

datatype stream_end = Running | Finished | Check_failed

fun response_iterator ::
    "('r \<Rightarrow> string) \<Rightarrow> (string \<Rightarrow> 'p) \<Rightarrow> stream_event list \<Rightarrow> nat \<Rightarrow> 'r send_queue \<Rightarrow>
     'p list \<times> stream_end" where
  "response_iterator ser deser [] c q = ([], Running)"
| "response_iterator ser deser (Ev_response ok a payload # es) c q =
     (if \<not> ok then ([], Check_failed)
      else case sq_ack c a q of
        (True, q1) \<Rightarrow> (case response_iterator ser deser es c q1 of
                         (ps, e) \<Rightarrow> (deser payload # ps, e))
      | (False, q1) \<Rightarrow> response_iterator ser deser es c q1)"
| "response_iterator ser deser (Ev_end # es) c q = ([], Finished)"
| "response_iterator ser deser (Ev_rpc_error # es) c q =
     (case sq_new_consumer q of (c1, q1) \<Rightarrow> response_iterator ser deser es c1 q1)"
| "response_iterator ser deser (Ev_pull # es) c q =
     (case sq_next ser c q of
        Inr (_, q1) \<Rightarrow> response_iterator ser deser es c q1
      | Inl _ \<Rightarrow> response_iterator ser deser es c q)"

text \<open>The server's method handler answers with the number of the request it read last.\<close>

definition mh_init :: int where
  "mh_init = 0"

definition mh_request_deserializer :: "(string \<Rightarrow> 'm) \<Rightarrow> seq_req \<Rightarrow> int \<Rightarrow> 'm \<times> int" where
  "mh_request_deserializer deser rq ack = (deser (snd rq), fst rq)"

definition mh_response_serializer :: "('m \<Rightarrow> string) \<Rightarrow> 'm \<Rightarrow> int \<Rightarrow> bool \<times> int \<times> string" where
  "mh_response_serializer ser m ack = (True, ack, ser m)"

section \<open>Identifying the call\<close>

text \<open>Call metadata are Python tuples and strings.\<close>

datatype py_val = Py_str string | Py_tuple "py_val list"

definition fl_channel_id :: string where
  "fl_channel_id = ''fl-channel-id''"

text \<open>\<open>_augment_metadata\<close>: \<open>(base_metadata + self._fl_metadata,)\<close>, as written.\<close>

definition augment_metadata :: "string \<Rightarrow> py_val list \<Rightarrow> py_val list" where
  "augment_metadata ident metadata =
     [Py_tuple (metadata @ [Py_str fl_channel_id, Py_str ident])]"

definition pv_item :: "nat \<Rightarrow> py_val \<Rightarrow> py_val result" where
  "pv_item i v =
     (case v of
        Py_tuple vs \<Rightarrow> list_at vs (int i)
      | Py_str s \<Rightarrow> bind_result (list_at s (int i)) (\<lambda>ch. Inr (Py_str [ch])))"

fun extract_metadata :: "py_val option \<Rightarrow> py_val list \<Rightarrow> py_val option result" where
  "extract_metadata acc [] = Inr acc"
| "extract_metadata acc (pair # ps) =
     bind_result (pv_item 0 pair) (\<lambda>k.
       if k = Py_str fl_channel_id
       then bind_result (pv_item 1 pair) (\<lambda>v. extract_metadata (Some v) ps)
       else extract_metadata acc ps)"

text \<open>\<open>_method_match\<close> cuts the service name between the first two slashes.\<close>

definition method_match :: "string list \<Rightarrow> string \<Rightarrow> bool" where
  "method_match handlers m =
     (case m of
        [] \<Rightarrow> False
      | ch # rest \<Rightarrow>
          if ch \<noteq> CHR ''/'' then False
          else if CHR ''/'' \<notin> set rest then False
          else takeWhile (\<lambda>x. x \<noteq> CHR ''/'') rest \<in> set handlers)"

definition check_peer_identifier :: "string option \<Rightarrow> py_val option \<Rightarrow> bool" where
  "check_peer_identifier own peer =
     (case own of
        None \<Rightarrow> False
      | Some ident \<Rightarrow> if ident = [] then False else peer = Some (Py_str ident))"

datatype service_handler = Untouched | Respond_unidentified | Acknowledge

definition intercept_service ::
    "string list \<Rightarrow> string option \<Rightarrow> string \<Rightarrow> py_val list \<Rightarrow> service_handler result" where
  "intercept_service handlers own m metadata =
     (if \<not> method_match handlers m then Inr Untouched
      else bind_result (extract_metadata None metadata) (\<lambda>peer.
        if \<not> check_peer_identifier own peer then Inr Respond_unidentified
        else Inr Acknowledge))"

section \<open>Properties\<close>

text \<open>
  C9. No request is lost. However consumers come and go, whatever is pulled, read, queued
  and acknowledged in between: every request read from the user's iterator so far carries
  its position as sequence number and is still queued, or an acknowledgement at or above
  its number was accepted; the rest of the input is intact.
\<close>

theorem send_queue_no_loss:
  assumes "sq_reach ser xs acks q"
  shows "0 \<le> sq_seq q \<and> nat (sq_seq q) \<le> length xs \<and>
     (\<forall>i < nat (sq_seq q). (int i, ser (xs ! i)) \<in> set (sq_deque q) \<or> (\<exists>a \<in> set acks. int i \<le> a)) \<and>
     (case sq_inflight q of None \<Rightarrow> [] | Some x \<Rightarrow> [x]) @ sq_input q = drop (nat (sq_seq q)) xs"
proof -
  have inv: "sq_inv ser xs acks q" by (rule sq_reach_inv [OF assms])
  then have wf: "sq_wf q" and sl: "map snd (sq_deque q) =
      map ser (drop (nat (sq_seq q) - length (sq_deque q)) (take (nat (sq_seq q)) xs))"
    by (simp_all add: sq_inv_def)
  let ?f = "nat (sq_seq q)" and ?l = "length (sq_deque q)"
  have l: "?l \<le> ?f" "0 \<le> sq_seq q" using wf by (auto simp: sq_wf_def le_nat_iff)
  have "(int i, ser (xs ! i)) \<in> set (sq_deque q) \<or> (\<exists>a \<in> set acks. int i \<le> a)" if i: "i < ?f" for i
  proof (cases "i < ?f - ?l")
    case True
    then show ?thesis using inv by (auto simp: sq_inv_def)
  next
    case False
    let ?j = "i - (?f - ?l)"
    have j: "?j < ?l" "(?f - ?l) + ?j = i" using False i l by auto
    have "fst (sq_deque q ! ?j) = int i" using sq_wf_nth [OF wf j(1)] j l by simp
    moreover have "snd (sq_deque q ! ?j) = ser (xs ! i)"
    proof -
      have "snd (sq_deque q ! ?j) = map snd (sq_deque q) ! ?j" using j by simp
      also have "\<dots> = ser (xs ! i)"
        unfolding sl using inv j i l by (simp add: sq_inv_def)
      finally show ?thesis .
    qed
    ultimately have "sq_deque q ! ?j = (int i, ser (xs ! i))" by (metis prod.collapse)
    then show ?thesis using j nth_mem by metis
  qed
  then show ?thesis using inv l by (simp add: sq_inv_def)
qed

definition demo_queue :: "string send_queue" where
  "demo_queue = \<lparr>sq_seq = 1, sq_offset = 0, sq_deque = [(0, ''a'')], sq_consumer = Some 0,
     sq_fresh = 1, sq_input = [''b''], sq_inflight = None\<rparr>"

lemma demo_queue_reach: "sq_reach (\<lambda>s. s) [''a'', ''b''] [] demo_queue"
proof -
  let ?q1 = "snd (sq_new_consumer (sq_init [''a'', ''b'']))"
  let ?q2 = "?q1\<lparr>sq_input := [''b''], sq_inflight := Some ''a''\<rparr>"
  have 1: "sq_reach (\<lambda>s. s) [''a'', ''b''] [] ?q1"
    by (rule sq_reach.reconnect [OF sq_reach.init surjective_pairing])
  have "sq_reach (\<lambda>s. s) [''a'', ''b''] [] ?q2"
    by (rule sq_reach.read [OF 1])
      (simp_all add: sq_new_consumer_def sq_reset_def sq_init_def sq_read_def)
  from sq_reach.store [OF this] show ?thesis
    by (simp add: demo_queue_def sq_store_def sq_add_def sq_new_consumer_def sq_reset_def
        sq_init_def Let_def)
qed

theorem send_queue_no_loss_witness:
  "(0, ''a'') \<in> set (sq_deque demo_queue) \<and> sq_input demo_queue = [''b'']"
  using send_queue_no_loss [OF demo_queue_reach] by (simp add: demo_queue_def)

text \<open>
  C25. Resending after a reconnect. From any reachable state in which no read is under way,
  a new consumer gets first every request that is not acknowledged, in order and unchanged,
  and then the remaining input with the next sequence numbers.
\<close>

theorem send_queue_resend:
  assumes "sq_reach ser xs acks q" and "sq_inflight q = None"
    and "sq_new_consumer q = (c, q1)"
  shows "\<exists>q2. sq_take ser c n q1 = Inr (take n
     (sq_deque q @ map (\<lambda>i. (int i, ser (xs ! i))) [nat (sq_seq q)..<length xs]), q2)"
proof -
  have inv: "sq_inv ser xs acks q" by (rule sq_reach_inv [OF assms(1)])
  let ?f = "nat (sq_seq q)"
  have f: "0 \<le> sq_seq q" "?f \<le> length xs" "sq_input q = drop ?f xs"
    using inv assms(2) by (auto simp: sq_inv_def sq_wf_def)
  have q1: "sq_consumer q1 = Some c" "sq_offset q1 = 0" "sq_inflight q1 = None"
    "sq_deque q1 = sq_deque q" "sq_seq q1 = sq_seq q" "sq_input q1 = sq_input q"
    using assms(2,3) by (auto simp: sq_new_consumer_def sq_reset_def Let_def)
  have "map (\<lambda>i. (int i, ser (xs ! i))) [?f..<length xs] =
      map (\<lambda>i. (sq_seq q + int i, ser (drop ?f xs ! i))) [0..<length xs - ?f]"
    using f by (intro nth_equalityI) auto
  then have "sq_ahead ser q1 =
      sq_deque q @ map (\<lambda>i. (int i, ser (xs ! i))) [?f..<length xs]"
    using q1 f by (simp add: sq_ahead_def)
  then show ?thesis
    using sq_take_ahead [of q1 c ser n] q1 by (simp add: sq_offset_ok_def)
qed

theorem send_queue_resend_witness:
  "\<exists>q2. sq_take (\<lambda>s. s) 1 5 (snd (sq_new_consumer demo_queue)) =
     Inr ([(0, ''a''), (1, ''b'')], q2)"
proof -
  have "sq_inflight demo_queue = None" by (simp add: demo_queue_def)
  moreover have "sq_new_consumer demo_queue = (1, snd (sq_new_consumer demo_queue))"
    by (simp add: demo_queue_def sq_new_consumer_def sq_reset_def Let_def)
  ultimately show ?thesis
    using send_queue_resend [OF demo_queue_reach, of 1 _ 5]
    by (simp add: demo_queue_def upt_rec eval_nat_numeral)
qed

text \<open>
  A response before the first request. The server's handler of a call acknowledges 0
  until it has read a request. Such an early response is dropped by a client that has sent
  nothing yet; after a reconnect it takes request 0 out of the queue although the new call
  has not sent it, and leaves the offset at -1.
\<close>

theorem early_response_ack:
  assumes "sq_wf q" and "sq_new_consumer q = (c, q1)"
  shows "(sq_seq q = 0 \<longrightarrow>
       response_iterator ser deser [Ev_response True mh_init p] c q1 = ([], Running)) \<and>
     (\<forall>p0 rest. sq_deque q = (0, p0) # rest \<longrightarrow>
       (\<exists>q2. sq_ack c mh_init q1 = (True, q2) \<and> sq_deque q2 = rest \<and> sq_offset q2 = - 1))"
proof (intro conjI impI allI)
  have q1: "sq_consumer q1 = Some c" "sq_offset q1 = 0" "sq_deque q1 = sq_deque q"
    "sq_seq q1 = sq_seq q"
    using assms(2) by (auto simp: sq_new_consumer_def sq_reset_def Let_def)
  show "response_iterator ser deser [Ev_response True mh_init p] c q1 = ([], Running)"
    if "sq_seq q = 0"
    using that q1 by (simp add: sq_ack_def sq_consumer_check_def mh_init_def)
  fix p0 rest
  assume d: "sq_deque q = (0, p0) # rest"
  have "int (length (sq_deque q)) = sq_seq q"
    using sq_wf_nth [OF assms(1), of 0] d by simp
  moreover from this have "nat (sq_seq q - 1) = length rest" using d by simp
  ultimately have "sq_ack_loop (sq_seq q1 - 0) (sq_deque q1) (sq_offset q1) = (rest, - 1)" and "0 < sq_seq q1"
    using d q1 sq_ack_loop_drop [of "sq_seq q" "(0, p0) # rest" 0] by (auto simp: Let_def)
  then show "\<exists>q2. sq_ack c mh_init q1 = (True, q2) \<and> sq_deque q2 = rest \<and> sq_offset q2 = - 1"
    using q1 by (simp add: sq_ack_def sq_consumer_check_def mh_init_def)
qed

theorem early_response_ack_witness:
  "\<exists>q2. sq_ack 1 mh_init (snd (sq_new_consumer demo_queue)) = (True, q2) \<and>
     sq_deque q2 = [] \<and> sq_offset q2 = - 1"
proof -
  have "sq_wf demo_queue" by (simp add: demo_queue_def sq_wf_def)
  moreover have "sq_new_consumer demo_queue = (1, snd (sq_new_consumer demo_queue))"
    by (simp add: demo_queue_def sq_new_consumer_def sq_reset_def Let_def)
  ultimately show ?thesis
    using early_response_ack [of demo_queue 1] by (simp add: demo_queue_def)
qed

text \<open>
  The channel identifier on the wire. Without metadata of the caller the server finds
  the identifier and lets the call through; with any metadata pairs of the caller the
  identifier is buried in one malformed tuple, the server finds none, and answers
  UNIDENTIFIED whatever peer it knows.
\<close>

theorem metadata_identifies_call:
  assumes "method_match handlers m" and "ident \<noteq> []"
  shows "intercept_service handlers (Some ident) m (augment_metadata ident []) = Inr Acknowledge \<and>
     intercept_service handlers own m
       (augment_metadata ident (Py_tuple [Py_str k, Py_str v] # md)) = Inr Respond_unidentified"
  using assms
  by (auto simp: intercept_service_def augment_metadata_def pv_item_def check_peer_identifier_def
      split: option.splits)

theorem metadata_identifies_call_witness:
  "intercept_service [''svc''] (Some ''id'') ''/svc/Call'' (augment_metadata ''id'' []) = Inr Acknowledge \<and>
   intercept_service [''svc''] (Some ''id'') ''/svc/Call''
     (augment_metadata ''id'' [Py_tuple [Py_str ''k'', Py_str ''v'']]) = Inr Respond_unidentified"
proof -
  have "method_match [''svc''] ''/svc/Call''" "''id'' \<noteq> []" by (simp_all add: method_match_def)
  from metadata_identifies_call [OF this] show ?thesis by blast
qed

end
