(* ===== verification/Batch_Seq.thy ===== *)
theory Batch_Seq
  imports Prelude
begin

text \<open>
  The window of item batches that a leader or follower keeps in flight
  (\<open>fedlearner/data_join/item_batch_seq_processor.py\<close>) and its use by the example id
  fetcher (\<open>example_id_batch_fetcher.py\<close>).

  \<open>ItemBatchSeqProcessor\<close> works on any batch class with a begin index and a length, so its
  operations take these two functions; the locale \<open>batch_class\<close> states what they promise,
  and the example id batch of the fetcher interprets it. \<open>os._exit(-1)\<close> is the result
  \<open>ProcessExit\<close>. Logging and metrics have no counterpart.
\<close>

section \<open>The processor\<close>

record 'b seq_proc =
  sp_max_flying_item :: int
  sp_flying_item_count :: int
  sp_batch_queue :: "'b list"
  sp_input_finished :: bool
  sp_process_finished :: bool
  sp_last_index :: "int option"

definition seq_proc_init :: "int \<Rightarrow> 'b seq_proc" where
  "seq_proc_init max_flying =
     \<lparr>sp_max_flying_item = max_flying, sp_flying_item_count = 0, sp_batch_queue = [],
      sp_input_finished = False, sp_process_finished = False, sp_last_index = None\<rparr>"

definition set_input_finished :: "'b seq_proc \<Rightarrow> 'b seq_proc" where
  "set_input_finished p = p\<lparr>sp_input_finished := True\<rparr>"

definition get_flying_begin_index :: "('b \<Rightarrow> int) \<Rightarrow> 'b seq_proc \<Rightarrow> int option" where
  "get_flying_begin_index bi p =
     (case sp_batch_queue p of [] \<Rightarrow> None | b # _ \<Rightarrow> Some (bi b))"

definition end_index :: "('b \<Rightarrow> int) \<Rightarrow> ('b \<Rightarrow> nat) \<Rightarrow> 'b \<Rightarrow> int" where
  "end_index bi ln b = bi b + int (ln b)"

definition check_index_rollback ::
    "('b \<Rightarrow> int) \<Rightarrow> ('b \<Rightarrow> nat) \<Rightarrow> int \<Rightarrow> 'b seq_proc \<Rightarrow> bool" where
  "check_index_rollback bi ln next_index p =
     (if sp_batch_queue p = [] then True
      else let end_batch = last (sp_batch_queue p)
      in if next_index = end_index bi ln end_batch then False
      else let idx = bisect_left (\<lambda>b. bi b < next_index) (sp_batch_queue p)
      in if idx = length (sp_batch_queue p) then next_index \<noteq> end_index bi ln end_batch
         else bi (sp_batch_queue p ! idx) \<noteq> next_index)"

definition past_last :: "int \<Rightarrow> 'b seq_proc \<Rightarrow> bool" where
  "past_last n p =
     (sp_process_finished p \<and> (case sp_last_index p of None \<Rightarrow> False | Some l \<Rightarrow> l < n))"

definition need_process ::
    "('b \<Rightarrow> int) \<Rightarrow> ('b \<Rightarrow> nat) \<Rightarrow> int option \<Rightarrow> 'b seq_proc \<Rightarrow> bool" where
  "need_process bi ln next_index p =
     (case next_index of
        None \<Rightarrow> False
      | Some n \<Rightarrow>
          if past_last n p then False
          else if check_index_rollback bi ln n p then True
          else sp_max_flying_item p \<le> 0 \<or> sp_flying_item_count p < sp_max_flying_item p)"

definition fly_item_full :: "'b seq_proc \<Rightarrow> bool" where
  "fly_item_full p =
     (0 < sp_max_flying_item p \<and> sp_max_flying_item p < sp_flying_item_count p)"

definition append_next_item_batch ::
    "('b \<Rightarrow> int) \<Rightarrow> ('b \<Rightarrow> nat) \<Rightarrow> 'b \<Rightarrow> 'b seq_proc \<Rightarrow> 'b seq_proc result" where
  "append_next_item_batch bi ln b p =
     (if sp_batch_queue p \<noteq> [] \<and> end_index bi ln (last (sp_batch_queue p)) \<noteq> bi b
      then Inl ProcessExit
      else Inr (p\<lparr>sp_batch_queue := sp_batch_queue p @ [b],
                  sp_flying_item_count := sp_flying_item_count p + int (ln b)\<rparr>))"

definition update_last_index :: "int \<Rightarrow> 'b seq_proc \<Rightarrow> 'b seq_proc" where
  "update_last_index i p =
     (case sp_last_index p of
        None \<Rightarrow> p\<lparr>sp_last_index := Some i\<rparr>
      | Some l \<Rightarrow> if l < i then p\<lparr>sp_last_index := Some i\<rparr> else p)"

definition set_process_finished :: "'b seq_proc \<Rightarrow> 'b seq_proc result" where
  "set_process_finished p =
     py_assert (sp_input_finished p) (Inr (p\<lparr>sp_process_finished := True\<rparr>))"

text \<open>
  \<open>make_processor\<close> in three parts: where it starts (a rolled back index empties the
  window, otherwise production goes on behind the last batch), what one output of the inner
  generator does, and the end of the round.
\<close>

definition processor_start ::
    "('b \<Rightarrow> int) \<Rightarrow> ('b \<Rightarrow> nat) \<Rightarrow> int \<Rightarrow> 'b seq_proc \<Rightarrow> (int \<times> bool \<times> 'b seq_proc) result" where
  "processor_start bi ln next_index p =
     (let p1 = (if check_index_rollback bi ln next_index p
                then p\<lparr>sp_batch_queue := [], sp_flying_item_count := 0\<rparr> else p);
          n = (if sp_batch_queue p1 \<noteq> [] then end_index bi ln (last (sp_batch_queue p1))
               else next_index)
      in py_assert (0 \<le> n) (Inr (n, sp_input_finished p1, p1)))"

definition processor_output ::
    "('b \<Rightarrow> int) \<Rightarrow> ('b \<Rightarrow> nat) \<Rightarrow> 'b option \<Rightarrow> 'b seq_proc \<Rightarrow> 'b seq_proc result" where
  "processor_output bi ln bo p =
     (case bo of
        None \<Rightarrow> Inr p
      | Some b \<Rightarrow>
          bind_result (if 0 < ln b then append_next_item_batch bi ln b p else Inr p)
            (\<lambda>p1. Inr (update_last_index (bi b + int (ln b) - 1) p1)))"

definition processor_end :: "bool \<Rightarrow> bool \<Rightarrow> 'b seq_proc \<Rightarrow> 'b seq_proc result" where
  "processor_end input_finished batch_finished p =
     (if input_finished \<and> batch_finished then set_process_finished p else Inr p)"

text \<open>
  \<open>fetch_item_batch_by_index\<close>: whether the input is exhausted, the batch that begins at the
  index, and the position hint for the next call.
\<close>

definition fetch_item_batch_by_index ::
    "('b \<Rightarrow> int) \<Rightarrow> ('b \<Rightarrow> nat) \<Rightarrow> int option \<Rightarrow> int option \<Rightarrow> 'b seq_proc \<Rightarrow>
     (bool \<times> 'b option \<times> int option) result" where
  "fetch_item_batch_by_index bi ln next_index hint_idx p =
     (case next_index of
        None \<Rightarrow> Inr (False, None, hint_idx)
      | Some n \<Rightarrow>
          let q = sp_batch_queue p
          in if past_last n p
             then Inr (True, None, None)
          else if q = [] then Inr (False, None, Some 0)
          else let end_batch = last q;
                   search =
                     (let idx = bisect_left (\<lambda>b. bi b < n) q
                      in if idx = length q
                         then if n \<le> end_index bi ln end_batch
                              then (sp_process_finished p, None, Some (int (length q)))
                              else (False, None, None)
                         else if bi (q ! idx) = n then (False, Some (q ! idx), Some (int idx))
                         else (False, None, None))
          in case hint_idx of
               None \<Rightarrow> Inr search
             | Some h \<Rightarrow>
                 py_assert (0 \<le> h)
                   (if h < int (length q)
                    then if bi (q ! nat h) = n then Inr (False, Some (q ! nat h), Some h)
                         else Inr search
                    else if end_index bi ln end_batch \<le> n
                         then Inr (sp_process_finished p, None, Some h)
                         else Inr search))"

text \<open>\<open>evict_staless_item_batch\<close>: skip batches from the left while all their items are stale.\<close>

fun evict_loop :: "('b \<Rightarrow> int) \<Rightarrow> ('b \<Rightarrow> nat) \<Rightarrow> int \<Rightarrow> 'b list \<Rightarrow> nat \<times> int" where
  "evict_loop bi ln stale [] = (0, 0)"
| "evict_loop bi ln stale (b # bs) =
     (if bi b + int (ln b) - 1 \<le> stale
      then case evict_loop bi ln stale bs of (k, n) \<Rightarrow> (Suc k, int (ln b) + n)
      else (0, 0))"

definition evict_staless_item_batch ::
    "('b \<Rightarrow> int) \<Rightarrow> ('b \<Rightarrow> nat) \<Rightarrow> int option \<Rightarrow> 'b seq_proc \<Rightarrow> nat \<times> 'b seq_proc" where
  "evict_staless_item_batch bi ln stale p =
     (case stale of
        None \<Rightarrow> (0, p)
      | Some s \<Rightarrow>
          case evict_loop bi ln s (sp_batch_queue p) of
            (k, n) \<Rightarrow> (k, p\<lparr>sp_batch_queue := drop k (sp_batch_queue p),
                             sp_flying_item_count := sp_flying_item_count p - n\<rparr>))"

section \<open>The window invariant\<close>

text \<open>Batches follow each other without a gap and none is empty.\<close>

fun consecutive :: "('b \<Rightarrow> int) \<Rightarrow> ('b \<Rightarrow> nat) \<Rightarrow> 'b list \<Rightarrow> bool" where
  "consecutive bi ln [] = True"
| "consecutive bi ln [b] = (0 < ln b)"
| "consecutive bi ln (b # c # bs) =
     (0 < ln b \<and> bi c = end_index bi ln b \<and> consecutive bi ln (c # bs))"

definition window_inv :: "('b \<Rightarrow> int) \<Rightarrow> ('b \<Rightarrow> nat) \<Rightarrow> 'b seq_proc \<Rightarrow> bool" where
  "window_inv bi ln p \<longleftrightarrow>
     consecutive bi ln (sp_batch_queue p) \<and>
     sp_flying_item_count p = int (\<Sum>b\<leftarrow>sp_batch_queue p. ln b)"

lemma consecutive_Cons:
  "consecutive bi ln (b # bs) \<longleftrightarrow>
     0 < ln b \<and> consecutive bi ln bs \<and> (bs \<noteq> [] \<longrightarrow> bi (hd bs) = end_index bi ln b)"
  by (cases bs) auto

lemma consecutive_append1:
  "consecutive bi ln (bs @ [b]) \<longleftrightarrow>
     consecutive bi ln bs \<and> 0 < ln b \<and> (bs \<noteq> [] \<longrightarrow> bi b = end_index bi ln (last bs))"
  by (induction bs) (auto simp: consecutive_Cons hd_append)

lemma consecutive_drop: "consecutive bi ln bs \<Longrightarrow> consecutive bi ln (drop k bs)"
proof (induction bs arbitrary: k)
  case (Cons b bs)
  then show ?case by (cases k) (simp_all add: consecutive_Cons)
qed simp

lemma consecutive_begin_le:
  "consecutive bi ln (b # bs) \<Longrightarrow> c \<in> set bs \<Longrightarrow> end_index bi ln b \<le> bi c"
proof (induction bs arbitrary: b)
  case (Cons d ds)
  have d: "bi d = end_index bi ln b" "consecutive bi ln (d # ds)"
    using Cons.prems(1) by simp_all
  show ?case
  proof (cases "c = d")
    case False
    then have "end_index bi ln d \<le> bi c" using Cons d by simp
    then show ?thesis using d(1) by (simp add: end_index_def)
  qed (simp add: d)
qed simp

lemma consecutive_sorted:
  assumes "consecutive bi ln bs"
  shows "sorted (map bi bs)" and "distinct (map bi bs)"
proof -
  have "sorted (map bi bs) \<and> distinct (map bi bs)"
    using assms
  proof (induction bs)
    case (Cons b bs)
    have "bi b < bi c" if "c \<in> set bs" for c
      using consecutive_begin_le [OF Cons.prems that] Cons.prems
      by (simp add: end_index_def consecutive_Cons)
    then show ?case using Cons by (fastforce simp: consecutive_Cons)
  qed simp
  then show "sorted (map bi bs)" "distinct (map bi bs)" by simp_all
qed

lemma consecutive_nonempty: "consecutive bi ln bs \<Longrightarrow> b \<in> set bs \<Longrightarrow> 0 < ln b"
  by (induction bs) (auto simp: consecutive_Cons)

lemma consecutive_end:
  assumes "consecutive bi ln bs" "b \<in> set bs"
  shows "bi b < end_index bi ln (last bs)"
  using assms
proof (induction bs)
  case (Cons a bs)
  show ?case
  proof (cases "bs = []")
    case True
    then show ?thesis using Cons.prems by (simp add: end_index_def)
  next
    case False
    have "bi a < end_index bi ln (last bs)"
    proof -
      have "bi a < bi (last bs)"
        using consecutive_begin_le [OF Cons.prems(1), of "last bs"] False Cons.prems(1)
        by (simp add: end_index_def consecutive_Cons)
      moreover have "bi (last bs) < end_index bi ln (last bs)"
        using consecutive_nonempty [of bi ln bs "last bs"] Cons.prems False
        by (simp add: end_index_def consecutive_Cons)
      ultimately show ?thesis by simp
    qed
    then show ?thesis using Cons False by (auto simp: consecutive_Cons)
  qed
qed simp

text \<open>What a search for a begin index in the window returns.\<close>

lemma bisect_consecutive:
  assumes "consecutive bi ln q"
  shows "bisect_left (\<lambda>b. bi b < n) q < length q \<and> bi (q ! bisect_left (\<lambda>b. bi b < n) q) = n
         \<longleftrightarrow> n \<in> bi ` set q" (is "?L \<longleftrightarrow> ?R")
proof
  assume ?L
  then show ?R by (auto intro: rev_image_eqI [OF nth_mem])
next
  let ?k = "bisect_left (\<lambda>b. bi b < n) q"
  note s = bisect_left_sorted [OF consecutive_sorted(1) [OF assms], where v = n]
  assume ?R
  then obtain j where j: "j < length q" "bi (q ! j) = n" by (auto simp: in_set_conv_nth)
  have le: "?k \<le> j" using s(2) [OF j(1)] j(2) by simp
  then have lt: "?k < length q" using j(1) by simp
  have "n \<le> bi (q ! ?k)" using s(2) [OF lt] by simp
  moreover have "bi (q ! ?k) \<le> bi (q ! j)"
    using sorted_nth_mono [OF consecutive_sorted(1) [OF assms] le] j(1) lt by simp
  ultimately show ?L using j lt by simp
qed

lemma bisect_consecutive_beyond:
  assumes "consecutive bi ln q"
  shows "bisect_left (\<lambda>b. bi b < n) q = length q \<longleftrightarrow> (\<forall>b \<in> set q. bi b < n)"
proof -
  note s = bisect_left_sorted [OF consecutive_sorted(1) [OF assms], where v = n]
  show ?thesis
  proof
    assume "bisect_left (\<lambda>b. bi b < n) q = length q"
    then show "\<forall>b \<in> set q. bi b < n" using s(2) by (auto simp: in_set_conv_nth)
  next
    assume all: "\<forall>b \<in> set q. bi b < n"
    show "bisect_left (\<lambda>b. bi b < n) q = length q"
    proof (rule ccontr)
      assume "bisect_left (\<lambda>b. bi b < n) q \<noteq> length q"
      then have "bisect_left (\<lambda>b. bi b < n) q < length q" using s(1) by simp
      then show False using s(2) all nth_mem by blast
    qed
  qed
qed

section \<open>What the processor guarantees\<close>

lemma check_index_rollback_iff:
  assumes "consecutive bi ln (sp_batch_queue p)"
  shows "check_index_rollback bi ln n p \<longleftrightarrow>
         sp_batch_queue p = [] \<or>
         n \<noteq> end_index bi ln (last (sp_batch_queue p)) \<and> n \<notin> bi ` set (sp_batch_queue p)"
proof -
  let ?q = "sp_batch_queue p"
  let ?k = "bisect_left (\<lambda>b. bi b < n) ?q"
  have "?k \<le> length ?q" using bisect_left_sorted(1) [OF consecutive_sorted(1) [OF assms]] .
  then show ?thesis
    using bisect_consecutive [OF assms, of n] unfolding check_index_rollback_def Let_def by auto
qed

lemma find_begin:
  assumes "consecutive bi ln q" "k < length q" "bi (q ! k) = n"
  shows "List.find (\<lambda>b. bi b = n) q = Some (q ! k)"
proof -
  have "j = k" if "j < length q" "bi (q ! j) = n" for j
    using consecutive_sorted(2) [OF assms(1)] assms that
    by (metis distinct_conv_nth length_map nth_map)
  then show ?thesis
    unfolding find_Some_iff using assms by (metis less_irrefl_nat less_trans)
qed

lemma find_begin_None: "n \<notin> bi ` set q \<Longrightarrow> List.find (\<lambda>b. bi b = n) q = None"
  by (auto simp: find_None_iff)

lemma evict_loop_dropWhile:
  "evict_loop bi ln s q =
     (length (takeWhile (\<lambda>b. bi b + int (ln b) - 1 \<le> s) q),
      int (\<Sum>b\<leftarrow>takeWhile (\<lambda>b. bi b + int (ln b) - 1 \<le> s) q. ln b))"
  by (induction q) auto

text \<open>Only a prefix of a window without gaps can be stale.\<close>

lemma stale_prefix:
  assumes "consecutive bi ln q"
  shows "dropWhile (\<lambda>b. bi b + int (ln b) - 1 \<le> s) q =
         filter (\<lambda>b. s < bi b + int (ln b) - 1) q"
  using assms
proof (induction q)
  case (Cons b bs)
  show ?case
  proof (cases "bi b + int (ln b) - 1 \<le> s")
    case True
    then show ?thesis using Cons by (auto simp: consecutive_Cons)
  next
    case False
    have "s < bi c + int (ln c) - 1" if "c \<in> set bs" for c
      using consecutive_begin_le [OF Cons.prems that] False
        consecutive_nonempty [OF Cons.prems, of c] that
      by (simp add: end_index_def)
    then have "filter (\<lambda>b. s < bi b + int (ln b) - 1) bs = bs" by (simp add: filter_id_conv)
    then show ?thesis using False by simp
  qed
qed simp

lemma stale_prefix_take:
  assumes "consecutive bi ln q"
  shows "takeWhile (\<lambda>b. bi b + int (ln b) - 1 \<le> s) q =
         filter (\<lambda>b. bi b + int (ln b) - 1 \<le> s) q"
proof -
  let ?P = "\<lambda>b. bi b + int (ln b) - 1 \<le> s"
  have "filter ?P q = filter ?P (takeWhile ?P q) @ filter ?P (dropWhile ?P q)"
    by (simp flip: filter_append)
  also have "filter ?P (takeWhile ?P q) = takeWhile ?P q"
    by (auto simp: filter_id_conv dest: set_takeWhileD)
  also have "filter ?P (dropWhile ?P q) = []"
    using stale_prefix [OF assms, of s] by (simp add: filter_empty_conv)
  finally show ?thesis by simp
qed

lemma find_filter:
  "(\<And>x. x \<in> set xs \<Longrightarrow> P x \<Longrightarrow> Q x) \<Longrightarrow> List.find P (filter Q xs) = List.find P xs"
  by (induction xs) auto

lemma drop_takeWhile_length: "drop (length (takeWhile P xs)) xs = dropWhile P xs"
  by (induction xs) auto

lemma evict_queue:
  assumes "evict_staless_item_batch bi ln (Some s) p = (k, p')"
  shows "p' = p\<lparr>sp_batch_queue := dropWhile (\<lambda>b. bi b + int (ln b) - 1 \<le> s) (sp_batch_queue p),
                sp_flying_item_count := sp_flying_item_count p -
                  int (\<Sum>b\<leftarrow>takeWhile (\<lambda>b. bi b + int (ln b) - 1 \<le> s) (sp_batch_queue p). ln b)\<rparr>"
    and "k = length (takeWhile (\<lambda>b. bi b + int (ln b) - 1 \<le> s) (sp_batch_queue p))"
  using assms
  by (auto simp: evict_staless_item_batch_def evict_loop_dropWhile drop_takeWhile_length)

lemma sum_list_split:
  "(\<Sum>x\<leftarrow>xs. f x) =
   (\<Sum>x\<leftarrow>takeWhile P xs. f x) + (\<Sum>x\<leftarrow>dropWhile P xs. (f x :: nat))"
  by (induction xs) auto

lemma evict_inv:
  assumes "window_inv bi ln p"
  shows "window_inv bi ln (snd (evict_staless_item_batch bi ln so p))"
proof (cases so)
  case None
  then show ?thesis using assms by (simp add: evict_staless_item_batch_def)
next
  case (Some s)
  let ?P = "\<lambda>b. bi b + int (ln b) - 1 \<le> s"
  have "(\<Sum>b\<leftarrow>sp_batch_queue p. ln b) =
        (\<Sum>b\<leftarrow>takeWhile ?P (sp_batch_queue p). ln b) + (\<Sum>b\<leftarrow>dropWhile ?P (sp_batch_queue p). ln b)"
    by (rule sum_list_split)
  moreover have "consecutive bi ln (dropWhile ?P (sp_batch_queue p))"
    using assms consecutive_drop unfolding window_inv_def drop_takeWhile_length [symmetric] by blast
  ultimately show ?thesis
    using assms evict_queue [of bi ln s p] Some
    by (cases "evict_staless_item_batch bi ln so p") (simp add: window_inv_def)
qed

lemma append_inv:
  assumes "window_inv bi ln p" "0 < ln b" "append_next_item_batch bi ln b p = Inr p'"
  shows "window_inv bi ln p'"
  using assms
  by (auto simp: window_inv_def append_next_item_batch_def consecutive_append1 split: if_splits)

lemma update_last_index_fields [simp]:
  "sp_batch_queue (update_last_index i p) = sp_batch_queue p"
  "sp_flying_item_count (update_last_index i p) = sp_flying_item_count p"
  "sp_process_finished (update_last_index i p) = sp_process_finished p"
  "sp_input_finished (update_last_index i p) = sp_input_finished p"
  "sp_max_flying_item (update_last_index i p) = sp_max_flying_item p"
  by (auto simp: update_last_index_def split: option.splits)

lemma output_inv:
  assumes "window_inv bi ln p" "processor_output bi ln bo p = Inr p'"
  shows "window_inv bi ln p'"
proof (cases bo)
  case (Some b)
  then obtain p1 where p1: "(if 0 < ln b then append_next_item_batch bi ln b p else Inr p) = Inr p1"
      "p' = update_last_index (bi b + int (ln b) - 1) p1"
    using assms(2) by (auto simp: processor_output_def bind_result_Inr_iff)
  then have "window_inv bi ln p1" using assms(1) append_inv by (auto split: if_splits)
  then show ?thesis using p1(2) by (simp add: window_inv_def)
qed (use assms in \<open>simp add: processor_output_def\<close>)

lemma output_input_finished:
  "processor_output bi ln bo p = Inr p' \<Longrightarrow> sp_input_finished p' = sp_input_finished p"
  by (auto simp: processor_output_def append_next_item_batch_def bind_result_Inr_iff
      split: option.splits if_splits)

lemma start_inv:
  assumes "window_inv bi ln p" "processor_start bi ln n p = Inr (m, f, p')"
  shows "window_inv bi ln p'"
  using assms
  by (auto simp: processor_start_def py_assert_def window_inv_def Let_def split: if_splits)

section \<open>Runs of the processor\<close>

text \<open>Every way the processor changes, each under its lock; a run stops at the first exception.\<close>

datatype 'b sp_op =
    OpInputFinished
  | OpStart int
  | OpOutput "'b option"
  | OpEnd bool bool
  | OpEvict "int option"

primrec sp_exec :: "('b \<Rightarrow> int) \<Rightarrow> ('b \<Rightarrow> nat) \<Rightarrow> 'b sp_op \<Rightarrow> 'b seq_proc \<Rightarrow> 'b seq_proc result" where
  "sp_exec bi ln OpInputFinished p = Inr (set_input_finished p)"
| "sp_exec bi ln (OpStart n) p = bind_result (processor_start bi ln n p) (\<lambda>(_, _, p1). Inr p1)"
| "sp_exec bi ln (OpOutput bo) p = processor_output bi ln bo p"
| "sp_exec bi ln (OpEnd i f) p = processor_end i f p"
| "sp_exec bi ln (OpEvict s) p = Inr (snd (evict_staless_item_batch bi ln s p))"

primrec sp_run :: "('b \<Rightarrow> int) \<Rightarrow> ('b \<Rightarrow> nat) \<Rightarrow> 'b sp_op list \<Rightarrow> 'b seq_proc \<Rightarrow> 'b seq_proc result" where
  "sp_run bi ln [] p = Inr p"
| "sp_run bi ln (x # xs) p = bind_result (sp_exec bi ln x p) (sp_run bi ln xs)"

lemma init_inv: "window_inv bi ln (seq_proc_init m)"
  by (simp add: window_inv_def seq_proc_init_def)

lemma processor_end_fields:
  assumes "processor_end i f p = Inr p'"
  shows "sp_batch_queue p' = sp_batch_queue p" "sp_flying_item_count p' = sp_flying_item_count p"
    "sp_process_finished p' \<Longrightarrow> sp_process_finished p \<or> sp_input_finished p"
    "sp_input_finished p' = sp_input_finished p"
  using assms
  by (auto simp: processor_end_def set_process_finished_def py_assert_def split: if_splits)

lemma sp_exec_inv:
  assumes "window_inv bi ln p" "sp_exec bi ln x p = Inr p'"
  shows "window_inv bi ln p'"
proof (cases x)
  case OpInputFinished
  then show ?thesis using assms by (auto simp: window_inv_def set_input_finished_def)
next
  case (OpStart n)
  then show ?thesis using assms start_inv by (auto simp: bind_result_Inr_iff)
next
  case (OpOutput bo)
  then show ?thesis using assms output_inv by auto
next
  case (OpEnd i f)
  then show ?thesis using assms processor_end_fields [of i f p p'] by (simp add: window_inv_def)
next
  case (OpEvict s)
  then show ?thesis using assms evict_inv by auto
qed

lemma sp_run_inv:
  "window_inv bi ln p \<Longrightarrow> sp_run bi ln xs p = Inr p' \<Longrightarrow> window_inv bi ln p'"
proof (induction xs arbitrary: p)
  case (Cons x xs)
  then obtain p1 where p1: "sp_exec bi ln x p = Inr p1" "sp_run bi ln xs p1 = Inr p'"
    by (auto simp: bind_result_Inr_iff)
  then show ?case using Cons.IH [OF sp_exec_inv [OF Cons.prems(1) p1(1)]] by simp
qed simp

lemma window_sorted_distinct:
  assumes "window_inv bi ln p"
  shows "sorted (map bi (sp_batch_queue p))" "distinct (map bi (sp_batch_queue p))"
  using assms consecutive_sorted [of bi ln "sp_batch_queue p"]
  by (simp_all add: window_inv_def)

section \<open>Properties\<close>

text \<open>
  C19. Whatever sequence of rounds, outputs and evictions a processor goes through without
  exiting the process, its window stays a gap free run of non-empty batches, the begin
  indexes are strictly increasing, and the flying item count, which the back pressure
  tests, is the number of items in the window.
\<close>

theorem window_invariant:
  assumes "sp_run bi ln ops (seq_proc_init m) = Inr p"
  shows "consecutive bi ln (sp_batch_queue p) \<and>
         sorted_wrt (\<lambda>a b. bi a < bi b) (sp_batch_queue p) \<and>
         sp_flying_item_count p = int (\<Sum>b\<leftarrow>sp_batch_queue p. ln b)"
proof -
  have inv: "window_inv bi ln p" using sp_run_inv [OF init_inv assms] .
  have "sorted_wrt (\<lambda>a b. bi a < bi b) (sp_batch_queue p)"
    using window_sorted_distinct(1,2) [OF inv]
    by (metis sorted_wrt_map strict_sorted_iff)
  then show ?thesis using inv by (simp add: window_inv_def)
qed

text \<open>
  C20. Fetching a batch by its begin index gives the batch of the window with that index,
  or nothing when there is none, whatever hint the caller passes and whichever of the
  fast path and the binary search answers; the input is reported exhausted only when
  production has finished and no batch of the window has the index.
\<close>

theorem fetch_ignores_hint:
  assumes "sp_run bi ln ops (seq_proc_init m) = Inr p"
    and "\<forall>h. hint = Some h \<longrightarrow> 0 \<le> h"
    and "\<not> past_last n p"
  shows "\<exists>fin hint'.
           fetch_item_batch_by_index bi ln (Some n) hint p =
             Inr (fin, List.find (\<lambda>b. bi b = n) (sp_batch_queue p), hint') \<and>
           (fin \<longrightarrow> sp_process_finished p \<and> n \<notin> bi ` set (sp_batch_queue p))"
proof -
  let ?q = "sp_batch_queue p"
  let ?k = "bisect_left (\<lambda>b. bi b < n) ?q"
  have con: "consecutive bi ln ?q"
    using sp_run_inv [OF init_inv assms(1)] by (simp add: window_inv_def)
  have len: "?k \<le> length ?q" using bisect_left_sorted(1) [OF consecutive_sorted(1) [OF con]] .
  have found: "List.find (\<lambda>b. bi b = n) ?q = Some (?q ! ?k) \<and> n \<in> bi ` set ?q"
    if "?k \<noteq> length ?q" "bi (?q ! ?k) = n"
    using find_begin [OF con, of ?k n] bisect_consecutive [OF con, of n] len that by simp
  have miss: "List.find (\<lambda>b. bi b = n) ?q = None \<and> n \<notin> bi ` set ?q"
    if "?k = length ?q \<or> bi (?q ! ?k) \<noteq> n"
    using find_begin_None [of n bi ?q] bisect_consecutive [OF con, of n] that by auto
  have past: "List.find (\<lambda>b. bi b = n) ?q = None \<and> n \<notin> bi ` set ?q"
    if "end_index bi ln (last ?q) \<le> n" "?q \<noteq> []"
    using find_begin_None [of n bi ?q] consecutive_end [OF con] that by fastforce
  have at_hint: "List.find (\<lambda>b. bi b = n) ?q = Some (?q ! nat h)"
    if "0 \<le> h" "h < int (length ?q)" "bi (?q ! nat h) = n" for h
    using find_begin [OF con, of "nat h" n] that by simp
  have search: "\<exists>fin hint'.
      (if ?k = length ?q
       then if n \<le> end_index bi ln (last ?q)
            then (sp_process_finished p, None, Some (int (length ?q)))
            else (False, None, None)
       else if bi (?q ! ?k) = n then (False, Some (?q ! ?k), Some (int ?k))
       else (False, None, None)) =
      (fin, List.find (\<lambda>b. bi b = n) ?q, hint') \<and>
      (fin \<longrightarrow> sp_process_finished p \<and> n \<notin> bi ` set ?q)"
    using found miss by (cases "?k = length ?q"; cases "bi (?q ! ?k) = n") auto
  show ?thesis
  proof (cases "?q = []")
    case True
    then show ?thesis using assms(3)
      by (intro exI [of _ False]) (auto simp: fetch_item_batch_by_index_def)
  next
    case ne: False
    have plain: "\<exists>fin hint'. fetch_item_batch_by_index bi ln (Some n) None p =
             Inr (fin, List.find (\<lambda>b. bi b = n) ?q, hint') \<and>
           (fin \<longrightarrow> sp_process_finished p \<and> n \<notin> bi ` set ?q)"
      using search assms(3) ne by (simp add: fetch_item_batch_by_index_def Let_def)
    show ?thesis
    proof (cases hint)
      case None
      then show ?thesis using plain by simp
    next
      case (Some h)
      then have h: "0 \<le> h" using assms(2) by simp
      consider (hit) "h < int (length ?q)" "bi (?q ! nat h) = n"
        | (beyond) "\<not> h < int (length ?q)" "end_index bi ln (last ?q) \<le> n"
        | (search) "h < int (length ?q) \<longrightarrow> bi (?q ! nat h) \<noteq> n"
            "\<not> h < int (length ?q) \<longrightarrow> \<not> end_index bi ln (last ?q) \<le> n"
        by blast
      then show ?thesis
      proof cases
        case hit
        then have "fetch_item_batch_by_index bi ln (Some n) hint p =
            Inr (False, Some (?q ! nat h), Some h)"
          using assms(3) ne Some h
          by (simp add: fetch_item_batch_by_index_def Let_def py_assert_def)
        then show ?thesis using at_hint [OF h hit] by (intro exI [of _ False]) auto
      next
        case beyond
        then show ?thesis using assms(3) ne Some h past
          by (simp add: fetch_item_batch_by_index_def Let_def py_assert_def)
      next
        case search
        then have "fetch_item_batch_by_index bi ln (Some n) hint p =
            fetch_item_batch_by_index bi ln (Some n) None p"
          using assms(3) ne Some h
          by (simp add: fetch_item_batch_by_index_def Let_def py_assert_def)
        then show ?thesis using plain ne by simp
      qed
    qed
  qed
qed

text \<open>
  Evicting up to a stale index removes exactly the batches all of whose items are
  at or below it, reports their number, keeps the rest in order, and changes nothing for a
  later fetch of an index above it.
\<close>

theorem evict_exact:
  assumes "sp_run bi ln ops (seq_proc_init m) = Inr p"
    and "evict_staless_item_batch bi ln (Some s) p = (k, p')"
  shows "sp_batch_queue p' = filter (\<lambda>b. s < bi b + int (ln b) - 1) (sp_batch_queue p) \<and>
         k = length (filter (\<lambda>b. bi b + int (ln b) - 1 \<le> s) (sp_batch_queue p)) \<and>
         (\<forall>n > s. List.find (\<lambda>b. bi b = n) (sp_batch_queue p') =
                  List.find (\<lambda>b. bi b = n) (sp_batch_queue p))"
proof -
  let ?q = "sp_batch_queue p"
  let ?P = "\<lambda>b. bi b + int (ln b) - 1 \<le> s"
  have con: "consecutive bi ln ?q"
    using sp_run_inv [OF init_inv assms(1)] by (simp add: window_inv_def)
  have q': "sp_batch_queue p' = filter (\<lambda>b. s < bi b + int (ln b) - 1) ?q"
    using evict_queue(1) [OF assms(2)] stale_prefix [OF con] by simp
  have "takeWhile ?P ?q = filter ?P ?q"
    using stale_prefix_take [OF con] .
  then have "k = length (filter ?P ?q)" using evict_queue(2) [OF assms(2)] by simp
  moreover have "List.find (\<lambda>b. bi b = n) (filter (\<lambda>b. s < bi b + int (ln b) - 1) ?q) =
                 List.find (\<lambda>b. bi b = n) ?q" if "s < n" for n
    using that consecutive_nonempty [OF con] by (intro find_filter) fastforce
  ultimately show ?thesis using q' by simp
qed

subsection \<open>Witnesses\<close>

text \<open>Two batches of two and three items, then an eviction up to index 2.\<close>

definition sample_ops :: "(int \<times> nat) sp_op list" where
  "sample_ops = [OpStart 0, OpOutput (Some (0, 2)), OpOutput (Some (2, 3)), OpOutput (Some (5, 0))]"

definition sample_proc :: "(int \<times> nat) seq_proc" where
  "sample_proc =
     \<lparr>sp_max_flying_item = 8, sp_flying_item_count = 5, sp_batch_queue = [(0, 2), (2, 3)],
      sp_input_finished = False, sp_process_finished = False, sp_last_index = Some 4\<rparr>"

lemma sample_run: "sp_run fst snd sample_ops (seq_proc_init 8) = Inr sample_proc"
  by (simp add: sample_ops_def sample_proc_def seq_proc_init_def processor_start_def
      check_index_rollback_def processor_output_def append_next_item_batch_def
      update_last_index_def end_index_def py_assert_def)

theorem window_invariant_witness:
  "sorted_wrt (\<lambda>a b. fst a < fst b) (sp_batch_queue sample_proc) \<and>
   sp_flying_item_count sample_proc = int (\<Sum>b\<leftarrow>sp_batch_queue sample_proc. snd b)"
  using window_invariant [OF sample_run] by blast

theorem fetch_ignores_hint_witness:
  "\<exists>fin hint'. fetch_item_batch_by_index fst snd (Some 2) (Some 7) sample_proc =
     Inr (fin, Some (2, 3), hint')"
proof -
  have "\<forall>h. Some 7 = Some h \<longrightarrow> 0 \<le> (h :: int)" by simp
  moreover have "\<not> past_last 2 sample_proc"
    by (simp add: sample_proc_def past_last_def)
  ultimately show ?thesis
    using fetch_ignores_hint [OF sample_run, of "Some 7" 2] by (auto simp: sample_proc_def)
qed

theorem evict_exact_witness:
  "\<exists>k p'. evict_staless_item_batch fst snd (Some 2) sample_proc = (k, p') \<and>
     sp_batch_queue p' = [(2, 3)] \<and> k = 1"
proof -
  obtain k p' where e: "evict_staless_item_batch fst snd (Some 2) sample_proc = (k, p')"
    by fastforce
  show ?thesis using evict_exact [OF sample_run e] e by (auto simp: sample_proc_def)
qed

end
