(* ===== verification/Item_Batches.thy ===== *)
theory Item_Batches
  imports Batch_Seq
begin

text \<open>
  How a fetcher fills item batches from a visitor, and the batch classes of the data join.

  \<open>ExampleIdBatchFetcher\<close>, \<open>IdBatchFetcher\<close> and \<open>RawDataBatchFetcher\<close> share one generator
  (\<open>_make_inner_generator\<close>) that differs in the batch class and in the test that closes a
  batch; \<open>fill_loop\<close> and \<open>produce_round\<close> model it, and the locale \<open>batch_class\<close> states what
  it needs of the class. Four classes interpret the locale. A visitor is the list of
  (index, item) pairs it has left to deliver before \<open>StopIteration\<close>, which marks it as
  finished; \<open>reset\<close> and \<open>seek\<close> at the start of a round choose that list.

  The second part is the wire format of an example id batch
  (\<open>make_packed_lite_example_ids\<close>) and its reader, \<open>ExampleIdVisitor.ExampleIdIter\<close>.
\<close>

section \<open>Filling batches\<close>

fun fill_loop ::
    "('x \<Rightarrow> 'b \<Rightarrow> 'b) \<Rightarrow> ('b \<Rightarrow> bool) \<Rightarrow> int \<Rightarrow> 'b \<Rightarrow> (int \<times> 'x) list \<Rightarrow>
     (int \<times> 'b \<times> (int \<times> 'x) list \<times> bool) result" where
  "fill_loop app full n b [] = Inr (n, b, [], True)"
| "fill_loop app full n b ((i, x) # vs) =
     (if i \<noteq> n then Inl ProcessExit
      else if full (app x b) then Inr (n + 1, app x b, vs, False)
      else fill_loop app full (n + 1) (app x b) vs)"

lemma fill_loop_shrinks:
  "fill_loop app full n b vs = Inr (n', b', vs', fin) \<Longrightarrow> fin \<or> length vs' < length vs"
  by (induction app full n b vs rule: fill_loop.induct) (auto split: if_splits)

text \<open>
  One round of \<open>make_processor\<close> over that generator: the visitor's rest, whether it has
  finished, and the processor go in and come out. The round stops when the visitor is
  exhausted or too many items are in flight, and then hands out an empty batch that
  only moves the last index.
\<close>

function produce_round ::
    "(int \<Rightarrow> 'b) \<Rightarrow> ('x \<Rightarrow> 'b \<Rightarrow> 'b) \<Rightarrow> ('b \<Rightarrow> bool) \<Rightarrow> ('b \<Rightarrow> int) \<Rightarrow> ('b \<Rightarrow> nat) \<Rightarrow>
     int \<Rightarrow> (int \<times> 'x) list \<Rightarrow> bool \<Rightarrow> 'b seq_proc \<Rightarrow>
     (int \<times> (int \<times> 'x) list \<times> bool \<times> 'b seq_proc) result" where
  "produce_round mk app full bi ln n vs fin p =
     (if fin \<or> fly_item_full p
      then (case processor_output bi ln (Some (mk n)) p of
              Inl e \<Rightarrow> Inl e
            | Inr p1 \<Rightarrow> Inr (n, vs, fin, p1))
      else (case fill_loop app full n (mk n) vs of
              Inl e \<Rightarrow> Inl e
            | Inr (n', b, vs', fin') \<Rightarrow>
                (case processor_output bi ln (Some b) p of
                   Inl e \<Rightarrow> Inl e
                 | Inr p1 \<Rightarrow> produce_round mk app full bi ln n' vs' fin' p1)))"
  by pat_completeness auto
termination
  by (relation "measure (\<lambda>(mk, app, full, bi, ln, n, vs, fin, p). if fin then 0 else Suc (length vs))")
    (auto dest: fill_loop_shrinks)

declare produce_round.simps [simp del]

text \<open>
  The whole of \<open>make_processor\<close> of a fetcher; \<open>visit n\<close> is what the visitor delivers after the
  \<open>reset\<close> or the \<open>seek\<close> to \<open>n - 1\<close>.
\<close>

definition fetcher_process ::
    "(int \<Rightarrow> 'b) \<Rightarrow> ('x \<Rightarrow> 'b \<Rightarrow> 'b) \<Rightarrow> ('b \<Rightarrow> bool) \<Rightarrow> ('b \<Rightarrow> int) \<Rightarrow> ('b \<Rightarrow> nat) \<Rightarrow>
     (int \<Rightarrow> (int \<times> 'x) list) \<Rightarrow> int \<Rightarrow> 'b seq_proc \<Rightarrow> 'b seq_proc result" where
  "fetcher_process mk app full bi ln visit next_index p =
     bind_result (processor_start bi ln next_index p) (\<lambda>(n, input_finished, p1).
     bind_result (produce_round mk app full bi ln n (visit n) False p1) (\<lambda>(_, _, fin, p2).
       processor_end input_finished fin p2))"

text \<open>A visitor that delivers consecutive indices from \<open>n\<close> on.\<close>

fun visits_from :: "int \<Rightarrow> (int \<times> 'x) list \<Rightarrow> bool" where
  "visits_from n [] = True"
| "visits_from n ((i, x) # vs) = (i = n \<and> visits_from (n + 1) vs)"

lemma visits_from_append:
  "visits_from n (us @ vs) \<longleftrightarrow> visits_from n us \<and> visits_from (n + int (length us)) vs"
  by (induction n us rule: visits_from.induct) (auto simp: algebra_simps)

text \<open>
  What a batch class promises: a made batch is empty and begins at the given index, an
  append keeps the begin index and adds the item's key exactly when the item is \<open>good\<close>.
\<close>

locale batch_class =
  fixes mk :: "int \<Rightarrow> 'b"
    and app :: "'x \<Rightarrow> 'b \<Rightarrow> 'b"
    and bi :: "'b \<Rightarrow> int"
    and ln :: "'b \<Rightarrow> nat"
    and cont :: "'b \<Rightarrow> 'y list"
    and key :: "'x \<Rightarrow> 'y"
    and good :: "'x \<Rightarrow> bool"
  assumes begin_mk: "bi (mk i) = i"
    and cont_mk: "cont (mk i) = []"
    and begin_app: "bi (app x b) = bi b"
    and cont_app: "cont (app x b) = cont b @ (if good x then [key x] else [])"
    and len_cont: "ln b = length (cont b)"
begin

text \<open>Filling consumes a prefix of the visitor and keeps its good items, in order.\<close>

lemma fill_loop_ok:
  assumes "visits_from n vs"
  shows "\<exists>us vs' b' fin. vs = us @ vs' \<and>
           fill_loop app full n b vs = Inr (n + int (length us), b', vs', fin) \<and>
           bi b' = bi b \<and> cont b' = cont b @ map key (filter good (map snd us)) \<and>
           (vs \<noteq> [] \<longrightarrow> us \<noteq> [])"
  using assms
proof (induction vs arbitrary: n b)
  case Nil
  then show ?case by auto
next
  case (Cons v vs)
  obtain i x where v: "v = (i, x)" by fastforce
  have i: "i = n" "visits_from (n + 1) vs" using Cons.prems v by simp_all
  show ?case
  proof (cases "full (app x b)")
    case True
    then show ?thesis using i(1) v
      by (intro exI [of _ "[(i, x)]"] exI [of _ vs] exI [of _ "app x b"] exI [of _ False])
        (simp add: begin_app cont_app)
  next
    case False
    obtain us vs' b' fin where ih: "vs = us @ vs'"
        "fill_loop app full (n + 1) (app x b) vs = Inr (n + 1 + int (length us), b', vs', fin)"
        "bi b' = bi (app x b)" "cont b' = cont (app x b) @ map key (filter good (map snd us))"
      using Cons.IH [OF i(2)] by blast
    show ?thesis using ih i(1) v False
      by (intro exI [of _ "(i, x) # us"] exI [of _ vs'] exI [of _ b'] exI [of _ fin])
        (simp add: begin_app cont_app)
  qed
qed

definition aligned :: "int \<Rightarrow> 'b seq_proc \<Rightarrow> bool" where
  "aligned n p \<longleftrightarrow> sp_batch_queue p = [] \<or> end_index bi ln (last (sp_batch_queue p)) = n"

lemma output_full:
  assumes "window_inv bi ln p" "aligned n p" "bi b = n"
  shows "\<exists>p1. processor_output bi ln (Some b) p = Inr p1 \<and> window_inv bi ln p1 \<and>
           aligned (n + int (ln b)) p1 \<and>
           sp_batch_queue p1 = sp_batch_queue p @ (if 0 < ln b then [b] else [])"
proof -
  define p0 where "p0 = (if 0 < ln b
      then p\<lparr>sp_batch_queue := sp_batch_queue p @ [b],
             sp_flying_item_count := sp_flying_item_count p + int (ln b)\<rparr> else p)"
  define p1 where "p1 = update_last_index (bi b + int (ln b) - 1) p0"
  have p1: "processor_output bi ln (Some b) p = Inr p1"
      "sp_batch_queue p1 = sp_batch_queue p @ (if 0 < ln b then [b] else [])"
    using assms
    by (auto simp: p1_def p0_def processor_output_def append_next_item_batch_def aligned_def)
  then show ?thesis
    using output_inv [OF assms(1) p1(1)] assms(2,3) by (auto simp: aligned_def end_index_def)
qed

lemma round_ok:
  assumes "visits_from n vs" "\<forall>x \<in> snd ` set vs. good x"
    and "window_inv bi ln p" "aligned n p"
  shows "\<exists>us vs' fin' p' new. vs = us @ vs' \<and>
           produce_round mk app full bi ln n vs fin p =
             Inr (n + int (length us), vs', fin', p') \<and>
           window_inv bi ln p' \<and> aligned (n + int (length us)) p' \<and>
           sp_batch_queue p' = sp_batch_queue p @ new \<and>
           concat (map cont new) = map key (map snd us) \<and> (fin' \<or> fly_item_full p')"
  using assms
proof (induction "if fin then 0 else Suc (length vs)" arbitrary: n vs fin p rule: less_induct)
  case less
  show ?case
  proof (cases "fin \<or> fly_item_full p")
    case True
    obtain p1 where p1: "processor_output bi ln (Some (mk n)) p = Inr p1" "window_inv bi ln p1"
        "aligned n p1" "sp_batch_queue p1 = sp_batch_queue p"
      using output_full [OF less.prems(3,4), of "mk n"] by (auto simp: begin_mk len_cont cont_mk)
    have "fly_item_full p1 = fly_item_full p"
      using p1(1) by (auto simp: processor_output_def begin_mk len_cont cont_mk fly_item_full_def)
    then show ?thesis using True p1
      by (intro exI [of _ "[]"] exI [of _ vs] exI [of _ fin] exI [of _ p1])
        (auto simp: produce_round.simps [where fin = fin and p = p])
  next
    case False
    obtain us vs' b fin' where f: "vs = us @ vs'"
        "fill_loop app full n (mk n) vs = Inr (n + int (length us), b, vs', fin')"
        "bi b = n" "cont b = map key (filter good (map snd us))"
      using fill_loop_ok [OF less.prems(1), of full "mk n"] by (auto simp: begin_mk cont_mk)
    have "filter good (map snd us) = map snd us"
      using less.prems(2) f(1) by (auto simp: filter_id_conv)
    then have cb: "cont b = map key (map snd us)" using f(4) by simp
    then have lb: "ln b = length us" by (simp add: len_cont)
    obtain p1 where p1: "processor_output bi ln (Some b) p = Inr p1" "window_inv bi ln p1"
        "aligned (n + int (length us)) p1"
        "sp_batch_queue p1 = sp_batch_queue p @ (if 0 < ln b then [b] else [])"
      using output_full [OF less.prems(3,4) f(3)] lb by auto
    have v': "visits_from (n + int (length us)) vs'" "\<forall>x \<in> snd ` set vs'. good x"
      using less.prems(1,2) f(1) by (auto simp: visits_from_append)
    have smaller: "(if fin' then 0 else Suc (length vs')) < (if fin then 0 else Suc (length vs))"
      using fill_loop_shrinks [OF f(2)] False by auto
    obtain us2 vs2 fin2 p2 new where r: "vs' = us2 @ vs2"
        "produce_round mk app full bi ln (n + int (length us)) vs' fin' p1 =
           Inr (n + int (length us) + int (length us2), vs2, fin2, p2)"
        "window_inv bi ln p2" "aligned (n + int (length us) + int (length us2)) p2"
        "sp_batch_queue p2 = sp_batch_queue p1 @ new"
        "concat (map cont new) = map key (map snd us2)" "fin2 \<or> fly_item_full p2"
      using less.hyps [OF smaller v' p1(2,3)] by blast
    have c: "concat (map cont ((if 0 < ln b then [b] else []) @ new)) = map key (map snd (us @ us2))"
      using r(6) cb lb by auto
    have step: "produce_round mk app full bi ln n vs fin p =
        Inr (n + int (length (us @ us2)), vs2, fin2, p2)"
      using False f(2) p1(1) r(2)
      by (subst produce_round.simps) (simp add: algebra_simps)
    have ends: "aligned (n + int (length (us @ us2))) p2" "vs = (us @ us2) @ vs2"
        "sp_batch_queue p2 = sp_batch_queue p @ ((if 0 < ln b then [b] else []) @ new)"
      using r(1,4,5) f(1) p1(4) by (simp_all add: algebra_simps)
    show ?thesis using step ends r(3,7) c by blast
  qed
qed

lemma start_aligned:
  assumes "window_inv bi ln p" "processor_start bi ln next_index p = Inr (n, f, p1)"
  shows "aligned n p1" "f = sp_input_finished p1" "0 \<le> n"
    "sp_batch_queue p1 =
       (if check_index_rollback bi ln next_index p then [] else sp_batch_queue p)"
  using assms by (auto simp: processor_start_def py_assert_def aligned_def Let_def split: if_splits)

lemma round_input_finished:
  assumes "produce_round mk app full bi ln n vs fin p = Inr (n', vs', fin', p')"
  shows "sp_input_finished p' = sp_input_finished p"
  using assms
proof (induction "if fin then 0 else Suc (length vs)" arbitrary: n vs fin p rule: less_induct)
  case less
  show ?case
  proof (cases "fin \<or> fly_item_full p")
    case True
    then show ?thesis using less.prems
      by (subst (asm) produce_round.simps) (auto split: sum.splits dest: output_input_finished)
  next
    case False
    obtain n1 b vs1 fin1 where f: "fill_loop app full n (mk n) vs = Inr (n1, b, vs1, fin1)"
      using less.prems False
      by (subst (asm) produce_round.simps) (auto split: sum.splits)
    obtain p1 where p1: "processor_output bi ln (Some b) p = Inr p1"
        "produce_round mk app full bi ln n1 vs1 fin1 p1 = Inr (n', vs', fin', p')"
      using less.prems False f
      by (subst (asm) produce_round.simps) (auto split: sum.splits)
    have "(if fin1 then 0 else Suc (length vs1)) < (if fin then 0 else Suc (length vs))"
      using fill_loop_shrinks [OF f] False by auto
    from less.hyps [OF this p1(2)] show ?thesis using output_input_finished [OF p1(1)] by simp
  qed
qed

text \<open>A whole call of the processor.\<close>

lemma process_ok:
  assumes "window_inv bi ln p" "0 \<le> next_index" "\<forall>b \<in> set (sp_batch_queue p). 0 \<le> bi b"
    and "\<forall>n. visits_from n (visit n) \<and> (\<forall>x \<in> snd ` set (visit n). good x)"
  shows "\<exists>p' us new old. fetcher_process mk app full bi ln visit next_index p = Inr p' \<and>
           window_inv bi ln p' \<and>
           old = (if check_index_rollback bi ln next_index p then [] else sp_batch_queue p) \<and>
           sp_batch_queue p' = old @ new \<and>
           (\<exists>rest. visit (if old = [] then next_index else end_index bi ln (last old)) = us @ rest) \<and>
           concat (map cont new) = map key (map snd us)"
proof -
  let ?old = "if check_index_rollback bi ln next_index p then [] else sp_batch_queue p"
  let ?n = "if ?old = [] then next_index else end_index bi ln (last ?old)"
  have "0 \<le> ?n"
    using assms(2,3) by (auto simp: end_index_def split: if_splits intro!: add_nonneg_nonneg)
  define p1 where "p1 = (if check_index_rollback bi ln next_index p
      then p\<lparr>sp_batch_queue := [], sp_flying_item_count := 0\<rparr> else p)"
  have p1: "processor_start bi ln next_index p = Inr (?n, sp_input_finished p1, p1)"
    using \<open>0 \<le> ?n\<close> unfolding p1_def
    by (cases "check_index_rollback bi ln next_index p")
      (auto simp: processor_start_def py_assert_def Let_def)
  note st = start_aligned [OF assms(1) p1]
  obtain us vs' fin' p2 new where r: "visit ?n = us @ vs'"
      "produce_round mk app full bi ln ?n (visit ?n) False p1 =
         Inr (?n + int (length us), vs', fin', p2)"
      "window_inv bi ln p2" "sp_batch_queue p2 = sp_batch_queue p1 @ new"
      "concat (map cont new) = map key (map snd us)"
    using round_ok [of ?n "visit ?n" p1 full False] assms(4) start_inv [OF assms(1) p1] st(1) by blast
  have inp: "sp_input_finished p2 = sp_input_finished p1" using round_input_finished [OF r(2)] .
  define p3 where "p3 = (if sp_input_finished p1 \<and> fin' then p2\<lparr>sp_process_finished := True\<rparr> else p2)"
  have e: "processor_end (sp_input_finished p1) fin' p2 = Inr p3"
    using inp by (auto simp: processor_end_def set_process_finished_def py_assert_def p3_def)
  have "fetcher_process mk app full bi ln visit next_index p = Inr p3"
    unfolding fetcher_process_def p1 bind_result_simps prod.case r(2) e ..
  moreover have "window_inv bi ln p3" using r(3) by (auto simp: p3_def window_inv_def)
  moreover have "sp_batch_queue p3 = ?old @ new" using r(4) st(4) by (simp add: p3_def)
  ultimately show ?thesis using r(1,5) by blast
qed

text \<open>An item that is not good opens a gap: the batch after it ends the process.\<close>

lemma gap_exits:
  assumes "sp_batch_queue p \<noteq> []" "\<not> aligned (bi b) p" "0 < ln b"
  shows "processor_output bi ln (Some b) p = Inl ProcessExit"
  using assms by (auto simp: processor_output_def append_next_item_batch_def aligned_def)

end

section \<open>The batch classes\<close>

subsection \<open>Fields of an item\<close>

datatype field_value = FBytes string | FInt int

record allowed_field =
  af_default :: field_value
  af_must :: bool

text \<open>\<open>ALLOWED_FIELDS\<close>; the declared type of a field is the kind of its default value.\<close>

definition InvalidEventTime :: int where
  "InvalidEventTime = - 9223372036854775808"

definition ALLOWED_FIELDS :: "string \<rightharpoonup> allowed_field" where
  "ALLOWED_FIELDS = map_of
     [(''example_id'', \<lparr>af_default = FBytes '''', af_must = True\<rparr>),
      (''event_time'', \<lparr>af_default = FInt InvalidEventTime, af_must = False\<rparr>),
      (''index'', \<lparr>af_default = FInt (- 1), af_must = False\<rparr>),
      (''event_time_deep'', \<lparr>af_default = FInt InvalidEventTime, af_must = False\<rparr>),
      (''raw_id'', \<lparr>af_default = FBytes '''', af_must = False\<rparr>),
      (''type'', \<lparr>af_default = FBytes '''', af_must = False\<rparr>),
      (''id_type'', \<lparr>af_default = FBytes '''', af_must = False\<rparr>),
      (''joined'', \<lparr>af_default = FInt (- 1), af_must = False\<rparr>),
      (''click_id'', \<lparr>af_default = FBytes '''', af_must = False\<rparr>),
      (''req_id'', \<lparr>af_default = FBytes '''', af_must = False\<rparr>),
      (''label'', \<lparr>af_default = FInt (- 1), af_must = False\<rparr>),
      (''cid'', \<lparr>af_default = FBytes '''', af_must = False\<rparr>)]"

definition SYNC_ALLOWED_OPTIONAL_FIELDS :: "string list" where
  "SYNC_ALLOWED_OPTIONAL_FIELDS =
     [''example_id'', ''event_time'', ''id_type'', ''event_time_deep'', ''type'', ''click_id'']"

definition default_value :: "string \<Rightarrow> field_value" where
  "default_value fn = (case ALLOWED_FIELDS fn of None \<Rightarrow> FBytes '''' | Some f \<Rightarrow> af_default f)"

fun truthy :: "field_value \<Rightarrow> bool" where
  "truthy (FBytes b) = (b \<noteq> [])"
| "truthy (FInt i) = (i \<noteq> 0)"

text \<open>An item is what \<open>getattr\<close> finds on it.\<close>

type_synonym item = "string \<Rightarrow> field_value option"

definition item_value :: "item \<Rightarrow> string \<Rightarrow> field_value" where
  "item_value x fn = (case x fn of None \<Rightarrow> default_value fn | Some v \<Rightarrow> v)"

definition keeps :: "string \<Rightarrow> item \<Rightarrow> bool" where
  "keeps fn x \<longleftrightarrow> truthy (item_value x fn) \<and> item_value x fn \<noteq> default_value fn"

subsection \<open>Example id batches\<close>

record example_id_batch =
  eb_partition_id :: int
  eb_begin_index :: int
  eb_feature_buf :: "string \<Rightarrow> field_value list"

definition make_example_id_batch :: "int \<Rightarrow> int \<Rightarrow> example_id_batch" where
  "make_example_id_batch pid start =
     \<lparr>eb_partition_id = pid, eb_begin_index = start, eb_feature_buf = (\<lambda>_. [])\<rparr>"

definition append_example_id :: "item \<Rightarrow> example_id_batch \<Rightarrow> example_id_batch" where
  "append_example_id x b =
     b\<lparr>eb_feature_buf := (\<lambda>fn.
         if fn \<in> set SYNC_ALLOWED_OPTIONAL_FIELDS \<and> keeps fn x
         then eb_feature_buf b fn @ [item_value x fn] else eb_feature_buf b fn)\<rparr>"

definition example_id_batch_len :: "example_id_batch \<Rightarrow> nat" where
  "example_id_batch_len b = length (eb_feature_buf b ''example_id'')"

subsection \<open>Id batches, raw data batches and signed id batches\<close>

record 'x id_batch =
  ib_begin_index :: int
  ib_raw_ids :: "string list"
  ib_items :: "'x list"

definition make_id_batch :: "int \<Rightarrow> 'x id_batch" where
  "make_id_batch start = \<lparr>ib_begin_index = start, ib_raw_ids = [], ib_items = []\<rparr>"

definition append_id :: "('x \<Rightarrow> string) \<Rightarrow> 'x \<Rightarrow> 'x id_batch \<Rightarrow> 'x id_batch" where
  "append_id raw_id x b = b\<lparr>ib_raw_ids := ib_raw_ids b @ [raw_id x], ib_items := ib_items b @ [x]\<rparr>"

record 'x raw_data_batch =
  rb_begin_index :: int
  rb_raw_datas :: "'x list"

definition make_raw_data_batch :: "int \<Rightarrow> 'x raw_data_batch" where
  "make_raw_data_batch start = \<lparr>rb_begin_index = start, rb_raw_datas = []\<rparr>"

definition append_raw_data :: "'x \<Rightarrow> 'x raw_data_batch \<Rightarrow> 'x raw_data_batch" where
  "append_raw_data x b = b\<lparr>rb_raw_datas := rb_raw_datas b @ [x]\<rparr>"

record 'x signed_id_batch =
  sb_begin_index :: int
  sb_items :: "'x list"
  sb_signed_ids :: "string list"

definition make_signed_id_batch :: "int \<Rightarrow> 'x signed_id_batch" where
  "make_signed_id_batch start = \<lparr>sb_begin_index = start, sb_items = [], sb_signed_ids = []\<rparr>"

definition append_signed_id :: "string \<times> 'x \<Rightarrow> 'x signed_id_batch \<Rightarrow> 'x signed_id_batch" where
  "append_signed_id idp b =
     b\<lparr>sb_signed_ids := sb_signed_ids b @ [fst idp], sb_items := sb_items b @ [snd idp]\<rparr>"

text \<open>\<open>__iter__\<close> of a signed id batch: id, item and index, in step.\<close>

definition iter_signed_id_batch :: "'x signed_id_batch \<Rightarrow> (string \<times> 'x \<times> int) list result" where
  "iter_signed_id_batch b =
     py_assert (length (sb_items b) = length (sb_signed_ids b))
       (Inr (zip (sb_signed_ids b) (zip (sb_items b)
          (map (\<lambda>k. sb_begin_index b + int k) [0..<length (sb_items b)]))))"

interpretation eid: batch_class "make_example_id_batch pid" append_example_id eb_begin_index
  example_id_batch_len "\<lambda>b. eb_feature_buf b ''example_id''" "\<lambda>x. item_value x ''example_id''"
  "keeps ''example_id''" for pid
  by unfold_locales
    (auto simp: make_example_id_batch_def append_example_id_def example_id_batch_len_def
      SYNC_ALLOWED_OPTIONAL_FIELDS_def)

interpretation idb: batch_class make_id_batch "append_id raw_id" ib_begin_index
  "\<lambda>b. length (ib_items b)" ib_items "\<lambda>x. x" "\<lambda>_. True" for raw_id
  by unfold_locales (simp_all add: make_id_batch_def append_id_def)

interpretation rdb: batch_class make_raw_data_batch append_raw_data rb_begin_index
  "\<lambda>b. length (rb_raw_datas b)" rb_raw_datas "\<lambda>x. x" "\<lambda>_. True"
  by unfold_locales (simp_all add: make_raw_data_batch_def append_raw_data_def)

interpretation sib: batch_class make_signed_id_batch append_signed_id sb_begin_index
  "\<lambda>b. length (sb_items b)" sb_items snd "\<lambda>_. True"
  by unfold_locales (simp_all add: make_signed_id_batch_def append_signed_id_def)

section \<open>The wire format of an example id batch\<close>

datatype tf_feature = Int64_List "int list" | Bytes_List "string list"

record packed_lite_example_ids =
  pk_partition_id :: int
  pk_begin_index :: int
  pk_example_id_num :: nat
  pk_features :: "(string \<times> tf_feature) list"

fun as_int :: "field_value \<Rightarrow> int result" where
  "as_int (FInt i) = Inr i"
| "as_int (FBytes b) = Inl TypeError"

fun as_bytes :: "field_value \<Rightarrow> string result" where
  "as_bytes (FBytes b) = Inr b"
| "as_bytes (FInt i) = Inl TypeError"

fun pack_feature :: "field_value list \<Rightarrow> tf_feature result" where
  "pack_feature (FInt i # vs) =
     bind_result (traverse as_int (FInt i # vs)) (\<lambda>is. Inr (Int64_List is))"
| "pack_feature vs = bind_result (traverse as_bytes vs) (\<lambda>bs. Inr (Bytes_List bs))"

definition make_packed_lite_example_ids ::
    "example_id_batch \<Rightarrow> packed_lite_example_ids result" where
  "make_packed_lite_example_ids b =
     bind_result
       (traverse (\<lambda>fn. bind_result (pack_feature (eb_feature_buf b fn)) (\<lambda>f. Inr (fn, f)))
          (filter (\<lambda>fn. eb_feature_buf b fn \<noteq> []) SYNC_ALLOWED_OPTIONAL_FIELDS))
       (\<lambda>fs. Inr \<lparr>pk_partition_id = eb_partition_id b, pk_begin_index = eb_begin_index b,
                  pk_example_id_num = example_id_batch_len b, pk_features = fs\<rparr>)"

text \<open>
  The reader: a dict of columns (\<open>convert_tf_example_to_dict\<close>), then one row per example id.
  The code yields the rows one by one; \<open>example_id_rows\<close> is the record read to its end.
\<close>

fun feature_values :: "tf_feature \<Rightarrow> field_value list" where
  "feature_values (Int64_List is) = map FInt is"
| "feature_values (Bytes_List bs) = map FBytes bs"

definition columns :: "packed_lite_example_ids \<Rightarrow> string \<rightharpoonup> field_value list" where
  "columns pk = map_option feature_values \<circ> map_of (pk_features pk)"

definition row_field ::
    "(string \<rightharpoonup> field_value list) \<Rightarrow> nat \<Rightarrow> string \<Rightarrow> (string \<times> field_value) list result" where
  "row_field rows index fn =
     (case rows fn of
        None \<Rightarrow> Inr []
      | Some vs \<Rightarrow>
          if vs = [] then Inr []
          else bind_result (list_at vs (int index)) (\<lambda>v. Inr [(fn, v)]))"

definition example_id_item ::
    "packed_lite_example_ids \<Rightarrow> (string \<rightharpoonup> field_value list) \<Rightarrow> nat \<Rightarrow>
     (int \<times> (string \<times> field_value) list) result" where
  "example_id_item pk rows index =
     bind_result (traverse (row_field rows index) SYNC_ALLOWED_OPTIONAL_FIELDS)
       (\<lambda>fs. Inr (int index + pk_begin_index pk, concat fs))"

definition example_id_rows ::
    "packed_lite_example_ids \<Rightarrow> (int \<times> (string \<times> field_value) list) list result" where
  "example_id_rows pk =
     (case columns pk ''example_id'' of
        None \<Rightarrow> Inl KeyError
      | Some ids \<Rightarrow> traverse (example_id_item pk (columns pk)) [0..<length ids])"

subsection \<open>Columns of a filled batch\<close>

definition fill_items :: "int \<Rightarrow> int \<Rightarrow> item list \<Rightarrow> example_id_batch" where
  "fill_items pid start xs = fold append_example_id xs (make_example_id_batch pid start)"

lemma fold_append_buf:
  "eb_feature_buf (fold append_example_id xs b) fn =
     eb_feature_buf b fn @
     (if fn \<in> set SYNC_ALLOWED_OPTIONAL_FIELDS
      then map (\<lambda>x. item_value x fn) (filter (keeps fn) xs) else [])"
  "eb_begin_index (fold append_example_id xs b) = eb_begin_index b"
  "eb_partition_id (fold append_example_id xs b) = eb_partition_id b"
  by (induction xs arbitrary: b) (auto simp: append_example_id_def)

lemma fill_items_fields [simp]:
  "eb_feature_buf (fill_items pid start xs) fn =
     (if fn \<in> set SYNC_ALLOWED_OPTIONAL_FIELDS
      then map (\<lambda>x. item_value x fn) (filter (keeps fn) xs) else [])"
  "eb_begin_index (fill_items pid start xs) = start"
  "eb_partition_id (fill_items pid start xs) = pid"
  by (simp_all add: fill_items_def fold_append_buf make_example_id_batch_def)

text \<open>Values of the declared type.\<close>

definition same_kind :: "field_value \<Rightarrow> field_value \<Rightarrow> bool" where
  "same_kind v w = (case (v, w) of
     (FInt _, FInt _) \<Rightarrow> True | (FBytes _, FBytes _) \<Rightarrow> True | _ \<Rightarrow> False)"

lemma same_kind_iff:
  "same_kind v (FInt j) \<longleftrightarrow> (\<exists>i. v = FInt i)"
  "same_kind v (FBytes c) \<longleftrightarrow> (\<exists>b. v = FBytes b)"
  by (cases v; simp add: same_kind_def)+

definition typed_item :: "item \<Rightarrow> bool" where
  "typed_item x \<longleftrightarrow>
     (\<forall>fn \<in> set SYNC_ALLOWED_OPTIONAL_FIELDS. same_kind (item_value x fn) (default_value fn))"

lemma pack_feature_values:
  assumes "\<forall>v \<in> set vs. same_kind v d" "vs \<noteq> []"
  shows "\<exists>f. pack_feature vs = Inr f \<and> feature_values f = vs"
proof (cases d)
  case (FInt j)
  then have all: "\<forall>v \<in> set vs. \<exists>i. v = FInt i"
    using assms(1) by (simp add: same_kind_iff)
  then have "traverse as_int vs = Inr (map (\<lambda>v. case v of FInt i \<Rightarrow> i | _ \<Rightarrow> 0) vs)"
    by (intro traverse_Inr) auto
  moreover have "map FInt (map (\<lambda>v. case v of FInt i \<Rightarrow> i | _ \<Rightarrow> 0) vs) = vs"
    using all by (induction vs) auto
  moreover obtain i ws where "vs = FInt i # ws" using all assms(2) by (cases vs) auto
  ultimately show ?thesis by simp
next
  case (FBytes c)
  then have all: "\<forall>v \<in> set vs. \<exists>b. v = FBytes b"
    using assms(1) by (simp add: same_kind_iff)
  then have "traverse as_bytes vs = Inr (map (\<lambda>v. case v of FBytes b \<Rightarrow> b | _ \<Rightarrow> '''') vs)"
    by (intro traverse_Inr) auto
  moreover have "map FBytes (map (\<lambda>v. case v of FBytes b \<Rightarrow> b | _ \<Rightarrow> '''') vs) = vs"
    using all by (induction vs) auto
  moreover obtain b ws where "vs = FBytes b # ws" using all assms(2) by (cases vs) auto
  ultimately show ?thesis by simp
qed

lemma map_of_keyed:
  "map_of (map (\<lambda>k. (k, g k)) ks) k = (if k \<in> set ks then Some (g k) else None)"
  by (induction ks) auto

lemma pack_fill_items:
  assumes "\<forall>x \<in> set xs. typed_item x"
  shows "\<exists>pk. make_packed_lite_example_ids (fill_items pid start xs) = Inr pk \<and>
           pk_begin_index pk = start \<and>
           pk_example_id_num pk = length (filter (keeps ''example_id'') xs) \<and>
           columns pk = (\<lambda>fn.
             if fn \<in> set SYNC_ALLOWED_OPTIONAL_FIELDS \<and> (\<exists>x \<in> set xs. keeps fn x)
             then Some (map (\<lambda>x. item_value x fn) (filter (keeps fn) xs)) else None)"
proof -
  let ?b = "fill_items pid start xs"
  let ?L = "filter (\<lambda>fn. eb_feature_buf ?b fn \<noteq> []) SYNC_ALLOWED_OPTIONAL_FIELDS"
  have "\<exists>f. fn \<in> set ?L \<longrightarrow> pack_feature (eb_feature_buf ?b fn) = Inr f \<and>
          feature_values f = eb_feature_buf ?b fn" for fn
  proof (cases "fn \<in> set ?L")
    case True
    then have "\<forall>v \<in> set (eb_feature_buf ?b fn). same_kind v (default_value fn)"
      using assms by (auto simp: typed_item_def)
    moreover have "eb_feature_buf ?b fn \<noteq> []" using True unfolding set_filter by blast
    ultimately show ?thesis using pack_feature_values by blast
  qed simp
  then obtain g where g: "\<And>fn. fn \<in> set ?L \<Longrightarrow>
      pack_feature (eb_feature_buf ?b fn) = Inr (g fn) \<and> feature_values (g fn) = eb_feature_buf ?b fn"
    by metis
  have "traverse (\<lambda>fn. bind_result (pack_feature (eb_feature_buf ?b fn)) (\<lambda>f. Inr (fn, f))) ?L =
        Inr (map (\<lambda>fn. (fn, g fn)) ?L)"
    by (rule traverse_Inr) (use g in \<open>simp del: fill_items_fields\<close>)
  then have mk: "make_packed_lite_example_ids ?b = Inr
      \<lparr>pk_partition_id = pid, pk_begin_index = start,
       pk_example_id_num = example_id_batch_len ?b, pk_features = map (\<lambda>fn. (fn, g fn)) ?L\<rparr>"
      (is "_ = Inr ?pk")
    unfolding make_packed_lite_example_ids_def
    by (simp only: bind_result_simps fill_items_fields(2,3))
  have "columns ?pk fn = (if fn \<in> set ?L then Some (eb_feature_buf ?b fn) else None)" for fn
    using g by (auto simp: columns_def map_of_keyed simp del: fill_items_fields)
  then have "columns ?pk = (\<lambda>fn.
      if fn \<in> set SYNC_ALLOWED_OPTIONAL_FIELDS \<and> (\<exists>x \<in> set xs. keeps fn x)
      then Some (map (\<lambda>x. item_value x fn) (filter (keeps fn) xs)) else None)"
    by (auto simp: fun_eq_iff filter_empty_conv)
  moreover have "example_id_batch_len ?b = length (filter (keeps ''example_id'') xs)"
    by (simp add: example_id_batch_len_def SYNC_ALLOWED_OPTIONAL_FIELDS_def)
  ultimately show ?thesis using mk by simp
qed

text \<open>The row that the reader should give for an item.\<close>

definition kept_fields :: "item \<Rightarrow> (string \<times> field_value) list" where
  "kept_fields x =
     map (\<lambda>fn. (fn, item_value x fn)) (filter (\<lambda>fn. keeps fn x) SYNC_ALLOWED_OPTIONAL_FIELDS)"

lemma row_field_uniform:
  assumes "fn \<in> set SYNC_ALLOWED_OPTIONAL_FIELDS" "k < length xs"
    and "(\<forall>x \<in> set xs. keeps fn x) \<or> (\<forall>x \<in> set xs. \<not> keeps fn x)"
  shows "row_field (\<lambda>fn.
             if fn \<in> set SYNC_ALLOWED_OPTIONAL_FIELDS \<and> (\<exists>x \<in> set xs. keeps fn x)
             then Some (map (\<lambda>x. item_value x fn) (filter (keeps fn) xs)) else None) k fn =
         Inr (if keeps fn (xs ! k) then [(fn, item_value (xs ! k) fn)] else [])"
proof (cases "\<forall>x \<in> set xs. keeps fn x")
  case True
  then have "filter (keeps fn) xs = xs" by simp
  then show ?thesis using True assms(1,2)
      list_at_nat [of k "map (\<lambda>x. item_value x fn) xs"]
    by (auto simp: row_field_def)
next
  case False
  then have "\<forall>x \<in> set xs. \<not> keeps fn x" using assms(3) by blast
  then show ?thesis using assms(2) by (auto simp: row_field_def)
qed

lemma row_field_error: "row_field rows k fn = Inl e \<Longrightarrow> e = IndexError"
  by (auto simp: row_field_def list_at_def split: option.splits if_splits)

lemma traverse_Inl: "traverse f xs = Inl e \<Longrightarrow> \<exists>x \<in> set xs. f x = Inl e"
proof (induction xs)
  case (Cons x xs)
  then show ?case by (cases "f x"; cases "traverse f xs") auto
qed simp

lemma item_error: "example_id_item pk rows k = Inl e \<Longrightarrow> e = IndexError"
proof -
  assume a: "example_id_item pk rows k = Inl e"
  then have "traverse (row_field rows k) SYNC_ALLOWED_OPTIONAL_FIELDS = Inl e"
    by (cases "traverse (row_field rows k) SYNC_ALLOWED_OPTIONAL_FIELDS")
      (simp_all add: example_id_item_def)
  then show ?thesis using traverse_Inl row_field_error by metis
qed

lemma concat_if_map: "concat (map (\<lambda>x. if P x then [f x] else []) xs) = map f (filter P xs)"
  by (induction xs) auto

section \<open>The fetchers\<close>

text \<open>The example id fetcher closes a batch above the batch size, the other two at it.\<close>

definition example_id_fetcher_process ::
    "int \<Rightarrow> int \<Rightarrow> (int \<Rightarrow> (int \<times> item) list) \<Rightarrow> int \<Rightarrow> example_id_batch seq_proc \<Rightarrow>
     example_id_batch seq_proc result" where
  "example_id_fetcher_process pid batch_size =
     fetcher_process (make_example_id_batch pid) append_example_id
       (\<lambda>b. batch_size < int (example_id_batch_len b)) eb_begin_index example_id_batch_len"

definition id_batch_fetcher_process ::
    "('x \<Rightarrow> string) \<Rightarrow> int \<Rightarrow> (int \<Rightarrow> (int \<times> 'x) list) \<Rightarrow> int \<Rightarrow> 'x id_batch seq_proc \<Rightarrow>
     'x id_batch seq_proc result" where
  "id_batch_fetcher_process raw_id batch_size =
     fetcher_process make_id_batch (append_id raw_id)
       (\<lambda>b. batch_size \<le> int (length (ib_items b))) ib_begin_index (\<lambda>b. length (ib_items b))"

definition raw_data_batch_fetcher_process ::
    "int \<Rightarrow> (int \<Rightarrow> (int \<times> 'x) list) \<Rightarrow> int \<Rightarrow> 'x raw_data_batch seq_proc \<Rightarrow>
     'x raw_data_batch seq_proc result" where
  "raw_data_batch_fetcher_process batch_size =
     fetcher_process make_raw_data_batch append_raw_data
       (\<lambda>b. batch_size \<le> int (length (rb_raw_datas b))) rb_begin_index
       (\<lambda>b. length (rb_raw_datas b))"

text \<open>The size of a filled batch of the example id fetcher.\<close>

lemma fill_overshoot:
  assumes "visits_from n vs" "\<forall>x \<in> snd ` set vs. keeps ''example_id'' x"
    and "int (example_id_batch_len b) \<le> batch_size"
    and "batch_size + 1 - int (example_id_batch_len b) \<le> int (length vs)"
  shows "\<exists>b'. fill_loop append_example_id (\<lambda>b. batch_size < int (example_id_batch_len b)) n b vs =
           Inr (n + (batch_size + 1 - int (example_id_batch_len b)), b',
                drop (nat (batch_size + 1 - int (example_id_batch_len b))) vs, False) \<and>
           int (example_id_batch_len b') = batch_size + 1"
  using assms
proof (induction vs arbitrary: n b)
  case Nil
  then show ?case by simp
next
  case (Cons v vs)
  obtain i x where v: "v = (i, x)" by fastforce
  have i: "i = n" "visits_from (n + 1) vs" and x: "keeps ''example_id'' x"
    using Cons.prems(1,2) v by simp_all
  let ?b = "append_example_id x b"
  have len: "example_id_batch_len ?b = Suc (example_id_batch_len b)"
    using x by (simp add: example_id_batch_len_def append_example_id_def
        SYNC_ALLOWED_OPTIONAL_FIELDS_def)
  show ?case
  proof (cases "batch_size < int (example_id_batch_len ?b)")
    case True
    then have "batch_size = int (example_id_batch_len b)" using len Cons.prems(3) by simp
    then show ?thesis using v i True len by simp
  next
    case False
    have k: "nat (batch_size + 1 - int (example_id_batch_len b)) =
        Suc (nat (batch_size + 1 - int (example_id_batch_len ?b)))"
      using False len by simp
    have "\<exists>b'. fill_loop append_example_id (\<lambda>b. batch_size < int (example_id_batch_len b)) (n + 1) ?b vs =
           Inr (n + 1 + (batch_size + 1 - int (example_id_batch_len ?b)), b',
                drop (nat (batch_size + 1 - int (example_id_batch_len ?b))) vs, False) \<and>
           int (example_id_batch_len b') = batch_size + 1"
      by (rule Cons.IH) (use i Cons.prems False len in auto)
    then show ?thesis using v i(1) False len k by (simp add: algebra_simps)
  qed
qed

section \<open>Properties\<close>

text \<open>
  C18. A call of the example id fetcher over items that come with consecutive indices and
  carry an example id never exits the process nor raises: it terminates, restarts the
  window only on a rollback, and appends batches that together hold the example ids of
  exactly a prefix of what the visitor delivers, in order and each once.
\<close>

theorem example_id_fetch_no_loss:
  assumes "sp_run eb_begin_index example_id_batch_len ops (seq_proc_init m) = Inr p"
    and "0 \<le> next_index" "\<forall>b \<in> set (sp_batch_queue p). 0 \<le> eb_begin_index b"
    and "\<forall>n. visits_from n (visit n) \<and> (\<forall>x \<in> snd ` set (visit n). keeps ''example_id'' x)"
  shows "\<exists>p' us new old.
           example_id_fetcher_process pid batch_size visit next_index p = Inr p' \<and>
           old = (if check_index_rollback eb_begin_index example_id_batch_len next_index p
                  then [] else sp_batch_queue p) \<and>
           sp_batch_queue p' = old @ new \<and>
           (\<exists>rest. visit (if old = [] then next_index
                          else end_index eb_begin_index example_id_batch_len (last old)) = us @ rest) \<and>
           concat (map (\<lambda>b. eb_feature_buf b ''example_id'') new) =
             map (\<lambda>x. item_value x ''example_id'') (map snd us)"
  unfolding example_id_fetcher_process_def
  using eid.process_ok [OF sp_run_inv [OF init_inv assms(1)] assms(2-4)] by blast

text \<open>
  C30. An example id batch whose items each either carry or miss an optional field as a
  whole survives the wire: packing succeeds and the reader of the dumped file gets one
  row per item, with the item's index and exactly the fields that it carries.
\<close>

theorem packed_batch_roundtrip:
  assumes "\<forall>x \<in> set xs. typed_item x \<and> keeps ''example_id'' x" "xs \<noteq> []"
    and "\<forall>fn \<in> set SYNC_ALLOWED_OPTIONAL_FIELDS.
           (\<forall>x \<in> set xs. keeps fn x) \<or> (\<forall>x \<in> set xs. \<not> keeps fn x)"
  shows "bind_result (make_packed_lite_example_ids (fill_items pid start xs)) example_id_rows =
         Inr (map (\<lambda>k. (start + int k, kept_fields (xs ! k))) [0..<length xs])"
proof -
  obtain pk where pk: "make_packed_lite_example_ids (fill_items pid start xs) = Inr pk"
      "pk_begin_index pk = start"
      "columns pk = (\<lambda>fn.
             if fn \<in> set SYNC_ALLOWED_OPTIONAL_FIELDS \<and> (\<exists>x \<in> set xs. keeps fn x)
             then Some (map (\<lambda>x. item_value x fn) (filter (keeps fn) xs)) else None)"
    using pack_fill_items [of xs pid start] assms(1) by blast
  have "filter (keeps ''example_id'') xs = xs" using assms(1) by simp
  then have ids_column: "columns pk ''example_id'' =
      Some (map (\<lambda>x. item_value x ''example_id'') xs)"
    using assms(1,2) pk(3) by (cases xs) (auto simp: SYNC_ALLOWED_OPTIONAL_FIELDS_def)
  have "example_id_item pk (columns pk) k = Inr (start + int k, kept_fields (xs ! k))"
    if k: "k < length xs" for k
  proof -
    have "traverse (row_field (columns pk) k) SYNC_ALLOWED_OPTIONAL_FIELDS =
        Inr (map (\<lambda>fn. if keeps fn (xs ! k) then [(fn, item_value (xs ! k) fn)] else [])
          SYNC_ALLOWED_OPTIONAL_FIELDS)"
      by (rule traverse_Inr) (use row_field_uniform [OF _ k] assms(3) pk(3) in simp)
    then show ?thesis
      by (simp add: example_id_item_def concat_if_map kept_fields_def pk(2))
  qed
  then show ?thesis using pk(1) ids_column
    by (simp add: example_id_rows_def) (rule traverse_Inr, simp)
qed

text \<open>
  When some but not all items of a batch carry an optional field, the column holds
  fewer values than there are rows: the batch still packs, and reading it to its end
  on the receiving side raises \<open>IndexError\<close>.
\<close>

theorem packed_batch_misaligned:
  assumes "\<forall>x \<in> set xs. typed_item x \<and> keeps ''example_id'' x"
    and "fn \<in> set SYNC_ALLOWED_OPTIONAL_FIELDS"
    and "\<exists>x \<in> set xs. keeps fn x" "\<exists>x \<in> set xs. \<not> keeps fn x"
  shows "\<exists>pk. make_packed_lite_example_ids (fill_items pid start xs) = Inr pk \<and>
           example_id_rows pk = Inl IndexError"
proof -
  obtain pk where pk: "make_packed_lite_example_ids (fill_items pid start xs) = Inr pk"
      "columns pk = (\<lambda>fn.
             if fn \<in> set SYNC_ALLOWED_OPTIONAL_FIELDS \<and> (\<exists>x \<in> set xs. keeps fn x)
             then Some (map (\<lambda>x. item_value x fn) (filter (keeps fn) xs)) else None)"
    using pack_fill_items [of xs pid start] assms(1) by blast
  have "filter (keeps ''example_id'') xs = xs" using assms(1) by simp
  then have ids_column: "columns pk ''example_id'' =
      Some (map (\<lambda>x. item_value x ''example_id'') xs)"
    using assms(1,3) pk(2) by (auto simp: SYNC_ALLOWED_OPTIONAL_FIELDS_def)
  let ?vs = "map (\<lambda>x. item_value x fn) (filter (keeps fn) xs)"
  let ?k = "length ?vs"
  have "?k < length xs" using assms(4) by (auto intro: length_filter_less)
  moreover have "row_field (columns pk) ?k fn = Inl IndexError"
    using assms(2,3) pk(2) list_at_beyond [of ?vs "int ?k"]
    by (auto simp: row_field_def filter_empty_conv)
  then have "traverse (row_field (columns pk) ?k) SYNC_ALLOWED_OPTIONAL_FIELDS = Inl IndexError"
    using assms(2) row_field_error by (intro traverse_error) blast+
  then have "example_id_item pk (columns pk) ?k = Inl IndexError"
    by (simp add: example_id_item_def)
  ultimately have "traverse (example_id_item pk (columns pk)) [0..<length xs] = Inl IndexError"
    using item_error by (intro traverse_error) auto
  then show ?thesis using pk(1) ids_column by (simp add: example_id_rows_def)
qed

text \<open>
  The example id fetcher closes a batch only after it has gone above the configured
  batch size: with enough items left every batch holds batch size plus one of them.
\<close>

theorem example_id_batch_overshoots:
  assumes "visits_from n vs" "\<forall>x \<in> snd ` set vs. keeps ''example_id'' x"
    and "0 \<le> batch_size" "batch_size < int (length vs)"
  shows "\<exists>b'. fill_loop append_example_id (\<lambda>b. batch_size < int (example_id_batch_len b)) n
             (make_example_id_batch pid n) vs =
           Inr (n + (batch_size + 1), b', drop (nat (batch_size + 1)) vs, False) \<and>
           int (example_id_batch_len b') = batch_size + 1"
  using fill_overshoot [OF assms(1,2), of "make_example_id_batch pid n" batch_size] assms(3,4)
  by (simp add: example_id_batch_len_def make_example_id_batch_def)

subsection \<open>Witnesses\<close>

definition id_item :: "string \<Rightarrow> item" where
  "id_item s = [''example_id'' \<mapsto> FBytes s, ''event_time'' \<mapsto> FInt 7]"

definition click_item :: "string \<Rightarrow> item" where
  "click_item s = (id_item s)(''click_id'' \<mapsto> FBytes ''c'')"

definition id_visits :: "int \<Rightarrow> (int \<times> item) list" where
  "id_visits n = [(n, id_item ''a''), (n + 1, id_item ''b''), (n + 2, click_item ''c'')]"

lemma sample_items:
  "typed_item (id_item s)" "typed_item (click_item s)"
  "keeps ''example_id'' (id_item s) \<longleftrightarrow> s \<noteq> []" "keeps ''example_id'' (click_item s) \<longleftrightarrow> s \<noteq> []"
  "\<not> keeps ''click_id'' (id_item s)" "keeps ''click_id'' (click_item s)"
  "keeps ''event_time'' (id_item s)"
  "\<not> keeps ''type'' (id_item s)" "\<not> keeps ''id_type'' (id_item s)"
  "\<not> keeps ''event_time_deep'' (id_item s)"
  by (simp_all add: typed_item_def SYNC_ALLOWED_OPTIONAL_FIELDS_def id_item_def click_item_def
      item_value_def keeps_def default_value_def ALLOWED_FIELDS_def same_kind_def
      InvalidEventTime_def)

lemma id_visits_ok:
  "visits_from n (id_visits n)" "\<forall>x \<in> snd ` set (id_visits n). keeps ''example_id'' x"
  by (simp_all add: id_visits_def sample_items)

theorem example_id_fetch_no_loss_witness:
  "\<exists>p'. example_id_fetcher_process 0 2 id_visits 0 (seq_proc_init 8) = Inr p'"
proof -
  have run: "sp_run eb_begin_index example_id_batch_len [] (seq_proc_init 8) = Inr (seq_proc_init 8)"
    by simp
  have "\<forall>b \<in> set (sp_batch_queue (seq_proc_init 8)). 0 \<le> eb_begin_index b"
    by (simp add: seq_proc_init_def)
  then show ?thesis
    using example_id_fetch_no_loss [OF run, of 0 id_visits 0 2] id_visits_ok by auto
qed

theorem packed_batch_roundtrip_witness:
  "bind_result (make_packed_lite_example_ids (fill_items 0 4 [id_item ''a'', id_item ''b'']))
     example_id_rows =
   Inr [(4, kept_fields (id_item ''a'')), (5, kept_fields (id_item ''b''))]"
proof -
  have "\<forall>fn \<in> set SYNC_ALLOWED_OPTIONAL_FIELDS.
      (\<forall>x \<in> set [id_item ''a'', id_item ''b'']. keeps fn x) \<or>
      (\<forall>x \<in> set [id_item ''a'', id_item ''b'']. \<not> keeps fn x)"
    by (simp add: SYNC_ALLOWED_OPTIONAL_FIELDS_def sample_items)
  then show ?thesis
    using packed_batch_roundtrip [of "[id_item ''a'', id_item ''b'']" 0 4]
    by (simp add: sample_items)
qed

theorem packed_batch_misaligned_witness:
  "\<exists>pk. make_packed_lite_example_ids (fill_items 0 4 [id_item ''a'', click_item ''b'']) = Inr pk \<and>
     example_id_rows pk = Inl IndexError"
  using packed_batch_misaligned [of "[id_item ''a'', click_item ''b'']" "''click_id''" 0 4]
  by (simp add: sample_items SYNC_ALLOWED_OPTIONAL_FIELDS_def)

theorem example_id_batch_overshoots_witness:
  "\<exists>b'. fill_loop append_example_id (\<lambda>b. 1 < int (example_id_batch_len b)) 0
       (make_example_id_batch 0 0) (id_visits 0) = Inr (2, b', drop 2 (id_visits 0), False) \<and>
     int (example_id_batch_len b') = 2"
  using example_id_batch_overshoots [OF id_visits_ok, of 1 0 0] by (simp add: id_visits_def)

end
