(* ===== verification/Py_String.thy ===== *)
theory Py_String
  imports Prelude "HOL-Library.Sublist"
begin

text \<open>
  The string operations that the Python code uses, on lists of characters: formatting and
  parsing of decimal integers, \<open>split\<close> and \<open>join\<close>, \<open>startswith\<close> and \<open>endswith\<close> (as \<open>prefix\<close>
  and \<open>suffix\<close>), \<open>os.path.join\<close>, and the lemmas that make keys and file names
  injective and readable back.
\<close>

section \<open>Decimal integers\<close>

definition digit_char :: "nat \<Rightarrow> char" where
  "digit_char d = char_of (48 + d)"

definition char_digit :: "char \<Rightarrow> nat" where
  "char_digit c = of_char c - 48"

definition is_digit :: "char \<Rightarrow> bool" where
  "is_digit c \<longleftrightarrow> 48 \<le> (of_char c :: nat) \<and> (of_char c :: nat) \<le> 57"

lemma digit_char_simps [simp]:
  "d < 10 \<Longrightarrow> char_digit (digit_char d) = d"
  "d < 10 \<Longrightarrow> is_digit (digit_char d)"
  by (simp_all add: digit_char_def char_digit_def is_digit_def)

fun nat_str :: "nat \<Rightarrow> string" where
  "nat_str n = (if n < 10 then [digit_char n] else nat_str (n div 10) @ [digit_char (n mod 10)])"

declare nat_str.simps [simp del]

definition int_str :: "int \<Rightarrow> string" where
  "int_str i = (if i < 0 then CHR ''-'' # nat_str (nat (- i)) else nat_str (nat i))"

text \<open>The format \<open>{:0w}\<close>: zeros are put in after the sign.\<close>

definition zero_pad :: "nat \<Rightarrow> string \<Rightarrow> string" where
  "zero_pad w s = replicate (w - length s) CHR ''0'' @ s"

definition fmt_int :: "nat \<Rightarrow> int \<Rightarrow> string" where
  "fmt_int w i = (if i < 0 then CHR ''-'' # zero_pad (w - 1) (nat_str (nat (- i)))
                  else zero_pad w (nat_str (nat i)))"

text \<open>\<open>int(s)\<close>: blanks around, one sign, digits with single underscores between them.\<close>

definition is_blank :: "char \<Rightarrow> bool" where
  "is_blank c \<longleftrightarrow> c = CHR '' '' \<or> (9 \<le> (of_char c :: nat) \<and> (of_char c :: nat) \<le> 13)"

definition py_strip :: "string \<Rightarrow> string" where
  "py_strip s = rev (dropWhile is_blank (rev (dropWhile is_blank s)))"

fun digits_rest :: "nat \<Rightarrow> string \<Rightarrow> nat option" where
  "digits_rest acc [] = Some acc"
| "digits_rest acc (c # cs) =
     (if is_digit c then digits_rest (10 * acc + char_digit c) cs
      else if c = CHR ''_'' \<and> cs \<noteq> [] \<and> is_digit (hd cs) then digits_rest acc cs
      else None)"

fun digits_first :: "string \<Rightarrow> nat option" where
  "digits_first [] = None"
| "digits_first (c # cs) = (if is_digit c then digits_rest (char_digit c) cs else None)"

definition py_int :: "string \<Rightarrow> int result" where
  "py_int s =
     (let t = py_strip s;
          r = (case t of
                 [] \<Rightarrow> None
               | c # cs \<Rightarrow>
                   if c = CHR ''-'' then map_option (\<lambda>n. - int n) (digits_first cs)
                   else if c = CHR ''+'' then map_option int (digits_first cs)
                   else map_option int (digits_first t))
      in case r of None \<Rightarrow> Inl ValueError | Some i \<Rightarrow> Inr i)"

definition dec_value :: "nat \<Rightarrow> string \<Rightarrow> nat" where
  "dec_value acc s = foldl (\<lambda>a c. 10 * a + char_digit c) acc s"

lemma digits_rest_value:
  "\<forall>c \<in> set s. is_digit c \<Longrightarrow> digits_rest acc s = Some (dec_value acc s)"
  by (induction s arbitrary: acc) (auto simp: dec_value_def)

lemma nat_str_digits: "\<forall>c \<in> set (nat_str n). is_digit c"
proof (induction n rule: nat_str.induct)
  case (1 n)
  then show ?case by (subst nat_str.simps) auto
qed

lemma nat_str_nonempty [simp]: "nat_str n \<noteq> []"
  by (subst nat_str.simps) simp

lemma nat_str_value: "dec_value 0 (nat_str n) = n"
proof (induction n rule: nat_str.induct)
  case (1 n)
  show ?case
  proof (cases "n < 10")
    case True
    then show ?thesis by (subst nat_str.simps) (simp add: dec_value_def)
  next
    case False
    then have "dec_value 0 (nat_str n) = 10 * dec_value 0 (nat_str (n div 10)) + n mod 10"
      by (subst nat_str.simps) (simp add: dec_value_def)
    then show ?thesis using 1 False by simp
  qed
qed

lemma zero_pad_value [simp]: "dec_value 0 (zero_pad w s) = dec_value 0 s"
proof -
  have "dec_value 0 (replicate k CHR ''0'' @ s) = dec_value 0 s" for k
    by (induction k) (simp_all add: dec_value_def char_digit_def)
  then show ?thesis by (simp add: zero_pad_def)
qed

lemma zero_pad_digits: "\<forall>c \<in> set s. is_digit c \<Longrightarrow> \<forall>c \<in> set (zero_pad w s). is_digit c"
  by (auto simp: zero_pad_def is_digit_def)

lemma zero_pad_nonempty [simp]: "zero_pad w (nat_str n) \<noteq> []"
  by (simp add: zero_pad_def)

lemma zero_pad_inj: "zero_pad w (nat_str m) = zero_pad w (nat_str n) \<longleftrightarrow> m = n"
  by (metis nat_str_value zero_pad_value)

lemma nat_str_inj [simp]: "nat_str m = nat_str n \<longleftrightarrow> m = n"
  by (metis nat_str_value)

lemma strip_digits:
  assumes "\<forall>c \<in> set s. \<not> is_blank c"
  shows "py_strip s = s"
proof -
  have d: "dropWhile is_blank xs = xs" if "\<forall>c \<in> set xs. \<not> is_blank c" for xs :: string
    using that by (cases xs) auto
  show ?thesis using d [of s] d [of "rev s"] assms by (simp add: py_strip_def)
qed

lemma digit_not: "is_digit c \<Longrightarrow> \<not> is_blank c \<and> c \<noteq> CHR ''-'' \<and> c \<noteq> CHR ''+'' \<and> c \<noteq> CHR ''.'' \<and> c \<noteq> CHR ''/''"
  by (auto simp: is_digit_def is_blank_def)

lemma not_digit [simp]:
  "\<not> is_digit CHR ''-''" "\<not> is_digit CHR ''.''" "\<not> is_digit CHR ''/''" "\<not> is_digit CHR '':''"
  "\<not> is_digit CHR ''_''"
  by (simp_all add: is_digit_def)

lemma digits_first_value:
  "\<forall>c \<in> set s. is_digit c \<Longrightarrow> s \<noteq> [] \<Longrightarrow> digits_first s = Some (dec_value 0 s)"
  by (cases s) (simp_all add: digits_rest_value, simp add: dec_value_def)

lemma py_int_digits:
  assumes "\<forall>c \<in> set s. is_digit c" "s \<noteq> []"
  shows "py_int s = Inr (int (dec_value 0 s))"
proof -
  have st: "py_strip s = s" using assms(1) digit_not by (intro strip_digits) blast
  obtain c cs where s: "s = c # cs" using assms(2) by (cases s) auto
  then have "c \<noteq> CHR ''-''" "c \<noteq> CHR ''+''" using assms(1) digit_not by auto
  then show ?thesis
    using digits_first_value [OF assms] st s unfolding py_int_def Let_def by simp
qed

lemma py_int_nat_str [simp]: "py_int (nat_str n) = Inr (int n)"
  using py_int_digits [OF nat_str_digits] by (simp add: nat_str_value)

lemma py_int_zero_pad [simp]: "py_int (zero_pad w (nat_str n)) = Inr (int n)"
  using py_int_digits [OF zero_pad_digits [OF nat_str_digits]] by (simp add: nat_str_value)

lemma py_int_minus: "py_int (CHR ''-'' # zero_pad w (nat_str n)) = Inr (- int n)"
proof -
  have st: "py_strip (CHR ''-'' # zero_pad w (nat_str n)) = CHR ''-'' # zero_pad w (nat_str n)"
    using zero_pad_digits [OF nat_str_digits] digit_not
    by (intro strip_digits) (auto simp: is_blank_def)
  have f: "digits_first (zero_pad w (nat_str n)) = Some n"
    using digits_first_value [OF zero_pad_digits [OF nat_str_digits]] by (simp add: nat_str_value)
  show ?thesis unfolding py_int_def Let_def st by (simp add: f)
qed

text \<open>Formatting then parsing gives the integer back, at every width.\<close>

lemma py_int_fmt_int [simp]: "py_int (fmt_int w i) = Inr i"
  by (simp add: fmt_int_def py_int_minus)

lemma py_int_int_str [simp]: "py_int (int_str i) = Inr i"
  using py_int_minus [of 0 "nat (- i)"] by (auto simp: int_str_def zero_pad_def)

lemma fmt_int_inj [simp]: "fmt_int w i = fmt_int w j \<longleftrightarrow> i = j"
  by (metis py_int_fmt_int sum.inject(2))

lemma fmt_int_chars: "c \<in> set (fmt_int w i) \<Longrightarrow> is_digit c \<or> c = CHR ''-''"
  using zero_pad_digits [OF nat_str_digits] by (auto simp: fmt_int_def split: if_splits)

lemma int_str_chars: "c \<in> set (int_str i) \<Longrightarrow> is_digit c \<or> c = CHR ''-''"
  using nat_str_digits by (auto simp: int_str_def split: if_splits)

lemma fmt_int_not_in: "\<not> is_digit c \<Longrightarrow> c \<noteq> CHR ''-'' \<Longrightarrow> c \<notin> set (fmt_int w i)"
  using fmt_int_chars by blast

lemma int_str_not_in: "\<not> is_digit c \<Longrightarrow> c \<noteq> CHR ''-'' \<Longrightarrow> c \<notin> set (int_str i)"
  using int_str_chars by blast

lemma nat_str_not_in: "\<not> is_digit c \<Longrightarrow> c \<notin> set (zero_pad w (nat_str n))" "\<not> is_digit c \<Longrightarrow> c \<notin> set (nat_str n)"
  using zero_pad_digits [OF nat_str_digits] nat_str_digits by blast+

section \<open>Splitting and joining\<close>

fun split_on :: "char \<Rightarrow> string \<Rightarrow> string list" where
  "split_on c [] = [[]]"
| "split_on c (x # xs) =
     (if x = c then [] # split_on c xs
      else case split_on c xs of [] \<Rightarrow> [[x]] | y # ys \<Rightarrow> (x # y) # ys)"

lemma split_on_nonempty [simp]: "split_on c s \<noteq> []"
  by (induction c s rule: split_on.induct) (auto split: list.splits)

lemma split_on_none: "c \<notin> set s \<Longrightarrow> split_on c s = [s]"
  by (induction c s rule: split_on.induct) auto

lemma split_on_sep: "c \<notin> set s \<Longrightarrow> split_on c (s @ c # t) = s # split_on c t"
  by (induction s) auto

fun join_with :: "string \<Rightarrow> string list \<Rightarrow> string" where
  "join_with sep [] = []"
| "join_with sep [s] = s"
| "join_with sep (s # t # ss) = s @ sep @ join_with sep (t # ss)"

section \<open>Paths\<close>

definition path_join :: "string \<Rightarrow> string \<Rightarrow> string" where
  "path_join a b =
     (if prefix ''/'' b then b
      else if a = [] \<or> suffix ''/'' a then a @ b
      else a @ ''/'' @ b)"

lemma path_join_plain:
  "a \<noteq> [] \<Longrightarrow> \<not> suffix ''/'' a \<Longrightarrow> \<not> prefix ''/'' b \<Longrightarrow> path_join a b = a @ ''/'' @ b"
  by (simp add: path_join_def)

text \<open>\<open>os.path.basename\<close> and \<open>os.path.dirname\<close>, which strips the slashes at its end unless there is nothing else.\<close>

definition base_name :: "string \<Rightarrow> string" where
  "base_name path = rev (takeWhile (\<lambda>c. c \<noteq> CHR ''/'') (rev path))"

definition dir_name :: "string \<Rightarrow> string" where
  "dir_name path =
     (let head = rev (dropWhile (\<lambda>c. c \<noteq> CHR ''/'') (rev path)) in
      if \<forall>c \<in> set head. c = CHR ''/'' then head else rev (dropWhile (\<lambda>c. c = CHR ''/'') (rev head)))"

lemma base_name_append: "CHR ''/'' \<notin> set f \<Longrightarrow> base_name (d @ CHR ''/'' # f) = f"
proof -
  assume "CHR ''/'' \<notin> set f"
  then have "takeWhile (\<lambda>c. c \<noteq> CHR ''/'') (rev f @ CHR ''/'' # rev d) = rev f"
    by (subst takeWhile_append2) auto
  then show ?thesis by (simp add: base_name_def)
qed

lemma dir_name_append:
  assumes "CHR ''/'' \<notin> set f" "d \<noteq> []" "last d \<noteq> CHR ''/''"
  shows "dir_name (d @ CHR ''/'' # f) = d"
proof -
  have "dropWhile (\<lambda>c. c \<noteq> CHR ''/'') (rev f @ CHR ''/'' # rev d) = CHR ''/'' # rev d"
    using assms(1) by (subst dropWhile_append2) auto
  moreover have "dropWhile (\<lambda>c. c = CHR ''/'') (rev d) = rev d"
  proof (cases "rev d")
    case (Cons c cs)
    then have "last d = c" by (metis hd_rev list.sel(1))
    then show ?thesis using Cons assms(3) by simp
  qed simp
  moreover have "last d \<in> set d" using assms(2) by simp
  ultimately show ?thesis using assms(3) unfolding dir_name_def Let_def by auto
qed

end
