(* ===== verification/Kv_Store.thy ===== *)
theory Kv_Store
  imports Py_String "HOL-Library.AList" "HOL-Library.List_Lexorder" "HOL-Library.Char_ord"
begin

text \<open>
  The key value stores behind \<open>DBClient\<close>: the in-memory store of the tests and of
  \<open>EtcdClient\<close> in mock mode (\<open>common/mock_kvstore.py\<close>, \<open>common/etcd_client.py\<close>), MySQL
  (\<open>common/mysql_client.py\<close>) and the file system (\<open>common/dfs_client.py\<close>). The locale
  \<open>kv_backend\<close> states the contract that the data join relies on; the three clients
  interpret it. What a real etcd server does is not modelled: in mock mode its place
  is taken by the repository's own store.

  Values are \<open>str\<close> or \<open>bytes\<close>, which Python never compares as equal.
\<close>

section \<open>Values and keys\<close>

datatype kv_value = VStr string | VBytes string

primrec content :: "kv_value \<Rightarrow> string" where
  "content (VStr s) = s"
| "content (VBytes s) = s"

definition encode_value :: "kv_value \<Rightarrow> kv_value" where
  "encode_value v = VBytes (content v)"

text \<open>\<open>_normalize_input_key\<close>, the same in all three clients: leading dots and slashes go.\<close>

definition skip_char :: "char \<Rightarrow> bool" where
  "skip_char c \<longleftrightarrow> c = CHR ''.'' \<or> c = CHR ''/''"

definition normalize_input_key :: "string \<Rightarrow> string result" where
  "normalize_input_key key =
     (let t = dropWhile skip_char key in if t = [] then Inl IndexError else Inr t)"

definition generate_path :: "string \<Rightarrow> string \<Rightarrow> string result" where
  "generate_path base key =
     bind_result (normalize_input_key key) (\<lambda>k. Inr (join_with ''/'' [base, k]))"

definition normalize_output_key :: "string \<Rightarrow> string \<Rightarrow> string result" where
  "normalize_output_key key base =
     py_assert (prefix base key) (Inr (drop (length base + 1) key))"

lemma normalize_idem:
  "normalize_input_key key = Inr k \<Longrightarrow> normalize_input_key k = Inr k"
  by (cases "dropWhile skip_char key = []")
    (auto simp: normalize_input_key_def Let_def dropWhile_idem simp del: dropWhile_eq_Nil_conv)

lemma generate_path_Inr:
  "generate_path base key = Inr p \<longleftrightarrow>
     (\<exists>k. normalize_input_key key = Inr k \<and> p = base @ ''/'' @ k)"
  by (auto simp: generate_path_def bind_result_Inr_iff)

lemma generate_path_inj:
  assumes "generate_path base k1 = Inr p" "generate_path base k2 = Inr p"
  shows "normalize_input_key k1 = normalize_input_key k2"
  using assms by (auto simp: generate_path_Inr)

lemma path_roundtrip:
  assumes "generate_path base key = Inr p"
  shows "normalize_output_key p base = normalize_input_key key"
  using assms by (auto simp: generate_path_Inr normalize_output_key_def py_assert_def)

section \<open>The mock store\<close>

record notifier =
  nt_client :: nat
  nt_queue :: "(string \<times> kv_value option) option list"

record mock_store =
  ms_data :: "(string \<times> kv_value) list"
  ms_notifiers :: "(string \<times> notifier list) list"

definition mock_init :: mock_store where
  "mock_init = \<lparr>ms_data = [], ms_notifiers = []\<rparr>"

definition notify :: "string \<Rightarrow> kv_value option \<Rightarrow> notifier \<Rightarrow> notifier" where
  "notify key v n = n\<lparr>nt_queue := nt_queue n @ [Some (key, v)]\<rparr>"

definition notify_if_need :: "string \<Rightarrow> mock_store \<Rightarrow> mock_store" where
  "notify_if_need key s =
     (case map_of (ms_notifiers s) key of
        None \<Rightarrow> s
      | Some ens \<Rightarrow>
          s\<lparr>ms_notifiers :=
              AList.update key (map (notify key (map_of (ms_data s) key)) ens) (ms_notifiers s)\<rparr>)"

definition mock_get :: "string \<Rightarrow> mock_store \<Rightarrow> kv_value option" where
  "mock_get key s = map_option encode_value (map_of (ms_data s) key)"

definition mock_put :: "string \<Rightarrow> kv_value \<Rightarrow> mock_store \<Rightarrow> mock_store" where
  "mock_put key v s = notify_if_need key (s\<lparr>ms_data := AList.update key v (ms_data s)\<rparr>)"

definition mock_delete :: "string \<Rightarrow> mock_store \<Rightarrow> mock_store" where
  "mock_delete key s = notify_if_need key (s\<lparr>ms_data := AList.delete key (ms_data s)\<rparr>)"

definition mock_delete_prefix :: "string \<Rightarrow> mock_store \<Rightarrow> mock_store" where
  "mock_delete_prefix pre s =
     fold mock_delete (filter (prefix pre) (map fst (ms_data s))) s"

definition mock_put_if_not_exists :: "string \<Rightarrow> kv_value \<Rightarrow> mock_store \<Rightarrow> bool \<times> mock_store" where
  "mock_put_if_not_exists key v s =
     (if map_of (ms_data s) key \<noteq> None then (False, s) else (True, mock_put key v s))"

definition mock_replace ::
    "string \<Rightarrow> kv_value \<Rightarrow> kv_value \<Rightarrow> mock_store \<Rightarrow> bool \<times> mock_store" where
  "mock_replace key old new s =
     (if map_of (ms_data s) key \<noteq> Some old then (False, s) else (True, mock_put key new s))"

definition mock_get_prefix :: "string \<Rightarrow> mock_store \<Rightarrow> (kv_value \<times> string) list" where
  "mock_get_prefix pre s =
     map (\<lambda>(k, v). (encode_value v, k))
       (sort_key fst (filter (\<lambda>(k, v). prefix pre k) (ms_data s)))"

definition mock_watch :: "string \<Rightarrow> nat \<Rightarrow> mock_store \<Rightarrow> mock_store" where
  "mock_watch key clnt s =
     (let en = \<lparr>nt_client = clnt, nt_queue = []\<rparr>
      in s\<lparr>ms_notifiers := AList.update key
             (case map_of (ms_notifiers s) key of None \<Rightarrow> [en] | Some ens \<Rightarrow> ens @ [en])
             (ms_notifiers s)\<rparr>)"

definition mock_close :: "nat \<Rightarrow> mock_store \<Rightarrow> mock_store" where
  "mock_close clnt s =
     s\<lparr>ms_notifiers :=
         map (\<lambda>(k, ens). (k, filter (\<lambda>en. nt_client en = clnt) ens)) (ms_notifiers s)\<rparr>"

text \<open>\<open>wait_for_event\<close>: the events up to the cancellation that the queue holds.\<close>

fun waiting_events ::
    "(string \<times> kv_value option) option list \<Rightarrow> (string \<times> kv_value option) list" where
  "waiting_events [] = []"
| "waiting_events (None # es) = []"
| "waiting_events (Some e # es) = e # waiting_events es"

lemma notify_if_need_data [simp]: "ms_data (notify_if_need key s) = ms_data s"
  by (simp add: notify_if_need_def split: option.split)

lemma mock_data [simp]:
  "ms_data (mock_put key v s) = AList.update key v (ms_data s)"
  "ms_data (mock_delete key s) = AList.delete key (ms_data s)"
  by (simp_all add: mock_put_def mock_delete_def)

lemma mock_delete_prefix_data:
  "map_of (ms_data (mock_delete_prefix pre s)) =
     (\<lambda>k. if prefix pre k then None else map_of (ms_data s) k)"
proof -
  have f: "map_of (ms_data (fold mock_delete ks s)) k =
      (if k \<in> set ks then None else map_of (ms_data s) k)" for ks k s
    by (induction ks arbitrary: s) (auto simp: delete_conv)
  show ?thesis
  proof
    fix k
    show "map_of (ms_data (mock_delete_prefix pre s)) k =
        (if prefix pre k then None else map_of (ms_data s) k)"
      using map_of_eq_None_iff [of "ms_data s" k] by (auto simp: mock_delete_prefix_def f)
  qed
qed

section \<open>The etcd client on the mock store\<close>

text \<open>\<open>base\<close> is the client's \<open>_base_dir\<close>, \<open>'/'\<close> followed by the normalised directory.\<close>

definition etcd_get :: "string \<Rightarrow> string \<Rightarrow> mock_store \<Rightarrow> kv_value option result" where
  "etcd_get base key s = bind_result (generate_path base key) (\<lambda>p. Inr (mock_get p s))"

definition etcd_set :: "string \<Rightarrow> string \<Rightarrow> kv_value \<Rightarrow> mock_store \<Rightarrow> mock_store result" where
  "etcd_set base key v s = bind_result (generate_path base key) (\<lambda>p. Inr (mock_put p v s))"

definition etcd_delete :: "string \<Rightarrow> string \<Rightarrow> mock_store \<Rightarrow> mock_store result" where
  "etcd_delete base key s = bind_result (generate_path base key) (\<lambda>p. Inr (mock_delete p s))"

definition etcd_delete_prefix :: "string \<Rightarrow> string \<Rightarrow> mock_store \<Rightarrow> mock_store result" where
  "etcd_delete_prefix base key s =
     bind_result (generate_path base key) (\<lambda>p. Inr (mock_delete_prefix p s))"

definition etcd_cas ::
    "string \<Rightarrow> string \<Rightarrow> kv_value option \<Rightarrow> kv_value \<Rightarrow> mock_store \<Rightarrow> (bool \<times> mock_store) result" where
  "etcd_cas base key old new s =
     bind_result (generate_path base key) (\<lambda>p.
       Inr (case old of None \<Rightarrow> mock_put_if_not_exists p new s
            | Some o1 \<Rightarrow> mock_replace p o1 new s))"

definition etcd_get_prefix_kvs ::
    "string \<Rightarrow> string \<Rightarrow> bool \<Rightarrow> mock_store \<Rightarrow> (string \<times> kv_value) list result" where
  "etcd_get_prefix_kvs base pre ignore_prefix s =
     bind_result (generate_path base pre) (\<lambda>path.
       traverse (\<lambda>(d, k). bind_result (normalize_output_key k base) (\<lambda>nk. Inr (nk, d)))
         (filter (\<lambda>(d, k). \<not> (ignore_prefix \<and> k = path)) (mock_get_prefix path s)))"

text \<open>\<open>_normalize_addr\<close>\<close>

definition normalize_one_addr :: "string \<Rightarrow> (string \<times> int) result" where
  "normalize_one_addr raw =
     (case split_on CHR '':'' raw of
        [host, port_str] \<Rightarrow>
          (case py_int port_str of
             Inl e \<Rightarrow> Inl ValueError
           | Inr port \<Rightarrow> if port < 0 \<or> 65535 < port then Inl ValueError else Inr (host, port))
      | _ \<Rightarrow> Inl ValueError)"

definition normalize_addr :: "string \<Rightarrow> (string \<times> int) list result" where
  "normalize_addr addrs = traverse normalize_one_addr (split_on CHR '','' addrs)"

text \<open>
  \<open>closing\<close>: a client from the pool or a fresh one, used for one call, then put back,
  closed when the pool is being destroyed, or closed when the call raised. \<open>connect\<close> is
  what creating a client gives; on a failure the code calls \<open>close\<close> on \<open>None\<close>.
\<close>

record 'c client_pool =
  cp_free :: "(string \<times> 'c list) list"
  cp_destroyed :: bool
  cp_closed :: "'c list"

definition pool_take :: "string \<Rightarrow> 'c client_pool \<Rightarrow> 'c option \<times> 'c client_pool" where
  "pool_take name cp =
     (case map_of (cp_free cp) name of
        Some (c # cs) \<Rightarrow> (Some c, cp\<lparr>cp_free := AList.update name cs (cp_free cp)\<rparr>)
      | _ \<Rightarrow> (None, cp))"

definition pool_return :: "string \<Rightarrow> 'c \<Rightarrow> 'c client_pool \<Rightarrow> 'c client_pool" where
  "pool_return name c cp =
     (if cp_destroyed cp then cp\<lparr>cp_closed := cp_closed cp @ [c]\<rparr>
      else cp\<lparr>cp_free := AList.update name
             (case map_of (cp_free cp) name of None \<Rightarrow> [c] | Some cs \<Rightarrow> cs @ [c]) (cp_free cp)\<rparr>)"

definition closing ::
    "string \<Rightarrow> 'c result \<Rightarrow> ('c \<Rightarrow> 'a result) \<Rightarrow> 'c client_pool \<Rightarrow> 'a result \<times> 'c client_pool" where
  "closing name connect body cp =
     (case pool_take name cp of (co, cp1) \<Rightarrow>
        (case (case co of Some c \<Rightarrow> Inr c | None \<Rightarrow> connect) of
           Inl e \<Rightarrow> (Inl AttributeError, cp1)
         | Inr c \<Rightarrow>
             (case body c of
                Inl e \<Rightarrow> (Inl e, cp1\<lparr>cp_closed := cp_closed cp1 @ [c]\<rparr>)
              | Inr a \<Rightarrow> (Inr a, pool_return name c cp1))))"

definition destroy_client_pool :: "'c client_pool \<Rightarrow> 'c client_pool" where
  "destroy_client_pool cp =
     cp\<lparr>cp_destroyed := True, cp_closed := cp_closed cp @ concat (map snd (cp_free cp))\<rparr>"

section \<open>The MySQL client\<close>

text \<open>
  The table has one row per key (\<open>unique=True\<close>) and a text column, so a row's value is a
  \<open>str\<close>. The prefix operations use \<open>LIKE\<close>, whose pattern characters are a percent sign (any
  string), an underscore (any character) and a backslash (the next one literally). Every
  exception inside a session is caught, that of a key without a name too: reading gives
  \<open>None\<close> then and the other operations leave the table alone. What a write returns
  (\<open>True\<close>, or \<open>False\<close> on a failure) is ignored by all callers and left out.
\<close>

fun like_match :: "string \<Rightarrow> string \<Rightarrow> bool" where
  "like_match [] s = (s = [])"
| "like_match (c # ps) s =
     (if c = CHR ''%''
      then like_match ps s \<or> (case s of [] \<Rightarrow> False | _ # t \<Rightarrow> like_match (c # ps) t)
      else if c = CHR ''_'' then (case s of [] \<Rightarrow> False | _ # t \<Rightarrow> like_match ps t)
      else if c = CHR 0x5C \<and> ps \<noteq> []
      then (case s of [] \<Rightarrow> False | d # t \<Rightarrow> d = hd ps \<and> like_match (tl ps) t)
      else (case s of [] \<Rightarrow> False | d # t \<Rightarrow> d = c \<and> like_match ps t))"

type_synonym table = "(string \<times> string) list"

definition mysql_get :: "string \<Rightarrow> string \<Rightarrow> table \<Rightarrow> kv_value option result" where
  "mysql_get base key t =
     (case generate_path base key of
        Inl e \<Rightarrow> Inr None
      | Inr p \<Rightarrow> Inr (map_option VBytes (map_of t p)))"

definition mysql_set :: "string \<Rightarrow> string \<Rightarrow> kv_value \<Rightarrow> table \<Rightarrow> table result" where
  "mysql_set base key v t =
     (case generate_path base key of
        Inl e \<Rightarrow> Inr t
      | Inr p \<Rightarrow> Inr (AList.update p (content v) t))"

definition mysql_delete :: "string \<Rightarrow> string \<Rightarrow> table \<Rightarrow> table result" where
  "mysql_delete base key t =
     (case generate_path base key of Inl e \<Rightarrow> Inr t | Inr p \<Rightarrow> Inr (AList.delete p t))"

definition mysql_delete_prefix :: "string \<Rightarrow> string \<Rightarrow> table \<Rightarrow> table result" where
  "mysql_delete_prefix base key t =
     (case generate_path base key of
        Inl e \<Rightarrow> Inr t
      | Inr p \<Rightarrow> Inr (filter (\<lambda>(k, v). \<not> like_match (p @ ''%'') k) t))"

text \<open>
  \<open>cas\<close>: inserting an existing key violates the constraint and a missing row raises
  \<open>NoResultFound\<close>; both are caught and give \<open>False\<close>. The comparison is of the row's
  \<open>str\<close> with the caller's value, so \<open>bytes\<close> never match.
\<close>

definition mysql_cas ::
    "string \<Rightarrow> string \<Rightarrow> kv_value option \<Rightarrow> kv_value \<Rightarrow> table \<Rightarrow> (bool \<times> table) result" where
  "mysql_cas base key old new t =
     (case generate_path base key of
        Inl e \<Rightarrow> Inr (False, t)
      | Inr p \<Rightarrow>
          Inr (case old of
                 None \<Rightarrow>
                   if map_of t p = None then (True, AList.update p (content new) t) else (False, t)
               | Some o1 \<Rightarrow>
                   (case map_of t p of
                      None \<Rightarrow> (False, t)
                    | Some v \<Rightarrow> if VStr v \<noteq> o1 then (False, t)
                                else (True, AList.update p (content new) t))))"

definition mysql_get_prefix_kvs ::
    "string \<Rightarrow> string \<Rightarrow> bool \<Rightarrow> table \<Rightarrow> (string \<times> kv_value) list result" where
  "mysql_get_prefix_kvs base pre ignor_prefix t =
     bind_result (generate_path base pre) (\<lambda>path.
       traverse (\<lambda>(k, v). bind_result (normalize_output_key k base) (\<lambda>nk. Inr (nk, VBytes v)))
         (filter (\<lambda>(k, v). \<not> (ignor_prefix \<and> k = path))
           (sort_key fst (filter (\<lambda>(k, v). like_match (path @ ''%'') k) t))))"

section \<open>The file system client\<close>

text \<open>
  A key is a directory with a file \<open>meta\<close> in it. The file system is an association list
  from file paths to contents; creating a directory is taken to succeed.
\<close>

type_synonym files = "(string \<times> string) list"

definition dfs_file :: "string \<Rightarrow> string \<Rightarrow> string result" where
  "dfs_file base key =
     bind_result (normalize_input_key key) (\<lambda>k. Inr (join_with ''/'' [base, k, ''meta'']))"

definition dfs_get :: "string \<Rightarrow> string \<Rightarrow> files \<Rightarrow> kv_value option result" where
  "dfs_get base key fs = bind_result (dfs_file base key) (\<lambda>p. Inr (map_option VBytes (map_of fs p)))"

definition dfs_set :: "string \<Rightarrow> string \<Rightarrow> kv_value \<Rightarrow> files \<Rightarrow> files result" where
  "dfs_set base key v fs =
     bind_result (dfs_file base key) (\<lambda>p. Inr (AList.update p (content v) fs))"

definition dfs_delete :: "string \<Rightarrow> string \<Rightarrow> files \<Rightarrow> (bool \<times> files) result" where
  "dfs_delete base key fs =
     bind_result (dfs_file base key) (\<lambda>p.
       Inr (if map_of fs p = None then (False, fs) else (True, AList.delete p fs)))"

definition dfs_delete_prefix :: "string \<Rightarrow> string \<Rightarrow> files \<Rightarrow> (bool \<times> files) result" where
  "dfs_delete_prefix base key fs =
     (case generate_path base key of
        Inl e \<Rightarrow> Inr (False, fs)
      | Inr dir \<Rightarrow>
          Inr (if \<exists>(p, c) \<in> set fs. prefix (dir @ ''/'') p
               then (True, filter (\<lambda>(p, c). \<not> prefix (dir @ ''/'') p) fs) else (False, fs)))"

definition dfs_cas ::
    "string \<Rightarrow> string \<Rightarrow> kv_value option \<Rightarrow> kv_value \<Rightarrow> files \<Rightarrow> (bool \<times> files) result" where
  "dfs_cas base key old new fs =
     bind_result (dfs_get base key fs) (\<lambda>org.
       if map_option content org \<noteq> map_option content old then Inr (False, fs)
       else bind_result (dfs_set base key new fs) (\<lambda>fs1. Inr (True, fs1)))"

section \<open>The contract\<close>

text \<open>
  \<open>norm\<close> tells which keys are the same to a store. Reading gives \<open>bytes\<close>; a successful
  compare-and-swap means that the key held the old value's content and holds the new one
  now, a failed one changes nothing.
\<close>

locale kv_backend =
  fixes get :: "string \<Rightarrow> 's \<Rightarrow> kv_value option result"
    and put :: "string \<Rightarrow> kv_value \<Rightarrow> 's \<Rightarrow> 's result"
    and cas :: "string \<Rightarrow> kv_value option \<Rightarrow> kv_value \<Rightarrow> 's \<Rightarrow> (bool \<times> 's) result"
    and norm :: "string \<Rightarrow> string result"
  assumes get_bad: "norm k = Inl e \<Longrightarrow> get k s = Inl e \<or> get k s = Inr None"
    and put_bad: "norm k = Inl e \<Longrightarrow> put k v s = Inl e \<or> put k v s = Inr s"
    and cas_bad: "norm k = Inl e \<Longrightarrow> cas k old v s = Inl e \<or> cas k old v s = Inr (False, s)"
    and get_ok: "norm k = Inr n \<Longrightarrow> \<exists>r. get k s = Inr r"
    and put_ok: "norm k = Inr n \<Longrightarrow> \<exists>s'. put k v s = Inr s'"
    and cas_ok: "norm k = Inr n \<Longrightarrow> \<exists>b s'. cas k old v s = Inr (b, s')"
    and get_put: "norm k = Inr n \<Longrightarrow> put k v s = Inr s' \<Longrightarrow>
      get k' s' = (if norm k' = norm k then Inr (Some (encode_value v)) else get k' s)"
    and cas_true: "cas k old v s = Inr (True, s') \<Longrightarrow>
      get k s = Inr (map_option encode_value old) \<and> put k v s = Inr s'"
    and cas_false: "cas k old v s = Inr (False, s') \<Longrightarrow> s' = s"
    and cas_absent: "norm k = Inr n \<Longrightarrow> get k s = Inr None \<Longrightarrow> \<exists>s'. cas k None v s = Inr (True, s')"
begin

text \<open>Create-if-absent has exactly one winner, whatever happens in between.\<close>

lemma cas_create_once:
  assumes "cas k None v s = Inr (True, s1)" "norm k' = norm k"
  shows "cas k' None w s1 = Inr (False, s1)"
proof -
  obtain n where n: "norm k = Inr n"
    using cas_bad [of k _ None v s] assms(1) by (cases "norm k") auto
  have g: "get k' s1 = Inr (Some (encode_value v))"
    using get_put [OF n, of v s s1 k'] cas_true [OF assms(1)] assms(2) by simp
  have "norm k' = Inr n" using n assms(2) by simp
  then obtain b s2 where c: "cas k' None w s1 = Inr (b, s2)" using cas_ok by blast
  then show ?thesis using cas_true [of k' None w s1 s2] cas_false [of k' None w s1 s2] g
    by (cases b) auto
qed

lemma last_write_wins:
  assumes "norm k = Inr n" "put k v s = Inr s1" "put k w s1 = Inr s2"
  shows "get k s2 = Inr (Some (encode_value w))"
  using get_put [OF assms(1,3), of k] by simp

lemma put_frame:
  assumes "norm k = Inr n" "put k v s = Inr s1" "norm k' \<noteq> norm k"
  shows "get k' s1 = get k' s"
  using get_put [OF assms(1,2), of k'] assms(3) by simp

end

lemma generate_path_eq_iff:
  "generate_path base k = Inr p \<Longrightarrow> generate_path base k' = Inr p' \<Longrightarrow>
     p' = p \<longleftrightarrow> normalize_input_key k' = normalize_input_key k"
  by (auto simp: generate_path_Inr)

lemma generate_path_Inl [simp]:
  "normalize_input_key k = Inl e \<Longrightarrow> generate_path base k = Inl e"
  by (simp add: generate_path_def)

lemma generate_path_ok [simp]:
  "normalize_input_key k = Inr n \<Longrightarrow> generate_path base k = Inr (base @ ''/'' @ n)"
  by (simp add: generate_path_def)

interpretation etcd: kv_backend "etcd_get base" "etcd_set base" "etcd_cas base" normalize_input_key
  for base
proof unfold_locales
  fix k n v k' and s s' :: mock_store
  assume "normalize_input_key k = Inr n" "etcd_set base k v s = Inr s'"
  then show "etcd_get base k' s' =
      (if normalize_input_key k' = normalize_input_key k then Inr (Some (encode_value v))
       else etcd_get base k' s)"
    by (cases "normalize_input_key k'")
      (auto simp: etcd_get_def etcd_set_def mock_get_def update_conv)
qed (auto simp: etcd_get_def etcd_set_def etcd_cas_def mock_put_if_not_exists_def mock_replace_def
    mock_get_def bind_result_Inr_iff split: option.splits if_splits)

interpretation mysql: kv_backend "mysql_get base" "mysql_set base" "mysql_cas base"
  normalize_input_key for base
proof unfold_locales
  fix k n v k' and s s' :: table
  assume "normalize_input_key k = Inr n" "mysql_set base k v s = Inr s'"
  then show "mysql_get base k' s' =
      (if normalize_input_key k' = normalize_input_key k then Inr (Some (encode_value v))
       else mysql_get base k' s)"
    by (cases "normalize_input_key k'")
      (auto simp: mysql_get_def mysql_set_def update_conv encode_value_def)
qed (auto simp: mysql_get_def mysql_set_def mysql_cas_def encode_value_def
    split: sum.splits option.splits if_splits)

lemma dfs_file_Inl [simp]: "normalize_input_key k = Inl e \<Longrightarrow> dfs_file base k = Inl e"
  by (simp add: dfs_file_def)

lemma dfs_file_ok [simp]:
  "normalize_input_key k = Inr n \<Longrightarrow> dfs_file base k = Inr (base @ ''/'' @ n @ ''/meta'')"
  by (simp add: dfs_file_def)

interpretation dfs: kv_backend "dfs_get base" "dfs_set base" "dfs_cas base" normalize_input_key
  for base
proof unfold_locales
  fix k n v k' and s s' :: files
  assume "normalize_input_key k = Inr n" "dfs_set base k v s = Inr s'"
  then show "dfs_get base k' s' =
      (if normalize_input_key k' = normalize_input_key k then Inr (Some (encode_value v))
       else dfs_get base k' s)"
    by (cases "normalize_input_key k'")
      (auto simp: dfs_get_def dfs_set_def update_conv encode_value_def)
next
  fix k old v and s s' :: files
  assume c: "dfs_cas base k old v s = Inr (True, s')"
  then obtain org where org: "dfs_get base k s = Inr org" by (auto simp: dfs_cas_def bind_result_Inr_iff)
  then have "org = map_option encode_value old"
    using c by (cases org; cases old)
      (auto simp: dfs_cas_def dfs_get_def bind_result_Inr_iff encode_value_def split: if_splits)
  then show "dfs_get base k s = Inr (map_option encode_value old) \<and> dfs_set base k v s = Inr s'"
    using c org by (simp add: dfs_cas_def bind_result_Inr_iff split: if_splits)
next
  fix k n old v and s :: files
  assume "normalize_input_key k = Inr n"
  then show "\<exists>b s'. dfs_cas base k old v s = Inr (b, s')"
    by (auto simp: dfs_cas_def dfs_get_def dfs_set_def
        intro: exI [of _ True] exI [of _ False])
next
  fix k old v and s s' :: files
  assume "dfs_cas base k old v s = Inr (False, s')"
  then show "s' = s" by (auto simp: dfs_cas_def bind_result_Inr_iff split: if_splits)
next
  fix k n v and s :: files
  assume "normalize_input_key k = Inr n" and g: "dfs_get base k s = Inr None"
  then show "\<exists>s'. dfs_cas base k None v s = Inr (True, s')"
    using g by (auto simp: dfs_cas_def dfs_set_def)
qed (simp_all add: dfs_get_def dfs_set_def dfs_cas_def)

section \<open>Prefixes\<close>

definition plain_char :: "char \<Rightarrow> bool" where
  "plain_char c \<longleftrightarrow> c \<noteq> CHR ''%'' \<and> c \<noteq> CHR ''_'' \<and> c \<noteq> CHR 0x5C"

lemma like_any: "like_match ''%'' s"
  by (induction s) auto

lemma like_plain: "plain_char c \<Longrightarrow> like_match (c # ps) s \<longleftrightarrow> (\<exists>t. s = c # t \<and> like_match ps t)"
  by (auto simp: plain_char_def split: list.splits)

lemma like_under: "like_match (CHR ''_'' # ps) s \<longleftrightarrow> (\<exists>c t. s = c # t \<and> like_match ps t)"
  by (auto split: list.splits)

text \<open>Without pattern characters \<open>LIKE\<close> is the prefix test; an underscore lets more in.\<close>

lemma like_prefix:
  "\<forall>c \<in> set p. plain_char c \<Longrightarrow> like_match (p @ ''%'') s \<longleftrightarrow> prefix p s"
proof (induction p arbitrary: s)
  case Nil
  show ?case using like_any by simp
next
  case (Cons c p)
  then show ?case by (cases s) (auto simp: like_plain simp del: like_match.simps)
qed

lemma like_superset:
  "\<forall>c \<in> set p. c = CHR ''_'' \<or> plain_char c \<Longrightarrow> prefix p s \<Longrightarrow> like_match (p @ ''%'') s"
proof (induction p arbitrary: s)
  case Nil
  show ?case using like_any by simp
next
  case (Cons c p)
  obtain t where t: "s = c # t" "prefix p t" using Cons.prems(2) by (cases s) auto
  have "like_match (p @ ''%'') t" using Cons.IH [OF _ t(2)] Cons.prems(1) by simp
  moreover have "c = CHR ''_'' \<or> plain_char c" using Cons.prems(1) by simp
  ultimately show ?case unfolding t(1) append_Cons using like_plain like_under by blast
qed

lemma like_wildcard:
  assumes "\<forall>c \<in> set a. plain_char c" "\<forall>c \<in> set b. c = CHR ''_'' \<or> plain_char c"
  shows "like_match ((a @ CHR ''_'' # b) @ ''%'') (a @ d # b)"
  using assms(1)
proof (induction a)
  case Nil
  show ?case using like_superset [OF assms(2), of b]
    by (simp add: like_under del: like_match.simps)
next
  case (Cons c a)
  then show ?case by (simp add: like_plain del: like_match.simps)
qed

lemma map_of_filter_key: "map_of (filter (\<lambda>(k, v). Q k) t) k = (if Q k then map_of t k else None)"
  by (induction t) auto

lemma prefix_base_iff: "prefix (base @ x) (base @ y) \<longleftrightarrow> prefix x y"
  by simp

lemma meta_prefix_iff:
  "prefix (n @ ''/'') (m @ ''/meta'') \<longleftrightarrow> m = n \<or> prefix (n @ ''/'') m"
proof
  assume "prefix (n @ ''/'') (m @ ''/meta'')"
  then consider "prefix (n @ ''/'') m" | us where "n @ ''/'' = m @ us" "prefix us ''/meta''"
    by (auto simp only: prefix_append)
  then show "m = n \<or> prefix (n @ ''/'') m"
  proof cases
    case (2 us)
    show ?thesis
    proof (cases us rule: rev_cases)
      case (snoc vs x)
      have "n @ [CHR ''/''] = (m @ vs) @ [x]" using 2(1) snoc by simp
      then have n: "n = m @ vs" "x = CHR ''/''" unfolding append1_eq_conv by blast+
      then have "vs = []" using 2(2) snoc by (cases vs) (auto simp: prefix_Cons)
      then show ?thesis using n(1) by simp
    qed (use 2 in simp)
  qed simp
qed auto

section \<open>Properties\<close>


text \<open>
  A value that was stored as a string and read back cannot be used as the old value of
  a compare-and-swap: reading gives \<open>bytes\<close>, the store compares them with its string, and
  the swap fails on the mock store and on MySQL, while the file system client, which
  decodes both sides, performs it.
\<close>

theorem fetched_value_cas:
  assumes "etcd_set base k (VStr v) s = Inr s1" "etcd_get base k s1 = Inr old"
    and "mysql_set base k (VStr v) t = Inr t1" "mysql_get base k t1 = Inr old'"
    and "dfs_set base k (VStr v) fs = Inr fs1" "dfs_get base k fs1 = Inr old''"
  shows "etcd_cas base k old new s1 = Inr (False, s1) \<and>
         mysql_cas base k old' new t1 = Inr (False, t1) \<and>
         (\<exists>fs2. dfs_cas base k old'' new fs1 = Inr (True, fs2))"
proof -
  obtain n where n: "normalize_input_key k = Inr n"
    using assms(1) by (cases "normalize_input_key k") (auto simp: etcd_set_def)
  have "old = Some (VBytes v)" "old' = Some (VBytes v)" "old'' = Some (VBytes v)"
    using etcd.get_put [OF n assms(1), of k] mysql.get_put [OF n assms(3), of k]
      dfs.get_put [OF n assms(5), of k] assms(2,4,6)
    by (simp_all add: encode_value_def)
  then show ?thesis using assms n
    by (auto simp: etcd_cas_def etcd_set_def mysql_cas_def mysql_set_def mock_replace_def
        update_conv dfs_cas_def dfs_set_def)
qed

text \<open>
  What \<open>delete_prefix\<close> removes. In the etcd client every key whose normalised name
  starts with the given one, in the middle of a path component too; in the file system
  client the key itself and the keys below it in the path hierarchy. All other keys
  keep their values.
\<close>

theorem delete_prefix_scope:
  assumes "normalize_input_key k = Inr n" "normalize_input_key k' = Inr m"
    and "etcd_delete_prefix base k s = Inr s1" "dfs_delete_prefix base k fs = Inr (b, fs1)"
  shows "etcd_get base k' s1 = (if prefix n m then Inr None else etcd_get base k' s) \<and>
         dfs_get base k' fs1 =
           (if m = n \<or> prefix (n @ ''/'') m then Inr None else dfs_get base k' fs)"
proof -
  have "etcd_get base k' s1 = (if prefix n m then Inr None else etcd_get base k' s)"
    using assms(1-3) by (auto simp: etcd_delete_prefix_def etcd_get_def mock_get_def mock_delete_prefix_data)
  moreover have gone: "map_of fs1 p = (if prefix ((base @ ''/'' @ n) @ ''/'') p then None else map_of fs p)" for p
    using assms(1,4) map_of_filter_key [of "\<lambda>p. \<not> prefix ((base @ ''/'' @ n) @ ''/'') p" fs p]
    by (auto simp: dfs_delete_prefix_def map_of_eq_None_iff split: if_splits)
  have "prefix ((base @ ''/'' @ n) @ ''/'') (base @ ''/'' @ m @ ''/meta'') \<longleftrightarrow>
      prefix (n @ ''/'') (m @ ''/meta'')" by simp
  then have "dfs_get base k' fs1 =
      (if m = n \<or> prefix (n @ ''/'') m then Inr None else dfs_get base k' fs)"
    using assms(2) gone [of "base @ ''/'' @ m @ ''/meta''"] meta_prefix_iff [of n m]
    by (auto simp: dfs_get_def)
  ultimately show ?thesis by blast
qed

text \<open>
  On MySQL the prefix is a \<open>LIKE\<close> pattern in which an underscore, which the keys of the
  data join contain, stands for any character: deleting a prefix also deletes every key
  that differs from it in the place of an underscore.
\<close>

theorem mysql_delete_prefix_wildcard:
  assumes "normalize_input_key k = Inr (a @ CHR ''_'' # b)"
    and "normalize_input_key k' = Inr (a @ d # b)"
    and "\<forall>c \<in> set (base @ a). plain_char c" "\<forall>c \<in> set b. c = CHR ''_'' \<or> plain_char c"
    and "mysql_delete_prefix base k t = Inr t1"
  shows "mysql_get base k' t1 = Inr None"
proof -
  have "like_match (((base @ ''/'' @ a) @ CHR ''_'' # b) @ ''%'') ((base @ ''/'' @ a) @ d # b)"
    by (rule like_wildcard) (use assms(3,4) in \<open>auto simp: plain_char_def\<close>)
  then have "map_of t1 (base @ ''/'' @ a @ d # b) = None"
    using assms(1,5)
      map_of_filter_key [of "\<lambda>p. \<not> like_match (((base @ ''/'' @ a) @ CHR ''_'' # b) @ ''%'') p" t
        "base @ ''/'' @ a @ d # b"]
    by (auto simp: mysql_delete_prefix_def simp del: like_match.simps)
  then show ?thesis using assms(2) by (simp add: mysql_get_def)
qed

section \<open>Other behaviours\<close>

text \<open>Closing a client drops the watches of every other client and keeps its own.\<close>

lemma close_keeps_own_watches:
  assumes "map_of (ms_notifiers s) key = Some ens"
  shows "map_of (ms_notifiers (mock_close c s)) key =
         Some (filter (\<lambda>en. nt_client en = c) ens)"
proof -
  have "map_of (map (\<lambda>(k, es). (k, filter (\<lambda>en. nt_client en = c) es)) xs) key =
      map_option (filter (\<lambda>en. nt_client en = c)) (map_of xs key)"
    for xs :: "(string \<times> notifier list) list"
    by (induction xs) auto
  then show ?thesis using assms by (simp add: mock_close_def)
qed

text \<open>A watcher sees every later put of its key, in order.\<close>

lemma watch_sees_put:
  assumes "map_of (ms_notifiers s) key = Some ens" "en \<in> set ens"
  shows "\<exists>ens'. map_of (ms_notifiers (mock_put key v s)) key = Some ens' \<and>
           notify key (Some v) en \<in> set ens'"
  using assms by (simp add: mock_put_def notify_if_need_def update_conv)

text \<open>A failed connection is reported as an \<open>AttributeError\<close>, whatever went wrong.\<close>

lemma closing_masks_connect_error:
  assumes "map_of (cp_free cp) name = None"
  shows "fst (closing name (Inl e) body cp) = Inl AttributeError"
  using assms by (simp add: closing_def pool_take_def)

text \<open>No client is in the pool twice or leaks: a call puts back exactly what it took.\<close>

lemma closing_conserves:
  assumes "closing name connect body cp = (Inr a, cp')" "\<not> cp_destroyed cp"
    and "map_of (cp_free cp) name = Some (c # cs)"
  shows "map_of (cp_free cp') name = Some (cs @ [c])"
proof -
  have "pool_take name cp = (Some c, cp\<lparr>cp_free := AList.update name cs (cp_free cp)\<rparr>)"
    using assms(3) by (simp add: pool_take_def)
  then show ?thesis using assms(1,2)
    by (auto simp: closing_def pool_return_def update_conv split: sum.splits)
qed

text \<open>Listing a prefix gives the matching keys in ascending order.\<close>

lemma get_prefix_sorted: "sorted (map snd (mock_get_prefix pre s))"
proof -
  have "map snd (mock_get_prefix pre s) =
      map fst (sort_key fst (filter (\<lambda>(k, v). prefix pre k) (ms_data s)))"
    by (simp add: mock_get_prefix_def case_prod_beta comp_def)
  then show ?thesis by simp
qed

lemma get_prefix_complete:
  assumes "distinct (map fst (ms_data s))"
  shows "(v, k) \<in> set (mock_get_prefix pre s) \<longleftrightarrow>
         prefix pre k \<and> (\<exists>w. map_of (ms_data s) k = Some w \<and> v = encode_value w)"
  using assms by (auto simp: mock_get_prefix_def image_iff)

subsection \<open>Witnesses\<close>


theorem fetched_value_cas_witness:
  "etcd_cas ''/b'' ''k'' (Some (VBytes ''v'')) (VStr ''w'')
     \<lparr>ms_data = [(''/b/k'', VStr ''v'')], ms_notifiers = []\<rparr> =
   Inr (False, \<lparr>ms_data = [(''/b/k'', VStr ''v'')], ms_notifiers = []\<rparr>)"
proof -
  let ?s = "\<lparr>ms_data = [(''/b/k'', VStr ''v'')], ms_notifiers = []\<rparr>"
  note defs = etcd_set_def etcd_get_def generate_path_def normalize_input_key_def skip_char_def
    mock_put_def mock_get_def notify_if_need_def mock_init_def encode_value_def
    mysql_set_def mysql_get_def dfs_set_def dfs_get_def dfs_file_def
  have e: "etcd_set ''/b'' ''k'' (VStr ''v'') mock_init = Inr ?s"
      "etcd_get ''/b'' ''k'' ?s = Inr (Some (VBytes ''v''))"
    by (simp_all add: defs)
  have m: "mysql_set ''/b'' ''k'' (VStr ''v'') [] = Inr [(''/b/k'', ''v'')]"
      "mysql_get ''/b'' ''k'' [(''/b/k'', ''v'')] = Inr (Some (VBytes ''v''))"
    by (simp_all add: defs)
  have d: "dfs_set ''/b'' ''k'' (VStr ''v'') [] = Inr [(''/b/k/meta'', ''v'')]"
      "dfs_get ''/b'' ''k'' [(''/b/k/meta'', ''v'')] = Inr (Some (VBytes ''v''))"
    by (simp_all add: defs)
  show ?thesis using fetched_value_cas [OF e m d, of "VStr ''w''"] by blast
qed

theorem delete_prefix_scope_witness:
  "\<exists>s1. etcd_delete_prefix ''/b'' ''s/a''
      \<lparr>ms_data = [(''/b/s/a'', VStr ''1''), (''/b/s/ab'', VStr ''2'')], ms_notifiers = []\<rparr> = Inr s1 \<and>
     etcd_get ''/b'' ''s/ab'' s1 = Inr None"
proof -
  let ?s = "\<lparr>ms_data = [(''/b/s/a'', VStr ''1''), (''/b/s/ab'', VStr ''2'')], ms_notifiers = []\<rparr>"
  have n: "normalize_input_key ''s/a'' = Inr ''s/a''" "normalize_input_key ''s/ab'' = Inr ''s/ab''"
    by (simp_all add: normalize_input_key_def skip_char_def)
  have e: "etcd_delete_prefix ''/b'' ''s/a'' ?s = Inr (mock_delete_prefix ''/b/s/a'' ?s)"
    by (simp add: etcd_delete_prefix_def generate_path_def n)
  have d: "dfs_delete_prefix ''/b'' ''s/a'' [] = Inr (False, [])"
    by (simp add: dfs_delete_prefix_def generate_path_def n)
  show ?thesis using delete_prefix_scope [OF n e d] e by simp
qed

theorem mysql_delete_prefix_wildcard_witness:
  "\<exists>t1. mysql_delete_prefix ''/b'' ''a_1'' [(''/b/ax1'', ''v'')] = Inr t1 \<and>
     mysql_get ''/b'' ''ax1'' t1 = Inr None"
proof -
  have n: "normalize_input_key ''a_1'' = Inr (''a'' @ CHR ''_'' # ''1'')"
      "normalize_input_key ''ax1'' = Inr (''a'' @ CHR ''x'' # ''1'')"
    by (simp_all add: normalize_input_key_def skip_char_def)
  have p: "\<forall>c \<in> set (''/b'' @ ''a''). plain_char c" "\<forall>c \<in> set ''1''. c = CHR ''_'' \<or> plain_char c"
    by (simp_all add: plain_char_def)
  obtain t1 where t1: "mysql_delete_prefix ''/b'' ''a_1'' [(''/b/ax1'', ''v'')] = Inr t1"
    by (auto simp: mysql_delete_prefix_def generate_path_def n simp del: like_match.simps)
  show ?thesis using mysql_delete_prefix_wildcard [OF n p t1] t1 by blast
qed

end
