(* ===== verification/Data_Join_Common.thy ===== *)
theory Data_Join_Common
  imports Py_String
begin

text \<open>
  The naming scheme of the data join (\<open>data_join/common.py\<close> and the file names of
  \<open>example_id_visitor.py\<close>): block ids, keys of the kv store, names of dumped files, the
  interval syntax of the command line and the byte encoding of integers.
\<close>

section \<open>Block ids\<close>

text \<open>The fields of the message \<open>DataBlockMeta\<close> that the data join reads and writes.\<close>

record joiner_stats_info =
  si_stats_cum_join_num :: int
  si_actual_cum_join_num :: int
  si_leader_stats_index :: int
  si_follower_stats_index :: int

record data_block_meta =
  bm_block_id :: string
  bm_partition_id :: int
  bm_data_block_index :: int
  bm_start_time :: int
  bm_end_time :: int
  bm_example_ids :: "string list"
  bm_leader_start_index :: int
  bm_leader_end_index :: int
  bm_follower_restart_index :: int
  bm_indices :: "int list"
  bm_joined :: "int list"
  bm_joiner_stats_info :: joiner_stats_info

definition partition_repr :: "int \<Rightarrow> string" where
  "partition_repr partition_id = ''partition_'' @ fmt_int 4 partition_id"

definition encode_data_block_meta_fname :: "string \<Rightarrow> int \<Rightarrow> int \<Rightarrow> string" where
  "encode_data_block_meta_fname name partition_id index =
     name @ ''.'' @ partition_repr partition_id @ ''.'' @ fmt_int 8 index @ ''.meta''"

definition encode_block_id :: "string \<Rightarrow> data_block_meta \<Rightarrow> string" where
  "encode_block_id name m =
     name @ ''.'' @ partition_repr (bm_partition_id m) @ ''.'' @ fmt_int 8 (bm_data_block_index m) @
     ''.'' @ int_str (bm_start_time m) @ ''-'' @ int_str (bm_end_time m)"

definition encode_data_block_fname :: "string \<Rightarrow> data_block_meta \<Rightarrow> string" where
  "encode_data_block_fname name m = encode_block_id name m @ ''.data''"

definition decode_block_id :: "string \<Rightarrow> (string \<times> int \<times> int \<times> int \<times> int) result" where
  "decode_block_id block_id =
     (case split_on CHR ''.'' block_id of
        [s0, s1, s2, s3] \<Rightarrow>
          bind_result (py_int (drop (length ''partition_'') s1)) (\<lambda>partition_id.
          bind_result (py_int s2) (\<lambda>data_block_index.
            (case split_on CHR ''-'' s3 of
               [t0, t1] \<Rightarrow>
                 bind_result (py_int t0) (\<lambda>start_time.
                 bind_result (py_int t1) (\<lambda>end_time.
                   Inr (s0, partition_id, data_block_index, start_time, end_time)))
             | _ \<Rightarrow> Inl ValueError)))
      | _ \<Rightarrow> Inl ValueError)"

lemma no_dot [simp]: "CHR ''.'' \<notin> set (fmt_int w i)" "CHR ''.'' \<notin> set (int_str i)"
  by (simp_all add: fmt_int_not_in int_str_not_in)

lemma no_slash [simp]: "CHR ''/'' \<notin> set (fmt_int w i)"
  by (simp add: fmt_int_not_in)

lemma partition_repr_chars [simp]:
  "CHR ''.'' \<notin> set (partition_repr p)" "CHR ''/'' \<notin> set (partition_repr p)"
  by (simp_all add: partition_repr_def)

lemma partition_repr_inj [simp]: "partition_repr p = partition_repr q \<longleftrightarrow> p = q"
  by (simp add: partition_repr_def)

lemma split_on_length: "length (split_on c s) = Suc (count_list s c)"
  by (induction c s rule: split_on.induct) (auto split: list.splits)

lemma count_list_not_in: "c \<notin> set s \<Longrightarrow> count_list s c = 0"
  by (induction s) auto

lemma count_dash_nat: "count_list (nat_str n) CHR ''-'' = 0"
  by (intro count_list_not_in nat_str_not_in) simp

lemma count_dash: "count_list (int_str i) CHR ''-'' = (if i < 0 then 1 else 0)"
  by (simp add: int_str_def count_dash_nat)

lemma count_list_append: "count_list (xs @ ys) c = count_list xs c + count_list ys c"
  by (induction xs) auto

lemma split_length_mismatch:
  "length xs \<noteq> 4 \<Longrightarrow> (case xs of [a, b, c, d] \<Rightarrow> f a b c d | _ \<Rightarrow> r) = r"
  "length xs \<noteq> 2 \<Longrightarrow> (case xs of [a, b] \<Rightarrow> g a b | _ \<Rightarrow> r) = r"
  by (auto split: list.splits)

section \<open>Keys of the kv store\<close>

definition data_source_kvstore_base_dir :: "string \<Rightarrow> string" where
  "data_source_kvstore_base_dir name = path_join ''data_source'' name"

definition partition_manifest_kvstore_key :: "string \<Rightarrow> int \<Rightarrow> string" where
  "partition_manifest_kvstore_key name partition_id =
     path_join (path_join (data_source_kvstore_base_dir name) ''raw_data_dir'')
       (partition_repr partition_id)"

definition raw_data_meta_kvstore_key :: "string \<Rightarrow> int \<Rightarrow> int \<Rightarrow> string" where
  "raw_data_meta_kvstore_key name partition_id process_index =
     path_join (partition_manifest_kvstore_key name partition_id)
       (''raw_data_'' @ fmt_int 8 process_index)"

definition example_id_anchor_kvstore_key :: "string \<Rightarrow> int \<Rightarrow> string" where
  "example_id_anchor_kvstore_key name partition_id =
     path_join (path_join (data_source_kvstore_base_dir name) ''dumped_example_id_anchor'')
       (partition_repr partition_id)"

definition raw_data_pub_kvstore_key :: "string \<Rightarrow> int \<Rightarrow> int \<Rightarrow> string" where
  "raw_data_pub_kvstore_key pub_base_dir partition_id process_index =
     path_join (path_join pub_base_dir (partition_repr partition_id))
       (fmt_int 8 process_index @ ''.pub'')"

definition portal_kvstore_base_dir :: "string \<Rightarrow> string" where
  "portal_kvstore_base_dir name = path_join ''portal'' name"

definition portal_job_kvstore_key :: "string \<Rightarrow> int \<Rightarrow> string" where
  "portal_job_kvstore_key name job_id =
     path_join (path_join (portal_kvstore_base_dir name) ''job_dir'') (fmt_int 8 job_id @ ''.pj'')"

definition portal_job_part_kvstore_key :: "string \<Rightarrow> int \<Rightarrow> int \<Rightarrow> string" where
  "portal_job_part_kvstore_key name job_id partition_id =
     path_join (portal_job_kvstore_key name job_id) (partition_repr partition_id)"

text \<open>
  The keys of one data source: a prefix \<open>ds_dir\<close> that depends on the name alone, the
  partition, and for a raw data file its index behind a slash.
\<close>

definition ds_dir :: "string \<Rightarrow> string" where
  "ds_dir name = path_join (data_source_kvstore_base_dir name) ''raw_data_dir'' @ ''/''"

lemma path_join_nonslash:
  assumes "suffix ''_dir'' a" "b \<noteq> []" "hd b \<noteq> CHR ''/''"
  shows "path_join a b = a @ ''/'' @ b"
  using assms by (intro path_join_plain) (auto simp: suffix_def prefix_def)

lemma manifest_key: "partition_manifest_kvstore_key name p = ds_dir name @ partition_repr p"
proof -
  have "suffix ''_dir'' (path_join d ''raw_data_dir'')" for d
    by (simp add: path_join_def suffix_def)
  then show ?thesis
    by (simp add: partition_manifest_kvstore_key_def ds_dir_def path_join_nonslash partition_repr_def)
qed

lemma fmt_int_nonempty [simp]: "fmt_int w i \<noteq> []"
  by (simp add: fmt_int_def)

lemma last_not_slash: "xs \<noteq> [] \<Longrightarrow> CHR ''/'' \<notin> set xs \<Longrightarrow> \<not> suffix ''/'' (ys @ xs)"
  by (metis append_is_Nil_conv last_appendR last_in_set last_snoc suffix_def)

lemma raw_data_meta_key:
  "raw_data_meta_kvstore_key name p i =
     ds_dir name @ partition_repr p @ ''/'' @ ''raw_data_'' @ fmt_int 8 i"
proof -
  have "\<not> suffix ''/'' (ds_dir name @ partition_repr p)"
    by (rule last_not_slash) (simp_all add: partition_repr_def)
  moreover have "ds_dir name @ partition_repr p \<noteq> []" by (simp add: ds_dir_def)
  ultimately show ?thesis
    by (simp add: raw_data_meta_kvstore_key_def manifest_key path_join_plain)
qed

lemma slash_split:
  assumes "CHR ''/'' \<notin> set a" "CHR ''/'' \<notin> set b"
  shows "a @ CHR ''/'' # xs = b @ CHR ''/'' # ys \<longleftrightarrow> a = b \<and> xs = ys"
  using assms
proof (induction a arbitrary: b)
  case Nil
  then show ?case by (cases b) auto
next
  case (Cons c a)
  then show ?case by (cases b) auto
qed

lemma raw_data_meta_key_inj [simp]:
  "raw_data_meta_kvstore_key name p i = raw_data_meta_kvstore_key name q j \<longleftrightarrow> p = q \<and> i = j"
  using slash_split [of "partition_repr p" "partition_repr q"] by (simp add: raw_data_meta_key)

lemma manifest_key_inj [simp]:
  "partition_manifest_kvstore_key name p = partition_manifest_kvstore_key name q \<longleftrightarrow> p = q"
  by (simp add: manifest_key)

lemma manifest_not_meta [simp]:
  "partition_manifest_kvstore_key name p \<noteq> raw_data_meta_kvstore_key name q j"
  "raw_data_meta_kvstore_key name q j \<noteq> partition_manifest_kvstore_key name p"
proof -
  have "partition_repr p \<noteq> partition_repr q @ CHR ''/'' # xs" for xs
    by (metis in_set_conv_decomp partition_repr_chars(2))
  then show "partition_manifest_kvstore_key name p \<noteq> raw_data_meta_kvstore_key name q j"
    "raw_data_meta_kvstore_key name q j \<noteq> partition_manifest_kvstore_key name p"
    by (simp_all add: manifest_key raw_data_meta_key) metis
qed

section \<open>File names of dumped example ids\<close>

definition encode_example_id_dumped_fname :: "int \<Rightarrow> int \<Rightarrow> string" where
  "encode_example_id_dumped_fname process_index start_index =
     fmt_int 6 process_index @ ''-'' @ fmt_int 8 start_index @ ''.done''"

text \<open>On the base name; every failure ends the process.\<close>

definition decode_index_meta :: "string \<Rightarrow> (int \<times> int) result" where
  "decode_index_meta fname =
     (case split_on CHR ''-'' (take (length fname - length ''.done'') fname) of
        [i0, i1] \<Rightarrow>
          (case (py_int i0, py_int i1) of
             (Inr p, Inr s) \<Rightarrow> Inr (p, s)
           | _ \<Rightarrow> Inl ProcessExit)
      | _ \<Rightarrow> Inl ProcessExit)"

lemma no_dash_fmt: "0 \<le> i \<Longrightarrow> CHR ''-'' \<notin> set (fmt_int w i)"
  by (simp add: fmt_int_def nat_str_not_in)

lemma dumped_fname_roundtrip:
  assumes "0 \<le> p" "0 \<le> s"
  shows "decode_index_meta (encode_example_id_dumped_fname p s) = Inr (p, s)"
  using assms split_on_sep [OF no_dash_fmt [OF assms(1)]] split_on_none [OF no_dash_fmt [OF assms(2)]]
  by (simp add: decode_index_meta_def encode_example_id_dumped_fname_def)

section \<open>Integers as bytes\<close>

text \<open>\<open>int.to_bytes\<close> and \<open>int.from_bytes\<close> in little endian order.\<close>

fun le_bytes :: "nat \<Rightarrow> nat \<Rightarrow> nat list" where
  "le_bytes 0 n = []"
| "le_bytes (Suc k) n = (n mod 256) # le_bytes k (n div 256)"

definition int2bytes :: "int \<Rightarrow> nat \<Rightarrow> nat list result" where
  "int2bytes digit byte_len =
     (if digit < 0 \<or> 256 ^ byte_len \<le> digit then Inl OverflowError
      else Inr (le_bytes byte_len (nat digit)))"

fun bytes2int :: "nat list \<Rightarrow> int" where
  "bytes2int [] = 0"
| "bytes2int (b # bs) = int b + 256 * bytes2int bs"

lemma bytes2int_le_bytes: "n < 256 ^ k \<Longrightarrow> bytes2int (le_bytes k n) = int n"
proof (induction k arbitrary: n)
  case (Suc k)
  then have "n div 256 < 256 ^ k" by (simp add: less_mult_imp_div_less mult.commute)
  then have "bytes2int (le_bytes k (n div 256)) = int (n div 256)" using Suc.IH by simp
  moreover have "int n = int (n mod 256 + 256 * (n div 256))" by simp
  ultimately show ?case by (simp only: le_bytes.simps bytes2int.simps of_nat_add of_nat_mult)
qed simp

lemma int2bytes_roundtrip:
  assumes "int2bytes d k = Inr bs"
  shows "bytes2int bs = d \<and> length bs = k \<and> (\<forall>b \<in> set bs. b < 256)"
proof -
  have d: "0 \<le> d" "d < 256 ^ k" "bs = le_bytes k (nat d)"
    using assms by (auto simp: int2bytes_def split: if_splits)
  then have "nat d < 256 ^ k" by (simp add: nat_less_iff)
  moreover have "length (le_bytes j n) = j \<and> (\<forall>b \<in> set (le_bytes j n). b < 256)" for j n
    by (induction j arbitrary: n) auto
  ultimately show ?thesis using d bytes2int_le_bytes by simp
qed

section \<open>Intervals\<close>

text \<open>Units with their order and their length in seconds.\<close>

definition itv_units :: "(char \<times> nat \<times> int) list" where
  "itv_units = [(CHR ''Y'', 6, 3600 * 24 * 30 * 12), (CHR ''M'', 5, 3600 * 24 * 30),
     (CHR ''D'', 4, 3600 * 24), (CHR ''H'', 3, 3600), (CHR ''N'', 2, 60), (CHR ''S'', 1, 1)]"

definition unit_order :: "char \<Rightarrow> nat option" where
  "unit_order u = map_option fst (map_of itv_units u)"

definition unit_seconds :: "char \<Rightarrow> int" where
  "unit_seconds u = (case map_of itv_units u of None \<Rightarrow> 0 | Some (_, k) \<Rightarrow> k)"

definition to_upper :: "char \<Rightarrow> char" where
  "to_upper c = (if 97 \<le> (of_char c :: nat) \<and> (of_char c :: nat) \<le> 122
                 then char_of ((of_char c :: nat) - 32) else c)"

fun itv_scan ::
    "string \<Rightarrow> nat \<Rightarrow> (char \<rightharpoonup> string) \<Rightarrow> string \<Rightarrow> ((char \<rightharpoonup> string) \<times> string) option" where
  "itv_scan s_no prv m [] = Some (m, s_no)"
| "itv_scan s_no prv m (c # cs) =
     (if is_digit c then itv_scan (s_no @ [c]) prv m cs
      else case unit_order (to_upper c) of
             None \<Rightarrow> None
           | Some k \<Rightarrow> if prv \<le> k then None else itv_scan [] k (m(to_upper c \<mapsto> s_no)) cs)"

definition itv_term :: "(char \<rightharpoonup> string) \<Rightarrow> char \<times> nat \<times> int \<Rightarrow> int result" where
  "itv_term m = (\<lambda>(u, _, k).
     case m u of None \<Rightarrow> Inr 0 | Some s \<Rightarrow> bind_result (py_int s) (\<lambda>n. Inr (n * k)))"

definition interval_to_timestamp :: "string \<Rightarrow> int option result" where
  "interval_to_timestamp itv =
     (case itv_scan [] 7 Map.empty itv of
        None \<Rightarrow> Inr None
      | Some (m, s_no) \<Rightarrow>
          bind_result
            (traverse (itv_term (if s_no \<noteq> [] \<and> m CHR ''S'' = None then m(CHR ''S'' \<mapsto> s_no) else m))
               itv_units)
            (\<lambda>ts. Inr (Some (sum_list ts))))"

lemma itv_scan_digits:
  "\<forall>c \<in> set ds. is_digit c \<Longrightarrow> itv_scan acc prv m (ds @ cs) = itv_scan (acc @ ds) prv m cs"
  by (induction ds arbitrary: acc) auto

lemma unit_facts:
  "unit_order u = Some k \<Longrightarrow> \<not> is_digit u \<and> to_upper u = u \<and> k < 7"
  by (auto simp: unit_order_def itv_units_def is_digit_def to_upper_def split: if_splits)

text \<open>The numbers of an interval, largest unit first.\<close>

fun itv_ordered :: "nat \<Rightarrow> (char \<times> nat) list \<Rightarrow> bool" where
  "itv_ordered prv [] = True"
| "itv_ordered prv ((u, n) # us) =
     (case unit_order u of None \<Rightarrow> False | Some k \<Rightarrow> k < prv \<and> itv_ordered k us)"

definition itv_map :: "(char \<times> nat) list \<Rightarrow> (char \<rightharpoonup> string) \<Rightarrow> (char \<rightharpoonup> string)" where
  "itv_map us m = fold (\<lambda>(u, n) m. m(u \<mapsto> nat_str n)) us m"

lemma itv_map_simps [simp]:
  "itv_map [] m = m"
  "itv_map ((u, n) # us) m = itv_map us (m(u \<mapsto> nat_str n))"
  by (simp_all add: itv_map_def)

lemma itv_scan_units:
  "itv_ordered prv us \<Longrightarrow>
     itv_scan [] prv m (concat (map (\<lambda>(u, n). nat_str n @ [u]) us)) = Some (itv_map us m, [])"
proof (induction us arbitrary: prv m)
  case (Cons p us)
  obtain u n where p: "p = (u, n)" by fastforce
  then obtain k where k: "unit_order u = Some k" "k < prv" "itv_ordered k us"
    using Cons.prems by (auto split: option.splits)
  then show ?case using p Cons.IH [OF k(3)] unit_facts [OF k(1)]
    by (simp add: itv_scan_digits [OF nat_str_digits] del: fun_upd_apply)
qed simp

definition itv_value :: "(char \<rightharpoonup> string) \<Rightarrow> char \<times> nat \<times> int \<Rightarrow> int" where
  "itv_value m = (\<lambda>(u, _, k).
     case m u of None \<Rightarrow> 0 | Some s \<Rightarrow> (case py_int s of Inr n \<Rightarrow> n * k | Inl _ \<Rightarrow> 0))"

lemma itv_value_upd:
  assumes "unit_order u = Some k" "m u = None"
  shows "sum_list (map (itv_value (m(u \<mapsto> nat_str n))) itv_units) =
         sum_list (map (itv_value m) itv_units) + int n * unit_seconds u"
  using assms
  by (auto simp: unit_order_def unit_seconds_def itv_units_def itv_value_def split: if_splits)

lemma itv_map_sum:
  assumes "itv_ordered prv us" "\<forall>u k. unit_order u = Some k \<longrightarrow> k < prv \<longrightarrow> m u = None"
  shows "sum_list (map (itv_value (itv_map us m)) itv_units) =
         sum_list (map (itv_value m) itv_units) + (\<Sum>(u, n)\<leftarrow>us. int n * unit_seconds u)"
  using assms
proof (induction us arbitrary: prv m)
  case (Cons p us)
  obtain u n where p: "p = (u, n)" by fastforce
  then obtain k where k: "unit_order u = Some k" "k < prv" "itv_ordered k us"
    using Cons.prems(1) by (auto split: option.splits)
  have "\<forall>v j. unit_order v = Some j \<longrightarrow> j < k \<longrightarrow> (m(u \<mapsto> nat_str n)) v = None"
    using Cons.prems(2) k(1,2) by (metis fun_upd_other less_irrefl_nat less_trans option.inject)
  note step = Cons.IH [OF k(3) this]
  have "m u = None" using Cons.prems(2) k(1,2) by blast
  show ?case
    unfolding p itv_map_simps step itv_value_upd [where m = m, OF k(1) \<open>m u = None\<close>] by simp
qed simp

lemma itv_map_strings:
  "\<forall>u s. m u = Some s \<longrightarrow> (\<exists>n. s = nat_str n) \<Longrightarrow> itv_map us m u = Some s \<Longrightarrow> \<exists>n. s = nat_str n"
proof (induction us arbitrary: m)
  case (Cons p us)
  obtain v n where p: "p = (v, n)" by fastforce
  show ?case
  proof (rule Cons.IH [of "m(v \<mapsto> nat_str n)"])
    show "\<forall>u s. (m(v \<mapsto> nat_str n)) u = Some s \<longrightarrow> (\<exists>n. s = nat_str n)"
      using Cons.prems(1) by auto
    show "itv_map us (m(v \<mapsto> nat_str n)) u = Some s"
      using Cons.prems(2) p by (simp del: fun_upd_apply)
  qed
qed simp

section \<open>Properties\<close>

text \<open>
  A block id can be decoded exactly when the data source name has no dot and both
  event times are non-negative; decoding then gives back the name, the partition, the
  index and the time frame. Otherwise, in particular for blocks of examples without an
  event time, whose default is negative, decoding raises \<open>ValueError\<close>.
\<close>

theorem block_id_roundtrip:
  "decode_block_id (encode_block_id name m) =
     (if CHR ''.'' \<notin> set name \<and> 0 \<le> bm_start_time m \<and> 0 \<le> bm_end_time m
      then Inr (name, bm_partition_id m, bm_data_block_index m, bm_start_time m, bm_end_time m)
      else Inl ValueError)"
proof (cases "CHR ''.'' \<in> set name")
  case True
  have "1 \<le> count_list name CHR ''.''"
    using True count_list_0_iff [of name "CHR ''.''"] by (simp add: Suc_leI)
  then have "length (split_on CHR ''.'' (encode_block_id name m)) \<noteq> 4"
    by (simp add: split_on_length encode_block_id_def count_list_append count_list_not_in)
  then show ?thesis using True by (simp add: decode_block_id_def split_length_mismatch)
next
  case False
  let ?t = "int_str (bm_start_time m) @ CHR ''-'' # int_str (bm_end_time m)"
  have dots: "CHR ''.'' \<notin> set ?t" by simp
  have segs: "split_on CHR ''.'' (encode_block_id name m) =
      [name, partition_repr (bm_partition_id m), fmt_int 8 (bm_data_block_index m), ?t]"
    using False dots
    by (simp add: encode_block_id_def split_on_sep split_on_none del: set_append)
  have pid: "py_int (drop (length ''partition_'') (partition_repr (bm_partition_id m))) =
      Inr (bm_partition_id m)"
    by (simp add: partition_repr_def)
  show ?thesis
  proof (cases "0 \<le> bm_start_time m \<and> 0 \<le> bm_end_time m")
    case True
    have nd: "CHR ''-'' \<notin> set (int_str i)" if "0 \<le> i" for i
      using that by (simp add: int_str_def nat_str_not_in)
    have "split_on CHR ''-'' ?t = [int_str (bm_start_time m), int_str (bm_end_time m)]"
      using True nd split_on_sep [OF nd] split_on_none [OF nd] by simp
    then show ?thesis using True False segs pid by (simp add: decode_block_id_def)
  next
    case neg: False
    have "length (split_on CHR ''-'' ?t) \<noteq> 2"
      using neg by (auto simp: split_on_length count_list_append count_dash)
    then show ?thesis using neg segs pid
      by (simp add: decode_block_id_def split_length_mismatch)
  qed
qed

text \<open>
  An interval written with its units in descending order, each with its number, is
  the sum of the numbers times the lengths of their units.
\<close>

theorem interval_sum:
  assumes "itv_ordered 7 us"
  shows "interval_to_timestamp (concat (map (\<lambda>(u, n). nat_str n @ [u]) us)) =
         Inr (Some (\<Sum>(u, n)\<leftarrow>us. int n * unit_seconds u))"
proof -
  let ?m = "itv_map us Map.empty"
  have t: "itv_term ?m x = Inr (itv_value ?m x)" for x
  proof -
    obtain u j k where x: "x = (u, j, k)" by (cases x) auto
    show ?thesis
    proof (cases "?m u")
      case None
      then show ?thesis using x by (simp add: itv_term_def itv_value_def)
    next
      case (Some s)
      then obtain n where "s = nat_str n" using itv_map_strings [of Map.empty us u s] by auto
      then show ?thesis using x Some by (simp add: itv_term_def itv_value_def)
    qed
  qed
  have "traverse (itv_term ?m) itv_units = Inr (map (itv_value ?m) itv_units)"
    by (rule traverse_Inr) (rule t)
  moreover have "sum_list (map (itv_value ?m) itv_units) = (\<Sum>(u, n)\<leftarrow>us. int n * unit_seconds u)"
    using itv_map_sum [OF assms, of Map.empty] by (simp add: itv_value_def itv_units_def)
  ultimately show ?thesis
    unfolding interval_to_timestamp_def itv_scan_units [OF assms]
    by (simp only: option.case prod.case bind_result_simps if_False simp_thms)
qed

theorem interval_sum_witness:
  "interval_to_timestamp ''2D5N'' = Inr (Some (2 * 86400 + 5 * 60))"
proof -
  have "nat_str 2 = ''2''" "nat_str 5 = ''5''"
    by (code_simp, code_simp)
  then show ?thesis
    using interval_sum [of "[(CHR ''D'', 2), (CHR ''N'', 5)]"]
    by (simp add: unit_order_def unit_seconds_def itv_units_def)
qed

text \<open>A unit without a number is an error and not an invalid interval.\<close>

lemma interval_unit_alone: "interval_to_timestamp ''D'' = Inl ValueError"
  by (simp add: interval_to_timestamp_def unit_order_def itv_units_def is_digit_def to_upper_def
      itv_term_def py_int_def py_strip_def)

end
