(* ===== verification/Manifest.thy ===== *)
theory Manifest
  imports Data_Join_Common "HOL-Library.AList"
begin

text \<open>
  The raw data manifests of a data source (\<open>data_join/raw_data_manifest_manager.py\<close>).

  The manager caches one manifest per partition and writes each change through to the kv
  store. The store is an association list; \<open>mg_faults\<close> tells of each write to come whether
  it fails, in which case the code's exception leaves the method and the state stays as
  it is at that point, which is why the methods are in the state and exception monad. The
  text format of the protobuf library is the \<open>codec\<close>, of which the properties only use
  that parsing undoes printing.
\<close>

section \<open>Messages\<close>

datatype sync_state = UnSynced | Syncing | Synced
datatype join_state = UnJoined | Joining | Joined

record 'st rep =
  rp_state :: 'st
  rp_rank_id :: int

record manifest =
  mf_partition_id :: int
  mf_sync_example_id_rep :: "sync_state rep"
  mf_join_example_rep :: "join_state rep"
  mf_finished :: bool
  mf_next_process_index :: int
  mf_next_raw_data_sub_index :: int
  mf_peer_dumped_index :: int

record raw_data_meta =
  rm_file_path :: string
  rm_start_index :: int
  rm_timestamp :: "int \<times> int"

datatype raw_data_pub = PubMeta raw_data_meta | PubFinished | PubUnset

record 'v codec =
  print_manifest :: "manifest \<Rightarrow> 'v"
  parse_manifest :: "'v \<Rightarrow> manifest"
  print_meta :: "raw_data_meta \<Rightarrow> 'v"
  parse_meta :: "'v \<Rightarrow> raw_data_meta"
  parse_pub :: "'v \<Rightarrow> raw_data_pub"

definition codec_ok :: "'v codec \<Rightarrow> bool" where
  "codec_ok c \<longleftrightarrow>
     (\<forall>m. parse_manifest c (print_manifest c m) = m) \<and> (\<forall>m. parse_meta c (print_meta c m) = m)"

section \<open>The manager\<close>

datatype ds_state = UnKnown | DsInit | Processing | Ready | DsFinished | DsFailed

record 'v mg_env =
  en_codec :: "'v codec"
  en_name :: string
  en_raw_data_sub_dir :: string
  en_partition_num :: int
  en_is_leader :: bool
  en_batch_mode :: bool
  en_state :: ds_state

record 'v manager =
  mg_local :: "int \<Rightarrow> manifest option"
  mg_existed_fpath :: "string \<rightharpoonup> int \<times> int"
  mg_latest_timestamp :: "int \<Rightarrow> (int \<times> int) option"
  mg_kv :: "(string \<times> 'v) list"
  mg_faults :: "bool list"

definition kv_set :: "string \<Rightarrow> 'v \<Rightarrow> ('v manager, unit) sx" where
  "kv_set key v s =
     (case mg_faults s of
        True # fs \<Rightarrow> (Inl RuntimeError, s\<lparr>mg_faults := fs\<rparr>)
      | fs \<Rightarrow> (Inr (), s\<lparr>mg_kv := AList.update key v (mg_kv s), mg_faults := tl fs\<rparr>))"

definition manifest_key :: "'v mg_env \<Rightarrow> int \<Rightarrow> string" where
  "manifest_key en p = partition_manifest_kvstore_key (en_name en) p"

definition meta_key :: "'v mg_env \<Rightarrow> int \<Rightarrow> int \<Rightarrow> string" where
  "meta_key en p i = raw_data_meta_kvstore_key (en_name en) p i"

definition set_local :: "int \<Rightarrow> manifest option \<Rightarrow> ('v manager, unit) sx" where
  "set_local p mo = sx_modify (\<lambda>s. s\<lparr>mg_local := (mg_local s)(p := mo)\<rparr>)"

definition update_manifest :: "'v mg_env \<Rightarrow> manifest \<Rightarrow> ('v manager, unit) sx" where
  "update_manifest en m =
     sx_bind (set_local (mf_partition_id m) None) (\<lambda>_.
     sx_bind (kv_set (manifest_key en (mf_partition_id m)) (print_manifest (en_codec en) m)) (\<lambda>_.
       set_local (mf_partition_id m) (Some m)))"

definition get_kv_manifest :: "'v mg_env \<Rightarrow> int \<Rightarrow> 'v manager \<Rightarrow> manifest option" where
  "get_kv_manifest en p s =
     map_option (parse_manifest (en_codec en)) (map_of (mg_kv s) (manifest_key en p))"

definition later_timestamp :: "int \<times> int \<Rightarrow> (int \<times> int) option \<Rightarrow> (int \<times> int) option" where
  "later_timestamp n otimestamp =
     (case otimestamp of
        None \<Rightarrow> Some n
      | Some t \<Rightarrow> if fst t < fst n \<or> fst n = fst t \<and> snd t < snd n then Some n else Some t)"

text \<open>What happens to the file index for one meta, read from or written to the store.\<close>

definition note_meta :: "int \<Rightarrow> int \<Rightarrow> raw_data_meta \<Rightarrow> 'v manager \<Rightarrow> 'v manager" where
  "note_meta p i m s =
     s\<lparr>mg_existed_fpath := (mg_existed_fpath s)(rm_file_path m \<mapsto> (p, i)),
       mg_latest_timestamp :=
         (mg_latest_timestamp s)(p := later_timestamp (rm_timestamp m) (mg_latest_timestamp s p))\<rparr>"

text \<open>
  The loop of \<open>_process_next_process_index\<close> reads metas from an index on until one is
  missing. It ends because the keys are distinct and the store is finite.
\<close>

function scan_metas :: "string \<Rightarrow> int \<Rightarrow> (string \<times> 'v) list \<Rightarrow> int \<Rightarrow> 'v list" where
  "scan_metas name p kv i =
     (case map_of kv (raw_data_meta_kvstore_key name p i) of
        None \<Rightarrow> []
      | Some d \<Rightarrow> d # scan_metas name p kv (i + 1))"
  by pat_completeness auto
termination
proof (relation "measure (\<lambda>(name, p, kv, i).
    card {j. i \<le> j \<and> map_of kv (raw_data_meta_kvstore_key name p j) \<noteq> None})", goal_cases)
  case (2 name p kv i d)
  let ?key = "raw_data_meta_kvstore_key name p"
  have "finite {j. map_of kv (?key j) \<noteq> None}"
  proof (rule finite_subset)
    show "{j. map_of kv (?key j) \<noteq> None} \<subseteq> ?key -` (fst ` set kv)"
      by (auto simp: map_of_eq_None_iff)
    show "finite (?key -` (fst ` set kv))" by (rule finite_vimageI) (simp_all add: inj_on_def)
  qed
  then have "finite {j. i \<le> j \<and> map_of kv (?key j) \<noteq> None}" by (rule rev_finite_subset) auto
  moreover have "i \<in> {j. i \<le> j \<and> map_of kv (?key j) \<noteq> None}"
      "i \<notin> {j. i + 1 \<le> j \<and> map_of kv (?key j) \<noteq> None}"
      "{j. i + 1 \<le> j \<and> map_of kv (?key j) \<noteq> None} \<subseteq>
       {j. i \<le> j \<and> map_of kv (?key j) \<noteq> None}"
    using 2 by auto
  then have "{j. i + 1 \<le> j \<and> map_of kv (?key j) \<noteq> None} \<subset>
      {j. i \<le> j \<and> map_of kv (?key j) \<noteq> None}"
    by blast
  ultimately show ?case by (simp add: psubset_card_mono)
qed simp

declare scan_metas.simps [simp del]

definition note_metas :: "int \<Rightarrow> int \<Rightarrow> raw_data_meta list \<Rightarrow> 'v manager \<Rightarrow> 'v manager" where
  "note_metas p i ms s = fold (\<lambda>(j, m). note_meta p j m) (zip [i..i + int (length ms) - 1] ms) s"

definition process_next_process_index :: "'v mg_env \<Rightarrow> int \<Rightarrow> manifest \<Rightarrow> ('v manager, unit) sx" where
  "process_next_process_index en p m =
     sx_bind (sx_assert (mf_partition_id m = p)) (\<lambda>_.
     sx_bind sx_get (\<lambda>s.
       let ms = map (parse_meta (en_codec en))
                  (scan_metas (en_name en) p (mg_kv s) (mf_next_process_index m));
           n = mf_next_process_index m + int (length ms)
       in sx_bind (sx_modify (note_metas p (mf_next_process_index m) ms)) (\<lambda>_.
          if n \<noteq> mf_next_process_index m
          then update_manifest en (m\<lparr>mf_next_process_index := n\<rparr>)
          else set_local p (Some m))))"

definition fresh_manifest :: "int \<Rightarrow> manifest" where
  "fresh_manifest p =
     \<lparr>mf_partition_id = p,
      mf_sync_example_id_rep = \<lparr>rp_state = UnSynced, rp_rank_id = - 1\<rparr>,
      mf_join_example_rep = \<lparr>rp_state = UnJoined, rp_rank_id = - 1\<rparr>,
      mf_finished = False, mf_next_process_index = 0, mf_next_raw_data_sub_index = 0,
      mf_peer_dumped_index = 0\<rparr>"

text \<open>The end of \<open>_sync_manifest\<close> returns the cache entry, which is present then.\<close>

definition local_manifest :: "int \<Rightarrow> ('v manager, manifest) sx" where
  "local_manifest p =
     sx_bind sx_get (\<lambda>s. case mg_local s p of
        None \<Rightarrow> sx_raise AttributeError | Some m \<Rightarrow> sx_return m)"

definition load_manifest :: "'v mg_env \<Rightarrow> int \<Rightarrow> ('v manager, manifest) sx" where
  "load_manifest en p =
     sx_bind sx_get (\<lambda>s. case get_kv_manifest en p s of
        Some m \<Rightarrow> sx_return m
      | None \<Rightarrow> sx_bind (update_manifest en (fresh_manifest p)) (\<lambda>_. sx_return (fresh_manifest p)))"

definition sync_manifest :: "'v mg_env \<Rightarrow> int \<Rightarrow> ('v manager, manifest) sx" where
  "sync_manifest en p =
     sx_bind (sx_assert (0 \<le> p \<and> p < en_partition_num en)) (\<lambda>_.
     sx_bind sx_get (\<lambda>s.
     sx_bind (case mg_local s p of
                Some _ \<Rightarrow> sx_return ()
              | None \<Rightarrow> sx_bind (load_manifest en p) (process_next_process_index en p)) (\<lambda>_.
       local_manifest p)))"

definition check_partition_id :: "'v mg_env \<Rightarrow> int \<Rightarrow> ('v manager, unit) sx" where
  "check_partition_id en p =
     (if p < 0 \<or> en_partition_num en \<le> p then sx_raise IndexError else sx_return ())"

section \<open>Allocation\<close>

text \<open>
  \<open>_alloc_partition\<close> works on either of the two fields, so it takes how to read and how to
  write the field, as the code does with \<open>getattr\<close>.
\<close>

type_synonym 'st field = "(manifest \<Rightarrow> 'st rep) \<times> ('st rep \<Rightarrow> manifest \<Rightarrow> manifest)"

definition sync_field :: "sync_state field" where
  "sync_field = (mf_sync_example_id_rep, \<lambda>r m. m\<lparr>mf_sync_example_id_rep := r\<rparr>)"

definition join_field :: "join_state field" where
  "join_field = (mf_join_example_rep, \<lambda>r m. m\<lparr>mf_join_example_rep := r\<rparr>)"

fun search_partition ::
    "'v mg_env \<Rightarrow> 'st field \<Rightarrow> 'st \<Rightarrow> 'st \<Rightarrow> int \<Rightarrow> int list \<Rightarrow> int option \<Rightarrow>
     ('v manager, int option) sx" where
  "search_partition en fd src target rank [] found = sx_return found"
| "search_partition en fd src target rank (p # ps) found =
     sx_bind (sync_manifest en p) (\<lambda>m.
       let f = fst fd m
       in if rp_state f = target \<and> rp_rank_id f = rank then sx_return (Some p)
          else search_partition en fd src target rank ps
                 (if rp_state f = src \<and> found = None then Some p else found))"

definition alloc_at ::
    "'v mg_env \<Rightarrow> 'st field \<Rightarrow> 'st \<Rightarrow> 'st \<Rightarrow> int \<Rightarrow> int \<Rightarrow> ('v manager, manifest) sx" where
  "alloc_at en fd src target rank p =
     sx_bind (sync_manifest en p) (\<lambda>m.
       if rp_state (fst fd m) = src
       then let m1 = snd fd \<lparr>rp_state = target, rp_rank_id = rank\<rparr> m
            in sx_bind (update_manifest en m1) (\<lambda>_. sx_return m1)
       else if rp_state (fst fd m) = target
       then if rp_rank_id (fst fd m) \<noteq> rank then sx_raise RuntimeError else sx_return m
       else sx_raise RuntimeError)"

definition alloc_partition ::
    "'v mg_env \<Rightarrow> 'st field \<Rightarrow> 'st \<Rightarrow> 'st \<Rightarrow> int \<Rightarrow> int option \<Rightarrow> ('v manager, manifest option) sx" where
  "alloc_partition en fd src target rank po =
     sx_bind (case po of
                Some p \<Rightarrow> sx_return (Some p)
              | None \<Rightarrow> search_partition en fd src target rank [0..en_partition_num en - 1] None)
       (\<lambda>po1. case po1 of
          None \<Rightarrow> sx_return None
        | Some p \<Rightarrow> sx_bind (alloc_at en fd src target rank p) (\<lambda>m. sx_return (Some m)))"

definition finish_partition ::
    "'v mg_env \<Rightarrow> 'st field \<Rightarrow> 'st \<Rightarrow> 'st \<Rightarrow> int \<Rightarrow> int \<Rightarrow> ('v manager, unit) sx" where
  "finish_partition en fd src target rank p =
     sx_bind (sync_manifest en p) (\<lambda>m.
       if rp_state (fst fd m) = target then sx_return ()
       else if rp_state (fst fd m) \<noteq> src then sx_raise RuntimeError
       else if rp_rank_id (fst fd m) \<noteq> rank then sx_raise RuntimeError
       else update_manifest en (snd fd ((fst fd m)\<lparr>rp_state := target\<rparr>) m))"

definition check_opt_partition :: "'v mg_env \<Rightarrow> int option \<Rightarrow> ('v manager, unit) sx" where
  "check_opt_partition en po =
     (case po of None \<Rightarrow> sx_return () | Some p \<Rightarrow> check_partition_id en p)"

definition alloc_sync_exampld_id ::
    "'v mg_env \<Rightarrow> int \<Rightarrow> int option \<Rightarrow> ('v manager, manifest option) sx" where
  "alloc_sync_exampld_id en rank po =
     sx_bind (check_opt_partition en po) (\<lambda>_.
       alloc_partition en sync_field UnSynced Syncing rank po)"

definition alloc_join_example ::
    "'v mg_env \<Rightarrow> int \<Rightarrow> int option \<Rightarrow> ('v manager, manifest option) sx" where
  "alloc_join_example en rank po =
     sx_bind (check_opt_partition en po) (\<lambda>_.
       alloc_partition en join_field UnJoined Joining rank po)"

definition finish_sync_example_id :: "'v mg_env \<Rightarrow> int \<Rightarrow> int \<Rightarrow> ('v manager, unit) sx" where
  "finish_sync_example_id en rank p =
     sx_bind (check_partition_id en p) (\<lambda>_.
     sx_bind (if en_is_leader en
              then sx_bind (sync_manifest en p) (\<lambda>m.
                     if \<not> mf_finished m then sx_raise RuntimeError else sx_return ())
              else sx_return ()) (\<lambda>_.
       finish_partition en sync_field Syncing Synced rank p))"

definition finish_join_example :: "'v mg_env \<Rightarrow> int \<Rightarrow> int \<Rightarrow> ('v manager, unit) sx" where
  "finish_join_example en rank p =
     sx_bind (check_partition_id en p) (\<lambda>_.
     sx_bind (sync_manifest en p) (\<lambda>m.
       if rp_state (mf_sync_example_id_rep m) \<noteq> Synced then sx_raise RuntimeError
       else if \<not> en_is_leader en \<and> \<not> mf_finished m then sx_raise RuntimeError
       else finish_partition en join_field Joining Joined rank p))"

section \<open>Raw data\<close>

definition finish_raw_data :: "'v mg_env \<Rightarrow> int \<Rightarrow> ('v manager, unit) sx" where
  "finish_raw_data en p =
     sx_bind (check_partition_id en p) (\<lambda>_.
     sx_bind (sx_assert (\<not> en_batch_mode en)) (\<lambda>_.
     sx_bind (sync_manifest en p) (\<lambda>m.
       if \<not> mf_finished m then update_manifest en (m\<lparr>mf_finished := True\<rparr>) else sx_return ())))"

fun store_loop :: "'v mg_env \<Rightarrow> int \<Rightarrow> int \<Rightarrow> raw_data_meta list \<Rightarrow> ('v manager, int) sx" where
  "store_loop en p i [] = sx_return i"
| "store_loop en p i (m # ms) =
     sx_bind (kv_set (meta_key en p i) (print_meta (en_codec en) (m\<lparr>rm_start_index := - 1\<rparr>))) (\<lambda>_.
     sx_bind (sx_modify (note_meta p i m)) (\<lambda>_.
       store_loop en p (i + 1) ms))"

definition store_raw_data_metas ::
    "'v mg_env \<Rightarrow> int \<Rightarrow> raw_data_meta list \<Rightarrow> ('v manager, unit) sx" where
  "store_raw_data_metas en p ms =
     (if ms = [] then sx_return ()
      else sx_bind (sync_manifest en p) (\<lambda>m.
           sx_bind (set_local p None) (\<lambda>_.
           sx_bind (store_loop en p (mf_next_process_index m) ms) (\<lambda>i.
             if mf_next_process_index m \<noteq> i
             then update_manifest en (m\<lparr>mf_next_process_index := i\<rparr>)
             else set_local p (Some m)))))"

text \<open>The files of a request that are new: neither known nor earlier in the request.\<close>

fun add_candidates ::
    "(string \<rightharpoonup> int \<times> int) \<Rightarrow> bool \<Rightarrow> string list \<Rightarrow> raw_data_meta list \<Rightarrow> raw_data_meta list result" where
  "add_candidates existed dedup seen [] = Inr []"
| "add_candidates existed dedup seen (m # ms) =
     (if existed (rm_file_path m) \<noteq> None \<or> rm_file_path m \<in> set seen
      then if \<not> dedup then Inl RuntimeError else add_candidates existed dedup seen ms
      else bind_result (add_candidates existed dedup (rm_file_path m # seen) ms) (\<lambda>cs. Inr (m # cs)))"

definition add_raw_data ::
    "'v mg_env \<Rightarrow> int \<Rightarrow> raw_data_meta list \<Rightarrow> bool \<Rightarrow> ('v manager, unit) sx" where
  "add_raw_data en p ms dedup =
     sx_bind (sx_assert (en_raw_data_sub_dir en = [])) (\<lambda>_.
     sx_bind (check_partition_id en p) (\<lambda>_.
     sx_bind (sx_assert (\<not> en_batch_mode en)) (\<lambda>_.
     sx_bind (sync_manifest en p) (\<lambda>m.
       if mf_finished m then sx_raise RuntimeError
       else sx_bind sx_get (\<lambda>s.
         case add_candidates (mg_existed_fpath s) dedup [] ms of
           Inl e \<Rightarrow> sx_raise e
         | Inr cs \<Rightarrow> store_raw_data_metas en p cs)))))"

definition forward_peer_dumped_index :: "'v mg_env \<Rightarrow> int \<Rightarrow> int \<Rightarrow> ('v manager, unit) sx" where
  "forward_peer_dumped_index en p idx =
     sx_bind (check_partition_id en p) (\<lambda>_.
     sx_bind (sync_manifest en p) (\<lambda>m.
       if mf_peer_dumped_index m < idx
       then update_manifest en (m\<lparr>mf_peer_dumped_index := idx\<rparr>) else sx_return ()))"

definition list_all_manifest :: "'v mg_env \<Rightarrow> ('v manager, manifest list) sx" where
  "list_all_manifest en = sx_mapM (sync_manifest en) [0..en_partition_num en - 1]"

definition get_manifest :: "'v mg_env \<Rightarrow> int \<Rightarrow> ('v manager, manifest) sx" where
  "get_manifest en p = sx_bind (check_partition_id en p) (\<lambda>_. sync_manifest en p)"

definition get_raw_date_latest_timestamp ::
    "'v mg_env \<Rightarrow> int \<Rightarrow> ('v manager, (int \<times> int) option) sx" where
  "get_raw_date_latest_timestamp en p =
     sx_bind (check_partition_id en p) (\<lambda>_.
     sx_bind (sync_manifest en p) (\<lambda>_.
     sx_bind sx_get (\<lambda>s. sx_return (mg_latest_timestamp s p))))"

definition cleanup_meta_data :: "'v mg_env \<Rightarrow> ('v manager, unit) sx" where
  "cleanup_meta_data en =
     sx_modify (\<lambda>s. s\<lparr>mg_kv :=
       filter (\<lambda>(k, v). \<not> prefix (data_source_kvstore_base_dir (en_name en)) k) (mg_kv s)\<rparr>)"

section \<open>Subscription\<close>

text \<open>
  The loop of \<open>_try_to_sub_raw_data\<close> over published entries. It may not end: an entry with
  neither field set is read again and again. \<open>None\<close> stands for that.
\<close>

partial_function (option) scan_pubs ::
    "'v codec \<Rightarrow> string \<Rightarrow> int \<Rightarrow> (string \<times> 'v) list \<Rightarrow> int \<Rightarrow> raw_data_meta list \<Rightarrow>
     (raw_data_meta list \<times> bool \<times> int) option" where
  "scan_pubs c dir p kv i acc =
     (case map_of kv (raw_data_pub_kvstore_key dir p i) of
        None \<Rightarrow> Some (acc, False, i)
      | Some d \<Rightarrow>
          (case parse_pub c d of
             PubMeta m \<Rightarrow> scan_pubs c dir p kv (i + 1) (acc @ [m])
           | PubFinished \<Rightarrow> Some (acc, True, i)
           | PubUnset \<Rightarrow> scan_pubs c dir p kv i acc))"

declare scan_pubs.simps [code]

definition store_subscribed ::
    "'v mg_env \<Rightarrow> int \<Rightarrow> raw_data_meta list \<times> bool \<times> int \<Rightarrow> ('v manager, unit) sx" where
  "store_subscribed en p = (\<lambda>(ms, finished, next_sub_index).
     sx_bind (store_raw_data_metas en p ms) (\<lambda>_.
     sx_bind (sync_manifest en p) (\<lambda>m.
       update_manifest en
         (m\<lparr>mf_next_raw_data_sub_index := next_sub_index, mf_finished := finished\<rparr>))))"

text \<open>\<open>None\<close> when the call does not return.\<close>

definition try_to_sub_raw_data ::
    "'v mg_env \<Rightarrow> int \<Rightarrow> 'v manager \<Rightarrow> (int result \<times> 'v manager) option" where
  "try_to_sub_raw_data en p s =
     (case sync_manifest en p s of
        (Inl e, s1) \<Rightarrow> Some (Inl e, s1)
      | (Inr m, s1) \<Rightarrow>
          if mf_finished m \<or> en_raw_data_sub_dir en = [] then Some (Inr 0, s1)
          else (case scan_pubs (en_codec en) (en_raw_data_sub_dir en) p (mg_kv s1)
                       (mf_next_raw_data_sub_index m) [] of
                  None \<Rightarrow> None
                | Some r \<Rightarrow>
                    Some (sx_bind (store_subscribed en p r) (\<lambda>_.
                            sx_return (snd (snd r) - mf_next_raw_data_sub_index m)) s1)))"

fun sub_partitions ::
    "'v mg_env \<Rightarrow> int list \<Rightarrow> 'v manager \<Rightarrow> (unit result \<times> 'v manager) option" where
  "sub_partitions en [] s = Some (Inr (), s)"
| "sub_partitions en (p # ps) s =
     (case try_to_sub_raw_data en p s of
        None \<Rightarrow> None
      | Some (Inl e, s1) \<Rightarrow> Some (Inl e, s1)
      | Some (Inr _, s1) \<Rightarrow> sub_partitions en ps s1)"

definition sub_new_raw_data ::
    "'v mg_env \<Rightarrow> int option \<Rightarrow> 'v manager \<Rightarrow> (unit result \<times> 'v manager) option" where
  "sub_new_raw_data en req_part =
     sub_partitions en
       (filter (\<lambda>p. req_part = None \<or> req_part = Some p) [0..en_partition_num en - 1])"

section \<open>Start\<close>

definition manager_init :: "'v mg_env \<Rightarrow> (string \<times> 'v) list \<Rightarrow> bool list \<Rightarrow> 'v manager" where
  "manager_init en kv faults =
     \<lparr>mg_local = (\<lambda>_. None), mg_existed_fpath = Map.empty, mg_latest_timestamp = (\<lambda>_. None),
      mg_kv = kv, mg_faults = faults\<rparr>"

definition new_manager :: "'v mg_env \<Rightarrow> ('v manager, unit) sx" where
  "new_manager en =
     (if en_partition_num en \<le> 0 then sx_raise ValueError
      else sx_bind (list_all_manifest en) (\<lambda>_. sx_return ()))"

text \<open>What batch mode does to a manifest before it subscribes.\<close>

definition reset_manifest :: "manifest \<Rightarrow> manifest" where
  "reset_manifest m0 =
     (let m1 = m0\<lparr>mf_finished := False\<rparr>;
          m2 = (if rp_state (mf_sync_example_id_rep m1) = Synced
                then m1\<lparr>mf_sync_example_id_rep := \<lparr>rp_state = UnSynced, rp_rank_id = - 1\<rparr>\<rparr> else m1)
      in if rp_state (mf_join_example_rep m2) = Joined
         then m2\<lparr>mf_join_example_rep := \<lparr>rp_state = UnJoined, rp_rank_id = - 1\<rparr>\<rparr> else m2)"

definition init_batch_partition ::
    "'v mg_env \<Rightarrow> int \<Rightarrow> 'v manager \<Rightarrow> (unit result \<times> 'v manager) option" where
  "init_batch_partition en p s =
     (case sx_bind (sync_manifest en p) (\<lambda>m. update_manifest en (reset_manifest m)) s of
        (Inl e, s1) \<Rightarrow> Some (Inl e, s1)
      | (Inr _, s1) \<Rightarrow>
          (case try_to_sub_raw_data en p s1 of
             None \<Rightarrow> None
           | Some (Inl e, s2) \<Rightarrow> Some (Inl e, s2)
           | Some (Inr _, s2) \<Rightarrow>
               Some (sx_bind (sync_manifest en p) (\<lambda>m.
                       update_manifest en (m\<lparr>mf_finished := True\<rparr>)) s2)))"

fun init_batch_partitions ::
    "'v mg_env \<Rightarrow> int list \<Rightarrow> 'v manager \<Rightarrow> (unit result \<times> 'v manager) option" where
  "init_batch_partitions en [] s = Some (Inr (), s)"
| "init_batch_partitions en (p # ps) s =
     (case init_batch_partition en p s of
        None \<Rightarrow> None
      | Some (Inl e, s1) \<Rightarrow> Some (Inl e, s1)
      | Some (Inr _, s1) \<Rightarrow> init_batch_partitions en ps s1)"

definition init_batch_mode :: "'v mg_env \<Rightarrow> 'v manager \<Rightarrow> (unit result \<times> 'v manager) option" where
  "init_batch_mode en s =
     (if en_state en = DsInit \<or> en_state en = Processing
      then init_batch_partitions en [0..en_partition_num en - 1] s
      else Some (Inl AssertionError, s))"

section \<open>The invariant of the store and its cache\<close>

text \<open>
  Of one partition: the metas have the numbers below some \<open>n\<close>; a stored manifest is a
  printed one of this partition that counts at most \<open>n\<close> files and satisfies \<open>Q\<close>; without one
  there are no metas; and a cached manifest is the stored one and counts exactly \<open>n\<close>.
\<close>

definition metas_upto :: "'v codec \<Rightarrow> (int \<Rightarrow> 'v option) \<Rightarrow> int \<Rightarrow> bool" where
  "metas_upto c metas n \<longleftrightarrow>
     0 \<le> n \<and> (\<forall>i. metas i \<noteq> None \<longleftrightarrow> 0 \<le> i \<and> i < n) \<and>
     (\<forall>i v. metas i = Some v \<longrightarrow> (\<exists>m. v = print_meta c m))"

definition man_ok ::
    "'v codec \<Rightarrow> (manifest option \<Rightarrow> bool) \<Rightarrow> int \<Rightarrow> int \<Rightarrow> 'v option \<Rightarrow> manifest option \<Rightarrow> bool" where
  "man_ok c Q p n man loc \<longleftrightarrow>
     (case man of
        None \<Rightarrow> n = 0 \<and> loc = None \<and> Q None
      | Some v \<Rightarrow>
          (\<exists>m. v = print_manifest c m \<and> mf_partition_id m = p \<and> 0 \<le> mf_next_process_index m \<and>
               mf_next_process_index m \<le> n \<and> Q (Some m) \<and>
               (\<forall>l. loc = Some l \<longrightarrow> l = m \<and> mf_next_process_index m = n)))"

definition metas_of :: "'v mg_env \<Rightarrow> int \<Rightarrow> 'v manager \<Rightarrow> int \<Rightarrow> 'v option" where
  "metas_of en p s i = map_of (mg_kv s) (meta_key en p i)"

definition man_of :: "'v mg_env \<Rightarrow> int \<Rightarrow> 'v manager \<Rightarrow> 'v option" where
  "man_of en p s = map_of (mg_kv s) (manifest_key en p)"

definition part_inv :: "'v mg_env \<Rightarrow> (manifest option \<Rightarrow> bool) \<Rightarrow> int \<Rightarrow> 'v manager \<Rightarrow> int \<Rightarrow> bool" where
  "part_inv en Q p s n \<longleftrightarrow>
     metas_upto (en_codec en) (metas_of en p s) n \<and>
     man_ok (en_codec en) Q p n (man_of en p s) (mg_local s p)"

definition mg_inv :: "'v mg_env \<Rightarrow> (int \<Rightarrow> manifest option \<Rightarrow> bool) \<Rightarrow> 'v manager \<Rightarrow> bool" where
  "mg_inv en Q s \<longleftrightarrow> (\<forall>p. \<exists>n. part_inv en (Q p) p s n)"


lemma key_simps [simp]:
  "manifest_key en p = manifest_key en q \<longleftrightarrow> p = q"
  "meta_key en p i = meta_key en q j \<longleftrightarrow> p = q \<and> i = j"
  "manifest_key en p \<noteq> meta_key en q j" "meta_key en q j \<noteq> manifest_key en p"
  by (simp_all add: manifest_key_def meta_key_def)

subsection \<open>Writes\<close>

lemma kv_set_eq:
  "kv_set k v s =
     (if mg_faults s \<noteq> [] \<and> hd (mg_faults s)
      then (Inl RuntimeError, s\<lparr>mg_faults := tl (mg_faults s)\<rparr>)
      else (Inr (), s\<lparr>mg_kv := AList.update k v (mg_kv s), mg_faults := tl (mg_faults s)\<rparr>))"
  by (auto simp: kv_set_def split: list.split bool.split)

lemma part_inv_faults [simp]: "part_inv en Q p (s\<lparr>mg_faults := f\<rparr>) n = part_inv en Q p s n"
  by (simp add: part_inv_def metas_of_def [abs_def] man_of_def)

lemma part_inv_noted [simp]:
  "part_inv en Q p (note_meta q i m s) n = part_inv en Q p s n"
  by (simp add: part_inv_def metas_of_def [abs_def] man_of_def note_meta_def)

lemma mg_local_note [simp]: "mg_local (note_meta q i m s) = mg_local s"
  and mg_kv_note [simp]: "mg_kv (note_meta q i m s) = mg_kv s"
  by (simp_all add: note_meta_def)

lemma note_metas_fields [simp]:
  "mg_local (note_metas p i ms s) = mg_local s" "mg_kv (note_metas p i ms s) = mg_kv s"
proof -
  have "mg_local (fold (\<lambda>(j, m). note_meta p j m) xs s) = mg_local s \<and>
        mg_kv (fold (\<lambda>(j, m). note_meta p j m) xs s) = mg_kv s" for xs
    by (induction xs arbitrary: s) auto
  then show "mg_local (note_metas p i ms s) = mg_local s" "mg_kv (note_metas p i ms s) = mg_kv s"
    by (simp_all add: note_metas_def)
qed

lemma mg_inv_cong:
  "mg_local s = mg_local s' \<Longrightarrow> mg_kv s = mg_kv s' \<Longrightarrow> mg_inv en Q s = mg_inv en Q s'"
  by (simp add: mg_inv_def part_inv_def metas_of_def [abs_def] man_of_def)

lemma mg_inv_frame [simp]:
  "mg_inv en Q (s\<lparr>mg_faults := f\<rparr>) = mg_inv en Q s"
  "mg_inv en Q (note_meta p i m s) = mg_inv en Q s"
  "mg_inv en Q (note_metas p i ms s) = mg_inv en Q s"
  by (rule mg_inv_cong; simp)+





subsection \<open>Reading a manifest\<close>











subsection \<open>The changes of a manifest\<close>







lemma sync_cached:
  "mg_local s p = Some m \<Longrightarrow> 0 \<le> p \<Longrightarrow> p < en_partition_num en \<Longrightarrow> sync_manifest en p s = (Inr m, s)"
  by (simp add: sync_manifest_def sx_assert_def local_manifest_def sx_bind_def)

subsection \<open>Every method keeps the invariant\<close>












text \<open>The part of \<open>_store_raw_data_metas\<close> behind its synchronisation.\<close>

abbreviation store_tail ::
    "'v mg_env \<Rightarrow> int \<Rightarrow> raw_data_meta list \<Rightarrow> manifest \<Rightarrow> ('v manager, unit) sx" where
  "store_tail en p ms m \<equiv>
     sx_bind (set_local p None) (\<lambda>_.
     sx_bind (store_loop en p (mf_next_process_index m) ms) (\<lambda>i.
       if mf_next_process_index m \<noteq> i
       then update_manifest en (m\<lparr>mf_next_process_index := i\<rparr>)
       else set_local p (Some m)))"
















section \<open>Runs of a manager\<close>

text \<open>
  The requests a manager serves. An exception goes to the caller and the manager stays in
  use; \<open>OpRestart\<close> is a new process on the same store, whose cache is empty.
\<close>

datatype mg_op =
    OpAllocSync int "int option"
  | OpAllocJoin int "int option"
  | OpFinishSync int int
  | OpFinishJoin int int
  | OpFinishRaw int
  | OpAddRaw int "raw_data_meta list" bool
  | OpForwardPeer int int
  | OpGet int
  | OpList
  | OpLatest int
  | OpSub "int option"
  | OpRestart

fun mg_exec :: "'v mg_env \<Rightarrow> mg_op \<Rightarrow> 'v manager \<Rightarrow> 'v manager option" where
  "mg_exec en (OpAllocSync rank po) s = Some (snd (alloc_sync_exampld_id en rank po s))"
| "mg_exec en (OpAllocJoin rank po) s = Some (snd (alloc_join_example en rank po s))"
| "mg_exec en (OpFinishSync rank p) s = Some (snd (finish_sync_example_id en rank p s))"
| "mg_exec en (OpFinishJoin rank p) s = Some (snd (finish_join_example en rank p s))"
| "mg_exec en (OpFinishRaw p) s = Some (snd (finish_raw_data en p s))"
| "mg_exec en (OpAddRaw p ms dedup) s = Some (snd (add_raw_data en p ms dedup s))"
| "mg_exec en (OpForwardPeer p i) s = Some (snd (forward_peer_dumped_index en p i s))"
| "mg_exec en (OpGet p) s = Some (snd (get_manifest en p s))"
| "mg_exec en OpList s = Some (snd (list_all_manifest en s))"
| "mg_exec en (OpLatest p) s = Some (snd (get_raw_date_latest_timestamp en p s))"
| "mg_exec en (OpSub po) s = map_option snd (sub_new_raw_data en po s)"
| "mg_exec en OpRestart s = Some (snd (new_manager en (manager_init en (mg_kv s) (mg_faults s))))"

fun mg_run :: "'v mg_env \<Rightarrow> mg_op list \<Rightarrow> 'v manager \<Rightarrow> 'v manager option" where
  "mg_run en [] s = Some s"
| "mg_run en (x # xs) s = (case mg_exec en x s of None \<Rightarrow> None | Some s1 \<Rightarrow> mg_run en xs s1)"







section \<open>What the runs guarantee\<close>

instantiation sync_state :: linorder
begin

definition sync_rank :: "sync_state \<Rightarrow> nat" where
  "sync_rank s = (case s of UnSynced \<Rightarrow> 0 | Syncing \<Rightarrow> 1 | Synced \<Rightarrow> 2)"

definition less_eq_sync_state :: "sync_state \<Rightarrow> sync_state \<Rightarrow> bool" where
  "less_eq_sync_state a b \<longleftrightarrow> sync_rank a \<le> sync_rank b"

definition less_sync_state :: "sync_state \<Rightarrow> sync_state \<Rightarrow> bool" where
  "less_sync_state a b \<longleftrightarrow> sync_rank a < sync_rank b"

instance
  by standard (auto simp: less_eq_sync_state_def less_sync_state_def sync_rank_def
      split: sync_state.splits)

end

instantiation join_state :: linorder
begin

definition join_rank :: "join_state \<Rightarrow> nat" where
  "join_rank s = (case s of UnJoined \<Rightarrow> 0 | Joining \<Rightarrow> 1 | Joined \<Rightarrow> 2)"

definition less_eq_join_state :: "join_state \<Rightarrow> join_state \<Rightarrow> bool" where
  "less_eq_join_state a b \<longleftrightarrow> join_rank a \<le> join_rank b"

definition less_join_state :: "join_state \<Rightarrow> join_state \<Rightarrow> bool" where
  "less_join_state a b \<longleftrightarrow> join_rank a < join_rank b"

instance
  by standard (auto simp: less_eq_join_state_def less_join_state_def join_rank_def
      split: join_state.splits)

end

text \<open>How the manifest of a partition may develop.\<close>

definition mf_le :: "manifest \<Rightarrow> manifest \<Rightarrow> bool" where
  "mf_le m m1 \<longleftrightarrow>
     rp_state (mf_sync_example_id_rep m) \<le> rp_state (mf_sync_example_id_rep m1) \<and>
     rp_state (mf_join_example_rep m) \<le> rp_state (mf_join_example_rep m1) \<and>
     (rp_state (mf_sync_example_id_rep m) \<noteq> UnSynced \<longrightarrow>
        rp_rank_id (mf_sync_example_id_rep m1) = rp_rank_id (mf_sync_example_id_rep m)) \<and>
     (rp_state (mf_join_example_rep m) \<noteq> UnJoined \<longrightarrow>
        rp_rank_id (mf_join_example_rep m1) = rp_rank_id (mf_join_example_rep m)) \<and>
     (mf_finished m \<longrightarrow> mf_finished m1) \<and>
     mf_next_process_index m \<le> mf_next_process_index m1 \<and>
     mf_peer_dumped_index m \<le> mf_peer_dumped_index m1"

lemma mf_le_refl [simp]: "mf_le m m"
  by (simp add: mf_le_def)

lemma sync_state_le [simp]:
  "UnSynced \<le> s" "s \<le> Synced" "Syncing \<le> Synced" "\<not> Syncing \<le> UnSynced" "\<not> Synced \<le> UnSynced"
  "\<not> Synced \<le> Syncing"
  by (cases s; simp add: less_eq_sync_state_def sync_rank_def)+

lemma join_state_le [simp]:
  "UnJoined \<le> s" "s \<le> Joined" "Joining \<le> Joined" "\<not> Joining \<le> UnJoined" "\<not> Joined \<le> UnJoined"
  "\<not> Joined \<le> Joining"
  by (cases s; simp add: less_eq_join_state_def join_rank_def)+

lemma state_le_bot [simp]: "s \<le> UnSynced \<longleftrightarrow> s = UnSynced" "t \<le> UnJoined \<longleftrightarrow> t = UnJoined"
  by (cases s; simp) (cases t; simp)















section \<open>Properties\<close>





text \<open>Storing new files, on the store.\<close>

lemma store_loop_Inr:
  assumes "store_loop en p i ms s = (Inr j, s')"
  shows "j = i + int (length ms) \<and>
         (\<forall>k < length ms. metas_of en p s' (i + int k) =
            Some (print_meta (en_codec en) ((ms ! k)\<lparr>rm_start_index := - 1\<rparr>))) \<and>
         (\<forall>h. h < i \<longrightarrow> metas_of en p s' h = metas_of en p s h)"
  using assms
proof (induction ms arbitrary: i s)
  case (Cons m ms)
  let ?d = "print_meta (en_codec en) (m\<lparr>rm_start_index := - 1\<rparr>)"
  define s1 where "s1 = note_meta p i m (s\<lparr>mg_kv := AList.update (meta_key en p i) ?d (mg_kv s),
      mg_faults := tl (mg_faults s)\<rparr>)"
  have run: "store_loop en p (i + 1) ms s1 = (Inr j, s')"
    using Cons.prems by (auto simp: sx_bind_Inr kv_set_eq s1_def split: if_splits)
  have s1: "metas_of en p s1 = (metas_of en p s)(i \<mapsto> ?d)"
    by (auto simp: s1_def metas_of_def fun_eq_iff update_conv)
  note ih = Cons.IH [OF run]
  have "metas_of en p s' (i + int k) =
      Some (print_meta (en_codec en) (((m # ms) ! k)\<lparr>rm_start_index := - 1\<rparr>))"
    if "k < length (m # ms)" for k
  proof (cases k)
    case 0
    then show ?thesis using ih s1 by simp
  next
    case (Suc l)
    then have "metas_of en p s' (i + 1 + int l) =
        Some (print_meta (en_codec en) ((ms ! l)\<lparr>rm_start_index := - 1\<rparr>))"
      using ih that by simp
    then show ?thesis using Suc by (simp add: algebra_simps)
  qed
  moreover have "metas_of en p s' h = metas_of en p s h" if "h < i" for h
    using ih s1 that by simp
  ultimately show ?case using ih by auto
qed simp

lemma update_manifest_metas:
  "update_manifest en m s = (r, s') \<Longrightarrow> metas_of en p s' = metas_of en p s"
  by (auto simp: update_manifest_def set_local_def kv_set_eq sx_bind_def metas_of_def fun_eq_iff
      update_conv split: if_splits)

lemma store_metas_Inr:
  assumes "store_raw_data_metas en p ms s = (Inr u, s')" "mg_local s p = Some m"
    and "0 \<le> p" "p < en_partition_num en"
  shows "(\<forall>k < length ms. metas_of en p s' (mf_next_process_index m + int k) =
            Some (print_meta (en_codec en) ((ms ! k)\<lparr>rm_start_index := - 1\<rparr>))) \<and>
         (\<forall>h. h < mf_next_process_index m \<longrightarrow> metas_of en p s' h = metas_of en p s h)"
proof (cases "ms = []")
  case True
  then show ?thesis using assms(1) by (simp add: store_raw_data_metas_def)
next
  case False
  define s0 where "s0 = s\<lparr>mg_local := (mg_local s)(p := None)\<rparr>"
  have "store_tail en p ms m s = (Inr u, s')"
    using False assms(1) sync_cached [OF assms(2-4)]
    by (simp add: store_raw_data_metas_def sx_bind_def)
  then obtain j s1 where s1: "store_loop en p (mf_next_process_index m) ms s0 = (Inr j, s1)"
      "(if mf_next_process_index m \<noteq> j then update_manifest en (m\<lparr>mf_next_process_index := j\<rparr>)
        else set_local p (Some m)) s1 = (Inr u, s')"
    by (auto simp: sx_bind_Inr set_local_def s0_def)
  have "metas_of en p s' = metas_of en p s1"
    using s1(2) update_manifest_metas
    by (auto simp: set_local_def metas_of_def [abs_def] split: if_splits)
  moreover have "metas_of en p s0 = metas_of en p s" by (simp add: s0_def metas_of_def [abs_def])
  ultimately show ?thesis using store_loop_Inr [OF s1(1)] by simp
qed

text \<open>The candidates: distinct new paths, in the order of the request.\<close>

lemma add_candidates_Inr:
  assumes "add_candidates ex dedup seen ms = Inr cs"
  shows "distinct (map rm_file_path cs) \<and> set cs \<subseteq> set ms \<and>
         (\<forall>c \<in> set cs. ex (rm_file_path c) = None \<and> rm_file_path c \<notin> set seen) \<and>
         (\<forall>m \<in> set ms. ex (rm_file_path m) = None \<longrightarrow> rm_file_path m \<notin> set seen \<longrightarrow>
            rm_file_path m \<in> rm_file_path ` set cs) \<and>
         (\<not> dedup \<longrightarrow> cs = ms)"
  using assms
proof (induction ex dedup seen ms arbitrary: cs rule: add_candidates.induct)
  case (1 ex dedup seen)
  then show ?case by simp
next
  case (2 ex dedup seen m ms)
  show ?case
  proof (cases "ex (rm_file_path m) \<noteq> None \<or> rm_file_path m \<in> set seen")
    case True
    then have "dedup" "add_candidates ex dedup seen ms = Inr cs"
      using "2.prems" by (auto split: if_splits)
    then show ?thesis using "2.IH"(1) [OF True] True by auto
  next
    case False
    then obtain cs1 where cs1: "add_candidates ex dedup (rm_file_path m # seen) ms = Inr cs1" "cs = m # cs1"
      using "2.prems" by (auto simp: bind_result_Inr_iff)
    have new: "ex (rm_file_path m) = None" "rm_file_path m \<notin> set seen"
      using False by (cases "ex (rm_file_path m)"; simp)+
    show ?thesis using "2.IH"(2) [OF False cs1(1)] cs1(2) new by auto
  qed
qed

text \<open>
  A successful addition of raw data files appends exactly the files of the request
  that are new to the manager, each path once and in order, behind the files that the
  partition has, with consecutive numbers and their start index unset; the existing
  entries do not change, and without deduplication the request has no known file.
\<close>

theorem add_raw_data_appends:
  assumes "codec_ok (en_codec en)" "mg_run en ops (manager_init en [] faults) = Some s"
    and "mg_local s p = Some m" "0 \<le> p" "p < en_partition_num en"
    and "add_raw_data en p ms dedup s = (Inr (), s')"
  shows "\<exists>cs. add_candidates (mg_existed_fpath s) dedup [] ms = Inr cs \<and>
           distinct (map rm_file_path cs) \<and>
           (\<forall>x \<in> set ms. mg_existed_fpath s (rm_file_path x) = None \<longrightarrow>
              rm_file_path x \<in> rm_file_path ` set cs) \<and>
           (\<not> dedup \<longrightarrow> cs = ms) \<and>
           (\<forall>k < length cs. map_of (mg_kv s') (meta_key en p (mf_next_process_index m + int k)) =
              Some (print_meta (en_codec en) ((cs ! k)\<lparr>rm_start_index := - 1\<rparr>))) \<and>
           (\<forall>h < mf_next_process_index m.
              map_of (mg_kv s') (meta_key en p h) = map_of (mg_kv s) (meta_key en p h))"
proof -
  obtain cs where cs: "add_candidates (mg_existed_fpath s) dedup [] ms = Inr cs"
      "store_raw_data_metas en p cs s = (Inr (), s')"
    using assms(6) sync_cached [OF assms(3-5)] assms(4,5)
    by (auto simp: add_raw_data_def sx_bind_Inr sx_assert_def check_partition_id_def
        split: if_splits sum.splits)
  show ?thesis
    using add_candidates_Inr [OF cs(1)] store_metas_Inr [OF cs(2) assms(3-5)] cs(1)
    by (auto simp: metas_of_def)
qed

text \<open>The subscription.\<close>

lemma scan_pubs_unset:
  assumes "map_of kv (raw_data_pub_kvstore_key dir p i) = Some d" "parse_pub c d = PubUnset"
  shows "scan_pubs c dir p kv i acc = None"
proof -
  let ?P = "\<lambda>c dir p kv i acc r.
      \<not> (map_of kv (raw_data_pub_kvstore_key dir p i) = Some d \<and> parse_pub c d = PubUnset)"
  have "?P c dir p kv i acc r" if "scan_pubs c dir p kv i acc = Some r" for r
    by (rule scan_pubs.raw_induct [where P = ?P, OF _ that])
      (auto split: option.splits raw_data_pub.splits)
  then show ?thesis using assms by (cases "scan_pubs c dir p kv i acc") auto
qed

text \<open>
  A published entry with neither its file nor its end mark set makes the subscription
  of its partition loop for ever: the call does not return, while it holds the manager's
  lock.
\<close>

theorem unset_pub_blocks:
  assumes "sync_manifest en p s = (Inr m, s1)" "\<not> mf_finished m" "en_raw_data_sub_dir en \<noteq> []"
    and "map_of (mg_kv s1) (raw_data_pub_kvstore_key (en_raw_data_sub_dir en) p
           (mf_next_raw_data_sub_index m)) = Some d"
    and "parse_pub (en_codec en) d = PubUnset"
  shows "try_to_sub_raw_data en p s = None"
  using assms scan_pubs_unset [OF assms(4,5)] by (simp add: try_to_sub_raw_data_def)

subsection \<open>A concrete store\<close>

datatype kv_data = KManifest manifest | KMeta raw_data_meta | KPub raw_data_pub

definition sample_codec :: "kv_data codec" where
  "sample_codec =
     \<lparr>print_manifest = KManifest,
      parse_manifest = (\<lambda>d. case d of KManifest m \<Rightarrow> m | _ \<Rightarrow> fresh_manifest 0),
      print_meta = KMeta,
      parse_meta = (\<lambda>d. case d of KMeta m \<Rightarrow> m
        | _ \<Rightarrow> \<lparr>rm_file_path = [], rm_start_index = 0, rm_timestamp = (0, 0)\<rparr>),
      parse_pub = (\<lambda>d. case d of KPub x \<Rightarrow> x | _ \<Rightarrow> PubUnset)\<rparr>"

lemma sample_codec_ok: "codec_ok sample_codec"
  by (simp add: codec_ok_def sample_codec_def)

definition sample_env :: "string \<Rightarrow> kv_data mg_env" where
  "sample_env sub_dir =
     \<lparr>en_codec = sample_codec, en_name = ''ds'', en_raw_data_sub_dir = sub_dir,
      en_partition_num = 1, en_is_leader = True, en_batch_mode = False, en_state = DsInit\<rparr>"

definition sample_meta :: raw_data_meta where
  "sample_meta = \<lparr>rm_file_path = ''f'', rm_start_index = - 1, rm_timestamp = (0, 0)\<rparr>"

definition sample_kv :: "(string \<times> kv_data) list" where
  "sample_kv = [(raw_data_pub_kvstore_key ''pub'' 0 0, KPub (PubMeta sample_meta))]"

text \<open>Which paths the store of a run has for the partition.\<close>

definition stored_paths :: "kv_data mg_env \<Rightarrow> kv_data manager option \<Rightarrow> string option list" where
  "stored_paths en so =
     (case so of
        None \<Rightarrow> []
      | Some s \<Rightarrow> map (\<lambda>i. map_option (\<lambda>d. rm_file_path (parse_meta (en_codec en) d))
                          (map_of (mg_kv s) (meta_key en 0 i))) [0, 1])"

text \<open>
  A write that fails between storing the subscribed files and recording how far the
  subscription has come makes the next subscription store them again: one published file
  is in the partition twice. (The writes are the fresh manifest, the file, its count and
  the subscription index, of which the fourth fails.)
\<close>

theorem resubscribe_duplicates:
  "stored_paths (sample_env ''pub'')
     (mg_run (sample_env ''pub'') [OpSub None, OpSub None]
        (manager_init (sample_env ''pub'') sample_kv [False, False, False, True])) =
   [Some ''f'', Some ''f'']"
  by code_simp

subsection \<open>Witnesses\<close>

definition two_env :: "kv_data mg_env" where
  "two_env = (sample_env '''')\<lparr>en_partition_num := 2\<rparr>"

lemma two_env_codec: "codec_ok (en_codec two_env)"
  by (simp add: two_env_def sample_env_def sample_codec_ok)

definition two_init :: "kv_data manager" where
  "two_init = manager_init two_env [] []"

definition allocated :: "int \<Rightarrow> int \<Rightarrow> manifest" where
  "allocated p rank =
     (fresh_manifest p)\<lparr>mf_sync_example_id_rep := \<lparr>rp_state = Syncing, rp_rank_id = rank\<rparr>\<rparr>"

definition after_alloc :: "kv_data manager" where
  "after_alloc = snd (alloc_sync_exampld_id two_env 3 None two_init)"


lemma first_alloc_local: "mg_local after_alloc 0 = Some (allocated 0 3)"
  by code_simp



lemma alloc_run: "mg_run two_env [OpAllocSync 3 None] (manager_init two_env [] []) = Some after_alloc"
  by (simp add: after_alloc_def two_init_def)





lemma sample_add:
  "fst (add_raw_data two_env 0 [sample_meta, sample_meta] True after_alloc) = Inr ()"
  by code_simp

theorem add_raw_data_appends_witness:
  "\<exists>s' (cs :: raw_data_meta list). add_raw_data two_env 0 [sample_meta, sample_meta] True after_alloc = (Inr (), s') \<and>
     distinct (map rm_file_path cs) \<and> rm_file_path sample_meta \<in> rm_file_path ` set cs"
proof -
  obtain s' where s': "add_raw_data two_env 0 [sample_meta, sample_meta] True after_alloc = (Inr (), s')"
    by (metis sample_add prod.collapse)
  have pn: "0 \<le> (0 :: int)" "0 < en_partition_num two_env" by (simp_all add: two_env_def)
  have new: "mg_existed_fpath after_alloc (rm_file_path sample_meta) = None" by code_simp
  obtain cs :: "raw_data_meta list" where "distinct (map rm_file_path cs)"
      "\<forall>x \<in> set [sample_meta, sample_meta]. mg_existed_fpath after_alloc (rm_file_path x) = None \<longrightarrow>
         rm_file_path x \<in> rm_file_path ` set cs"
    using add_raw_data_appends [OF two_env_codec alloc_run first_alloc_local pn s']
    by (elim exE conjE) (rule that, assumption+)
  then show ?thesis using s' new by auto
qed

definition unset_kv :: "(string \<times> kv_data) list" where
  "unset_kv = [(raw_data_pub_kvstore_key ''pub'' 0 0, KPub PubUnset)]"

definition unset_init :: "kv_data manager" where
  "unset_init = (manager_init (sample_env ''pub'') unset_kv [])
     \<lparr>mg_local := (\<lambda>_. None)(0 \<mapsto> fresh_manifest 0)\<rparr>"

theorem unset_pub_blocks_witness:
  "try_to_sub_raw_data (sample_env ''pub'') 0 unset_init = None"
proof (rule unset_pub_blocks [where d = "KPub PubUnset"])
  show "sync_manifest (sample_env ''pub'') 0 unset_init = (Inr (fresh_manifest 0), unset_init)"
    by (rule sync_cached) (simp_all add: unset_init_def sample_env_def)
qed (simp_all add: fresh_manifest_def sample_env_def unset_init_def manager_init_def unset_kv_def
    sample_codec_def)

end
