(* ===== verification/Publisher.thy ===== *)
theory Publisher
  imports Kv_Store Manifest
begin

text \<open>
  Publishing raw data files (\<open>data_join/raw_data_publisher.py\<close>). Several publishers share one
  kv store; each call of \<open>get_data\<close> or \<open>cas\<close> is one step, and the publishers take their
  steps in any order. A publisher is a small machine whose phases are the places in
  \<open>publish_raw_data\<close>, \<open>finish_raw_data\<close>, \<open>_forward_pub_index\<close> and \<open>_check_finish_tag\<close> at which the
  code calls the store. The store is any \<open>kv_backend\<close>.
\<close>

section \<open>Publishers\<close>

record pub_env =
  pe_dir :: string
  pe_print :: "raw_data_pub \<Rightarrow> kv_value"
  pe_parse :: "kv_value \<Rightarrow> raw_data_pub result"

text \<open>Text that was printed and stored parses to the entry again.\<close>

definition pub_codec_ok :: "pub_env \<Rightarrow> bool" where
  "pub_codec_ok en \<longleftrightarrow> (\<forall>x. pe_parse en (encode_value (pe_print en x)) = Inr x)"

definition pub_key :: "pub_env \<Rightarrow> int \<Rightarrow> int \<Rightarrow> string" where
  "pub_key en p i = raw_data_pub_kvstore_key (pe_dir en) p i"

datatype pub_phase =
    Searching int int      \<comment> \<open>the binary search, with its bounds\<close>
  | Forwarding int         \<comment> \<open>the linear search of later rounds\<close>
  | Checking int           \<comment> \<open>\<open>_check_finish_tag\<close> on the entry before\<close>
  | Swapping int           \<comment> \<open>the compare-and-swap\<close>
  | Pub_done
  | Pub_raised py_exn

text \<open>
  \<open>pb_items\<close>: the entries from \<open>item_index\<close> on. \<open>pb_history\<close> is not in the code: the indices
  at which this publisher succeeded.
\<close>

record publisher =
  pb_partition_id :: int
  pb_items :: "raw_data_pub list"
  pb_phase :: pub_phase
  pb_history :: "(int \<times> raw_data_pub) list"

definition new_publisher :: "int \<Rightarrow> raw_data_pub list \<Rightarrow> publisher" where
  "new_publisher p items =
     \<lparr>pb_partition_id = p, pb_items = items,
      pb_phase = (if items = [] then Pub_done else Searching 0 (2 ^ 63)), pb_history = []\<rparr>"

text \<open>
  The checks before the loop of \<open>publish_raw_data\<close>; \<open>exists_file\<close> is \<open>gfile.Exists\<close>. Without
  files nothing is published.
\<close>

fun make_pubs ::
    "(string \<Rightarrow> bool) \<Rightarrow> string list \<Rightarrow> (int \<times> int) list option \<Rightarrow> raw_data_pub list result" where
  "make_pubs exists_file [] timestamps = Inr []"
| "make_pubs exists_file (fpath # fpaths) timestamps =
     (if \<not> exists_file fpath then Inl ValueError
      else bind_result (make_pubs exists_file fpaths (map_option tl timestamps)) (\<lambda>pubs.
        Inr (PubMeta \<lparr>rm_file_path = fpath, rm_start_index = - 1,
               rm_timestamp = (case timestamps of None \<Rightarrow> (0, 0) | Some ts \<Rightarrow> hd ts)\<rparr> # pubs)))"

definition publish_raw_data ::
    "(string \<Rightarrow> bool) \<Rightarrow> int \<Rightarrow> string list \<Rightarrow> (int \<times> int) list option \<Rightarrow> publisher result" where
  "publish_raw_data exists_file p fpaths timestamps =
     (if fpaths = [] then Inr (new_publisher p [])
      else if (case timestamps of None \<Rightarrow> False | Some ts \<Rightarrow> length fpaths \<noteq> length ts)
      then Inl RuntimeError
      else bind_result (make_pubs exists_file fpaths timestamps) (\<lambda>pubs. Inr (new_publisher p pubs)))"

definition finish_raw_data_pub :: "int \<Rightarrow> publisher" where
  "finish_raw_data_pub p = new_publisher p [PubFinished]"

text \<open>The files that the warning at the end lists; \<open>count\<close> of them were to be published.\<close>

definition unpublished_warning :: "nat \<Rightarrow> raw_data_pub list \<Rightarrow> raw_data_pub list" where
  "unpublished_warning count items = (if count - length items < count - 1 then items else [])"

section \<open>Steps\<close>

definition forward_pub_index ::
    "pub_env \<Rightarrow> (string \<Rightarrow> 's \<Rightarrow> kv_value option result) \<Rightarrow> int \<Rightarrow> pub_phase \<Rightarrow> 's \<Rightarrow> pub_phase" where
  "forward_pub_index en get p ph s =
     (case ph of
        Searching left_index right_index \<Rightarrow>
          if left_index \<le> right_index
          then let index = (left_index + right_index) div 2
               in (case get (pub_key en p index) s of
                     Inl e \<Rightarrow> Pub_raised e
                   | Inr (Some _) \<Rightarrow> Searching (index + 1) right_index
                   | Inr None \<Rightarrow> Searching left_index (index - 1))
          else Checking (right_index + 1)
      | Forwarding next_pub_index \<Rightarrow>
          (case get (pub_key en p next_pub_index) s of
             Inl e \<Rightarrow> Pub_raised e
           | Inr None \<Rightarrow> Checking next_pub_index
           | Inr (Some _) \<Rightarrow> Forwarding (next_pub_index + 1))
      | _ \<Rightarrow> ph)"

definition check_finish_tag ::
    "pub_env \<Rightarrow> (string \<Rightarrow> 's \<Rightarrow> kv_value option result) \<Rightarrow> int \<Rightarrow> int \<Rightarrow> 's \<Rightarrow> bool result" where
  "check_finish_tag en get p last_index s =
     (if 0 \<le> last_index
      then bind_result (get (pub_key en p last_index) s) (\<lambda>r.
             case r of
               None \<Rightarrow> Inr False
             | Some data \<Rightarrow> bind_result (pe_parse en data) (\<lambda>x. Inr (x = PubFinished)))
      else Inr False)"

definition publisher_step ::
    "pub_env \<Rightarrow> (string \<Rightarrow> 's \<Rightarrow> kv_value option result) \<Rightarrow>
     (string \<Rightarrow> kv_value option \<Rightarrow> kv_value \<Rightarrow> 's \<Rightarrow> (bool \<times> 's) result) \<Rightarrow>
     publisher \<Rightarrow> 's \<Rightarrow> publisher \<times> 's" where
  "publisher_step en get cas pb s =
     (let p = pb_partition_id pb in
      case pb_phase pb of
        Checking n \<Rightarrow>
          (case check_finish_tag en get p (n - 1) s of
             Inl e \<Rightarrow> (pb\<lparr>pb_phase := Pub_raised e\<rparr>, s)
           | Inr True \<Rightarrow> (pb\<lparr>pb_phase := Pub_done\<rparr>, s)
           | Inr False \<Rightarrow> (pb\<lparr>pb_phase := Swapping n\<rparr>, s))
      | Swapping n \<Rightarrow>
          (case pb_items pb of
             [] \<Rightarrow> (pb\<lparr>pb_phase := Pub_done\<rparr>, s)
           | x # xs \<Rightarrow>
               (case cas (pub_key en p n) None (pe_print en x) s of
                  Inl e \<Rightarrow> (pb\<lparr>pb_phase := Pub_raised e\<rparr>, s)
                | Inr (False, s') \<Rightarrow> (pb\<lparr>pb_phase := Forwarding n\<rparr>, s')
                | Inr (True, s') \<Rightarrow>
                    (pb\<lparr>pb_items := xs, pb_phase := (if xs = [] then Pub_done else Forwarding (n + 1)),
                        pb_history := pb_history pb @ [(n, x)]\<rparr>, s')))
      | ph \<Rightarrow> (pb\<lparr>pb_phase := forward_pub_index en get p ph s\<rparr>, s))"

text \<open>All publishers; a schedule says who makes the next step.\<close>

definition publishers_step ::
    "pub_env \<Rightarrow> (string \<Rightarrow> 's \<Rightarrow> kv_value option result) \<Rightarrow>
     (string \<Rightarrow> kv_value option \<Rightarrow> kv_value \<Rightarrow> 's \<Rightarrow> (bool \<times> 's) result) \<Rightarrow>
     nat \<Rightarrow> publisher list \<times> 's \<Rightarrow> publisher list \<times> 's" where
  "publishers_step en get cas a ps_s =
     (let (ps, s) = ps_s in
      if a < length ps
      then let (pb, s') = publisher_step en get cas (ps ! a) s in (ps[a := pb], s')
      else (ps, s))"

primrec publishers_run ::
    "pub_env \<Rightarrow> (string \<Rightarrow> 's \<Rightarrow> kv_value option result) \<Rightarrow>
     (string \<Rightarrow> kv_value option \<Rightarrow> kv_value \<Rightarrow> 's \<Rightarrow> (bool \<times> 's) result) \<Rightarrow>
     nat list \<Rightarrow> publisher list \<times> 's \<Rightarrow> publisher list \<times> 's" where
  "publishers_run en get cas [] ps_s = ps_s"
| "publishers_run en get cas (a # as) ps_s =
     publishers_run en get cas as (publishers_step en get cas a ps_s)"

section \<open>Keys\<close>

lemma dropWhile_to: "\<not> P y \<Longrightarrow> dropWhile P (xs @ y # ys) = dropWhile P xs @ y # ys"
  by (induction xs) auto

lemma pub_key_normal:
  "\<exists>d. \<forall>p i. normalize_input_key (pub_key en p i) =
     Inr (d @ partition_repr p @ CHR ''/'' # fmt_int 8 i @ ''.pub'')"
proof -
  let ?dir = "pe_dir en"
  define d where "d = (if ?dir = [] \<or> suffix ''/'' ?dir then ?dir else ?dir @ ''/'')"
  have inner: "path_join ?dir (partition_repr p) = d @ partition_repr p" for p
    by (auto simp: path_join_def d_def partition_repr_def)
  have "\<not> prefix ''/'' (fmt_int 8 i @ ''.pub'')" for i
    using no_slash [of 8 i] by (cases "fmt_int 8 i") auto
  moreover have "\<not> suffix ''/'' (d @ partition_repr p) \<and> d @ partition_repr p \<noteq> []" for p
    using last_not_slash [of "partition_repr p"] by (simp add: partition_repr_def)
  ultimately have key: "pub_key en p i = d @ partition_repr p @ CHR ''/'' # fmt_int 8 i @ ''.pub''" for p i
    by (simp add: pub_key_def raw_data_pub_kvstore_key_def inner path_join_plain)
  have "dropWhile skip_char (pub_key en p i) =
      dropWhile skip_char d @ partition_repr p @ CHR ''/'' # fmt_int 8 i @ ''.pub''" for p i
    unfolding key by (simp add: partition_repr_def dropWhile_to skip_char_def)
  then show ?thesis
    by (intro exI [of _ "dropWhile skip_char d"]) (simp add: normalize_input_key_def partition_repr_def)
qed

definition pub_keys_ok :: "pub_env \<Rightarrow> (string \<Rightarrow> string result) \<Rightarrow> bool" where
  "pub_keys_ok en norm \<longleftrightarrow>
     (\<forall>p i. \<exists>n. norm (pub_key en p i) = Inr n) \<and>
     (\<forall>p i q j. norm (pub_key en p i) = norm (pub_key en q j) \<longrightarrow> p = q \<and> i = j)"

lemma pub_keys_normal: "pub_keys_ok en normalize_input_key"
proof -
  obtain d where d: "\<And>p i. normalize_input_key (pub_key en p i) =
     Inr (d @ partition_repr p @ CHR ''/'' # fmt_int 8 i @ ''.pub'')"
    using pub_key_normal by blast
  show ?thesis
    using slash_split [of "partition_repr _" "partition_repr _"] by (auto simp: pub_keys_ok_def d)
qed

section \<open>The invariant\<close>

type_synonym pub_view = "int \<Rightarrow> int \<Rightarrow> kv_value option"

definition pub_value ::
    "pub_env \<Rightarrow> (string \<Rightarrow> 's \<Rightarrow> kv_value option result) \<Rightarrow> 's \<Rightarrow> pub_view" where
  "pub_value en get s p i = (case get (pub_key en p i) s of Inr r \<Rightarrow> r | Inl _ \<Rightarrow> None)"

definition stored_pub :: "pub_env \<Rightarrow> raw_data_pub \<Rightarrow> kv_value option" where
  "stored_pub en x = Some (encode_value (pe_print en x))"

lemma stored_pub_inj: "pub_codec_ok en \<Longrightarrow> stored_pub en x = stored_pub en y \<Longrightarrow> x = y"
  unfolding pub_codec_ok_def stored_pub_def by (metis option.inject sum.inject(2))

text \<open>Entries \<open>0, \<dots>, n - 1\<close> of a partition are there, and only the last may be the end mark.\<close>

definition pubs_upto :: "pub_env \<Rightarrow> pub_view \<Rightarrow> int \<Rightarrow> int \<Rightarrow> bool" where
  "pubs_upto en V p n \<longleftrightarrow>
     0 \<le> n \<and> (\<forall>i. 0 \<le> i \<longrightarrow> (V p i \<noteq> None) = (i < n)) \<and>
     (\<forall>i. 0 \<le> i \<longrightarrow> i < n \<longrightarrow> (\<exists>x. V p i = stored_pub en x)) \<and>
     (\<forall>i. 0 \<le> i \<longrightarrow> i + 1 < n \<longrightarrow> V p i \<noteq> stored_pub en PubFinished)"

definition reaches :: "pub_view \<Rightarrow> int \<Rightarrow> int \<Rightarrow> bool" where
  "reaches V p n \<longleftrightarrow> n = 0 \<or> (0 < n \<and> V p (n - 1) \<noteq> None)"

fun phase_ok :: "pub_env \<Rightarrow> pub_view \<Rightarrow> publisher \<Rightarrow> pub_phase \<Rightarrow> bool" where
  "phase_ok en V pb (Searching l r) \<longleftrightarrow>
     l \<le> r + 1 \<and> reaches V (pb_partition_id pb) l \<and> pb_history pb = []"
| "phase_ok en V pb (Forwarding n) \<longleftrightarrow>
     reaches V (pb_partition_id pb) n \<and> (\<forall>e \<in> set (pb_history pb). fst e < n)"
| "phase_ok en V pb (Checking n) \<longleftrightarrow>
     reaches V (pb_partition_id pb) n \<and> (\<forall>e \<in> set (pb_history pb). fst e < n)"
| "phase_ok en V pb (Swapping n) \<longleftrightarrow>
     reaches V (pb_partition_id pb) n \<and> (\<forall>e \<in> set (pb_history pb). fst e < n) \<and>
     (n = 0 \<or> V (pb_partition_id pb) (n - 1) \<noteq> stored_pub en PubFinished)"
| "phase_ok en V pb Pub_done \<longleftrightarrow>
     pb_items pb = [] \<or> (\<exists>k \<ge> 0. V (pb_partition_id pb) k = stored_pub en PubFinished)"
| "phase_ok en V pb (Pub_raised e) \<longleftrightarrow> False"

definition history_ok :: "pub_env \<Rightarrow> pub_view \<Rightarrow> publisher \<Rightarrow> bool" where
  "history_ok en V pb \<longleftrightarrow>
     sorted_wrt (<) (map fst (pb_history pb)) \<and>
     (\<forall>(i, x) \<in> set (pb_history pb). 0 \<le> i \<and> V (pb_partition_id pb) i = stored_pub en x)"

definition publisher_ok :: "pub_env \<Rightarrow> pub_view \<Rightarrow> publisher \<Rightarrow> bool" where
  "publisher_ok en V pb \<longleftrightarrow> phase_ok en V pb (pb_phase pb) \<and> history_ok en V pb"

text \<open>Values stay once they are there; everything a publisher knows then stays true.\<close>

definition view_le :: "pub_view \<Rightarrow> pub_view \<Rightarrow> bool" where
  "view_le V V' \<longleftrightarrow> (\<forall>p i. V p i \<noteq> None \<longrightarrow> V' p i = V p i)"

lemma view_le_refl [simp]: "view_le V V"
  by (simp add: view_le_def)

lemma view_le_trans: "view_le U V \<Longrightarrow> view_le V W \<Longrightarrow> view_le U W"
  by (auto simp: view_le_def)

lemma reaches_mono: "view_le V V' \<Longrightarrow> reaches V p n \<Longrightarrow> reaches V' p n"
  by (auto simp: view_le_def reaches_def)

lemma stored_mono: "view_le V V' \<Longrightarrow> V p i = stored_pub en x \<Longrightarrow> V' p i = stored_pub en x"
  by (simp add: view_le_def stored_pub_def)

lemma phase_mono: "view_le V V' \<Longrightarrow> phase_ok en V pb ph \<Longrightarrow> phase_ok en V' pb ph"
proof (induction en V pb ph rule: phase_ok.induct)
  case (4 en V pb n)
  have "V' (pb_partition_id pb) (n - 1) = V (pb_partition_id pb) (n - 1)" if "n \<noteq> 0"
    using 4 that by (auto simp: reaches_def view_le_def)
  then show ?case using 4 reaches_mono [OF 4(1)] by auto
next
  case (5 en V pb)
  then show ?case using stored_mono by (fastforce simp del: One_nat_def)
qed (auto intro: reaches_mono)

lemma history_mono: "view_le V V' \<Longrightarrow> history_ok en V pb \<Longrightarrow> history_ok en V' pb"
  unfolding history_ok_def using stored_mono by fastforce

lemma publisher_mono: "view_le V V' \<Longrightarrow> publisher_ok en V pb \<Longrightarrow> publisher_ok en V' pb"
  using phase_mono history_mono unfolding publisher_ok_def by blast

text \<open>The new entry extends the sequence, because its predecessor is there and is not the end mark.\<close>

lemma pubs_upto_extend:
  assumes "pubs_upto en V p m" "V p n = None" "reaches V p n"
    and "n = 0 \<or> V p (n - 1) \<noteq> stored_pub en PubFinished"
  shows "n = m" "pubs_upto en (V(p := (V p)(n := stored_pub en x))) p (m + 1)"
proof -
  have ex: "\<And>i. 0 \<le> i \<Longrightarrow> (V p i \<noteq> None) = (i < m)" "0 \<le> m"
    using assms(1) by (auto simp: pubs_upto_def)
  have "0 \<le> n" using assms(3) by (auto simp: reaches_def)
  then have "m \<le> n" using ex(1) [of n] assms(2) by simp
  moreover have "n \<le> m"
  proof (cases "n = 0")
    case False
    then have "0 < n" "V p (n - 1) \<noteq> None" using assms(3) by (auto simp: reaches_def)
    then show ?thesis using ex(1) [of "n - 1"] by simp
  qed (use ex in simp)
  ultimately show n: "n = m" by simp
  let ?V = "V(p := (V p)(n := stored_pub en x))"
  have "\<exists>y. ?V p i = stored_pub en y" if i: "0 \<le> i" "i < m + 1" for i
  proof (cases "i = m")
    case False
    then have "i < m" using i(2) by simp
    then show ?thesis using i(1) assms(1) False n by (simp add: pubs_upto_def)
  qed (use n in auto)
  moreover have "?V p i \<noteq> stored_pub en PubFinished" if i: "0 \<le> i" "i + 1 < m + 1" for i
  proof (cases "i + 1 = m")
    case True
    then have "i = n - 1" using n by simp
    then show ?thesis using assms(4) n i by auto
  next
    case False
    then have "i + 1 < m" using i(2) by simp
    then show ?thesis using i(1) assms(1) n by (auto simp: pubs_upto_def)
  qed
  moreover have "(?V p i \<noteq> None) = (i < m + 1)" if "0 \<le> i" for i
    using ex(1) [OF that] n by (auto simp: stored_pub_def)
  ultimately show "pubs_upto en ?V p (m + 1)"
    using ex(2) unfolding pubs_upto_def by simp
qed

lemma pubs_upto_other: "q \<noteq> p \<Longrightarrow> pubs_upto en (V(p := f)) q m \<longleftrightarrow> pubs_upto en V q m"
  by (simp add: pubs_upto_def)

section \<open>One step on any backend\<close>

text \<open>\<open>step_effect\<close>: a step changes nothing but the phase, or adds one entry at the end.\<close>

definition step_effect ::
    "pub_env \<Rightarrow> pub_view \<Rightarrow> pub_view \<Rightarrow> publisher \<Rightarrow> publisher \<Rightarrow> bool" where
  "step_effect en V V' pb pb' \<longleftrightarrow>
     pb_partition_id pb' = pb_partition_id pb \<and>
     map snd (pb_history pb') @ pb_items pb' = map snd (pb_history pb) @ pb_items pb \<and>
     publisher_ok en V' pb' \<and> view_le V V' \<and>
     ((V' = V \<and> pb_history pb' = pb_history pb) \<or>
      (\<exists>n x. pb_history pb' = pb_history pb @ [(n, x)] \<and>
         V' = V(pb_partition_id pb := (V (pb_partition_id pb))(n := stored_pub en x)) \<and>
         pubs_upto en V (pb_partition_id pb) n \<and> pubs_upto en V' (pb_partition_id pb) (n + 1)))"

lemma step_effect_phase:
  assumes "publisher_ok en V pb" "phase_ok en V (pb\<lparr>pb_phase := ph\<rparr>) ph"
  shows "step_effect en V V pb (pb\<lparr>pb_phase := ph\<rparr>)"
  using assms by (simp add: step_effect_def publisher_ok_def history_ok_def)

context kv_backend
begin

lemma get_view:
  "pub_keys_ok en norm \<Longrightarrow> get (pub_key en p i) s = Inr (pub_value en get s p i)"
proof -
  assume "pub_keys_ok en norm"
  then obtain k where "norm (pub_key en p i) = Inr k" unfolding pub_keys_ok_def by blast
  then obtain r where "get (pub_key en p i) s = Inr r" using get_ok by blast
  then show ?thesis by (simp add: pub_value_def)
qed

lemma cas_view:
  assumes keys: "pub_keys_ok en norm"
  obtains "cas (pub_key en p n) None d s = Inr (False, s)" "pub_value en get s p n \<noteq> None"
    | s' where "cas (pub_key en p n) None d s = Inr (True, s')" "pub_value en get s p n = None"
      "pub_value en get s' = (pub_value en get s)(p := (pub_value en get s p)(n := Some (encode_value d)))"
proof -
  obtain k where k: "norm (pub_key en p n) = Inr k" using keys unfolding pub_keys_ok_def by blast
  obtain b s' where c: "cas (pub_key en p n) None d s = Inr (b, s')" using cas_ok [OF k] by blast
  show ?thesis
  proof (cases b)
    case True
    have "get (pub_key en p n) s = Inr None" and pt: "put (pub_key en p n) d s = Inr s'"
      using cas_true [of "pub_key en p n" None d s s'] c True by auto
    then have none: "pub_value en get s p n = None" by (simp add: pub_value_def)
    have "pub_value en get s' q j =
        ((pub_value en get s)(p := (pub_value en get s p)(n := Some (encode_value d)))) q j" for q j
      using get_put [OF k pt, of "pub_key en q j"] keys unfolding pub_keys_ok_def pub_value_def
      by (cases "norm (pub_key en q j) = norm (pub_key en p n)") auto
    then show ?thesis using that(2) [of s'] c True none by (simp add: fun_eq_iff)
  next
    case False
    have "pub_value en get s p n \<noteq> None"
      using cas_absent [OF k, of s d] get_view [OF keys, of p n s] c False by auto
    then show ?thesis using that(1) c False cas_false [of "pub_key en p n" None d s s'] by simp
  qed
qed

lemma forward_effect:
  assumes keys: "pub_keys_ok en norm" and ok: "publisher_ok en (pub_value en get s) pb"
    and ph: "\<And>n. pb_phase pb \<noteq> Checking n" "\<And>n. pb_phase pb \<noteq> Swapping n"
  shows "step_effect en (pub_value en get s) (pub_value en get s) pb
     (pb\<lparr>pb_phase := forward_pub_index en get (pb_partition_id pb) (pb_phase pb) s\<rparr>)"
proof (rule step_effect_phase [OF ok])
  let ?V = "pub_value en get s" and ?p = "pb_partition_id pb"
  have p: "phase_ok en ?V pb (pb_phase pb)" using ok by (simp add: publisher_ok_def)
  have nonneg: "reaches ?V ?p n \<Longrightarrow> 0 \<le> n" for n by (auto simp: reaches_def)
  show "phase_ok en ?V (pb\<lparr>pb_phase := forward_pub_index en get ?p (pb_phase pb) s\<rparr>)
     (forward_pub_index en get ?p (pb_phase pb) s)"
  proof (cases "pb_phase pb")
    case (Searching l r)
    then have q: "l \<le> r + 1" "reaches ?V ?p l" "pb_history pb = []" using p by auto
    let ?i = "(l + r) div 2"
    show ?thesis
    proof (cases "l \<le> r")
      case True
      then have i: "l \<le> ?i" "?i \<le> r" by auto
      then show ?thesis
        using q True Searching get_view [OF keys, of ?p ?i s] nonneg [OF q(2)]
        by (cases "?V ?p ?i") (auto simp: forward_pub_index_def Let_def reaches_def)
    next
      case False
      then have "l = r + 1" using q(1) by simp
      then have "reaches ?V ?p (r + 1)" using q(2) by simp
      then show ?thesis using False Searching q by (simp add: forward_pub_index_def)
    qed
  next
    case (Forwarding n)
    then have q: "reaches ?V ?p n" "\<forall>e \<in> set (pb_history pb). fst e < n" using p by auto
    then show ?thesis
      using Forwarding get_view [OF keys, of ?p n s] nonneg [OF q(1)]
      by (cases "?V ?p n") (auto simp: forward_pub_index_def reaches_def)
  qed (use p ph in \<open>auto simp: forward_pub_index_def\<close>)
qed

lemma checking_effect:
  assumes keys: "pub_keys_ok en norm" and codec: "pub_codec_ok en"
    and upto: "pubs_upto en (pub_value en get s) (pb_partition_id pb) m"
    and ok: "publisher_ok en (pub_value en get s) pb" and ph: "pb_phase pb = Checking n"
    and step: "publisher_step en get cas pb s = (pb', s')"
  shows "s' = s" "step_effect en (pub_value en get s) (pub_value en get s) pb pb'"
proof -
  let ?V = "pub_value en get s" and ?p = "pb_partition_id pb"
  have q: "reaches ?V ?p n" "\<forall>e \<in> set (pb_history pb). fst e < n"
    using ok ph by (auto simp: publisher_ok_def)
  have "s' = s \<and> step_effect en ?V ?V pb pb'"
  proof (cases "n = 0")
    case True
    then have "pb' = pb\<lparr>pb_phase := Swapping n\<rparr> \<and> s' = s"
      using step ph by (simp add: publisher_step_def check_finish_tag_def)
    then show ?thesis using step_effect_phase [OF ok, of "Swapping n"] q True by simp
  next
    case False
    then have n: "0 < n" "?V ?p (n - 1) \<noteq> None" using q(1) by (auto simp: reaches_def)
    have "n - 1 < m" using n upto by (auto simp: pubs_upto_def)
    then obtain x where x: "?V ?p (n - 1) = stored_pub en x"
      using n(1) upto unfolding pubs_upto_def by force
    have chk: "check_finish_tag en get ?p (n - 1) s = Inr (x = PubFinished)"
      using n(1) x get_view [OF keys, of ?p "n - 1" s] codec
      by (simp add: check_finish_tag_def stored_pub_def pub_codec_ok_def)
    show ?thesis
    proof (cases "x = PubFinished")
      case True
      then have e: "pb' = pb\<lparr>pb_phase := Pub_done\<rparr>" "s' = s"
        using step ph chk by (auto simp: publisher_step_def)
      have "\<exists>k \<ge> 0. ?V ?p k = stored_pub en PubFinished"
        using x True n(1) by (intro exI [of _ "n - 1"]) simp
      then show ?thesis using step_effect_phase [OF ok, of Pub_done] e by simp
    next
      case False
      then have e: "pb' = pb\<lparr>pb_phase := Swapping n\<rparr>" "s' = s"
        using step ph chk by (auto simp: publisher_step_def)
      have "?V ?p (n - 1) \<noteq> stored_pub en PubFinished"
        using x False stored_pub_inj [OF codec] by auto
      then show ?thesis using step_effect_phase [OF ok, of "Swapping n"] q e by simp
    qed
  qed
  then show "s' = s" "step_effect en ?V ?V pb pb'" by auto
qed

lemma swapping_effect:
  assumes keys: "pub_keys_ok en norm"
    and upto: "pubs_upto en (pub_value en get s) (pb_partition_id pb) m"
    and ok: "publisher_ok en (pub_value en get s) pb" and ph: "pb_phase pb = Swapping n"
    and step: "publisher_step en get cas pb s = (pb', s')"
  shows "step_effect en (pub_value en get s) (pub_value en get s') pb pb'"
proof (cases "pb_items pb")
  case Nil
  then have "pb' = pb\<lparr>pb_phase := Pub_done\<rparr>" "s' = s"
    using step ph by (auto simp: publisher_step_def)
  then show ?thesis using step_effect_phase [OF ok, of Pub_done] Nil by simp
next
  case (Cons x xs)
  let ?V = "pub_value en get s" and ?p = "pb_partition_id pb"
  have q: "reaches ?V ?p n" "\<forall>e \<in> set (pb_history pb). fst e < n"
    "n = 0 \<or> ?V ?p (n - 1) \<noteq> stored_pub en PubFinished"
    using ok ph by (auto simp: publisher_ok_def)
  have n0: "0 \<le> n" using q(1) by (auto simp: reaches_def)
  show ?thesis
  proof (cases rule: cas_view [OF keys, of ?p n "pe_print en x" s])
    case 1
    then have "pb' = pb\<lparr>pb_phase := Forwarding n\<rparr>" "s' = s"
      using step ph Cons by (auto simp: publisher_step_def)
    then show ?thesis using step_effect_phase [OF ok, of "Forwarding n"] q by simp
  next
    case (2 s1)
    let ?V' = "pub_value en get s'"
    have e: "s' = s1" "pb' = pb\<lparr>pb_items := xs, pb_phase := (if xs = [] then Pub_done else Forwarding (n + 1)),
        pb_history := pb_history pb @ [(n, x)]\<rparr>"
      using step ph Cons 2(1) by (auto simp: publisher_step_def)
    have V': "?V' = ?V(?p := (?V ?p)(n := stored_pub en x))" using 2(3) e by (simp add: stored_pub_def)
    note ext = pubs_upto_extend [OF upto 2(2) q(1,3)]
    have le: "view_le ?V ?V'" unfolding V' using 2(2) by (simp add: view_le_def)
    have h: "history_ok en ?V' pb" using history_mono [OF le] ok by (simp add: publisher_ok_def)
    have "history_ok en ?V' pb'"
      using h q(2) n0 V' unfolding e by (auto simp: history_ok_def sorted_wrt_append)
    moreover have "phase_ok en ?V' pb' (pb_phase pb')"
      using q(2) n0 V' unfolding e by (auto simp: reaches_def stored_pub_def)
    moreover have "pubs_upto en ?V' ?p (n + 1)" "pubs_upto en ?V ?p n"
      using ext(2) [of x] upto unfolding V' ext(1) by auto
    ultimately show ?thesis
      using le V' Cons unfolding e(2) step_effect_def publisher_ok_def by auto
  qed
qed

lemma publisher_step_effect:
  assumes "pub_keys_ok en norm" "pub_codec_ok en"
    and "pubs_upto en (pub_value en get s) (pb_partition_id pb) m"
    and "publisher_ok en (pub_value en get s) pb"
    and step: "publisher_step en get cas pb s = (pb', s')"
  shows "step_effect en (pub_value en get s) (pub_value en get s') pb pb'"
proof -
  consider n where "pb_phase pb = Checking n" | n where "pb_phase pb = Swapping n"
    | "\<And>n. pb_phase pb \<noteq> Checking n" "\<And>n. pb_phase pb \<noteq> Swapping n" by blast
  then show ?thesis
  proof cases
    case 1
    then show ?thesis using checking_effect [OF assms(1-4) _ step] by simp
  next
    case 2
    then show ?thesis using swapping_effect [OF assms(1,3,4) _ step] by simp
  next
    case 3
    then have "pb' = pb\<lparr>pb_phase := forward_pub_index en get (pb_partition_id pb) (pb_phase pb) s\<rparr>" "s' = s"
      using step by (auto simp: publisher_step_def Let_def split: pub_phase.splits)
    then show ?thesis using forward_effect [OF assms(1,4) 3] by simp
  qed
qed

end

section \<open>All publishers together\<close>

text \<open>Every entry from \<open>lo\<close> to \<open>hi\<close> was added by exactly one publisher.\<close>

definition partition_history :: "int \<Rightarrow> publisher \<Rightarrow> (int \<times> raw_data_pub) list" where
  "partition_history p pb = (if pb_partition_id pb = p then pb_history pb else [])"

definition owned :: "publisher list \<Rightarrow> int \<Rightarrow> int \<Rightarrow> int \<Rightarrow> bool" where
  "owned ps p lo hi \<longleftrightarrow>
     (\<forall>a < length ps. \<forall>e \<in> set (partition_history p (ps ! a)). lo \<le> fst e \<and> fst e < hi) \<and>
     (\<forall>i. lo \<le> i \<longrightarrow> i < hi \<longrightarrow>
        (\<exists>!a. a < length ps \<and> i \<in> fst ` set (partition_history p (ps ! a))))"

definition publishers_ok ::
    "pub_env \<Rightarrow> (int \<Rightarrow> int) \<Rightarrow> (int \<times> raw_data_pub list) list \<Rightarrow> pub_view \<Rightarrow> publisher list \<Rightarrow> bool" where
  "publishers_ok en lo jobs V ps \<longleftrightarrow>
     length ps = length jobs \<and>
     (\<forall>a < length ps. publisher_ok en V (ps ! a) \<and> pb_partition_id (ps ! a) = fst (jobs ! a) \<and>
        map snd (pb_history (ps ! a)) @ pb_items (ps ! a) = snd (jobs ! a)) \<and>
     (\<forall>p. \<exists>m. lo p \<le> m \<and> pubs_upto en V p m \<and> owned ps p (lo p) m)"

lemma owned_frame:
  assumes "a < length ps" "partition_history p pb = partition_history p (ps ! a)"
  shows "owned (ps[a := pb]) p lo hi \<longleftrightarrow> owned ps p lo hi"
proof -
  have "partition_history p (ps[a := pb] ! b) = partition_history p (ps ! b)" for b
    using assms by (cases "b = a") auto
  then show ?thesis unfolding owned_def by simp
qed

lemma owned_extend:
  assumes own: "owned ps p lo n" and a: "a < length ps"
    and pb: "partition_history p pb = partition_history p (ps ! a) @ [(n, x)]" and lo: "lo \<le> n"
  shows "owned (ps[a := pb]) p lo (n + 1)"
proof -
  let ?ps = "ps[a := pb]"
  have mem: "i \<in> fst ` set (partition_history p (?ps ! b)) \<longleftrightarrow>
      i \<in> fst ` set (partition_history p (ps ! b)) \<or> (b = a \<and> i = n)" for i b
    using a pb by (cases "b = a") auto
  have bound: "i \<in> fst ` set (partition_history p (ps ! b)) \<Longrightarrow> b < length ps \<Longrightarrow> lo \<le> i \<and> i < n" for i b
    using own unfolding owned_def by auto
  have "lo \<le> i \<and> i < n + 1"
    if "b < length ?ps" "i \<in> fst ` set (partition_history p (?ps ! b))" for b i
  proof -
    from that(2) consider "i \<in> fst ` set (partition_history p (ps ! b))" | "i = n" using mem by blast
    then show ?thesis using bound [of i b] that(1) lo by cases auto
  qed
  moreover have "\<exists>!b. b < length ?ps \<and> i \<in> fst ` set (partition_history p (?ps ! b))"
    if i: "lo \<le> i" "i < n + 1" for i
  proof (cases "i = n")
    case True
    show ?thesis
    proof (rule ex1I [of _ a])
      show "a < length ?ps \<and> i \<in> fst ` set (partition_history p (?ps ! a))" using a pb True by simp
      show "b = a" if b: "b < length ?ps \<and> i \<in> fst ` set (partition_history p (?ps ! b))" for b
      proof (rule ccontr)
        assume "b \<noteq> a"
        then have "i \<in> fst ` set (partition_history p (ps ! b))" using b mem by blast
        then show False using bound [of i b] b True by simp
      qed
    qed
  next
    case False
    then have "\<exists>!b. b < length ps \<and> i \<in> fst ` set (partition_history p (ps ! b))"
      using own i by (simp add: owned_def)
    then show ?thesis using False by (simp only: mem length_list_update simp_thms)
  qed
  ultimately show ?thesis unfolding owned_def by blast
qed

lemma publishers_ok_step:
  assumes ok: "publishers_ok en lo jobs V ps" and a: "a < length ps"
    and eff: "step_effect en V V' (ps ! a) pb"
  shows "publishers_ok en lo jobs V' (ps[a := pb])"
proof -
  let ?p = "pb_partition_id (ps ! a)"
  have le: "view_le V V'" and pb: "pb_partition_id pb = ?p" "publisher_ok en V' pb"
    "map snd (pb_history pb) @ pb_items pb = map snd (pb_history (ps ! a)) @ pb_items (ps ! a)"
    using eff by (auto simp: step_effect_def)
  have each: "publisher_ok en V' (ps[a := pb] ! b) \<and> pb_partition_id (ps[a := pb] ! b) = fst (jobs ! b) \<and>
      map snd (pb_history (ps[a := pb] ! b)) @ pb_items (ps[a := pb] ! b) = snd (jobs ! b)"
    if b: "b < length ps" for b
  proof (cases "b = a")
    case True
    then show ?thesis using pb ok a by (simp add: publishers_ok_def)
  next
    case False
    then show ?thesis using b ok publisher_mono [OF le] by (simp add: publishers_ok_def)
  qed
  have "\<exists>m. lo p \<le> m \<and> pubs_upto en V' p m \<and> owned (ps[a := pb]) p (lo p) m" for p
  proof -
    obtain m where m: "lo p \<le> m" "pubs_upto en V p m" "owned ps p (lo p) m"
      using ok unfolding publishers_ok_def by blast
    consider (same) "V' = V" "pb_history pb = pb_history (ps ! a)"
      | (new) n x where "pb_history pb = pb_history (ps ! a) @ [(n, x)]"
        "V' = V(?p := (V ?p)(n := stored_pub en x))" "pubs_upto en V ?p n" "pubs_upto en V' ?p (n + 1)"
      using eff unfolding step_effect_def by blast
    then show ?thesis
    proof cases
      case same
      then have "partition_history p pb = partition_history p (ps ! a)"
        using pb(1) by (simp add: partition_history_def)
      then show ?thesis using m owned_frame [OF a] same(1) by blast
    next
      case new
      show ?thesis
      proof (cases "p = ?p")
        case True
        have "m = n"
        proof (rule ccontr)
          assume ne: "m \<noteq> n"
          have "0 \<le> m" "0 \<le> n" "\<And>i. 0 \<le> i \<Longrightarrow> (i < m) = (i < n)"
            using m(2) new(3) True unfolding pubs_upto_def by simp_all
          from this(3) [of m] this(3) [of n] this(1,2) ne show False by auto
        qed
        then have "owned ps p (lo p) n" "lo p \<le> n" using m by simp_all
        moreover have "partition_history p pb = partition_history p (ps ! a) @ [(n, x)]"
          using new(1) pb(1) True by (simp add: partition_history_def)
        ultimately have "owned (ps[a := pb]) p (lo p) (n + 1)" using owned_extend a by blast
        then show ?thesis using new(4) \<open>lo p \<le> n\<close> True by (intro exI [of _ "n + 1"]) simp
      next
        case False
        then have "pubs_upto en V' p m" unfolding new(2) using m(2) pubs_upto_other by simp
        moreover have "partition_history p pb = partition_history p (ps ! a)"
          using False pb(1) by (simp add: partition_history_def)
        then have "owned (ps[a := pb]) p (lo p) m" using owned_frame [OF a] m(3) by blast
        ultimately show ?thesis using m(1) by blast
      qed
    qed
  qed
  then show ?thesis using each ok unfolding publishers_ok_def by simp
qed

definition new_publishers :: "(int \<times> raw_data_pub list) list \<Rightarrow> publisher list" where
  "new_publishers jobs = map (\<lambda>(p, items). new_publisher p items) jobs"

lemma new_publishers_ok:
  assumes "\<And>p. pubs_upto en V p (lo p)"
  shows "publishers_ok en lo jobs V (new_publishers jobs)"
proof -
  have "publisher_ok en V (new_publisher p items) \<and> pb_history (new_publisher p items) = [] \<and>
      pb_items (new_publisher p items) = items \<and> pb_partition_id (new_publisher p items) = p" for p items
    by (simp add: new_publisher_def publisher_ok_def history_ok_def reaches_def)
  then have "\<forall>a < length jobs. publisher_ok en V (new_publishers jobs ! a) \<and>
      pb_history (new_publishers jobs ! a) = [] \<and> pb_items (new_publishers jobs ! a) = snd (jobs ! a) \<and>
      pb_partition_id (new_publishers jobs ! a) = fst (jobs ! a)"
    by (simp add: new_publishers_def split_beta)
  moreover from this have "owned (new_publishers jobs) p (lo p) (lo p)" for p
    by (simp add: owned_def new_publishers_def partition_history_def)
  ultimately show ?thesis using assms by (auto simp: publishers_ok_def new_publishers_def)
qed

context kv_backend
begin

lemma publishers_run_ok:
  assumes "pub_keys_ok en norm" "pub_codec_ok en"
    and "publishers_ok en lo jobs (pub_value en get s) ps"
    and "publishers_run en get cas sched (ps, s) = (ps', s')"
  shows "publishers_ok en lo jobs (pub_value en get s') ps'"
  using assms(3,4)
proof (induction sched arbitrary: ps s)
  case (Cons a sched)
  show ?case
  proof (cases "a < length ps")
    case True
    obtain pb s1 where st: "publisher_step en get cas (ps ! a) s = (pb, s1)" by fastforce
    obtain m where "pubs_upto en (pub_value en get s) (pb_partition_id (ps ! a)) m"
      using Cons.prems(1) unfolding publishers_ok_def by blast
    then have "step_effect en (pub_value en get s) (pub_value en get s1) (ps ! a) pb"
      using publisher_step_effect [OF assms(1,2) _ _ st] Cons.prems(1) True
      by (auto simp: publishers_ok_def)
    from publishers_ok_step [OF Cons.prems(1) True this] show ?thesis
      using Cons.IH Cons.prems(2) True st by (simp add: publishers_step_def)
  next
    case False
    then show ?thesis using Cons.IH [OF Cons.prems(1)] Cons.prems(2) by (simp add: publishers_step_def)
  qed
qed simp

end

text \<open>
  A publisher that runs alone: \<open>alone_ok\<close> says where it is when \<open>m\<close> entries are there, and
  \<open>work_left\<close> goes down with every step.
\<close>

fun alone_ok :: "int \<Rightarrow> publisher \<Rightarrow> pub_phase \<Rightarrow> bool" where
  "alone_ok m pb (Searching l r) \<longleftrightarrow> l \<le> m \<and> m \<le> r + 1 \<and> pb_items pb \<noteq> []"
| "alone_ok m pb (Forwarding n) \<longleftrightarrow> n = m \<and> pb_items pb \<noteq> []"
| "alone_ok m pb (Checking n) \<longleftrightarrow> n = m \<and> pb_items pb \<noteq> []"
| "alone_ok m pb (Swapping n) \<longleftrightarrow> n = m \<and> pb_items pb \<noteq> []"
| "alone_ok m pb Pub_done \<longleftrightarrow> True"
| "alone_ok m pb (Pub_raised e) \<longleftrightarrow> False"

fun halvings :: "nat \<Rightarrow> nat" where
  "halvings n = (if n = 0 then 0 else Suc (halvings (n div 2)))"

declare halvings.simps [simp del]

lemma halvings_le: "halvings n \<le> k \<longleftrightarrow> n < 2 ^ k"
proof (induction n arbitrary: k rule: halvings.induct)
  case (1 n)
  show ?case
  proof (cases "n = 0")
    case False
    then show ?thesis
    proof (cases k)
      case (Suc j)
      have "halvings n \<le> k \<longleftrightarrow> n div 2 < 2 ^ j"
        using 1 False Suc by (subst halvings.simps) simp
      also have "\<dots> \<longleftrightarrow> n < 2 ^ k" using Suc by auto
      finally show ?thesis .
    qed (subst halvings.simps, simp)
  qed (simp add: halvings.simps)
qed

lemma halvings_less:
  assumes "m \<le> n div 2" "0 < n"
  shows "halvings m < halvings n"
proof -
  have "n div 2 < 2 ^ halvings (n div 2)" using halvings_le [of "n div 2" "halvings (n div 2)"] by simp
  then have "halvings m \<le> halvings (n div 2)" using assms(1) halvings_le by simp
  then show ?thesis using assms(2) by (simp add: halvings.simps [of n])
qed

fun work_left :: "publisher \<Rightarrow> pub_phase \<Rightarrow> nat" where
  "work_left pb (Searching l r) = 3 * length (pb_items pb) + 3 + halvings (nat (r - l + 1))"
| "work_left pb (Forwarding n) = 3 * length (pb_items pb) + 2"
| "work_left pb (Checking n) = 3 * length (pb_items pb) + 1"
| "work_left pb (Swapping n) = 3 * length (pb_items pb)"
| "work_left pb _ = 0"

context kv_backend
begin

lemma alone_step:
  assumes keys: "pub_keys_ok en norm" and codec: "pub_codec_ok en"
    and upto: "pubs_upto en (pub_value en get s) (pb_partition_id pb) m"
    and ok: "publisher_ok en (pub_value en get s) pb" and al: "alone_ok m pb (pb_phase pb)"
    and run: "pb_phase pb \<noteq> Pub_done" and step: "publisher_step en get cas pb s = (pb', s')"
  shows "\<exists>m'. pubs_upto en (pub_value en get s') (pb_partition_id pb') m' \<and>
    publisher_ok en (pub_value en get s') pb' \<and> alone_ok m' pb' (pb_phase pb') \<and>
    work_left pb' (pb_phase pb') < work_left pb (pb_phase pb)"
proof -
  let ?V = "pub_value en get s" and ?p = "pb_partition_id pb"
  have eff: "step_effect en ?V (pub_value en get s') pb pb'"
    by (rule publisher_step_effect [OF keys codec upto ok step])
  then have pok: "publisher_ok en (pub_value en get s') pb'" and part: "pb_partition_id pb' = ?p"
    by (auto simp: step_effect_def)
  have ex: "0 \<le> m" "\<And>i. 0 \<le> i \<Longrightarrow> (?V ?p i \<noteq> None) = (i < m)"
    using upto by (auto simp: pubs_upto_def)
  have ph: "phase_ok en ?V pb (pb_phase pb)" using ok by (simp add: publisher_ok_def)
  show ?thesis
  proof (cases "pb_phase pb")
    case (Searching l r)
    let ?i = "(l + r) div 2"
    have l0: "0 \<le> l" using ph Searching by (auto simp: reaches_def)
    show ?thesis
    proof (cases "l \<le> r")
      case True
      then have i: "0 \<le> ?i" "l \<le> ?i" "?i \<le> r" using l0 by auto
      have "s' = s" "pb' = pb\<lparr>pb_phase := (if ?i < m then Searching (?i + 1) r else Searching l (?i - 1))\<rparr>"
        using step Searching True ex(2) [OF i(1)] get_view [OF keys, of ?p ?i s]
        by (cases "?V ?p ?i"; auto simp: publisher_step_def forward_pub_index_def Let_def)+
      moreover have "halvings (nat (r - (?i + 1) + 1)) < halvings (nat (r - l + 1))"
        "halvings (nat (?i - 1 - l + 1)) < halvings (nat (r - l + 1))"
        using True by (auto intro!: halvings_less)
      ultimately show ?thesis using Searching al pok upto i by (intro exI [of _ m]) auto
    next
      case False
      then have "s' = s" "pb' = pb\<lparr>pb_phase := Checking (r + 1)\<rparr>" "r + 1 = m"
        using step Searching al by (auto simp: publisher_step_def forward_pub_index_def)
      then show ?thesis using Searching al pok upto by (intro exI [of _ m]) auto
    qed
  next
    case (Forwarding n)
    then have "?V ?p n = None" using al ex(2) [of m] ex(1) by auto
    then have "s' = s" "pb' = pb\<lparr>pb_phase := Checking n\<rparr>"
      using step Forwarding get_view [OF keys, of ?p n s]
      by (auto simp: publisher_step_def forward_pub_index_def)
    then show ?thesis using Forwarding al pok upto by (intro exI [of _ m]) auto
  next
    case (Checking n)
    have s: "s' = s" by (rule checking_effect(1) [OF keys codec upto ok Checking step])
    have "pb' = pb\<lparr>pb_phase := Pub_done\<rparr> \<or> pb' = pb\<lparr>pb_phase := Swapping n\<rparr> \<or> (\<exists>e. pb_phase pb' = Pub_raised e)"
      using step Checking by (auto simp: publisher_step_def split: sum.splits bool.splits)
    then have "pb' = pb\<lparr>pb_phase := Pub_done\<rparr> \<or> pb' = pb\<lparr>pb_phase := Swapping n\<rparr>"
      using pok by (auto simp: publisher_ok_def)
    then show ?thesis using Checking al pok upto s by (intro exI [of _ m]) auto
  next
    case (Swapping n)
    then obtain x xs where x: "pb_items pb = x # xs" "n = m" using al by (cases "pb_items pb") auto
    have none: "?V ?p n = None" using x(2) ex(2) [of m] ex(1) by auto
    obtain s1 where c: "cas (pub_key en ?p n) None (pe_print en x) s = Inr (True, s1)"
      "pub_value en get s1 = ?V(?p := (?V ?p)(n := stored_pub en x))"
      using none by (cases rule: cas_view [OF keys, of ?p n "pe_print en x" s]) (auto simp: stored_pub_def)
    have e: "s' = s1" "pb_items pb' = xs" "pb_phase pb' = (if xs = [] then Pub_done else Forwarding (n + 1))"
      using step Swapping x(1) c(1) by (auto simp: publisher_step_def)
    have "reaches ?V ?p n" "n = 0 \<or> ?V ?p (n - 1) \<noteq> stored_pub en PubFinished"
      using ph Swapping by auto
    from pubs_upto_extend(2) [OF upto none this, of x]
    have "pubs_upto en (pub_value en get s') (pb_partition_id pb') (m + 1)"
      using c(2) e(1) part by simp
    then show ?thesis using Swapping x pok e by (intro exI [of _ "m + 1"]) auto
  next
    case Pub_done
    then show ?thesis using run by simp
  next
    case (Pub_raised e)
    then show ?thesis using al by simp
  qed
qed

lemma alone_returns:
  assumes keys: "pub_keys_ok en norm" and codec: "pub_codec_ok en"
    and "pubs_upto en (pub_value en get s) (pb_partition_id pb) m"
    and "publisher_ok en (pub_value en get s) pb" and "alone_ok m pb (pb_phase pb)"
  shows "\<exists>k pb' s'. k \<le> work_left pb (pb_phase pb) \<and>
    publishers_run en get cas (replicate k 0) ([pb], s) = ([pb'], s') \<and> pb_phase pb' = Pub_done"
  using assms(3-5)
proof (induction "work_left pb (pb_phase pb)" arbitrary: pb s m rule: less_induct)
  case less
  show ?case
  proof (cases "pb_phase pb = Pub_done")
    case True
    then show ?thesis by (intro exI [of _ 0] exI [of _ pb] exI [of _ s]) simp
  next
    case False
    obtain pb1 s1 where st: "publisher_step en get cas pb s = (pb1, s1)" by fastforce
    obtain m1 where m1: "pubs_upto en (pub_value en get s1) (pb_partition_id pb1) m1"
      "publisher_ok en (pub_value en get s1) pb1" "alone_ok m1 pb1 (pb_phase pb1)"
      "work_left pb1 (pb_phase pb1) < work_left pb (pb_phase pb)"
      using alone_step [OF keys codec less.prems False st] by blast
    obtain k pb' s' where k: "k \<le> work_left pb1 (pb_phase pb1)"
      "publishers_run en get cas (replicate k 0) ([pb1], s1) = ([pb'], s')" "pb_phase pb' = Pub_done"
      using less.hyps [OF m1(4,1-3)] by blast
    have "publishers_run en get cas (replicate (Suc k) 0) ([pb], s) = ([pb'], s')"
      using k(2) st by (simp add: publishers_step_def)
    then show ?thesis using k m1(4) by (intro exI [of _ "Suc k"] exI [of _ pb'] exI [of _ s']) simp
  qed
qed

end

section \<open>Properties\<close>

text \<open>
  C7. However the steps of several publishers interleave, the entries of a partition keep being
  numbered from 0 without a gap, only the last one can be the end mark, so that nothing is
  published after it, and every new entry was added by exactly one of the publishers.
\<close>

theorem raw_data_published_once:
  assumes "pub_codec_ok en" "\<And>p. pubs_upto en (pub_value en (etcd_get base) s) p (lo p)"
    and "publishers_run en (etcd_get base) (etcd_cas base) sched (new_publishers jobs, s) = (ps, s')"
  shows "\<exists>hi \<ge> lo p. pubs_upto en (pub_value en (etcd_get base) s') p hi \<and> owned ps p (lo p) hi"
  using etcd.publishers_run_ok [OF pub_keys_normal assms(1) new_publishers_ok [OF assms(2)] assms(3)]
  unfolding publishers_ok_def by blast

text \<open>
  No publisher fails, each publishes its files in order at ascending indices where they stay,
  and it stops early only when the end mark is there.
\<close>

theorem publisher_keeps_order:
  assumes "pub_codec_ok en" "\<And>p. pubs_upto en (pub_value en (etcd_get base) s) p (lo p)"
    and "publishers_run en (etcd_get base) (etcd_cas base) sched (new_publishers jobs, s) = (ps, s')"
    and "a < length jobs" "jobs ! a = (p, items)"
  shows "map snd (pb_history (ps ! a)) @ pb_items (ps ! a) = items \<and>
    sorted_wrt (<) (map fst (pb_history (ps ! a))) \<and>
    (\<forall>(i, x) \<in> set (pb_history (ps ! a)). pub_value en (etcd_get base) s' p i = stored_pub en x) \<and>
    (\<forall>e. pb_phase (ps ! a) \<noteq> Pub_raised e) \<and>
    (pb_phase (ps ! a) = Pub_done \<longrightarrow> pb_items (ps ! a) = [] \<or>
       (\<exists>k \<ge> 0. pub_value en (etcd_get base) s' p k = stored_pub en PubFinished))"
proof -
  have ok: "publishers_ok en lo jobs (pub_value en (etcd_get base) s') ps"
    by (rule etcd.publishers_run_ok [OF pub_keys_normal assms(1) new_publishers_ok [OF assms(2)] assms(3)])
  then have "publisher_ok en (pub_value en (etcd_get base) s') (ps ! a)" "pb_partition_id (ps ! a) = p"
    "map snd (pb_history (ps ! a)) @ pb_items (ps ! a) = items"
    using assms(4,5) by (auto simp: publishers_ok_def)
  then show ?thesis by (cases "pb_phase (ps ! a)") (auto simp: publisher_ok_def history_ok_def)
qed


subsection \<open>Witnesses\<close>

text \<open>A codec for the samples: the numbers first, each closed by a comma, then the path.\<close>

definition until_comma :: "string \<Rightarrow> string \<times> string" where
  "until_comma s = (takeWhile (\<lambda>c. c \<noteq> CHR '','') s, drop 1 (dropWhile (\<lambda>c. c \<noteq> CHR '','') s))"

definition sample_print_pub :: "raw_data_pub \<Rightarrow> kv_value" where
  "sample_print_pub x = VStr
     (case x of
        PubFinished \<Rightarrow> ''f''
      | PubUnset \<Rightarrow> ''u''
      | PubMeta m \<Rightarrow> ''m'' @ int_str (rm_start_index m) @ '','' @ int_str (fst (rm_timestamp m)) @ '','' @
          int_str (snd (rm_timestamp m)) @ '','' @ rm_file_path m)"

definition sample_parse_pub :: "kv_value \<Rightarrow> raw_data_pub result" where
  "sample_parse_pub v =
     (case content v of
        [] \<Rightarrow> Inl ValueError
      | c # s \<Rightarrow>
          if c = CHR ''f'' then Inr PubFinished
          else if c = CHR ''u'' then Inr PubUnset
          else (case until_comma s of (a, s1) \<Rightarrow> case until_comma s1 of (b, s2) \<Rightarrow>
            case until_comma s2 of (d, path) \<Rightarrow>
              bind_result (py_int a) (\<lambda>i. bind_result (py_int b) (\<lambda>j. bind_result (py_int d) (\<lambda>k.
                Inr (PubMeta \<lparr>rm_file_path = path, rm_start_index = i, rm_timestamp = (j, k)\<rparr>))))))"

definition sample_pub_env :: pub_env where
  "sample_pub_env = \<lparr>pe_dir = ''pub'', pe_print = sample_print_pub, pe_parse = sample_parse_pub\<rparr>"

lemma until_comma_int: "until_comma (int_str i @ CHR '','' # s) = (int_str i, s)"
proof -
  have "\<forall>c \<in> set (int_str i). c \<noteq> CHR '',''" using int_str_not_in [of "CHR '',''" i] by (auto simp: is_digit_def)
  then show ?thesis by (simp add: until_comma_def takeWhile_append2 dropWhile_append2)
qed

lemma sample_pub_codec: "pub_codec_ok sample_pub_env"
proof -
  have "sample_parse_pub (encode_value (sample_print_pub x)) = Inr x" for x
    by (cases x) (auto simp: sample_parse_pub_def sample_print_pub_def encode_value_def until_comma_int
        py_int_int_str)
  then show ?thesis by (simp add: pub_codec_ok_def sample_pub_env_def)
qed

lemma sample_no_pubs:
  "pubs_upto sample_pub_env (pub_value sample_pub_env (etcd_get ''b'') mock_init) p 0"
proof -
  have "etcd_get ''b'' k mock_init = Inr None \<or> (\<exists>e. etcd_get ''b'' k mock_init = Inl e)" for k
    by (cases "generate_path ''b'' k") (auto simp: etcd_get_def mock_get_def mock_init_def)
  then have "pub_value sample_pub_env (etcd_get ''b'') mock_init q i = None" for q i
    unfolding pub_value_def by (metis sum.case(1,2))
  then show ?thesis by (simp add: pubs_upto_def)
qed

definition sample_jobs :: "(int \<times> raw_data_pub list) list" where
  "sample_jobs =
     [(0, [PubMeta \<lparr>rm_file_path = ''a'', rm_start_index = - 1, rm_timestamp = (0, 0)\<rparr>]), (0, [PubFinished])]"

definition sample_pub_run :: "publisher list \<times> mock_store" where
  "sample_pub_run =
     publishers_run sample_pub_env (etcd_get ''b'') (etcd_cas ''b'') (replicate 70 0 @ replicate 5 1)
       (new_publishers sample_jobs, mock_init)"

lemma sample_pub_run_eq:
  "publishers_run sample_pub_env (etcd_get ''b'') (etcd_cas ''b'') (replicate 70 0 @ replicate 5 1)
     (new_publishers sample_jobs, mock_init) = (fst sample_pub_run, snd sample_pub_run)"
  by (simp add: sample_pub_run_def)

theorem raw_data_published_once_witness:
  "\<exists>hi \<ge> 0. pubs_upto sample_pub_env (pub_value sample_pub_env (etcd_get ''b'') (snd sample_pub_run)) 0 hi \<and>
     owned (fst sample_pub_run) 0 0 hi"
  using raw_data_published_once [where lo = "\<lambda>_. 0", OF sample_pub_codec sample_no_pubs sample_pub_run_eq]
  by blast

theorem publisher_keeps_order_witness:
  "map snd (pb_history (fst sample_pub_run ! 1)) @ pb_items (fst sample_pub_run ! 1) = [PubFinished] \<and>
     (\<forall>e. pb_phase (fst sample_pub_run ! 1) \<noteq> Pub_raised e)"
  using publisher_keeps_order [where lo = "\<lambda>_. 0" and a = 1 and p = 0 and items = "[PubFinished]",
      OF sample_pub_codec sample_no_pubs sample_pub_run_eq]
  by (simp add: sample_jobs_def)


end
