(* ===== verification/Join_Master.thy ===== *)
theory Join_Master
  imports Complex_Main Manifest
begin

text \<open>
  The data join master (\<open>data_join/data_join_master.py\<close>): the state machine of a data source
  (\<open>MasterFSM\<close>) over the \<open>DataSource\<close> message in the kv store, which each party drives by
  asking for the state of its peer, and the handlers of \<open>DataJoinMaster\<close>, which guard the
  raw data manifest manager.

  The message of the data source has a field of its own in the state; what becomes of each
  commit to come is told by \<open>mm_commits\<close>. The machine of one party is compared with the
  abstract one (\<open>fsm_next\<close>), and two abstract machines that poll each other are
  shown to walk through the states side by side.
\<close>

section \<open>The data source\<close>

record data_source_meta =
  dm_name :: string
  dm_partition_num :: int
  dm_start_time :: int
  dm_end_time :: int
  dm_negative_sampling_rate :: rat

record data_source =
  ds_meta :: data_source_meta
  ds_is_leader :: bool  \<comment> \<open>\<open>role == FLRole.Leader\<close>\<close>
  ds_source_state :: ds_state
  ds_raw_data_sub_dir :: string

datatype commit_outcome = Committed | Refused | Committed_and_raised

record 'v master =
  mm_stored :: "data_source option"
  mm_data_source :: "data_source option"
  mm_commits :: "commit_outcome list"
  mm_batch_mode :: bool
  mm_aborts :: nat  \<comment> \<open>calls of \<open>AbortDataSource\<close> sent to the peer\<close>
  mm_manager :: "'v manager"

definition sync_data_source :: "('v master, data_source) sx" where
  "sync_data_source =
     sx_bind sx_get (\<lambda>s.
       case mm_data_source s of
         Some d \<Rightarrow> sx_return d
       | None \<Rightarrow>
           (case mm_stored s of
              None \<Rightarrow> sx_raise ValueError
            | Some d \<Rightarrow> sx_bind (sx_modify (\<lambda>s. s\<lparr>mm_data_source := Some d\<rparr>)) (\<lambda>_. sx_return d)))"

definition commit_data_source :: "data_source \<Rightarrow> ('v master, unit) sx" where
  "commit_data_source d s =
     (case mm_commits s of
        Refused # cs \<Rightarrow> (Inl RuntimeError, s\<lparr>mm_commits := cs\<rparr>)
      | Committed_and_raised # cs \<Rightarrow> (Inl RuntimeError, s\<lparr>mm_commits := cs, mm_stored := Some d\<rparr>)
      | cs \<Rightarrow> (Inr (), s\<lparr>mm_commits := tl cs, mm_stored := Some d\<rparr>))"

definition update_data_source :: "data_source \<Rightarrow> ('v master, unit) sx" where
  "update_data_source d =
     sx_bind (sx_modify (\<lambda>s. s\<lparr>mm_data_source := None\<rparr>)) (\<lambda>_.
     sx_bind (commit_data_source d) (\<lambda>_.
     sx_modify (\<lambda>s. s\<lparr>mm_data_source := Some d\<rparr>)))"

text \<open>An operation of the manifest manager, as part of the master.\<close>

definition on_manager :: "('v manager, 'a) sx \<Rightarrow> ('v master, 'a) sx" where
  "on_manager f s = (let (r, m) = f (mm_manager s) in (r, s\<lparr>mm_manager := m\<rparr>))"

definition manager_env :: "'v codec \<Rightarrow> bool \<Rightarrow> data_source \<Rightarrow> 'v mg_env" where
  "manager_env c batch d =
     \<lparr>en_codec = c, en_name = dm_name (ds_meta d), en_raw_data_sub_dir = ds_raw_data_sub_dir d,
      en_partition_num = dm_partition_num (ds_meta d), en_is_leader = ds_is_leader d,
      en_batch_mode = batch, en_state = ds_source_state d\<rparr>"

section \<open>\<open>MasterFSM\<close>\<close>

fun invalid_peer_fsm_state :: "ds_state \<Rightarrow> ds_state set" where
  "invalid_peer_fsm_state DsInit = {DsFailed, Ready, DsFinished}"
| "invalid_peer_fsm_state Processing = {DsFailed, DsFinished}"
| "invalid_peer_fsm_state Ready = {DsFailed, DsInit}"
| "invalid_peer_fsm_state DsFinished = {DsFailed, DsInit, Processing}"
| "invalid_peer_fsm_state _ = {}"

text \<open>\<open>set_state\<close> catches every exception and answers \<open>False\<close> then.\<close>

definition set_state :: "ds_state \<Rightarrow> ds_state option \<Rightarrow> 'v master \<Rightarrow> bool \<times> 'v master" where
  "set_state new_state origin_state s =
     (case sx_bind sync_data_source (\<lambda>d.
             if ds_source_state d = new_state then sx_return True
             else if origin_state = None \<or> Some (ds_source_state d) = origin_state
             then sx_bind (update_data_source (d\<lparr>ds_source_state := new_state\<rparr>)) (\<lambda>_. sx_return True)
             else sx_bind sync_data_source (\<lambda>_. sx_return False)) s of
        (Inl _, s') \<Rightarrow> (False, s')
      | (Inr b, s') \<Rightarrow> (b, s'))"

definition set_failed :: "'v master \<Rightarrow> bool \<times> 'v master" where
  "set_failed = set_state DsFailed None"

definition move_to :: "ds_state \<Rightarrow> data_source \<Rightarrow> ('v master, bool) sx" where
  "move_to st d = sx_bind (update_data_source (d\<lparr>ds_source_state := st\<rparr>)) (\<lambda>_. sx_return True)"

definition fallback_failed_state :: "data_source \<Rightarrow> ds_state \<Rightarrow> ('v master, bool) sx" where
  "fallback_failed_state d peer =
     (if peer \<in> invalid_peer_fsm_state (ds_source_state d) then move_to DsFailed d
      else sx_return False)"

definition all_partition_finished :: "'v mg_env \<Rightarrow> data_source \<Rightarrow> ('v master, bool) sx" where
  "all_partition_finished en d =
     sx_bind (on_manager (list_all_manifest en)) (\<lambda>ms.
     sx_bind (sx_assert (int (length ms) = dm_partition_num (ds_meta d))) (\<lambda>_.
     sx_return (list_all (\<lambda>m. rp_state (mf_sync_example_id_rep m) = Synced \<and>
                              rp_state (mf_join_example_rep m) = Joined) ms)))"

definition fsm_init_action :: "data_source \<Rightarrow> ds_state \<Rightarrow> ('v master, bool) sx" where
  "fsm_init_action d peer =
     (if (if ds_is_leader d then peer = DsInit else peer = Processing)
      then move_to Processing d else sx_return False)"

definition fsm_processing_action :: "'v mg_env \<Rightarrow> data_source \<Rightarrow> ds_state \<Rightarrow> ('v master, bool) sx" where
  "fsm_processing_action en d peer =
     sx_bind (all_partition_finished en d) (\<lambda>finished.
       if finished \<and> (if ds_is_leader d then peer = Processing else peer = Ready)
       then move_to Ready d else sx_return False)"

definition fsm_ready_action :: "data_source \<Rightarrow> ds_state \<Rightarrow> ('v master, bool) sx" where
  "fsm_ready_action d peer =
     sx_bind sx_get (\<lambda>s.
       if mm_batch_mode s then sx_return False
       else if (if ds_is_leader d then peer = Ready else peer = DsFinished)
       then move_to DsFinished d else sx_return False)"

definition fsm_failed_action :: "ds_state \<Rightarrow> ('v master, bool) sx" where
  "fsm_failed_action peer =
     (if peer \<noteq> DsFailed then sx_bind (sx_modify (\<lambda>s. s\<lparr>mm_aborts := Suc (mm_aborts s)\<rparr>)) (\<lambda>_. sx_return False)
      else sx_return False)"

text \<open>The table of actions; there is no method for the state \<open>UnKnown\<close>.\<close>

definition fsm_driven_handle :: "'v mg_env \<Rightarrow> data_source \<Rightarrow> ds_state \<Rightarrow> ('v master, bool) sx" where
  "fsm_driven_handle en d peer =
     (case ds_source_state d of
        UnKnown \<Rightarrow> sx_raise NotImplementedError
      | DsInit \<Rightarrow> fsm_init_action d peer
      | Processing \<Rightarrow> fsm_processing_action en d peer
      | Ready \<Rightarrow> fsm_ready_action d peer
      | DsFinished \<Rightarrow> sx_return False
      | DsFailed \<Rightarrow> fsm_failed_action peer)"

text \<open>
  One round under the lock, given the state that the peer answered; the result is the
  value of the local variable \<open>state\<close>, which a fallback to \<open>Failed\<close> does not update.
\<close>

definition fsm_drive :: "'v mg_env \<Rightarrow> ds_state \<Rightarrow> ('v master, ds_state) sx" where
  "fsm_drive en peer =
     sx_bind sync_data_source (\<lambda>d.
     sx_bind (fallback_failed_state d peer) (\<lambda>fallen.
     if fallen then sx_return (ds_source_state d)
     else sx_bind (fsm_driven_handle en d peer) (\<lambda>changed.
       if changed then sx_bind sync_data_source (\<lambda>d'. sx_return (ds_source_state d'))
       else sx_return (ds_source_state d))))"

text \<open>
  \<open>_fsm_routine_fn\<close>: the answer of the peer may be an error, and the subscription may not
  return (\<open>None\<close>).
\<close>

definition fsm_routine_fn ::
    "'v mg_env \<Rightarrow> ds_state result \<Rightarrow> 'v master \<Rightarrow> (unit result \<times> 'v master) option" where
  "fsm_routine_fn en peer_info s =
     (case peer_info of
        Inl e \<Rightarrow> Some (Inl e, s)
      | Inr peer \<Rightarrow>
          (case fsm_drive en peer s of
             (Inl e, s1) \<Rightarrow> Some (Inl e, s1)
           | (Inr st, s1) \<Rightarrow>
               if (st = DsInit \<or> st = Processing) \<and> \<not> mm_batch_mode s1
               then map_option (\<lambda>(r, m). (r, s1\<lparr>mm_manager := m\<rparr>))
                      (sub_new_raw_data en None (mm_manager s1))
               else Some (Inr (), s1)))"

definition reset_batch_mode :: "('v master, unit) sx" where
  "reset_batch_mode =
     sx_bind sx_get (\<lambda>s.
     if mm_batch_mode s
     then sx_bind sync_data_source (\<lambda>d.
            case ds_source_state d of
              DsInit \<Rightarrow> sx_return ()
            | Processing \<Rightarrow> sx_return ()
            | Ready \<Rightarrow> update_data_source (d\<lparr>ds_source_state := Processing\<rparr>)
            | _ \<Rightarrow> sx_raise RuntimeError)
     else sx_return ())"

text \<open>The constructor, with the stores that a new process finds.\<close>

definition new_master_fsm ::
    "'v codec \<Rightarrow> bool \<Rightarrow> data_source option \<Rightarrow> commit_outcome list \<Rightarrow> (string \<times> 'v) list \<Rightarrow>
     (unit result \<times> 'v master) option" where
  "new_master_fsm c batch stored commits kv =
     (let s = \<lparr>mm_stored = stored, mm_data_source = None, mm_commits = commits, mm_batch_mode = batch,
               mm_aborts = 0,
               mm_manager = \<lparr>mg_local = (\<lambda>_. None), mg_existed_fpath = Map.empty,
                             mg_latest_timestamp = (\<lambda>_. None), mg_kv = kv, mg_faults = []\<rparr>\<rparr>
      in case sx_bind sync_data_source (\<lambda>_. sx_bind reset_batch_mode (\<lambda>_. sync_data_source)) s of
           (Inl e, s1) \<Rightarrow> Some (Inl e, s1)
         | (Inr d, s1) \<Rightarrow>
             (let en = manager_env c batch d in
              case on_manager (new_manager en) s1 of
                (Inl e, s2) \<Rightarrow> Some (Inl e, s2)
              | (Inr _, s2) \<Rightarrow>
                  if batch
                  then map_option (\<lambda>(r, m). (r, s2\<lparr>mm_manager := m\<rparr>)) (init_batch_mode en (mm_manager s2))
                  else Some (Inr (), s2)))"

section \<open>Handlers\<close>

text \<open>
  The requests carry the meta of the data source and at most one of several messages.
  Status codes are as in the code; messages are left out.
\<close>

datatype request_msg =
    Sync_example_id
  | Join_example
  | Finish_raw_data
  | Added_raw_data_metas "raw_data_meta list" bool
  | Peer_dumped_index int
  | No_msg

record join_request =
  rq_meta :: data_source_meta
  rq_rank_id :: int
  rq_partition_id :: int
  rq_msg :: request_msg

record join_response =
  rs_code :: int
  rs_manifest :: "manifest option"
  rs_finished :: bool

definition response :: "int \<Rightarrow> join_response" where
  "response code = \<lparr>rs_code = code, rs_manifest = None, rs_finished = False\<rparr>"

definition check_data_source_meta :: "data_source_meta \<Rightarrow> data_source_meta \<Rightarrow> int" where
  "check_data_source_meta local_meta remote_meta = (if local_meta \<noteq> remote_meta then - 1 else 0)"

definition check_meta_or_raise :: "data_source_meta \<Rightarrow> data_source_meta \<Rightarrow> ('v master, unit) sx" where
  "check_meta_or_raise local_meta remote_meta =
     (if local_meta \<noteq> remote_meta then sx_raise RuntimeError else sx_return ())"

definition check_rank_id :: "int \<Rightarrow> int" where
  "check_rank_id rank_id = (if rank_id < 0 then - 2 else 0)"

definition get_data_source_status ::
    "data_source_meta \<Rightarrow> data_source_meta \<Rightarrow> ('v master, bool \<times> ds_state) sx" where
  "get_data_source_status local_meta remote_meta =
     sx_bind (check_meta_or_raise local_meta remote_meta) (\<lambda>_.
     sx_bind sync_data_source (\<lambda>d. sx_return (ds_is_leader d, ds_source_state d)))"

definition abort_data_source ::
    "data_source_meta \<Rightarrow> data_source_meta \<Rightarrow> 'v master \<Rightarrow> int \<times> 'v master" where
  "abort_data_source local_meta remote_meta s =
     (let code = check_data_source_meta local_meta remote_meta in
      if code = 0
      then (case set_failed s of (ok, s') \<Rightarrow> (if ok then 0 else - 2, s'))
      else (code, s))"

definition request_join_partition ::
    "'v mg_env \<Rightarrow> data_source_meta \<Rightarrow> join_request \<Rightarrow> ('v master, join_response) sx" where
  "request_join_partition en local_meta rq =
     (if check_data_source_meta local_meta (rq_meta rq) \<noteq> 0
      then sx_return (response (check_data_source_meta local_meta (rq_meta rq)))
      else if check_rank_id (rq_rank_id rq) \<noteq> 0
      then sx_return (response (check_rank_id (rq_rank_id rq)))
      else sx_bind sync_data_source (\<lambda>d.
        if ds_source_state d \<noteq> Processing then sx_return (response (- 3))
        else
          let rank = rq_rank_id rq;
              po = (if rq_partition_id rq < 0 then None else Some (rq_partition_id rq));
              answer = (\<lambda>mo. case mo of
                  Some m \<Rightarrow> sx_return \<lparr>rs_code = 0, rs_manifest = Some m, rs_finished = False\<rparr>
                | None \<Rightarrow> sx_bind (sx_assert (po = None)) (\<lambda>_.
                    sx_return \<lparr>rs_code = 0, rs_manifest = None, rs_finished = True\<rparr>))
          in (case rq_msg rq of
                Sync_example_id \<Rightarrow> sx_bind (on_manager (alloc_sync_exampld_id en rank po)) answer
              | Join_example \<Rightarrow> sx_bind (on_manager (alloc_join_example en rank po)) answer
              | _ \<Rightarrow> sx_return (response (- 4)))))"

definition finish_join_partition ::
    "'v mg_env \<Rightarrow> data_source_meta \<Rightarrow> join_request \<Rightarrow> ('v master, int) sx" where
  "finish_join_partition en local_meta rq =
     (if check_data_source_meta local_meta (rq_meta rq) \<noteq> 0
      then sx_return (check_data_source_meta local_meta (rq_meta rq))
      else if check_rank_id (rq_rank_id rq) \<noteq> 0 then sx_return (check_rank_id (rq_rank_id rq))
      else sx_bind sync_data_source (\<lambda>d.
        if ds_source_state d \<noteq> Processing then sx_return (- 2)
        else (case rq_msg rq of
                Sync_example_id \<Rightarrow>
                  sx_bind (on_manager (finish_sync_example_id en (rq_rank_id rq) (rq_partition_id rq)))
                    (\<lambda>_. sx_return 0)
              | Join_example \<Rightarrow>
                  sx_bind (on_manager (finish_join_example en (rq_rank_id rq) (rq_partition_id rq)))
                    (\<lambda>_. sx_return 0)
              | _ \<Rightarrow> sx_return (- 3))))"

definition query_raw_data_manifest ::
    "'v mg_env \<Rightarrow> data_source_meta \<Rightarrow> join_request \<Rightarrow> ('v master, manifest) sx" where
  "query_raw_data_manifest en local_meta rq =
     sx_bind (check_meta_or_raise local_meta (rq_meta rq)) (\<lambda>_.
     on_manager (get_manifest en (rq_partition_id rq)))"

text \<open>The three handlers for raw data; batch mode forbids the first two.\<close>

definition handle_finish_raw_data ::
    "'v mg_env \<Rightarrow> data_source_meta \<Rightarrow> join_request \<Rightarrow> ('v master, int) sx" where
  "handle_finish_raw_data en local_meta rq =
     (if check_data_source_meta local_meta (rq_meta rq) \<noteq> 0
      then sx_return (check_data_source_meta local_meta (rq_meta rq))
      else sx_bind sx_get (\<lambda>s.
        if mm_batch_mode s then sx_return (- 2)
        else (case rq_msg rq of
                Finish_raw_data \<Rightarrow>
                  sx_bind (on_manager (finish_raw_data en (rq_partition_id rq))) (\<lambda>_. sx_return 0)
              | _ \<Rightarrow> sx_return (- 3))))"

definition handle_add_raw_data ::
    "'v mg_env \<Rightarrow> data_source_meta \<Rightarrow> join_request \<Rightarrow> ('v master, int) sx" where
  "handle_add_raw_data en local_meta rq =
     (if check_data_source_meta local_meta (rq_meta rq) \<noteq> 0
      then sx_return (check_data_source_meta local_meta (rq_meta rq))
      else sx_bind sync_data_source (\<lambda>_.
        sx_bind sx_get (\<lambda>s.
        if mm_batch_mode s then sx_return (- 2)
        else (case rq_msg rq of
                Added_raw_data_metas ms dedup \<Rightarrow>
                  sx_bind (on_manager (add_raw_data en (rq_partition_id rq) ms dedup)) (\<lambda>_. sx_return 0)
              | _ \<Rightarrow> sx_return (- 3)))))"

definition handle_forward_peer_dumped_index ::
    "'v mg_env \<Rightarrow> data_source_meta \<Rightarrow> join_request \<Rightarrow> ('v master, int) sx" where
  "handle_forward_peer_dumped_index en local_meta rq =
     (if check_data_source_meta local_meta (rq_meta rq) \<noteq> 0
      then sx_return (check_data_source_meta local_meta (rq_meta rq))
      else (case rq_msg rq of
              Peer_dumped_index i \<Rightarrow>
                sx_bind (on_manager (forward_peer_dumped_index en (rq_partition_id rq) i))
                  (\<lambda>_. sx_return 0)
            | _ \<Rightarrow> sx_return (- 2)))"

definition get_raw_data_latest_timestamp ::
    "'v mg_env \<Rightarrow> data_source_meta \<Rightarrow> join_request \<Rightarrow> ('v master, int \<times> (int \<times> int)) sx" where
  "get_raw_data_latest_timestamp en local_meta rq =
     (if check_data_source_meta local_meta (rq_meta rq) \<noteq> 0
      then sx_return (check_data_source_meta local_meta (rq_meta rq), (0, 0))
      else sx_bind (on_manager (get_raw_date_latest_timestamp en (rq_partition_id rq))) (\<lambda>ts.
        sx_return (0, case ts of None \<Rightarrow> (0, 0) | Some t \<Rightarrow> t)))"

section \<open>The abstract machine\<close>

definition fsm_next :: "bool \<Rightarrow> bool \<Rightarrow> bool \<Rightarrow> ds_state \<Rightarrow> ds_state \<Rightarrow> ds_state" where
  "fsm_next leader batch finished peer st =
     (if peer \<in> invalid_peer_fsm_state st then DsFailed
      else case st of
        DsInit \<Rightarrow> if (if leader then peer = DsInit else peer = Processing) then Processing else st
      | Processing \<Rightarrow>
          if finished \<and> (if leader then peer = Processing else peer = Ready) then Ready else st
      | Ready \<Rightarrow>
          if \<not> batch \<and> (if leader then peer = Ready else peer = DsFinished) then DsFinished else st
      | _ \<Rightarrow> st)"

fun ds_rank :: "ds_state \<Rightarrow> nat" where
  "ds_rank UnKnown = 0"
| "ds_rank DsInit = 0"
| "ds_rank Processing = 1"
| "ds_rank Ready = 2"
| "ds_rank DsFinished = 3"
| "ds_rank DsFailed = 4"

interpretation master_fsm:
  ranked_fsm "\<lambda>st (peer, finished). fsm_next leader batch finished peer st" ds_rank 4
  for leader batch
proof unfold_locales
  fix st :: ds_state and e :: "ds_state \<times> bool"
  obtain peer finished where e: "e = (peer, finished)" by fastforce
  show "(case e of (peer, finished) \<Rightarrow> fsm_next leader batch finished peer st) \<noteq> st \<Longrightarrow>
      ds_rank st < ds_rank (case e of (peer, finished) \<Rightarrow> fsm_next leader batch finished peer st)"
    unfolding e by (cases st) (auto simp: fsm_next_def split: if_splits)
  show "ds_rank st \<le> 4" by (cases st) auto
qed

text \<open>What the cached message may be.\<close>

definition coherent :: "data_source \<Rightarrow> 'v master \<Rightarrow> bool" where
  "coherent d s \<longleftrightarrow> mm_stored s = Some d \<and> (mm_data_source s = None \<or> mm_data_source s = Some d)"

lemma sync_coherent:
  "coherent d s \<Longrightarrow> sync_data_source s = (Inr d, s\<lparr>mm_data_source := Some d\<rparr>)"
  by (auto simp: sync_data_source_def coherent_def split: option.split)

lemma move_coherent:
  assumes "coherent d s" "move_to st d s = (r, s')"
  shows "coherent d s' \<and> r = Inl RuntimeError \<or>
    coherent (d\<lparr>ds_source_state := st\<rparr>) s' \<and> (r = Inl RuntimeError \<or> r = Inr True)"
  using assms
  by (auto simp: move_to_def update_data_source_def commit_data_source_def coherent_def sx_bind_def
      split: list.splits commit_outcome.splits)

lemma on_manager_frame:
  assumes "on_manager f s = (r, s')"
  shows "mm_stored s' = mm_stored s" "mm_data_source s' = mm_data_source s"
    "mm_batch_mode s' = mm_batch_mode s" "mm_commits s' = mm_commits s"
    "f (mm_manager s) = (r, mm_manager s')"
  using assms by (auto simp: on_manager_def Let_def split: prod.splits)

text \<open>The partitions are all joined when the manifests that the manager lists say so.\<close>

definition all_joined :: "'v mg_env \<Rightarrow> 'v manager \<Rightarrow> bool" where
  "all_joined en mg \<longleftrightarrow>
     (case fst (list_all_manifest en mg) of
        Inl _ \<Rightarrow> False
      | Inr ms \<Rightarrow> \<forall>m \<in> set ms. rp_state (mf_sync_example_id_rep m) = Synced \<and>
                            rp_state (mf_join_example_rep m) = Joined)"

lemma all_partition_finished_run:
  assumes "all_partition_finished en d s = (r, s')" "coherent d s"
  shows "coherent d s'" "mm_batch_mode s' = mm_batch_mode s"
    "r = Inr b \<Longrightarrow> b = all_joined en (mm_manager s)"
proof -
  obtain r1 s1 where m: "on_manager (list_all_manifest en) s = (r1, s1)" by fastforce
  note fr = on_manager_frame [OF m]
  have c: "coherent d s1" using assms(2) fr by (simp add: coherent_def)
  show "coherent d s'" "mm_batch_mode s' = mm_batch_mode s"
    "r = Inr b \<Longrightarrow> b = all_joined en (mm_manager s)"
    using assms(1) m c fr(3,5)
    by (auto simp: all_partition_finished_def sx_bind_def sx_assert_def all_joined_def list_all_iff
        split: sum.splits if_splits)
qed

section \<open>Refinement\<close>

text \<open>
  What a step may do to the stored message: nothing, or move its state to \<open>st\<close>. \<open>sure\<close> holds
  when it did so without an exception.
\<close>

definition moved :: "data_source \<Rightarrow> ds_state \<Rightarrow> bool \<Rightarrow> 'v master \<Rightarrow> bool" where
  "moved d st sure s \<longleftrightarrow>
     coherent (d\<lparr>ds_source_state := st\<rparr>) s \<or> (\<not> sure \<and> coherent d s)"

lemma moved_stay: "coherent d s \<Longrightarrow> moved d (ds_source_state d) b s"
  by (simp add: moved_def)

lemma moved_refused: "coherent d s \<Longrightarrow> moved d st False s"
  by (simp add: moved_def)

lemma move_moved:
  "coherent d s \<Longrightarrow> move_to st d s = (r, s') \<Longrightarrow> moved d st (\<exists>b. r = Inr b) s' \<and> (\<forall>b. r = Inr b \<longrightarrow> b)"
  using move_coherent [of d s st r s'] by (auto simp: moved_def)

text \<open>One action of the table.\<close>

lemma handle_moved:
  assumes c: "coherent d s" and v: "peer \<notin> invalid_peer_fsm_state (ds_source_state d)"
    and run: "fsm_driven_handle en d peer s = (r, s')"
  shows "moved d (fsm_next (ds_is_leader d) (mm_batch_mode s) (all_joined en (mm_manager s)) peer (ds_source_state d))
      (\<exists>b. r = Inr b) s' \<and>
    (\<forall>b. r = Inr b \<longrightarrow> \<not> b \<longrightarrow> coherent d s')"
proof (cases "ds_source_state d")
  case UnKnown
  then show ?thesis using run c by (auto simp: fsm_driven_handle_def moved_def)
next
  case DsInit
  then show ?thesis using run c v move_moved [OF c, of Processing r s'] moved_stay [OF c]
    by (auto simp: fsm_driven_handle_def fsm_init_action_def fsm_next_def split: if_splits)
next
  case Processing
  obtain r1 s1 where f: "all_partition_finished en d s = (r1, s1)" by fastforce
  note c1 = all_partition_finished_run [OF f c]
  show ?thesis
  proof (cases r1)
    case (Inl e)
    then have "r = Inl e" "s' = s1"
      using run Processing f by (auto simp: fsm_driven_handle_def fsm_processing_action_def sx_bind_def)
    then show ?thesis using moved_refused [OF c1(1)] by simp
  next
    case (Inr b)
    have b: "b = all_joined en (mm_manager s)" using c1(3) Inr by blast
    have "(if b \<and> (if ds_is_leader d then peer = Processing else peer = Ready)
           then move_to Ready d else sx_return False) s1 = (r, s')"
      using run Processing f Inr by (simp add: fsm_driven_handle_def fsm_processing_action_def sx_bind_def)
    then show ?thesis
      using Processing v c1(1) b move_moved [OF c1(1), of Ready r s'] moved_stay [OF c1(1)]
      by (auto simp: fsm_next_def split: if_splits)
  qed
next
  case Ready
  have "(if mm_batch_mode s then sx_return False
         else if (if ds_is_leader d then peer = Ready else peer = DsFinished)
         then move_to DsFinished d else sx_return False) s = (r, s')"
    using run Ready by (simp add: fsm_driven_handle_def fsm_ready_action_def)
  then show ?thesis
    using Ready v c move_moved [OF c, of DsFinished r s'] moved_stay [OF c]
    by (auto simp: fsm_next_def split: if_splits)
next
  case DsFinished
  then show ?thesis using run c v moved_stay [OF c] by (auto simp: fsm_driven_handle_def fsm_next_def)
next
  case DsFailed
  then show ?thesis using run c v
    by (auto simp: fsm_driven_handle_def fsm_failed_action_def fsm_next_def moved_def coherent_def
        split: if_splits)
qed

lemma coherent_cached: "coherent d s \<Longrightarrow> coherent d (s\<lparr>mm_data_source := Some d\<rparr>)"
  by (simp add: coherent_def)

lemma moved_synced:
  "moved d st b s \<Longrightarrow> sync_data_source s = (r, s') \<Longrightarrow> (\<exists>x. r = Inr x) \<and> moved d st b s'"
  using sync_coherent [of d s] sync_coherent [of "d\<lparr>ds_source_state := st\<rparr>" s]
    coherent_cached [of d s] coherent_cached [of "d\<lparr>ds_source_state := st\<rparr>" s]
  by (auto simp: moved_def)

lemma fsm_drive_moved:
  assumes c: "coherent d s" and run: "fsm_drive en peer s = (r, s')"
  shows "moved d (fsm_next (ds_is_leader d) (mm_batch_mode s) (all_joined en (mm_manager s)) peer (ds_source_state d))
      (\<exists>b. r = Inr b) s'"
proof -
  let ?s = "s\<lparr>mm_data_source := Some d\<rparr>"
  let ?next = "fsm_next (ds_is_leader d) (mm_batch_mode s) (all_joined en (mm_manager s)) peer (ds_source_state d)"
  have c1: "coherent d ?s" by (rule coherent_cached [OF c])
  have run1: "sx_bind (fallback_failed_state d peer) (\<lambda>fallen.
     if fallen then sx_return (ds_source_state d)
     else sx_bind (fsm_driven_handle en d peer) (\<lambda>changed.
       if changed then sx_bind sync_data_source (\<lambda>d'. sx_return (ds_source_state d'))
       else sx_return (ds_source_state d))) ?s = (r, s')"
    using run by (simp add: fsm_drive_def sx_bind_def [of sync_data_source] sync_coherent [OF c])
  show ?thesis
  proof (cases "peer \<in> invalid_peer_fsm_state (ds_source_state d)")
    case True
    obtain r1 s1 where m: "move_to DsFailed d ?s = (r1, s1)" by fastforce
    have "?next = DsFailed" using True by (simp add: fsm_next_def)
    then show ?thesis
      using run1 True m move_moved [OF c1 m]
      by (auto simp: fallback_failed_state_def sx_bind_def split: sum.splits)
  next
    case False
    obtain r1 s1 where h: "fsm_driven_handle en d peer ?s = (r1, s1)" by fastforce
    have hm: "moved d ?next (\<exists>b. r1 = Inr b) s1" using handle_moved [OF c1 False h] by simp
    have run2: "(case r1 of Inl e \<Rightarrow> (Inl e, s1)
       | Inr changed \<Rightarrow> (if changed then sx_bind sync_data_source (\<lambda>d'. sx_return (ds_source_state d'))
           else sx_return (ds_source_state d)) s1) = (r, s')"
      using run1 False h by (simp add: fallback_failed_state_def sx_bind_def split: sum.splits)
    show ?thesis
    proof (cases r1)
      case (Inl e)
      then show ?thesis using run2 hm(1) by auto
    next
      case (Inr changed)
      obtain r2 s2 where sy: "sync_data_source s1 = (r2, s2)" by fastforce
      then have "moved d ?next True s2" "\<exists>x. r2 = Inr x" using moved_synced [OF hm(1) sy] Inr by auto
      then show ?thesis using run2 Inr sy hm(1) by (auto simp: sx_bind_def split: if_splits)
    qed
  qed
qed

lemma moved_manager: "moved d st b s \<Longrightarrow> moved d st b (s\<lparr>mm_manager := m\<rparr>)"
  by (simp add: moved_def coherent_def)

lemma moved_weaken: "moved d st b s \<Longrightarrow> (b' \<Longrightarrow> b) \<Longrightarrow> moved d st b' s"
  by (auto simp: moved_def)

section \<open>Leader and follower\<close>

text \<open>
  Each party asks its peer for the state and acts on the answer later, when the peer may
  have moved on; it may lose the answer, and in batch mode a restart takes it from \<open>Ready\<close>
  back to \<open>Processing\<close>. An abort from outside sets a party to \<open>Failed\<close>.
\<close>

record parties =
  pa_leader :: ds_state
  pa_follower :: ds_state
  pa_leader_poll :: "ds_state option"
  pa_follower_poll :: "ds_state option"

inductive parties_step :: "bool \<Rightarrow> bool \<Rightarrow> parties \<Rightarrow> parties \<Rightarrow> bool"
  for batch aborts where
  leader_polls: "parties_step batch aborts p (p\<lparr>pa_leader_poll := Some (pa_follower p)\<rparr>)"
| follower_polls: "parties_step batch aborts p (p\<lparr>pa_follower_poll := Some (pa_leader p)\<rparr>)"
| leader_acts: "pa_leader_poll p = Some x \<Longrightarrow> parties_step batch aborts p
    (p\<lparr>pa_leader := fsm_next True batch finished x (pa_leader p), pa_leader_poll := None\<rparr>)"
| follower_acts: "pa_follower_poll p = Some x \<Longrightarrow> parties_step batch aborts p
    (p\<lparr>pa_follower := fsm_next False batch finished x (pa_follower p), pa_follower_poll := None\<rparr>)"
| leader_loses: "parties_step batch aborts p (p\<lparr>pa_leader_poll := None\<rparr>)"
| follower_loses: "parties_step batch aborts p (p\<lparr>pa_follower_poll := None\<rparr>)"
| leader_restarts: "batch \<Longrightarrow> pa_leader p = Ready \<Longrightarrow> parties_step batch aborts p
    (p\<lparr>pa_leader := Processing, pa_leader_poll := None\<rparr>)"
| follower_restarts: "batch \<Longrightarrow> pa_follower p = Ready \<Longrightarrow> parties_step batch aborts p
    (p\<lparr>pa_follower := Processing, pa_follower_poll := None\<rparr>)"
| leader_aborted: "aborts \<Longrightarrow> parties_step batch aborts p (p\<lparr>pa_leader := DsFailed\<rparr>)"
| follower_aborted: "aborts \<Longrightarrow> parties_step batch aborts p (p\<lparr>pa_follower := DsFailed\<rparr>)"

inductive_cases parties_stepE: "parties_step batch aborts p p'"

definition both_init :: parties where
  "both_init = \<lparr>pa_leader = DsInit, pa_follower = DsInit, pa_leader_poll = None, pa_follower_poll = None\<rparr>"

definition parties_reach :: "bool \<Rightarrow> bool \<Rightarrow> parties \<Rightarrow> bool" where
  "parties_reach batch aborts p \<longleftrightarrow> (parties_step batch aborts)\<^sup>*\<^sup>* both_init p"

text \<open>
  Side by side: without batch mode the leader is at most one state ahead, of the follower and
  of what either knows of the other.
\<close>

definition side_by_side :: "ds_state \<Rightarrow> ds_state \<Rightarrow> bool" where
  "side_by_side l f \<longleftrightarrow> (l, f) \<in> {(DsInit, DsInit), (Processing, DsInit), (Processing, Processing),
     (Ready, Processing), (Ready, Ready), (DsFinished, Ready), (DsFinished, DsFinished)}"

definition parties_inv :: "parties \<Rightarrow> bool" where
  "parties_inv p \<longleftrightarrow>
     side_by_side (pa_leader p) (pa_follower p) \<and>
     (\<forall>x. pa_leader_poll p = Some x \<longrightarrow>
        side_by_side (pa_leader p) x \<and> ds_rank x \<le> ds_rank (pa_follower p)) \<and>
     (\<forall>y. pa_follower_poll p = Some y \<longrightarrow>
        side_by_side y (pa_follower p) \<and> ds_rank y \<le> ds_rank (pa_leader p))"

text \<open>In batch mode nobody gets beyond \<open>Ready\<close>, and \<open>Init\<close> is left once and for all.\<close>

definition batch_side :: "ds_state \<Rightarrow> ds_state \<Rightarrow> bool" where
  "batch_side l f \<longleftrightarrow> (l, f) \<in> {(DsInit, DsInit), (Processing, DsInit), (Processing, Processing),
     (Processing, Ready), (Ready, Processing), (Ready, Ready)}"

definition batch_inv :: "parties \<Rightarrow> bool" where
  "batch_inv p \<longleftrightarrow>
     batch_side (pa_leader p) (pa_follower p) \<and>
     (\<forall>x. pa_leader_poll p = Some x \<longrightarrow>
        batch_side (pa_leader p) x \<and> (pa_follower p = DsInit \<longrightarrow> x = DsInit)) \<and>
     (\<forall>y. pa_follower_poll p = Some y \<longrightarrow>
        batch_side y (pa_follower p) \<and> (pa_leader p = DsInit \<longrightarrow> y = DsInit))"

lemma leader_next:
  assumes "side_by_side l f" "side_by_side l x" "ds_rank x \<le> ds_rank f"
  shows "side_by_side (fsm_next True False finished x l) f"
    "ds_rank l \<le> ds_rank (fsm_next True False finished x l)"
  using assms by (cases l; cases f; cases x; simp add: side_by_side_def fsm_next_def)+

lemma follower_next:
  assumes "side_by_side l f" "side_by_side y f" "ds_rank y \<le> ds_rank l"
  shows "side_by_side l (fsm_next False False finished y f)"
    "ds_rank f \<le> ds_rank (fsm_next False False finished y f)"
  using assms by (cases l; cases f; cases y; simp add: side_by_side_def fsm_next_def)+

lemma parties_inv_step:
  assumes "parties_step False False p p'" "parties_inv p"
  shows "parties_inv p'"
  using assms(1)
proof (cases rule: parties_step.cases)
  case (leader_acts x finished)
  then show ?thesis
    using assms(2) leader_next [of "pa_leader p" "pa_follower p" x finished]
    by (auto simp: parties_inv_def intro: order_trans)
next
  case (follower_acts x finished)
  then show ?thesis
    using assms(2) follower_next [of "pa_leader p" "pa_follower p" x finished]
    by (auto simp: parties_inv_def intro: order_trans)
qed (use assms(2) in \<open>auto simp: parties_inv_def\<close>)

lemma batch_leader_next:
  assumes "batch_side l f" "batch_side l x" "f = DsInit \<longrightarrow> x = DsInit"
  shows "batch_side (fsm_next True True finished x l) f"
    "fsm_next True True finished x l = DsInit \<longrightarrow> l = DsInit"
  using assms by (cases l; cases f; cases x; simp add: batch_side_def fsm_next_def)+

lemma batch_follower_next:
  assumes "batch_side l f" "batch_side y f" "l = DsInit \<longrightarrow> y = DsInit"
  shows "batch_side l (fsm_next False True finished y f)"
    "fsm_next False True finished y f = DsInit \<longrightarrow> f = DsInit"
  using assms by (cases l; cases f; cases y; simp add: batch_side_def fsm_next_def)+

lemma batch_inv_step:
  assumes "parties_step True False p p'" "batch_inv p"
  shows "batch_inv p'"
  using assms(1)
proof (cases rule: parties_step.cases)
  case (leader_acts x finished)
  then show ?thesis
    using assms(2) batch_leader_next [of "pa_leader p" "pa_follower p" x finished]
    by (auto simp: batch_inv_def)
next
  case (follower_acts x finished)
  then show ?thesis
    using assms(2) batch_follower_next [of "pa_leader p" "pa_follower p" x finished]
    by (auto simp: batch_inv_def)
next
  case leader_restarts
  then show ?thesis using assms(2) by (auto simp: batch_inv_def batch_side_def)
next
  case follower_restarts
  then show ?thesis using assms(2) by (auto simp: batch_inv_def batch_side_def)
qed (use assms(2) in \<open>auto simp: batch_inv_def\<close>)

lemma parties_reach_inv:
  assumes "parties_reach batch False p"
  shows "if batch then batch_inv p else parties_inv p"
proof -
  have init: "parties_inv both_init" "batch_inv both_init"
    by (auto simp: both_init_def parties_inv_def batch_inv_def side_by_side_def batch_side_def)
  have "(parties_step batch False)\<^sup>*\<^sup>* both_init p" using assms by (simp add: parties_reach_def)
  then show ?thesis
    by (induction rule: rtranclp_induct)
      (use init in \<open>auto intro: parties_inv_step batch_inv_step split: if_splits\<close>)
qed

lemma failed_stays:
  assumes "(parties_step batch aborts)\<^sup>*\<^sup>* p p'"
  shows "pa_leader p = DsFailed \<Longrightarrow> pa_leader p' = DsFailed"
    "pa_follower p = DsFailed \<Longrightarrow> pa_follower p' = DsFailed"
  using assms
proof (induction rule: rtranclp_induct)
  case (step q r)
  {
    case 1
    from step(2) 1 step(3) show ?case by (elim parties_stepE) (auto simp: fsm_next_def)
  next
    case 2
    from step(2) 2 step(4) show ?case by (elim parties_stepE) (auto simp: fsm_next_def)
  }
qed simp_all

lemma no_unknown:
  assumes "parties_reach batch aborts p"
  shows "pa_leader p \<noteq> UnKnown \<and> pa_follower p \<noteq> UnKnown"
proof -
  have nxt: "st \<noteq> UnKnown \<Longrightarrow> fsm_next leader batch finished peer st \<noteq> UnKnown" for leader finished peer st
    by (cases st) (auto simp: fsm_next_def)
  have "(parties_step batch aborts)\<^sup>*\<^sup>* both_init p" using assms by (simp add: parties_reach_def)
  then show ?thesis
  proof (induction rule: rtranclp_induct)
    case (step q r)
    from step(2,3) show ?case by (elim parties_stepE) (auto simp: nxt)
  qed (simp add: both_init_def)
qed

lemma failed_peer: "st \<noteq> UnKnown \<Longrightarrow> fsm_next leader batch finished DsFailed st = DsFailed"
  by (cases st) (auto simp: fsm_next_def)

section \<open>Requests\<close>

lemma alloc_at_holder:
  assumes "alloc_at en fd src target rank p s = (Inr m, s')" "\<And>r m. fst fd (snd fd r m) = r"
  shows "rp_state (fst fd m) = target \<and> rp_rank_id (fst fd m) = rank"
  using assms by (auto simp: alloc_at_def Let_def sx_bind_Inr split: if_splits)

lemma alloc_partition_holder:
  assumes "alloc_partition en fd src target rank po s = (Inr (Some m), s')"
    and "\<And>r m. fst fd (snd fd r m) = r"
  shows "rp_state (fst fd m) = target \<and> rp_rank_id (fst fd m) = rank"
proof -
  obtain p s1 where "alloc_at en fd src target rank p s1 = (Inr m, s')"
    using assms(1) by (auto simp: alloc_partition_def sx_bind_Inr split: option.splits)
  from alloc_at_holder [OF this assms(2)] show ?thesis .
qed

lemma alloc_sync_holder:
  "alloc_sync_exampld_id en rank po s = (Inr (Some m), s') \<Longrightarrow>
     rp_state (mf_sync_example_id_rep m) = Syncing \<and> rp_rank_id (mf_sync_example_id_rep m) = rank"
  using alloc_partition_holder [of en sync_field UnSynced Syncing rank po]
  by (auto simp: alloc_sync_exampld_id_def sx_bind_Inr sync_field_def)

lemma alloc_join_holder:
  "alloc_join_example en rank po s = (Inr (Some m), s') \<Longrightarrow>
     rp_state (mf_join_example_rep m) = Joining \<and> rp_rank_id (mf_join_example_rep m) = rank"
  using alloc_partition_holder [of en join_field UnJoined Joining rank po]
  by (auto simp: alloc_join_example_def sx_bind_Inr join_field_def)

text \<open>A request that does not pass the guards is answered without touching the manager.\<close>

definition passes_guards :: "data_source_meta \<Rightarrow> join_request \<Rightarrow> data_source \<Rightarrow> bool" where
  "passes_guards local_meta rq d \<longleftrightarrow>
     rq_meta rq = local_meta \<and> 0 \<le> rq_rank_id rq \<and> ds_source_state d = Processing \<and>
     (rq_msg rq = Sync_example_id \<or> rq_msg rq = Join_example)"

lemma request_rejected:
  assumes "coherent d s" "\<not> passes_guards local_meta rq d"
  shows "\<exists>code s'. code \<noteq> 0 \<and> request_join_partition en local_meta rq s = (Inr (response code), s') \<and>
    mm_manager s' = mm_manager s \<and> coherent d s'"
proof -
  note defs = request_join_partition_def check_data_source_meta_def check_rank_id_def
  consider (meta) "rq_meta rq \<noteq> local_meta" | (rank) "rq_meta rq = local_meta" "rq_rank_id rq < 0"
    | (state) "rq_meta rq = local_meta" "0 \<le> rq_rank_id rq" "ds_source_state d \<noteq> Processing"
    | (msg) "rq_meta rq = local_meta" "0 \<le> rq_rank_id rq" "ds_source_state d = Processing"
        "rq_msg rq \<noteq> Sync_example_id" "rq_msg rq \<noteq> Join_example"
    using assms(2) unfolding passes_guards_def by (meson not_le)
  then show ?thesis
  proof cases
    case meta
    then show ?thesis using assms(1) by (intro exI [of _ "- 1"] exI [of _ s]) (simp add: defs)
  next
    case rank
    then show ?thesis using assms(1) by (intro exI [of _ "- 2"] exI [of _ s]) (simp add: defs)
  next
    case state
    then show ?thesis using coherent_cached [OF assms(1)]
      by (intro exI [of _ "- 3"] exI [of _ "s\<lparr>mm_data_source := Some d\<rparr>"])
        (simp add: defs sx_bind_def sync_coherent [OF assms(1)])
  next
    case msg
    then show ?thesis using coherent_cached [OF assms(1)]
      by (intro exI [of _ "- 4"] exI [of _ "s\<lparr>mm_data_source := Some d\<rparr>"])
        (cases "rq_msg rq"; simp add: defs sx_bind_def sync_coherent [OF assms(1)] Let_def)
  qed
qed

lemma request_accepted:
  assumes "coherent d s" "passes_guards local_meta rq d"
    and "request_join_partition en local_meta rq s = (Inr rs, s')"
  shows "rs_code rs = 0 \<and> coherent d s' \<and>
    (case rs_manifest rs of
       None \<Rightarrow> rs_finished rs \<and> rq_partition_id rq < 0
     | Some m \<Rightarrow>
         (rq_msg rq = Sync_example_id \<longrightarrow> rp_state (mf_sync_example_id_rep m) = Syncing \<and>
            rp_rank_id (mf_sync_example_id_rep m) = rq_rank_id rq) \<and>
         (rq_msg rq = Join_example \<longrightarrow> rp_state (mf_join_example_rep m) = Joining \<and>
            rp_rank_id (mf_join_example_rep m) = rq_rank_id rq))"
proof -
  let ?po = "if rq_partition_id rq < 0 then None else Some (rq_partition_id rq)"
  let ?answer = "\<lambda>mo. case mo of
      Some m \<Rightarrow> sx_return \<lparr>rs_code = 0, rs_manifest = Some m, rs_finished = False\<rparr>
    | None \<Rightarrow> sx_bind (sx_assert (?po = None)) (\<lambda>_.
        sx_return \<lparr>rs_code = 0, rs_manifest = None, rs_finished = True\<rparr>)"
  let ?s = "s\<lparr>mm_data_source := Some d\<rparr>"
  have answered: "rs_code rs = 0 \<and> coherent d s' \<and>
      (rs_manifest rs = None \<longrightarrow> rs_finished rs \<and> rq_partition_id rq < 0) \<and>
      (\<forall>m. rs_manifest rs = Some m \<longrightarrow> f (mm_manager s) = (Inr (Some m), mm_manager s'))"
    if prem: "sx_bind (on_manager f) ?answer ?s = (Inr rs, s')" for f
  proof -
    obtain mo s1 where 1: "on_manager f ?s = (Inr mo, s1)" "?answer mo s1 = (Inr rs, s')"
      using prem unfolding sx_bind_Inr by blast
    then have "s' = s1" by (auto simp: sx_assert_def sx_bind_def split: option.splits if_splits)
    moreover have "coherent d s1"
      using on_manager_frame [OF 1(1)] assms(1) by (simp add: coherent_def)
    ultimately show ?thesis
      using 1(2) on_manager_frame(5) [OF 1(1)]
      by (auto simp: sx_assert_def sx_bind_def split: option.splits if_splits)
  qed
  have g: "rq_meta rq = local_meta" "0 \<le> rq_rank_id rq" "ds_source_state d = Processing"
    using assms(2) by (auto simp: passes_guards_def)
  consider "rq_msg rq = Sync_example_id" | "rq_msg rq = Join_example"
    using assms(2) by (auto simp: passes_guards_def)
  then show ?thesis
  proof cases
    case 1
    then have "sx_bind (on_manager (alloc_sync_exampld_id en (rq_rank_id rq) ?po)) ?answer ?s = (Inr rs, s')"
      using assms(1,3) g
      by (simp add: request_join_partition_def check_data_source_meta_def check_rank_id_def Let_def
          sx_bind_def [of sync_data_source] sync_coherent)
    from answered [OF this] show ?thesis using 1 by (auto split: option.splits dest: alloc_sync_holder)
  next
    case 2
    then have "sx_bind (on_manager (alloc_join_example en (rq_rank_id rq) ?po)) ?answer ?s = (Inr rs, s')"
      using assms(1,3) g
      by (simp add: request_join_partition_def check_data_source_meta_def check_rank_id_def Let_def
          sx_bind_def [of sync_data_source] sync_coherent)
    from answered [OF this] show ?thesis using 2 by (auto split: option.splits dest: alloc_join_holder)
  qed
qed

section \<open>Properties\<close>

text \<open>
  C8. One round of the master implements the abstract machine: with the peer's answer, the
  stored state of the data source becomes the next state of the machine, in which
  \<open>Ready\<close> needs every partition to be synced and joined; a commit that fails may leave the
  old one, and a round that returns has made the step. What is cached stays true.
\<close>

theorem master_refines_fsm:
  assumes "coherent d s" "fsm_routine_fn en (Inr peer) s = Some (r, s')"
  shows "\<exists>st. coherent (d\<lparr>ds_source_state := st\<rparr>) s' \<and>
    (st = ds_source_state d \<or>
     st = fsm_next (ds_is_leader d) (mm_batch_mode s) (all_joined en (mm_manager s)) peer (ds_source_state d)) \<and>
    (r = Inr () \<longrightarrow>
     st = fsm_next (ds_is_leader d) (mm_batch_mode s) (all_joined en (mm_manager s)) peer (ds_source_state d))"
proof -
  let ?N = "fsm_next (ds_is_leader d) (mm_batch_mode s) (all_joined en (mm_manager s)) peer (ds_source_state d)"
  obtain r1 s1 where f: "fsm_drive en peer s = (r1, s1)" by fastforce
  have "moved d ?N (r = Inr ()) s'"
  proof (cases r1)
    case (Inl e)
    then show ?thesis
      using assms(2) f fsm_drive_moved [OF assms(1) f] by (auto simp: fsm_routine_fn_def)
  next
    case (Inr st)
    then have m: "moved d ?N True s1" using fsm_drive_moved [OF assms(1) f] by simp
    have "s' = s1 \<or> (\<exists>mg. s' = s1\<lparr>mm_manager := mg\<rparr>)"
      using assms(2) f Inr by (auto simp: fsm_routine_fn_def split: if_splits)
    then show ?thesis using m moved_manager moved_weaken [of d ?N True] by metis
  qed
  moreover have "d\<lparr>ds_source_state := ds_source_state d\<rparr> = d" by simp
  ultimately show ?thesis unfolding moved_def by (metis (full_types))
qed

text \<open>
  C27. Two masters that only follow the machine never abort a data source: in every reachable
  situation neither is in \<open>Failed\<close>, even though each acts on an answer that may be out of
  date; without batch mode the leader is at most one state ahead, and in batch mode
  nobody finishes.
\<close>

theorem no_spurious_abort:
  assumes "parties_reach batch False p"
  shows "pa_leader p \<noteq> DsFailed \<and> pa_follower p \<noteq> DsFailed \<and>
    (if batch then pa_leader p \<noteq> DsFinished \<and> pa_follower p \<noteq> DsFinished
     else ds_rank (pa_follower p) \<le> ds_rank (pa_leader p) \<and>
       ds_rank (pa_leader p) \<le> ds_rank (pa_follower p) + 1)"
  using parties_reach_inv [OF assms]
  by (auto simp: parties_inv_def batch_inv_def side_by_side_def batch_side_def split: if_splits)

text \<open>
  C28. A failure spreads and stays: once one party is in \<open>Failed\<close>, it remains there whatever
  happens, and the other gets there with its next action on a fresh answer.
\<close>

theorem failure_spreads:
  assumes "parties_reach batch aborts p" "(parties_step batch aborts)\<^sup>*\<^sup>* p p'"
    and "pa_leader p = DsFailed \<or> pa_follower p = DsFailed"
  shows "(if pa_leader p = DsFailed
     then pa_leader p' = DsFailed \<and> fsm_next False batch finished (pa_leader p') (pa_follower p') = DsFailed
     else pa_follower p' = DsFailed \<and> fsm_next True batch finished (pa_follower p') (pa_leader p') = DsFailed)"
proof -
  have "parties_reach batch aborts p'" using assms(1,2) by (simp add: parties_reach_def)
  note u = no_unknown [OF this]
  then show ?thesis using failed_stays [OF assms(2)] assms(3) failed_peer by auto
qed

text \<open>
  C29. A partition is only handed out to a request with the right data source, a valid rank and
  a known purpose while the data source is being processed, and then to that rank; any
  other request is answered with an error code and changes no manifest.
\<close>

theorem request_guards:
  assumes "coherent d s" "request_join_partition en local_meta rq s = (Inr rs, s')"
  shows "if passes_guards local_meta rq d
    then rs_code rs = 0 \<and>
      (case rs_manifest rs of
         None \<Rightarrow> rs_finished rs \<and> rq_partition_id rq < 0
       | Some m \<Rightarrow>
           (if rq_msg rq = Sync_example_id
            then rp_state (mf_sync_example_id_rep m) = Syncing \<and>
              rp_rank_id (mf_sync_example_id_rep m) = rq_rank_id rq
            else rp_state (mf_join_example_rep m) = Joining \<and>
              rp_rank_id (mf_join_example_rep m) = rq_rank_id rq))
    else rs_code rs \<noteq> 0 \<and> mm_manager s' = mm_manager s"
proof (cases "passes_guards local_meta rq d")
  case True
  then have "rq_msg rq = Sync_example_id \<or> rq_msg rq = Join_example" by (simp add: passes_guards_def)
  then show ?thesis
    using request_accepted [OF assms(1) True assms(2)] True by (auto split: option.splits)
next
  case False
  then show ?thesis using request_rejected [OF assms(1) False, of en] assms(2) by (auto simp: response_def)
qed

subsection \<open>Witnesses\<close>

definition sample_source :: "ds_state \<Rightarrow> data_source" where
  "sample_source st =
     \<lparr>ds_meta = \<lparr>dm_name = ''ds'', dm_partition_num = 1, dm_start_time = 0, dm_end_time = 9,
                 dm_negative_sampling_rate = 1\<rparr>,
      ds_is_leader = True, ds_source_state = st, ds_raw_data_sub_dir = ''''\<rparr>"

definition sample_master :: "ds_state \<Rightarrow> bool \<Rightarrow> kv_data master" where
  "sample_master st batch =
     \<lparr>mm_stored = Some (sample_source st), mm_data_source = None, mm_commits = [], mm_batch_mode = batch,
      mm_aborts = 0, mm_manager = manager_init (sample_env '''') [] []\<rparr>"

lemma sample_coherent: "coherent (sample_source st) (sample_master st batch)"
  by (simp add: coherent_def sample_master_def)

lemma sample_round:
  "fsm_routine_fn (sample_env '''') (Inr DsInit) (sample_master DsInit True) =
     Some (Inr (), (sample_master DsInit True)
       \<lparr>mm_stored := Some (sample_source Processing), mm_data_source := Some (sample_source Processing)\<rparr>)"
  by (simp add: fsm_routine_fn_def fsm_drive_def sync_data_source_def sample_master_def fallback_failed_state_def
      fsm_driven_handle_def fsm_init_action_def sample_source_def move_to_def update_data_source_def
      commit_data_source_def sx_bind_def)

theorem master_refines_fsm_witness:
  "\<exists>st. coherent ((sample_source DsInit)\<lparr>ds_source_state := st\<rparr>) ((sample_master DsInit True)
       \<lparr>mm_stored := Some (sample_source Processing), mm_data_source := Some (sample_source Processing)\<rparr>) \<and>
     st = fsm_next True True (all_joined (sample_env '''') (mm_manager (sample_master DsInit True))) DsInit DsInit"
  using master_refines_fsm [OF sample_coherent sample_round]
  by (auto simp: sample_master_def sample_source_def)

definition one_ahead :: parties where
  "one_ahead = \<lparr>pa_leader = Processing, pa_follower = DsInit, pa_leader_poll = None, pa_follower_poll = None\<rparr>"

lemma one_ahead_reach: "parties_reach batch aborts one_ahead"
proof -
  let ?p1 = "both_init\<lparr>pa_leader_poll := Some DsInit\<rparr>"
  have "parties_step batch aborts both_init ?p1"
    using leader_polls [of batch aborts both_init] by (simp add: both_init_def)
  moreover have "parties_step batch aborts ?p1 one_ahead"
    using leader_acts [of ?p1 DsInit batch aborts False]
    by (simp add: both_init_def one_ahead_def fsm_next_def)
  ultimately show ?thesis
    unfolding parties_reach_def by (meson r_into_rtranclp rtranclp.rtrancl_into_rtrancl)
qed

theorem no_spurious_abort_witness:
  "ds_rank (pa_follower one_ahead) \<le> ds_rank (pa_leader one_ahead) \<and>
     ds_rank (pa_leader one_ahead) \<le> ds_rank (pa_follower one_ahead) + 1"
  using no_spurious_abort [OF one_ahead_reach [of False]] by simp

theorem failure_spreads_witness:
  "parties_reach False True (one_ahead\<lparr>pa_leader := DsFailed\<rparr>) \<and>
     fsm_next False False True DsFailed (pa_follower (one_ahead\<lparr>pa_leader := DsFailed\<rparr>)) = DsFailed"
proof -
  let ?p = "one_ahead\<lparr>pa_leader := DsFailed\<rparr>"
  have r: "parties_reach False True ?p"
    using one_ahead_reach [of False True] leader_aborted [of True False one_ahead]
    unfolding parties_reach_def by (simp add: rtranclp.rtrancl_into_rtrancl)
  show ?thesis using failure_spreads [OF r rtranclp.rtrancl_refl, of True] r by simp
qed

theorem request_guards_witness:
  "\<exists>rs s'. request_join_partition (sample_env '''') (ds_meta (sample_source DsInit))
      \<lparr>rq_meta = ds_meta (sample_source DsInit), rq_rank_id = 0, rq_partition_id = 0, rq_msg = Join_example\<rparr>
      (sample_master DsInit False) = (Inr rs, s') \<and>
     rs_code rs \<noteq> 0 \<and> mm_manager s' = mm_manager (sample_master DsInit False)"
proof -
  let ?rq = "\<lparr>rq_meta = ds_meta (sample_source DsInit), rq_rank_id = 0, rq_partition_id = 0,
    rq_msg = Join_example\<rparr>"
  have g: "\<not> passes_guards (ds_meta (sample_source DsInit)) ?rq (sample_source DsInit)"
    by (simp add: passes_guards_def sample_source_def)
  obtain rs s' where run: "request_join_partition (sample_env '''') (ds_meta (sample_source DsInit)) ?rq
      (sample_master DsInit False) = (Inr rs, s')"
    using request_rejected [OF sample_coherent g] by blast
  show ?thesis using request_guards [OF sample_coherent run] g run by auto
qed

end
