(* ===== verification/Visitor.thy ===== *)
theory Visitor
  imports Prelude
begin

text \<open>
  Reading a partition (\<open>data_join/visitor.py\<close>,
  \<open>data_join/raw_data_iter_impl/raw_data_iter.py\<close>).

  A visitor walks over the files of a partition through an iterator that is reset from
  file to file, and asks an index meta manager for the next file when it has used up those it
  knows. What the generator over a file will yield is a list of items and, at the end of it,
  either \<open>StopIteration\<close> or an exception, after which a Python generator only raises
  \<open>StopIteration\<close>. What opening a file yields (the subclass's \<open>_inner_iter\<close>) is the
  parameter \<open>disk\<close>; the manager's \<open>get_index_meta_by_index\<close> is the parameter
  \<open>gim\<close>, for which \<open>index_source\<close> is the contract. The recursion of
  \<open>_forward_to_target\<close> is bounded by Python's recursion limit: \<open>depth\<close> is the number
  of frames left, and running out of them is a \<open>RuntimeError\<close> (\<open>RecursionError\<close> is
  one).
\<close>

section \<open>Index metas\<close>

record index_meta =
  im_process_index :: int
  im_start_index :: int
  im_fpath :: string

definition index_meta_lt :: "index_meta \<Rightarrow> index_meta \<Rightarrow> bool" where
  "index_meta_lt m other \<longleftrightarrow> im_start_index m < im_start_index other"

record index_meta_manager =
  imm_index_metas :: "index_meta list"

text \<open>The constructor: the metas in order of their start, which must be numbered from 0 on.\<close>

definition sorted_index_metas :: "index_meta list \<Rightarrow> index_meta list result" where
  "sorted_index_metas preload_metas =
     (let metas = sort_key im_start_index preload_metas in
      if \<forall>k < length metas. im_process_index (metas ! k) = int k
      then Inr metas else Inl ProcessExit)"

text \<open>\<open>new_meta\<close> is the subclass's \<open>_new_index_meta\<close>.\<close>

definition get_index_meta_by_index ::
    "(int \<Rightarrow> int \<Rightarrow> ('x index_meta_manager_scheme, index_meta option) sx) \<Rightarrow>
     int \<Rightarrow> int \<Rightarrow> ('x index_meta_manager_scheme, index_meta option) sx" where
  "get_index_meta_by_index new_meta process_index start_index =
     sx_bind sx_get (\<lambda>s.
       let metas = imm_index_metas s in
       if process_index < 0 \<or> process_index > int (length metas) then sx_raise IndexError
       else if process_index = 0 \<and> start_index \<noteq> 0 then sx_raise IndexError
       else if process_index \<noteq> 0 \<and> \<not> im_start_index (metas ! nat (process_index - 1)) \<le> start_index
       then sx_raise AssertionError
       else if process_index = int (length metas)
       then sx_bind (new_meta process_index start_index) (\<lambda>m.
              case m of
                None \<Rightarrow> sx_return None
              | Some im \<Rightarrow>
                  sx_bind (sx_modify (\<lambda>s. s\<lparr>imm_index_metas := imm_index_metas s @ [im]\<rparr>)) (\<lambda>_.
                  sx_bind sx_get (\<lambda>s. sx_return (Some (imm_index_metas s ! nat process_index)))))
       else sx_return (Some (metas ! nat process_index)))"

section \<open>The iterator over one file\<close>

type_synonym 'i fiter = "'i list \<times> py_exn option"

fun gen_next :: "'i fiter \<Rightarrow> 'i result \<times> 'i fiter" where
  "gen_next (x # xs, e) = (Inr x, xs, e)"
| "gen_next ([], Some e) = (Inl e, [], None)"
| "gen_next ([], None) = (Inl StopIteration, [], None)"

record 'i raw_iter =
  it_fiter :: "'i fiter option"
  it_index_meta :: "index_meta option"
  it_item :: "'i option"
  it_index :: "int option"
  it_failed :: bool

definition new_iter :: "'i raw_iter" where
  "new_iter = \<lparr>it_fiter = None, it_index_meta = None, it_item = None, it_index = None,
     it_failed = False\<rparr>"

definition iter_valid :: "'i raw_iter \<Rightarrow> bool" where
  "iter_valid it \<longleftrightarrow> it_fiter it \<noteq> None \<and> it_index_meta it \<noteq> None \<and> it_item it \<noteq> None \<and>
     it_index it \<noteq> None"

definition check_valid :: "('i raw_iter, unit) sx" where
  "check_valid it = sx_assert (iter_valid it) it"

definition iter_get_index :: "('i raw_iter, int) sx" where
  "iter_get_index = sx_bind check_valid (\<lambda>_. sx_bind sx_get (\<lambda>it. sx_return (the (it_index it))))"

definition iter_get_item :: "('i raw_iter, 'i) sx" where
  "iter_get_item = sx_bind check_valid (\<lambda>_. sx_bind sx_get (\<lambda>it. sx_return (the (it_item it))))"

text \<open>
  \<open>_reset_iter\<close> of the file formats opens the file and reads its first item; the fields
  are cleared first and stay so when that raises.
\<close>

definition reset_iter ::
    "(string \<Rightarrow> 'i fiter) \<Rightarrow> index_meta option \<Rightarrow> bool \<Rightarrow> ('i raw_iter, unit) sx" where
  "reset_iter disk index_meta force it =
     (if index_meta \<noteq> it_index_meta it \<or> it_failed it \<or> force
      then let it1 = it\<lparr>it_fiter := None, it_index_meta := None, it_item := None, it_index := None\<rparr>
           in case index_meta of
                None \<Rightarrow> (Inr (), it1\<lparr>it_failed := False\<rparr>)
              | Some im \<Rightarrow>
                  (case gen_next (disk (im_fpath im)) of
                     (Inl e, _) \<Rightarrow> (Inl e, it1)
                   | (Inr x, g) \<Rightarrow>
                       (Inr (), \<lparr>it_fiter = Some g, it_index_meta = Some im, it_item = Some x,
                          it_index = Some (im_start_index im), it_failed = False\<rparr>))
      else (Inr (), it\<lparr>it_failed := False\<rparr>))"

text \<open>
  The part of \<open>__next__\<close> after the test of \<open>_iter_failed\<close>.
\<close>

definition iter_advance :: "('i raw_iter, int \<times> 'i) sx" where
  "iter_advance it =
     (case it_fiter it of
        None \<Rightarrow> (Inl AssertionError, it\<lparr>it_failed := True\<rparr>)
      | Some g \<Rightarrow>
          (case gen_next g of
             (Inl StopIteration, g1) \<Rightarrow> (Inl StopIteration, it\<lparr>it_fiter := Some g1\<rparr>)
           | (Inl e, g1) \<Rightarrow> (Inl e, it\<lparr>it_fiter := Some g1, it_failed := True\<rparr>)
           | (Inr x, g1) \<Rightarrow>
               let i = the (it_index it) + 1 in
               (Inr (i, x), it\<lparr>it_fiter := Some g1, it_item := Some x, it_index := Some i\<rparr>)))"

definition fiter_left :: "'i raw_iter \<Rightarrow> nat" where
  "fiter_left it = (case it_fiter it of None \<Rightarrow> 0 | Some g \<Rightarrow> length (fst g))"

lemma iter_advance_less:
  "iter_advance it = (Inr r, it') \<Longrightarrow> fiter_left it' < fiter_left it"
  by (auto simp: iter_advance_def fiter_left_def Let_def split: option.splits prod.splits
      sum.splits py_exn.splits elim: gen_next.elims)

text \<open>
  The loop \<open>for index, _ in self\<close> of \<open>seek_to_target\<close>. \<open>_iter_failed\<close> is down when it
  is entered (the reset before it has cleared the flag) and up only once it is left.
\<close>

function seek_loop :: "int \<Rightarrow> ('i raw_iter, unit) sx" where
  "seek_loop target it =
     (if \<not> iter_valid it then (Inl AssertionError, it)
      else case iter_advance it of
             (Inl StopIteration, it1) \<Rightarrow> (Inr (), it1)
           | (Inl e, it1) \<Rightarrow> (Inl e, it1)
           | (Inr (i, _), it1) \<Rightarrow> if i = target then (Inr (), it1) else seek_loop target it1)"
  by pat_completeness auto
termination
  by (relation "measure (\<lambda>(target, it). fiter_left it)") (auto dest: iter_advance_less [OF sym])

declare seek_loop.simps [simp del]

text \<open>
  The handler logs the path of \<open>_index_meta\<close>, which a failed reset has set to \<open>None\<close>:
  then it raises an \<open>AttributeError\<close> itself.
\<close>

definition seek_to_target ::
    "(string \<Rightarrow> 'i fiter) \<Rightarrow> int \<Rightarrow> ('i raw_iter, unit) sx" where
  "seek_to_target disk target =
     sx_bind check_valid (\<lambda>_. sx_bind sx_get (\<lambda>it.
       if im_start_index (the (it_index_meta it)) > target then sx_raise IndexError
       else (\<lambda>it.
         case (if the (it_index it) = target then (Inr (), it)
               else sx_bind
                 (if it_failed it \<or> the (it_index it) > target
                  then reset_iter disk (it_index_meta it) True else sx_return ())
                 (\<lambda>_. sx_bind sx_get (\<lambda>it.
                    if the (it_index it) < target then seek_loop target else sx_return ())) it) of
           (Inl e, it1) \<Rightarrow>
             (case it_index_meta it1 of
                None \<Rightarrow> (Inl AttributeError, it1)
              | Some _ \<Rightarrow> (Inl e, it1\<lparr>it_failed := True\<rparr>))
         | r \<Rightarrow> r)))"

text \<open>\<open>RawDataIter.__next__\<close>\<close>

definition iter_next :: "(string \<Rightarrow> 'i fiter) \<Rightarrow> ('i raw_iter, int \<times> 'i) sx" where
  "iter_next disk =
     sx_bind check_valid (\<lambda>_. sx_bind sx_get (\<lambda>it.
     sx_bind (if it_failed it then seek_to_target disk (the (it_index it)) else sx_return ()) (\<lambda>_.
       iter_advance)))"


section \<open>The visitor\<close>

record ('i, 'm) visitor =
  v_iter :: "'i raw_iter option"
  v_finished :: bool
  v_visited_max_index :: "int option"
  v_end_index :: "int option"
  v_process_index :: "int option"
  v_index_metas :: "index_meta list"
  v_manager :: 'm

type_synonym ('i, 'm, 'a) vx = "(('i, 'm) visitor, 'a) sx"

text \<open>What a visitor is run with: the files, the manager and the frames left.\<close>

record ('i, 'm) visitor_env =
  ve_disk :: "string \<Rightarrow> 'i fiter"
  ve_gim :: "int \<Rightarrow> int \<Rightarrow> ('m, index_meta option) sx"
  ve_depth :: nat

definition on_iter :: "('i raw_iter, 'a) sx \<Rightarrow> ('i, 'm, 'a) vx" where
  "on_iter f v =
     (case v_iter v of
        None \<Rightarrow> (Inl AttributeError, v)
      | Some it \<Rightarrow> (case f it of (r, it1) \<Rightarrow> (r, v\<lparr>v_iter := Some it1\<rparr>)))"

definition ask_manager :: "('m, 'a) sx \<Rightarrow> ('i, 'm, 'a) vx" where
  "ask_manager f v = (case f (v_manager v) of (r, m) \<Rightarrow> (r, v\<lparr>v_manager := m\<rparr>))"

text \<open>\<open>try: f  except StopIteration: h\<close>\<close>

definition except_stop :: "('s, 'a) sx \<Rightarrow> ('s, 'a) sx \<Rightarrow> ('s, 'a) sx" where
  "except_stop f h s = (case f s of (Inl StopIteration, s1) \<Rightarrow> h s1 | r \<Rightarrow> r)"

definition append_index_meta :: "index_meta \<Rightarrow> ('i, 'm, unit) vx" where
  "append_index_meta im v =
     (if (if v_index_metas v = [] then im_start_index im \<noteq> 0
          else index_meta_lt im (last (v_index_metas v)))
      then (Inl ProcessExit, v)
      else (Inr (), v\<lparr>v_index_metas := v_index_metas v @ [im]\<rparr>))"

text \<open>The constructor: \<open>metas\<close> is what the manager's \<open>get_index_metas\<close> returns.\<close>

fun append_index_metas :: "index_meta list \<Rightarrow> ('i, 'm, unit) vx" where
  "append_index_metas [] = sx_return ()"
| "append_index_metas (im # metas) =
     sx_bind (append_index_meta im) (\<lambda>_. append_index_metas metas)"

definition new_visitor :: "'m \<Rightarrow> index_meta list \<Rightarrow> ('i, 'm) visitor result" where
  "new_visitor m metas =
     (case append_index_metas metas
        \<lparr>v_iter = None, v_finished = False, v_visited_max_index = None, v_end_index = None,
         v_process_index = None, v_index_metas = [], v_manager = m\<rparr> of
        (Inl e, _) \<Rightarrow> Inl e
      | (Inr _, v) \<Rightarrow> Inr v)"

definition update_visited_max_index :: "('i, 'm, unit) vx" where
  "update_visited_max_index = sx_bind sx_get (\<lambda>v.
     case v_iter v of
       None \<Rightarrow> sx_return ()
     | Some _ \<Rightarrow>
         sx_bind (on_iter iter_get_index) (\<lambda>i.
           if v_visited_max_index v = None \<or> i > the (v_visited_max_index v)
           then sx_modify (\<lambda>v. v\<lparr>v_visited_max_index := Some i\<rparr>) else sx_return ()))"

text \<open>A new iterator is only kept once its reset has succeeded.\<close>

definition reset_iter_by_index_meta ::
    "('i, 'm) visitor_env \<Rightarrow> index_meta \<Rightarrow> ('i, 'm, unit) vx" where
  "reset_iter_by_index_meta en im v =
     (case v_iter v of
        Some _ \<Rightarrow> on_iter (reset_iter (ve_disk en) (Some im) False) v
      | None \<Rightarrow>
          (case reset_iter (ve_disk en) (Some im) False new_iter of
             (Inl e, _) \<Rightarrow> (Inl e, v)
           | (Inr _, it) \<Rightarrow> (Inr (), v\<lparr>v_iter := Some it\<rparr>)))"

text \<open>The first part of \<open>_forward_to_target\<close> finds the meta, asking the manager for a new one.\<close>

definition next_index_meta ::
    "('i, 'm) visitor_env \<Rightarrow> int \<Rightarrow> int \<Rightarrow> ('i, 'm, index_meta) vx" where
  "next_index_meta en process_index start_index = sx_bind sx_get (\<lambda>v.
     if process_index < int (length (v_index_metas v))
     then (\<lambda>v. (list_at (v_index_metas v) process_index, v))
     else sx_bind (sx_assert (process_index = int (length (v_index_metas v)))) (\<lambda>_.
          sx_bind (ask_manager (ve_gim en process_index start_index)) (\<lambda>m.
          case m of
            None \<Rightarrow> sx_bind (sx_modify (\<lambda>v. v\<lparr>v_finished := True\<rparr>)) (\<lambda>_. sx_raise StopIteration)
          | Some im \<Rightarrow> sx_bind (append_index_meta im) (\<lambda>_. sx_return im))))"

text \<open>The last part, once the iterator is on the file, up to the test for the next file.\<close>

definition seek_in_file :: "('i, 'm) visitor_env \<Rightarrow> int \<Rightarrow> int \<Rightarrow> ('i, 'm, int) vx" where
  "seek_in_file en process_index target_index =
     sx_bind (sx_modify (\<lambda>v. v\<lparr>v_process_index := Some process_index\<rparr>)) (\<lambda>_.
     sx_bind (on_iter (seek_to_target (ve_disk en) target_index)) (\<lambda>_.
     sx_bind update_visited_max_index (\<lambda>_.
       on_iter iter_get_index)))"

text \<open>
  Python's \<open>try\<close> covers the reset only, so whether it stopped is a value here.
\<close>

fun forward_to_target ::
    "('i, 'm) visitor_env \<Rightarrow> nat \<Rightarrow> int \<Rightarrow> int \<Rightarrow> int \<Rightarrow> ('i, 'm, int \<times> 'i) vx" where
  "forward_to_target en 0 process_index start_index target_index = sx_raise RuntimeError"
| "forward_to_target en (Suc depth) process_index start_index target_index =
     sx_bind (next_index_meta en process_index start_index) (\<lambda>im.
     sx_bind (sx_assert (im_process_index im = process_index)) (\<lambda>_.
     sx_bind (sx_assert (im_start_index im = start_index)) (\<lambda>_.
     sx_bind (except_stop (sx_bind (reset_iter_by_index_meta en im) (\<lambda>_. sx_return True))
                (sx_return False)) (\<lambda>opened.
       if \<not> opened then forward_to_target en depth (process_index + 1) start_index target_index
       else sx_bind (seek_in_file en process_index target_index) (\<lambda>current_index.
         if current_index < target_index
         then forward_to_target en depth (process_index + 1) (current_index + 1) target_index
         else sx_bind (sx_assert (current_index = target_index)) (\<lambda>_.
              sx_bind (on_iter iter_get_item) (\<lambda>item. sx_return (current_index, item))))))))"

text \<open>\<open>_seek_internal\<close>\<close>

definition seek_internal ::
    "('i, 'm) visitor_env \<Rightarrow> int \<Rightarrow> ('i, 'm, int \<times> 'i) vx" where
  "seek_internal en target_index = sx_bind sx_get (\<lambda>v.
     sx_bind (if v_iter v = None then sx_return False
              else sx_bind (on_iter iter_get_index) (\<lambda>i. sx_return (i = target_index))) (\<lambda>here.
     if here
     then sx_bind update_visited_max_index (\<lambda>_.
          sx_bind (on_iter iter_get_item) (\<lambda>item. sx_return (target_index, item)))
     else
       let metas = v_index_metas v;
           k = bisect_left (\<lambda>m. index_meta_lt m \<lparr>im_process_index = 0,
                 im_start_index = target_index, im_fpath = ''''\<rparr>) metas;
           beyond = metas \<noteq> [] \<and> (length metas = k \<or> im_start_index (metas ! k) > target_index)
       in if beyond \<and> k = 0 then sx_raise IndexError
          else let p = (if beyond then k - 1 else k);
                   start = (if p < length metas then im_start_index (metas ! p) else 0)
               in forward_to_target en (ve_depth en) (int p) start target_index))"

definition visitor_seek :: "('i, 'm) visitor_env \<Rightarrow> int \<Rightarrow> ('i, 'm, int \<times> 'i) vx" where
  "visitor_seek en target_index = sx_bind sx_get (\<lambda>v.
     let rest =
       (if v_end_index v \<noteq> None \<and> the (v_end_index v) < target_index then sx_raise StopIteration
        else sx_bind (sx_modify (\<lambda>v. v\<lparr>v_finished := False\<rparr>)) (\<lambda>_.
             seek_internal en target_index))
     in if v_finished v
        then case v_visited_max_index v of
               None \<Rightarrow> sx_raise StopIteration
             | Some mx \<Rightarrow>
                 if target_index > mx then sx_raise StopIteration
                 else if target_index = mx
                 then sx_bind (sx_assert (v_iter v \<noteq> None)) (\<lambda>_.
                      sx_bind (on_iter iter_get_index) (\<lambda>i.
                      sx_bind (sx_assert (target_index = i)) (\<lambda>_.
                      sx_bind (on_iter iter_get_item) (\<lambda>item.
                        sx_return (target_index, item)))))
                 else rest
        else rest)"

text \<open>\<open>_next_internal\<close>, behind \<open>next\<close> and \<open>__next__\<close>\<close>

definition visitor_next :: "('i, 'm) visitor_env \<Rightarrow> ('i, 'm, int \<times> 'i) vx" where
  "visitor_next en = sx_bind sx_get (\<lambda>v.
     if v_finished v then sx_raise StopIteration
     else except_stop
       (if v_iter v = None then sx_raise StopIteration
        else sx_bind (on_iter (iter_next (ve_disk en))) (\<lambda>r.
             sx_bind update_visited_max_index (\<lambda>_. sx_return r)))
       (sx_bind sx_get (\<lambda>v.
        let process_index = (case v_process_index v of None \<Rightarrow> 0 | Some p \<Rightarrow> p + 1) in
        sx_bind (if v_iter v = None then sx_return 0
                 else sx_bind (on_iter iter_get_index) (\<lambda>i. sx_return (i + 1))) (\<lambda>next_index.
        if v_end_index v \<noteq> None \<and> next_index > the (v_end_index v)
        then sx_bind (sx_modify (\<lambda>v. v\<lparr>v_finished := True\<rparr>)) (\<lambda>_. sx_raise StopIteration)
        else forward_to_target en (ve_depth en) process_index next_index next_index))))"

definition visitor_reset :: "('i, 'm) visitor \<Rightarrow> ('i, 'm) visitor" where
  "visitor_reset v = v\<lparr>v_finished := False, v_iter := None, v_process_index := None\<rparr>"

definition started :: "('i, 'm) visitor \<Rightarrow> bool" where
  "started v \<longleftrightarrow> v_iter v \<noteq> None"

definition visitor_get_index :: "('i, 'm, int) vx" where
  "visitor_get_index = sx_bind sx_get (\<lambda>v.
     if v_iter v = None then sx_return 0 else on_iter iter_get_index)"

definition visitor_get_item :: "('i, 'm, 'i) vx" where
  "visitor_get_item = sx_bind sx_get (\<lambda>v.
     if v_iter v = None then sx_raise RuntimeError else on_iter iter_get_item)"

definition set_end_index :: "int \<Rightarrow> ('i, 'm) visitor \<Rightarrow> ('i, 'm) visitor" where
  "set_end_index e v = v\<lparr>v_end_index := Some e\<rparr>"

text \<open>\<open>is_visitor_stale\<close>, over the manager's \<open>check_index_meta_by_process_index\<close>\<close>

definition is_visitor_stale :: "(int \<Rightarrow> ('m, bool) sx) \<Rightarrow> ('i, 'm, bool) vx" where
  "is_visitor_stale check =
     sx_bind sx_get (\<lambda>v. ask_manager (check (int (length (v_index_metas v)))))"


section \<open>The partition as one sequence\<close>

text \<open>
  \<open>files p\<close> is what the file with process index \<open>p\<close> holds; the partition is their
  concatenation.
\<close>

primrec file_start :: "(nat \<Rightarrow> 'i list) \<Rightarrow> nat \<Rightarrow> int" where
  "file_start files 0 = 0"
| "file_start files (Suc p) = file_start files p + int (length (files p))"

definition meta_of :: "(nat \<Rightarrow> 'i list) \<Rightarrow> (nat \<Rightarrow> string) \<Rightarrow> nat \<Rightarrow> index_meta" where
  "meta_of files path p =
     \<lparr>im_process_index = int p, im_start_index = file_start files p, im_fpath = path p\<rparr>"

definition item_at :: "(nat \<Rightarrow> 'i list) \<Rightarrow> nat \<Rightarrow> int \<Rightarrow> 'i" where
  "item_at files L k = concat (map files [0..<L]) ! nat k"

definition readable :: "(string \<Rightarrow> 'i fiter) \<Rightarrow> (nat \<Rightarrow> 'i list) \<Rightarrow> (nat \<Rightarrow> string) \<Rightarrow> bool" where
  "readable disk files path \<longleftrightarrow> (\<forall>p. files p \<noteq> [] \<and> disk (path p) = (files p, None))"

definition iter_at :: "(nat \<Rightarrow> 'i list) \<Rightarrow> (nat \<Rightarrow> string) \<Rightarrow> nat \<Rightarrow> nat \<Rightarrow> 'i raw_iter" where
  "iter_at files path p i =
     \<lparr>it_fiter = Some (drop (Suc i) (files p), None), it_index_meta = Some (meta_of files path p),
      it_item = Some (files p ! i), it_index = Some (file_start files p + int i), it_failed = False\<rparr>"

lemma meta_of_simps [simp]:
  "im_process_index (meta_of files path p) = int p"
  "im_start_index (meta_of files path p) = file_start files p"
  "im_fpath (meta_of files path p) = path p"
  by (simp_all add: meta_of_def)

lemma meta_of_inject [simp]: "meta_of files path p = meta_of files path q \<longleftrightarrow> p = q"
  by (auto simp: meta_of_def)

lemma iter_at_simps [simp]:
  "it_index_meta (iter_at files path p i) = Some (meta_of files path p)"
  "it_index (iter_at files path p i) = Some (file_start files p + int i)"
  "it_item (iter_at files path p i) = Some (files p ! i)"
  "it_fiter (iter_at files path p i) = Some (drop (Suc i) (files p), None)"
  "\<not> it_failed (iter_at files path p i)"
  "iter_valid (iter_at files path p i)"
  by (simp_all add: iter_at_def iter_valid_def)

lemma file_start_nonneg [simp]: "0 \<le> file_start files p"
  by (induction p) auto

lemma file_start_mono: "p \<le> q \<Longrightarrow> file_start files p \<le> file_start files q"
  by (induction q) (auto simp: le_Suc_eq)

lemma file_start_strict:
  "readable disk files path \<Longrightarrow> p < q \<Longrightarrow> file_start files p < file_start files q"
proof -
  assume r: "readable disk files path" and "p < q"
  then have "file_start files (Suc p) \<le> file_start files q" by (intro file_start_mono) simp
  moreover have "files p \<noteq> []" using r by (simp add: readable_def)
  ultimately show ?thesis by (cases "files p") auto
qed

lemma file_start_total: "file_start files L = int (length (concat (map files [0..<L])))"
  by (induction L) auto

lemma item_at_file:
  assumes "p < L" "i < length (files p)"
  shows "item_at files L (file_start files p + int i) = files p ! i"
  using assms(1)
proof (induction L)
  case (Suc L)
  let ?c = "\<lambda>L. concat (map files [0..<L])"
  show ?case
  proof (cases "p = L")
    case True
    have "nat (int (length (?c L)) + int i) = length (?c L) + i" by linarith
    then show ?thesis using True assms(2)
      by (simp add: item_at_def file_start_total nth_append del: length_concat)
  next
    case False
    then have "p < L" using Suc.prems by simp
    then have "file_start files (Suc p) \<le> file_start files L" by (intro file_start_mono) simp
    then have "nat (file_start files p + int i) < length (?c L)"
      using assms(2) file_start_total [of files L] by (simp add: nat_less_iff)
    then show ?thesis using Suc.IH [OF \<open>p < L\<close>] by (simp add: item_at_def nth_append)
  qed
qed simp

lemma file_containing:
  assumes "file_start files p \<le> k" "k < file_start files L"
  shows "\<exists>q. p \<le> q \<and> q < L \<and> file_start files q \<le> k \<and> k < file_start files (Suc q)"
  using assms
proof (induction L)
  case (Suc L)
  show ?case
  proof (cases "k < file_start files L")
    case True
    then show ?thesis using Suc by (meson less_Suc_eq)
  next
    case False
    have "p \<le> L"
    proof (rule ccontr)
      assume "\<not> p \<le> L"
      then have "file_start files (Suc L) \<le> file_start files p" by (intro file_start_mono) simp
      then show False using Suc.prems by simp
    qed
    then show ?thesis using False Suc.prems by (intro exI [of _ L]) simp
  qed
next
  case 0
  then show ?case using file_start_nonneg [of files p] by simp
qed

subsection \<open>The iterator on a readable file\<close>

lemma check_valid_ok [simp]: "iter_valid it \<Longrightarrow> check_valid it = (Inr (), it)"
  by (simp add: check_valid_def sx_assert_def)

lemma iter_get_index_at [simp]:
  "iter_get_index (iter_at files path p i) = (Inr (file_start files p + int i), iter_at files path p i)"
  by (simp add: iter_get_index_def sx_bind_def)

lemma iter_get_item_at [simp]:
  "iter_get_item (iter_at files path p i) = (Inr (files p ! i), iter_at files path p i)"
  by (simp add: iter_get_item_def sx_bind_def)

lemma reset_iter_open:
  assumes "readable disk files path"
    and "it_index_meta it \<noteq> Some (meta_of files path p) \<or> it_failed it \<or> force"
  shows "reset_iter disk (Some (meta_of files path p)) force it = (Inr (), iter_at files path p 0)"
proof -
  have "files p \<noteq> []" using assms(1) by (simp add: readable_def)
  then obtain x xs where "files p = x # xs" by (cases "files p") auto
  moreover have "disk (path p) = (files p, None)" using assms(1) by (simp add: readable_def)
  ultimately have "files p = x # xs" "disk (path p) = (files p, None)" by simp_all
  then show ?thesis using assms(2) by (auto simp: reset_iter_def iter_at_def)
qed

lemma new_iter_meta [simp]: "it_index_meta new_iter = None"
  by (simp add: new_iter_def)

lemma reset_iter_same:
  "reset_iter disk (Some (meta_of files path p)) False (iter_at files path p i) =
     (Inr (), iter_at files path p i)"
  by (simp add: reset_iter_def iter_at_def)

lemma iter_advance_at:
  assumes "Suc i < length (files p)"
  shows "iter_advance (iter_at files path p i) =
     (Inr (file_start files p + int i + 1, files p ! Suc i), iter_at files path p (Suc i))"
proof -
  have "drop (Suc i) (files p) = files p ! Suc i # drop (Suc (Suc i)) (files p)"
    using assms by (simp add: Cons_nth_drop_Suc)
  then show ?thesis by (simp add: iter_advance_def iter_at_def Let_def algebra_simps)
qed

lemma iter_advance_end:
  assumes "\<not> Suc i < length (files p)"
  shows "iter_advance (iter_at files path p i) = (Inl StopIteration, iter_at files path p i)"
  using assms by (simp add: iter_advance_def iter_at_def)

lemma iter_next_at:
  "iter_next disk (iter_at files path p i) = iter_advance (iter_at files path p i)"
  by (simp add: iter_next_def sx_bind_def)

text \<open>Where in file \<open>p\<close> a seek for \<open>target\<close> ends: there, or on the last item.\<close>

definition seek_stop :: "(nat \<Rightarrow> 'i list) \<Rightarrow> nat \<Rightarrow> int \<Rightarrow> nat" where
  "seek_stop files p target = min (nat (target - file_start files p)) (length (files p) - 1)"

lemma seek_loop_at:
  "i < length (files p) \<Longrightarrow> file_start files p + int i < target \<Longrightarrow>
   seek_loop target (iter_at files path p i) = (Inr (), iter_at files path p (seek_stop files p target))"
proof (induction "length (files p) - i" arbitrary: i rule: less_induct)
  case less
  show ?case
  proof (cases "Suc i < length (files p)")
    case False
    then show ?thesis using less.prems
      by (simp add: seek_loop.simps [of _ "iter_at files path p i"] iter_advance_end seek_stop_def)
        (auto intro!: arg_cong [where f = "iter_at files path p"])
  next
    case True
    show ?thesis
    proof (cases "file_start files p + int i + 1 = target")
      case eq: True
      then have "seek_stop files p target = Suc i" using True by (auto simp: seek_stop_def)
      then show ?thesis
        using eq True
        by (simp add: seek_loop.simps [of _ "iter_at files path p i"] iter_advance_at)
    next
      case ne: False
      have "seek_loop target (iter_at files path p (Suc i)) =
          (Inr (), iter_at files path p (seek_stop files p target))"
        using less.prems ne True by (intro less.hyps) auto
      then show ?thesis
        using ne True
        by (simp add: seek_loop.simps [of _ "iter_at files path p i"] iter_advance_at)
    qed
  qed
qed

lemma seek_to_target_at:
  assumes r: "readable disk files path" and i: "i < length (files p)"
    and t: "file_start files p \<le> target"
  shows "seek_to_target disk target (iter_at files path p i) =
     (Inr (), iter_at files path p (seek_stop files p target))"
proof -
  have len: "0 < length (files p)" using i by linarith
  have from0: "seek_loop target (iter_at files path p 0) =
      (Inr (), iter_at files path p (seek_stop files p target))" if "file_start files p < target"
    using seek_loop_at [of 0 files p target path] len that by simp
  consider "file_start files p + int i = target" | "file_start files p + int i < target"
    | "target < file_start files p + int i" by linarith
  then show ?thesis
  proof cases
    case 1
    then have "seek_stop files p target = i" using i by (auto simp: seek_stop_def)
    then show ?thesis using 1 by (simp add: seek_to_target_def sx_bind_def)
  next
    case 2
    then show ?thesis using seek_loop_at [of i files p target path] i t
      by (simp add: seek_to_target_def sx_bind_def)
  next
    case 3
    have "target = file_start files p \<Longrightarrow> seek_stop files p target = 0"
      by (simp add: seek_stop_def)
    then show ?thesis using 3 t from0
      by (auto simp: seek_to_target_def sx_bind_def reset_iter_open [OF r])
  qed
qed


section \<open>The contract of an index meta manager\<close>

text \<open>
  \<open>handed m n\<close>: the manager state \<open>m\<close> has handed out the metas of the first \<open>n\<close> files;
  \<open>avail m\<close> is how many it could hand out. A visitor that asks for file \<open>n\<close> with the index at
  which it starts gets its meta, or nothing when no further file is there.
\<close>

locale index_source =
  fixes gim :: "int \<Rightarrow> int \<Rightarrow> ('m, index_meta option) sx"
    and avail :: "'m \<Rightarrow> nat"
    and handed :: "'m \<Rightarrow> nat \<Rightarrow> bool"
    and files :: "nat \<Rightarrow> 'i list"
    and path :: "nat \<Rightarrow> string"
  assumes gim_more: "handed m n \<Longrightarrow> n < avail m \<Longrightarrow>
      \<exists>m'. gim (int n) (file_start files n) m = (Inr (Some (meta_of files path n)), m') \<and>
        handed m' (Suc n) \<and> avail m' = avail m"
    and gim_none: "handed m n \<Longrightarrow> \<not> n < avail m \<Longrightarrow>
      \<exists>m'. gim (int n) (file_start files n) m = (Inr None, m') \<and> handed m' n \<and> avail m' = avail m"
    and inv_avail: "handed m n \<Longrightarrow> n \<le> avail m"

text \<open>The guards of \<open>get_index_meta_by_index\<close> hold for the file that comes next.\<close>

lemma get_next_meta:
  assumes "imm_index_metas s = map (meta_of files path) [0..<n]"
  shows "get_index_meta_by_index new_meta (int n) (file_start files n) s =
    sx_bind (new_meta (int n) (file_start files n)) (\<lambda>m.
      case m of
        None \<Rightarrow> sx_return None
      | Some im \<Rightarrow>
          sx_bind (sx_modify (\<lambda>s. s\<lparr>imm_index_metas := imm_index_metas s @ [im]\<rparr>)) (\<lambda>_.
          sx_bind sx_get (\<lambda>s. sx_return (Some (imm_index_metas s ! nat (int n)))))) s"
proof -
  have "n \<noteq> 0 \<Longrightarrow> im_start_index (imm_index_metas s ! nat (int n - 1)) \<le> file_start files n"
    using assms by (simp add: nat_diff_distrib file_start_mono)
  moreover have "length (imm_index_metas s) = n" using assms by simp
  ultimately show ?thesis by (auto simp: get_index_meta_by_index_def Let_def)
qed

text \<open>Where the visitor is: in no file, or in file \<open>p\<close> on its item number \<open>i\<close>.\<close>

definition visits ::
    "('m \<Rightarrow> nat \<Rightarrow> bool) \<Rightarrow> (nat \<Rightarrow> 'i list) \<Rightarrow> (nat \<Rightarrow> string) \<Rightarrow> ('i, 'm) visitor \<Rightarrow>
     (nat \<times> nat) option \<Rightarrow> nat \<Rightarrow> bool" where
  "visits handed files path v pos n \<longleftrightarrow>
     v_index_metas v = map (meta_of files path) [0..<n] \<and> handed (v_manager v) n \<and>
     (case pos of
        None \<Rightarrow> v_iter v = None \<and> v_process_index v = None
      | Some (p, i) \<Rightarrow> p < n \<and> i < length (files p) \<and> v_iter v = Some (iter_at files path p i) \<and>
          v_process_index v = Some (int p))"

definition omax :: "int option \<Rightarrow> int \<Rightarrow> int option" where
  "omax seen i = (if seen = None \<or> i > the seen then Some i else seen)"

lemma omax_omax: "a \<le> b \<Longrightarrow> omax (omax seen a) b = omax seen b"
  by (cases seen) (auto simp: omax_def)

lemma update_visited_max_index_at:
  "v_iter v = Some (iter_at files path p i) \<Longrightarrow>
   update_visited_max_index v =
     (Inr (), v\<lparr>v_visited_max_index := omax (v_visited_max_index v) (file_start files p + int i)\<rparr>)"
  by (cases v) (simp add: update_visited_max_index_def on_iter_def sx_bind_def omax_def)

lemma on_iter_at:
  "v_iter v = Some it \<Longrightarrow> f it = (r, it') \<Longrightarrow> on_iter f v = (r, v\<lparr>v_iter := Some it'\<rparr>)"
  by (simp add: on_iter_def)

lemma except_stop_pass: "f s = (Inr r, s') \<Longrightarrow> except_stop f h s = (Inr r, s')"
  by (simp add: except_stop_def)

lemma append_index_meta_at:
  assumes "v_index_metas v = map (meta_of files path) [0..<n]"
  shows "append_index_meta (meta_of files path n) v =
     (Inr (), v\<lparr>v_index_metas := map (meta_of files path) [0..<Suc n]\<rparr>)"
proof (cases n)
  case (Suc k)
  have "last (map (meta_of files path) [0..<Suc k]) = meta_of files path k" by simp
  then show ?thesis
    using assms Suc by (simp add: append_index_meta_def index_meta_lt_def)
qed (use assms in \<open>simp add: append_index_meta_def\<close>)

lemma seek_in_file_at:
  assumes "readable (ve_disk en) files path" "i < length (files p)"
    and "file_start files p \<le> target" "v_iter v = Some (iter_at files path p i)"
    and "j = seek_stop files p target"
  shows "seek_in_file en (int p) target v =
     (Inr (file_start files p + int j),
      v\<lparr>v_iter := Some (iter_at files path p j), v_process_index := Some (int p),
        v_visited_max_index := omax (v_visited_max_index v) (file_start files p + int j)\<rparr>)"
  using assms(4)
  by (cases v)
    (simp add: seek_in_file_def sx_bind_def on_iter_def seek_to_target_at [OF assms(1-3)] assms(5)
      update_visited_max_index_at)

lemma reset_iter_by_index_meta_at:
  assumes "readable (ve_disk en) files path" "visits handed files path v pos n"
  shows "\<exists>i < length (files p). reset_iter_by_index_meta en (meta_of files path p) v =
     (Inr (), v\<lparr>v_iter := Some (iter_at files path p i)\<rparr>)"
proof (cases pos)
  case None
  have "0 < length (files p)" using assms(1) by (simp add: readable_def)
  moreover have "v_iter v = None" using None assms(2) by (simp add: visits_def)

  ultimately show ?thesis
    by (intro exI [of _ 0])
      (simp add: reset_iter_by_index_meta_def reset_iter_open [OF assms(1)])
next
  case (Some pi)
  obtain q i where pi: "pi = (q, i)" by (cases pi)
  have v: "v_iter v = Some (iter_at files path q i)" "i < length (files q)"
    using Some pi assms(2) by (auto simp: visits_def)
  show ?thesis
  proof (cases "q = p")
    case True
    then show ?thesis using v
      by (intro exI [of _ i])
        (simp add: reset_iter_by_index_meta_def on_iter_def reset_iter_same)
  next
    case False
    have "0 < length (files p)" using assms(1) by (simp add: readable_def)
    then show ?thesis using v False
      by (intro exI [of _ 0])
        (simp add: reset_iter_by_index_meta_def on_iter_def reset_iter_open [OF assms(1)])
  qed
qed

context index_source
begin

text \<open>Finding the meta of file \<open>p\<close> when the first \<open>n\<close> are known.\<close>

lemma next_index_meta_more:
  assumes "visits handed files path v pos n" "p \<le> n" "p < avail (v_manager v)" "ve_gim en = gim"
  shows "\<exists>v'. next_index_meta en (int p) (file_start files p) v = (Inr (meta_of files path p), v') \<and>
     visits handed files path v' pos (max n (Suc p)) \<and> avail (v_manager v') = avail (v_manager v) \<and>
     v_finished v' = v_finished v \<and> v_end_index v' = v_end_index v \<and>
     v_visited_max_index v' = v_visited_max_index v"
proof (cases "p < n")
  case True
  then have "max n (Suc p) = n" by simp
  then show ?thesis using True assms(1)
    by (simp add: next_index_meta_def visits_def)
next
  case False
  then have p: "p = n" using assms(2) by simp
  have handed: "handed (v_manager v) n" and metas: "v_index_metas v = map (meta_of files path) [0..<n]"
    using assms(1) by (simp_all add: visits_def)
  obtain m' where m': "gim (int n) (file_start files n) (v_manager v) =
      (Inr (Some (meta_of files path n)), m')" "handed m' (Suc n)" "avail m' = avail (v_manager v)"
    using gim_more [OF handed] assms(3) p by auto
  have a: "append_index_meta (meta_of files path n) (v\<lparr>v_manager := m'\<rparr>) =
      (Inr (), v\<lparr>v_manager := m', v_index_metas := map (meta_of files path) [0..<Suc n]\<rparr>)"
    using append_index_meta_at [of "v\<lparr>v_manager := m'\<rparr>" files path n] metas by simp
  have "next_index_meta en (int p) (file_start files p) v =
      (Inr (meta_of files path p),
       v\<lparr>v_manager := m', v_index_metas := map (meta_of files path) [0..<Suc n]\<rparr>)"
    using p metas m'(1) a assms(4)
    by (simp add: next_index_meta_def sx_bind_def sx_assert_def ask_manager_def)
  then show ?thesis using m'(2,3) p assms(1)
    by (auto simp: visits_def split: option.splits)
qed

lemma next_index_meta_none:
  assumes "visits handed files path v pos n" "p = n" "\<not> n < avail (v_manager v)" "ve_gim en = gim"
  shows "\<exists>v'. next_index_meta en (int p) (file_start files p) v = (Inl StopIteration, v') \<and>
     visits handed files path v' pos n \<and> avail (v_manager v') = avail (v_manager v) \<and>
     v_finished v' \<and> v_end_index v' = v_end_index v \<and>
     v_visited_max_index v' = v_visited_max_index v"
proof -
  have handed: "handed (v_manager v) n" and metas: "v_index_metas v = map (meta_of files path) [0..<n]"
    using assms(1) by (simp_all add: visits_def)
  obtain m' where m': "gim (int n) (file_start files n) (v_manager v) = (Inr None, m')"
      "handed m' n" "avail m' = avail (v_manager v)"
    using gim_none [OF handed assms(3)] by auto
  have "next_index_meta en (int p) (file_start files p) v =
      (Inl StopIteration, v\<lparr>v_manager := m', v_finished := True\<rparr>)"
    using assms(2,4) metas m'(1)
    by (simp add: next_index_meta_def sx_bind_def sx_assert_def ask_manager_def)
  then show ?thesis using m'(2,3) assms(1)
    by (auto simp: visits_def split: option.splits)
qed

end


lemma sx_bind_step: "f s = (Inr a, s1) \<Longrightarrow> sx_bind f g s = g a s1"
  by (simp add: sx_bind_def)

lemma sx_bind_stop: "f s = (Inl e, s1) \<Longrightarrow> sx_bind f g s = (Inl e, s1)"
  by (simp add: sx_bind_def)

text \<open>One round of \<open>_forward_to_target\<close> on a file that there is.\<close>

context index_source
begin

definition seek_result where
  "seek_result v v' pos n =
     (visits handed files path v' pos n \<and> avail (v_manager v') = avail (v_manager v) \<and>
      v_end_index v' = v_end_index v)"

lemma forward_round:
  assumes r: "readable (ve_disk en) files path" and g: "ve_gim en = gim"
    and v: "visits handed files path v pos n" "p \<le> n" "p < avail (v_manager v)"
    and t: "file_start files p \<le> target" and j: "j = seek_stop files p target"
  shows "\<exists>v'. seek_result v v' (Some (p, j)) (max n (Suc p)) \<and> v_finished v' = v_finished v \<and>
     v_visited_max_index v' = omax (v_visited_max_index v) (file_start files p + int j) \<and>
     forward_to_target en (Suc d) (int p) (file_start files p) target v =
       (if file_start files p + int j < target
        then forward_to_target en d (int (Suc p)) (file_start files p + int j + 1) target v'
        else (Inr (target, files p ! j), v'))"
proof -
  obtain v1 where v1: "next_index_meta en (int p) (file_start files p) v =
      (Inr (meta_of files path p), v1)"
      "visits handed files path v1 pos (max n (Suc p))"
      "avail (v_manager v1) = avail (v_manager v)" "v_finished v1 = v_finished v"
      "v_end_index v1 = v_end_index v" "v_visited_max_index v1 = v_visited_max_index v"
    using next_index_meta_more [OF v g] by blast
  obtain i where i: "i < length (files p)"
      "reset_iter_by_index_meta en (meta_of files path p) v1 =
       (Inr (), v1\<lparr>v_iter := Some (iter_at files path p i)\<rparr>)"
    using reset_iter_by_index_meta_at [OF r v1(2)] by blast
  let ?v2 = "v1\<lparr>v_iter := Some (iter_at files path p i)\<rparr>"
  let ?v3 = "?v2\<lparr>v_iter := Some (iter_at files path p j), v_process_index := Some (int p),
      v_visited_max_index := omax (v_visited_max_index ?v2) (file_start files p + int j)\<rparr>"
  have opened: "except_stop (sx_bind (reset_iter_by_index_meta en (meta_of files path p))
      (\<lambda>_. sx_return True)) (sx_return False) v1 = (Inr True, ?v2)"
    by (intro except_stop_pass) (simp add: sx_bind_def i(2))
  have s: "seek_in_file en (int p) target ?v2 = (Inr (file_start files p + int j), ?v3)"
    by (rule seek_in_file_at [OF r i(1) t _ j]) simp
  have le: "file_start files p + int j \<le> target" "j < length (files p)"
    using t i(1) j by (auto simp: seek_stop_def)
  have "on_iter iter_get_item ?v3 = (Inr (files p ! j), ?v3)"
    by (simp add: on_iter_def)
  then have fw: "forward_to_target en (Suc d) (int p) (file_start files p) target v =
      (if file_start files p + int j < target
       then forward_to_target en d (int (Suc p)) (file_start files p + int j + 1) target ?v3
       else (Inr (target, files p ! j), ?v3))"
    using le(1)
    by (auto simp: v1(1) opened s sx_assert_def sx_bind_def add.commute)
  have "seek_result v ?v3 (Some (p, j)) (max n (Suc p))"
    using v1 le(2) by (auto simp: seek_result_def visits_def)
  then show ?thesis using fw v1 by (intro exI [of _ ?v3]) simp
qed

text \<open>
  Forwarding finds the target, or runs off the end of the last file and finishes.
\<close>

lemma forward_finds:
  assumes r: "readable (ve_disk en) files path" and g: "ve_gim en = gim"
  shows "visits handed files path v pos n \<Longrightarrow> p \<le> n \<Longrightarrow> file_start files p \<le> target \<Longrightarrow>
    avail (v_manager v) < p + d \<Longrightarrow> target < file_start files (avail (v_manager v)) \<Longrightarrow>
    \<exists>v' q j m. forward_to_target en d (int p) (file_start files p) target v =
        (Inr (target, files q ! j), v') \<and> target = file_start files q + int j \<and>
      seek_result v v' (Some (q, j)) m \<and> v_finished v' = v_finished v \<and>
      v_visited_max_index v' = omax (v_visited_max_index v) target"
proof (induction d arbitrary: v pos n p)
  case 0
  then have "file_start files (avail (v_manager v)) \<le> file_start files p"
    by (intro file_start_mono) simp
  then show ?case using 0 by simp
next
  case (Suc d)
  define j where "j = seek_stop files p target"
  have p: "p < avail (v_manager v)"
  proof (rule ccontr)
    assume "\<not> ?thesis"
    then have "file_start files (avail (v_manager v)) \<le> file_start files p"
      by (intro file_start_mono) simp
    then show False using Suc.prems by simp
  qed
  have len: "files p \<noteq> []" using r by (simp add: readable_def)
  obtain v1 where v1: "seek_result v v1 (Some (p, j)) (max n (Suc p))"
      "v_finished v1 = v_finished v"
      "v_visited_max_index v1 = omax (v_visited_max_index v) (file_start files p + int j)"
      "forward_to_target en (Suc d) (int p) (file_start files p) target v =
       (if file_start files p + int j < target
        then forward_to_target en d (int (Suc p)) (file_start files p + int j + 1) target v1
        else (Inr (target, files p ! j), v1))"
    using forward_round [OF r g Suc.prems(1,2) p Suc.prems(3) j_def, of d] by blast
  have le: "file_start files p + int j \<le> target"
    using Suc.prems(3) by (auto simp: j_def seek_stop_def)
  show ?case
  proof (cases "file_start files p + int j < target")
    case False
    then have "target = file_start files p + int j" using le by simp
    then show ?thesis using v1 False by auto
  next
    case True
    have "j = length (files p) - 1"
    proof (rule ccontr)
      assume "j \<noteq> length (files p) - 1"
      then have "j = nat (target - file_start files p)" by (auto simp: j_def seek_stop_def)
      then show False using True Suc.prems(3) by simp
    qed
    moreover have "0 < length (files p)" using len by simp
    ultimately have j: "int j = int (length (files p)) - 1" by linarith
    then have nx: "file_start files p + int j + 1 = file_start files (Suc p)" by simp
    have v1': "visits handed files path v1 (Some (p, j)) (max n (Suc p))"
        "avail (v_manager v1) = avail (v_manager v)"
      using v1(1) by (simp_all add: seek_result_def)
    obtain v' q k m where v': "forward_to_target en d (int (Suc p)) (file_start files (Suc p)) target v1 =
        (Inr (target, files q ! k), v')" "target = file_start files q + int k"
        "seek_result v1 v' (Some (q, k)) m" "v_finished v' = v_finished v1"
        "v_visited_max_index v' = omax (v_visited_max_index v1) target"
      using Suc.IH [OF v1'(1), of "Suc p"] Suc.prems(4,5) True nx v1'(2) by auto
    have "seek_result v v' (Some (q, k)) m"
      using v1(1) v'(3) by (simp add: seek_result_def)
    moreover have "v_visited_max_index v' = omax (v_visited_max_index v) target"
      using v'(5) v1(3) omax_omax [OF le] by simp
    moreover have "forward_to_target en (Suc d) (int p) (file_start files p) target v =
        (Inr (target, files q ! k), v')"
      using v1(4) v'(1) True unfolding nx by simp
    ultimately show ?thesis using v'(2,4) v1(2) by (intro exI conjI) auto
  qed
qed

end


text \<open>The place of the last item of the first \<open>L\<close> files.\<close>

definition last_place :: "(nat \<Rightarrow> 'i list) \<Rightarrow> nat \<Rightarrow> nat \<times> nat" where
  "last_place files L = (L - 1, length (files (L - 1)) - 1)"

context index_source
begin

lemma forward_stops:
  assumes r: "readable (ve_disk en) files path" and g: "ve_gim en = gim"
  shows "visits handed files path v pos n \<Longrightarrow> p \<le> n \<Longrightarrow> avail (v_manager v) < p + d \<Longrightarrow>
    p < avail (v_manager v) \<or> p = n \<Longrightarrow>
    file_start files (avail (v_manager v)) \<le> target \<Longrightarrow>
    \<exists>v'. forward_to_target en d (int p) (file_start files p) target v = (Inl StopIteration, v') \<and>
      seek_result v v' (if p < avail (v_manager v)
        then Some (last_place files (avail (v_manager v))) else pos) (avail (v_manager v)) \<and>
      v_finished v' \<and>
      v_visited_max_index v' = (if p < avail (v_manager v)
        then omax (v_visited_max_index v) (file_start files (avail (v_manager v)) - 1)
        else v_visited_max_index v)"
proof (induction d arbitrary: v pos n p)
  case 0
  then show ?case
    using inv_avail [of "v_manager v" n] by (auto simp: visits_def)
next
  case (Suc d)
  let ?L = "avail (v_manager v)"
  have hn: "n \<le> ?L" using Suc.prems(1) inv_avail by (auto simp: visits_def)
  show ?case
  proof (cases "p < ?L")
    case False
    then have p: "p = n" and n: "n = ?L" using Suc.prems(2,4) hn by auto
    obtain v' where v': "next_index_meta en (int p) (file_start files p) v = (Inl StopIteration, v')"
       "visits handed files path v' pos n" "avail (v_manager v') = ?L"
       "v_finished v'" "v_end_index v' = v_end_index v"
       "v_visited_max_index v' = v_visited_max_index v"
      using next_index_meta_none [OF Suc.prems(1) p _ g] n by auto
    have "forward_to_target en (Suc d) (int p) (file_start files p) target v = (Inl StopIteration, v')"
      using v'(1) by (simp add: sx_bind_def)
    then show ?thesis using v' False n by (simp add: seek_result_def)
  next
    case p: True
    define j where "j = seek_stop files p target"
    have t: "file_start files (Suc p) \<le> target"
      using Suc.prems(5) p file_start_mono [of "Suc p" ?L files] by linarith
    then have t0: "file_start files p \<le> target" by simp
    have len: "0 < length (files p)" using r by (simp add: readable_def)
    have "length (files p) \<le> nat (target - file_start files p)" using t by simp
    then have j2: "j = length (files p) - 1" by (simp add: j_def seek_stop_def)
    then have j: "int j = int (length (files p)) - 1" "j = length (files p) - 1"
      using len by linarith+
    then have nx: "file_start files p + int j + 1 = file_start files (Suc p)" by simp
    obtain v1 where v1: "seek_result v v1 (Some (p, j)) (max n (Suc p))"
        "v_visited_max_index v1 = omax (v_visited_max_index v) (file_start files p + int j)"
        "forward_to_target en (Suc d) (int p) (file_start files p) target v =
         (if file_start files p + int j < target
          then forward_to_target en d (int (Suc p)) (file_start files p + int j + 1) target v1
          else (Inr (target, files p ! j), v1))"
      using forward_round [OF r g Suc.prems(1,2) p t0 j_def, of d] by blast
    have v1': "visits handed files path v1 (Some (p, j)) (max n (Suc p))"
        "avail (v_manager v1) = ?L"
      using v1(1) by (simp_all add: seek_result_def)
    have "Suc p < ?L \<or> Suc p = max n (Suc p)" using p hn by linarith
    then obtain v' where v': "forward_to_target en d (int (Suc p)) (file_start files (Suc p)) target v1 =
        (Inl StopIteration, v')"
       "seek_result v1 v' (if Suc p < ?L then Some (last_place files ?L) else Some (p, j)) ?L"
       "v_finished v'"
       "v_visited_max_index v' = (if Suc p < ?L
        then omax (v_visited_max_index v1) (file_start files ?L - 1) else v_visited_max_index v1)"
      using Suc.IH [OF v1'(1), of "Suc p", unfolded v1'(2)] Suc.prems(3,5) p by auto
    have last: "\<not> Suc p < ?L \<Longrightarrow> ?L = Suc p" using p by simp
    have "seek_result v v' (Some (last_place files ?L)) ?L"
      using v1(1) v'(2) last j(2) by (auto simp: seek_result_def last_place_def split: if_splits)
    moreover have "v_visited_max_index v' = omax (v_visited_max_index v) (file_start files ?L - 1)"
    proof (cases "Suc p < ?L")
      case True
      then have "file_start files p + int j \<le> file_start files ?L - 1"
        using nx file_start_mono [of "Suc p" ?L files] by linarith
      then show ?thesis using True v'(4) v1(2) omax_omax by simp
    next
      case False
      then have "file_start files ?L - 1 = file_start files p + int j"
        using last nx by (simp del: file_start.simps)
      then show ?thesis using False v'(4) v1(2) by simp
    qed
    moreover have "forward_to_target en (Suc d) (int p) (file_start files p) target v =
        (Inl StopIteration, v')"
    proof -
      have "file_start files p + int j < target" using t nx by linarith
      then show ?thesis using v1(3) v'(1) unfolding nx by (simp del: forward_to_target.simps)
    qed
    ultimately show ?thesis using p v'(3) by auto
  qed
qed

end

section \<open>A cursor over the sequence\<close>

text \<open>
  What a visitor promises: a cursor over the indices \<open>0 .. N - 1\<close>. \<open>cu_seen\<close> is the
  greatest index it has been on. \<open>bounded\<close> says that the visitor has been told \<open>N\<close>
  (\<open>_set_end_index\<close>) and does not read on to find the end.
\<close>

record cursor =
  cu_pos :: "int option"
  cu_seen :: "int option"
  cu_finished :: bool

definition cursor_goto :: "int \<Rightarrow> cursor \<Rightarrow> cursor" where
  "cursor_goto k c = c\<lparr>cu_pos := Some k, cu_seen := omax (cu_seen c) k\<rparr>"

definition cursor_next :: "int \<Rightarrow> cursor \<Rightarrow> int result \<times> cursor" where
  "cursor_next N c =
     (let i = (case cu_pos c of None \<Rightarrow> 0 | Some k \<Rightarrow> k + 1) in
      if cu_finished c then (Inl StopIteration, c)
      else if i < N then (Inr i, cursor_goto i c)
      else (Inl StopIteration, c\<lparr>cu_finished := True\<rparr>))"

definition cursor_seek :: "bool \<Rightarrow> int \<Rightarrow> int \<Rightarrow> cursor \<Rightarrow> int result \<times> cursor" where
  "cursor_seek bounded N k c =
     (if cu_finished c \<and> (cu_seen c = None \<or> the (cu_seen c) < k) then (Inl StopIteration, c)
      else if cu_finished c \<and> cu_seen c = Some k then (Inr k, c)
      else if k < N then (Inr k, cursor_goto k (c\<lparr>cu_finished := False\<rparr>))
      else if bounded then (Inl StopIteration, c)
      else (Inl StopIteration,
            (if N = 0 then c else cursor_goto (N - 1) c)\<lparr>cu_finished := True\<rparr>))"

datatype visitor_op = VNext | VSeek nat | VReset

fun cursor_exec :: "bool \<Rightarrow> int \<Rightarrow> visitor_op \<Rightarrow> cursor \<Rightarrow> int option result \<times> cursor" where
  "cursor_exec bounded N VNext c = sx_bind (cursor_next N) (\<lambda>k. sx_return (Some k)) c"
| "cursor_exec bounded N (VSeek k) c =
     sx_bind (cursor_seek bounded N (int k)) (\<lambda>k. sx_return (Some k)) c"
| "cursor_exec bounded N VReset c = (Inr None, c\<lparr>cu_pos := None, cu_finished := False\<rparr>)"

fun visitor_exec ::
    "('i, 'm) visitor_env \<Rightarrow> visitor_op \<Rightarrow> ('i, 'm, (int \<times> 'i) option) vx" where
  "visitor_exec en VNext = sx_bind (visitor_next en) (\<lambda>r. sx_return (Some r))"
| "visitor_exec en (VSeek k) = sx_bind (visitor_seek en (int k)) (\<lambda>r. sx_return (Some r))"
| "visitor_exec en VReset = sx_bind (sx_modify visitor_reset) (\<lambda>_. sx_return None)"

text \<open>A run of operations and what each of them returned or raised.\<close>

fun outcomes :: "('op \<Rightarrow> ('s, 'a) sx) \<Rightarrow> 'op list \<Rightarrow> 's \<Rightarrow> 'a result list" where
  "outcomes exec [] s = []"
| "outcomes exec (op # ops) s = (case exec op s of (r, s1) \<Rightarrow> r # outcomes exec ops s1)"

text \<open>The visitor's index with the item that is there.\<close>

definition with_item :: "(nat \<Rightarrow> 'i list) \<Rightarrow> nat \<Rightarrow> int \<Rightarrow> int \<times> 'i" where
  "with_item files L k = (k, item_at files L k)"


section \<open>The visitor follows the cursor\<close>

definition placed :: "(nat \<Rightarrow> 'i list) \<Rightarrow> nat \<Rightarrow> (nat \<times> nat) option \<Rightarrow> int option \<Rightarrow> bool" where
  "placed files L pos k \<longleftrightarrow>
     (case pos of None \<Rightarrow> k = None
      | Some (p, i) \<Rightarrow> p < L \<and> k = Some (file_start files p + int i))"

lemma placed_simps [simp]:
  "placed files L None k \<longleftrightarrow> k = None"
  "placed files L (Some (p, i)) k \<longleftrightarrow> p < L \<and> k = Some (file_start files p + int i)"
  by (simp_all add: placed_def)

definition tracks ::
    "('m \<Rightarrow> nat) \<Rightarrow> ('m \<Rightarrow> nat \<Rightarrow> bool) \<Rightarrow> (nat \<Rightarrow> 'i list) \<Rightarrow> (nat \<Rightarrow> string) \<Rightarrow> bool \<Rightarrow> nat \<Rightarrow>
     nat \<Rightarrow> ('i, 'm) visitor \<Rightarrow> cursor \<Rightarrow> bool" where
  "tracks avail handed files path bounded L A v c \<longleftrightarrow>
     (\<exists>pos n. visits handed files path v pos n \<and>
       placed files L pos (cu_pos c)) \<and>
     avail (v_manager v) = A \<and> L \<le> A \<and>
     (if bounded then v_end_index v = Some (file_start files L - 1)
      else v_end_index v = None \<and> L = A) \<and>
     v_finished v = cu_finished c \<and> v_visited_max_index v = cu_seen c \<and>
     (\<forall>s. cu_seen c = Some s \<longrightarrow> s < file_start files L) \<and>
     (\<forall>k. cu_pos c = Some k \<longrightarrow> (\<exists>s. cu_seen c = Some s \<and> k \<le> s)) \<and>
     (cu_finished c \<longrightarrow> 0 < L \<longrightarrow> cu_pos c = Some (file_start files L - 1))"

lemma file_of_index:
  assumes "file_start files q + int j < file_start files L"
  shows "q < L"
  using assms file_start_mono [of L q files] by linarith

lemma visits_None:
  "visits handed files path v None n \<longleftrightarrow>
     v_index_metas v = map (meta_of files path) [0..<n] \<and> handed (v_manager v) n \<and>
     v_iter v = None \<and> v_process_index v = None"
  by (simp add: visits_def)

lemma visits_Some:
  "visits handed files path v (Some (p, i)) n \<longleftrightarrow>
     v_index_metas v = map (meta_of files path) [0..<n] \<and> handed (v_manager v) n \<and>
     p < n \<and> i < length (files p) \<and> v_iter v = Some (iter_at files path p i) \<and>
     v_process_index v = Some (int p)"
  by (simp add: visits_def)

lemma visits_finished [simp]:
  "visits handed files path (v\<lparr>v_finished := b\<rparr>) pos n = visits handed files path v pos n"
  by (simp add: visits_def split: option.split)

lemma follows_finish:
  assumes "tracks avail handed files path bounded L A v c"
    and "0 < L \<Longrightarrow> cu_pos c = Some (file_start files L - 1)"
  shows "tracks avail handed files path bounded L A (v\<lparr>v_finished := True\<rparr>) (c\<lparr>cu_finished := True\<rparr>)"
  using assms by (simp add: tracks_def)

context index_source
begin

text \<open>Arriving on index \<open>k\<close> of the sequence.\<close>

lemma follows_goto:
  assumes v: "tracks avail handed files path bounded L A v c"
    and s: "seek_result v v' (Some (q, j)) m" and k: "k = file_start files q + int j"
      "k < file_start files L"
    and f: "v_finished v' = cu_finished c'" "\<not> cu_finished c'"
      "v_visited_max_index v' = omax (v_visited_max_index v) k"
    and c': "cu_seen c' = cu_seen c"
  shows "tracks avail handed files path bounded L A v' (cursor_goto k c')"
proof -
  have "q < L" using k file_of_index by simp
  then have "\<exists>pos n. visits handed files path v' pos n \<and>
      placed files L pos (cu_pos (cursor_goto k c'))"
    using s k by (intro exI [of _ "Some (q, j)"] exI [of _ m]) (simp add: seek_result_def cursor_goto_def)
  moreover have "(\<forall>s. omax (cu_seen c) k = Some s \<longrightarrow> s < file_start files L) \<and>
      (\<exists>s. omax (cu_seen c) k = Some s \<and> k \<le> s)"
    using v k(2) by (auto simp: tracks_def omax_def)
  ultimately show ?thesis
    using v s f c' by (auto simp: tracks_def seek_result_def cursor_goto_def)
qed

lemma item_at_place:
  assumes "seek_result v v' (Some (q, j)) m" "k = file_start files q + int j"
    "k < file_start files L"
  shows "with_item files L k = (k, files q ! j)"
proof -
  have "q < L" using assms(2,3) file_of_index by simp
  moreover have "j < length (files q)" using assms(1) by (simp add: seek_result_def visits_Some)
  ultimately show ?thesis using assms(2) by (simp add: with_item_def item_at_file)
qed

text \<open>Forwarding to index \<open>k\<close> from a file that starts no later, for a visitor not told to stop before.\<close>

lemma forward_follows:
  assumes r: "readable (ve_disk en) files path" and g: "ve_gim en = gim" and d: "A < ve_depth en"
    and v: "tracks avail handed files path bounded L A v c" "\<not> cu_finished c"
    and p: "visits handed files path v pos n" "p \<le> n" "file_start files p \<le> k"
    and k: "k < file_start files L \<or> \<not> bounded \<and> (p < A \<or> p = n) \<and>
        (p = A \<longrightarrow> 0 < A \<longrightarrow> cu_pos c = Some (file_start files A - 1))"
  shows "\<exists>v'. forward_to_target en (ve_depth en) (int p) (file_start files p) k v =
      (if k < file_start files L then Inr (with_item files L k) else Inl StopIteration, v') \<and>
    tracks avail handed files path bounded L A v'
      (if k < file_start files L then cursor_goto k c
       else (if p = A then c else cursor_goto (file_start files L - 1) c)\<lparr>cu_finished := True\<rparr>)"
proof (cases "k < file_start files L")
  case True
  have A: "avail (v_manager v) = A" "L \<le> A" using v by (simp_all add: tracks_def)
  then have "k < file_start files A" using True file_start_mono [of L A files] by linarith
  then obtain v' q j m where v': "forward_to_target en (ve_depth en) (int p) (file_start files p) k v =
      (Inr (k, files q ! j), v')" "k = file_start files q + int j"
      "seek_result v v' (Some (q, j)) m" "v_finished v' = v_finished v"
      "v_visited_max_index v' = omax (v_visited_max_index v) k"
    using forward_finds [OF r g p, of "ve_depth en"] A d by auto
  have "tracks avail handed files path bounded L A v' (cursor_goto k c)"
    by (rule follows_goto [OF v(1) v'(3,2) True _ v(2) v'(5) refl])
      (use v v'(4) in \<open>simp add: tracks_def\<close>)
  moreover have "with_item files L k = (k, files q ! j)" by (rule item_at_place [OF v'(3,2) True])
  ultimately show ?thesis using True v'(1) by (intro exI [of _ v']) simp
next
  case False
  then have b: "\<not> bounded" "p < A \<or> p = n" using k by auto
  have A: "avail (v_manager v) = A" "L = A" using v b by (simp_all add: tracks_def)
  have pA: "p \<le> A" using p inv_avail [of "v_manager v" n] A by (auto simp: visits_def)
  obtain v' where v': "forward_to_target en (ve_depth en) (int p) (file_start files p) k v =
      (Inl StopIteration, v')"
     "seek_result v v' (if p < A then Some (last_place files A) else pos) A" "v_finished v'"
     "v_visited_max_index v' = (if p < A
        then omax (v_visited_max_index v) (file_start files A - 1) else v_visited_max_index v)"
    using forward_stops [OF r g p(1,2), of "ve_depth en" k] b A d False by auto
  have "tracks avail handed files path bounded L A v'
      ((if p = A then c else cursor_goto (file_start files L - 1) c)\<lparr>cu_finished := True\<rparr>)"
  proof (cases "p < A")
    case True
    let ?q = "A - 1"
    have "0 < length (files ?q)" using r by (simp add: readable_def)
    moreover have "file_start files A = file_start files ?q + int (length (files ?q))"
      using True by (cases A) simp_all
    ultimately have e: "file_start files A - 1 = file_start files ?q + int (length (files ?q) - 1)"
      by linarith
    have sr: "seek_result v (v'\<lparr>v_finished := False\<rparr>) (Some (?q, length (files ?q) - 1)) A"
      using True v'(2) by (simp add: seek_result_def last_place_def visits_def)
    have mx: "v_visited_max_index v' = omax (v_visited_max_index v) (file_start files A - 1)"
      using True v'(4) by simp
    have "tracks avail handed files path bounded L A (v'\<lparr>v_finished := False\<rparr>)
        (cursor_goto (file_start files A - 1) c)"
      by (rule follows_goto [OF v(1) sr e]) (use mx v(2) A in simp_all)
    then have "tracks avail handed files path bounded L A (v'\<lparr>v_finished := False, v_finished := True\<rparr>)
        ((cursor_goto (file_start files A - 1) c)\<lparr>cu_finished := True\<rparr>)"
      by (rule follows_finish) (use A in \<open>simp add: cursor_goto_def\<close>)
    moreover have "v'\<lparr>v_finished := False, v_finished := True\<rparr> = v'" using v'(3) by (cases v') simp
    ultimately show ?thesis using True A by simp
  next
    case False
    then have "p = A" using pA by simp
    then have "0 < A \<longrightarrow> cu_pos c = Some (file_start files A - 1)" using k \<open>\<not> k < _\<close> by simp
    moreover obtain pos1 n1 where p1: "visits handed files path v pos1 n1"
        "placed files L pos1 (cu_pos c)"
      using v(1) unfolding tracks_def by blast
    moreover have "visits handed files path v' pos1 A"
      using p1(1) v'(2) p(1) False by (auto simp: seek_result_def visits_def split: option.splits)
    ultimately show ?thesis using v False v'(2-4) \<open>p = A\<close> A
      by (auto simp: tracks_def seek_result_def)
  qed
  then show ?thesis using False v'(1) by (intro exI [of _ v']) simp
qed

end


lemma file_start_less_iff:
  assumes "readable disk files path"
  shows "file_start files p < file_start files q \<longleftrightarrow> p < q"
  using file_start_strict [OF assms, of p q] file_start_mono [of q p files] by linarith

lemma on_iter_pair:
  "v_iter v = Some it \<Longrightarrow> on_iter f v = (fst (f it), v\<lparr>v_iter := Some (snd (f it))\<rparr>)"
  by (simp add: on_iter_def split: prod.split)

context index_source
begin

text \<open>What \<open>_next_internal\<close> does at the end of a file.\<close>

lemma next_file_follows:
  assumes r: "readable (ve_disk en) files path" and g: "ve_gim en = gim" and d: "A < ve_depth en"
    and v: "tracks avail handed files path bounded L A v c" "\<not> cu_finished c"
    and p: "visits handed files path v pos n" "p \<le> n" "p \<le> L"
    and k: "file_start files p = (case cu_pos c of None \<Rightarrow> 0 | Some k \<Rightarrow> k + 1)"
      "0 < p \<Longrightarrow> cu_pos c \<noteq> None"
  shows "\<exists>v'. (if v_end_index v \<noteq> None \<and> file_start files p > the (v_end_index v)
       then sx_bind (sx_modify (\<lambda>v. v\<lparr>v_finished := True\<rparr>)) (\<lambda>_. sx_raise StopIteration)
       else forward_to_target en (ve_depth en) (int p) (file_start files p) (file_start files p)) v =
      (map_sum id (with_item files L) (fst (cursor_next (file_start files L) c)), v') \<and>
    tracks avail handed files path bounded L A v' (snd (cursor_next (file_start files L) c))"
proof -
  let ?k = "file_start files p"
  note iff = file_start_less_iff [OF r]
  have A: "avail (v_manager v) = A" "L \<le> A" "bounded \<Longrightarrow> v_end_index v = Some (file_start files L - 1)"
      "\<not> bounded \<Longrightarrow> v_end_index v = None \<and> L = A"
    using v(1) by (auto simp: tracks_def split: if_splits)
  have n: "n \<le> A" using p(1) inv_avail [of "v_manager v" n] A by (auto simp: visits_def)
  have eq: "p = L \<Longrightarrow> 0 < L \<Longrightarrow> cu_pos c = Some (file_start files L - 1)"
    using k by (auto split: option.splits)
  have cn: "cursor_next (file_start files L) c =
      (if ?k < file_start files L then (Inr ?k, cursor_goto ?k c)
       else (Inl StopIteration, c\<lparr>cu_finished := True\<rparr>))"
    using v(2) by (simp add: cursor_next_def k(1) Let_def)
  consider "p < L" | "p = L" "bounded" | "p = L" "\<not> bounded" using p(3) by linarith
  then show ?thesis
  proof cases
    case 1
    then have lt: "?k < file_start files L" using iff by simp
    have ne: "\<not> (v_end_index v \<noteq> None \<and> ?k > the (v_end_index v))"
      using lt A(3,4) by (cases bounded) auto
    obtain v' where "forward_to_target en (ve_depth en) (int p) ?k ?k v =
        (Inr (with_item files L ?k), v')"
        "tracks avail handed files path bounded L A v' (cursor_goto ?k c)"
      using forward_follows [OF r g d v p(1,2), of ?k] lt by auto
    then show ?thesis unfolding cn using ne lt by (intro exI [of _ v']) simp
  next
    case 2
    have "tracks avail handed files path bounded L A (v\<lparr>v_finished := True\<rparr>) (c\<lparr>cu_finished := True\<rparr>)"
      by (rule follows_finish [OF v(1)]) (use eq 2 in simp)
    then show ?thesis unfolding cn using 2 A(3) by simp
  next
    case 3
    then have "p = n" "p = A" using n p(2) A(4) by auto
    then obtain v' where "forward_to_target en (ve_depth en) (int p) ?k ?k v = (Inl StopIteration, v')"
        "tracks avail handed files path bounded L A v' (c\<lparr>cu_finished := True\<rparr>)"
      using forward_follows [OF r g d v p(1,2), of ?k] 3 eq by auto
    then show ?thesis unfolding cn using 3 A(4) by (intro exI [of _ v']) simp
  qed
qed

lemma next_follows:
  assumes r: "readable (ve_disk en) files path" and g: "ve_gim en = gim" and d: "A < ve_depth en"
    and v: "tracks avail handed files path bounded L A v c"
  shows "\<exists>v'. visitor_next en v =
      (map_sum id (with_item files L) (fst (cursor_next (file_start files L) c)), v') \<and>
    tracks avail handed files path bounded L A v' (snd (cursor_next (file_start files L) c))"
proof (cases "cu_finished c")
  case True
  then have "v_finished v" using v by (simp add: tracks_def)
  then show ?thesis using True v by (simp add: visitor_next_def cursor_next_def)
next
  case nf: False
  then have vf: "\<not> v_finished v" using v by (simp add: tracks_def)
  obtain pos n where p: "visits handed files path v pos n" "placed files L pos (cu_pos c)"
    using v by (auto simp: tracks_def)
  show ?thesis
  proof (cases pos)
    case None
    then have it: "v_iter v = None" "v_process_index v = None" "cu_pos c = None"
      using p by (simp_all add: visits_None)
    then have "visitor_next en v =
        (if v_end_index v \<noteq> None \<and> file_start files 0 > the (v_end_index v)
         then sx_bind (sx_modify (\<lambda>v. v\<lparr>v_finished := True\<rparr>)) (\<lambda>_. sx_raise StopIteration)
         else forward_to_target en (ve_depth en) (int 0) (file_start files 0) (file_start files 0)) v"
      using vf by (simp add: visitor_next_def except_stop_def)
    then show ?thesis
      using next_file_follows [OF r g d v nf p(1), of 0] it(3) by simp
  next
    case (Some pi)
    then obtain q i where pi: "pos = Some (q, i)" by (cases pi) simp
    have it: "v_iter v = Some (iter_at files path q i)" "v_process_index v = Some (int q)"
        "cu_pos c = Some (file_start files q + int i)" "q < n" "q < L" "i < length (files q)"
      using p pi by (simp_all add: visits_Some)
    have len: "file_start files (Suc q) \<le> file_start files L"
      using it(5) by (intro file_start_mono) simp
    show ?thesis
    proof (cases "Suc i < length (files q)")
      case True
      let ?k = "file_start files q + int i + 1"
      let ?v = "v\<lparr>v_iter := Some (iter_at files path q (Suc i)),
          v_visited_max_index := omax (v_visited_max_index v) ?k\<rparr>"
      have "update_visited_max_index (v\<lparr>v_iter := Some (iter_at files path q (Suc i))\<rparr>) = (Inr (), ?v)"
        using update_visited_max_index_at
          [of "v\<lparr>v_iter := Some (iter_at files path q (Suc i))\<rparr>" files path q "Suc i"]
        by (simp add: algebra_simps)
      then have nx: "visitor_next en v = (Inr (?k, files q ! Suc i), ?v)"
        using it vf True
        by (simp add: visitor_next_def except_stop_def sx_bind_def on_iter_pair iter_next_at
            iter_advance_at)
      have sr: "seek_result v ?v (Some (q, Suc i)) n"
        using p(1) pi True it by (simp add: seek_result_def visits_Some)
      have k: "?k = file_start files q + int (Suc i)" "?k < file_start files L" using True len by simp_all
      have "tracks avail handed files path bounded L A ?v (cursor_goto ?k c)"
        by (rule follows_goto [OF v sr k]) (use nf vf in simp_all)
      then show ?thesis using nx nf it(3) k(2) item_at_place [OF sr k]
        by (auto simp: cursor_next_def Let_def)
    next
      case False
      then have e: "int (Suc i) = int (length (files q))" using it(6) by linarith
      then have k: "file_start files (Suc q) = file_start files q + int i + 1" by simp
      have same: "v\<lparr>v_iter := Some (iter_at files path q i)\<rparr> = v" using it(1) by (cases v) simp
      have "visitor_next en v =
          (if v_end_index v \<noteq> None \<and> file_start files (Suc q) > the (v_end_index v)
           then sx_bind (sx_modify (\<lambda>v. v\<lparr>v_finished := True\<rparr>)) (\<lambda>_. sx_raise StopIteration)
           else forward_to_target en (ve_depth en) (int (Suc q)) (file_start files (Suc q))
                  (file_start files (Suc q))) v"
        using it(1,2) vf False unfolding k
        by (simp add: visitor_next_def except_stop_def sx_bind_def on_iter_pair iter_next_at
            iter_advance_end same add.commute)
      moreover have "Suc q \<le> n" "Suc q \<le> L" using it by simp_all
      ultimately show ?thesis
        using next_file_follows [OF r g d v nf p(1), of "Suc q"] it(3) k by simp
    qed
  qed
qed

end


text \<open>The binary search of \<open>_seek_internal\<close> finds the last known file that starts no later.\<close>

lemma bisect_metas:
  fixes n :: nat and target :: int and files :: "nat \<Rightarrow> 'i list" and path :: "nat \<Rightarrow> string"
  defines "metas \<equiv> map (meta_of files path) [0..<n]"
  defines "k \<equiv> bisect_left (\<lambda>m. index_meta_lt m \<lparr>im_process_index = 0,
      im_start_index = target, im_fpath = ''''\<rparr>) metas"
  defines "beyond \<equiv> metas \<noteq> [] \<and> (length metas = k \<or> im_start_index (metas ! k) > target)"
  defines "p \<equiv> if beyond then k - 1 else k"
  assumes "0 \<le> target"
  shows "\<not> (beyond \<and> k = 0)" and "p < n \<or> n = 0 \<and> p = 0" and "file_start files p \<le> target"
    and "(if p < length metas then im_start_index (metas ! p) else 0) = file_start files p"
proof -
  have len: "length metas = n" by (simp add: metas_def)
  have nth: "\<And>j. j < n \<Longrightarrow> im_start_index (metas ! j) = file_start files j"
    by (simp add: metas_def)
  have "sorted (map im_start_index metas)"
    by (simp add: metas_def sorted_iff_nth_mono file_start_mono)
  from bisect_left_sorted [OF this, where v = target]
  have k: "k \<le> n" "\<And>j. j < n \<Longrightarrow> file_start files j < target \<longleftrightarrow> j < k"
    using nth len by (simp_all add: k_def index_meta_lt_def)
  have "file_start files 0 \<le> target" using assms(5) by simp
  then show nb: "\<not> (beyond \<and> k = 0)" using nth len by (auto simp: beyond_def)
  have beyond: "beyond \<Longrightarrow> k - 1 < n \<and> file_start files (k - 1) \<le> target"
    using nb k k(2) [of "k - 1"] by (cases k) (auto simp: less_imp_le)
  have "\<not> beyond \<Longrightarrow> k < n \<and> file_start files k \<le> target \<or> n = 0 \<and> k = 0"
    using k(1) nth len by (cases "n = 0") (auto simp: beyond_def)
  then have p: "p < n \<and> file_start files p \<le> target \<or> n = 0 \<and> p = 0"
    using beyond by (auto simp: p_def)
  then show "p < n \<or> n = 0 \<and> p = 0" by blast
  show "file_start files p \<le> target" using p assms(5) by auto
  show "(if p < length metas then im_start_index (metas ! p) else 0) = file_start files p"
    using p nth len by auto
qed

lemma follows_unfinish:
  "tracks avail handed files path bounded L A v c \<Longrightarrow>
   tracks avail handed files path bounded L A (v\<lparr>v_finished := False\<rparr>) (c\<lparr>cu_finished := False\<rparr>)"
  by (simp add: tracks_def)

context index_source
begin

lemma seek_internal_follows:
  assumes r: "readable (ve_disk en) files path" and g: "ve_gim en = gim" and d: "A < ve_depth en"
    and v: "tracks avail handed files path bounded L A v c" "\<not> cu_finished c"
    and k: "0 \<le> k" "k < file_start files L \<or> \<not> bounded"
  shows "\<exists>v'. seek_internal en k v =
      (if k < file_start files L then Inr (with_item files L k) else Inl StopIteration, v') \<and>
    tracks avail handed files path bounded L A v'
      (if k < file_start files L then cursor_goto k c
       else (if file_start files L = 0 then c else cursor_goto (file_start files L - 1) c)
              \<lparr>cu_finished := True\<rparr>)"
proof -
  have vf: "\<not> v_finished v" using v by (simp add: tracks_def)
  obtain pos n where p: "visits handed files path v pos n" "placed files L pos (cu_pos c)"
    using v by (auto simp: tracks_def)
  have A: "avail (v_manager v) = A" "\<not> bounded \<Longrightarrow> L = A" using v(1) by (auto simp: tracks_def)
  have n: "n \<le> A" using p(1) inv_avail [of "v_manager v" n] A by (auto simp: visits_def)
  have metas: "v_index_metas v = map (meta_of files path) [0..<n]" using p(1) by (simp add: visits_def)
  show ?thesis
  proof (cases "cu_pos c = Some k")
    case True
    then obtain q i where qi: "pos = Some (q, i)" "k = file_start files q + int i" "q < L"
      using p(2) by (cases pos) auto
    have it: "v_iter v = Some (iter_at files path q i)" "i < length (files q)"
      using p(1) qi by (simp_all add: visits_Some)
    let ?v = "v\<lparr>v_visited_max_index := omax (v_visited_max_index v) k\<rparr>"
    have sr: "seek_result v ?v (Some (q, i)) n"
      using p(1) qi(1) by (simp add: seek_result_def visits_Some)
    have "file_start files (Suc q) \<le> file_start files L" using qi(3) by (intro file_start_mono) simp
    then have lt: "k < file_start files L" using qi(2) it(2) by simp
    have same: "v\<lparr>v_iter := Some (iter_at files path q i)\<rparr> = v" using it(1) by (cases v) simp
    have "seek_internal en k v = (Inr (k, files q ! i), ?v)"
      using it qi update_visited_max_index_at [OF it(1)]
      by (simp add: seek_internal_def sx_bind_def on_iter_pair same)
    moreover have "tracks avail handed files path bounded L A ?v (cursor_goto k c)"
      by (rule follows_goto [OF v(1) sr qi(2) lt]) (use v(2) vf in simp_all)
    ultimately show ?thesis using lt item_at_place [OF sr qi(2) lt] by simp
  next
    case False
    let ?here = "if v_iter v = None then sx_return False
         else sx_bind (on_iter iter_get_index) (\<lambda>i. sx_return (i = k))"
    have here: "?here v = (Inr False, v)"
    proof (cases pos)
      case None
      then show ?thesis using p(1) by (simp add: visits_None)
    next
      case (Some pi)
      then obtain q i where qi: "pos = Some (q, i)" by (cases pi) simp
      then have it: "v_iter v = Some (iter_at files path q i)" "file_start files q + int i \<noteq> k"
        using p False by (simp_all add: visits_Some)
      then have "v\<lparr>v_iter := Some (iter_at files path q i)\<rparr> = v" by (cases v) simp
      then show ?thesis using it by (simp add: sx_bind_def on_iter_pair)
    qed
    have step: "sx_bind ?here h v = h False v" for h :: "bool \<Rightarrow> ('i, 'm, int \<times> 'i) vx"
      using here by (simp add: sx_bind_def)
    note bm = bisect_metas [where n = n and files = files and path = path, OF k(1)]
    obtain q where q: "q < n \<or> n = 0 \<and> q = 0" "file_start files q \<le> k"
      and si: "seek_internal en k v =
         forward_to_target en (ve_depth en) (int q) (file_start files q) k v"
    proof
      let ?metas = "map (meta_of files path) [0..<n]"
      let ?k = "bisect_left (\<lambda>m. index_meta_lt m \<lparr>im_process_index = 0,
          im_start_index = k, im_fpath = ''''\<rparr>) ?metas"
      let ?beyond = "?metas \<noteq> [] \<and> (length ?metas = ?k \<or> im_start_index (?metas ! ?k) > k)"
      let ?q = "if ?beyond then ?k - 1 else ?k"
      show "?q < n \<or> n = 0 \<and> ?q = 0" by (rule bm)
      show "file_start files ?q \<le> k" by (rule bm)
      have "seek_internal en k v = (if ?beyond \<and> ?k = 0 then sx_raise IndexError
          else forward_to_target en (ve_depth en) (int ?q)
            (if ?q < length ?metas then im_start_index (?metas ! ?q) else 0) k) v"
        unfolding seek_internal_def sx_simps Let_def step metas by simp
      then show "seek_internal en k v =
          forward_to_target en (ve_depth en) (int ?q) (file_start files ?q) k v"
        unfolding bm(4) if_not_P [OF bm(1)] .
    qed
    have qn: "q \<le> n" "q < A \<or> q = n" using q n by auto
    have qA: "q = A \<longleftrightarrow> A = 0" using q n by auto
    have "k < file_start files L \<or> \<not> bounded \<and> (q < A \<or> q = n) \<and>
        (q = A \<longrightarrow> 0 < A \<longrightarrow> cu_pos c = Some (file_start files A - 1))"
      using k(2) qn qA by auto
    from forward_follows [OF r g d v p(1) qn(1) q(2) this]
    have fw: "\<exists>v'. forward_to_target en (ve_depth en) (int q) (file_start files q) k v =
      (if k < file_start files L then Inr (with_item files L k) else Inl StopIteration, v') \<and>
    tracks avail handed files path bounded L A v'
      (if k < file_start files L then cursor_goto k c
       else (if q = A then c else cursor_goto (file_start files L - 1) c)\<lparr>cu_finished := True\<rparr>)" .
    have "\<not> k < file_start files L \<Longrightarrow> q = A \<longleftrightarrow> file_start files L = 0"
      using k(2) A(2) qA file_start_less_iff [OF r, of 0 A] by (auto simp: le_less)
    then show ?thesis using fw unfolding si by (cases "k < file_start files L") simp_all
  qed
qed

end


context index_source
begin

lemma seek_follows:
  assumes r: "readable (ve_disk en) files path" and g: "ve_gim en = gim" and d: "A < ve_depth en"
    and v: "tracks avail handed files path bounded L A v c" and k: "0 \<le> k"
  shows "\<exists>v'. visitor_seek en k v =
      (map_sum id (with_item files L) (fst (cursor_seek bounded (file_start files L) k c)), v') \<and>
    tracks avail handed files path bounded L A v' (snd (cursor_seek bounded (file_start files L) k c))"
proof -
  let ?N = "file_start files L"
  have fs: "v_finished v = cu_finished c" "v_visited_max_index v = cu_seen c"
      "bounded \<Longrightarrow> v_end_index v = Some (?N - 1)" "\<not> bounded \<Longrightarrow> v_end_index v = None"
    using v by (auto simp: tracks_def split: if_splits)
  consider "cu_finished c" "cu_seen c = None \<or> the (cu_seen c) < k"
    | "cu_finished c" "cu_seen c = Some k"
    | "cu_finished c \<longrightarrow> (\<exists>s. cu_seen c = Some s \<and> k < s)"
    by (cases "cu_seen c"; cases "cu_finished c") (auto, metis linorder_less_linear)
  then show ?thesis
  proof cases
    case 1
    then have "visitor_seek en k v = (Inl StopIteration, v)"
      using fs by (auto simp: visitor_seek_def Let_def split: option.split)
    then show ?thesis using 1 v by (auto simp: cursor_seek_def)
  next
    case 2
    have "k < ?N" using 2 v by (simp add: tracks_def)
    then have L: "0 < L" using k by (cases L) simp_all
    then have pos: "cu_pos c = Some (?N - 1)" using 2(1) v by (simp add: tracks_def)
    then have "?N - 1 \<le> k" using 2 v by (auto simp: tracks_def)
    then have pk: "cu_pos c = Some k" using pos \<open>k < ?N\<close> by simp
    obtain pl n where "visits handed files path v pl n" "placed files L pl (cu_pos c)"
      using v by (auto simp: tracks_def)
    then obtain q i where qi: "visits handed files path v (Some (q, i)) n"
        "k = file_start files q + int i"
      using pk by (cases pl) auto
    then have it: "v_iter v = Some (iter_at files path q i)" by (simp add: visits_Some)
    then have same: "v\<lparr>v_iter := Some (iter_at files path q i)\<rparr> = v" by (cases v) simp
    have "seek_result v v (Some (q, i)) n" using qi(1) by (simp add: seek_result_def)
    then have item: "with_item files L k = (k, files q ! i)"
      using item_at_place qi(2) \<open>k < ?N\<close> by blast
    have "visitor_seek en k v = (Inr (k, files q ! i), v)"
      using 2 fs it qi(2)
      by (simp add: visitor_seek_def Let_def sx_bind_def on_iter_pair same sx_assert_def)
    then show ?thesis using 2 v item by (simp add: cursor_seek_def)
  next
    case 3
    let ?v = "v\<lparr>v_finished := False\<rparr>" and ?c = "c\<lparr>cu_finished := False\<rparr>"
    have not: "\<not> (cu_finished c \<and> (cu_seen c = None \<or> the (cu_seen c) < k))"
        "\<not> (cu_finished c \<and> cu_seen c = Some k)"
      using 3 by auto
    have vs: "visitor_seek en k v =
        (if v_end_index v \<noteq> None \<and> the (v_end_index v) < k then (Inl StopIteration, v)
         else seek_internal en k ?v)"
      using 3 fs by (auto simp: visitor_seek_def Let_def split: option.split)
    show ?thesis
    proof (cases "k < ?N \<or> \<not> bounded")
      case False
      then show ?thesis using not fs(3) v by (auto simp: vs cursor_seek_def)
    next
      case True
      then have ne: "\<not> (v_end_index v \<noteq> None \<and> the (v_end_index v) < k)"
        using fs(3,4) by (cases bounded) auto
      obtain v' where v': "seek_internal en k ?v =
          (if k < ?N then Inr (with_item files L k) else Inl StopIteration, v')"
        "tracks avail handed files path bounded L A v'
          (if k < ?N then cursor_goto k ?c
           else (if ?N = 0 then ?c else cursor_goto (?N - 1) ?c)\<lparr>cu_finished := True\<rparr>)"
        using seek_internal_follows [OF r g d follows_unfinish [OF v] _ k True] by auto
      have "cursor_goto (?N - 1) ?c\<lparr>cu_finished := True\<rparr> = cursor_goto (?N - 1) c\<lparr>cu_finished := True\<rparr>"
        by (simp add: cursor_goto_def)
      then show ?thesis using v' ne not True unfolding vs
        by (cases "k < ?N") (auto simp: cursor_seek_def)
    qed
  qed
qed

lemma exec_follows:
  assumes r: "readable (ve_disk en) files path" and g: "ve_gim en = gim" and d: "A < ve_depth en"
    and v: "tracks avail handed files path bounded L A v c"
  shows "\<exists>v'. visitor_exec en op v =
      (map_sum id (map_option (with_item files L))
        (fst (cursor_exec bounded (file_start files L) op c)), v') \<and>
    tracks avail handed files path bounded L A v' (snd (cursor_exec bounded (file_start files L) op c))"
proof (cases op)
  case VNext
  then show ?thesis using next_follows [OF r g d v]
    by (auto simp: sx_bind_def split: prod.splits sum.splits)
next
  case (VSeek k)
  then show ?thesis using seek_follows [OF r g d v, of "int k"]
    by (auto simp: sx_bind_def split: prod.splits sum.splits)
next
  case VReset
  obtain pos n where "visits handed files path v pos n" using v by (auto simp: tracks_def)
  then have "visits handed files path (visitor_reset v) None n"
    by (auto simp: visits_def visitor_reset_def)
  then have "\<exists>pos n. visits handed files path (visitor_reset v) pos n \<and> placed files L pos None"
    by (intro exI [of _ None]) auto
  then have "tracks avail handed files path bounded L A (visitor_reset v)
      (c\<lparr>cu_pos := None, cu_finished := False\<rparr>)"
    using v by (auto simp: tracks_def visitor_reset_def)
  then show ?thesis using VReset by simp
qed

lemma outcomes_follow:
  assumes r: "readable (ve_disk en) files path" and g: "ve_gim en = gim" and d: "A < ve_depth en"
  shows "tracks avail handed files path bounded L A v c \<Longrightarrow>
    outcomes (visitor_exec en) ops v =
      map (map_sum id (map_option (with_item files L)))
        (outcomes (cursor_exec bounded (file_start files L)) ops c)"
proof (induction ops arbitrary: v c)
  case (Cons op ops)
  from exec_follows [OF r g d Cons.prems, of op] Cons.IH show ?case
    by (auto simp: id_def split: prod.split)
qed simp

end


section \<open>Starting up\<close>

lemma append_index_metas_at:
  "v_index_metas v = map (meta_of files path) [0..<k] \<Longrightarrow> k \<le> n \<Longrightarrow>
   append_index_metas (map (meta_of files path) [k..<n]) v =
     (Inr (), v\<lparr>v_index_metas := map (meta_of files path) [0..<n]\<rparr>)"
proof (induction "n - k" arbitrary: k v)
  case (Suc d)
  then have "k < n" by simp
  then have "[k..<n] = k # [Suc k..<n]" by (rule upt_conv_Cons)
  then show ?case
    using Suc.hyps(1) [of "Suc k" "v\<lparr>v_index_metas := map (meta_of files path) [0..<Suc k]\<rparr>"]
      Suc.hyps(2) Suc.prems append_index_meta_at [OF Suc.prems(1)]
    by (simp add: sx_bind_def)
qed simp

definition start_cursor :: cursor where
  "start_cursor = \<lparr>cu_pos = None, cu_seen = None, cu_finished = False\<rparr>"

lemma visits_manager:
  assumes "visits handed files path v pos n" "handed' m n"
  shows "visits handed' files path (v\<lparr>v_manager := m\<rparr>) pos n"
  using assms by (cases pos) (auto simp: visits_def)

text \<open>A new visitor over a manager that has handed out the first \<open>n\<close> metas.\<close>

lemma new_visitor_tracks:
  fixes v :: "('i, 'm) visitor"
  assumes "handed s k" "avail s = n" "new_visitor s (map (meta_of files path) [0..<k]) = Inr v"
  shows "tracks avail handed files path False n n v start_cursor \<and> v_manager v = s"
proof -
  let ?v = "\<lparr>v_iter = None, v_finished = False, v_visited_max_index = None, v_end_index = None,
      v_process_index = None, v_index_metas = [], v_manager = s\<rparr> :: ('i, 'm) visitor"
  have "append_index_metas (map (meta_of files path) [0..<k]) ?v =
      (Inr (), ?v\<lparr>v_index_metas := map (meta_of files path) [0..<k]\<rparr>)"
    by (rule append_index_metas_at) simp_all
  then have "v = ?v\<lparr>v_index_metas := map (meta_of files path) [0..<k]\<rparr>"
    using assms(3) by (simp add: new_visitor_def)
  moreover from this have "visits handed files path v None k"
    using assms(1) by (simp add: visits_None)
  ultimately show ?thesis using assms(2)
    by (auto simp: tracks_def start_cursor_def intro!: exI [of _ "None :: (nat \<times> nat) option"])
qed

section \<open>Files that are empty or cannot be read\<close>

text \<open>An iterator whose last reset failed answers every call with an \<open>AssertionError\<close>.\<close>

definition cleared :: "'i raw_iter \<Rightarrow> 'i raw_iter" where
  "cleared it = it\<lparr>it_fiter := None, it_index_meta := None, it_item := None, it_index := None\<rparr>"

lemma cleared_invalid: "\<not> iter_valid (cleared it)"
  by (simp add: iter_valid_def cleared_def)

lemma check_valid_invalid: "\<not> iter_valid it \<Longrightarrow> check_valid it = (Inl AssertionError, it)"
  by (simp add: check_valid_def sx_assert_def)

lemma invalid_raises:
  assumes "\<not> iter_valid it"
  shows "iter_next disk it = (Inl AssertionError, it)"
    "iter_get_index it = (Inl AssertionError, it)"
    "iter_get_item it = (Inl AssertionError, it)"
  using check_valid_invalid [OF assms]
  by (simp_all add: iter_next_def iter_get_index_def iter_get_item_def sx_bind_def)

lemma reset_iter_empty:
  "disk (path q) = ([], None) \<Longrightarrow> p \<noteq> q \<Longrightarrow>
   reset_iter disk (Some (meta_of files path q)) False (iter_at files path p i) =
     (Inl StopIteration, cleared (iter_at files path p i))"
  by (simp add: reset_iter_def cleared_def)

lemma next_at_end:
  assumes "v_iter v = Some (iter_at files path p i)" "Suc i = length (files p)"
    and "v_process_index v = Some (int p)" "v_end_index v = None" "\<not> v_finished v"
  shows "visitor_next en v = forward_to_target en (ve_depth en) (int (Suc p))
    (file_start files (Suc p)) (file_start files (Suc p)) v"
proof -
  have same: "v\<lparr>v_iter := Some (iter_at files path p i)\<rparr> = v" using assms(1) by (cases v) simp
  have "int i + 1 = int (length (files p))" using assms(2) by linarith
  then have k: "file_start files (Suc p) = file_start files p + int i + 1" by simp
  show ?thesis
    using assms unfolding k
    by (simp add: visitor_next_def except_stop_def sx_bind_def on_iter_pair iter_next_at
        iter_advance_end same add.commute)
qed

text \<open>
  C32. When the files end with an empty one, a visitor that has read the last item and asks for the
  next one stops and is finished, and from then on it cannot be used: after
  it is made active again because more files have come, the next item, an item by its index and its
  current index all raise \<open>AssertionError\<close>, because the shared iterator was cleared by the
  failed attempt to open the empty file and is kept. Only \<open>reset\<close> helps.
\<close>

theorem empty_last_file_breaks_visitor:
  assumes "v_iter v = Some (iter_at files path p i)" "Suc i = length (files p)"
    and "v_process_index v = Some (int p)" "v_end_index v = None" "\<not> v_finished v"
    and metas: "v_index_metas v = map (meta_of files path) [0..<Suc p]"
    and empty: "files (Suc p) = []" "ve_disk en (path (Suc p)) = ([], None)"
    and gim: "ve_gim en (int (Suc p)) (file_start files (Suc p)) (v_manager v) =
        (Inr (Some (meta_of files path (Suc p))), m1)"
      "ve_gim en (int (Suc (Suc p))) (file_start files (Suc (Suc p))) m1 = (Inr None, m2)"
    and depth: "2 \<le> ve_depth en"
  shows "\<exists>v1. visitor_next en v = (Inl StopIteration, v1) \<and> v_finished v1 \<and>
     (let v2 = v1\<lparr>v_finished := False\<rparr> in
        fst (visitor_next en v2) = Inl AssertionError \<and>
        fst (visitor_seek en k v2) = Inl AssertionError \<and>
        fst (visitor_get_index v2) = Inl AssertionError \<and>
        fst (visitor_get_index (visitor_reset v2)) = Inr 0)"
proof -
  let ?it = "cleared (iter_at files path p i)"
  obtain d where d: "ve_depth en = Suc (Suc d)" using depth by (metis add_2_eq_Suc le_Suc_ex)
  let ?a = "v\<lparr>v_manager := m1, v_index_metas := map (meta_of files path) [0..<Suc (Suc p)]\<rparr>"
  have ap: "append_index_meta (meta_of files path (Suc p)) (v\<lparr>v_manager := m1\<rparr>) = (Inr (), ?a)"
    using append_index_meta_at [of "v\<lparr>v_manager := m1\<rparr>" files path "Suc p"] metas by simp
  have n1: "next_index_meta en (int (Suc p)) (file_start files (Suc p)) v =
      (Inr (meta_of files path (Suc p)), ?a)"
    unfolding next_index_meta_def using metas gim(1) ap
    by (simp add: sx_bind_def sx_assert_def ask_manager_def del: of_nat_Suc file_start.simps)
  let ?b = "?a\<lparr>v_iter := Some ?it\<rparr>"
  have op: "except_stop (sx_bind (reset_iter_by_index_meta en (meta_of files path (Suc p)))
      (\<lambda>_. sx_return True)) (sx_return False) ?a = (Inr False, ?b)"
    using reset_iter_empty [of "ve_disk en" path "Suc p" p files i] empty(2) assms(1)
    by (simp add: except_stop_def sx_bind_def reset_iter_by_index_meta_def on_iter_def)
  let ?v1 = "?b\<lparr>v_manager := m2, v_finished := True\<rparr>"
  have "file_start files (Suc (Suc p)) = file_start files (Suc p)" using empty(1) by simp
  then have n2: "next_index_meta en (int (Suc (Suc p))) (file_start files (Suc p)) ?b =
      (Inl StopIteration, ?v1)"
    unfolding next_index_meta_def using gim(2)
    by (simp add: sx_bind_def sx_assert_def ask_manager_def del: of_nat_Suc file_start.simps)
  have suc: "int (Suc p) + 1 = int (Suc (Suc p))" by simp
  have stop: "visitor_next en v = (Inl StopIteration, ?v1)"
    unfolding next_at_end [OF assms(1-5)] d forward_to_target.simps
    using n1 op n2 unfolding suc
    by (simp add: sx_bind_def sx_assert_def del: of_nat_Suc file_start.simps)
  let ?v2 = "?v1\<lparr>v_finished := False\<rparr>"
  have it: "v_iter ?v2 = Some ?it" by simp
  note bad = invalid_raises [OF cleared_invalid [of "iter_at files path p i"]]
  have "fst (visitor_next en ?v2) = Inl AssertionError"
    by (simp add: visitor_next_def except_stop_def sx_bind_def on_iter_def bad)
  moreover have "fst (visitor_seek en k ?v2) = Inl AssertionError"
    using assms(4) by (simp add: visitor_seek_def seek_internal_def Let_def sx_bind_def on_iter_def bad)
  moreover have "fst (visitor_get_index ?v2) = Inl AssertionError"
    by (simp add: visitor_get_index_def on_iter_def bad)
  moreover have "fst (visitor_get_index (visitor_reset ?v2)) = Inr 0"
    by (simp add: visitor_get_index_def visitor_reset_def)
  ultimately show ?thesis using stop by (intro exI [of _ ?v1]) (simp add: Let_def)
qed

text \<open>
  When reading a file fails in its middle, the visitor raises the exception once; the next
  call then takes the file for ended, because the generator is dead and the iterator, which is
  still on the item it is asked to go back to, is not reset. It goes on with the first item of the
  next file, and numbers it as if the unread rest of the file did not exist.
\<close>

theorem read_failure_skips_rest:
  assumes it: "v_iter v = Some ((iter_at files path p i)\<lparr>it_fiter := Some ([], Some e)\<rparr>)"
    and e: "e \<noteq> StopIteration"
    and v: "v_process_index v = Some (int p)" "v_end_index v = None" "\<not> v_finished v"
      "length (v_index_metas v) = Suc p" "im_start_index (last (v_index_metas v)) \<le> k"
    and k: "k = file_start files p + int i + 1"
    and next_file: "ve_disk en f = (y # ys, None)"
    and gim: "ve_gim en (int (Suc p)) k (v_manager v) =
      (Inr (Some \<lparr>im_process_index = int (Suc p), im_start_index = k, im_fpath = f\<rparr>), m1)"
    and depth: "0 < ve_depth en"
  shows "\<exists>v1 v2. visitor_next en v = (Inl e, v1) \<and> visitor_next en v1 = (Inr (k, y), v2)"
proof -
  let ?it = "(iter_at files path p i)\<lparr>it_fiter := Some ([], None), it_failed := True\<rparr>"
  let ?v1 = "v\<lparr>v_iter := Some ?it\<rparr>"
  let ?im = "\<lparr>im_process_index = int (Suc p), im_start_index = k, im_fpath = f\<rparr>"
  obtain d where d: "ve_depth en = Suc d" using depth by (cases "ve_depth en") auto
  have adv: "iter_advance ((iter_at files path p i)\<lparr>it_fiter := Some ([], Some e)\<rparr>) = (Inl e, ?it)"
    using e by (cases e) (simp_all add: iter_advance_def)
  have first: "visitor_next en v = (Inl e, ?v1)"
    using it v adv e
    by (cases e) (simp_all add: visitor_next_def except_stop_def sx_bind_def on_iter_def iter_next_def
        iter_valid_def)
  have valid: "iter_valid ?it" by (simp add: iter_valid_def)
  have "seek_to_target (ve_disk en) (file_start files p + int i) ?it = (Inr (), ?it)"
    using valid by (simp add: seek_to_target_def sx_bind_def)
  then have nx: "iter_next (ve_disk en) ?it = (Inl StopIteration, ?it)"
    using valid by (simp add: iter_next_def sx_bind_def iter_advance_def)
  have gi: "iter_get_index ?it = (Inr (file_start files p + int i), ?it)"
    using valid by (simp add: iter_get_index_def sx_bind_def)
  have same: "?v1\<lparr>v_iter := Some ?it\<rparr> = ?v1" by simp
  have second: "visitor_next en ?v1 = forward_to_target en (ve_depth en) (int (Suc p)) k k ?v1"
    using v nx gi k
    by (simp add: visitor_next_def except_stop_def sx_bind_def on_iter_def add.commute)
  let ?a = "?v1\<lparr>v_manager := m1, v_index_metas := v_index_metas v @ [?im]\<rparr>"
  have "append_index_meta ?im (?v1\<lparr>v_manager := m1\<rparr>) = (Inr (), ?a)"
    using v(4,5) by (auto simp: append_index_meta_def index_meta_lt_def)
  then have n1: "next_index_meta en (int (Suc p)) k ?v1 = (Inr ?im, ?a)"
    unfolding next_index_meta_def using v(4) gim
    by (simp add: sx_bind_def sx_assert_def ask_manager_def del: of_nat_Suc)
  let ?it2 = "\<lparr>it_fiter = Some (ys, None), it_index_meta = Some ?im, it_item = Some y,
      it_index = Some k, it_failed = False\<rparr>"
  have op: "except_stop (sx_bind (reset_iter_by_index_meta en ?im) (\<lambda>_. sx_return True))
      (sx_return False) ?a = (Inr True, ?a\<lparr>v_iter := Some ?it2\<rparr>)"
    using next_file
    by (simp add: except_stop_def sx_bind_def reset_iter_by_index_meta_def on_iter_def reset_iter_def)
  have v2: "iter_valid ?it2" by (simp add: iter_valid_def)
  have st: "seek_to_target (ve_disk en) k ?it2 = (Inr (), ?it2)"
    using v2 by (simp add: seek_to_target_def sx_bind_def)
  have g2: "iter_get_index ?it2 = (Inr k, ?it2)" "iter_get_item ?it2 = (Inr y, ?it2)"
    using v2 by (simp_all add: iter_get_index_def iter_get_item_def sx_bind_def)
  have "fst (forward_to_target en (ve_depth en) (int (Suc p)) k k ?v1) = Inr (k, y)"
    unfolding d forward_to_target.simps using n1 op
    by (auto simp: sx_bind_def sx_assert_def seek_in_file_def on_iter_def st g2
        update_visited_max_index_def simp del: of_nat_Suc)
  then show ?thesis using first second by (metis prod.collapse)
qed


subsection \<open>Witnesses\<close>

text \<open>A file with one item; the manager knows one more file, and no other.\<close>

definition we_files :: "nat \<Rightarrow> nat list" where
  "we_files q = (if q = 0 then [5] else [])"

definition we_path :: "nat \<Rightarrow> string" where
  "we_path q = replicate q CHR ''f''"

definition we_gim :: "int \<Rightarrow> int \<Rightarrow> (nat, index_meta option) sx" where
  "we_gim p k m =
     (if m = 0 then (Inr (Some \<lparr>im_process_index = p, im_start_index = k, im_fpath = ''f''\<rparr>), 1)
      else (Inr None, m))"

definition we_env :: "nat list \<Rightarrow> (nat, nat) visitor_env" where
  "we_env xs = \<lparr>ve_disk = (\<lambda>s. if s = [] then ([5], None) else (xs, None)), ve_gim = we_gim,
     ve_depth = 5\<rparr>"

definition we_visitor :: "nat fiter \<Rightarrow> (nat, nat) visitor" where
  "we_visitor g = \<lparr>v_iter = Some ((iter_at we_files we_path 0 0)\<lparr>it_fiter := Some g\<rparr>),
     v_finished = False, v_visited_max_index = Some 0, v_end_index = None, v_process_index = Some 0,
     v_index_metas = [meta_of we_files we_path 0], v_manager = 0\<rparr>"

theorem empty_last_file_breaks_visitor_witness:
  "\<exists>v1. visitor_next (we_env []) (we_visitor ([], None)) = (Inl StopIteration, v1) \<and> v_finished v1 \<and>
     (let v2 = v1\<lparr>v_finished := False\<rparr> in
        fst (visitor_next (we_env []) v2) = Inl AssertionError \<and>
        fst (visitor_seek (we_env []) 0 v2) = Inl AssertionError \<and>
        fst (visitor_get_index v2) = Inl AssertionError \<and>
        fst (visitor_get_index (visitor_reset v2)) = Inr 0)"
  by (rule empty_last_file_breaks_visitor
      [where files = we_files and path = we_path and p = 0 and i = 0 and ?m1.0 = 1 and ?m2.0 = 1])
    (simp_all add: we_visitor_def we_env_def we_gim_def we_files_def we_path_def meta_of_def
      iter_at_def)

theorem read_failure_skips_rest_witness:
  "\<exists>v1 v2. visitor_next (we_env [7]) (we_visitor ([], Some OpError)) = (Inl OpError, v1) \<and>
     visitor_next (we_env [7]) v1 = (Inr (1, 7), v2)"
  by (rule read_failure_skips_rest
      [where files = we_files and path = we_path and p = 0 and i = 0 and ?m1.0 = 1 and f = "''f''"
        and ys = "[]"])
    (simp_all add: we_visitor_def we_env_def we_gim_def)

end
