(* ===== verification/Example_Id_Visitor.thy ===== *)
theory Example_Id_Visitor
  imports Visitor Data_Join_Common "HOL-Library.AList"
begin

text \<open>
  The example ids that a follower has dumped (\<open>data_join/example_id_visitor.py\<close>).

  The process that dumps the ids moves an anchor in the kv store forward, one file at a time; the
  process that joins reads the files up to the anchor through a visitor whose manager is in
  visit-only mode. Both are the same class. The anchor's text format is a pair of
  functions of the environment; the files that exist are a list of paths, to which other
  processes add.
\<close>

section \<open>The anchor\<close>

record last_dumped =
  ld_file_path :: string
  ld_start_index :: int
  ld_end_index :: int
  ld_process_index :: int

text \<open>The message is a \<open>oneof\<close>; reading \<open>last_meta\<close> when it is not set gives the default.\<close>

datatype anchor = Undumped | Dumped last_dumped | Anchor_unset

definition last_meta :: "anchor \<Rightarrow> last_dumped" where
  "last_meta a = (case a of
       Dumped l \<Rightarrow> l
     | _ \<Rightarrow> \<lparr>ld_file_path = '''', ld_start_index = 0, ld_end_index = 0, ld_process_index = 0\<rparr>)"

record 'v ei_env =
  ei_name :: string
  ei_partition :: int
  ei_dumped_dir :: string
  ei_print :: "anchor \<Rightarrow> 'v"
  ei_parse :: "'v \<Rightarrow> anchor"

record 'v ei_manager = index_meta_manager +
  ei_anchor :: "anchor option"
  ei_visit_only :: bool
  ei_kv :: "(string \<times> 'v) list"
  ei_files :: "string list"

definition anchor_key :: "'v ei_env \<Rightarrow> string" where
  "anchor_key en = example_id_anchor_kvstore_key (ei_name en) (ei_partition en)"

definition example_dumped_dir :: "string \<Rightarrow> int \<Rightarrow> string" where
  "example_dumped_dir output_base_dir p =
     path_join (path_join output_base_dir ''example_dump'') (partition_repr p)"

definition sync_dumped_example_id_anchor :: "'v ei_env \<Rightarrow> ('v ei_manager, anchor) sx" where
  "sync_dumped_example_id_anchor en =
     sx_bind (sx_modify (\<lambda>s.
       if ei_anchor s = None \<or> ei_visit_only s
       then s\<lparr>ei_anchor := Some (case map_of (ei_kv s) (anchor_key en) of
                None \<Rightarrow> Undumped | Some d \<Rightarrow> ei_parse en d)\<rparr>
       else s)) (\<lambda>_.
     sx_bind sx_get (\<lambda>s. sx_return (the (ei_anchor s))))"

definition get_next_process_index :: "'v ei_env \<Rightarrow> ('v ei_manager, int) sx" where
  "get_next_process_index en =
     sx_bind (sync_dumped_example_id_anchor en) (\<lambda>a.
       sx_return (if a = Undumped then 0 else ld_process_index (last_meta a) + 1))"

definition get_last_dumped_index :: "'v ei_env \<Rightarrow> ('v ei_manager, int option) sx" where
  "get_last_dumped_index en =
     sx_bind (sync_dumped_example_id_anchor en) (\<lambda>a.
       sx_return (case a of Dumped l \<Rightarrow> Some (ld_end_index l) | _ \<Rightarrow> None))"

text \<open>\<open>check_index_meta_by_process_index\<close>\<close>

definition ei_check_index_meta :: "'v ei_env \<Rightarrow> int \<Rightarrow> ('v ei_manager, bool) sx" where
  "ei_check_index_meta en process_index =
     sx_bind (sync_dumped_example_id_anchor en) (\<lambda>a.
       sx_return (a \<noteq> Undumped \<and> ld_process_index (last_meta a) \<ge> process_index))"

text \<open>The checks of \<open>update_dumped_example_id_anchor\<close> that need no lock, then those that do.\<close>

definition check_dumped_file :: "'v ei_env \<Rightarrow> index_meta \<Rightarrow> int \<Rightarrow> ('v ei_manager, unit) sx" where
  "check_dumped_file en im end_index = sx_bind sx_get (\<lambda>s.
     if im_fpath im \<notin> set (ei_files s) \<or> dir_name (im_fpath im) \<noteq> ei_dumped_dir en \<or>
        im_start_index im > end_index \<or>
        encode_example_id_dumped_fname (im_process_index im) (im_start_index im) \<noteq>
          base_name (im_fpath im)
     then sx_raise ValueError else sx_return ())"

definition check_follows_anchor :: "anchor \<Rightarrow> index_meta \<Rightarrow> ('v ei_manager, unit) sx" where
  "check_follows_anchor a im =
     (if (if a = Undumped then im_start_index im \<noteq> 0 \<or> im_process_index im \<noteq> 0
          else im_start_index im \<le> ld_end_index (last_meta a) \<or>
               im_process_index im \<noteq> ld_process_index (last_meta a) + 1)
      then sx_raise ValueError else sx_return ())"

text \<open>
  \<open>written\<close> is whether the write to the store succeeds; a failed one leaves no cached anchor,
  so that the next call reads the store.
\<close>

definition update_dumped_example_id_anchor ::
    "'v ei_env \<Rightarrow> bool \<Rightarrow> index_meta \<Rightarrow> int \<Rightarrow> ('v ei_manager, unit) sx" where
  "update_dumped_example_id_anchor en written im end_index =
     sx_bind (check_dumped_file en im end_index) (\<lambda>_.
     sx_bind sx_get (\<lambda>s.
     if ei_visit_only s then sx_raise RuntimeError
     else sx_bind (sync_dumped_example_id_anchor en) (\<lambda>a.
          sx_bind (check_follows_anchor a im) (\<lambda>_.
          let new_anchor = Dumped \<lparr>ld_file_path = im_fpath im, ld_start_index = im_start_index im,
                ld_end_index = end_index, ld_process_index = im_process_index im\<rparr> in
          sx_bind (sx_modify (\<lambda>s. s\<lparr>ei_anchor := None\<rparr>)) (\<lambda>_.
          if \<not> written then sx_raise RuntimeError
          else sx_modify (\<lambda>s. s\<lparr>ei_kv := AList.update (anchor_key en) (ei_print en new_anchor) (ei_kv s),
                 ei_anchor := Some new_anchor\<rparr>))))))"

section \<open>The manager\<close>

definition decode_file :: "string \<Rightarrow> index_meta result" where
  "decode_file fpath =
     bind_result (decode_index_meta (base_name fpath)) (\<lambda>(p, k).
       Inr \<lparr>im_process_index = p, im_start_index = k, im_fpath = fpath\<rparr>)"

text \<open>\<open>_preload_example_id_meta\<close>; \<open>listing\<close> holds the names in the directory.\<close>

definition preload_example_id_meta :: "'v ei_env \<Rightarrow> string list \<Rightarrow> index_meta list result" where
  "preload_example_id_meta en listing =
     bind_result (traverse decode_file
       (map (path_join (ei_dumped_dir en)) (filter (suffix ''.done'') listing))) sorted_index_metas"

definition check_index_dumped :: "int \<Rightarrow> 'v ei_manager \<Rightarrow> bool" where
  "check_index_dumped index s \<longleftrightarrow>
     (case ei_anchor s of Some (Dumped l) \<Rightarrow> ld_end_index l \<ge> index | _ \<Rightarrow> False)"

definition ei_new_index_meta ::
    "'v ei_env \<Rightarrow> int \<Rightarrow> int \<Rightarrow> ('v ei_manager, index_meta option) sx" where
  "ei_new_index_meta en process_index start_index = sx_bind sx_get (\<lambda>s.
     if \<not> ei_visit_only s then sx_raise RuntimeError
     else sx_bind (sx_assert (ei_anchor s \<noteq> None)) (\<lambda>_.
       if check_index_dumped start_index s
       then let fpath = path_join (ei_dumped_dir en)
                  (encode_example_id_dumped_fname process_index start_index) in
            if fpath \<notin> set (ei_files s) then sx_raise ProcessExit
            else sx_return (Some \<lparr>im_process_index = process_index, im_start_index = start_index,
                   im_fpath = fpath\<rparr>)
       else sx_return None))"

text \<open>
  The constructor. In visit-only mode the files beyond the anchor, which a dump that was cut off
  may have left, are dropped.
\<close>

definition new_example_id_manager ::
    "'v ei_env \<Rightarrow> bool \<Rightarrow> string list \<Rightarrow> (string \<times> 'v) list \<Rightarrow> string list \<Rightarrow> 'v ei_manager result" where
  "new_example_id_manager en visit_only listing kv files =
     bind_result (if visit_only then preload_example_id_meta en listing else Inr []) (\<lambda>preload.
     bind_result (sorted_index_metas preload) (\<lambda>metas.
       let s = snd (sync_dumped_example_id_anchor en
             \<lparr>imm_index_metas = metas, ei_anchor = None, ei_visit_only = visit_only, ei_kv = kv,
              ei_files = files\<rparr>);
           a = the (ei_anchor s)
       in Inr (if \<not> visit_only then s
               else s\<lparr>imm_index_metas := (if a = Undumped then []
                     else slice_to (ld_process_index (last_meta a) + 1) (imm_index_metas s))\<rparr>)))"

section \<open>The visitor\<close>

definition ei_gim :: "'v ei_env \<Rightarrow> int \<Rightarrow> int \<Rightarrow> ('v ei_manager, index_meta option) sx" where
  "ei_gim en = get_index_meta_by_index (ei_new_index_meta en)"

definition new_example_id_visitor ::
    "'v ei_env \<Rightarrow> string list \<Rightarrow> (string \<times> 'v) list \<Rightarrow> string list \<Rightarrow>
     ('i, 'v ei_manager) visitor result" where
  "new_example_id_visitor en listing kv files =
     bind_result (new_example_id_manager en True listing kv files) (\<lambda>m.
       new_visitor m (imm_index_metas m))"

definition ei_active_visitor :: "'v ei_env \<Rightarrow> ('i, 'v ei_manager, unit) vx" where
  "ei_active_visitor en =
     sx_bind (ask_manager (get_last_dumped_index en)) (\<lambda>e.
     sx_bind sx_get (\<lambda>v.
       case e of
         None \<Rightarrow> sx_return ()
       | Some end_index \<Rightarrow>
           if v_end_index v = None \<or> the (v_end_index v) < end_index
           then sx_modify (\<lambda>v. (set_end_index end_index v)\<lparr>v_finished := False\<rparr>)
           else sx_return ()))"


section \<open>A store that holds dumped example ids\<close>

definition dumped_path :: "'v ei_env \<Rightarrow> (nat \<Rightarrow> 'i list) \<Rightarrow> nat \<Rightarrow> string" where
  "dumped_path en files q =
     path_join (ei_dumped_dir en) (encode_example_id_dumped_fname (int q) (file_start files q))"

text \<open>The anchor after the first \<open>n\<close> files.\<close>

definition anchor_at :: "(nat \<Rightarrow> 'i list) \<Rightarrow> nat \<Rightarrow> anchor \<Rightarrow> bool" where
  "anchor_at files n a \<longleftrightarrow>
     (if n = 0 then a = Undumped
      else \<exists>l. a = Dumped l \<and> ld_end_index l = file_start files n - 1 \<and>
             ld_process_index l = int n - 1)"

definition ids_dumped ::
    "'v ei_env \<Rightarrow> (nat \<Rightarrow> 'i list) \<Rightarrow> (string \<times> 'v) list \<Rightarrow> string list \<Rightarrow> nat \<Rightarrow> bool" where
  "ids_dumped en files kv fs n \<longleftrightarrow>
     anchor_at files n (case map_of kv (anchor_key en) of None \<Rightarrow> Undumped | Some d \<Rightarrow> ei_parse en d) \<and>
     (\<forall>q < n. dumped_path en files q \<in> set fs)"

definition ei_avail :: "'v ei_manager \<Rightarrow> nat" where
  "ei_avail s =
     (case ei_anchor s of Some (Dumped l) \<Rightarrow> nat (ld_process_index l + 1) | _ \<Rightarrow> 0)"

definition ei_handed ::
    "'v ei_env \<Rightarrow> (nat \<Rightarrow> 'i list) \<Rightarrow> nat \<Rightarrow> 'v ei_manager \<Rightarrow> nat \<Rightarrow> bool" where
  "ei_handed en files N s n \<longleftrightarrow>
     (\<forall>q. files q \<noteq> []) \<and> ei_visit_only s \<and> ids_dumped en files (ei_kv s) (ei_files s) N \<and>
     imm_index_metas s = map (meta_of files (dumped_path en files)) [0..<n] \<and>
     n \<le> ei_avail s \<and> ei_avail s \<le> N \<and>
     (\<exists>a. ei_anchor s = Some a \<and> anchor_at files (ei_avail s) a)"

lemma anchor_at_avail:
  "ei_anchor s = Some a \<Longrightarrow> anchor_at files n a \<Longrightarrow> ei_avail s = n"
  by (auto simp: anchor_at_def ei_avail_def split: if_splits)

lemma file_start_less:
  assumes "\<forall>q. files q \<noteq> []"
  shows "file_start files p < file_start files q \<longleftrightarrow> p < q"
proof (rule file_start_less_iff)
  show "readable (\<lambda>s. (files (length s), None)) files (\<lambda>q. replicate q CHR ''x'')"
    using assms by (simp add: readable_def)
qed

lemma check_index_dumped_iff:
  assumes "ei_handed en files N s n"
  shows "check_index_dumped (file_start files k) s \<longleftrightarrow> k < ei_avail s"
proof -
  obtain a where a: "ei_anchor s = Some a" "anchor_at files (ei_avail s) a"
    using assms by (auto simp: ei_handed_def)
  have ne: "\<forall>q. files q \<noteq> []" using assms by (simp add: ei_handed_def)
  show ?thesis
  proof (cases "ei_avail s = 0")
    case False
    then obtain l where "a = Dumped l" "ld_end_index l = file_start files (ei_avail s) - 1"
      using a(2) by (auto simp: anchor_at_def)
    then show ?thesis using a(1) file_start_less [OF ne, of k "ei_avail s"]
      by (auto simp: check_index_dumped_def)
  qed (use a in \<open>simp add: anchor_at_def check_index_dumped_def\<close>)
qed

section \<open>The manager meets the contract\<close>

lemma ei_new_index_meta_handed:
  assumes "ei_handed en files N s n"
  shows "ei_new_index_meta en (int n) (file_start files n) s =
    (Inr (if n < ei_avail s then Some (meta_of files (dumped_path en files) n) else None), s)"
proof -
  have "n < ei_avail s \<Longrightarrow> dumped_path en files n \<in> set (ei_files s)"
    using assms by (simp add: ei_handed_def ids_dumped_def)
  moreover have "ei_visit_only s" "ei_anchor s \<noteq> None" using assms by (auto simp: ei_handed_def)
  ultimately show ?thesis
    using check_index_dumped_iff [OF assms, of n]
    by (simp add: ei_new_index_meta_def sx_assert_def Let_def meta_of_def dumped_path_def)
qed

interpretation example_ids: index_source "ei_gim en" ei_avail "ei_handed en files N" files
    "dumped_path en files"
  for en files N
proof (unfold_locales)
  fix s n assume h: "ei_handed en files N s n" and n: "n < ei_avail s"
  have metas: "imm_index_metas s = map (meta_of files (dumped_path en files)) [0..<n]"
    using h by (simp add: ei_handed_def)
  let ?s = "s\<lparr>imm_index_metas := imm_index_metas s @ [meta_of files (dumped_path en files) n]\<rparr>"
  have "ei_gim en (int n) (file_start files n) s =
      (Inr (Some (meta_of files (dumped_path en files) n)), ?s)"
    using n metas by (simp add: ei_gim_def get_next_meta [OF metas] sx_bind_def
        ei_new_index_meta_handed [OF h] nth_append)
  moreover have "ei_avail ?s = ei_avail s" by (simp add: ei_avail_def)
  moreover have "ei_handed en files N ?s (Suc n)"
    using h n \<open>ei_avail ?s = _\<close> by (simp add: ei_handed_def)
  ultimately show "\<exists>m'. ei_gim en (int n) (file_start files n) s =
        (Inr (Some (meta_of files (dumped_path en files) n)), m') \<and>
      ei_handed en files N m' (Suc n) \<and> ei_avail m' = ei_avail s" by blast
next
  fix s n assume h: "ei_handed en files N s n" and n: "\<not> n < ei_avail s"
  have metas: "imm_index_metas s = map (meta_of files (dumped_path en files)) [0..<n]"
    using h by (simp add: ei_handed_def)
  have "ei_gim en (int n) (file_start files n) s = (Inr None, s)"
    using n by (simp add: ei_gim_def get_next_meta [OF metas] sx_bind_def
        ei_new_index_meta_handed [OF h])
  then show "\<exists>m'. ei_gim en (int n) (file_start files n) s = (Inr None, m') \<and>
      ei_handed en files N m' n \<and> ei_avail m' = ei_avail s" using h by auto
next
  fix s n assume "ei_handed en files N s n"
  then show "n \<le> ei_avail s" by (simp add: ei_handed_def)
qed

section \<open>Reading while ids are dumped\<close>

text \<open>Another process dumps the next file and moves the anchor.\<close>

datatype ei_op = Dump_file last_dumped | Activate | Visit visitor_op

definition dump_file :: "'v ei_env \<Rightarrow> last_dumped \<Rightarrow> 'v ei_manager \<Rightarrow> 'v ei_manager" where
  "dump_file en l s =
     s\<lparr>ei_kv := AList.update (anchor_key en) (ei_print en (Dumped l)) (ei_kv s),
       ei_files := ld_file_path l # ei_files s\<rparr>"

fun ei_exec ::
    "'v ei_env \<Rightarrow> ('i, 'v ei_manager) visitor_env \<Rightarrow> ei_op \<Rightarrow>
     ('i, 'v ei_manager, (int \<times> 'i) option) vx" where
  "ei_exec en ve (Dump_file l) =
     sx_bind (sx_modify (\<lambda>v. v\<lparr>v_manager := dump_file en l (v_manager v)\<rparr>)) (\<lambda>_. sx_return None)"
| "ei_exec en ve Activate = sx_bind (ei_active_visitor en) (\<lambda>_. sx_return None)"
| "ei_exec en ve (Visit op) = visitor_exec ve op"

text \<open>
  The cursor: how many files are dumped, whether it has been told where they end, how many it
  knows, and the cursor itself.
\<close>

fun bounded_exec ::
    "(nat \<Rightarrow> 'i list) \<Rightarrow> ei_op \<Rightarrow> (nat \<times> bool \<times> nat \<times> cursor, (int \<times> 'i) option) sx" where
  "bounded_exec files (Dump_file l) (n, b, k, c) = (Inr None, Suc n, b, k, c)"
| "bounded_exec files Activate (n, b, k, c) =
     (Inr None, if 0 < n \<and> (\<not> b \<or> k < n) then (n, True, n, c\<lparr>cu_finished := False\<rparr>) else (n, b, k, c))"
| "bounded_exec files (Visit op) (n, b, k, c) =
     (case cursor_exec b (file_start files k) op c of
        (r, c1) \<Rightarrow> (map_sum id (map_option (with_item files k)) r, n, b, k, c1))"

definition next_dump :: "'v ei_env \<Rightarrow> (nat \<Rightarrow> 'i list) \<Rightarrow> nat \<Rightarrow> last_dumped" where
  "next_dump en files n =
     \<lparr>ld_file_path = dumped_path en files n, ld_start_index = file_start files n,
      ld_end_index = file_start files (Suc n) - 1, ld_process_index = int n\<rparr>"

fun dumps_ok :: "'v ei_env \<Rightarrow> (nat \<Rightarrow> 'i list) \<Rightarrow> nat \<Rightarrow> ei_op list \<Rightarrow> bool" where
  "dumps_ok en files n [] \<longleftrightarrow> True"
| "dumps_ok en files n (Dump_file l # ops) \<longleftrightarrow>
     l = next_dump en files n \<and> dumps_ok en files (Suc n) ops"
| "dumps_ok en files n (Activate # ops) \<longleftrightarrow> dumps_ok en files n ops"
| "dumps_ok en files n (Visit op # ops) \<longleftrightarrow> dumps_ok en files n ops"

definition ei_codec_ok :: "'v ei_env \<Rightarrow> bool" where
  "ei_codec_ok en \<longleftrightarrow> (\<forall>a. ei_parse en (ei_print en a) = a)"

lemma dump_file_handed:
  assumes "ei_handed en files N s n" "ei_codec_ok en"
  shows "ei_handed en files (Suc N) (dump_file en (next_dump en files N) s) n"
proof -
  let ?s = "dump_file en (next_dump en files N) s"
  have "anchor_at files (Suc N) (Dumped (next_dump en files N))"
    by (simp add: anchor_at_def next_dump_def)
  moreover have "ei_parse en (ei_print en a) = a" for a using assms(2) by (simp add: ei_codec_ok_def)
  ultimately have "ids_dumped en files (ei_kv ?s) (ei_files ?s) (Suc N)"
    using assms(1)
    by (auto simp: ei_handed_def ids_dumped_def dump_file_def next_dump_def update_conv' less_Suc_eq)
  moreover have "ei_avail ?s = ei_avail s" by (simp add: ei_avail_def dump_file_def)
  ultimately show ?thesis using assms(1) unfolding ei_handed_def by (simp add: dump_file_def)
qed


lemma dump_tracks:
  assumes t: "tracks ei_avail (ei_handed en files N) files (dumped_path en files) b k k v c"
    and codec: "ei_codec_ok en"
  shows "tracks ei_avail (ei_handed en files (Suc N)) files (dumped_path en files) b k k
     (v\<lparr>v_manager := dump_file en (next_dump en files N) (v_manager v)\<rparr>) c"
proof -
  obtain pos n where pos: "visits (ei_handed en files N) files (dumped_path en files) v pos n"
      "placed files k pos (cu_pos c)"
    using t by (auto simp: tracks_def)
  then have h: "ei_handed en files N (v_manager v) n" by (simp add: visits_def)
  let ?s = "dump_file en (next_dump en files N) (v_manager v)"
  have "visits (ei_handed en files (Suc N)) files (dumped_path en files) (v\<lparr>v_manager := ?s\<rparr>) pos n"
    by (rule visits_manager, rule pos(1), rule dump_file_handed [OF h codec])
  moreover have "ei_avail ?s = ei_avail (v_manager v)" by (simp add: ei_avail_def dump_file_def)
  ultimately show ?thesis using t pos(2) unfolding tracks_def by auto
qed

text \<open>Made active, the visitor reads the anchor and takes it for the end.\<close>

lemma sync_anchor_handed:
  assumes h: "ei_handed en files N s n"
  shows "\<exists>a s'. sync_dumped_example_id_anchor en s = (Inr a, s') \<and> anchor_at files N a \<and>
    ei_handed en files N s' n \<and> ei_avail s' = N"
proof -
  let ?a = "case map_of (ei_kv s) (anchor_key en) of None \<Rightarrow> Undumped | Some d \<Rightarrow> ei_parse en d"
  let ?s = "s\<lparr>ei_anchor := Some ?a\<rparr>"
  have a: "anchor_at files N ?a" using h by (simp add: ei_handed_def ids_dumped_def)
  then have av: "ei_avail ?s = N" by (intro anchor_at_avail [where a = ?a]) simp_all
  have "sync_dumped_example_id_anchor en s = (Inr ?a, ?s)"
    using h by (simp add: ei_handed_def sync_dumped_example_id_anchor_def)
  moreover have "ei_handed en files N ?s n"
    using h a av unfolding ei_handed_def by (simp add: ids_dumped_def)
  ultimately show ?thesis using a av by blast
qed

lemma activate_tracks:
  assumes t: "tracks ei_avail (ei_handed en files N) files (dumped_path en files) b k k v c"
  shows "\<exists>v'. ei_active_visitor en v = (Inr (), v') \<and>
    (if 0 < N \<and> (\<not> b \<or> k < N)
     then tracks ei_avail (ei_handed en files N) files (dumped_path en files) True N N v'
            (c\<lparr>cu_finished := False\<rparr>)
     else tracks ei_avail (ei_handed en files N) files (dumped_path en files) b k k v' c)"
proof -
  let ?tr = "tracks ei_avail (ei_handed en files N) files (dumped_path en files)"
  let ?s = "v_manager v"
  obtain pos n where pos: "visits (ei_handed en files N) files (dumped_path en files) v pos n"
      "placed files k pos (cu_pos c)"
    using t by (auto simp: tracks_def)
  have h: "ei_handed en files N ?s n" using pos(1) by (simp add: visits_def)
  have k: "ei_avail ?s = k" "k \<le> N" using t h by (simp_all add: tracks_def ei_handed_def)
  have ne: "\<forall>q. files q \<noteq> []" using h by (simp add: ei_handed_def)
  obtain a s' where s': "sync_dumped_example_id_anchor en ?s = (Inr a, s')" "anchor_at files N a"
      "ei_handed en files N s' n" "ei_avail s' = N"
    using sync_anchor_handed [OF h] by blast
  let ?v = "v\<lparr>v_manager := s'\<rparr>"
  have vis: "visits (ei_handed en files N) files (dumped_path en files) ?v pos n"
    by (rule visits_manager, rule pos(1), rule s'(3))
  have ask: "ask_manager (get_last_dumped_index en) v =
      (Inr (case a of Dumped l \<Rightarrow> Some (ld_end_index l) | _ \<Rightarrow> None), ?v)"
    using s'(1) by (simp add: ask_manager_def get_last_dumped_index_def sx_bind_def)
  have mono: "file_start files k \<le> file_start files N" using k(2) by (rule file_start_mono)
  have pl: "placed files N pos (cu_pos c)"
    using pos(2) k(2) by (auto simp: placed_def split: option.splits)
  show ?thesis
  proof (cases "0 < N")
    case False
    then have "a = Undumped" using s'(2) by (simp add: anchor_at_def)
    then have "ei_active_visitor en v = (Inr (), ?v)"
      using ask by (simp add: ei_active_visitor_def sx_bind_def)
    moreover have "?tr b k k ?v c"
      using t vis pos(2) s'(4) k False unfolding tracks_def by auto
    ultimately show ?thesis using False by auto
  next
    case True
    then obtain l where l: "a = Dumped l" "ld_end_index l = file_start files N - 1"
      using s'(2) by (auto simp: anchor_at_def)
    have e: "v_end_index v = (if b then Some (file_start files k - 1) else None)"
      using t by (auto simp: tracks_def)
    have stale: "v_end_index v = None \<or> the (v_end_index v) < ld_end_index l \<longleftrightarrow> \<not> b \<or> k < N"
      using e l(2) file_start_less [OF ne, of k N] by auto
    have act: "ei_active_visitor en v = (Inr (), if \<not> b \<or> k < N
        then (set_end_index (ld_end_index l) ?v)\<lparr>v_finished := False\<rparr> else ?v)"
      using ask l(1) stale unfolding ei_active_visitor_def by (simp add: sx_bind_def)
    show ?thesis
    proof (cases "\<not> b \<or> k < N")
      case False
      then have "?tr b k k ?v c" using t vis pos(2) s'(4) k unfolding tracks_def by auto
      then show ?thesis using act False by auto
    next
      case upd: True
      let ?w = "(set_end_index (ld_end_index l) ?v)\<lparr>v_finished := False\<rparr>"
      have "visits (ei_handed en files N) files (dumped_path en files) ?w pos n"
        using vis by (cases pos) (auto simp: visits_def set_end_index_def)
      then have "?tr True N N ?w (c\<lparr>cu_finished := False\<rparr>)"
        using t pl s'(4) mono l(2) unfolding tracks_def
        by (auto simp: set_end_index_def intro: less_le_trans)
      then show ?thesis using act upd True by auto
    qed
  qed
qed

lemma ei_session_tracks:
  assumes r: "readable (ve_disk ve) files (dumped_path en files)" and g: "ve_gim ve = ei_gim en"
    and codec: "ei_codec_ok en"
  shows "tracks ei_avail (ei_handed en files N) files (dumped_path en files) b k k v c \<Longrightarrow>
    dumps_ok en files N ops \<Longrightarrow> N + length ops < ve_depth ve \<Longrightarrow>
    outcomes (ei_exec en ve) ops v = outcomes (bounded_exec files) ops (N, b, k, c)"
proof (induction ops arbitrary: N b k v c)
  case (Cons op ops)
  show ?case
  proof (cases op)
    case (Dump_file l)
    then have l: "l = next_dump en files N" using Cons.prems(2) by simp
    let ?v = "v\<lparr>v_manager := dump_file en l (v_manager v)\<rparr>"
    have "outcomes (ei_exec en ve) ops ?v = outcomes (bounded_exec files) ops (Suc N, b, k, c)"
      using Cons.IH [OF dump_tracks [OF Cons.prems(1) codec]] Cons.prems Dump_file l by simp
    then show ?thesis using Dump_file by simp
  next
    case Activate
    let ?c = "0 < N \<and> (\<not> b \<or> k < N)"
    obtain v' where v': "ei_active_visitor en v = (Inr (), v')"
        "if ?c then tracks ei_avail (ei_handed en files N) files (dumped_path en files) True N N v'
            (c\<lparr>cu_finished := False\<rparr>)
         else tracks ei_avail (ei_handed en files N) files (dumped_path en files) b k k v' c"
      using activate_tracks [OF Cons.prems(1)] by blast
    have "outcomes (ei_exec en ve) ops v' = outcomes (bounded_exec files) ops
        (if ?c then (N, True, N, c\<lparr>cu_finished := False\<rparr>) else (N, b, k, c))"
      using Cons.IH Cons.prems v'(2) Activate by (cases ?c) auto
    then show ?thesis using Activate v'(1) by (simp add: sx_bind_def)
  next
    case (Visit vop)
    have "k \<le> N" using Cons.prems(1) by (auto simp: tracks_def visits_def ei_handed_def)
    then have "k < ve_depth ve" using Cons.prems(3) by simp
    from example_ids.exec_follows [OF r g this Cons.prems(1), of vop]
    obtain v' where v': "visitor_exec ve vop v = (map_sum id (map_option (with_item files k))
          (fst (cursor_exec b (file_start files k) vop c)), v')"
        "tracks ei_avail (ei_handed en files N) files (dumped_path en files) b k k v'
          (snd (cursor_exec b (file_start files k) vop c))"
      by blast
    have "outcomes (ei_exec en ve) ops v' = outcomes (bounded_exec files) ops
        (N, b, k, snd (cursor_exec b (file_start files k) vop c))"
      using Cons.IH [OF v'(2)] Cons.prems Visit by simp
    then show ?thesis using Visit v'(1) by (simp split: prod.split)
  qed
qed simp


section \<open>Starting up\<close>

text \<open>What lies in the directory are dumped files; there may be one beyond the anchor.\<close>

definition listing_ok :: "(nat \<Rightarrow> 'i list) \<Rightarrow> string list \<Rightarrow> bool" where
  "listing_ok files listing \<longleftrightarrow>
     (\<forall>f \<in> set listing. suffix ''.done'' f \<longrightarrow>
        (\<exists>q. f = encode_example_id_dumped_fname (int q) (file_start files q)))"

lemma dumped_fname_no_slash: "CHR ''/'' \<notin> set (encode_example_id_dumped_fname p k)"
  by (simp add: encode_example_id_dumped_fname_def fmt_int_not_in)

lemma dumped_fname_ne: "encode_example_id_dumped_fname p k \<noteq> []"
  by (simp add: encode_example_id_dumped_fname_def)

lemma base_name_join:
  assumes "CHR ''/'' \<notin> set f"
  shows "base_name (path_join d f) = f"
proof -
  have "\<not> prefix ''/'' f" using assms by (cases f) auto
  moreover have "base_name (d @ f) = f" if "suffix ''/'' d"
    using that base_name_append [OF assms] by (auto simp: suffix_def)
  moreover have "base_name f = f"
  proof -
    have "takeWhile (\<lambda>c. c \<noteq> CHR ''/'') (rev f) = rev f"
      using assms by (auto simp: takeWhile_eq_all_conv)
    then show ?thesis unfolding base_name_def by (simp only: rev_rev_ident)
  qed
  moreover have "base_name (d @ ''/'' @ f) = f" using base_name_append [OF assms] by simp
  ultimately show ?thesis by (auto simp: path_join_def)
qed

lemma decode_dumped_path:
  "decode_file (path_join (ei_dumped_dir en) (encode_example_id_dumped_fname (int q) (file_start files q))) =
     Inr (meta_of files (dumped_path en files) q)"
  by (simp add: decode_file_def base_name_join [OF dumped_fname_no_slash] dumped_fname_roundtrip
      meta_of_def dumped_path_def)

lemma sorted_index_metas_of:
  assumes "sorted_index_metas xs = Inr ms" "\<forall>x \<in> set xs. \<exists>q. x = meta_of files path q"
  shows "ms = map (meta_of files path) [0..<length ms]"
proof (rule nth_equalityI)
  have ms: "ms = sort_key im_start_index xs" "\<forall>k < length ms. im_process_index (ms ! k) = int k"
    using assms(1) by (auto simp: sorted_index_metas_def Let_def split: if_splits)
  fix k assume k: "k < length ms"
  then have "ms ! k \<in> set xs" using nth_mem [OF k] by (simp add: ms(1))
  then obtain q where "ms ! k = meta_of files path q" using assms(2) by blast
  then show "ms ! k = map (meta_of files path) [0..<length ms] ! k"
    using ms(2) k by auto
qed simp

lemma new_example_id_manager_handed:
  assumes ids: "ids_dumped en files kv fs n" and ls: "listing_ok files listing"
    and ne: "\<forall>q. files q \<noteq> []" and new: "new_example_id_manager en True listing kv fs = Inr s"
  shows "ei_handed en files n s (length (imm_index_metas s)) \<and> ei_avail s = n"
proof -
  let ?names = "filter (suffix ''.done'') listing" and ?mo = "meta_of files (dumped_path en files)"
  obtain xs pre ms where xs: "traverse decode_file (map (path_join (ei_dumped_dir en)) ?names) = Inr xs"
      "sorted_index_metas xs = Inr pre" "sorted_index_metas pre = Inr ms"
    using new by (auto simp: new_example_id_manager_def preload_example_id_meta_def bind_result_Inr_iff)
  have mem: "\<exists>q. x = ?mo q" if prem: "x \<in> set xs" for x
  proof -
    obtain f where f: "f \<in> set ?names" "decode_file (path_join (ei_dumped_dir en) f) = Inr x"
      using traverse_mem [OF xs(1) prem] by auto
    then obtain q where "f = encode_example_id_dumped_fname (int q) (file_start files q)"
      using ls by (auto simp: listing_ok_def)
    then show ?thesis using f(2) decode_dumped_path [of en q files] by auto
  qed
  have "\<forall>x \<in> set pre. \<exists>q. x = ?mo q"
    using sorted_index_metas_of [OF xs(2)] mem by (metis ex_map_conv)
  then have ms: "ms = map ?mo [0..<length ms]" by (rule sorted_index_metas_of [OF xs(3)])
  let ?a = "case map_of kv (anchor_key en) of None \<Rightarrow> Undumped | Some d \<Rightarrow> ei_parse en d"
  have a: "anchor_at files n ?a" using ids by (simp add: ids_dumped_def)
  define k where "k = (if n = 0 then 0 else min n (length ms))"
  have sl: "(if ?a = Undumped then [] else slice_to (ld_process_index (last_meta ?a) + 1) ms) =
      map ?mo [0..<k]"
  proof (cases "n = 0")
    case False
    then have "?a \<noteq> Undumped" "ld_process_index (last_meta ?a) + 1 = int n"
      using a by (auto simp: anchor_at_def last_meta_def)
    moreover have "take n ms = map ?mo [0..<min n (length ms)]"
      using arg_cong [where f = "take n", OF ms] by (simp add: take_map min_def)
    ultimately show ?thesis using False by (simp add: slice_to_def k_def)
  qed (use a in \<open>simp add: anchor_at_def k_def\<close>)
  have s: "s = \<lparr>imm_index_metas = map ?mo [0..<k], ei_anchor = Some ?a, ei_visit_only = True,
      ei_kv = kv, ei_files = fs\<rparr>"
    using new xs sl by (simp add: new_example_id_manager_def preload_example_id_meta_def
        sync_dumped_example_id_anchor_def sx_bind_def Let_def cong: if_cong)
  have av: "ei_avail s = n" by (rule anchor_at_avail [OF _ a]) (simp add: s)
  have "k \<le> n" by (simp add: k_def)
  then show ?thesis using av a ids ne by (simp add: ei_handed_def s)
qed

section \<open>Properties\<close>

text \<open>
  C33. An example id visitor over a directory and an anchor that agree is a cursor over the example
  ids of the dumped files up to the anchor it last read: in whatever order it is asked for the next
  id, for an id by its index or to start over, and files are dumped by another process
  and it is made active, it returns exactly the ids and indices of the cursor, and never one
  from a file beyond the anchor.
\<close>

theorem example_id_visitor_reads:
  assumes "readable (ve_disk ve) files (dumped_path en files)" and "ve_gim ve = ei_gim en"
    and "ei_codec_ok en" and "ids_dumped en files kv fs n" and "listing_ok files listing"
    and "new_example_id_visitor en listing kv fs = Inr v"
    and "dumps_ok en files n ops" and "n + length ops < ve_depth ve"
  shows "outcomes (ei_exec en ve) ops v =
    outcomes (bounded_exec files) ops (n, False, n, start_cursor)"
proof -
  obtain s where s: "new_example_id_manager en True listing kv fs = Inr s"
      "new_visitor s (imm_index_metas s) = Inr v"
    using assms(6) by (auto simp: new_example_id_visitor_def bind_result_Inr_iff)
  have ne: "\<forall>q. files q \<noteq> []" using assms(1) by (simp add: readable_def)
  note h = new_example_id_manager_handed [OF assms(4,5) ne s(1)]
  have "imm_index_metas s = map (meta_of files (dumped_path en files)) [0..<length (imm_index_metas s)]"
    using h by (simp add: ei_handed_def)
  then have "tracks ei_avail (ei_handed en files n) files (dumped_path en files) False n n v start_cursor"
    using new_visitor_tracks [where handed = "ei_handed en files n" and avail = ei_avail,
        OF conjunct1 [OF h] conjunct2 [OF h]] s(2) by metis
  then show ?thesis by (rule ei_session_tracks [OF assms(1-3) _ assms(7,8)])
qed

text \<open>
  The anchor of a partition only moves forward and without a gap in the files: when
  \<open>update_dumped_example_id_anchor\<close> succeeds, the file exists under the name its indices encode, it is
  the next one after the anchor in the store or, if there is none, the first, it starts behind
  the ids dumped so far, and the store then holds its end. When the update fails
  the store is as before.
\<close>

theorem anchor_moves_forward:
  assumes "ei_visit_only s \<or> ei_anchor s = None \<or>
      ei_anchor s = Some (case map_of (ei_kv s) (anchor_key en) of None \<Rightarrow> Undumped | Some d \<Rightarrow> ei_parse en d)"
    and "ei_codec_ok en"
    and "update_dumped_example_id_anchor en written im end_index s = (r, s')"
  shows "(case r of
      Inl e \<Rightarrow> ei_kv s' = ei_kv s \<and> (e = ValueError \<or> e = RuntimeError)
    | Inr _ \<Rightarrow>
        map_option (ei_parse en) (map_of (ei_kv s') (anchor_key en)) =
          Some (Dumped \<lparr>ld_file_path = im_fpath im, ld_start_index = im_start_index im,
            ld_end_index = end_index, ld_process_index = im_process_index im\<rparr>) \<and>
        im_fpath im \<in> set (ei_files s) \<and>
        base_name (im_fpath im) = encode_example_id_dumped_fname (im_process_index im) (im_start_index im) \<and>
        im_start_index im \<le> end_index \<and>
        (case map_option (ei_parse en) (map_of (ei_kv s) (anchor_key en)) of
           None \<Rightarrow> im_process_index im = 0 \<and> im_start_index im = 0
         | Some Undumped \<Rightarrow> im_process_index im = 0 \<and> im_start_index im = 0
         | Some a \<Rightarrow> im_process_index im = ld_process_index (last_meta a) + 1 \<and>
             ld_end_index (last_meta a) < im_start_index im))"
  using assms
  by (auto simp: update_dumped_example_id_anchor_def check_dumped_file_def check_follows_anchor_def
      sync_dumped_example_id_anchor_def sx_bind_def ei_codec_ok_def update_conv' Let_def
      split: if_splits option.splits anchor.splits)


subsection \<open>Witnesses\<close>

text \<open>Two ids in each file; the first file is dumped, and its successor lies there already.\<close>

definition wd_env :: "anchor ei_env" where
  "wd_env = \<lparr>ei_name = ''ds'', ei_partition = 0, ei_dumped_dir = ''d'', ei_print = (\<lambda>a. a),
     ei_parse = (\<lambda>a. a)\<rparr>"

definition wd_ids :: "nat \<Rightarrow> nat list" where
  "wd_ids q = [10 * q, 10 * q + 1]"

definition wd_listing :: "string list" where
  "wd_listing = [encode_example_id_dumped_fname 0 0, encode_example_id_dumped_fname 1 2, ''x'']"

definition wd_kv :: "(string \<times> anchor) list" where
  "wd_kv = [(anchor_key wd_env, Dumped (next_dump wd_env wd_ids 0))]"

definition wd_visitor_env :: "(nat, anchor ei_manager) visitor_env" where
  "wd_visitor_env =
     \<lparr>ve_disk = (\<lambda>s. case decode_file s of
          Inl e \<Rightarrow> ([], Some e) | Inr im \<Rightarrow> (wd_ids (nat (im_process_index im)), None)),
      ve_gim = ei_gim wd_env, ve_depth = 20\<rparr>"

definition wd_ops :: "ei_op list" where
  "wd_ops = [Visit (VSeek 1), Visit VNext, Activate, Visit VNext,
     Dump_file (next_dump wd_env wd_ids 1), Visit (VSeek 2), Activate, Visit VNext, Visit (VSeek 0)]"

lemma wd_visitor:
  "\<exists>v :: (nat, anchor ei_manager) visitor.
     new_example_id_visitor wd_env wd_listing wd_kv [dumped_path wd_env wd_ids 0] = Inr v"
proof -
  have "case new_example_id_visitor wd_env wd_listing wd_kv [dumped_path wd_env wd_ids 0] of
      Inl _ \<Rightarrow> False | Inr (_ :: (nat, anchor ei_manager) visitor) \<Rightarrow> True"
    by code_simp
  then show ?thesis by (simp split: sum.splits)
qed

theorem example_id_visitor_reads_witness:
  "\<exists>v :: (nat, anchor ei_manager) visitor.
     new_example_id_visitor wd_env wd_listing wd_kv [dumped_path wd_env wd_ids 0] = Inr v \<and>
     outcomes (ei_exec wd_env wd_visitor_env) wd_ops v =
       [Inr (Some (1, 1)), Inl StopIteration, Inr None, Inl StopIteration, Inr None,
        Inl StopIteration, Inr None, Inr (Some (2, 10)), Inr (Some (0, 0))]"
proof -
  obtain v :: "(nat, anchor ei_manager) visitor" where
    v: "new_example_id_visitor wd_env wd_listing wd_kv [dumped_path wd_env wd_ids 0] = Inr v"
    using wd_visitor by blast
  have "decode_file (dumped_path wd_env wd_ids q) = Inr (meta_of wd_ids (dumped_path wd_env wd_ids) q)" for q
    using decode_dumped_path [of wd_env q wd_ids] by (simp add: dumped_path_def)
  then have "readable (ve_disk wd_visitor_env) wd_ids (dumped_path wd_env wd_ids)"
    by (simp add: readable_def wd_visitor_env_def wd_ids_def)
  moreover have "ve_gim wd_visitor_env = ei_gim wd_env" by (simp add: wd_visitor_env_def)
  moreover have "ei_codec_ok wd_env" by (simp add: ei_codec_ok_def wd_env_def)
  moreover have "ids_dumped wd_env wd_ids wd_kv [dumped_path wd_env wd_ids 0] 1"
    by (simp add: ids_dumped_def wd_kv_def anchor_at_def next_dump_def)
      (simp add: wd_env_def)
  moreover have "listing_ok wd_ids wd_listing"
    unfolding listing_ok_def wd_listing_def
    by (auto simp: suffix_def wd_ids_def intro: exI [of _ "0::nat"] exI [of _ "1::nat"])
  moreover have "dumps_ok wd_env wd_ids 1 wd_ops" by (simp add: wd_ops_def)
  moreover have "1 + length wd_ops < ve_depth wd_visitor_env"
    by (simp add: wd_ops_def wd_visitor_env_def)
  ultimately have "outcomes (ei_exec wd_env wd_visitor_env) wd_ops v =
      outcomes (bounded_exec wd_ids) wd_ops (1, False, 1, start_cursor)"
    using example_id_visitor_reads v by blast
  also have "\<dots> = [Inr (Some (1, 1)), Inl StopIteration, Inr None, Inl StopIteration, Inr None,
        Inl StopIteration, Inr None, Inr (Some (2, 10)), Inr (Some (0, 0))]"
    by code_simp
  finally show ?thesis using v by blast
qed

definition wd_dumper :: "anchor ei_manager" where
  "wd_dumper = \<lparr>imm_index_metas = [], ei_anchor = None, ei_visit_only = False, ei_kv = wd_kv,
     ei_files = [dumped_path wd_env wd_ids 1]\<rparr>"

definition wd_update :: "unit result \<times> anchor ei_manager" where
  "wd_update = update_dumped_example_id_anchor wd_env True (meta_of wd_ids (dumped_path wd_env wd_ids) 1) 3
     wd_dumper"

theorem anchor_moves_forward_witness:
  "map_of (ei_kv (snd wd_update)) (anchor_key wd_env) =
     Some (Dumped \<lparr>ld_file_path = dumped_path wd_env wd_ids 1, ld_start_index = 2, ld_end_index = 3,
       ld_process_index = 1\<rparr>) \<and> fst wd_update = Inr ()"
proof -
  have r: "fst wd_update = Inr ()" by code_simp
  have u: "update_dumped_example_id_anchor wd_env True (meta_of wd_ids (dumped_path wd_env wd_ids) 1) 3
      wd_dumper = (fst wd_update, snd wd_update)"
    by (simp add: wd_update_def)
  have c: "ei_codec_ok wd_env" and p: "ei_parse wd_env = (\<lambda>a. a)"
    by (simp_all add: ei_codec_ok_def wd_env_def)
  have "file_start wd_ids 1 = 2" by (simp add: wd_ids_def)
  then show ?thesis
    using anchor_moves_forward [OF _ c u] r p by (simp add: wd_dumper_def option.map_ident)
qed

end
