(* ===== verification/Raw_Data_Visitor.thy ===== *)
theory Raw_Data_Visitor
  imports Visitor Manifest
begin

text \<open>
  The raw data visitor of a partition (\<open>data_join/raw_data_visitor.py\<close>).

  Its manager reads the manifest and the metas that the raw data manifest manager
  (\<open>Manifest\<close>) has put into the kv store, and gives a file its start index when the visitor
  first gets to it, with a compare-and-set, so that several workers agree on the numbering.
  The store is the association list of \<open>Manifest\<close>; other processes write to it between
  the calls.
\<close>

section \<open>The manager\<close>

record 'v rd_manager = index_meta_manager +
  rd_manifest :: manifest
  rd_all_metas :: "(int \<times> raw_data_meta) list"
  rd_kv :: "(string \<times> 'v) list"

definition sync_raw_data_meta ::
    "'v mg_env \<Rightarrow> int \<Rightarrow> int \<Rightarrow> 'v rd_manager \<Rightarrow> raw_data_meta option" where
  "sync_raw_data_meta en p i s =
     map_option (parse_meta (en_codec en)) (map_of (rd_kv s) (meta_key en p i))"

definition sync_raw_data_manifest :: "'v mg_env \<Rightarrow> int \<Rightarrow> (string \<times> 'v) list \<Rightarrow> manifest result" where
  "sync_raw_data_manifest en p kv =
     (case map_of kv (manifest_key en p) of
        None \<Rightarrow> Inl AssertionError
      | Some d \<Rightarrow> Inr (parse_manifest (en_codec en) d))"

text \<open>\<open>get_prefix_kvs(key, True)\<close>: the entries whose key extends the given one.\<close>

definition prefix_kvs :: "string \<Rightarrow> (string \<times> 'v) list \<Rightarrow> (string \<times> 'v) list" where
  "prefix_kvs pre kv = filter (\<lambda>(k, _). prefix pre k \<and> k \<noteq> pre) kv"

definition preload_entry :: "'v mg_env \<Rightarrow> string \<times> 'v \<Rightarrow> (int \<times> raw_data_meta) list result" where
  "preload_entry en e =
     (let bkey = base_name (fst e) in
      if \<not> prefix ''raw_data_'' bkey then Inr []
      else bind_result (py_int (drop (length ''raw_data_'') bkey)) (\<lambda>i.
           Inr [(i, parse_meta (en_codec en) (snd e))]))"

definition preload_raw_data_meta ::
    "'v mg_env \<Rightarrow> int \<Rightarrow> (string \<times> 'v) list \<Rightarrow> ((int \<times> raw_data_meta) list \<times> index_meta list) result" where
  "preload_raw_data_meta en p kv =
     bind_result (traverse (preload_entry en) (prefix_kvs (manifest_key en p) kv)) (\<lambda>es.
       let metas = concat es;
           index_metas = map (\<lambda>(i, m). \<lparr>im_process_index = i, im_start_index = rm_start_index m,
               im_fpath = rm_file_path m\<rparr>) (filter (\<lambda>(i, m). rm_start_index m \<noteq> - 1) metas);
           all_metas = sort_key fst metas
       in if \<forall>k < length all_metas. fst (all_metas ! k) = int k
          then Inr (all_metas, index_metas) else Inl ProcessExit)"

text \<open>The constructor.\<close>

definition new_raw_data_manager ::
    "'v mg_env \<Rightarrow> int \<Rightarrow> (string \<times> 'v) list \<Rightarrow> 'v rd_manager result" where
  "new_raw_data_manager en p kv =
     bind_result (sync_raw_data_manifest en p kv) (\<lambda>manifest.
     bind_result (preload_raw_data_meta en p kv) (\<lambda>(all_metas, index_metas).
     bind_result (sorted_index_metas (slice_to (mf_next_process_index manifest) index_metas)) (\<lambda>metas.
       Inr \<lparr>imm_index_metas = metas, rd_manifest = manifest, rd_all_metas = all_metas,
            rd_kv = kv\<rparr>)))"

text \<open>\<open>check_index_meta_by_process_index\<close>\<close>

definition rd_check_index_meta :: "'v mg_env \<Rightarrow> int \<Rightarrow> int \<Rightarrow> ('v rd_manager, bool) sx" where
  "rd_check_index_meta en p process_index =
     (if process_index < 0 then sx_raise IndexError
      else sx_bind sx_get (\<lambda>s.
        case sync_raw_data_manifest en p (rd_kv s) of
          Inl e \<Rightarrow> sx_raise e
        | Inr m \<Rightarrow>
            sx_bind (sx_modify (\<lambda>s. s\<lparr>rd_manifest := m\<rparr>)) (\<lambda>_.
              sx_return (mf_next_process_index m > process_index))))"

definition rd_cas :: "string \<Rightarrow> 'v \<Rightarrow> 'v \<Rightarrow> ('v rd_manager, bool) sx" where
  "rd_cas key old new s =
     (if map_of (rd_kv s) key = Some old
      then (Inr True, s\<lparr>rd_kv := AList.update key new (rd_kv s)\<rparr>) else (Inr False, s))"

text \<open>The first part of \<open>_new_index_meta\<close>: the meta, cached or read from the store.\<close>

definition rd_lookup_meta :: "'v mg_env \<Rightarrow> int \<Rightarrow> int \<Rightarrow> ('v rd_manager, raw_data_meta) sx" where
  "rd_lookup_meta en p process_index = sx_bind sx_get (\<lambda>s.
     if process_index < int (length (rd_all_metas s))
     then (case list_at (rd_all_metas s) process_index of
             Inl e \<Rightarrow> sx_raise e
           | Inr im \<Rightarrow>
               sx_bind (sx_assert (process_index = fst im)) (\<lambda>_. sx_return (snd im)))
     else sx_bind (sx_assert (process_index = int (length (rd_all_metas s)))) (\<lambda>_.
          case sync_raw_data_meta en p process_index s of
            None \<Rightarrow> sx_raise ProcessExit
          | Some m \<Rightarrow>
              sx_bind (sx_modify (\<lambda>s. s\<lparr>rd_all_metas := rd_all_metas s @ [(process_index, m)]\<rparr>)) (\<lambda>_.
                sx_return m)))"

text \<open>The second part: a file without a start index gets one; who loses the race must agree.\<close>

definition rd_claim_start ::
    "'v mg_env \<Rightarrow> int \<Rightarrow> int \<Rightarrow> int \<Rightarrow> raw_data_meta \<Rightarrow> ('v rd_manager, raw_data_meta) sx" where
  "rd_claim_start en p process_index start_index m =
     (if rm_start_index m \<noteq> - 1 then sx_return m
      else sx_bind (rd_cas (meta_key en p process_index) (print_meta (en_codec en) m)
             (print_meta (en_codec en) (m\<lparr>rm_start_index := start_index\<rparr>))) (\<lambda>won.
           if won then sx_return m
           else sx_bind sx_get (\<lambda>s.
             case sync_raw_data_meta en p process_index s of
               None \<Rightarrow> sx_raise AssertionError
             | Some m1 \<Rightarrow>
                 if rm_start_index m1 \<noteq> start_index then sx_raise ProcessExit else sx_return m1)))"

definition rd_new_index_meta ::
    "'v mg_env \<Rightarrow> int \<Rightarrow> int \<Rightarrow> int \<Rightarrow> ('v rd_manager, index_meta option) sx" where
  "rd_new_index_meta en p process_index start_index = sx_bind sx_get (\<lambda>s.
     if mf_next_process_index (rd_manifest s) \<le> process_index then sx_return None
     else sx_bind (rd_lookup_meta en p process_index) (\<lambda>m.
          sx_bind (rd_claim_start en p process_index start_index m) (\<lambda>m.
            sx_return (Some \<lparr>im_process_index = process_index, im_start_index = start_index,
              im_fpath = rm_file_path m\<rparr>))))"

section \<open>The visitor\<close>

definition rd_gim :: "'v mg_env \<Rightarrow> int \<Rightarrow> int \<Rightarrow> int \<Rightarrow> ('v rd_manager, index_meta option) sx" where
  "rd_gim en p = get_index_meta_by_index (rd_new_index_meta en p)"

definition new_raw_data_visitor ::
    "'v mg_env \<Rightarrow> int \<Rightarrow> (string \<times> 'v) list \<Rightarrow> ('i, 'v rd_manager) visitor result" where
  "new_raw_data_visitor en p kv =
     bind_result (new_raw_data_manager en p kv) (\<lambda>m. new_visitor m (imm_index_metas m))"

definition rd_active_visitor :: "'v mg_env \<Rightarrow> int \<Rightarrow> ('i, 'v rd_manager, unit) vx" where
  "rd_active_visitor en p =
     sx_bind (is_visitor_stale (rd_check_index_meta en p)) (\<lambda>stale.
       if stale then sx_modify (\<lambda>v. v\<lparr>v_finished := False\<rparr>) else sx_return ())"

text \<open>
  \<open>FileBasedMockRawDataVisitor\<close>: a store of its own, into which a manifest manager puts the
  given files unless that has happened before.
\<close>

definition new_file_based_visitor ::
    "'v mg_env \<Rightarrow> (string \<times> 'v) list \<Rightarrow> bool list \<Rightarrow> string list \<Rightarrow>
     ('i, 'v rd_manager) visitor result \<times> 'v manager" where
  "new_file_based_visitor en kv faults input_fpaths =
     (case sx_bind (new_manager en) (\<lambda>_.
           sx_bind (get_manifest en 0) (\<lambda>m.
             if mf_finished m then sx_return ()
             else sx_bind (add_raw_data en 0
                    (map (\<lambda>f. \<lparr>rm_file_path = f, rm_start_index = - 1, rm_timestamp = (0, 0)\<rparr>)
                       input_fpaths) True) (\<lambda>_. finish_raw_data en 0)))
           (manager_init en kv faults) of
        (Inl e, s) \<Rightarrow> (Inl e, s)
      | (Inr _, s) \<Rightarrow> (new_raw_data_visitor en 0 (mg_kv s), s))"

text \<open>
  \<open>DBBasedMockRawDataVisitor.active_visitor\<close> subscribes what has been published before it
  looks for new files. The manifest manager and the visitor share the store. \<open>None\<close>: the
  subscription does not return.
\<close>

definition db_active_visitor ::
    "'v mg_env \<Rightarrow> int \<Rightarrow> 'v manager \<Rightarrow> ('i, 'v rd_manager) visitor \<Rightarrow>
     (unit result \<times> 'v manager \<times> ('i, 'v rd_manager) visitor) option" where
  "db_active_visitor en p s v =
     (case sub_new_raw_data en (Some p) (s\<lparr>mg_kv := rd_kv (v_manager v)\<rparr>) of
        None \<Rightarrow> None
      | Some (Inl e, s1) \<Rightarrow>
          Some (Inl e, s1, v\<lparr>v_manager := (v_manager v)\<lparr>rd_kv := mg_kv s1\<rparr>\<rparr>)
      | Some (Inr _, s1) \<Rightarrow>
          (case rd_active_visitor en p (v\<lparr>v_manager := (v_manager v)\<lparr>rd_kv := mg_kv s1\<rparr>\<rparr>) of
             (r, v1) \<Rightarrow> Some (r, s1, v1)))"

definition is_input_data_finish :: "'v mg_env \<Rightarrow> int \<Rightarrow> ('v manager, bool) sx" where
  "is_input_data_finish en p =
     sx_bind (get_manifest en p) (\<lambda>m. sx_return (mf_finished m))"


section \<open>A store that holds a partition\<close>

text \<open>
  \<open>path q\<close> is the path of file \<open>q\<close>; \<open>meta_for\<close> says what the store may hold of it: its path, and
  no start index or the right one.
\<close>

definition meta_for :: "(nat \<Rightarrow> 'i list) \<Rightarrow> (nat \<Rightarrow> string) \<Rightarrow> nat \<Rightarrow> raw_data_meta \<Rightarrow> bool" where
  "meta_for files path q t \<longleftrightarrow>
     rm_file_path t = path q \<and> (rm_start_index t = - 1 \<or> rm_start_index t = file_start files q)"

definition store_ok ::
    "'v mg_env \<Rightarrow> int \<Rightarrow> (nat \<Rightarrow> 'i list) \<Rightarrow> (nat \<Rightarrow> string) \<Rightarrow> (string \<times> 'v) list \<Rightarrow> bool" where
  "store_ok en p files path kv \<longleftrightarrow>
     codec_ok (en_codec en) \<and> distinct (map fst kv) \<and>
     (\<forall>k v. map_of kv k = Some v \<and> prefix (manifest_key en p) k \<and> k \<noteq> manifest_key en p \<and>
        prefix ''raw_data_'' (base_name k) \<longrightarrow>
        (\<exists>q t. k = meta_key en p (int q) \<and> v = print_meta (en_codec en) t \<and> meta_for files path q t))"

text \<open>The manifest of the store counts \<open>n\<close> files, and those are there.\<close>

definition published :: "'v mg_env \<Rightarrow> int \<Rightarrow> (string \<times> 'v) list \<Rightarrow> nat \<Rightarrow> bool" where
  "published en p kv n \<longleftrightarrow>
     (\<exists>m. map_of kv (manifest_key en p) = Some (print_manifest (en_codec en) m) \<and>
        mf_next_process_index m = int n) \<and>
     (\<forall>q. map_of kv (meta_key en p (int q)) \<noteq> None \<longleftrightarrow> q < n)"

definition rd_avail :: "'v rd_manager \<Rightarrow> nat" where
  "rd_avail s = nat (mf_next_process_index (rd_manifest s))"

text \<open>What the manager's list knows of file \<open>q\<close>, against what the store holds.\<close>

definition cached_ok ::
    "'v mg_env \<Rightarrow> int \<Rightarrow> (nat \<Rightarrow> 'i list) \<Rightarrow> (nat \<Rightarrow> string) \<Rightarrow> 'v rd_manager \<Rightarrow> nat \<Rightarrow> bool" where
  "cached_ok en p files path s q \<longleftrightarrow>
     (\<exists>t t'. rd_all_metas s ! q = (int q, t) \<and> meta_for files path q t \<and>
        map_of (rd_kv s) (meta_key en p (int q)) = Some (print_meta (en_codec en) t') \<and>
        (t' = t \<or> rm_file_path t' = path q \<and> rm_start_index t' = file_start files q))"

definition rd_handed ::
    "'v mg_env \<Rightarrow> int \<Rightarrow> (nat \<Rightarrow> 'i list) \<Rightarrow> (nat \<Rightarrow> string) \<Rightarrow> nat \<Rightarrow> 'v rd_manager \<Rightarrow> nat \<Rightarrow> bool" where
  "rd_handed en p files path N s n \<longleftrightarrow>
     store_ok en p files path (rd_kv s) \<and>
     imm_index_metas s = map (meta_of files path) [0..<n] \<and>
     n \<le> rd_avail s \<and> rd_avail s \<le> N \<and> published en p (rd_kv s) N \<and>
     n \<le> length (rd_all_metas s) \<and> length (rd_all_metas s) \<le> N \<and>
     (\<forall>q < length (rd_all_metas s). cached_ok en p files path s q)"

lemma base_name_meta [simp]: "base_name (meta_key en p i) = ''raw_data_'' @ fmt_int 8 i"
proof -
  have "CHR ''/'' \<notin> set (fmt_int 8 i)" by (rule fmt_int_not_in) simp_all
  then have "CHR ''/'' \<notin> set (''raw_data_'' @ fmt_int 8 i)" by simp
  from base_name_append [OF this, of "ds_dir (en_name en) @ partition_repr p"] show ?thesis
    by (simp add: meta_key_def raw_data_meta_key)
qed

lemma meta_key_under_manifest:
  "prefix (manifest_key en p) (meta_key en p i)" "meta_key en p i \<noteq> manifest_key en p"
  by (simp_all add: manifest_key_def meta_key_def raw_data_meta_key Data_Join_Common.manifest_key)

lemma store_ok_meta:
  assumes "store_ok en p files path kv" "map_of kv (meta_key en p (int q)) = Some v"
  shows "\<exists>t. v = print_meta (en_codec en) t \<and> meta_for files path q t"
proof -
  have "prefix ''raw_data_'' (base_name (meta_key en p (int q)))" by simp
  then obtain q' t where "meta_key en p (int q) = meta_key en p (int q')"
      "v = print_meta (en_codec en) t" "meta_for files path q' t"
    using assms meta_key_under_manifest unfolding store_ok_def by blast
  then show ?thesis by auto
qed

lemma store_ok_update:
  assumes "store_ok en p files path kv" "meta_for files path q t"
  shows "store_ok en p files path
     (AList.update (meta_key en p (int q)) (print_meta (en_codec en) t) kv)"
  using assms unfolding store_ok_def by (auto simp: update_conv' distinct_update)

lemma published_update:
  "published en p kv N \<Longrightarrow> q < N \<Longrightarrow> published en p (AList.update (meta_key en p (int q)) d kv) N"
  by (auto simp: published_def update_conv')

lemma meta_for_claimed:
  "meta_for files path q t \<Longrightarrow> meta_for files path q (t\<lparr>rm_start_index := file_start files q\<rparr>)"
  by (simp add: meta_for_def)

lemma parse_print_meta [simp]:
  "store_ok en p files path kv \<Longrightarrow> parse_meta (en_codec en) (print_meta (en_codec en) t) = t"
  by (simp add: store_ok_def codec_ok_def)

lemma print_meta_inject:
  "store_ok en p files path kv \<Longrightarrow>
   print_meta (en_codec en) t = print_meta (en_codec en) t' \<longleftrightarrow> t = t'"
  using parse_print_meta by metis

section \<open>The manager meets the contract\<close>

lemma rd_lookup_handed:
  assumes h: "rd_handed en p files path N s n" and n: "n < rd_avail s"
  shows "\<exists>m s'. rd_lookup_meta en p (int n) s = (Inr m, s') \<and>
     rd_handed en p files path N s' n \<and> rd_manifest s' = rd_manifest s \<and>
     n < length (rd_all_metas s') \<and> rd_all_metas s' ! n = (int n, m)"
proof (cases "n < length (rd_all_metas s)")
  case True
  then obtain t where "rd_all_metas s ! n = (int n, t)"
    using h by (auto simp: rd_handed_def cached_ok_def)
  then have "rd_lookup_meta en p (int n) s = (Inr t, s)"
    using True by (simp add: rd_lookup_meta_def sx_assert_def)
  then show ?thesis using h True \<open>rd_all_metas s ! n = _\<close> by auto
next
  case False
  then have len: "length (rd_all_metas s) = n" using h by (simp add: rd_handed_def)
  have "published en p (rd_kv s) N" "n < N" using h n by (simp_all add: rd_handed_def)
  then have "map_of (rd_kv s) (meta_key en p (int n)) \<noteq> None" unfolding published_def by blast
  then obtain v where v: "map_of (rd_kv s) (meta_key en p (int n)) = Some v" by blast
  have ok: "store_ok en p files path (rd_kv s)" using h by (simp add: rd_handed_def)
  obtain t where t: "v = print_meta (en_codec en) t" "meta_for files path n t"
    using store_ok_meta [OF ok v] by blast
  let ?s = "s\<lparr>rd_all_metas := rd_all_metas s @ [(int n, t)]\<rparr>"
  have "rd_lookup_meta en p (int n) s = (Inr t, ?s)"
    using len v t(1) parse_print_meta [OF ok]
    by (simp add: rd_lookup_meta_def sx_assert_def sync_raw_data_meta_def)
  moreover have "cached_ok en p files path ?s q" if "q < length (rd_all_metas ?s)" for q
    using that h len v t by (auto simp: rd_handed_def cached_ok_def nth_append less_Suc_eq)
  then have "rd_handed en p files path N ?s n"
    using h n len by (simp add: rd_handed_def rd_avail_def)
  ultimately show ?thesis using len by auto
qed


lemma rd_claim_handed:
  assumes h: "rd_handed en p files path N s n" and n: "n < rd_avail s"
    and m: "n < length (rd_all_metas s)" "rd_all_metas s ! n = (int n, m)"
  shows "\<exists>m' s'. rd_claim_start en p (int n) (file_start files n) m s = (Inr m', s') \<and>
     rm_file_path m' = path n \<and> rd_handed en p files path N s' n \<and>
     rd_manifest s' = rd_manifest s \<and> rd_all_metas s' = rd_all_metas s"
proof -
  let ?key = "meta_key en p (int n)"
  have ok: "store_ok en p files path (rd_kv s)" using h by (simp add: rd_handed_def)
  have "cached_ok en p files path s n" using h m(1) by (simp add: rd_handed_def)
  then obtain t' where t: "meta_for files path n m"
      "map_of (rd_kv s) ?key = Some (print_meta (en_codec en) t')"
      "t' = m \<or> rm_file_path t' = path n \<and> rm_start_index t' = file_start files n"
    using m(2) by (auto simp: cached_ok_def)
  consider "rm_start_index m \<noteq> - 1" | "rm_start_index m = - 1" "t' = m"
    | "rm_start_index m = - 1" "t' \<noteq> m" by blast
  then show ?thesis
  proof cases
    case 1
    then show ?thesis using h t(1) by (simp add: rd_claim_start_def meta_for_def)
  next
    case 2
    let ?m = "m\<lparr>rm_start_index := file_start files n\<rparr>"
    let ?s = "s\<lparr>rd_kv := AList.update ?key (print_meta (en_codec en) ?m) (rd_kv s)\<rparr>"
    have "rd_claim_start en p (int n) (file_start files n) m s = (Inr m, ?s)"
      using 2 t(2) by (simp add: rd_claim_start_def rd_cas_def sx_bind_def)
    moreover have "store_ok en p files path (rd_kv ?s)"
      using store_ok_update [OF ok meta_for_claimed [OF t(1)]] by simp
    moreover have "cached_ok en p files path ?s q" if "q < length (rd_all_metas s)" for q
    proof (cases "q = n")
      case True
      have "cached_ok en p files path ?s n" unfolding cached_ok_def
        by (rule exI [of _ m], rule exI [of _ ?m]) (use m(2) t(1) in \<open>simp add: update_conv' meta_for_def\<close>)
      then show ?thesis using True by simp
    next
      case False
      have "cached_ok en p files path s q" using h that by (simp add: rd_handed_def)
      then show ?thesis using False by (simp add: cached_ok_def update_conv')
    qed
    moreover have "published en p (rd_kv ?s) N"
      using published_update [of en p "rd_kv s" N n] h n by (simp add: rd_handed_def)
    ultimately have "rd_handed en p files path N ?s n"
      using h by (simp add: rd_handed_def rd_avail_def)
    then show ?thesis using \<open>rd_claim_start _ _ _ _ _ _ = _\<close> t(1) by (simp add: meta_for_def)
  next
    case 3
    then have ne: "print_meta (en_codec en) t' \<noteq> print_meta (en_codec en) m"
      using print_meta_inject [OF ok] by blast
    then have "rd_claim_start en p (int n) (file_start files n) m s = (Inr t', s)"
      using 3 t(2,3) parse_print_meta [OF ok]
      by (simp add: rd_claim_start_def rd_cas_def sx_bind_def sync_raw_data_meta_def)
    then show ?thesis using h 3 t(3) by auto
  qed
qed

lemma rd_new_index_meta_handed:
  assumes h: "rd_handed en p files path N s n" and n: "n < rd_avail s"
  shows "\<exists>s'. rd_new_index_meta en p (int n) (file_start files n) s =
       (Inr (Some (meta_of files path n)), s') \<and>
     rd_handed en p files path N s' n \<and> rd_manifest s' = rd_manifest s \<and> n < length (rd_all_metas s')"
proof -
  obtain m s1 where s1: "rd_lookup_meta en p (int n) s = (Inr m, s1)"
      "rd_handed en p files path N s1 n" "rd_manifest s1 = rd_manifest s"
      "n < length (rd_all_metas s1)" "rd_all_metas s1 ! n = (int n, m)"
    using rd_lookup_handed [OF h n] by blast
  have "n < rd_avail s1" using n s1(3) by (simp add: rd_avail_def)
  then obtain m' s2 where s2: "rd_claim_start en p (int n) (file_start files n) m s1 = (Inr m', s2)"
      "rm_file_path m' = path n" "rd_handed en p files path N s2 n"
      "rd_manifest s2 = rd_manifest s1" "rd_all_metas s2 = rd_all_metas s1"
    using rd_claim_handed [OF s1(2) _ s1(4,5)] by blast
  have "\<not> mf_next_process_index (rd_manifest s) \<le> int n" using n by (simp add: rd_avail_def)
  then have "rd_new_index_meta en p (int n) (file_start files n) s =
      (Inr (Some (meta_of files path n)), s2)"
    using s1(1) s2(1,2) by (simp add: rd_new_index_meta_def sx_bind_def meta_of_def)
  then show ?thesis using s1 s2 by auto
qed

lemma rd_handed_manager:
  "rd_handed en p files path N s n \<Longrightarrow>
   imm_index_metas s = map (meta_of files path) [0..<n] \<and> n \<le> rd_avail s"
  by (simp add: rd_handed_def)

interpretation raw_data: index_source "rd_gim en p" rd_avail "rd_handed en p files path N" files path
  for en p files path N
proof (unfold_locales)
  fix s n assume h: "rd_handed en p files path N s n" and n: "n < rd_avail s"
  note metas = rd_handed_manager [OF h]
  obtain s' where s': "rd_new_index_meta en p (int n) (file_start files n) s =
       (Inr (Some (meta_of files path n)), s')"
     "rd_handed en p files path N s' n" "rd_manifest s' = rd_manifest s" "n < length (rd_all_metas s')"
    using rd_new_index_meta_handed [OF h n] by blast
  let ?s = "s'\<lparr>imm_index_metas := imm_index_metas s' @ [meta_of files path n]\<rparr>"
  have "rd_gim en p (int n) (file_start files n) s = (Inr (Some (meta_of files path n)), ?s)"
    using s'(1) metas rd_handed_manager [OF s'(2)]
    by (simp add: rd_gim_def get_next_meta [OF conjunct1 [OF metas]] sx_bind_def nth_append)
  moreover have "cached_ok en p files path ?s q = cached_ok en p files path s' q" for q
    by (simp add: cached_ok_def)
  then have "rd_handed en p files path N ?s (Suc n)"
    using s'(2,3,4) n by (simp add: rd_handed_def rd_avail_def)
  moreover have "rd_avail ?s = rd_avail s" using s'(3) by (simp add: rd_avail_def)
  ultimately show "\<exists>m'. rd_gim en p (int n) (file_start files n) s =
        (Inr (Some (meta_of files path n)), m') \<and>
      rd_handed en p files path N m' (Suc n) \<and> rd_avail m' = rd_avail s" by blast
next
  fix s n assume h: "rd_handed en p files path N s n" and n: "\<not> n < rd_avail s"
  then have "mf_next_process_index (rd_manifest s) \<le> int n" by (simp add: rd_avail_def)
  then have "rd_new_index_meta en p (int n) (file_start files n) s = (Inr None, s)"
    by (simp add: rd_new_index_meta_def)
  then have "rd_gim en p (int n) (file_start files n) s = (Inr None, s)"
    by (simp add: rd_gim_def get_next_meta [OF conjunct1 [OF rd_handed_manager [OF h]]] sx_bind_def)
  then show "\<exists>m'. rd_gim en p (int n) (file_start files n) s = (Inr None, m') \<and>
      rd_handed en p files path N m' n \<and> rd_avail m' = rd_avail s" using h by auto
next
  fix s n assume "rd_handed en p files path N s n"
  then show "n \<le> rd_avail s" by (simp add: rd_handed_def)
qed


section \<open>Starting up\<close>

lemma preload_entry_mem:
  assumes ok: "store_ok en p files path kv" and e: "e \<in> set (prefix_kvs (manifest_key en p) kv)"
    and x: "preload_entry en e = Inr xs" "x \<in> set xs"
  shows "\<exists>q t. x = (int q, t) \<and> meta_for files path q t \<and>
    map_of kv (meta_key en p (int q)) = Some (print_meta (en_codec en) t)"
proof -
  obtain k v where kv: "e = (k, v)" by (cases e)
  then have mem: "(k, v) \<in> set kv" "prefix (manifest_key en p) k" "k \<noteq> manifest_key en p"
    using e by (auto simp: prefix_kvs_def)
  have b: "prefix ''raw_data_'' (base_name k)"
    using x kv by (auto simp: preload_entry_def Let_def split: if_splits)
  have "map_of kv k = Some v" using ok mem(1) by (simp add: store_ok_def map_of_eq_Some_iff)
  then obtain q t where q: "k = meta_key en p (int q)" "v = print_meta (en_codec en) t"
      "meta_for files path q t"
    using ok mem(2,3) b unfolding store_ok_def by blast
  have "x = (int q, t)"
    using x q kv parse_print_meta [OF ok] by (auto simp: preload_entry_def Let_def)
  then show ?thesis using q \<open>map_of kv k = Some v\<close> by auto
qed

lemma new_raw_data_manager_handed:
  assumes ok: "store_ok en p files path kv" and pub: "published en p kv n"
    and new: "new_raw_data_manager en p kv = Inr s"
  shows "\<exists>k. rd_handed en p files path n s k \<and> rd_avail s = n \<and> rd_kv s = kv"
proof -
  obtain mf where mf: "map_of kv (manifest_key en p) = Some (print_manifest (en_codec en) mf)"
      "mf_next_process_index mf = int n"
    using pub by (auto simp: published_def)
  have "codec_ok (en_codec en)" using ok unfolding store_ok_def by blast
  then have "parse_manifest (en_codec en) (print_manifest (en_codec en) mf) = mf"
    by (simp add: codec_ok_def)
  then have sm: "sync_raw_data_manifest en p kv = Inr mf"
    using mf(1) by (simp add: sync_raw_data_manifest_def)
  obtain es where es: "traverse (preload_entry en) (prefix_kvs (manifest_key en p) kv) = Inr es"
    using new by (fastforce simp: new_raw_data_manager_def preload_raw_data_meta_def bind_result_Inr_iff)
  define metas where "metas = concat es"
  define all where "all = sort_key fst metas"
  define idx where "idx = map (\<lambda>(i, m). \<lparr>im_process_index = i, im_start_index = rm_start_index m,
      im_fpath = rm_file_path m\<rparr>) (filter (\<lambda>(i, m). rm_start_index m \<noteq> - 1) metas)"
  have pl: "preload_raw_data_meta en p kv =
      (if \<forall>k < length all. fst (all ! k) = int k then Inr (all, idx) else Inl ProcessExit)"
    unfolding preload_raw_data_meta_def es by (simp only: bind_result_simps Let_def all_def idx_def metas_def)
  have ne: "preload_raw_data_meta en p kv \<noteq> Inl ProcessExit"
    using new sm by (auto simp: new_raw_data_manager_def)
  have all: "\<And>k. k < length all \<Longrightarrow> fst (all ! k) = int k"
    and pre: "preload_raw_data_meta en p kv = Inr (all, idx)"
    using pl ne by (simp_all split: if_splits)
  obtain ms where ms: "sorted_index_metas (take n idx) = Inr ms"
      and s: "s = \<lparr>imm_index_metas = ms, rd_manifest = mf, rd_all_metas = all, rd_kv = kv\<rparr>"
    using new pre sm mf(2) by (auto simp: new_raw_data_manager_def bind_result_Inr_iff slice_to_def)
  have mem: "\<exists>q t. x = (int q, t) \<and> meta_for files path q t \<and>
      map_of kv (meta_key en p (int q)) = Some (print_meta (en_codec en) t)" if prem: "x \<in> set metas" for x
  proof -
    obtain y where y: "y \<in> set es" "x \<in> set y" using prem by (auto simp: metas_def)
    then obtain e where "e \<in> set (prefix_kvs (manifest_key en p) kv)" "preload_entry en e = Inr y"
      using traverse_mem [OF es] by blast
    then show ?thesis using preload_entry_mem [OF ok _ _ y(2)] by blast
  qed
  have srt: "ms = sort_key im_start_index (take n idx)"
      and num: "\<And>k. k < length ms \<Longrightarrow> im_process_index (ms ! k) = int k"
    using ms by (auto simp: sorted_index_metas_def Let_def split: if_splits)
  have meta: "ms ! k = meta_of files path k" if k: "k < length ms" for k
  proof -
    have "ms ! k \<in> set idx" using k nth_mem [OF k] set_take_subset [of n idx] by (auto simp: srt)
    then obtain i t where it: "(i, t) \<in> set metas" "rm_start_index t \<noteq> - 1"
        "ms ! k = \<lparr>im_process_index = i, im_start_index = rm_start_index t, im_fpath = rm_file_path t\<rparr>"
      by (auto simp: idx_def)
    then obtain q where "i = int q" "meta_for files path q t" using mem by blast
    then show ?thesis using it num [OF k] by (simp add: meta_of_def meta_for_def)
  qed
  have metas: "imm_index_metas s = map (meta_of files path) [0..<length ms]"
    using meta s by (auto intro: nth_equalityI)
  have "length ms \<le> n" by (simp add: srt)
  moreover have "length all \<le> n"
  proof (rule ccontr)
    assume "\<not> length all \<le> n"
    then have n: "n < length all" by simp
    then have "all ! n \<in> set metas" using nth_mem [OF n] by (simp add: all_def)
    then obtain q t where "all ! n = (int q, t)" "map_of kv (meta_key en p (int q)) \<noteq> None"
      using mem by blast
    then have "map_of kv (meta_key en p (int n)) \<noteq> None" using all [OF n] by simp
    then show False using pub unfolding published_def by blast
  qed
  moreover have "length ms \<le> length all"
    by (simp add: srt all_def idx_def min.coboundedI1)
  moreover have "cached_ok en p files path s q" if q: "q < length all" for q
  proof -
    have "all ! q \<in> set metas" using nth_mem [OF q] by (simp add: all_def)
    then show ?thesis using mem all [OF q] s by (fastforce simp: cached_ok_def)
  qed
  ultimately have "rd_handed en p files path n s (length ms)"
    using ok pub metas s mf(2) by (simp add: rd_handed_def rd_avail_def)
  then show ?thesis using s mf(2) by (auto simp: rd_avail_def)
qed

lemma new_raw_data_visitor_tracks:
  fixes v :: "('i, 'v rd_manager) visitor"
  assumes "store_ok en p files path kv" "published en p kv n"
    and new: "new_raw_data_visitor en p kv = Inr v"
  shows "tracks rd_avail (rd_handed en p files path n) files path False n n v start_cursor \<and>
    rd_kv (v_manager v) = kv"
proof -
  obtain s where s: "new_raw_data_manager en p kv = Inr s" "new_visitor s (imm_index_metas s) = Inr v"
    using new by (auto simp: new_raw_data_visitor_def bind_result_Inr_iff)
  obtain k where k: "rd_handed en p files path n s k" "rd_avail s = n" "rd_kv s = kv"
    using new_raw_data_manager_handed [OF assms(1,2) s(1)] by blast
  show ?thesis
    using new_visitor_tracks [where handed = "rd_handed en p files path n" and avail = rd_avail,
        OF k(1,2)] s(2) rd_handed_manager [OF k(1)] k(3) by auto
qed


section \<open>Reading while files arrive\<close>

text \<open>
  What the manifest manager's \<open>_store_raw_data_metas\<close> does to the store: the metas from the next
  process index on, then the manifest that counts them.
\<close>

fun put_metas :: "'v mg_env \<Rightarrow> int \<Rightarrow> int \<Rightarrow> raw_data_meta list \<Rightarrow> (string \<times> 'v) list \<Rightarrow> (string \<times> 'v) list" where
  "put_metas en p i [] kv = kv"
| "put_metas en p i (t # ts) kv =
     put_metas en p (i + 1) ts
       (AList.update (meta_key en p i) (print_meta (en_codec en) (t\<lparr>rm_start_index := - 1\<rparr>)) kv)"

definition publish_files ::
    "'v mg_env \<Rightarrow> int \<Rightarrow> raw_data_meta list \<Rightarrow> (string \<times> 'v) list \<Rightarrow> (string \<times> 'v) list" where
  "publish_files en p ts kv =
     (case map_of kv (manifest_key en p) of
        None \<Rightarrow> kv
      | Some d \<Rightarrow>
          let m = parse_manifest (en_codec en) d in
          AList.update (manifest_key en p)
            (print_manifest (en_codec en)
              (m\<lparr>mf_next_process_index := mf_next_process_index m + int (length ts)\<rparr>))
            (put_metas en p (mf_next_process_index m) ts kv))"

text \<open>Other processes publish files at any time; the visitor looks for them when it is made active.\<close>

datatype rd_op = Publish_files "raw_data_meta list" | Active | Use visitor_op

fun rd_exec ::
    "'v mg_env \<Rightarrow> int \<Rightarrow> ('i, 'v rd_manager) visitor_env \<Rightarrow> rd_op \<Rightarrow>
     ('i, 'v rd_manager, (int \<times> 'i) option) vx" where
  "rd_exec en p ve (Publish_files ts) =
     sx_bind (sx_modify (\<lambda>v. v\<lparr>v_manager := (v_manager v)
       \<lparr>rd_kv := publish_files en p ts (rd_kv (v_manager v))\<rparr>\<rparr>)) (\<lambda>_. sx_return None)"
| "rd_exec en p ve Active = sx_bind (rd_active_visitor en p) (\<lambda>_. sx_return None)"
| "rd_exec en p ve (Use op) = visitor_exec ve op"

text \<open>
  The cursor over a sequence that grows: how many files there are, how many the cursor has
  been told of, and the cursor.
\<close>

fun growing_exec ::
    "(nat \<Rightarrow> 'i list) \<Rightarrow> rd_op \<Rightarrow> (nat \<times> nat \<times> cursor, (int \<times> 'i) option) sx" where
  "growing_exec files (Publish_files ts) (n, k, c) = (Inr None, n + length ts, k, c)"
| "growing_exec files Active (n, k, c) =
     (Inr None, n, n, if k < n then c\<lparr>cu_finished := False\<rparr> else c)"
| "growing_exec files (Use op) (n, k, c) =
     (case cursor_exec False (file_start files k) op c of
        (r, c1) \<Rightarrow> (map_sum id (map_option (with_item files k)) r, n, k, c1))"

text \<open>The published paths are those of the files.\<close>

fun paths_ok :: "(nat \<Rightarrow> string) \<Rightarrow> nat \<Rightarrow> rd_op list \<Rightarrow> bool" where
  "paths_ok path n [] \<longleftrightarrow> True"
| "paths_ok path n (Publish_files ts # ops) \<longleftrightarrow>
     (\<forall>k < length ts. rm_file_path (ts ! k) = path (n + k)) \<and> paths_ok path (n + length ts) ops"
| "paths_ok path n (Active # ops) \<longleftrightarrow> paths_ok path n ops"
| "paths_ok path n (Use op # ops) \<longleftrightarrow> paths_ok path n ops"

fun total_files :: "nat \<Rightarrow> rd_op list \<Rightarrow> nat" where
  "total_files n [] = n"
| "total_files n (Publish_files ts # ops) = total_files (n + length ts) ops"
| "total_files n (Active # ops) = total_files n ops"
| "total_files n (Use op # ops) = total_files n ops"

lemma total_files_ge: "n \<le> total_files n ops"
  by (induction n ops rule: total_files.induct) auto

lemma put_metas_ok:
  "store_ok en p files path kv \<Longrightarrow> \<forall>k < length ts. rm_file_path (ts ! k) = path (n + k) \<Longrightarrow>
   store_ok en p files path (put_metas en p (int n) ts kv) \<and>
   map_of (put_metas en p (int n) ts kv) (manifest_key en p) = map_of kv (manifest_key en p) \<and>
   (\<forall>q. q < n \<or> n + length ts \<le> q \<longrightarrow>
      map_of (put_metas en p (int n) ts kv) (meta_key en p (int q)) =
      map_of kv (meta_key en p (int q))) \<and>
   (\<forall>q < n + length ts. n \<le> q \<longrightarrow>
      map_of (put_metas en p (int n) ts kv) (meta_key en p (int q)) \<noteq> None)"
proof (induction ts arbitrary: n kv)
  case (Cons t ts)
  let ?t = "t\<lparr>rm_start_index := - 1\<rparr>"
  let ?kv = "AList.update (meta_key en p (int n)) (print_meta (en_codec en) ?t) kv"
  have "rm_file_path t = path n" using Cons.prems(2) by (metis add_0_right length_greater_0_conv list.distinct(1) nth_Cons_0)
  then have "meta_for files path n ?t" by (simp add: meta_for_def)
  then have ok: "store_ok en p files path ?kv" using store_ok_update Cons.prems(1) by blast
  have rest: "\<forall>k < length ts. rm_file_path (ts ! k) = path (Suc n + k)"
    using Cons.prems(2) by (metis Suc_less_eq add_Suc add_Suc_right length_Cons nth_Cons_Suc)
  have eq: "put_metas en p (int n) (t # ts) kv = put_metas en p (int (Suc n)) ts ?kv"
    by (simp add: add.commute)
  note IH = Cons.IH [OF ok rest]
  have "map_of (put_metas en p (int (Suc n)) ts ?kv) (meta_key en p (int n)) \<noteq> None"
    using IH by (simp add: update_conv')
  then have "\<forall>q < n + length (t # ts). n \<le> q \<longrightarrow>
      map_of (put_metas en p (int (Suc n)) ts ?kv) (meta_key en p (int q)) \<noteq> None"
    using IH by (metis Suc_leI add_Suc_shift le_neq_implies_less length_Cons)
  then show ?case unfolding eq using IH by (simp add: update_conv')
qed simp

lemma store_ok_manifest:
  assumes "store_ok en p files path kv"
  shows "store_ok en p files path (AList.update (manifest_key en p) d kv)"
  using assms unfolding store_ok_def by (auto simp: update_conv' distinct_update)

text \<open>Publishing keeps what the visitor relies on and adds the new files.\<close>

lemma publish_files_ok:
  assumes ok: "store_ok en p files path kv" and pub: "published en p kv n"
    and ts: "\<forall>k < length ts. rm_file_path (ts ! k) = path (n + k)"
  shows "store_ok en p files path (publish_files en p ts kv)"
    and "published en p (publish_files en p ts kv) (n + length ts)"
    and "\<forall>q < n. map_of (publish_files en p ts kv) (meta_key en p (int q)) =
      map_of kv (meta_key en p (int q))"
proof -
  obtain m where m: "map_of kv (manifest_key en p) = Some (print_manifest (en_codec en) m)"
      "mf_next_process_index m = int n"
    using pub by (auto simp: published_def)
  have "codec_ok (en_codec en)" using ok unfolding store_ok_def by blast
  then have "parse_manifest (en_codec en) (print_manifest (en_codec en) m) = m"
    by (simp add: codec_ok_def)
  then have p: "publish_files en p ts kv = AList.update (manifest_key en p)
      (print_manifest (en_codec en) (m\<lparr>mf_next_process_index := int (n + length ts)\<rparr>))
      (put_metas en p (int n) ts kv)"
    using m by (simp add: publish_files_def)
  note put = put_metas_ok [OF ok ts]
  show "store_ok en p files path (publish_files en p ts kv)"
    unfolding p by (rule store_ok_manifest [OF conjunct1 [OF put]])
  show "\<forall>q < n. map_of (publish_files en p ts kv) (meta_key en p (int q)) =
      map_of kv (meta_key en p (int q))"
    unfolding p using put by (simp add: update_conv')
  have "map_of (put_metas en p (int n) ts kv) (meta_key en p (int q)) \<noteq> None \<longleftrightarrow> q < n + length ts"
    for q
  proof (cases "n \<le> q \<and> q < n + length ts")
    case True
    then show ?thesis using put by blast
  next
    case False
    then have "map_of (put_metas en p (int n) ts kv) (meta_key en p (int q)) =
        map_of kv (meta_key en p (int q))"
      using put by auto
    then show ?thesis using False pub unfolding published_def by auto
  qed
  then show "published en p (publish_files en p ts kv) (n + length ts)"
    unfolding p published_def
    by (auto simp: update_conv' intro!: exI [of _ "m\<lparr>mf_next_process_index := int n + int (length ts)\<rparr>"])
qed


lemma tracks_finished_all:
  assumes r: "readable disk files path" and t: "tracks avail handed files path False k k v c"
    and f: "cu_finished c" and h: "\<And>n. handed (v_manager v) n \<Longrightarrow> n \<le> avail (v_manager v)"
    and v: "visits handed files path v pos n" "placed files k pos (cu_pos c)"
  shows "n = k"
proof -
  have nk: "n \<le> k" using h v(1) t by (auto simp: visits_def tracks_def)
  show ?thesis
  proof (cases "k = 0")
    case False
    then have "cu_pos c = Some (file_start files k - 1)" using t f by (simp add: tracks_def)
    then obtain p i where pi: "pos = Some (p, i)" "file_start files k - 1 = file_start files p + int i"
      using v(2) by (cases pos) auto
    then have "p < n" "i < length (files p)" using v(1) by (simp_all add: visits_Some)
    then have "\<not> file_start files (Suc p) < file_start files k" using pi(2) by simp
    then have "k \<le> Suc p" using file_start_less_iff [OF r, of "Suc p" k] by simp
    then show ?thesis using \<open>p < n\<close> nk by simp
  qed (use nk in simp)
qed

text \<open>A publication leaves the visitor where it is.\<close>

lemma publish_tracks:
  assumes t: "tracks rd_avail (rd_handed en p files path N) files path False k k v c"
    and ts: "\<forall>j < length ts. rm_file_path (ts ! j) = path (N + j)"
  shows "tracks rd_avail (rd_handed en p files path (N + length ts)) files path False k k
     (v\<lparr>v_manager := (v_manager v)\<lparr>rd_kv := publish_files en p ts (rd_kv (v_manager v))\<rparr>\<rparr>) c"
proof -
  let ?s = "v_manager v"
  let ?s' = "?s\<lparr>rd_kv := publish_files en p ts (rd_kv ?s)\<rparr>"
  have handed: "rd_handed en p files path (N + length ts) ?s' n"
    if h: "rd_handed en p files path N ?s n" for n
  proof -
    have ok: "store_ok en p files path (rd_kv ?s)" and pub: "published en p (rd_kv ?s) N"
      using h by (simp_all add: rd_handed_def)
    note new = publish_files_ok [OF ok pub ts]
    have "cached_ok en p files path ?s' q" if "q < length (rd_all_metas ?s)" for q
    proof -
      have "q < N" "cached_ok en p files path ?s q" using h that by (simp_all add: rd_handed_def)
      then show ?thesis using new(3) by (simp add: cached_ok_def)
    qed
    then show ?thesis using h new(1,2) by (simp add: rd_handed_def rd_avail_def)
  qed
  obtain pos n where pos: "visits (rd_handed en p files path N) files path v pos n"
      "placed files k pos (cu_pos c)"
    using t by (auto simp: tracks_def)
  then have "rd_handed en p files path N ?s n" by (simp add: visits_def)
  from visits_manager [where handed' = "rd_handed en p files path (N + length ts)", OF pos(1) handed [OF this]]
  have "\<exists>pos n. visits (rd_handed en p files path (N + length ts)) files path
      (v\<lparr>v_manager := ?s'\<rparr>) pos n \<and> placed files k pos (cu_pos c)"
    using pos(2) by blast
  moreover have "rd_avail ?s' = rd_avail ?s" by (simp add: rd_avail_def)
  ultimately show ?thesis using t unfolding tracks_def by simp
qed

text \<open>Made active, the visitor knows all files, and goes on if it had come to the end.\<close>

lemma active_tracks:
  assumes r: "readable disk files path"
    and t: "tracks rd_avail (rd_handed en p files path N) files path False k k v c"
  shows "\<exists>v'. rd_active_visitor en p v = (Inr (), v') \<and>
    tracks rd_avail (rd_handed en p files path N) files path False N N v'
      (if k < N then c\<lparr>cu_finished := False\<rparr> else c)"
proof -
  let ?s = "v_manager v"
  obtain pos n where pos: "visits (rd_handed en p files path N) files path v pos n"
      "placed files k pos (cu_pos c)"
    using t by (auto simp: tracks_def)
  have h: "rd_handed en p files path N ?s n" using pos(1) by (simp add: visits_def)
  have kN: "rd_avail ?s = k" "k \<le> N" using t h by (simp_all add: tracks_def rd_handed_def)
  obtain m where m: "map_of (rd_kv ?s) (manifest_key en p) = Some (print_manifest (en_codec en) m)"
      "mf_next_process_index m = int N"
    using h by (auto simp: rd_handed_def published_def)
  have "codec_ok (en_codec en)" using h unfolding rd_handed_def store_ok_def by blast
  then have sm: "sync_raw_data_manifest en p (rd_kv ?s) = Inr m"
    using m(1) by (simp add: sync_raw_data_manifest_def codec_ok_def)
  let ?s' = "?s\<lparr>rd_manifest := m\<rparr>"
  let ?v = "v\<lparr>v_manager := ?s'\<rparr>"
  have len: "length (v_index_metas v) = n" using pos(1) by (simp add: visits_def)
  have act: "rd_active_visitor en p v = (Inr (), if n < N then ?v\<lparr>v_finished := False\<rparr> else ?v)"
    using sm m(2) len
    by (simp add: rd_active_visitor_def is_visitor_stale_def ask_manager_def rd_check_index_meta_def
        sx_bind_def)
  have "rd_handed en p files path N ?s' n"
    using h m(2) kN by (simp add: rd_handed_def rd_avail_def cached_ok_def)
  then have vis: "visits (rd_handed en p files path N) files path ?v pos n"
    using visits_manager [OF pos(1)] by blast
  have pl: "placed files N pos (cu_pos c)"
    using pos(2) kN(2) by (auto simp: placed_def split: option.splits)
  have av: "rd_avail ?s' = N" using m(2) by (simp add: rd_avail_def)
  have mono: "file_start files k \<le> file_start files N" using kN(2) by (rule file_start_mono)
  have fin: "cu_finished c \<Longrightarrow> n = k"
    by (rule tracks_finished_all [OF r t _ _ pos]) (simp_all add: rd_handed_def)
  have nk: "n \<le> k" using h kN(1) by (simp add: rd_handed_def)
  show ?thesis
  proof (cases "k < N")
    case False
    then have k: "k = N" using kN(2) by simp
    have "tracks rd_avail (rd_handed en p files path N) files path False N N ?v c"
      using t vis pl av k unfolding tracks_def by auto
    moreover have "n < N \<Longrightarrow> ?v\<lparr>v_finished := False\<rparr> = ?v"
      using fin k t by (cases v) (auto simp: tracks_def)
    ultimately show ?thesis using act False by auto
  next
    case True
    have "tracks rd_avail (rd_handed en p files path N) files path False N N
        (?v\<lparr>v_finished := False\<rparr>) (c\<lparr>cu_finished := False\<rparr>)"
      using t vis pl av mono unfolding tracks_def by (auto intro: less_le_trans)
    then show ?thesis using act True nk by auto
  qed
qed


lemma session_tracks:
  assumes r: "readable (ve_disk ve) files path" and g: "ve_gim ve = rd_gim en p"
  shows "tracks rd_avail (rd_handed en p files path N) files path False k k v c \<Longrightarrow>
    paths_ok path N ops \<Longrightarrow> total_files N ops < ve_depth ve \<Longrightarrow>
    outcomes (rd_exec en p ve) ops v = outcomes (growing_exec files) ops (N, k, c)"
proof (induction ops arbitrary: N k v c)
  case (Cons op ops)
  have kN: "k \<le> N"
    using Cons.prems(1) by (auto simp: tracks_def visits_def rd_handed_def)
  show ?case
  proof (cases op)
    case (Publish_files ts)
    let ?v = "v\<lparr>v_manager := (v_manager v)\<lparr>rd_kv := publish_files en p ts (rd_kv (v_manager v))\<rparr>\<rparr>"
    have "tracks rd_avail (rd_handed en p files path (N + length ts)) files path False k k ?v c"
      by (rule publish_tracks) (use Cons.prems Publish_files in simp_all)
    then have "outcomes (rd_exec en p ve) ops ?v =
        outcomes (growing_exec files) ops (N + length ts, k, c)"
      using Cons.IH Cons.prems Publish_files by simp
    then show ?thesis using Publish_files by simp
  next
    case Active
    obtain v' where v': "rd_active_visitor en p v = (Inr (), v')"
        "tracks rd_avail (rd_handed en p files path N) files path False N N v'
          (if k < N then c\<lparr>cu_finished := False\<rparr> else c)"
      using active_tracks [OF r Cons.prems(1)] by blast
    have "outcomes (rd_exec en p ve) ops v' = outcomes (growing_exec files) ops
        (N, N, if k < N then c\<lparr>cu_finished := False\<rparr> else c)"
      using Cons.IH [OF v'(2)] Cons.prems Active by simp
    then show ?thesis using Active v'(1) by (simp add: sx_bind_def)
  next
    case (Use vop)
    have "N \<le> total_files N ops" by (rule total_files_ge)
    then have "k < ve_depth ve" using Cons.prems(3) Use kN by simp
    from raw_data.exec_follows [OF r g this Cons.prems(1), of vop]
    obtain v' where v': "visitor_exec ve vop v = (map_sum id (map_option (with_item files k))
          (fst (cursor_exec False (file_start files k) vop c)), v')"
        "tracks rd_avail (rd_handed en p files path N) files path False k k v'
          (snd (cursor_exec False (file_start files k) vop c))"
      by blast
    have "outcomes (rd_exec en p ve) ops v' = outcomes (growing_exec files) ops
        (N, k, snd (cursor_exec False (file_start files k) vop c))"
      using Cons.IH [OF v'(2)] Cons.prems Use by simp
    then show ?thesis using Use v'(1) by (simp split: prod.split)
  qed
qed simp

section \<open>Properties\<close>

text \<open>
  C3. A raw data visitor over a store that holds a partition is a cursor over the
  concatenation of the partition's files: whatever the order in which it is asked for the next
  item, for an item by its index or to start over, and in which files are published and it is made
  active, it returns exactly the items and indices the cursor returns, each index with
  the item of that place, and it stops exactly where the cursor stops.
\<close>

theorem raw_data_visitor_reads:
  assumes "readable (ve_disk ve) files path" and "ve_gim ve = rd_gim en p"
    and "store_ok en p files path kv" and "published en p kv n"
    and "new_raw_data_visitor en p kv = Inr v"
    and "paths_ok path n ops" and "total_files n ops < ve_depth ve"
  shows "outcomes (rd_exec en p ve) ops v = outcomes (growing_exec files) ops (n, n, start_cursor)"
  by (rule session_tracks [OF assms(1,2) conjunct1 [OF new_raw_data_visitor_tracks [OF assms(3-5)]] assms(6,7)])

text \<open>A partition whose file \<open>q\<close> has the items \<open>10 q\<close> and \<open>10 q + 1\<close>; one file to begin with.\<close>

definition wr_files :: "nat \<Rightarrow> nat list" where
  "wr_files q = [10 * q, 10 * q + 1]"

definition wr_path :: "nat \<Rightarrow> string" where
  "wr_path q = replicate q CHR ''f''"

definition wr_meta :: "nat \<Rightarrow> raw_data_meta" where
  "wr_meta q = \<lparr>rm_file_path = wr_path q, rm_start_index = - 1, rm_timestamp = (0, 0)\<rparr>"

definition wr_store :: "(string \<times> kv_data) list" where
  "wr_store = [(manifest_key (sample_env []) 0, KManifest ((fresh_manifest 0)\<lparr>mf_next_process_index := 1\<rparr>)),
     (meta_key (sample_env []) 0 0, KMeta (wr_meta 0))]"

definition wr_env :: "(nat, kv_data rd_manager) visitor_env" where
  "wr_env = \<lparr>ve_disk = (\<lambda>s. (wr_files (length s), None)), ve_gim = rd_gim (sample_env []) 0,
     ve_depth = 20\<rparr>"

definition wr_ops :: "rd_op list" where
  "wr_ops = [Use VNext, Use (VSeek 1), Use VNext, Publish_files [wr_meta 1], Use VNext, Active, Use VNext,
     Use (VSeek 0), Use (VSeek 7), Use VReset, Use VNext]"

lemma wr_store_ok: "store_ok (sample_env []) 0 wr_files wr_path wr_store"
proof -
  have "codec_ok (en_codec (sample_env []))" by (simp add: sample_env_def sample_codec_ok)
  moreover have "meta_for wr_files wr_path 0 (wr_meta 0)" by (simp add: meta_for_def wr_meta_def)
  moreover have "KMeta t = print_meta (en_codec (sample_env [])) t" for t
    by (simp add: sample_env_def sample_codec_def)
  ultimately show ?thesis
    unfolding store_ok_def
    by (auto simp: wr_store_def split: if_splits intro!: exI [of _ "0::nat"] exI [of _ "wr_meta 0"])
qed

lemma wr_published: "published (sample_env []) 0 wr_store 1"
proof -
  have "print_manifest (en_codec (sample_env [])) = KManifest"
    by (simp add: sample_env_def sample_codec_def)
  then show ?thesis by (auto simp: published_def wr_store_def)
qed

lemma wr_visitor:
  "\<exists>v :: (nat, kv_data rd_manager) visitor. new_raw_data_visitor (sample_env []) 0 wr_store = Inr v"
proof -
  have "case new_raw_data_visitor (sample_env []) 0 wr_store of
      Inl _ \<Rightarrow> False | Inr (_ :: (nat, kv_data rd_manager) visitor) \<Rightarrow> True"
    by code_simp
  then show ?thesis by (simp split: sum.splits)
qed

theorem raw_data_visitor_reads_witness:
  "\<exists>v :: (nat, kv_data rd_manager) visitor.
     new_raw_data_visitor (sample_env []) 0 wr_store = Inr v \<and>
     outcomes (rd_exec (sample_env []) 0 wr_env) wr_ops v =
       [Inr (Some (0, 0)), Inr (Some (1, 1)), Inl StopIteration, Inr None, Inl StopIteration,
        Inr None, Inr (Some (2, 10)), Inr (Some (0, 0)), Inl StopIteration, Inr None,
        Inr (Some (0, 0))]"
proof -
  obtain v :: "(nat, kv_data rd_manager) visitor"
    where v: "new_raw_data_visitor (sample_env []) 0 wr_store = Inr v"
    using wr_visitor by blast
  have "readable (ve_disk wr_env) wr_files wr_path"
    by (simp add: readable_def wr_env_def wr_files_def wr_path_def)
  moreover have "ve_gim wr_env = rd_gim (sample_env []) 0" by (simp add: wr_env_def)
  moreover have "paths_ok wr_path 1 wr_ops" by (simp add: wr_ops_def wr_meta_def)
  moreover have "total_files 1 wr_ops < ve_depth wr_env" by (simp add: wr_ops_def wr_env_def)
  ultimately have "outcomes (rd_exec (sample_env []) 0 wr_env) wr_ops v =
      outcomes (growing_exec wr_files) wr_ops (1, 1, start_cursor)"
    using raw_data_visitor_reads [OF _ _ wr_store_ok wr_published v] by blast
  also have "\<dots> =
       [Inr (Some (0, 0)), Inr (Some (1, 1)), Inl StopIteration, Inr None, Inl StopIteration,
        Inr None, Inr (Some (2, 10)), Inr (Some (0, 0)), Inl StopIteration, Inr None,
        Inr (Some (0, 0))]"
    by code_simp
  finally show ?thesis using v by blast
qed

end
