(* ===== verification/Data_Block.thy ===== *)
theory Data_Block
  imports Data_Join_Common "HOL-Library.AList"
begin

text \<open>
  Data blocks (\<open>data_join/data_block_manager.py\<close>): \<open>DataBlockBuilder\<close> collects the joined
  examples of one block and publishes it with two renames, the data file first and the
  meta file second; \<open>DataBlockManager\<close> finds the published blocks of a partition by a binary
  search over the names of the meta files and hands their metas out through a cache.

  The file system is a map from paths to lists of records. A rename may fail, before or
  after it took effect, which is what \<open>rename_outcome\<close> says. The text format of the
  protobuf library and \<open>add_extra_fields\<close> are fields of the environment.
\<close>

section \<open>The search for the first free index\<close>

text \<open>
  \<open>_sync_dumped_index\<close> and \<open>_forward_pub_index\<close> bisect the same interval \<open>[0, 2 ^ 63]\<close>; \<open>ex\<close> says
  whether an index is taken.
\<close>

function boundary_search :: "(int \<Rightarrow> bool) \<Rightarrow> int \<Rightarrow> int \<Rightarrow> int" where
  "boundary_search ex left_index right_index =
     (if left_index \<le> right_index
      then let index = (left_index + right_index) div 2
           in if ex index then boundary_search ex (index + 1) right_index
              else boundary_search ex left_index (index - 1)
      else right_index)"
  by pat_completeness auto
termination
  by (relation "measure (\<lambda>(ex, l, r). nat (r - l + 1))") auto

declare boundary_search.simps [simp del]

lemma boundary_search_finds:
  assumes "\<And>k. l \<le> k \<Longrightarrow> k \<le> r \<Longrightarrow> ex k \<longleftrightarrow> k < b" and "l \<le> b" "b \<le> r + 1"
  shows "boundary_search ex l r = b - 1"
  using assms
proof (induction ex l r rule: boundary_search.induct)
  case (1 ex l r)
  let ?m = "(l + r) div 2"
  show ?case
  proof (cases "l \<le> r")
    case False
    then show ?thesis using "1.prems" by (simp add: boundary_search.simps [of ex l r])
  next
    case lr: True
    then have m: "l \<le> ?m" "?m \<le> r" by auto
    show ?thesis
    proof (cases "ex ?m")
      case True
      then have "?m < b" using "1.prems"(1) m by blast
      then have "boundary_search ex (?m + 1) r = b - 1"
        using "1.IH"(1) [OF lr refl True] "1.prems" m by simp
      then show ?thesis using lr True by (simp add: boundary_search.simps [of ex l r] Let_def)
    next
      case False
      then have "b \<le> ?m" using "1.prems"(1) m by force
      then have "boundary_search ex l (?m - 1) = b - 1"
        using "1.IH"(2) [OF lr refl False] "1.prems" m by simp
      then show ?thesis using lr False by (simp add: boundary_search.simps [of ex l r] Let_def)
    qed
  qed
qed

text \<open>How often the loop looks at a name: at most 64 times on the interval it starts from.\<close>

function search_probes :: "(int \<Rightarrow> bool) \<Rightarrow> int \<Rightarrow> int \<Rightarrow> nat" where
  "search_probes ex left_index right_index =
     (if left_index \<le> right_index
      then let index = (left_index + right_index) div 2
           in Suc (if ex index then search_probes ex (index + 1) right_index
                   else search_probes ex left_index (index - 1))
      else 0)"
  by pat_completeness auto
termination
  by (relation "measure (\<lambda>(ex, l, r). nat (r - l + 1))") auto

declare search_probes.simps [simp del]

lemma search_probes_log: "r - l + 1 < 2 ^ n \<Longrightarrow> search_probes ex l r \<le> n"
proof (induction n arbitrary: l r)
  case 0
  then show ?case by (simp add: search_probes.simps)
next
  case (Suc n)
  let ?m = "(l + r) div 2"
  show ?case
  proof (cases "l \<le> r")
    case True
    have "r - (?m + 1) + 1 < 2 ^ n" "(?m - 1) - l + 1 < 2 ^ n" using Suc.prems by auto
    then show ?thesis using True Suc.IH by (simp add: search_probes.simps [of ex l r] Let_def)
  qed (simp add: search_probes.simps)
qed

section \<open>Files\<close>

record 'r block_env =
  be_name :: string
  be_output_base_dir :: string
  be_print :: "data_block_meta \<Rightarrow> 'r"
  be_parse :: "'r \<Rightarrow> data_block_meta result"
  be_add_joined :: "int \<Rightarrow> 'r \<Rightarrow> 'r"

definition block_codec_ok :: "'r block_env \<Rightarrow> bool" where
  "block_codec_ok en \<longleftrightarrow> (\<forall>m. be_parse en (be_print en m) = Inr m)"

type_synonym 'r block_fs = "string \<Rightarrow> 'r list option"

datatype rename_outcome = Renamed | Failed_before | Failed_after

record 'r block_world =
  bw_fs :: "'r block_fs"
  bw_dumped_index :: "int option"
  bw_dumping_index :: "int option"
  bw_cache :: "(int \<times> data_block_meta) list"

definition fs_put :: "string \<Rightarrow> 'r list \<Rightarrow> ('r block_world, unit) sx" where
  "fs_put path records = sx_modify (\<lambda>w. w\<lparr>bw_fs := (bw_fs w)(path \<mapsto> records)\<rparr>)"

definition fs_remove :: "string \<Rightarrow> ('r block_world, unit) sx" where
  "fs_remove path = sx_modify (\<lambda>w. w\<lparr>bw_fs := (bw_fs w)(path := None)\<rparr>)"

definition fs_rename ::
    "rename_outcome \<Rightarrow> string \<Rightarrow> string \<Rightarrow> bool \<Rightarrow> ('r block_world, unit) sx" where
  "fs_rename outcome src dst overwrite w =
     (case bw_fs w src of
        None \<Rightarrow> (Inl OpError, w)
      | Some records \<Rightarrow>
          if outcome = Failed_before \<or> (\<not> overwrite \<and> bw_fs w dst \<noteq> None) then (Inl OpError, w)
          else ((if outcome = Failed_after then Inl OpError else Inr ()),
                w\<lparr>bw_fs := (bw_fs w)(src := None, dst \<mapsto> records)\<rparr>))"

definition partition_data_block_dir :: "'r block_env \<Rightarrow> int \<Rightarrow> string" where
  "partition_data_block_dir en p =
     path_join (path_join (be_output_base_dir en) ''data_block'') (partition_repr p)"

definition get_data_block_meta_path :: "'r block_env \<Rightarrow> int \<Rightarrow> int \<Rightarrow> string" where
  "get_data_block_meta_path en p i =
     path_join (partition_data_block_dir en p) (encode_data_block_meta_fname (be_name en) p i)"

definition data_block_path :: "'r block_env \<Rightarrow> int \<Rightarrow> data_block_meta \<Rightarrow> string" where
  "data_block_path en p m =
     path_join (partition_data_block_dir en p) (encode_data_block_fname (be_name en) m)"

definition gen_tmp_fpath :: "string \<Rightarrow> string \<Rightarrow> string" where
  "gen_tmp_fpath fdir uid = path_join fdir (uid @ ''.tmp'')"

definition load_data_block_meta ::
    "'r block_env \<Rightarrow> 'r block_fs \<Rightarrow> string \<Rightarrow> data_block_meta option result" where
  "load_data_block_meta en fs path =
     py_assert (suffix ''.meta'' path)
       (case fs path of
          None \<Rightarrow> Inr None
        | Some [] \<Rightarrow> Inl StopIteration
        | Some (record # _) \<Rightarrow> bind_result (be_parse en record) (\<lambda>m. Inr (Some m)))"

section \<open>\<open>DataBlockManager\<close>\<close>

definition block_dumped :: "'r block_env \<Rightarrow> int \<Rightarrow> 'r block_fs \<Rightarrow> int \<Rightarrow> bool" where
  "block_dumped en p fs i \<longleftrightarrow> fs (get_data_block_meta_path en p i) \<noteq> None"

definition sync_dumped_index :: "'r block_env \<Rightarrow> int \<Rightarrow> ('r block_world, unit) sx" where
  "sync_dumped_index en p =
     sx_bind sx_get (\<lambda>w.
       case (bw_dumped_index w, bw_dumping_index w) of
         (None, dumping) \<Rightarrow>
           sx_bind (sx_assert (dumping = None)) (\<lambda>_.
           sx_modify (\<lambda>w. w\<lparr>bw_dumped_index :=
             Some (boundary_search (block_dumped en p (bw_fs w)) 0 (2 ^ 63))\<rparr>))
       | (Some dumped, None) \<Rightarrow> sx_return ()
       | (Some dumped, Some dumping) \<Rightarrow>
           sx_bind (sx_assert (dumping = dumped + 1)) (\<lambda>_.
           if \<not> block_dumped en p (bw_fs w) dumping
           then sx_modify (\<lambda>w. w\<lparr>bw_dumping_index := None\<rparr>)
           else sx_modify (\<lambda>w. w\<lparr>bw_dumped_index := Some dumping, bw_dumping_index := None\<rparr>)))"

function evict_cache_if_full :: "(int \<times> data_block_meta) list \<Rightarrow> (int \<times> data_block_meta) list" where
  "evict_cache_if_full c = (if 1024 \<le> length c then evict_cache_if_full (butlast c) else c)"
  by pat_completeness auto
termination
  by (relation "measure length") auto

declare evict_cache_if_full.simps [simp del]

definition cache_put :: "int \<Rightarrow> data_block_meta \<Rightarrow> ('r block_world, unit) sx" where
  "cache_put i m = sx_modify (\<lambda>w. w\<lparr>bw_cache := AList.update i m (bw_cache w)\<rparr>)"

definition evict_data_block_cache :: "('r block_world, unit) sx" where
  "evict_data_block_cache = sx_modify (\<lambda>w. w\<lparr>bw_cache := evict_cache_if_full (bw_cache w)\<rparr>)"

text \<open>The comparison with a dumped index of \<open>None\<close> raises.\<close>

definition get_dumped_index :: "('r block_world, int) sx" where
  "get_dumped_index =
     sx_bind sx_get (\<lambda>w. case bw_dumped_index w of None \<Rightarrow> sx_raise TypeError | Some d \<Rightarrow> sx_return d)"

definition sync_data_block_meta ::
    "'r block_env \<Rightarrow> int \<Rightarrow> int \<Rightarrow> ('r block_world, data_block_meta option) sx" where
  "sync_data_block_meta en p index =
     sx_bind get_dumped_index (\<lambda>dumped.
     if dumped < 0 \<or> dumped < index then sx_return None
     else sx_bind sx_get (\<lambda>w.
       case map_of (bw_cache w) index of
         Some m \<Rightarrow> sx_return (Some m)
       | None \<Rightarrow>
           sx_bind evict_data_block_cache (\<lambda>_.
           case load_data_block_meta en (bw_fs w) (get_data_block_meta_path en p index) of
             Inl e \<Rightarrow> sx_raise e
           | Inr None \<Rightarrow> sx_raise ProcessExit
           | Inr (Some m) \<Rightarrow> sx_bind (cache_put index m) (\<lambda>_. sx_return (Some m)))))"

definition get_dumped_data_block_count :: "'r block_env \<Rightarrow> int \<Rightarrow> ('r block_world, int) sx" where
  "get_dumped_data_block_count en p =
     sx_bind (sync_dumped_index en p) (\<lambda>_.
     sx_bind get_dumped_index (\<lambda>d. sx_return (d + 1)))"

definition get_data_block_meta_by_index ::
    "'r block_env \<Rightarrow> int \<Rightarrow> int \<Rightarrow> ('r block_world, data_block_meta option) sx" where
  "get_data_block_meta_by_index en p index =
     (if index < 0 then sx_raise IndexError
      else sx_bind (sync_dumped_index en p) (\<lambda>_. sync_data_block_meta en p index))"

definition get_lastest_data_block_meta ::
    "'r block_env \<Rightarrow> int \<Rightarrow> ('r block_world, data_block_meta option) sx" where
  "get_lastest_data_block_meta en p =
     sx_bind (sync_dumped_index en p) (\<lambda>_.
     sx_bind get_dumped_index (\<lambda>d. sync_data_block_meta en p d))"

definition commit_data_block_meta ::
    "'r block_env \<Rightarrow> int \<Rightarrow> rename_outcome \<Rightarrow> string \<Rightarrow> data_block_meta \<Rightarrow> ('r block_world, unit) sx" where
  "commit_data_block_meta en p outcome tmp_meta_fpath m =
     sx_bind sx_get (\<lambda>w.
     if bw_fs w tmp_meta_fpath = None then sx_raise RuntimeError
     else if bw_dumping_index w \<noteq> None then sx_raise RuntimeError
     else sx_bind get_dumped_index (\<lambda>dumped.
       let index = bm_data_block_index m in
       if index \<noteq> dumped + 1 then sx_raise IndexError
       else
         sx_bind (sx_modify (\<lambda>w. w\<lparr>bw_dumping_index := Some index\<rparr>)) (\<lambda>_.
         sx_bind (fs_rename outcome tmp_meta_fpath (get_data_block_meta_path en p index) False) (\<lambda>_.
         sx_bind (sx_modify (\<lambda>w. w\<lparr>bw_dumped_index := Some index, bw_dumping_index := None\<rparr>)) (\<lambda>_.
         sx_bind evict_data_block_cache (\<lambda>_. cache_put index m))))))"

text \<open>The constructor, in a process that finds the files \<open>fs\<close>.\<close>

definition new_data_block_manager :: "'r block_env \<Rightarrow> int \<Rightarrow> 'r block_fs \<Rightarrow> unit result \<times> 'r block_world" where
  "new_data_block_manager en p fs =
     sync_dumped_index en p
       \<lparr>bw_fs = fs, bw_dumped_index = None, bw_dumping_index = None, bw_cache = []\<rparr>"

section \<open>\<open>DataBlockBuilder\<close>\<close>

record 'r block_item =
  it_example_id :: string
  it_event_time :: int
  it_id_type :: bool  \<comment> \<open>\<open>hasattr(item, 'id_type')\<close>\<close>
  it_record :: 'r

record 'r data_block_builder =
  bb_data_source_name :: string
  bb_partition_id :: int
  bb_dirname :: string
  bb_max_example_num :: "int option"
  bb_tmp_fpath :: string
  bb_written :: "'r list"
  bb_data_block_meta :: data_block_meta
  bb_example_num :: int
  bb_example_ids_size :: int
  bb_managed :: bool

definition empty_data_block_meta :: "int \<Rightarrow> int \<Rightarrow> data_block_meta" where
  "empty_data_block_meta p i =
     \<lparr>bm_block_id = '''', bm_partition_id = p, bm_data_block_index = i, bm_start_time = 0,
      bm_end_time = 0, bm_example_ids = [], bm_leader_start_index = 0, bm_leader_end_index = 0,
      bm_follower_restart_index = 0, bm_indices = [], bm_joined = [],
      bm_joiner_stats_info = \<lparr>si_stats_cum_join_num = 0, si_actual_cum_join_num = 0,
        si_leader_stats_index = 0, si_follower_stats_index = 0\<rparr>\<rparr>"

text \<open>The writer creates the temporary file when it is opened.\<close>

definition new_data_block_builder ::
    "'r block_env \<Rightarrow> int \<Rightarrow> int \<Rightarrow> int option \<Rightarrow> string \<Rightarrow> ('r block_world, 'r data_block_builder) sx" where
  "new_data_block_builder en p index max_example_num uid =
     (let dirname = path_join (be_output_base_dir en) ''data_block'';
          tmp = gen_tmp_fpath (path_join dirname (partition_repr p)) uid
      in sx_bind (fs_put tmp []) (\<lambda>_. sx_return
           \<lparr>bb_data_source_name = be_name en, bb_partition_id = p, bb_dirname = dirname,
            bb_max_example_num = max_example_num, bb_tmp_fpath = tmp, bb_written = [],
            bb_data_block_meta = empty_data_block_meta p index, bb_example_num = 0,
            bb_example_ids_size = 0, bb_managed = False\<rparr>))"

definition builder_data_block_dir :: "'r data_block_builder \<Rightarrow> string" where
  "builder_data_block_dir b = path_join (bb_dirname b) (partition_repr (bb_partition_id b))"

definition init_by_meta :: "data_block_meta \<Rightarrow> 'r data_block_builder \<Rightarrow> 'r data_block_builder" where
  "init_by_meta m b =
     b\<lparr>bb_partition_id := bm_partition_id m, bb_max_example_num := None, bb_data_block_meta := m\<rparr>"

definition set_data_block_manager :: "'r data_block_builder \<Rightarrow> 'r data_block_builder" where
  "set_data_block_manager b = b\<lparr>bb_managed := True\<rparr>"

definition set_follower_restart_index :: "int \<Rightarrow> 'r data_block_builder \<Rightarrow> 'r data_block_builder" where
  "set_follower_restart_index i b =
     b\<lparr>bb_data_block_meta := (bb_data_block_meta b)\<lparr>bm_follower_restart_index := i\<rparr>\<rparr>"

text \<open>\<open>MergeFrom\<close> leaves the fields alone that are 0 in its argument.\<close>

definition merge_stats_info :: "joiner_stats_info \<Rightarrow> joiner_stats_info \<Rightarrow> joiner_stats_info" where
  "merge_stats_info new old =
     (let merge = (\<lambda>f. if f new = 0 then f old else f new :: int)
      in \<lparr>si_stats_cum_join_num = merge si_stats_cum_join_num,
          si_actual_cum_join_num = merge si_actual_cum_join_num,
          si_leader_stats_index = merge si_leader_stats_index,
          si_follower_stats_index = merge si_follower_stats_index\<rparr>)"

definition set_join_stats_info :: "joiner_stats_info \<Rightarrow> 'r data_block_builder \<Rightarrow> 'r data_block_builder" where
  "set_join_stats_info info b =
     b\<lparr>bb_data_block_meta := (bb_data_block_meta b)\<lparr>bm_joiner_stats_info :=
       merge_stats_info info (bm_joiner_stats_info (bb_data_block_meta b))\<rparr>\<rparr>"

definition set_meta :: "(data_block_meta \<Rightarrow> data_block_meta) \<Rightarrow> ('r data_block_builder, unit) sx" where
  "set_meta f = sx_modify (\<lambda>b. b\<lparr>bb_data_block_meta := f (bb_data_block_meta b)\<rparr>)"

definition write_item :: "'r block_item \<Rightarrow> ('r data_block_builder, unit) sx" where
  "write_item item =
     sx_modify (\<lambda>b. b\<lparr>bb_written := bb_written b @ [it_record item],
                       bb_example_num := bb_example_num b + 1\<rparr>)"

text \<open>The indices and the time window of the meta.\<close>

definition check_leader_index :: "bool \<Rightarrow> int \<Rightarrow> ('r data_block_builder, unit) sx" where
  "check_leader_index allow_dup leader_index =
     sx_bind sx_get (\<lambda>b.
       let m = bb_data_block_meta b in
       if \<not> allow_dup
       then sx_bind (sx_assert (bm_leader_start_index m < leader_index)) (\<lambda>_.
            sx_assert (bm_leader_end_index m < leader_index))
       else sx_bind (sx_assert (bm_leader_start_index m \<le> leader_index)) (\<lambda>_.
            sx_assert (bm_leader_end_index m \<le> leader_index)))"

definition widen_window :: "int \<Rightarrow> int \<Rightarrow> data_block_meta \<Rightarrow> data_block_meta" where
  "widen_window leader_index t m =
     m\<lparr>bm_leader_end_index := leader_index,
       bm_start_time := (if t < bm_start_time m then t else bm_start_time m),
       bm_end_time := (if bm_end_time m < t then t else bm_end_time m)\<rparr>"

definition append_item ::
    "'r block_env \<Rightarrow> 'r block_item \<Rightarrow> int \<Rightarrow> int \<Rightarrow> int option \<Rightarrow> bool \<Rightarrow> int \<Rightarrow>
     ('r data_block_builder, unit) sx" where
  "append_item en item leader_index follower_index event_time allow_dup joined =
     (let t = (case event_time of None \<Rightarrow> it_event_time item | Some t \<Rightarrow> t) in
      sx_bind (set_meta (\<lambda>m. m\<lparr>bm_example_ids := bm_example_ids m @ [it_example_id item]\<rparr>)) (\<lambda>_.
      sx_bind (if it_id_type item
               then set_meta (\<lambda>m. m\<lparr>bm_indices := bm_indices m @ [leader_index]\<rparr>)
               else sx_return ()) (\<lambda>_.
      sx_bind (if joined \<noteq> - 1
               then set_meta (\<lambda>m. m\<lparr>bm_joined := bm_joined m @ [joined]\<rparr>)
               else sx_return ()) (\<lambda>_.
      sx_bind (sx_modify (\<lambda>b. b\<lparr>bb_example_ids_size :=
                 bb_example_ids_size b + int (length (it_example_id item))\<rparr>)) (\<lambda>_.
      sx_bind sx_get (\<lambda>b.
      sx_bind
        (if bb_example_num b = 0
         then set_meta (\<lambda>m. m\<lparr>bm_leader_start_index := leader_index,
                bm_leader_end_index := leader_index, bm_start_time := t, bm_end_time := t\<rparr>)
         else sx_bind (check_leader_index allow_dup leader_index) (\<lambda>_.
              set_meta (widen_window leader_index t))) (\<lambda>_.
      write_item
        (if joined \<noteq> - 1 then item\<lparr>it_record := be_add_joined en joined (it_record item)\<rparr>
         else item))))))))"

definition check_data_block_full :: "'r data_block_builder \<Rightarrow> bool" where
  "check_data_block_full b =
     (if push_bit 20 3 \<le> bb_example_ids_size b then True
      else case bb_max_example_num b of
             None \<Rightarrow> False
           | Some n \<Rightarrow> n \<le> int (length (bm_example_ids (bb_data_block_meta b))))"

definition get_data_block_meta :: "'r data_block_builder \<Rightarrow> data_block_meta option" where
  "get_data_block_meta b =
     (if 0 < length (bm_example_ids (bb_data_block_meta b)) then Some (bb_data_block_meta b) else None)"

definition example_count :: "'r data_block_builder \<Rightarrow> int" where
  "example_count b = int (length (bm_example_ids (bb_data_block_meta b)))"

text \<open>
  \<open>_build_data_block_meta\<close> and \<open>finish_data_block\<close>. Two fresh temporary names and the
  outcomes of the two renames are arguments; the manager is the one of partition \<open>p\<close>.
\<close>

definition build_data_block_meta ::
    "'r block_env \<Rightarrow> int \<Rightarrow> string \<Rightarrow> rename_outcome \<Rightarrow> 'r data_block_builder \<Rightarrow> data_block_meta \<Rightarrow>
     ('r block_world, unit) sx" where
  "build_data_block_meta en p uid outcome b m =
     (let tmp = gen_tmp_fpath (builder_data_block_dir b) uid in
      sx_bind (fs_put tmp [be_print en m]) (\<lambda>_.
      if bb_managed b then commit_data_block_meta en p outcome tmp m
      else fs_rename outcome tmp
             (path_join (builder_data_block_dir b)
               (encode_data_block_meta_fname (bb_data_source_name b) (bb_partition_id b)
                 (bm_data_block_index m))) False))"

definition finish_data_block ::
    "'r block_env \<Rightarrow> int \<Rightarrow> string \<Rightarrow> rename_outcome \<Rightarrow> rename_outcome \<Rightarrow> 'r data_block_builder \<Rightarrow>
     ('r block_world, data_block_meta option) sx" where
  "finish_data_block en p uid data_outcome meta_outcome b =
     (let m = bb_data_block_meta b in
      sx_bind (sx_assert (bb_example_num b = int (length (bm_example_ids m)))) (\<lambda>_.
      sx_bind (fs_put (bb_tmp_fpath b) (bb_written b)) (\<lambda>_.
      if 0 < length (bm_example_ids m)
      then let m = m\<lparr>bm_block_id := encode_block_id (bb_data_source_name b) m\<rparr> in
        sx_bind (fs_rename data_outcome (bb_tmp_fpath b)
                  (path_join (builder_data_block_dir b)
                    (encode_data_block_fname (bb_data_source_name b) m)) True) (\<lambda>_.
        sx_bind (build_data_block_meta en p uid meta_outcome b m) (\<lambda>_. sx_return (Some m)))
      else sx_bind (fs_remove (bb_tmp_fpath b)) (\<lambda>_. sx_return None))))"

section \<open>Paths do not clash\<close>

lemma path_join_inj:
  "prefix ''/'' f \<longleftrightarrow> prefix ''/'' g \<Longrightarrow> path_join d f = path_join d g \<longleftrightarrow> f = g"
  by (auto simp: path_join_def)

lemma path_join_suffix: "suffix s b \<Longrightarrow> suffix s (path_join a b)"
  by (auto simp: path_join_def suffix_def)

lemma suffix_clash:
  assumes "suffix s a" "suffix t b" "length s = length t" "s \<noteq> t"
  shows "a \<noteq> b"
  using assms by (auto simp: suffix_def)

lemma sep_split:
  assumes "c \<notin> set a" "c \<notin> set b"
  shows "a @ c # xs = b @ c # ys \<longleftrightarrow> a = b \<and> xs = ys"
  using assms
proof (induction a arbitrary: b)
  case Nil
  then show ?case by (cases b) auto
next
  case (Cons d a)
  then show ?case by (cases b) auto
qed

lemma same_first_char: "prefix ''/'' (name @ CHR ''.'' # xs) \<longleftrightarrow> prefix ''/'' (name @ CHR ''.'' # ys)"
  by (cases name) auto

lemma meta_path_inj [simp]:
  "get_data_block_meta_path en p i = get_data_block_meta_path en p j \<longleftrightarrow> i = j"
  using path_join_inj [of "encode_data_block_meta_fname (be_name en) p i"
      "encode_data_block_meta_fname (be_name en) p j"]
  by (simp add: get_data_block_meta_path_def encode_data_block_meta_fname_def same_first_char)

lemma data_path_index:
  assumes "data_block_path en p m = data_block_path en p m'" "bm_partition_id m = bm_partition_id m'"
  shows "bm_data_block_index m = bm_data_block_index m'"
proof -
  have "prefix ''/'' (encode_data_block_fname (be_name en) m) \<longleftrightarrow>
      prefix ''/'' (encode_data_block_fname (be_name en) m')"
    by (simp add: encode_data_block_fname_def encode_block_id_def same_first_char)
  then have "encode_data_block_fname (be_name en) m = encode_data_block_fname (be_name en) m'"
    using assms(1) path_join_inj by (simp add: data_block_path_def)
  then show ?thesis
    using assms(2) by (simp add: encode_data_block_fname_def encode_block_id_def sep_split)
qed

lemma path_suffixes [simp]:
  "suffix ''.meta'' (get_data_block_meta_path en p i)"
  "suffix ''.data'' (data_block_path en p m)"
  "suffix ''.tmp'' (gen_tmp_fpath d uid)"
  by (auto simp: get_data_block_meta_path_def data_block_path_def gen_tmp_fpath_def
      encode_data_block_meta_fname_def encode_data_block_fname_def suffix_def
      intro!: path_join_suffix [unfolded suffix_def])

lemma suffix_last: "suffix s a \<Longrightarrow> s \<noteq> [] \<Longrightarrow> last a = last s"
  by (auto simp: suffix_def)

lemma paths_differ [simp]:
  "get_data_block_meta_path en p i \<noteq> data_block_path en p m"
  "data_block_path en p m \<noteq> get_data_block_meta_path en p i"
  using suffix_clash [OF path_suffixes(1) path_suffixes(2), of en p i en p m] by auto

lemma tmp_differs [simp]:
  assumes "suffix ''.tmp'' t"
  shows "t \<noteq> get_data_block_meta_path en p i" "get_data_block_meta_path en p i \<noteq> t"
    "t \<noteq> data_block_path en p m" "data_block_path en p m \<noteq> t"
  using suffix_last [OF assms] suffix_last [OF path_suffixes(1), of en p i]
    suffix_last [OF path_suffixes(2), of en p m] by auto

section \<open>The invariant of a partition's blocks\<close>

text \<open>
  \<open>block_published\<close>: meta file \<open>i\<close> holds a meta of that index whose data file is there with
  one record per example. \<open>blocks_ok en p n\<close>: the published blocks are \<open>0, \<dots>, n - 1\<close>, the manager
  knows so or is in the middle of a commit, and its cache holds metas of the disk.
\<close>

definition block_published :: "'r block_env \<Rightarrow> int \<Rightarrow> 'r block_fs \<Rightarrow> int \<Rightarrow> data_block_meta \<Rightarrow> bool" where
  "block_published en p fs i m \<longleftrightarrow>
     fs (get_data_block_meta_path en p i) = Some [be_print en m] \<and>
     bm_data_block_index m = i \<and> bm_partition_id m = p \<and>
     (\<exists>rs. fs (data_block_path en p m) = Some rs \<and> rs \<noteq> [] \<and> length rs = length (bm_example_ids m))"

definition files_ok :: "'r block_env \<Rightarrow> int \<Rightarrow> int \<Rightarrow> 'r block_fs \<Rightarrow> bool" where
  "files_ok en p n fs \<longleftrightarrow>
     0 \<le> n \<and> (\<forall>i. 0 \<le> i \<longrightarrow> block_dumped en p fs i \<longleftrightarrow> i < n) \<and>
     (\<forall>i. 0 \<le> i \<longrightarrow> i < n \<longrightarrow> (\<exists>m. block_published en p fs i m))"

definition cache_ok :: "'r block_env \<Rightarrow> int \<Rightarrow> int \<Rightarrow> 'r block_fs \<Rightarrow> (int \<times> data_block_meta) list \<Rightarrow> bool" where
  "cache_ok en p n fs c \<longleftrightarrow>
     length c \<le> 1024 \<and>
     (\<forall>i m. (i, m) \<in> set c \<longrightarrow> 0 \<le> i \<and> i < n \<and> block_published en p fs i m)"

fun index_ok :: "int \<Rightarrow> int option \<Rightarrow> int option \<Rightarrow> bool" where
  "index_ok n None dumping \<longleftrightarrow> dumping = None"
| "index_ok n (Some d) None \<longleftrightarrow> n = d + 1"
| "index_ok n (Some d) (Some g) \<longleftrightarrow> 0 \<le> g \<and> g = d + 1 \<and> (n = g \<or> n = g + 1)"

definition blocks_ok :: "'r block_env \<Rightarrow> int \<Rightarrow> int \<Rightarrow> 'r block_world \<Rightarrow> bool" where
  "blocks_ok en p n w \<longleftrightarrow>
     files_ok en p n (bw_fs w) \<and> cache_ok en p n (bw_fs w) (bw_cache w) \<and>
     index_ok n (bw_dumped_index w) (bw_dumping_index w)"

definition block_synced :: "int \<Rightarrow> 'r block_world \<Rightarrow> bool" where
  "block_synced n w \<longleftrightarrow> bw_dumped_index w = Some (n - 1) \<and> bw_dumping_index w = None"

lemma sync_spec:
  assumes "blocks_ok en p n w" "n \<le> 2 ^ 63 + 1"
  shows "sync_dumped_index en p w =
    (Inr (), w\<lparr>bw_dumped_index := Some (n - 1), bw_dumping_index := None\<rparr>)"
proof -
  have ex: "0 \<le> n" "\<And>i. 0 \<le> i \<Longrightarrow> block_dumped en p (bw_fs w) i \<longleftrightarrow> i < n"
    using assms(1) by (auto simp: blocks_ok_def files_ok_def)
  have search: "boundary_search (block_dumped en p (bw_fs w)) 0 (2 ^ 63) = n - 1"
    using ex assms(2) by (intro boundary_search_finds) auto
  have "index_ok n (bw_dumped_index w) (bw_dumping_index w)" using assms(1) by (simp add: blocks_ok_def)
  then show ?thesis using search ex
    by (cases "bw_dumped_index w"; cases "bw_dumping_index w")
      (auto simp: sync_dumped_index_def sx_assert_def)
qed

lemma synced_ok:
  "blocks_ok en p n w \<Longrightarrow>
     blocks_ok en p n (w\<lparr>bw_dumped_index := Some (n - 1), bw_dumping_index := None\<rparr>)"
  by (simp add: blocks_ok_def)

lemma evict_length: "length (evict_cache_if_full c) \<le> length c \<and> length (evict_cache_if_full c) < 1024"
proof (induction c rule: evict_cache_if_full.induct)
  case (1 c)
  then show ?case by (cases "1024 \<le> length c") (auto simp: evict_cache_if_full.simps [of c])
qed

lemma evict_subset: "set (evict_cache_if_full c) \<subseteq> set c"
proof (induction c rule: evict_cache_if_full.induct)
  case (1 c)
  then show ?case
    by (cases "1024 \<le> length c") (auto simp: evict_cache_if_full.simps [of c] dest: in_set_butlastD)
qed

lemma set_update_subset: "set (AList.update k v c) \<subseteq> insert (k, v) (set c)"
  by (induction c) auto

lemma length_update_le: "length (AList.update k v c) \<le> Suc (length c)"
  by (induction c) auto

lemma cache_ok_put:
  assumes "cache_ok en p n fs c" "0 \<le> i" "i < n" "block_published en p fs i m"
  shows "cache_ok en p n fs (AList.update i m (evict_cache_if_full c))"
proof -
  have "length (AList.update i m (evict_cache_if_full c)) \<le> 1024"
    using length_update_le [of i m "evict_cache_if_full c"] evict_length [of c] by linarith
  then show ?thesis
    using assms set_update_subset [of i m "evict_cache_if_full c"] evict_subset [of c]
    by (auto simp: cache_ok_def)
qed

lemma cache_ok_evict: "cache_ok en p n fs c \<Longrightarrow> cache_ok en p n fs (evict_cache_if_full c)"
  using evict_length [of c] evict_subset [of c] by (fastforce simp: cache_ok_def)

lemma dumped_then:
  "bw_dumped_index w = Some d \<Longrightarrow> sx_bind get_dumped_index g w = g d w"
  by (simp add: get_dumped_index_def sx_bind_def)

lemma block_sync_then:
  "blocks_ok en p n w \<Longrightarrow> n \<le> 2 ^ 63 + 1 \<Longrightarrow> sx_bind (sync_dumped_index en p) g w =
     g () (w\<lparr>bw_dumped_index := Some (n - 1), bw_dumping_index := None\<rparr>)"
  by (simp add: sync_spec sx_bind_def)

lemma count_spec:
  assumes "blocks_ok en p n w" "n \<le> 2 ^ 63 + 1"
  shows "get_dumped_data_block_count en p w =
    (Inr n, w\<lparr>bw_dumped_index := Some (n - 1), bw_dumping_index := None\<rparr>)"
  by (simp add: get_dumped_data_block_count_def block_sync_then [OF assms] dumped_then)

lemma load_published:
  assumes "block_codec_ok en" "block_published en p fs i m"
  shows "load_data_block_meta en fs (get_data_block_meta_path en p i) = Inr (Some m)"
  using assms by (simp add: load_data_block_meta_def block_published_def block_codec_ok_def py_assert_def)

text \<open>What a lookup gives: the published meta, and nothing beyond the last block.\<close>

lemma sync_meta_spec:
  assumes ok: "blocks_ok en p n w" and codec: "block_codec_ok en" and syn: "block_synced n w"
    and i: "0 \<le> i" "i < n"
  shows "\<exists>m w'. sync_data_block_meta en p i w = (Inr (Some m), w') \<and> bw_fs w' = bw_fs w \<and>
    block_published en p (bw_fs w) i m \<and> blocks_ok en p n w' \<and> block_synced n w'"
proof (cases "map_of (bw_cache w) i")
  case (Some m)
  have "block_published en p (bw_fs w) i m"
    using map_of_SomeD [OF Some] ok by (auto simp: blocks_ok_def cache_ok_def)
  moreover have "sync_data_block_meta en p i w = (Inr (Some m), w)"
    using Some syn i by (simp add: sync_data_block_meta_def block_synced_def dumped_then)
  ultimately show ?thesis using ok syn by blast
next
  case None
  obtain m where m: "block_published en p (bw_fs w) i m"
    using ok i by (auto simp: blocks_ok_def files_ok_def)
  let ?w = "w\<lparr>bw_cache := AList.update i m (evict_cache_if_full (bw_cache w))\<rparr>"
  have "sync_data_block_meta en p i w = (Inr (Some m), ?w)"
    using None syn i load_published [OF codec m]
    by (simp add: sync_data_block_meta_def block_synced_def dumped_then
        evict_data_block_cache_def cache_put_def)
  moreover have "blocks_ok en p n ?w"
    using ok cache_ok_put [OF _ i m] by (simp add: blocks_ok_def)
  ultimately show ?thesis using m syn by (auto simp: block_synced_def)
qed

lemma sync_meta_beyond:
  assumes "block_synced n w" "n \<le> i \<or> n \<le> 0"
  shows "sync_data_block_meta en p i w = (Inr None, w)"
  using assms by (auto simp: sync_data_block_meta_def block_synced_def dumped_then)

lemma synced_record [simp]:
  "block_synced n (w\<lparr>bw_dumped_index := Some (n - 1), bw_dumping_index := None\<rparr>)"
  by (simp add: block_synced_def)

lemma get_meta_spec:
  assumes ok: "blocks_ok en p n w" "n \<le> 2 ^ 63 + 1" and codec: "block_codec_ok en"
  shows "\<exists>r w'. get_data_block_meta_by_index en p i w = (r, w') \<and> bw_fs w' = bw_fs w \<and>
    blocks_ok en p n w' \<and>
    (if i < 0 then r = Inl IndexError else if i < n
     then \<exists>m. r = Inr (Some m) \<and> block_published en p (bw_fs w) i m else r = Inr None)"
proof -
  let ?w = "w\<lparr>bw_dumped_index := Some (n - 1), bw_dumping_index := None\<rparr>"
  consider "i < 0" | "0 \<le> i" "i < n" | "0 \<le> i" "n \<le> i" by linarith
  then show ?thesis
  proof cases
    case 1
    then show ?thesis using ok by (auto simp: get_data_block_meta_by_index_def)
  next
    case 2
    then show ?thesis
      using sync_meta_spec [OF synced_ok [OF ok(1)] codec synced_record 2]
      by (auto simp: get_data_block_meta_by_index_def block_sync_then [OF ok])
  next
    case 3
    then show ?thesis
      using sync_meta_beyond [of n ?w i en p] synced_ok [OF ok(1)]
      by (auto simp: get_data_block_meta_by_index_def block_sync_then [OF ok])
  qed
qed

lemma latest_spec:
  assumes ok: "blocks_ok en p n w" "n \<le> 2 ^ 63 + 1" and codec: "block_codec_ok en"
  shows "\<exists>r w'. get_lastest_data_block_meta en p w = (r, w') \<and> bw_fs w' = bw_fs w \<and>
    blocks_ok en p n w' \<and>
    (if n = 0 then r = Inr None
     else \<exists>m. r = Inr (Some m) \<and> block_published en p (bw_fs w) (n - 1) m)"
proof -
  let ?w = "w\<lparr>bw_dumped_index := Some (n - 1), bw_dumping_index := None\<rparr>"
  have "0 \<le> n" using ok by (simp add: blocks_ok_def files_ok_def)
  have run: "get_lastest_data_block_meta en p w = sync_data_block_meta en p (n - 1) ?w"
    by (simp add: get_lastest_data_block_meta_def block_sync_then [OF ok]
        dumped_then)
  show ?thesis
  proof (cases "n = 0")
    case True
    then show ?thesis
      using sync_meta_beyond [of n ?w "n - 1" en p] synced_record [of n w] synced_ok [OF ok(1)] run
      by auto
  next
    case False
    then have "0 \<le> n - 1" "n - 1 < n" using \<open>0 \<le> n\<close> by auto
    then show ?thesis
      using sync_meta_spec [OF synced_ok [OF ok(1)] codec synced_record, of "n - 1"] run False by auto
  qed
qed

section \<open>Publishing a block\<close>

text \<open>
  Writes that leave the published blocks alone: anything that is not a meta file of the
  partition nor the data file of one of its first \<open>n\<close> blocks.
\<close>

definition foreign_path :: "'r block_env \<Rightarrow> int \<Rightarrow> int \<Rightarrow> string \<Rightarrow> bool" where
  "foreign_path en p n path \<longleftrightarrow>
     (\<forall>i. path \<noteq> get_data_block_meta_path en p i) \<and>
     (\<forall>m. bm_partition_id m = p \<longrightarrow> bm_data_block_index m < n \<longrightarrow> path \<noteq> data_block_path en p m)"

lemma foreign_tmp: "suffix ''.tmp'' path \<Longrightarrow> foreign_path en p n path"
  by (simp add: foreign_path_def)

lemma foreign_data:
  "bm_partition_id m = p \<Longrightarrow> n \<le> bm_data_block_index m \<Longrightarrow> foreign_path en p n (data_block_path en p m)"
  unfolding foreign_path_def using data_path_index [of en p m] paths_differ(2) by (metis not_le)

lemma published_foreign:
  assumes "foreign_path en p n path" "i < n"
  shows "block_published en p (fs(path := x)) i m \<longleftrightarrow> block_published en p fs i m"
  using assms by (auto simp: block_published_def foreign_path_def)

lemma dumped_foreign:
  "foreign_path en p n path \<Longrightarrow> block_dumped en p (fs(path := x)) i \<longleftrightarrow> block_dumped en p fs i"
  by (auto simp: block_dumped_def foreign_path_def)

lemma files_ok_foreign:
  "foreign_path en p n path \<Longrightarrow> files_ok en p n (fs(path := x)) \<longleftrightarrow> files_ok en p n fs"
  by (auto simp: files_ok_def published_foreign dumped_foreign)

lemma cache_ok_foreign:
  "foreign_path en p n path \<Longrightarrow> cache_ok en p n (fs(path := x)) c \<longleftrightarrow> cache_ok en p n fs c"
proof -
  assume f: "foreign_path en p n path"
  have "(0 \<le> i \<and> i < n \<and> block_published en p (fs(path := x)) i m) =
      (0 \<le> i \<and> i < n \<and> block_published en p fs i m)" for i m
    using published_foreign [OF f, of i fs x m] by blast
  then show ?thesis unfolding cache_ok_def by presburger
qed

lemma blocks_ok_foreign:
  "foreign_path en p n path \<Longrightarrow>
     blocks_ok en p n (w\<lparr>bw_fs := (bw_fs w)(path := x)\<rparr>) \<longleftrightarrow> blocks_ok en p n w"
  by (simp add: blocks_ok_def files_ok_foreign cache_ok_foreign)

text \<open>The rename of the meta file is the step that publishes.\<close>

lemma published_meta_other:
  assumes "j \<noteq> i"
  shows "block_published en p (fs(get_data_block_meta_path en p i := x)) j m \<longleftrightarrow>
         block_published en p fs j m"
  using assms by (auto simp: block_published_def)

lemma files_ok_publish:
  assumes "files_ok en p n fs" "bm_data_block_index m = n" "bm_partition_id m = p"
    and "fs (data_block_path en p m) = Some rs" "rs \<noteq> []" "length rs = length (bm_example_ids m)"
  shows "files_ok en p (n + 1) (fs(get_data_block_meta_path en p n \<mapsto> [be_print en m]))"
    and "block_published en p (fs(get_data_block_meta_path en p n \<mapsto> [be_print en m])) n m"
proof -
  let ?fs = "fs(get_data_block_meta_path en p n \<mapsto> [be_print en m])"
  show pub: "block_published en p ?fs n m" using assms by (auto simp: block_published_def)
  have "\<exists>m. block_published en p ?fs i m" if i: "0 \<le> i" "i < n + 1" for i
  proof (cases "i = n")
    case False
    then have "i < n" using i by simp
    then obtain m' where "block_published en p fs i m'"
      using i(1) assms(1) unfolding files_ok_def by blast
    then show ?thesis using published_meta_other [OF False] by blast
  qed (use pub in blast)
  moreover have "block_dumped en p ?fs i \<longleftrightarrow> i < n + 1" if "0 \<le> i" for i
    using assms(1) that by (auto simp: files_ok_def block_dumped_def)
  ultimately show "files_ok en p (n + 1) ?fs" using assms(1) by (simp add: files_ok_def)
qed

lemma cache_ok_publish:
  assumes "cache_ok en p n fs c"
  shows "cache_ok en p (n + 1) (fs(get_data_block_meta_path en p n := x)) c"
  unfolding cache_ok_def
proof (intro conjI allI impI)
  fix i m assume "(i, m) \<in> set c"
  then have "0 \<le> i" "i < n" "block_published en p fs i m" using assms by (auto simp: cache_ok_def)
  then show "0 \<le> i" "i < n + 1"
    "block_published en p (fs(get_data_block_meta_path en p n := x)) i m"
    by (auto simp: published_meta_other)
qed (use assms in \<open>simp add: cache_ok_def\<close>)

lemma sx_modify_run: "sx_modify f w = (Inr (), f w)"
  by simp

lemma commit_guards:
  assumes "blocks_ok en p n w" "block_synced n w" "bw_fs w tmp = Some [be_print en m]"
    and "bm_data_block_index m = n"
  shows "commit_data_block_meta en p outcome tmp m w =
    sx_bind (fs_rename outcome tmp (get_data_block_meta_path en p n) False) (\<lambda>_.
    sx_bind (sx_modify (\<lambda>w. w\<lparr>bw_dumped_index := Some n, bw_dumping_index := None\<rparr>)) (\<lambda>_.
    sx_bind evict_data_block_cache (\<lambda>_. cache_put n m))) (w\<lparr>bw_dumping_index := Some n\<rparr>)"
  using assms by (simp add: commit_data_block_meta_def block_synced_def dumped_then)

lemma rename_meta_run:
  assumes "blocks_ok en p n w" "bw_fs w tmp = Some [be_print en m]"
  shows "fs_rename outcome tmp (get_data_block_meta_path en p n) False w =
    (if outcome = Failed_before then (Inl OpError, w)
     else (if outcome = Failed_after then Inl OpError else Inr (),
       w\<lparr>bw_fs := (bw_fs w)(tmp := None, get_data_block_meta_path en p n \<mapsto> [be_print en m])\<rparr>))"
proof -
  have "bw_fs w (get_data_block_meta_path en p n) = None"
    using assms(1) by (auto simp: blocks_ok_def files_ok_def block_dumped_def)
  then show ?thesis using assms(2) by (auto simp: fs_rename_def)
qed

lemma blocks_ok_dumping:
  assumes "blocks_ok en p n w" "block_synced n w"
  shows "blocks_ok en p n (w\<lparr>bw_dumping_index := Some n\<rparr>)"
  using assms by (auto simp: blocks_ok_def block_synced_def files_ok_def)

lemma blocks_ok_publish:
  assumes ok: "blocks_ok en p n w" and syn: "block_synced n w" and tmp: "suffix ''.tmp'' tmp"
    and m: "bm_data_block_index m = n" "bm_partition_id m = p"
    and data: "bw_fs w (data_block_path en p m) = Some rs" "rs \<noteq> []"
      "length rs = length (bm_example_ids m)"
  defines "fs \<equiv> (bw_fs w)(tmp := None, get_data_block_meta_path en p n \<mapsto> [be_print en m])"
  shows "files_ok en p (n + 1) fs" "block_published en p fs n m"
    "cache_ok en p (n + 1) fs (bw_cache w)"
proof -
  have f: "files_ok en p n ((bw_fs w)(tmp := None))" "cache_ok en p n ((bw_fs w)(tmp := None)) (bw_cache w)"
    using ok by (simp_all add: blocks_ok_def files_ok_foreign cache_ok_foreign foreign_tmp [OF tmp])
  have d: "((bw_fs w)(tmp := None)) (data_block_path en p m) = Some rs"
    using data(1) tmp_differs [OF tmp] by simp
  show "files_ok en p (n + 1) fs" "block_published en p fs n m"
    unfolding fs_def using files_ok_publish [OF f(1) m d data(2,3)] by blast+
  show "cache_ok en p (n + 1) fs (bw_cache w)"
    unfolding fs_def by (rule cache_ok_publish [OF f(2)])
qed

text \<open>
  A commit publishes block \<open>n\<close> when its rename took effect, whether or not it reported so,
  and the manager knows it or recovers it at the next synchronisation.
\<close>

lemma commit_spec:
  assumes ok: "blocks_ok en p n w" and syn: "block_synced n w" and tmp: "suffix ''.tmp'' tmp"
    and rec: "bw_fs w tmp = Some [be_print en m]"
    and m: "bm_data_block_index m = n" "bm_partition_id m = p"
    and data: "bw_fs w (data_block_path en p m) = Some rs" "rs \<noteq> []"
      "length rs = length (bm_example_ids m)"
    and run: "commit_data_block_meta en p outcome tmp m w = (r, w')"
  shows "r = (if outcome = Renamed then Inr () else Inl OpError)"
    and "blocks_ok en p (if outcome = Failed_before then n else n + 1) w'"
    and "outcome = Renamed \<Longrightarrow> block_synced (n + 1) w'"
    and "outcome \<noteq> Failed_before \<Longrightarrow> bw_fs w' =
      (bw_fs w)(tmp := None, get_data_block_meta_path en p n \<mapsto> [be_print en m])"
proof -
  let ?fs = "(bw_fs w)(tmp := None, get_data_block_meta_path en p n \<mapsto> [be_print en m])"
  let ?w = "w\<lparr>bw_dumping_index := Some n\<rparr>"
  have okd: "blocks_ok en p n ?w" by (rule blocks_ok_dumping [OF ok syn])
  have g: "commit_data_block_meta en p outcome tmp m w =
    (if outcome = Failed_before then (Inl OpError, ?w)
     else if outcome = Failed_after then (Inl OpError, ?w\<lparr>bw_fs := ?fs\<rparr>)
     else (Inr (), ?w\<lparr>bw_fs := ?fs, bw_dumped_index := Some n, bw_dumping_index := None,
        bw_cache := AList.update n m (evict_cache_if_full (bw_cache w))\<rparr>))"
    unfolding commit_guards [OF ok syn rec m(1)]
    using rename_meta_run [OF okd, of tmp m outcome] rec
    by (cases outcome) (simp_all add: sx_bind_def evict_data_block_cache_def cache_put_def)
  note pub = blocks_ok_publish [OF ok syn tmp m data]
  have n: "0 \<le> n" "bw_dumped_index w = Some (n - 1)"
    using ok syn by (auto simp: blocks_ok_def files_ok_def block_synced_def)
  have c: "cache_ok en p (n + 1) ?fs (AList.update n m (evict_cache_if_full (bw_cache w)))"
    using cache_ok_put [OF pub(3) n(1) _ pub(2)] by simp
  show "r = (if outcome = Renamed then Inr () else Inl OpError)"
    using g run by (cases outcome) auto
  show "blocks_ok en p (if outcome = Failed_before then n else n + 1) w'"
    using g run okd pub c n by (cases outcome) (auto simp: blocks_ok_def)
  show "outcome = Renamed \<Longrightarrow> block_synced (n + 1) w'"
    using g run by (auto simp: block_synced_def)
  show "outcome \<noteq> Failed_before \<Longrightarrow> bw_fs w' = ?fs"
    using g run by (cases outcome) auto
qed

text \<open>What a builder of the joiner satisfies from its creation to its end.\<close>

definition builder_ok :: "'r block_env \<Rightarrow> int \<Rightarrow> int \<Rightarrow> 'r data_block_builder \<Rightarrow> bool" where
  "builder_ok en p n b \<longleftrightarrow>
     bb_data_source_name b = be_name en \<and> bb_partition_id b = p \<and>
     bb_dirname b = path_join (be_output_base_dir en) ''data_block'' \<and>
     suffix ''.tmp'' (bb_tmp_fpath b) \<and> bb_managed b \<and>
     bm_partition_id (bb_data_block_meta b) = p \<and> bm_data_block_index (bb_data_block_meta b) = n \<and>
     int (length (bb_written b)) = bb_example_num b"

lemma builder_ok_set_meta:
  assumes "\<And>m. bm_partition_id (f m) = bm_partition_id m"
    "\<And>m. bm_data_block_index (f m) = bm_data_block_index m"
  shows "sx_keeps (builder_ok en p n) (set_meta f)"
  unfolding set_meta_def using assms by (intro sx_keeps_modify) (auto simp: builder_ok_def)

lemma builder_ok_check: "sx_keeps (builder_ok en p n) (check_leader_index d i)"
  by (auto simp: sx_keeps_def check_leader_index_def Let_def sx_assert_def sx_bind_def)

lemma builder_ok_write: "sx_keeps (builder_ok en p n) (write_item item)"
  unfolding write_item_def by (intro sx_keeps_modify) (auto simp: builder_ok_def)

lemma builder_ok_append: "sx_keeps (builder_ok en p n) (append_item en item i j t d k)"
  unfolding append_item_def Let_def
  by (intro sx_keeps_bind sx_keeps_if builder_ok_set_meta builder_ok_check builder_ok_write
      sx_keeps_return sx_keeps_get sx_keeps_modify)
    (auto simp: builder_ok_def widen_window_def)

lemma builder_paths:
  assumes "builder_ok en p n b"
  shows "builder_data_block_dir b = partition_data_block_dir en p"
    and "bb_data_source_name b = be_name en"
  using assms by (simp_all add: builder_ok_def builder_data_block_dir_def partition_data_block_dir_def)

definition finished_meta :: "'r block_env \<Rightarrow> 'r data_block_builder \<Rightarrow> data_block_meta" where
  "finished_meta en b =
     (bb_data_block_meta b)\<lparr>bm_block_id := encode_block_id (be_name en) (bb_data_block_meta b)\<rparr>"

lemma finished_meta_fields:
  assumes "builder_ok en p n b"
  shows "bm_partition_id (finished_meta en b) = p" "bm_data_block_index (finished_meta en b) = n"
    "bm_example_ids (finished_meta en b) = bm_example_ids (bb_data_block_meta b)"
  using assms by (auto simp: finished_meta_def builder_ok_def)

lemma rename_data_run:
  assumes "bw_fs w src = Some rs"
  shows "fs_rename outcome src dst True w =
    (if outcome = Failed_before then (Inl OpError, w)
     else (if outcome = Failed_after then Inl OpError else Inr (),
       w\<lparr>bw_fs := (bw_fs w)(src := None, dst \<mapsto> rs)\<rparr>))"
  using assms by (simp add: fs_rename_def)

text \<open>The world when the meta is about to be committed.\<close>

definition data_renamed :: "'r block_env \<Rightarrow> int \<Rightarrow> string \<Rightarrow> 'r data_block_builder \<Rightarrow> 'r block_world \<Rightarrow> 'r block_world" where
  "data_renamed en p tmp b w =
     w\<lparr>bw_fs := (bw_fs w)(bb_tmp_fpath b := None, data_block_path en p (finished_meta en b) \<mapsto> bb_written b,
         tmp \<mapsto> [be_print en (finished_meta en b)])\<rparr>"

lemma finish_run:
  assumes b: "builder_ok en p n b"
  shows "finish_data_block en p uid o1 o2 b w =
    (if bb_example_num b \<noteq> int (length (bm_example_ids (bb_data_block_meta b))) then (Inl AssertionError, w)
     else if bm_example_ids (bb_data_block_meta b) = []
     then (Inr None, w\<lparr>bw_fs := (bw_fs w)(bb_tmp_fpath b := None)\<rparr>)
     else if o1 = Failed_before
     then (Inl OpError, w\<lparr>bw_fs := (bw_fs w)(bb_tmp_fpath b \<mapsto> bb_written b)\<rparr>)
     else if o1 = Failed_after
     then (Inl OpError, w\<lparr>bw_fs := (bw_fs w)(bb_tmp_fpath b := None,
             data_block_path en p (finished_meta en b) \<mapsto> bb_written b)\<rparr>)
     else let tmp = gen_tmp_fpath (partition_data_block_dir en p) uid in
       case commit_data_block_meta en p o2 tmp (finished_meta en b) (data_renamed en p tmp b w) of
         (Inl e, w') \<Rightarrow> (Inl e, w')
       | (Inr _, w') \<Rightarrow> (Inr (Some (finished_meta en b)), w'))"
proof -
  have m: "bb_managed b" using b by (simp add: builder_ok_def)
  show ?thesis
    unfolding finish_data_block_def Let_def builder_paths [OF b] finished_meta_def [symmetric]
      data_block_path_def [symmetric] build_data_block_meta_def
    using m by (cases o1)
      (auto simp: sx_bind_def sx_assert_def fs_put_def fs_remove_def rename_data_run data_renamed_def
        split: prod.splits sum.splits)
qed

lemma data_renamed_ok:
  assumes "blocks_ok en p n w" "block_synced n w" "builder_ok en p n b" "suffix ''.tmp'' tmp"
  shows "blocks_ok en p n (data_renamed en p tmp b w)" "block_synced n (data_renamed en p tmp b w)"
    "bw_fs (data_renamed en p tmp b w) tmp = Some [be_print en (finished_meta en b)]"
    "bw_fs (data_renamed en p tmp b w) (data_block_path en p (finished_meta en b)) = Some (bb_written b)"
proof -
  have f: "foreign_path en p n (bb_tmp_fpath b)" "foreign_path en p n tmp"
    "foreign_path en p n (data_block_path en p (finished_meta en b))"
    using assms(3,4) finished_meta_fields [OF assms(3)] foreign_data [of "finished_meta en b" p n en]
    by (simp_all add: foreign_tmp builder_ok_def)
  show "blocks_ok en p n (data_renamed en p tmp b w)"
    using assms(1) f by (simp add: blocks_ok_def data_renamed_def files_ok_foreign cache_ok_foreign)
qed (use assms in \<open>simp_all add: data_renamed_def block_synced_def\<close>)

lemma finish_spec:
  assumes ok: "blocks_ok en p n w" and syn: "block_synced n w" and b: "builder_ok en p n b"
    and run: "finish_data_block en p uid o1 o2 b w = (r, w')"
  shows "\<exists>n'. n \<le> n' \<and> n' \<le> n + 1 \<and> blocks_ok en p n' w' \<and>
    (\<forall>m. r = Inr (Some m) \<longrightarrow> n' = n + 1 \<and> block_synced n' w' \<and> m = finished_meta en b) \<and>
    (n' = n + 1 \<longrightarrow> block_published en p (bw_fs w') n (finished_meta en b) \<and>
        bw_fs w' (data_block_path en p (finished_meta en b)) = Some (bb_written b)) \<and>
    (r = Inr None \<longrightarrow> n' = n \<and> bm_example_ids (bb_data_block_meta b) = [])"
proof -
  let ?m = "finished_meta en b" and ?tmp = "gen_tmp_fpath (partition_data_block_dir en p) uid"
  let ?w = "data_renamed en p ?tmp b w"
  have tb: "suffix ''.tmp'' (bb_tmp_fpath b)" using b by (simp add: builder_ok_def)
  note fm = finished_meta_fields [OF b]
  note frame = blocks_ok_foreign [OF foreign_tmp [OF tb]]
  consider (bad) "\<exists>x. r = Inl x \<and> blocks_ok en p n w'"
    | (none) "r = Inr None" "blocks_ok en p n w'" "bm_example_ids (bb_data_block_meta b) = []"
    | (commit) "bb_example_num b = int (length (bm_example_ids (bb_data_block_meta b)))"
        "bm_example_ids (bb_data_block_meta b) \<noteq> []" "o1 = Renamed"
  proof -
    have "foreign_path en p n (data_block_path en p ?m)" using fm by (simp add: foreign_data)
    then have "blocks_ok en p n (w\<lparr>bw_fs := (bw_fs w)(bb_tmp_fpath b := None,
             data_block_path en p ?m \<mapsto> bb_written b)\<rparr>)"
      using ok by (simp add: blocks_ok_def files_ok_foreign cache_ok_foreign foreign_tmp [OF tb])
    then show ?thesis
      using run ok that unfolding finish_run [OF b] by (cases o1) (auto simp: frame split: if_splits)
  qed
  then show ?thesis
  proof cases
    case bad
    then show ?thesis by (intro exI [of _ n]) auto
  next
    case none
    then show ?thesis by (intro exI [of _ n]) auto
  next
    case commit
    have len: "length (bb_written b) = length (bm_example_ids ?m)" "bb_written b \<noteq> []"
      using commit b fm(3) by (auto simp: builder_ok_def)
    obtain r1 w1 where c: "commit_data_block_meta en p o2 ?tmp ?m ?w = (r1, w1)" by fastforce
    have rw: "r = (case r1 of Inl e \<Rightarrow> Inl e | Inr _ \<Rightarrow> Inr (Some ?m))" "w' = w1"
      using run commit c unfolding finish_run [OF b] by (auto simp: Let_def split: sum.splits)
    note dr = data_renamed_ok [OF ok syn b path_suffixes(3)]
    note cs = commit_spec [OF dr(1,2) path_suffixes(3) dr(3) fm(2,1) dr(4) len(2,1) c]
    have d: "bw_fs w1 (data_block_path en p ?m) = Some (bb_written b)"
      "block_published en p (bw_fs w1) n ?m" if "o2 \<noteq> Failed_before"
      using cs(4) [OF that] dr(4) tmp_differs [OF path_suffixes(3)] fm len
      by (auto simp: block_published_def)
    show ?thesis
    proof (cases "o2 = Failed_before")
      case True
      then show ?thesis using cs(1,2) rw by (intro exI [of _ n]) auto
    next
      case False
      then show ?thesis using cs(1-3) rw d by (intro exI [of _ "n + 1"]) (cases o2, auto)
    qed
  qed
qed

section \<open>How the joiner uses them\<close>

record 'r append_call =
  ac_item :: "'r block_item"
  ac_leader_index :: int
  ac_follower_index :: int
  ac_event_time :: "int option"
  ac_allow_dup :: bool
  ac_joined :: int

text \<open>
  \<open>_get_data_block_builder\<close> of \<open>ExampleJoiner\<close> creates the builder at the number of dumped
  blocks; \<open>publish_block\<close> is the life of one builder, up to \<open>_finish_data_block\<close>. An
  exception in between makes the joiner drop the builder and start again.
\<close>

definition get_data_block_builder ::
    "'r block_env \<Rightarrow> int \<Rightarrow> int option \<Rightarrow> string \<Rightarrow> int \<Rightarrow> ('r block_world, 'r data_block_builder) sx" where
  "get_data_block_builder en p max_example_num uid restart_index =
     sx_bind (get_dumped_data_block_count en p) (\<lambda>index.
     sx_bind (new_data_block_builder en p index max_example_num uid) (\<lambda>b.
     sx_return (set_follower_restart_index restart_index (set_data_block_manager b))))"

definition append_items :: "'r block_env \<Rightarrow> 'r append_call list \<Rightarrow> ('r data_block_builder, unit list) sx" where
  "append_items en calls =
     sx_mapM (\<lambda>c. append_item en (ac_item c) (ac_leader_index c) (ac_follower_index c)
                     (ac_event_time c) (ac_allow_dup c) (ac_joined c)) calls"

definition publish_block ::
    "'r block_env \<Rightarrow> int \<Rightarrow> int option \<Rightarrow> string \<Rightarrow> string \<Rightarrow> int \<Rightarrow> 'r append_call list \<Rightarrow>
     rename_outcome \<Rightarrow> rename_outcome \<Rightarrow> ('r block_world, data_block_meta option) sx" where
  "publish_block en p max_example_num uid uid' restart_index calls o1 o2 =
     sx_bind (get_data_block_builder en p max_example_num uid restart_index) (\<lambda>b.
     case append_items en calls b of
       (Inl e, _) \<Rightarrow> sx_raise e
     | (Inr _, b) \<Rightarrow> finish_data_block en p uid' o1 o2 b)"

definition fresh_builder :: "'r block_env \<Rightarrow> int \<Rightarrow> int \<Rightarrow> int option \<Rightarrow> string \<Rightarrow> int \<Rightarrow> 'r data_block_builder" where
  "fresh_builder en p n max_example_num uid restart_index =
     \<lparr>bb_data_source_name = be_name en, bb_partition_id = p,
      bb_dirname = path_join (be_output_base_dir en) ''data_block'',
      bb_max_example_num = max_example_num,
      bb_tmp_fpath = gen_tmp_fpath (partition_data_block_dir en p) uid, bb_written = [],
      bb_data_block_meta = (empty_data_block_meta p n)\<lparr>bm_follower_restart_index := restart_index\<rparr>,
      bb_example_num = 0, bb_example_ids_size = 0, bb_managed = True\<rparr>"

lemma fresh_builder_ok: "builder_ok en p n (fresh_builder en p n mx uid ri)"
  by (simp add: builder_ok_def fresh_builder_def empty_data_block_meta_def)

definition builder_made :: "'r block_env \<Rightarrow> int \<Rightarrow> int \<Rightarrow> string \<Rightarrow> 'r block_world \<Rightarrow> 'r block_world" where
  "builder_made en p n uid w =
     w\<lparr>bw_fs := (bw_fs w)(gen_tmp_fpath (partition_data_block_dir en p) uid \<mapsto> []),
       bw_dumped_index := Some (n - 1), bw_dumping_index := None\<rparr>"

lemma get_builder_spec:
  assumes "blocks_ok en p n w" "n \<le> 2 ^ 63 + 1"
  shows "get_data_block_builder en p mx uid ri w =
    (Inr (fresh_builder en p n mx uid ri), builder_made en p n uid w)"
    and "blocks_ok en p n (builder_made en p n uid w)" "block_synced n (builder_made en p n uid w)"
proof -
  show "get_data_block_builder en p mx uid ri w =
    (Inr (fresh_builder en p n mx uid ri), builder_made en p n uid w)"
    unfolding get_data_block_builder_def sx_bind_def [of "get_dumped_data_block_count en p"]
      count_spec [OF assms]
    by (simp add: sx_bind_def new_data_block_builder_def fs_put_def Let_def fresh_builder_def builder_made_def
        set_follower_restart_index_def set_data_block_manager_def partition_data_block_dir_def
        empty_data_block_meta_def)
  show "blocks_ok en p n (builder_made en p n uid w)"
    using assms(1)
    by (simp add: blocks_ok_def builder_made_def files_ok_foreign cache_ok_foreign foreign_tmp)
qed (simp add: block_synced_def builder_made_def)

lemma append_items_ok:
  assumes "append_items en calls b = (r, b')" "builder_ok en p n b"
  shows "builder_ok en p n b'"
proof -
  have "sx_keeps (builder_ok en p n) (append_items en calls)"
    by (auto simp: append_items_def intro: builder_ok_append)
  then have "builder_ok en p n (snd (append_items en calls b))"
    using assms(2) by (simp add: sx_keeps_def)
  then show ?thesis using assms(1) by simp
qed

lemma publish_spec:
  assumes ok: "blocks_ok en p n w" and n: "n \<le> 2 ^ 63 + 1"
    and run: "publish_block en p mx uid uid' ri calls o1 o2 w = (r, w')"
  shows "\<exists>n'. n \<le> n' \<and> n' \<le> n + 1 \<and> blocks_ok en p n' w' \<and>
    (\<forall>m. r = Inr (Some m) \<longrightarrow> n' = n + 1 \<and> block_synced n' w' \<and> block_published en p (bw_fs w') n m \<and>
      (\<exists>b us. append_items en calls (fresh_builder en p n mx uid ri) = (Inr us, b) \<and>
        m = finished_meta en b \<and> bw_fs w' (data_block_path en p m) = Some (bb_written b)))"
proof -
  obtain r1 b where a: "append_items en calls (fresh_builder en p n mx uid ri) = (r1, b)" by fastforce
  note gb = get_builder_spec(1) [OF ok n, of mx uid ri] get_builder_spec(2,3) [OF ok n, of uid]
  have b: "builder_ok en p n b" by (rule append_items_ok [OF a fresh_builder_ok])
  show ?thesis
  proof (cases r1)
    case (Inl e)
    then have "r = Inl e" "w' = builder_made en p n uid w"
      using run a gb(1) by (auto simp: publish_block_def sx_bind_def)
    then show ?thesis using gb by (intro exI [of _ n]) auto
  next
    case (Inr us)
    then have fin: "finish_data_block en p uid' o1 o2 b (builder_made en p n uid w) = (r, w')"
      using run a gb(1) by (auto simp: publish_block_def sx_bind_def)
    from finish_spec [OF gb(2,3) b fin] obtain n' where n': "n \<le> n'" "n' \<le> n + 1"
      "blocks_ok en p n' w'"
      "\<And>m. r = Inr (Some m) \<Longrightarrow> n' = n + 1 \<and> block_synced n' w' \<and> m = finished_meta en b"
      "n' = n + 1 \<Longrightarrow> block_published en p (bw_fs w') n (finished_meta en b) \<and>
        bw_fs w' (data_block_path en p (finished_meta en b)) = Some (bb_written b)"
      by (elim exE conjE) metis
    then show ?thesis using a Inr by (intro exI [of _ n']) auto
  qed
qed


section \<open>Files that an operation leaves alone\<close>

lemma keeps_put: "path \<noteq> q \<Longrightarrow> sx_keeps (\<lambda>w. bw_fs w path = v) (fs_put q x)"
  by (auto simp: fs_put_def sx_keeps_def)

lemma keeps_remove: "path \<noteq> q \<Longrightarrow> sx_keeps (\<lambda>w. bw_fs w path = v) (fs_remove q)"
  by (auto simp: fs_remove_def sx_keeps_def)

lemma keeps_rename:
  "path \<noteq> src \<Longrightarrow> path \<noteq> dst \<Longrightarrow> sx_keeps (\<lambda>w. bw_fs w path = v) (fs_rename outcome src dst ov)"
  by (auto simp: fs_rename_def sx_keeps_def split: option.split)

lemma keeps_manager [intro]:
  "sx_keeps (\<lambda>w. bw_fs w path = v) get_dumped_index"
  "sx_keeps (\<lambda>w. bw_fs w path = v) evict_data_block_cache"
  "sx_keeps (\<lambda>w. bw_fs w path = v) (cache_put i m)"
  "sx_keeps (\<lambda>w. bw_fs w path = v) (sync_dumped_index en p)"
  by (auto simp: get_dumped_index_def evict_data_block_cache_def cache_put_def sync_dumped_index_def
      sx_keeps_def sx_assert_def sx_bind_def split: option.splits)

lemma keeps_commit:
  assumes "path \<noteq> tmp" "path \<noteq> get_data_block_meta_path en p (bm_data_block_index m)"
  shows "sx_keeps (\<lambda>w. bw_fs w path = v) (commit_data_block_meta en p outcome tmp m)"
  unfolding commit_data_block_meta_def Let_def
  by (intro sx_keeps_bind sx_keeps_if sx_keeps_get sx_keeps_raise keeps_manager
      keeps_rename [OF assms] sx_keeps_modify) auto

lemma keeps_finish:
  assumes b: "builder_ok en p n b" and path: "path \<noteq> bb_tmp_fpath b"
    "path \<noteq> gen_tmp_fpath (partition_data_block_dir en p) uid"
    "path \<noteq> data_block_path en p (finished_meta en b)" "path \<noteq> get_data_block_meta_path en p n"
  shows "sx_keeps (\<lambda>w. bw_fs w path = v) (finish_data_block en p uid o1 o2 b)"
proof -
  have "bb_managed b" using b by (simp add: builder_ok_def)
  then show ?thesis
    using path unfolding finish_data_block_def Let_def builder_paths [OF b] finished_meta_def [symmetric]
      data_block_path_def [symmetric] build_data_block_meta_def
    by (auto intro!: sx_keeps_bind sx_keeps_assert keeps_put keeps_remove keeps_rename keeps_commit
        simp: finished_meta_fields [OF b])
qed

text \<open>The files of the first \<open>n\<close> blocks.\<close>

definition block_file :: "'r block_env \<Rightarrow> int \<Rightarrow> int \<Rightarrow> string \<Rightarrow> bool" where
  "block_file en p n path \<longleftrightarrow>
     (\<exists>i < n. path = get_data_block_meta_path en p i) \<or>
     (\<exists>m. bm_partition_id m = p \<and> bm_data_block_index m < n \<and> path = data_block_path en p m)"

lemma block_file_differs:
  assumes "block_file en p n path"
  shows "suffix ''.tmp'' t \<Longrightarrow> path \<noteq> t" "path \<noteq> get_data_block_meta_path en p n"
    "bm_partition_id m = p \<Longrightarrow> bm_data_block_index m = n \<Longrightarrow> path \<noteq> data_block_path en p m"
proof -
  show "path \<noteq> t" if t: "suffix ''.tmp'' t"
    using assms tmp_differs(2,4) [OF t] unfolding block_file_def by metis
  show "path \<noteq> get_data_block_meta_path en p n" using assms by (auto simp: block_file_def)
  show "path \<noteq> data_block_path en p m" if m: "bm_partition_id m = p" "bm_data_block_index m = n"
    using assms unfolding block_file_def
  proof (elim disjE exE conjE)
    fix m' assume "bm_partition_id m' = p" "bm_data_block_index m' < n" "path = data_block_path en p m'"
    then show ?thesis using data_path_index [of en p m' m] m by auto
  qed simp
qed

lemma publish_keeps_file:
  assumes ok: "blocks_ok en p n w" and n: "n \<le> 2 ^ 63 + 1" and prot: "block_file en p n path"
    and run: "publish_block en p mx uid uid' ri calls o1 o2 w = (r, w')"
  shows "bw_fs w' path = bw_fs w path"
proof -
  obtain r1 b where a: "append_items en calls (fresh_builder en p n mx uid ri) = (r1, b)" by fastforce
  note gb = get_builder_spec(1) [OF ok n, of mx uid ri]
  have b: "builder_ok en p n b" by (rule append_items_ok [OF a fresh_builder_ok])
  have made: "bw_fs (builder_made en p n uid w) path = bw_fs w path"
    using block_file_differs(1) [OF prot] by (simp add: builder_made_def)
  have tb: "suffix ''.tmp'' (bb_tmp_fpath b)" using b by (simp add: builder_ok_def)
  note k = keeps_finish [OF b block_file_differs(1) [OF prot tb]
      block_file_differs(1) [OF prot path_suffixes(3)]
      block_file_differs(3) [OF prot finished_meta_fields(1,2) [OF b]] block_file_differs(2) [OF prot]]
  show ?thesis
  proof (cases r1)
    case (Inl e)
    then show ?thesis using run a gb made by (auto simp: publish_block_def sx_bind_def)
  next
    case (Inr us)
    then have "finish_data_block en p uid' o1 o2 b (builder_made en p n uid w) = (r, w')"
      using run a gb by (auto simp: publish_block_def sx_bind_def)
    then show ?thesis
      using k [where v = "bw_fs w path" and uid = uid'] made unfolding sx_keeps_def by (metis snd_conv)
  qed
qed

section \<open>What a builder collects\<close>

definition call_time :: "'r append_call \<Rightarrow> int" where
  "call_time c = (case ac_event_time c of None \<Rightarrow> it_event_time (ac_item c) | Some t \<Rightarrow> t)"

definition call_record :: "'r block_env \<Rightarrow> 'r append_call \<Rightarrow> 'r" where
  "call_record en c =
     (if ac_joined c \<noteq> - 1 then be_add_joined en (ac_joined c) (it_record (ac_item c))
      else it_record (ac_item c))"

definition follows :: "'r append_call \<Rightarrow> 'r append_call \<Rightarrow> bool" where
  "follows c d \<longleftrightarrow>
     (if ac_allow_dup d then ac_leader_index c \<le> ac_leader_index d
      else ac_leader_index c < ac_leader_index d)"

definition covers :: "'r append_call list \<Rightarrow> data_block_meta \<Rightarrow> bool" where
  "covers cs m \<longleftrightarrow>
     bm_leader_start_index m = ac_leader_index (hd cs) \<and>
     bm_leader_end_index m = ac_leader_index (last cs) \<and>
     bm_leader_start_index m \<le> bm_leader_end_index m \<and>
     bm_start_time m = Min (set (map call_time cs)) \<and> bm_end_time m = Max (set (map call_time cs))"

definition collected :: "'r block_env \<Rightarrow> 'r append_call list \<Rightarrow> 'r data_block_builder \<Rightarrow> bool" where
  "collected en cs b \<longleftrightarrow>
     bm_example_ids (bb_data_block_meta b) = map (\<lambda>c. it_example_id (ac_item c)) cs \<and>
     bm_indices (bb_data_block_meta b) =
       map ac_leader_index (filter (\<lambda>c. it_id_type (ac_item c)) cs) \<and>
     bm_joined (bb_data_block_meta b) = filter (\<lambda>j. j \<noteq> - 1) (map ac_joined cs) \<and>
     bb_written b = map (call_record en) cs \<and>
     bb_example_num b = int (length cs) \<and>
     bb_example_ids_size b = int (length (concat (map (\<lambda>c. it_example_id (ac_item c)) cs))) \<and>
     (cs = [] \<or> covers cs (bb_data_block_meta b))"

lemma covers_first:
  "covers [c] (m\<lparr>bm_leader_start_index := ac_leader_index c, bm_leader_end_index := ac_leader_index c,
     bm_start_time := call_time c, bm_end_time := call_time c\<rparr>)"
  by (simp add: covers_def)

lemma widen_min_max:
  "widen_window i t m =
     m\<lparr>bm_leader_end_index := i, bm_start_time := min t (bm_start_time m), bm_end_time := max t (bm_end_time m)\<rparr>"
proof -
  have "(if t < bm_start_time m then t else bm_start_time m) = min t (bm_start_time m)"
    "(if bm_end_time m < t then t else bm_end_time m) = max t (bm_end_time m)" by auto
  then show ?thesis by (simp only: widen_window_def)
qed

lemma covers_next:
  assumes "covers cs m" "cs \<noteq> []" "follows (last cs) c"
  shows "covers (cs @ [c]) (widen_window (ac_leader_index c) (call_time c) m)"
proof -
  have "ac_leader_index (last cs) \<le> ac_leader_index c"
    using assms(3) by (auto simp: follows_def split: if_splits)
  moreover have "Min (set (map call_time (cs @ [c]))) = min (call_time c) (Min (set (map call_time cs)))"
    "Max (set (map call_time (cs @ [c]))) = max (call_time c) (Max (set (map call_time cs)))"
    using assms(2) by simp_all
  ultimately show ?thesis
    using assms(1,2) unfolding covers_def widen_min_max by simp
qed

definition append_call_item :: "'r block_env \<Rightarrow> 'r append_call \<Rightarrow> ('r data_block_builder, unit) sx" where
  "append_call_item en c = append_item en (ac_item c) (ac_leader_index c) (ac_follower_index c)
     (ac_event_time c) (ac_allow_dup c) (ac_joined c)"

text \<open>The builder after the meta's lists and the size were extended, before the checks.\<close>

definition lists_extended :: "'r append_call \<Rightarrow> 'r data_block_builder \<Rightarrow> 'r data_block_builder" where
  "lists_extended c b =
     b\<lparr>bb_data_block_meta := (bb_data_block_meta b)
         \<lparr>bm_example_ids := bm_example_ids (bb_data_block_meta b) @ [it_example_id (ac_item c)],
          bm_indices := bm_indices (bb_data_block_meta b) @
            (if it_id_type (ac_item c) then [ac_leader_index c] else []),
          bm_joined := bm_joined (bb_data_block_meta b) @
            (if ac_joined c \<noteq> - 1 then [ac_joined c] else [])\<rparr>,
       bb_example_ids_size := bb_example_ids_size b + int (length (it_example_id (ac_item c)))\<rparr>"

lemma append_call_run:
  "append_call_item en c b =
     sx_bind
       (if bb_example_num b = 0
        then set_meta (\<lambda>m. m\<lparr>bm_leader_start_index := ac_leader_index c,
               bm_leader_end_index := ac_leader_index c, bm_start_time := call_time c,
               bm_end_time := call_time c\<rparr>)
        else sx_bind (check_leader_index (ac_allow_dup c) (ac_leader_index c)) (\<lambda>_.
             set_meta (widen_window (ac_leader_index c) (call_time c))))
       (\<lambda>_. write_item ((ac_item c)\<lparr>it_record := call_record en c\<rparr>)) (lists_extended c b)"
proof -
  have "(ac_item c)\<lparr>it_record := it_record (ac_item c)\<rparr> = ac_item c" by simp
  then show ?thesis
    by (cases "it_id_type (ac_item c)"; cases "ac_joined c = - 1")
      (simp_all add: append_call_item_def append_item_def set_meta_def lists_extended_def call_time_def
        call_record_def Let_def)
qed

lemma collected_append:
  assumes "collected en cs b"
  shows "if cs = [] \<or> follows (last cs) c
    then \<exists>b'. append_call_item en c b = (Inr (), b') \<and> collected en (cs @ [c]) b'
    else \<exists>b'. append_call_item en c b = (Inl AssertionError, b')"
proof (cases "cs = []")
  case True
  then show ?thesis using assms covers_first [of c]
    unfolding append_call_run
    by (simp add: collected_def set_meta_def write_item_def lists_extended_def)
next
  case False
  then have n: "bb_example_num b \<noteq> 0" and cov: "covers cs (bb_data_block_meta b)"
    using assms by (auto simp: collected_def)
  have cov': "covers cs (bb_data_block_meta (lists_extended c b))"
    using cov by (simp add: covers_def lists_extended_def)
  have chk: "check_leader_index (ac_allow_dup c) (ac_leader_index c) (lists_extended c b) =
      (if follows (last cs) c then Inr () else Inl AssertionError, lists_extended c b)"
    using cov' by (auto simp: check_leader_index_def Let_def sx_assert_def follows_def covers_def sx_bind_def)
  have ne: "bb_example_num (lists_extended c b) = bb_example_num b" by (simp add: lists_extended_def)
  show ?thesis
  proof (cases "follows (last cs) c")
    case True
    then show ?thesis
      using assms False n chk covers_next [OF cov' False True]
      unfolding append_call_run
      by (simp add: sx_bind_def set_meta_def write_item_def collected_def)
        (simp add: lists_extended_def widen_window_def)
  next
    case f: False
    then show ?thesis using False n chk unfolding append_call_run by (simp add: sx_bind_def)
  qed
qed

lemma append_items_Cons:
  "append_items en (c # cs) b =
     sx_bind (append_call_item en c) (\<lambda>y. sx_bind (append_items en cs) (\<lambda>ys. sx_return (y # ys))) b"
  by (simp add: append_items_def append_call_item_def)

lemma append_items_collected:
  assumes "collected en ps b" "successively follows ps"
  shows "if successively follows (ps @ cs)
    then \<exists>us b'. append_items en cs b = (Inr us, b') \<and> collected en (ps @ cs) b'
    else \<exists>b'. append_items en cs b = (Inl AssertionError, b')"
  using assms
proof (induction cs arbitrary: ps b)
  case Nil
  then show ?case by (simp add: append_items_def)
next
  case (Cons c cs)
  note step = collected_append [OF Cons.prems(1), of c]
  show ?case
  proof (cases "ps = [] \<or> follows (last ps) c")
    case True
    then obtain b1 where b1: "append_call_item en c b = (Inr (), b1)" "collected en (ps @ [c]) b1"
      using step by auto
    have "successively follows (ps @ [c])"
      using True Cons.prems(2) by (auto simp: successively_append_iff)
    from Cons.IH [OF b1(2) this] show ?thesis
      using b1(1) by (auto simp: append_items_Cons sx_bind_def split: if_splits)
  next
    case False
    then have "\<not> successively follows (ps @ c # cs)"
      by (auto simp: successively_append_iff)
    then show ?thesis using False step by (auto simp: append_items_Cons sx_bind_def)
  qed
qed

lemma collected_fresh: "collected en [] (fresh_builder en p n mx uid ri)"
  by (simp add: collected_def fresh_builder_def empty_data_block_meta_def)

text \<open>With renames that work, a non-empty block in order is published.\<close>

lemma finish_succeeds:
  assumes ok: "blocks_ok en p n w" and syn: "block_synced n w" and b: "builder_ok en p n b"
    and num: "bb_example_num b = int (length (bm_example_ids (bb_data_block_meta b)))"
    and ne: "bm_example_ids (bb_data_block_meta b) \<noteq> []"
  shows "\<exists>w'. finish_data_block en p uid Renamed Renamed b w = (Inr (Some (finished_meta en b)), w')"
proof -
  let ?m = "finished_meta en b" and ?tmp = "gen_tmp_fpath (partition_data_block_dir en p) uid"
  have len: "bb_example_num b = int (length (bm_example_ids (bb_data_block_meta b)))"
    "bm_example_ids (bb_data_block_meta b) \<noteq> []" "length (bb_written b) = length (bm_example_ids ?m)"
    "bb_written b \<noteq> []"
    using num ne finished_meta_fields(3) [OF b] b by (auto simp: builder_ok_def)
  obtain r1 w1 where run: "commit_data_block_meta en p Renamed ?tmp ?m (data_renamed en p ?tmp b w) = (r1, w1)"
    by fastforce
  note dr = data_renamed_ok [OF ok syn b path_suffixes(3)]
  have "r1 = Inr ()"
    using commit_spec(1) [OF dr(1,2) path_suffixes(3) dr(3) finished_meta_fields(2,1) [OF b] dr(4)
        len(4,3) run] by simp
  then show ?thesis using run len(1,2) unfolding finish_run [OF b] by (simp add: Let_def)
qed

lemma publish_succeeds:
  assumes ok: "blocks_ok en p n w" and n: "n \<le> 2 ^ 63 + 1"
    and calls: "successively follows calls" "calls \<noteq> []"
  shows "\<exists>m w'. publish_block en p mx uid uid' ri calls Renamed Renamed w = (Inr (Some m), w')"
proof -
  obtain us b where a: "append_items en calls (fresh_builder en p n mx uid ri) = (Inr us, b)"
    "collected en calls b"
    using append_items_collected [OF collected_fresh, of calls en p n mx uid ri] calls(1) by auto
  note gb = get_builder_spec(1) [OF ok n, of mx uid ri] get_builder_spec(2,3) [OF ok n, of uid]
  obtain w' where "finish_data_block en p uid' Renamed Renamed b (builder_made en p n uid w) =
      (Inr (Some (finished_meta en b)), w')"
    using finish_succeeds [OF gb(2,3) append_items_ok [OF a(1) fresh_builder_ok], of uid'] a(2) calls(2)
    by (auto simp: collected_def)
  then show ?thesis using a(1) gb(1) by (auto simp: publish_block_def sx_bind_def)
qed

section \<open>Runs of the process that owns the partition\<close>

datatype 'r block_op =
    Count_blocks
  | Get_block int
  | Latest_block
  | Publish "int option" string string int "'r append_call list" rename_outcome rename_outcome
  | Restart_process

fun block_step :: "'r block_env \<Rightarrow> int \<Rightarrow> 'r block_op \<Rightarrow> 'r block_world \<Rightarrow> 'r block_world" where
  "block_step en p Count_blocks w = snd (get_dumped_data_block_count en p w)"
| "block_step en p (Get_block i) w = snd (get_data_block_meta_by_index en p i w)"
| "block_step en p Latest_block w = snd (get_lastest_data_block_meta en p w)"
| "block_step en p (Publish mx uid uid' ri calls o1 o2) w =
     snd (publish_block en p mx uid uid' ri calls o1 o2 w)"
| "block_step en p Restart_process w = snd (new_data_block_manager en p (bw_fs w))"

primrec block_run :: "'r block_env \<Rightarrow> int \<Rightarrow> 'r block_op list \<Rightarrow> 'r block_world \<Rightarrow> 'r block_world" where
  "block_run en p [] w = w"
| "block_run en p (op # ops) w = block_run en p ops (block_step en p op w)"

lemma restart_ok:
  assumes "files_ok en p n fs" "n \<le> 2 ^ 63 + 1"
  shows "blocks_ok en p n (snd (new_data_block_manager en p fs))"
    "bw_fs (snd (new_data_block_manager en p fs)) = fs"
proof -
  let ?w = "\<lparr>bw_fs = fs, bw_dumped_index = None, bw_dumping_index = None, bw_cache = []\<rparr>"
  have ok: "blocks_ok en p n ?w" using assms(1) by (simp add: blocks_ok_def cache_ok_def)
  then show "blocks_ok en p n (snd (new_data_block_manager en p fs))"
    "bw_fs (snd (new_data_block_manager en p fs)) = fs"
    using synced_ok [OF ok] by (simp_all add: new_data_block_manager_def sync_spec [OF ok assms(2)])
qed

lemma block_step_ok:
  assumes "blocks_ok en p n w" "n \<le> 2 ^ 63 + 1" "block_codec_ok en"
  shows "\<exists>n'. n \<le> n' \<and> n' \<le> n + 1 \<and> blocks_ok en p n' (block_step en p op w) \<and>
    (\<forall>path. block_file en p n path \<longrightarrow> bw_fs (block_step en p op w) path = bw_fs w path)"
proof (cases op)
  case Count_blocks
  then show ?thesis using synced_ok [OF assms(1)] count_spec [OF assms(1,2)]
    by (intro exI [of _ n]) simp
next
  case (Get_block i)
  then show ?thesis using get_meta_spec [OF assms, of i] by (intro exI [of _ n]) auto
next
  case Latest_block
  then show ?thesis using latest_spec [OF assms] by (intro exI [of _ n]) auto
next
  case (Publish mx uid uid' ri calls o1 o2)
  obtain r w' where run: "publish_block en p mx uid uid' ri calls o1 o2 w = (r, w')" by fastforce
  obtain n' where "n \<le> n'" "n' \<le> n + 1" "blocks_ok en p n' w'"
    using publish_spec [OF assms(1,2) run] by blast
  then show ?thesis using publish_keeps_file [OF assms(1,2) _ run] run Publish
    by (intro exI [of _ n']) simp
next
  case Restart_process
  have f: "files_ok en p n (bw_fs w)" using assms(1) by (simp add: blocks_ok_def)
  show ?thesis using restart_ok [OF f assms(2)] Restart_process by (intro exI [of _ n]) simp
qed

lemma block_file_mono: "block_file en p n path \<Longrightarrow> n \<le> n' \<Longrightarrow> block_file en p n' path"
  unfolding block_file_def by (elim disjE exE conjE) (blast intro: less_le_trans)+

lemma block_run_ok:
  assumes "blocks_ok en p n w" "n + int (length ops) \<le> 2 ^ 63 + 1" "block_codec_ok en"
  shows "\<exists>n'. n \<le> n' \<and> n' \<le> n + int (length ops) \<and> blocks_ok en p n' (block_run en p ops w) \<and>
    (\<forall>path. block_file en p n path \<longrightarrow> bw_fs (block_run en p ops w) path = bw_fs w path)"
  using assms(1,2)
proof (induction ops arbitrary: w n)
  case Nil
  then show ?case by auto
next
  case (Cons op ops)
  have "n \<le> 2 ^ 63 + 1" using Cons.prems(2) by simp
  then obtain n1 where n1: "n \<le> n1" "n1 \<le> n + 1" "blocks_ok en p n1 (block_step en p op w)"
    "\<And>path. block_file en p n path \<Longrightarrow> bw_fs (block_step en p op w) path = bw_fs w path"
    using block_step_ok [OF Cons.prems(1) _ assms(3), of op] by blast
  then have "n1 + int (length ops) \<le> 2 ^ 63 + 1" using Cons.prems(2) by simp
  then obtain n2 where n2: "n1 \<le> n2" "n2 \<le> n1 + int (length ops)"
    "blocks_ok en p n2 (block_run en p (op # ops) w)"
    "\<And>path. block_file en p n1 path \<Longrightarrow>
      bw_fs (block_run en p (op # ops) w) path = bw_fs (block_step en p op w) path"
    using Cons.IH [OF n1(3)] by auto
  have "bw_fs (block_run en p (op # ops) w) path = bw_fs w path" if "block_file en p n path" for path
    using that n1(4) n2(4) block_file_mono [OF _ n1(1)] by metis
  moreover have "n \<le> n2 \<and> n2 \<le> n + int (length (op # ops))" using n1(1,2) n2(1,2) by auto
  ultimately show ?case using n2(3) by blast
qed

text \<open>The world of a partition that was never joined.\<close>

definition empty_blocks :: "'r block_world" where
  "empty_blocks = \<lparr>bw_fs = (\<lambda>_. None), bw_dumped_index = None, bw_dumping_index = None, bw_cache = []\<rparr>"

lemma empty_blocks_ok: "blocks_ok en p 0 empty_blocks"
  by (auto simp: empty_blocks_def blocks_ok_def files_ok_def cache_ok_def block_dumped_def)

section \<open>Properties\<close>

text \<open>
  C5. Whatever sequence of blocks the joiner publishes in a partition, with renames that fail
  before or after they took effect, failed assertions and restarts, the meta files are
  numbered \<open>0, \<dots>, n - 1\<close> without a gap, every one has its data file with one record per
  example, and the manager counts exactly \<open>n\<close> and hands each meta out.
\<close>

theorem data_blocks_consistent:
  assumes "block_codec_ok en" "int (length ops) \<le> 2 ^ 63"
    and "block_run en p ops empty_blocks = w"
  shows "\<exists>n w1. get_dumped_data_block_count en p w = (Inr n, w1) \<and> n \<le> int (length ops) \<and>
    length (bw_cache w) \<le> 1024 \<and>
    (\<forall>i. 0 \<le> i \<longrightarrow> (bw_fs w (get_data_block_meta_path en p i) \<noteq> None) = (i < n)) \<and>
    (\<forall>i. 0 \<le> i \<longrightarrow> i < n \<longrightarrow>
       (\<exists>m w2. get_data_block_meta_by_index en p i w = (Inr (Some m), w2) \<and>
          block_published en p (bw_fs w) i m))"
proof -
  obtain n where n: "0 \<le> n" "n \<le> int (length ops)" "blocks_ok en p n w"
    using block_run_ok [OF empty_blocks_ok, of ops en p] assms by auto
  then have b: "n \<le> 2 ^ 63 + 1" using assms(2) by simp
  have "(\<exists>m w2. get_data_block_meta_by_index en p i w = (Inr (Some m), w2) \<and>
      block_published en p (bw_fs w) i m) = (0 \<le> i \<and> i < n)" for i
    using get_meta_spec [OF n(3) b assms(1), of i] by (auto split: if_splits)
  moreover have "length (bw_cache w) \<le> 1024" using n(3) by (simp add: blocks_ok_def cache_ok_def)
  moreover have "0 \<le> i \<Longrightarrow> (bw_fs w (get_data_block_meta_path en p i) \<noteq> None) = (i < n)" for i
    using n(3) by (auto simp: blocks_ok_def files_ok_def block_dumped_def)
  ultimately show ?thesis using count_spec [OF n(3) b] n(2) by blast
qed

text \<open>
  C15. A block that was published stays: after any later operations, failures and restarts its
  meta is handed out under its index unchanged and its data file holds the records that
  its builder wrote.
\<close>

theorem published_block_durable:
  assumes "block_codec_ok en" "int (length ops + length ops') < 2 ^ 63"
    and "block_run en p ops empty_blocks = w"
    and "publish_block en p mx uid uid' ri calls o1 o2 w = (Inr (Some m), w1)"
    and "block_run en p ops' w1 = w2"
  shows "\<exists>w3 b us. get_data_block_meta_by_index en p (bm_data_block_index m) w2 = (Inr (Some m), w3) \<and>
    append_items en calls (fresh_builder en p (bm_data_block_index m) mx uid ri) = (Inr us, b) \<and>
    m = finished_meta en b \<and> bw_fs w2 (data_block_path en p m) = Some (bb_written b)"
proof -
  obtain n where n: "0 \<le> n" "n \<le> int (length ops)" "blocks_ok en p n w"
    using block_run_ok [OF empty_blocks_ok, of ops en p] assms(1-3) by auto
  have b: "n \<le> 2 ^ 63 + 1" "n + 1 + int (length ops') \<le> 2 ^ 63 + 1" using n(2) assms(2) by auto
  obtain bb us where pub: "blocks_ok en p (n + 1) w1" "block_published en p (bw_fs w1) n m"
    "append_items en calls (fresh_builder en p n mx uid ri) = (Inr us, bb)" "m = finished_meta en bb"
    "bw_fs w1 (data_block_path en p m) = Some (bb_written bb)"
    using publish_spec [OF n(3) b(1) assms(4)] by blast
  obtain n2 where n2: "n + 1 \<le> n2" "n2 \<le> n + 1 + int (length ops')" "blocks_ok en p n2 w2"
    "\<And>path. block_file en p (n + 1) path \<Longrightarrow> bw_fs w2 path = bw_fs w1 path"
    using block_run_ok [OF pub(1) b(2) assms(1)] assms(5) by blast
  have idx: "bm_data_block_index m = n" "bm_partition_id m = p"
    using pub(2) by (auto simp: block_published_def)
  have f: "block_file en p (n + 1) (get_data_block_meta_path en p n)"
    "block_file en p (n + 1) (data_block_path en p m)"
    using idx unfolding block_file_def by (metis less_add_one)+
  have "n2 \<le> 2 ^ 63 + 1" using n2(2) b(2) by simp
  then obtain m' w3 where g: "get_data_block_meta_by_index en p n w2 = (Inr (Some m'), w3)"
    "block_published en p (bw_fs w2) n m'"
    using get_meta_spec [OF n2(3) _ assms(1), of n] n(1) n2(1) by auto
  have "be_print en m' = be_print en m"
    using g(2) pub(2) n2(4) [OF f(1)] by (simp add: block_published_def)
  then have "m' = m" using assms(1) unfolding block_codec_ok_def by (metis sum.inject(2))
  then show ?thesis using g(1) pub(3-5) n2(4) [OF f(2)] idx by auto
qed

text \<open>
  C26. The builder of a block accepts a sequence of joined examples exactly when their leader
  indices ascend, strictly unless duplicates are allowed; then its meta lists the ids,
  the first and last leader index, and the earliest and latest event time, and the data
  file gets one record per example, in order.
\<close>

theorem builder_summarises_block:
  "(case append_items en calls (fresh_builder en p n mx uid ri) of
      (Inl e, _) \<Rightarrow> e = AssertionError \<and> \<not> successively follows calls
    | (Inr _, b) \<Rightarrow> successively follows calls \<and>
        bm_example_ids (bb_data_block_meta b) = map (\<lambda>c. it_example_id (ac_item c)) calls \<and>
        bb_written b = map (call_record en) calls \<and> bb_example_num b = int (length calls) \<and>
        (calls = [] \<or> covers calls (bb_data_block_meta b)))"
proof (cases "successively follows calls")
  case True
  then obtain us b where "append_items en calls (fresh_builder en p n mx uid ri) = (Inr us, b)"
    "collected en calls b"
    using append_items_collected [OF collected_fresh, of calls en p n mx uid ri] by auto
  then show ?thesis using True by (simp add: collected_def)
next
  case False
  then show ?thesis
    using append_items_collected [OF collected_fresh, of calls en p n mx uid ri] by auto
qed

text \<open>
  The index of a block is checked by the manager after the data file was moved: a builder
  whose index is no longer the next one (another one published that block meanwhile) and
  whose window of event times is the same replaces the published data file by its own
  and only then fails.
\<close>

theorem stale_builder_overwrites:
  assumes ok: "blocks_ok en p n w" "block_synced n w" and stale: "builder_ok en p k b" "k < n"
    and c: "collected en calls b" "calls \<noteq> []"
    and m: "block_published en p (bw_fs w) k m" "bm_start_time m = bm_start_time (bb_data_block_meta b)"
      "bm_end_time m = bm_end_time (bb_data_block_meta b)"
  shows "\<exists>w'. finish_data_block en p uid Renamed Renamed b w = (Inl IndexError, w') \<and>
    bw_fs w' (get_data_block_meta_path en p k) = Some [be_print en m] \<and>
    bw_fs w' (data_block_path en p m) = Some (map (call_record en) calls)"
proof -
  let ?tmp = "gen_tmp_fpath (partition_data_block_dir en p) uid"
  let ?w = "data_renamed en p ?tmp b w"
  have tb: "suffix ''.tmp'' (bb_tmp_fpath b)" using stale(1) by (simp add: builder_ok_def)
  have same: "data_block_path en p m = data_block_path en p (finished_meta en b)"
    using m finished_meta_fields [OF stale(1)]
    by (simp add: data_block_path_def encode_data_block_fname_def encode_block_id_def
        block_published_def finished_meta_def)
  have idx: "bm_data_block_index (finished_meta en b) = k" using finished_meta_fields [OF stale(1)] by simp
  have "commit_data_block_meta en p Renamed ?tmp (finished_meta en b) ?w = (Inl IndexError, ?w)"
    using ok(2) stale(2) idx
    by (simp add: commit_data_block_meta_def data_renamed_def block_synced_def dumped_then Let_def)
  moreover have "bw_fs ?w (get_data_block_meta_path en p k) = Some [be_print en m]"
    using m(1) tmp_differs(2) [OF tb, of en p k] tmp_differs(2) [OF path_suffixes(3), of en p k]
    by (simp add: data_renamed_def block_published_def)
  moreover have "bw_fs ?w (data_block_path en p m) = Some (map (call_record en) calls)"
    using c(1) tmp_differs(4) [OF path_suffixes(3)] unfolding same
    by (simp add: data_renamed_def collected_def)
  moreover have "bb_example_num b = int (length (bm_example_ids (bb_data_block_meta b)))"
    "bm_example_ids (bb_data_block_meta b) \<noteq> []"
    using c by (auto simp: collected_def)
  ultimately show ?thesis by (simp add: finish_run [OF stale(1)] Let_def)
qed

subsection \<open>Witnesses\<close>

definition sample_block_env :: "(data_block_meta + string) block_env" where
  "sample_block_env =
     \<lparr>be_name = ''ds'', be_output_base_dir = ''/out'', be_print = Inl,
      be_parse = (\<lambda>r. case r of Inl m \<Rightarrow> Inr m | Inr _ \<Rightarrow> Inl ValueError), be_add_joined = (\<lambda>j r. r)\<rparr>"

definition sample_call :: "string \<Rightarrow> int \<Rightarrow> (data_block_meta + string) append_call" where
  "sample_call eid i =
     \<lparr>ac_item = \<lparr>it_example_id = eid, it_event_time = 10, it_id_type = True, it_record = Inr eid\<rparr>,
      ac_leader_index = i, ac_follower_index = i, ac_event_time = None, ac_allow_dup = False,
      ac_joined = - 1\<rparr>"

lemma sample_block_codec: "block_codec_ok sample_block_env"
  by (simp add: block_codec_ok_def sample_block_env_def)

definition sample_published :: "(data_block_meta + string) block_world" where
  "sample_published = block_run sample_block_env 0
     [Publish None ''a'' ''b'' 0 [sample_call ''x'' 0, sample_call ''y'' 3] Renamed Failed_after,
      Restart_process] empty_blocks"

theorem data_blocks_consistent_witness:
  "\<exists>n w1. get_dumped_data_block_count sample_block_env 0 sample_published = (Inr n, w1) \<and> n \<le> 2"
  using data_blocks_consistent [OF sample_block_codec _ sample_published_def [symmetric]] by auto

lemma sample_publish:
  "\<exists>m w1. publish_block sample_block_env 0 None ''a'' ''b'' 0 [sample_call ''x'' 0, sample_call ''y'' 3]
     Renamed Renamed empty_blocks = (Inr (Some m), w1)"
  by (rule publish_succeeds [OF empty_blocks_ok]) (simp_all add: follows_def sample_call_def)

theorem published_block_durable_witness:
  "\<exists>m w1 w3. publish_block sample_block_env 0 None ''a'' ''b'' 0
       [sample_call ''x'' 0, sample_call ''y'' 3] Renamed Renamed empty_blocks = (Inr (Some m), w1) \<and>
     get_data_block_meta_by_index sample_block_env 0 (bm_data_block_index m)
       (block_run sample_block_env 0 [Publish None ''c'' ''d'' 0 [sample_call ''z'' 7] Failed_after Renamed,
          Restart_process] w1) = (Inr (Some m), w3)"
proof -
  obtain m w1 where run: "publish_block sample_block_env 0 None ''a'' ''b'' 0
      [sample_call ''x'' 0, sample_call ''y'' 3] Renamed Renamed empty_blocks = (Inr (Some m), w1)"
    using sample_publish by blast
  have e: "block_run sample_block_env 0 [] empty_blocks = empty_blocks" by simp
  show ?thesis
    using published_block_durable [OF sample_block_codec _ e run refl,
        of "[Publish None ''c'' ''d'' 0 [sample_call ''z'' 7] Failed_after Renamed, Restart_process]"] run
    by auto
qed

theorem stale_builder_overwrites_witness:
  "\<exists>w b m w'. finish_data_block sample_block_env 0 ''u'' Renamed Renamed b w = (Inl IndexError, w') \<and>
     block_published sample_block_env 0 (bw_fs w) 0 m \<and>
     bw_fs w' (data_block_path sample_block_env 0 m) = Some [Inr ''z'']"
proof -
  have calls: "successively follows [sample_call ''x'' 0]" "successively follows [sample_call ''z'' 0]"
    "[sample_call ''x'' 0] \<noteq> []" "[sample_call ''z'' 0] \<noteq> []" by simp_all
  obtain m w where run: "publish_block sample_block_env 0 None ''a'' ''b'' 0 [sample_call ''x'' 0]
      Renamed Renamed empty_blocks = (Inr (Some m), w)"
    using publish_succeeds [OF empty_blocks_ok _ calls(1,3)] by force
  then obtain b0 us where w: "blocks_ok sample_block_env 0 1 w" "block_synced 1 w"
    "block_published sample_block_env 0 (bw_fs w) 0 m"
    "append_items sample_block_env [sample_call ''x'' 0] (fresh_builder sample_block_env 0 0 None ''a'' 0) = (Inr us, b0)"
    "m = finished_meta sample_block_env b0"
    using publish_spec [OF empty_blocks_ok _ run] by auto
  have x: "collected sample_block_env [sample_call ''x'' 0] b0"
    using append_items_collected [OF collected_fresh, of "[sample_call ''x'' 0]" sample_block_env 0 0 None "''a''" 0]
      w(4) by auto
  obtain us1 b where b: "append_items sample_block_env [sample_call ''z'' 0]
      (fresh_builder sample_block_env 0 0 None ''c'' 0) = (Inr us1, b)"
    "collected sample_block_env [sample_call ''z'' 0] b"
    using append_items_collected [OF collected_fresh, of "[sample_call ''z'' 0]" sample_block_env 0 0 None "''c''" 0]
    by auto
  have t: "bm_start_time m = bm_start_time (bb_data_block_meta b)" "bm_end_time m = bm_end_time (bb_data_block_meta b)"
    using x b(2) w(5) by (simp_all add: collected_def covers_def finished_meta_def call_time_def sample_call_def)
  have "map (call_record sample_block_env) [sample_call ''z'' 0] = [Inr ''z'']"
    by (simp add: call_record_def sample_call_def)
  then show ?thesis
    using stale_builder_overwrites [OF w(1,2) append_items_ok [OF b(1) fresh_builder_ok] _ b(2) calls(4) w(3) t,
        of "''u''"] w(3) by auto
qed

end
