(* ===== verification/Block_Dumper.thy ===== *)
theory Block_Dumper
  imports Raw_Data_Visitor Data_Block
begin

text \<open>
  The dumper of data blocks (\<open>data_join/data_block_dumper.py\<close>), on the side that did not join.

  The peer joins and sends the meta of every block; \<open>DataBlockDumperManager\<close> queues the metas
  and, in a routine, reads the raw data of its own side again through a raw data visitor,
  picks the items that the meta names and writes them into a block under the same
  meta. The context manager \<open>make_data_block_dumper\<close> leaves the state marked as stale when an
  exception leaves its body, and the next routine then drops from the queue what has been
  published.

  A block is built on the queued message itself: \<open>init_by_meta\<close> makes it the builder's meta, so
  the block id that \<open>finish_data_block\<close> sets is set in the queue as well. Timers and the
  statistics of optional fields, which only count and log, have no counterpart.
\<close>

section \<open>State\<close>

record ('r, 'v) dumper_env =
  de_block :: "'r block_env"
  de_partition :: int
  de_manifest :: "'v mg_env"
  de_visitor :: "('r block_item, 'v rd_manager) visitor_env"

record ('r, 'v) block_dumper =
  bd_next_data_block_index :: int
  bd_fly_data_block_meta :: "data_block_meta list"
  bd_state_stale :: bool
  bd_synced_finished :: bool
  bd_visitor :: "('r block_item, 'v rd_manager) visitor"
  bd_world :: "'r block_world"

text \<open>The names of the temporary files of one block, and what becomes of its renames.\<close>

record dump_choice =
  dc_uid :: string
  dc_meta_uid :: string
  dc_data_outcome :: rename_outcome
  dc_meta_outcome :: rename_outcome

definition on_world :: "('r block_world, 'a) sx \<Rightarrow> (('r, 'v) block_dumper, 'a) sx" where
  "on_world f d = (case f (bd_world d) of (r, w) \<Rightarrow> (r, d\<lparr>bd_world := w\<rparr>))"

definition new_block_dumper ::
    "('r, 'v) dumper_env \<Rightarrow> (string \<times> 'v) list \<Rightarrow> 'r block_fs \<Rightarrow> ('r, 'v) block_dumper result" where
  "new_block_dumper en kv fs =
     (case new_data_block_manager (de_block en) (de_partition en) fs of
        (Inl e, _) \<Rightarrow> Inl e
      | (Inr _, w) \<Rightarrow>
          bind_result (new_raw_data_visitor (de_manifest en) (de_partition en) kv) (\<lambda>v.
            case get_dumped_data_block_count (de_block en) (de_partition en) w of
              (Inl e, _) \<Rightarrow> Inl e
            | (Inr n, w) \<Rightarrow> Inr
                \<lparr>bd_next_data_block_index = n, bd_fly_data_block_meta = [], bd_state_stale = False,
                 bd_synced_finished = False, bd_visitor = v, bd_world = w\<rparr>))"

section \<open>The queue of metas\<close>

definition get_dumped_data_block_index ::
    "('r, 'v) dumper_env \<Rightarrow> (('r, 'v) block_dumper, int) sx" where
  "get_dumped_data_block_index en =
     sx_bind (on_world (get_dumped_data_block_count (de_block en) (de_partition en))) (\<lambda>n.
     sx_return (n - 1))"

definition add_synced_data_block_meta ::
    "data_block_meta \<Rightarrow> (('r, 'v) block_dumper, bool \<times> int) sx" where
  "add_synced_data_block_meta m = sx_bind sx_get (\<lambda>d.
     if bd_synced_finished d then sx_raise RuntimeError
     else if bd_next_data_block_index d \<noteq> bm_data_block_index m
     then sx_return (False, bd_next_data_block_index d)
     else sx_bind (sx_modify (\<lambda>d. d\<lparr>bd_fly_data_block_meta := bd_fly_data_block_meta d @ [m],
                   bd_next_data_block_index := bd_next_data_block_index d + 1\<rparr>)) (\<lambda>_.
          sx_return (True, bd_next_data_block_index d + 1)))"

definition finish_sync_data_block_meta :: "('r, 'v) block_dumper \<Rightarrow> ('r, 'v) block_dumper" where
  "finish_sync_data_block_meta d = d\<lparr>bd_synced_finished := True\<rparr>"

definition need_dump :: "('r, 'v) block_dumper \<Rightarrow> bool" where
  "need_dump d \<longleftrightarrow> 0 < length (bd_fly_data_block_meta d)"

definition get_next_data_block_meta :: "('r, 'v) block_dumper \<Rightarrow> data_block_meta option" where
  "get_next_data_block_meta d =
     (if length (bd_fly_data_block_meta d) = 0 then None else Some (bd_fly_data_block_meta d ! 0))"

definition evict_dumped_data_block_meta ::
    "('r, 'v) dumper_env \<Rightarrow> (('r, 'v) block_dumper, unit) sx" where
  "evict_dumped_data_block_meta en =
     sx_bind (on_world (get_dumped_data_block_count (de_block en) (de_partition en))) (\<lambda>n.
     sx_modify (\<lambda>d. d\<lparr>bd_fly_data_block_meta :=
       dropWhile (\<lambda>m. bm_data_block_index m < n) (bd_fly_data_block_meta d)\<rparr>))"

section \<open>Dumping one block\<close>

text \<open>Whether the item with this index is the one that place \<open>k\<close> of the meta names.\<close>

definition if_match :: "data_block_meta \<Rightarrow> nat \<Rightarrow> int \<Rightarrow> 'r block_item \<Rightarrow> bool result" where
  "if_match m k index item =
     (if 0 < length (bm_indices m)
      then bind_result (list_at (bm_indices m) (int k)) (\<lambda>i. Inr (i = index))
      else bind_result (list_at (bm_example_ids m) (int k)) (\<lambda>e. Inr (it_example_id item = e)))"

definition with_joined ::
    "'r block_env \<Rightarrow> data_block_meta \<Rightarrow> nat \<Rightarrow> 'r block_item \<Rightarrow> 'r block_item result" where
  "with_joined en m k item =
     (if 0 < length (bm_joined m)
      then bind_result (list_at (bm_joined m) (int k)) (\<lambda>j.
           Inr (item\<lparr>it_record := be_add_joined en j (it_record item)\<rparr>))
      else Inr item)"

text \<open>The inner loop: the item is written once for each place in a row that names it.\<close>

function match_loop ::
    "'r block_env \<Rightarrow> data_block_meta \<Rightarrow> int \<Rightarrow> nat \<Rightarrow> 'r block_item \<Rightarrow> ('r data_block_builder, nat) sx"
where
  "match_loop en m index k item b =
     (if k < length (bm_example_ids m)
      then case if_match m k index item of
             Inl e \<Rightarrow> (Inl e, b)
           | Inr False \<Rightarrow> (Inr k, b)
           | Inr True \<Rightarrow>
               (case with_joined en m k item of
                  Inl e \<Rightarrow> (Inl e, b)
                | Inr item \<Rightarrow> match_loop en m index (Suc k) item (snd (write_item item b)))
      else (Inr k, b))"
  by pat_completeness auto
termination
  by (relation "measure (\<lambda>(en, m, index, k, item, b). length (bm_example_ids m) - k)") auto

declare match_loop.simps [simp del]

text \<open>
  The outer loop, \<open>for (index, item) in self._raw_data_visitor\<close>: how many places have been
  matched when it ends.
\<close>

partial_function (option) scan_items ::
    "('r, 'v) dumper_env \<Rightarrow> data_block_meta \<Rightarrow> nat \<Rightarrow> ('r block_item, 'v rd_manager) visitor \<Rightarrow>
     'r data_block_builder \<Rightarrow>
     (nat result \<times> ('r block_item, 'v rd_manager) visitor \<times> 'r data_block_builder) option"
where
  "scan_items en m k v b =
     (case visitor_next (de_visitor en) v of
        (Inl e, v1) \<Rightarrow> Some (if e = StopIteration then Inr k else Inl e, v1, b)
      | (Inr (index, item), v1) \<Rightarrow>
          (case match_loop (de_block en) m index k item b of
             (Inl e, b1) \<Rightarrow> Some (Inl e, v1, b1)
           | (Inr k1, b1) \<Rightarrow>
               if length (bm_example_ids m) \<le> k1 then Some (Inr k1, v1, b1)
               else if bm_leader_end_index m \<le> index then Some (Inr k1, v1, b1)
               else scan_items en m k1 v1 b1))"

definition position_visitor ::
    "('r, 'v) dumper_env \<Rightarrow> data_block_meta \<Rightarrow> ('r block_item, 'v rd_manager, unit) vx" where
  "position_visitor en m =
     except_stop
       (if bm_leader_start_index m = 0 then sx_modify visitor_reset
        else sx_bind (sx_assert (0 < bm_leader_start_index m)) (\<lambda>_.
             sx_bind (visitor_seek (de_visitor en) (bm_leader_start_index m - 1)) (\<lambda>_. sx_return ())))
       (sx_raise ProcessExit)"

text \<open>
  What follows the loops. The builder's meta, the queue's first message and the argument \<open>meta\<close>
  are one object, so setting the block id changes all three.
\<close>

definition relabel_head :: "'r block_env \<Rightarrow> 'r data_block_builder \<Rightarrow> ('r, 'v) block_dumper \<Rightarrow> ('r, 'v) block_dumper" where
  "relabel_head en b d =
     (if bb_example_num b = int (length (bm_example_ids (bb_data_block_meta b))) \<and>
         0 < length (bm_example_ids (bb_data_block_meta b))
      then d\<lparr>bd_fly_data_block_meta := (bd_fly_data_block_meta d)[0 := finished_meta en b]\<rparr>
      else d)"

definition finish_dump ::
    "('r, 'v) dumper_env \<Rightarrow> dump_choice \<Rightarrow> data_block_meta \<Rightarrow> nat \<Rightarrow> 'r data_block_builder \<Rightarrow>
     (('r, 'v) block_dumper, unit) sx" where
  "finish_dump en ch m k b =
     (if k < length (bm_example_ids m) then sx_raise ProcessExit
      else sx_bind (sx_modify (relabel_head (de_block en) b)) (\<lambda>_.
           sx_bind (on_world (finish_data_block (de_block en) (de_partition en) (dc_meta_uid ch)
                      (dc_data_outcome ch) (dc_meta_outcome ch) b)) (\<lambda>dumped_meta.
           sx_bind (sx_assert (dumped_meta = Some (finished_meta (de_block en) b))) (\<lambda>_.
           sx_bind sx_get (\<lambda>d.
           case bd_fly_data_block_meta d of
             [] \<Rightarrow> sx_raise IndexError
           | h # rest \<Rightarrow>
               sx_bind (sx_assert (h = finished_meta (de_block en) b)) (\<lambda>_.
               sx_modify (\<lambda>d. d\<lparr>bd_fly_data_block_meta := rest\<rparr>)))))))"

definition make_data_block_builder ::
    "('r, 'v) dumper_env \<Rightarrow> dump_choice \<Rightarrow> data_block_meta \<Rightarrow> ('r block_world, 'r data_block_builder) sx" where
  "make_data_block_builder en ch m =
     sx_bind (sx_assert (de_partition en = bm_partition_id m)) (\<lambda>_.
     sx_bind (new_data_block_builder (de_block en) (de_partition en) (bm_data_block_index m) None (dc_uid ch))
       (\<lambda>b. sx_return (set_data_block_manager (init_by_meta m b))))"

definition dump_data_block_by_meta ::
    "('r, 'v) dumper_env \<Rightarrow> dump_choice \<Rightarrow> data_block_meta \<Rightarrow> ('r, 'v) block_dumper \<Rightarrow>
     (unit result \<times> ('r, 'v) block_dumper) option" where
  "dump_data_block_by_meta en ch m d =
     (case on_world (make_data_block_builder en ch m) d of
        (Inl e, d) \<Rightarrow> Some (Inl e, d)
      | (Inr b, d) \<Rightarrow>
          (case position_visitor en m (bd_visitor d) of
             (Inl e, v) \<Rightarrow> Some (Inl e, d\<lparr>bd_visitor := v\<rparr>)
           | (Inr _, v) \<Rightarrow>
               (case scan_items en m 0 v b of
                  None \<Rightarrow> None
                | Some (Inl e, v, b) \<Rightarrow> Some (Inl e, d\<lparr>bd_visitor := v\<rparr>)
                | Some (Inr k, v, b) \<Rightarrow> Some (finish_dump en ch m k b (d\<lparr>bd_visitor := v\<rparr>)))))"

section \<open>The routine\<close>

text \<open>\<open>ch i\<close> is what the routine meets when it dumps its block number \<open>i\<close>.\<close>

partial_function (option) dump_data_blocks ::
    "('r, 'v) dumper_env \<Rightarrow> (nat \<Rightarrow> dump_choice) \<Rightarrow> nat \<Rightarrow> ('r, 'v) block_dumper \<Rightarrow>
     (unit result \<times> ('r, 'v) block_dumper) option"
where
  "dump_data_blocks en ch i d =
     (if \<not> need_dump d then Some (Inr (), d)
      else case get_next_data_block_meta d of
        None \<Rightarrow> dump_data_blocks en ch i d
      | Some m \<Rightarrow>
          (case rd_active_visitor (de_manifest en) (de_partition en) (bd_visitor d) of
             (Inl e, v) \<Rightarrow> Some (Inl e, d\<lparr>bd_visitor := v\<rparr>)
           | (Inr _, v) \<Rightarrow>
               (case dump_data_block_by_meta en (ch i) m (d\<lparr>bd_visitor := v\<rparr>) of
                  None \<Rightarrow> None
                | Some (Inl e, d) \<Rightarrow> Some (Inl e, d)
                | Some (Inr _, d) \<Rightarrow> dump_data_blocks en ch (Suc i) d)))"

definition sync_with_data_block_manager ::
    "('r, 'v) dumper_env \<Rightarrow> (('r, 'v) block_dumper, unit) sx" where
  "sync_with_data_block_manager en = sx_bind sx_get (\<lambda>d.
     if bd_state_stale d then evict_dumped_data_block_meta en else sx_return ())"

text \<open>\<open>with make_data_block_dumper() as dumper: dumper()\<close>\<close>

definition run_dumper ::
    "('r, 'v) dumper_env \<Rightarrow> (nat \<Rightarrow> dump_choice) \<Rightarrow> ('r, 'v) block_dumper \<Rightarrow>
     (unit result \<times> ('r, 'v) block_dumper) option" where
  "run_dumper en ch d =
     (case sync_with_data_block_manager en d of
        (Inl e, d) \<Rightarrow> Some (Inl e, d)
      | (Inr _, d) \<Rightarrow>
          (case dump_data_blocks en ch 0 (d\<lparr>bd_state_stale := True\<rparr>) of
             None \<Rightarrow> None
           | Some (Inl e, d) \<Rightarrow> Some (Inl e, d)
           | Some (Inr _, d) \<Rightarrow> Some (Inr (), d\<lparr>bd_state_stale := False\<rparr>)))"

section \<open>The scan over the cursor\<close>

text \<open>What the outer loop does with the items that the visitor will deliver.\<close>

fun scan_list ::
    "'r block_env \<Rightarrow> data_block_meta \<Rightarrow> (int \<times> 'r block_item) list \<Rightarrow> nat \<Rightarrow> 'r data_block_builder \<Rightarrow>
     nat result \<times> 'r data_block_builder" where
  "scan_list en m [] k b = (Inr k, b)"
| "scan_list en m ((index, item) # xs) k b =
     (case match_loop en m index k item b of
        (Inl e, b1) \<Rightarrow> (Inl e, b1)
      | (Inr k1, b1) \<Rightarrow>
          if length (bm_example_ids m) \<le> k1 \<or> bm_leader_end_index m \<le> index then (Inr k1, b1)
          else scan_list en m xs k1 b1)"

definition cursor_place :: "int \<Rightarrow> cursor \<Rightarrow> int" where
  "cursor_place T c =
     (if cu_finished c then T else case cu_pos c of None \<Rightarrow> 0 | Some k \<Rightarrow> k + 1)"

definition env_reads ::
    "('r, 'v) dumper_env \<Rightarrow> (nat \<Rightarrow> 'r block_item list) \<Rightarrow> (nat \<Rightarrow> string) \<Rightarrow> bool" where
  "env_reads en files path \<longleftrightarrow>
     readable (ve_disk (de_visitor en)) files path \<and>
     ve_gim (de_visitor en) = rd_gim (de_manifest en) (de_partition en)"

text \<open>The visitor has been told of \<open>k\<close> files of the \<open>N\<close> that there are.\<close>

definition reads ::
    "('r, 'v) dumper_env \<Rightarrow> (nat \<Rightarrow> 'r block_item list) \<Rightarrow> (nat \<Rightarrow> string) \<Rightarrow> nat \<Rightarrow> nat \<Rightarrow>
     ('r block_item, 'v rd_manager) visitor \<Rightarrow> cursor \<Rightarrow> bool" where
  "reads en files path N k v c \<longleftrightarrow>
     tracks rd_avail (rd_handed (de_manifest en) (de_partition en) files path N) files path False k k v c"

lemma place_goto [simp]: "\<not> cu_finished c \<Longrightarrow> cursor_place T (cursor_goto i c) = i + 1"
  by (simp add: cursor_place_def cursor_goto_def)

lemma scan_step:
  assumes r: "env_reads en files path" and d: "N < ve_depth (de_visitor en)" and v: "reads en files path N N v c"
  obtains v' c' where "visitor_next (de_visitor en) v = (Inl StopIteration, v')"
      "reads en files path N N v' c'" "file_start files N \<le> cursor_place (file_start files N) c"
    | v' c' where "visitor_next (de_visitor en) v =
        (Inr (with_item files N (cursor_place (file_start files N) c)), v')"
      "reads en files path N N v' c'" "cursor_place (file_start files N) c < file_start files N"
      "cursor_place (file_start files N) c' = cursor_place (file_start files N) c + 1"
proof -
  let ?T = "file_start files N"
  have e: "readable (ve_disk (de_visitor en)) files path"
    "ve_gim (de_visitor en) = rd_gim (de_manifest en) (de_partition en)"
    using r by (simp_all add: env_reads_def)
  from raw_data.next_follows [OF e d v [unfolded reads_def]]
  obtain v' where v': "visitor_next (de_visitor en) v =
      (map_sum id (with_item files N) (fst (cursor_next ?T c)), v')"
      "reads en files path N N v' (snd (cursor_next ?T c))"
    unfolding reads_def by blast
  show ?thesis
  proof (cases "\<not> cu_finished c \<and> cursor_place ?T c < ?T")
    case True
    then have "cursor_next ?T c = (Inr (cursor_place ?T c), cursor_goto (cursor_place ?T c) c)"
      by (cases "cu_pos c") (auto simp: cursor_next_def cursor_place_def Let_def split: if_splits)
    then show ?thesis using that(2) v' True by simp
  next
    case False
    then have "fst (cursor_next ?T c) = Inl StopIteration" "?T \<le> cursor_place ?T c"
      by (auto simp: cursor_next_def cursor_place_def Let_def split: option.splits if_splits)
    then show ?thesis using that(1) v' by simp
  qed
qed

lemma scan_follows:
  assumes r: "env_reads en files path" and d: "N < ve_depth (de_visitor en)"
  shows "reads en files path N N v c \<Longrightarrow>
    \<exists>v' c'. reads en files path N N v' c' \<and>
      scan_items en m k v b =
        (case scan_list (de_block en) m
            (map (with_item files N) [cursor_place (file_start files N) c..file_start files N - 1]) k b of
           (r, b') \<Rightarrow> Some (r, v', b'))"
proof (induction "nat (file_start files N - cursor_place (file_start files N) c)" arbitrary: v c k b
    rule: less_induct)
  case less
  let ?T = "file_start files N"
  let ?i = "cursor_place ?T c"
  show ?case
  proof (rule scan_step [OF r d less.prems])
    fix v' c' assume "visitor_next (de_visitor en) v = (Inl StopIteration, v')"
      "reads en files path N N v' c'" "?T \<le> ?i"
    then show ?thesis by (auto simp: scan_items.simps [of en m k v b])
  next
    fix v' c' assume step: "visitor_next (de_visitor en) v = (Inr (with_item files N ?i), v')"
      "reads en files path N N v' c'" "?i < ?T" "cursor_place ?T c' = ?i + 1"
    have up: "[?i..?T - 1] = ?i # [?i + 1..?T - 1]" using step(3) by (simp add: upto_rec1)
    have "nat (?T - cursor_place ?T c') < nat (?T - ?i)" using step(3,4) by simp
    note IH = less.hyps [OF this step(2), unfolded step(4)]
    obtain x b1 where ml: "match_loop (de_block en) m ?i k (item_at files N ?i) b = (x, b1)" by fastforce
    have scan: "scan_items en m k v b = (case x of
        Inl e \<Rightarrow> Some (Inl e, v', b1)
      | Inr k1 \<Rightarrow> if length (bm_example_ids m) \<le> k1 then Some (Inr k1, v', b1)
          else if bm_leader_end_index m \<le> ?i then Some (Inr k1, v', b1) else scan_items en m k1 v' b1)"
      by (simp add: scan_items.simps [of en m k v b] step(1) with_item_def ml)
    show ?thesis
    proof (cases "\<exists>k1. x = Inr k1 \<and> k1 < length (bm_example_ids m) \<and> ?i < bm_leader_end_index m")
      case True
      then obtain k1 where "x = Inr k1" "k1 < length (bm_example_ids m)" "?i < bm_leader_end_index m"
        by blast
      then show ?thesis using IH [of k1 b1] scan by (simp add: up with_item_def ml)
    next
      case False
      then show ?thesis using step(2) scan
        by (cases x) (auto simp: up with_item_def ml)
    qed
  qed
qed

section \<open>What is written\<close>

definition add_records :: "'r list \<Rightarrow> 'r data_block_builder \<Rightarrow> 'r data_block_builder" where
  "add_records rs b =
     b\<lparr>bb_written := bb_written b @ rs, bb_example_num := bb_example_num b + int (length rs)\<rparr>"

lemma add_records_simps [simp]:
  "add_records [] b = b"
  "add_records ss (add_records rs b) = add_records (rs @ ss) b"
  "bb_data_block_meta (add_records rs b) = bb_data_block_meta b"
  "bb_written (add_records rs b) = bb_written b @ rs"
  "bb_example_num (add_records rs b) = bb_example_num b + int (length rs)"
  "builder_ok en p n (add_records rs b) = builder_ok en p n b"
  "snd (write_item item b) = add_records [it_record item] b"
  by (simp_all add: add_records_def builder_ok_def write_item_def)

lemma match_loop_adds:
  "\<exists>rs. snd (match_loop en m index k item b) = add_records rs b \<and>
     (\<forall>k'. fst (match_loop en m index k item b) = Inr k' \<longrightarrow>
        k' = k + length rs \<and> (k \<le> length (bm_example_ids m) \<longrightarrow> k' \<le> length (bm_example_ids m)))"
proof (induction en m index k item b rule: match_loop.induct)
  case (1 en m index k item b)
  show ?case
  proof (cases "\<exists>item'. k < length (bm_example_ids m) \<and> if_match m k index item = Inr True \<and>
      with_joined en m k item = Inr item'")
    case True
    then obtain item' where t: "k < length (bm_example_ids m)" "if_match m k index item = Inr True"
      "with_joined en m k item = Inr item'" by blast
    have eq: "match_loop en m index k item b =
        match_loop en m index (Suc k) item' (add_records [it_record item'] b)"
      by (simp add: match_loop.simps [of en m index k item b] t)
    from "1.IH" [OF t(1) t(2) _ t(3)] obtain rs where
      "snd (match_loop en m index k item b) = add_records (it_record item' # rs) b"
      "\<And>k'. fst (match_loop en m index k item b) = Inr k' \<Longrightarrow>
        k' = Suc k + length rs \<and> (Suc k \<le> length (bm_example_ids m) \<longrightarrow> k' \<le> length (bm_example_ids m))"
      unfolding eq by auto
    then show ?thesis using t(1) by (intro exI [of _ "it_record item' # rs"]) auto
  next
    case False
    then have "snd (match_loop en m index k item b) = b"
      "\<And>k'. fst (match_loop en m index k item b) = Inr k' \<Longrightarrow> k' = k"
      by (auto simp: match_loop.simps [of en m index k item b] split: sum.splits bool.splits if_splits)
    then show ?thesis by (intro exI [of _ "[]"]) auto
  qed
qed

lemma scan_list_adds:
  "\<exists>rs. snd (scan_list en m xs k b) = add_records rs b \<and>
     (\<forall>k'. fst (scan_list en m xs k b) = Inr k' \<longrightarrow>
        k' = k + length rs \<and> (k \<le> length (bm_example_ids m) \<longrightarrow> k' \<le> length (bm_example_ids m)))"
proof (induction en m xs k b rule: scan_list.induct)
  case (1 en m k b)
  then show ?case by (intro exI [of _ "[]"]) simp
next
  case (2 en m index item xs k b)
  obtain x b1 where ml: "match_loop en m index k item b = (x, b1)" by fastforce
  obtain rs where rs: "b1 = add_records rs b"
      "\<And>k'. x = Inr k' \<Longrightarrow> k' = k + length rs \<and>
         (k \<le> length (bm_example_ids m) \<longrightarrow> k' \<le> length (bm_example_ids m))"
    using match_loop_adds [of en m index k item b] ml by auto
  show ?case
  proof (cases "\<exists>k1. x = Inr k1 \<and> \<not> (length (bm_example_ids m) \<le> k1 \<or> bm_leader_end_index m \<le> index)")
    case True
    then obtain k1 where k1: "x = Inr k1" "\<not> (length (bm_example_ids m) \<le> k1 \<or> bm_leader_end_index m \<le> index)"
      by blast
    from "2.IH" [OF ml [symmetric] k1] obtain rs' where
      "snd (scan_list en m xs k1 b1) = add_records rs' b1"
      "\<And>k'. fst (scan_list en m xs k1 b1) = Inr k' \<Longrightarrow> k' = k1 + length rs' \<and>
         (k1 \<le> length (bm_example_ids m) \<longrightarrow> k' \<le> length (bm_example_ids m))"
      by auto
    then show ?thesis using rs k1 by (intro exI [of _ "rs @ rs'"]) (auto simp: ml)
  next
    case False
    then show ?thesis using rs by (intro exI [of _ rs]) (cases x, auto simp: ml)
  qed
qed

section \<open>Positioning\<close>

lemma position_follows:
  assumes r: "env_reads en files path" and d: "N < ve_depth (de_visitor en)" and v: "reads en files path N N v c"
  shows "\<exists>v' c'. reads en files path N N v' c' \<and>
    position_visitor en m v =
      (if bm_leader_start_index m < 0 then Inl AssertionError
       else if bm_leader_start_index m = 0 \<or> bm_leader_start_index m \<le> file_start files N then Inr ()
       else Inl ProcessExit, v') \<and>
    (bm_leader_start_index m = 0 \<or> 0 \<le> bm_leader_start_index m \<and> bm_leader_start_index m \<le> file_start files N \<longrightarrow>
      cursor_place (file_start files N) c' = bm_leader_start_index m)"
proof -
  let ?T = "file_start files N" and ?s = "bm_leader_start_index m"
  have e: "readable (ve_disk (de_visitor en)) files path"
    "ve_gim (de_visitor en) = rd_gim (de_manifest en) (de_partition en)"
    using r by (simp_all add: env_reads_def)
  consider "?s < 0" | "?s = 0" | "0 < ?s" by linarith
  then show ?thesis
  proof cases
    case 1
    then show ?thesis using v
      by (intro exI [of _ v] exI [of _ c]) (simp add: position_visitor_def except_stop_def sx_assert_def)
  next
    case 2
    from raw_data.exec_follows [OF e d v [unfolded reads_def], of VReset]
    have "reads en files path N N (visitor_reset v) (c\<lparr>cu_pos := None, cu_finished := False\<rparr>)"
      by (simp add: reads_def)
    then show ?thesis using 2
      by (intro exI [of _ "visitor_reset v"] exI [of _ "c\<lparr>cu_pos := None, cu_finished := False\<rparr>"])
        (simp add: position_visitor_def except_stop_def cursor_place_def)
  next
    case 3
    then have "0 \<le> ?s - 1" by simp
    from raw_data.seek_follows [OF e d v [unfolded reads_def] this]
    obtain v' where v': "visitor_seek (de_visitor en) (?s - 1) v =
        (map_sum id (with_item files N) (fst (cursor_seek False ?T (?s - 1) c)), v')"
      "reads en files path N N v' (snd (cursor_seek False ?T (?s - 1) c))"
      unfolding reads_def by blast
    have p: "0 < N \<Longrightarrow> cu_finished c \<Longrightarrow> \<exists>s. cu_seen c = Some s \<and> ?T - 1 \<le> s \<and> s < ?T"
      "N = 0 \<Longrightarrow> ?T = 0" "\<And>s. cu_seen c = Some s \<Longrightarrow> s < ?T"
      using v by (auto simp: reads_def tracks_def)
    have sk: "fst (cursor_seek False ?T (?s - 1) c) =
        (if ?s \<le> ?T then Inr (?s - 1) else Inl StopIteration) \<and>
      (?s \<le> ?T \<longrightarrow> cursor_place ?T (snd (cursor_seek False ?T (?s - 1) c)) = ?s)"
    proof (cases "cu_finished c")
      case False
      then show ?thesis by (auto simp: cursor_seek_def)
    next
      case True
      then show ?thesis using p 3
        by (cases "N = 0") (auto simp: cursor_seek_def cursor_place_def cursor_goto_def)
    qed
    show ?thesis
      using v' sk 3 by (intro exI [of _ v'] exI [of _ "snd (cursor_seek False ?T (?s - 1) c)"])
        (auto simp: position_visitor_def except_stop_def sx_bind_def sx_assert_def)
  qed
qed

section \<open>Which items are picked\<close>

text \<open>
  What a meta asks for, place by place, what an item answers to, and the rows between
  the two indices of the meta.
\<close>

definition wants :: "data_block_meta \<Rightarrow> (int + string) list" where
  "wants m = (if bm_indices m \<noteq> [] then map Inl (bm_indices m) else map Inr (bm_example_ids m))"

definition answers :: "data_block_meta \<Rightarrow> int \<times> 'r block_item \<Rightarrow> int + string" where
  "answers m y = (if bm_indices m \<noteq> [] then Inl (fst y) else Inr (it_example_id (snd y)))"

definition well_formed :: "int \<Rightarrow> data_block_meta \<Rightarrow> bool" where
  "well_formed p m \<longleftrightarrow>
     bm_partition_id m = p \<and> bm_example_ids m \<noteq> [] \<and>
     (bm_indices m \<noteq> [] \<longrightarrow> length (bm_indices m) = length (bm_example_ids m)) \<and>
     (bm_joined m \<noteq> [] \<longrightarrow> length (bm_joined m) = length (bm_example_ids m)) \<and>
     0 \<le> bm_leader_start_index m \<and> bm_leader_start_index m \<le> bm_leader_end_index m"

definition rows :: "(nat \<Rightarrow> 'r block_item list) \<Rightarrow> nat \<Rightarrow> data_block_meta \<Rightarrow> (int \<times> 'r block_item) list" where
  "rows files N m =
     map (with_item files N) [bm_leader_start_index m..min (bm_leader_end_index m) (file_start files N - 1)]"

definition place_record :: "'r block_env \<Rightarrow> data_block_meta \<Rightarrow> nat \<times> (int \<times> 'r block_item) \<Rightarrow> 'r" where
  "place_record en m = (\<lambda>(k, y).
     if bm_joined m \<noteq> [] then be_add_joined en (bm_joined m ! k) (it_record (snd y)) else it_record (snd y))"

text \<open>Writing the field \<open>joined\<close> replaces its value.\<close>

definition joined_replaces :: "'r block_env \<Rightarrow> bool" where
  "joined_replaces en \<longleftrightarrow> (\<forall>i j r. be_add_joined en i (be_add_joined en j r) = be_add_joined en i r)"

text \<open>The greedy choice: a row answers all the equal wants in a row that it meets.\<close>

fun picks :: "'k list \<Rightarrow> ('y \<Rightarrow> 'k) \<Rightarrow> 'y list \<Rightarrow> 'y list" where
  "picks ws f [] = []"
| "picks ws f (y # ys) =
     map (\<lambda>_. y) (takeWhile ((=) (f y)) ws) @ picks (dropWhile ((=) (f y)) ws) f ys"

lemma picks_Nil [simp]: "picks [] f ys = []"
  by (induction ys) auto

lemma picks_answer: "map f (picks ws f ys) = take (length (picks ws f ys)) ws"
proof (induction ws f ys rule: picks.induct)
  case (2 ws f y ys)
  have "map f (map (\<lambda>_. y) (takeWhile ((=) (f y)) ws)) = takeWhile ((=) (f y)) ws"
    by (induction ws) auto
  moreover have "take (length (takeWhile ((=) (f y)) ws) + n) ws =
      takeWhile ((=) (f y)) ws @ take n (dropWhile ((=) (f y)) ws)" for n
    by (metis append_eq_conv_conj dropWhile_eq_drop take_add takeWhile_dropWhile_id)
  ultimately show ?case using 2 by simp
qed simp

lemma picks_length: "length (picks ws f ys) \<le> length ws"
  using arg_cong [OF picks_answer [of f ws ys], of length] by simp

lemma remdups_adj_run: "subseq (remdups_adj (map (\<lambda>_. y) xs @ zs)) (y # remdups_adj zs)"
proof (induction xs)
  case Nil
  then show ?case by (auto intro: list_emb.list_emb_Cons)
next
  case (Cons x xs)
  have "subseq (remdups_adj (y # zs)) (y # remdups_adj zs)"
    by (cases "remdups_adj zs") (auto simp: remdups_adj_Cons intro: list_emb.list_emb_Cons)
  then show ?case using Cons by (cases xs) simp_all
qed

lemma picks_subseq: "subseq (remdups_adj (picks ws f ys)) ys"
proof (induction ws f ys rule: picks.induct)
  case (2 ws f y ys)
  let ?zs = "picks (dropWhile ((=) (f y)) ws) f ys"
  have "subseq (remdups_adj (picks ws f (y # ys))) (y # remdups_adj ?zs)"
    using remdups_adj_run by simp
  moreover have "subseq (y # remdups_adj ?zs) (y # ys)" using 2 by simp
  ultimately show ?case by (rule subseq_order.order_trans)
qed simp

text \<open>The greedy choice serves all wants exactly when they can be served in order.\<close>

lemma picks_complete:
  "length (picks ws f ys) = length ws \<longleftrightarrow> subseq (remdups_adj ws) (map f ys)"
proof (induction ws f ys rule: picks.induct)
  case (1 ws f)
  then show ?case by (auto dest: list_emb_Nil2)
next
  case (2 ws f y ys)
  let ?run = "takeWhile ((=) (f y)) ws" and ?rest = "dropWhile ((=) (f y)) ws"
  have len: "length ws = length ?run + length ?rest" by (metis length_append takeWhile_dropWhile_id)
  have "subseq (remdups_adj ws) (f y # map f ys) \<longleftrightarrow> subseq (remdups_adj ?rest) (map f ys)"
  proof (cases ws)
    case (Cons w ws')
    show ?thesis
    proof (cases "f y = w")
      case True
      moreover have "(\<lambda>x. x = f y) = (=) (f y)" by auto
      ultimately have "remdups_adj ws = f y # remdups_adj ?rest"
        using Cons remdups_adj_append_dropWhile [of "[]" w ws'] by simp
      then show ?thesis by simp
    next
      case False
      then have "?rest = ws" "\<exists>zs. remdups_adj ws = w # zs"
        using Cons remdups_adj_Cons' [of w ws'] by auto
      then show ?thesis using False by auto
    qed
  qed simp
  then show ?case using 2 len by simp
qed

section \<open>The loops pick greedily\<close>

lemma if_match_at:
  assumes "well_formed p m" "k < length (bm_example_ids m)"
  shows "if_match m k index item = Inr (wants m ! k = answers m (index, item))"
  using assms by (auto simp: if_match_def well_formed_def wants_def answers_def eq_commute)

lemma with_joined_at:
  assumes "well_formed p m" "k < length (bm_example_ids m)"
  shows "with_joined en m k item =
    Inr (if bm_joined m \<noteq> [] then item\<lparr>it_record := be_add_joined en (bm_joined m ! k) (it_record item)\<rparr>
         else item)"
  using assms by (auto simp: with_joined_def well_formed_def)

lemma wants_length [simp]: "well_formed p m \<Longrightarrow> length (wants m) = length (bm_example_ids m)"
  by (auto simp: well_formed_def wants_def)

lemma drop_wants:
  "well_formed p m \<Longrightarrow> k < length (bm_example_ids m) \<Longrightarrow> drop k (wants m) = wants m ! k # drop (Suc k) (wants m)"
  by (simp add: Cons_nth_drop_Suc)

lemma match_loop_picks:
  assumes wf: "well_formed p m" and repl: "joined_replaces en"
  shows "match_loop en m index k item b =
    (let run = map (\<lambda>_. (index, item)) (takeWhile ((=) (answers m (index, item))) (drop k (wants m)))
     in (Inr (k + length run), add_records (map (place_record en m) (enumerate k run)) b))"
proof (induction "length (bm_example_ids m) - k" arbitrary: k item b)
  case 0
  then show ?case using wf by (simp add: match_loop.simps [of en m index k item b])
next
  case (Suc n)
  then have k: "k < length (bm_example_ids m)" by simp
  note simps = match_loop.simps [of en m index k item b] if_match_at [OF wf k] with_joined_at [OF wf k]
    drop_wants [OF wf k]
  show ?case
  proof (cases "wants m ! k = answers m (index, item)")
    case False
    then show ?thesis using k by (auto simp: simps)
  next
    case True
    let ?item = "if bm_joined m \<noteq> [] then item\<lparr>it_record := be_add_joined en (bm_joined m ! k) (it_record item)\<rparr>
         else item"
    have ans: "answers m (index, ?item) = answers m (index, item)" by (simp add: answers_def)
    have rec: "it_record ?item = place_record en m (k, index, item)" by (simp add: place_record_def)
    have again: "place_record en m (j, index, ?item) = place_record en m (j, index, item)" for j
      using repl by (simp add: place_record_def joined_replaces_def)
    have "map (place_record en m) (enumerate j (map (\<lambda>_. (index, ?item)) xs)) =
        map (place_record en m) (enumerate j (map (\<lambda>_. (index, item)) xs))" for j and xs :: "(int + string) list"
      by (induction xs arbitrary: j) (simp_all add: again del: if_not_P if_P)
    then show ?thesis
      using Suc.hyps(1) [of "Suc k" ?item "add_records [it_record ?item] b"] Suc.hyps(2) True k
      by (simp add: simps ans rec Let_def del: if_not_P if_P)
  qed
qed

lemma scan_list_picks:
  assumes wf: "well_formed p m" and repl: "joined_replaces en"
  shows "k < length (bm_example_ids m) \<Longrightarrow> a \<le> bm_leader_end_index m \<Longrightarrow>
    scan_list en m (map (with_item files N) [a..T - 1]) k b =
      (let ys = picks (drop k (wants m)) (answers m)
                  (map (with_item files N) [a..min (bm_leader_end_index m) (T - 1)])
       in (Inr (k + length ys), add_records (map (place_record en m) (enumerate k ys)) b))"
proof (induction "nat (T - a)" arbitrary: a k b)
  case 0
  then show ?case by simp
next
  case (Suc n)
  let ?y = "with_item files N a" and ?e = "bm_leader_end_index m"
  have a: "a < T" using Suc.hyps(2) by linarith
  have up: "[a..T - 1] = a # [a + 1..T - 1]" "[a..min ?e (T - 1)] = a # [a + 1..min ?e (T - 1)]"
    using a Suc.prems(2) by (simp_all add: upto_rec1)
  let ?run = "map (\<lambda>_. ?y) (takeWhile ((=) (answers m ?y)) (drop k (wants m)))"
  have drop: "dropWhile ((=) (answers m ?y)) (drop k (wants m)) = drop (k + length ?run) (wants m)"
    by (simp add: dropWhile_eq_drop add.commute)
  have loop: "match_loop en m a k (item_at files N a) b =
      (Inr (k + length ?run), add_records (map (place_record en m) (enumerate k ?run)) b)"
    using match_loop_picks [OF wf repl, of a k "item_at files N a" b] by (simp add: with_item_def Let_def)
  show ?case
  proof (cases "length (bm_example_ids m) \<le> k + length ?run \<or> ?e \<le> a")
    case True
    then have "picks (drop (k + length ?run) (wants m)) (answers m)
        (map (with_item files N) [a + 1..min ?e (T - 1)]) = []"
      using wf by auto
    then show ?thesis using True loop drop by (simp add: up Let_def with_item_def)
  next
    case False
    then show ?thesis
      using Suc.hyps(1) [of "a + 1" "k + length ?run"] Suc.hyps(2) loop drop
      by (simp add: up Let_def with_item_def enumerate_append_eq)
  qed
qed

section \<open>One block\<close>

text \<open>The meta as it is published.\<close>

definition labelled :: "'r block_env \<Rightarrow> data_block_meta \<Rightarrow> data_block_meta" where
  "labelled en m = m\<lparr>bm_block_id := encode_block_id (be_name en) m\<rparr>"

lemma labelled_simps [simp]:
  "bm_data_block_index (labelled en m) = bm_data_block_index m"
  "bm_partition_id (labelled en m) = bm_partition_id m"
  "bm_example_ids (labelled en m) = bm_example_ids m"
  "labelled en (labelled en m) = labelled en m"
  by (simp_all add: labelled_def encode_block_id_def)

lemma labelled_index: "labelled en m = labelled en m' \<Longrightarrow> bm_data_block_index m = bm_data_block_index m'"
  by (metis labelled_simps(1))

lemma finished_labelled: "finished_meta en b = labelled en (bb_data_block_meta b)"
  by (simp add: finished_meta_def labelled_def)

text \<open>A block that a dumper fills.\<close>

definition dump_builder :: "('r, 'v) dumper_env \<Rightarrow> dump_choice \<Rightarrow> data_block_meta \<Rightarrow> 'r data_block_builder" where
  "dump_builder en ch m =
     \<lparr>bb_data_source_name = be_name (de_block en), bb_partition_id = bm_partition_id m,
      bb_dirname = path_join (be_output_base_dir (de_block en)) ''data_block'',
      bb_max_example_num = None,
      bb_tmp_fpath = gen_tmp_fpath (partition_data_block_dir (de_block en) (de_partition en)) (dc_uid ch),
      bb_written = [], bb_data_block_meta = m, bb_example_num = 0, bb_example_ids_size = 0,
      bb_managed = True\<rparr>"

lemma dump_builder_simps [simp]:
  "bb_data_block_meta (dump_builder en ch m) = m"
  "bb_example_num (dump_builder en ch m) = 0"
  "bb_written (dump_builder en ch m) = []"
  by (simp_all add: dump_builder_def)

lemma dump_builder_ok:
  "bm_partition_id m = de_partition en \<Longrightarrow> bm_data_block_index m = n \<Longrightarrow>
   builder_ok (de_block en) (de_partition en) n (dump_builder en ch m)"
  by (simp add: builder_ok_def dump_builder_def)

definition builder_opened :: "('r, 'v) dumper_env \<Rightarrow> dump_choice \<Rightarrow> 'r block_world \<Rightarrow> 'r block_world" where
  "builder_opened en ch w =
     w\<lparr>bw_fs := (bw_fs w)
        (gen_tmp_fpath (partition_data_block_dir (de_block en) (de_partition en)) (dc_uid ch) \<mapsto> [])\<rparr>"

lemma make_builder_run:
  "make_data_block_builder en ch m w =
     (if de_partition en = bm_partition_id m
      then (Inr (dump_builder en ch m), builder_opened en ch w)
      else (Inl AssertionError, w))"
  by (simp add: make_data_block_builder_def sx_assert_def new_data_block_builder_def Let_def fs_put_def
      init_by_meta_def set_data_block_manager_def dump_builder_def partition_data_block_dir_def sx_bind_def
      builder_opened_def)

lemma builder_opened_ok:
  "blocks_ok (de_block en) (de_partition en) n w \<Longrightarrow> blocks_ok (de_block en) (de_partition en) n (builder_opened en ch w)"
  "block_synced n w \<Longrightarrow> block_synced n (builder_opened en ch w)"
  by (simp_all add: blocks_ok_def builder_opened_def files_ok_foreign cache_ok_foreign foreign_tmp block_synced_def)

text \<open>
  What an attempt to dump block \<open>n\<close> leaves: the block is published or not, under the
  meta it was queued with, the files of the blocks before are as they were, and the
  meta leaves the queue only when the block is published.
\<close>

definition attempted ::
    "('r, 'v) dumper_env \<Rightarrow> int \<Rightarrow> data_block_meta \<Rightarrow> data_block_meta list \<Rightarrow> ('r, 'v) block_dumper \<Rightarrow>
     unit result \<Rightarrow> ('r, 'v) block_dumper \<Rightarrow> int \<Rightarrow> bool" where
  "attempted en n m rest d r d' n' \<longleftrightarrow>
     n \<le> n' \<and> n' \<le> n + 1 \<and> blocks_ok (de_block en) (de_partition en) n' (bd_world d') \<and>
     (n' = n + 1 \<longrightarrow>
        block_published (de_block en) (de_partition en) (bw_fs (bd_world d')) n (labelled (de_block en) m)) \<and>
     (r = Inr () \<longrightarrow> n' = n + 1 \<and> block_synced n' (bd_world d') \<and> bd_fly_data_block_meta d' = rest) \<and>
     (r \<noteq> Inr () \<longrightarrow>
        (\<exists>h. bd_fly_data_block_meta d' = h # rest \<and> labelled (de_block en) h = labelled (de_block en) m)) \<and>
     (\<forall>path. block_file (de_block en) (de_partition en) n path \<longrightarrow>
        bw_fs (bd_world d') path = bw_fs (bd_world d) path) \<and>
     bd_next_data_block_index d' = bd_next_data_block_index d \<and>
     bd_state_stale d' = bd_state_stale d"

lemma attempted_failed:
  assumes "blocks_ok (de_block en) (de_partition en) n (bd_world d')" "bd_fly_data_block_meta d' = m # rest"
    "\<And>path. block_file (de_block en) (de_partition en) n path \<Longrightarrow>
        bw_fs (bd_world d') path = bw_fs (bd_world d) path"
    "bd_next_data_block_index d' = bd_next_data_block_index d" "bd_state_stale d' = bd_state_stale d"
  shows "attempted en n m rest d (Inl e) d' n"
  using assms by (simp add: attempted_def)

lemma finish_dump_spec:
  assumes ok: "blocks_ok (de_block en) (de_partition en) n (bd_world d)" and syn: "block_synced n (bd_world d)"
    and b: "builder_ok (de_block en) (de_partition en) n b" "bb_data_block_meta b = m"
      "bb_example_num b = int k" "k \<le> length (bm_example_ids m)"
    and fly: "bd_fly_data_block_meta d = m # rest"
  shows "\<exists>r d' n'. finish_dump en ch m k b d = (r, d') \<and> attempted en n m rest d r d' n' \<and>
    bd_visitor d' = bd_visitor d \<and>
    (r = Inr () \<longrightarrow> bw_fs (bd_world d') (data_block_path (de_block en) (de_partition en) (labelled (de_block en) m))
       = Some (bb_written b))"
proof (cases "k < length (bm_example_ids m)")
  case True
  then have "finish_dump en ch m k b d = (Inl ProcessExit, d)" by (simp add: finish_dump_def)
  moreover have "attempted en n m rest d (Inl ProcessExit) d n"
    by (rule attempted_failed) (use ok fly in simp_all)
  ultimately show ?thesis by blast
next
  case False
  let ?m = "labelled (de_block en) m" and ?p = "de_partition en"
  let ?d = "relabel_head (de_block en) b d"
  have num: "bb_example_num b = int (length (bm_example_ids (bb_data_block_meta b)))"
    using False b by simp
  have rl: "bd_world ?d = bd_world d" "bd_visitor ?d = bd_visitor d"
      "bd_next_data_block_index ?d = bd_next_data_block_index d" "bd_state_stale ?d = bd_state_stale d"
      "bd_fly_data_block_meta ?d = (if bm_example_ids m = [] then m else ?m) # rest"
    using num b(2) fly by (simp_all add: relabel_head_def finished_labelled)
  obtain q w' where fin: "finish_data_block (de_block en) ?p (dc_meta_uid ch) (dc_data_outcome ch)
      (dc_meta_outcome ch) b (bd_world d) = (q, w')" by fastforce
  from finish_spec [OF ok syn b(1) fin] obtain n' where n': "n \<le> n'" "n' \<le> n + 1"
      "blocks_ok (de_block en) ?p n' w'"
      "\<And>x. q = Inr (Some x) \<Longrightarrow> n' = n + 1 \<and> block_synced n' w' \<and> x = ?m"
      "n' = n + 1 \<Longrightarrow> block_published (de_block en) ?p (bw_fs w') n ?m \<and>
        bw_fs w' (data_block_path (de_block en) ?p ?m) = Some (bb_written b)"
    unfolding finished_labelled b(2) by (elim exE conjE) metis
  have ids: "bm_example_ids m \<noteq> []" if "q = Inr (Some x)" for x
    using fin that b(2) unfolding finish_run [OF b(1)] num by auto
  have kept: "bw_fs w' path = bw_fs (bd_world d) path" if prot: "block_file (de_block en) ?p n path" for path
  proof -
    have tb: "suffix ''.tmp'' (bb_tmp_fpath b)" using b by (simp add: builder_ok_def)
    note k = keeps_finish [OF b(1) block_file_differs(1) [OF prot tb]
      block_file_differs(1) [OF prot path_suffixes(3)]
      block_file_differs(3) [OF prot finished_meta_fields(1,2) [OF b(1)]] block_file_differs(2) [OF prot]]
    show ?thesis using sx_keepsD [OF k refl fin] .
  qed
  have run: "finish_dump en ch m k b d =
      (case q of Inl e \<Rightarrow> (Inl e, ?d\<lparr>bd_world := w'\<rparr>)
       | Inr None \<Rightarrow> (Inl AssertionError, ?d\<lparr>bd_world := w'\<rparr>)
       | Inr (Some x) \<Rightarrow> (Inr (), ?d\<lparr>bd_world := w', bd_fly_data_block_meta := rest\<rparr>))"
  proof (cases q)
    case (Inl e)
    then show ?thesis using False fin rl(1) by (simp add: finish_dump_def on_world_def sx_bind_def)
  next
    case (Inr y)
    show ?thesis
    proof (cases y)
      case None
      then show ?thesis using False fin rl(1) Inr
        by (simp add: finish_dump_def on_world_def sx_bind_def sx_assert_def)
    next
      case (Some x)
      then have "x = ?m" "bm_example_ids m \<noteq> []" using n'(4) ids Inr by auto
      then show ?thesis using False fin rl(1,5) Inr Some
        by (simp add: finish_dump_def on_world_def sx_bind_def sx_assert_def finished_labelled b(2))
    qed
  qed
  show ?thesis
  proof (cases "\<exists>x. q = Inr (Some x)")
    case True
    then obtain x where q: "q = Inr (Some x)" by blast
    have "attempted en n m rest d (Inr ()) (?d\<lparr>bd_world := w', bd_fly_data_block_meta := rest\<rparr>) n'"
      using n'(1-3,5) n'(4) [OF q] kept rl by (auto simp: attempted_def)
    then show ?thesis using run q n'(4) [OF q] n'(5) rl by auto
  next
    case False
    then obtain e where e: "finish_dump en ch m k b d = (Inl e, ?d\<lparr>bd_world := w'\<rparr>)"
      using run by (auto split: sum.splits option.splits)
    have "attempted en n m rest d (Inl e) (?d\<lparr>bd_world := w'\<rparr>) n'"
      using n'(1-3,5) kept rl by (simp add: attempted_def)
    then show ?thesis using e rl by auto
  qed
qed

definition dump_scan ::
    "('r, 'v) dumper_env \<Rightarrow> (nat \<Rightarrow> 'r block_item list) \<Rightarrow> nat \<Rightarrow> dump_choice \<Rightarrow> data_block_meta \<Rightarrow>
     nat result \<times> 'r data_block_builder" where
  "dump_scan en files N ch m =
     scan_list (de_block en) m
       (map (with_item files N) [bm_leader_start_index m..file_start files N - 1]) 0 (dump_builder en ch m)"

text \<open>A dump positions the visitor, scans, and finishes.\<close>

lemma dump_block_run:
  assumes r: "env_reads en files path" and d: "N < ve_depth (de_visitor en)"
    and v: "reads en files path N N (bd_visitor d) c" and p: "bm_partition_id m = de_partition en"
  obtains (positioned) v' c' where "reads en files path N N v' c'"
      "0 \<le> bm_leader_start_index m" "bm_leader_start_index m = 0 \<or> bm_leader_start_index m \<le> file_start files N"
      "dump_data_block_by_meta en ch m d =
        (let d1 = d\<lparr>bd_world := builder_opened en ch (bd_world d), bd_visitor := v'\<rparr> in
         case dump_scan en files N ch m of
           (Inl e, b) \<Rightarrow> Some (Inl e, d1)
         | (Inr k, b) \<Rightarrow> Some (finish_dump en ch m k b d1))"
    | (lost) v' c' e where "reads en files path N N v' c'"
      "bm_leader_start_index m < 0 \<and> e = AssertionError \<or>
       0 < bm_leader_start_index m \<and> file_start files N < bm_leader_start_index m \<and> e = ProcessExit"
      "dump_data_block_by_meta en ch m d =
        Some (Inl e, d\<lparr>bd_world := builder_opened en ch (bd_world d), bd_visitor := v'\<rparr>)"
proof -
  let ?T = "file_start files N" and ?s = "bm_leader_start_index m"
  obtain v1 c1 where pos: "reads en files path N N v1 c1"
      "position_visitor en m (bd_visitor d) =
        (if ?s < 0 then Inl AssertionError else if ?s = 0 \<or> ?s \<le> ?T then Inr () else Inl ProcessExit, v1)"
      "?s = 0 \<or> 0 \<le> ?s \<and> ?s \<le> ?T \<Longrightarrow> cursor_place ?T c1 = ?s"
    using position_follows [OF r d v, of m] by blast
  have run: "dump_data_block_by_meta en ch m d =
      (case position_visitor en m (bd_visitor d) of
         (Inl e, v) \<Rightarrow> Some (Inl e, d\<lparr>bd_world := builder_opened en ch (bd_world d), bd_visitor := v\<rparr>)
       | (Inr _, v) \<Rightarrow>
           (case scan_items en m 0 v (dump_builder en ch m) of
              None \<Rightarrow> None
            | Some (Inl e, v, b) \<Rightarrow>
                Some (Inl e, d\<lparr>bd_world := builder_opened en ch (bd_world d), bd_visitor := v\<rparr>)
            | Some (Inr k, v, b) \<Rightarrow>
                Some (finish_dump en ch m k b
                  (d\<lparr>bd_world := builder_opened en ch (bd_world d), bd_visitor := v\<rparr>))))"
    using p by (simp add: dump_data_block_by_meta_def on_world_def make_builder_run)
  show ?thesis
  proof (cases "0 \<le> ?s \<and> (?s = 0 \<or> ?s \<le> ?T)")
    case True
    have "cursor_place ?T c1 = ?s" using pos(3) True by blast
    with scan_follows [OF r d pos(1), of m 0 "dump_builder en ch m"]
    obtain v2 c2 where sc: "reads en files path N N v2 c2"
      "scan_items en m 0 v1 (dump_builder en ch m) =
        (case dump_scan en files N ch m of (r, b') \<Rightarrow> Some (r, v2, b'))"
      by (auto simp: dump_scan_def)
    have q: "position_visitor en m (bd_visitor d) = (Inr (), v1)"
      using pos(2) True by auto
    show ?thesis
    proof (rule positioned [OF sc(1)])
      show "dump_data_block_by_meta en ch m d =
        (let d1 = d\<lparr>bd_world := builder_opened en ch (bd_world d), bd_visitor := v2\<rparr> in
         case dump_scan en files N ch m of
           (Inl e, b) \<Rightarrow> Some (Inl e, d1)
         | (Inr k, b) \<Rightarrow> Some (finish_dump en ch m k b d1))"
        using run sc(2) q by (cases "dump_scan en files N ch m"; cases "fst (dump_scan en files N ch m)") auto
    qed (use True in auto)
  next
    case False
    then show ?thesis using lost [OF pos(1)] pos(2) run by (cases "?s < 0") auto
  qed
qed

lemma dump_block_spec:
  assumes r: "env_reads en files path" and d: "N < ve_depth (de_visitor en)"
    and v: "reads en files path N N (bd_visitor d) c"
    and ok: "blocks_ok (de_block en) (de_partition en) n (bd_world d)" and syn: "block_synced n (bd_world d)"
    and fly: "bd_fly_data_block_meta d = m # rest" and idx: "bm_data_block_index m = n"
  shows "\<exists>r d' c' n'. dump_data_block_by_meta en ch m d = Some (r, d') \<and>
    reads en files path N N (bd_visitor d') c' \<and> attempted en n m rest d r d' n'"
proof (cases "bm_partition_id m = de_partition en")
  case False
  then have "dump_data_block_by_meta en ch m d = Some (Inl AssertionError, d)"
    by (auto simp: dump_data_block_by_meta_def on_world_def make_builder_run)
  moreover have "attempted en n m rest d (Inl AssertionError) d n"
    by (rule attempted_failed) (use ok fly in simp_all)
  ultimately show ?thesis using v by blast
next
  case p: True
  note open_ok = builder_opened_ok(1) [OF ok, of ch] builder_opened_ok(2) [OF syn, of en ch]
  have kept: "bw_fs (builder_opened en ch (bd_world d)) q = bw_fs (bd_world d) q"
    if "block_file (de_block en) (de_partition en) n q" for q
    using block_file_differs(1) [OF that path_suffixes(3)] by (simp add: builder_opened_def)
  have fail: "attempted en n m rest d (Inl e)
      (d\<lparr>bd_world := builder_opened en ch (bd_world d), bd_visitor := v'\<rparr>) n" for e v'
    by (rule attempted_failed) (use open_ok fly kept in simp_all)
  from r d v p show ?thesis
  proof (rule dump_block_run [where ch = ch])
    fix v' c' e assume "reads en files path N N v' c'" "dump_data_block_by_meta en ch m d =
        Some (Inl e, d\<lparr>bd_world := builder_opened en ch (bd_world d), bd_visitor := v'\<rparr>)"
    then show ?thesis using fail [of e v'] by (intro exI conjI) auto
  next
    fix v' c' assume v': "reads en files path N N v' c'"
      and run: "dump_data_block_by_meta en ch m d =
        (let d1 = d\<lparr>bd_world := builder_opened en ch (bd_world d), bd_visitor := v'\<rparr> in
         case dump_scan en files N ch m of
           (Inl e, b) \<Rightarrow> Some (Inl e, d1)
         | (Inr k, b) \<Rightarrow> Some (finish_dump en ch m k b d1))"
    let ?d = "d\<lparr>bd_world := builder_opened en ch (bd_world d), bd_visitor := v'\<rparr>"
    obtain x b where sc: "dump_scan en files N ch m = (x, b)" by fastforce
    obtain rs where rs: "b = add_records rs (dump_builder en ch m)"
        "\<And>k. x = Inr k \<Longrightarrow> k = length rs \<and> k \<le> length (bm_example_ids m)"
      using scan_list_adds [of "de_block en" m
          "map (with_item files N) [bm_leader_start_index m..file_start files N - 1]" 0 "dump_builder en ch m"] sc
      by (auto simp: dump_scan_def)
    show ?thesis
    proof (cases x)
      case (Inl e)
      then show ?thesis using run sc v' fail [of e v'] by (intro exI conjI) (auto simp: Let_def)
    next
      case (Inr k)
      have b: "builder_ok (de_block en) (de_partition en) n b" "bb_data_block_meta b = m"
          "bb_example_num b = int k" "k \<le> length (bm_example_ids m)"
        using rs Inr dump_builder_ok [OF p idx] by auto
      from finish_dump_spec [where d = ?d, OF _ _ b, of rest ch] open_ok fly
      obtain q d' n' where fin: "finish_dump en ch m k b ?d = (q, d')" "attempted en n m rest ?d q d' n'"
        "bd_visitor d' = v'" by auto
      have "attempted en n m rest d q d' n'"
        using fin(2) kept unfolding attempted_def by auto
      then show ?thesis using run sc Inr fin v' by (intro exI conjI) (auto simp: Let_def)
    qed
  qed
qed

text \<open>
  With renames that work and a meta in good form, the outcome is decided by the rows, and the
  data file holds the picked rows.
\<close>

lemma dump_block_exact:
  assumes r: "env_reads en files path" and d: "N < ve_depth (de_visitor en)"
    and v: "reads en files path N N (bd_visitor d) c"
    and ok: "blocks_ok (de_block en) (de_partition en) n (bd_world d)" and syn: "block_synced n (bd_world d)"
    and fly: "bd_fly_data_block_meta d = m # rest" and idx: "bm_data_block_index m = n"
    and wf: "well_formed (de_partition en) m" and repl: "joined_replaces (de_block en)"
    and ch: "dc_data_outcome ch = Renamed" "dc_meta_outcome ch = Renamed"
  defines "ys \<equiv> picks (wants m) (answers m) (rows files N m)"
  shows "if length ys = length (bm_example_ids m)
    then \<exists>d'. dump_data_block_by_meta en ch m d = Some (Inr (), d') \<and>
      bw_fs (bd_world d') (data_block_path (de_block en) (de_partition en) (labelled (de_block en) m))
        = Some (map (place_record (de_block en) m) (enumerate 0 ys))
    else \<exists>d'. dump_data_block_by_meta en ch m d = Some (Inl ProcessExit, d') \<and>
      bd_fly_data_block_meta d' = m # rest"
proof -
  have p: "bm_partition_id m = de_partition en" "bm_example_ids m \<noteq> []"
      "0 \<le> bm_leader_start_index m" "bm_leader_start_index m \<le> bm_leader_end_index m"
    using wf by (auto simp: well_formed_def)
  note open_ok = builder_opened_ok(1) [OF ok, of ch] builder_opened_ok(2) [OF syn, of en ch]
  from r d v p(1) show ?thesis
  proof (rule dump_block_run [where ch = ch])
    fix v' c' e assume s: "bm_leader_start_index m < 0 \<and> e = AssertionError \<or>
       0 < bm_leader_start_index m \<and> file_start files N < bm_leader_start_index m \<and> e = ProcessExit"
      and run: "dump_data_block_by_meta en ch m d =
        Some (Inl e, d\<lparr>bd_world := builder_opened en ch (bd_world d), bd_visitor := v'\<rparr>)"
    then have "rows files N m = []" "e = ProcessExit" using p(3) by (auto simp: rows_def)
    then show ?thesis using run fly p(2) by (simp add: ys_def)
  next
    fix v' c' assume v': "reads en files path N N v' c'"
      and run: "dump_data_block_by_meta en ch m d =
        (let d1 = d\<lparr>bd_world := builder_opened en ch (bd_world d), bd_visitor := v'\<rparr> in
         case dump_scan en files N ch m of
           (Inl e, b) \<Rightarrow> Some (Inl e, d1)
         | (Inr k, b) \<Rightarrow> Some (finish_dump en ch m k b d1))"
    let ?d = "d\<lparr>bd_world := builder_opened en ch (bd_world d), bd_visitor := v'\<rparr>"
    let ?rs = "map (place_record (de_block en) m) (enumerate 0 ys)"
    let ?b = "add_records ?rs (dump_builder en ch m)"
    have sc: "dump_scan en files N ch m = (Inr (length ys), ?b)"
      using scan_list_picks [OF wf repl _ p(4), of 0 files N "file_start files N" "dump_builder en ch m"] p(2)
      by (simp add: dump_scan_def ys_def rows_def Let_def)
    have b: "builder_ok (de_block en) (de_partition en) n ?b" "bb_data_block_meta ?b = m"
        "bb_example_num ?b = int (length ys)" "length ys \<le> length (bm_example_ids m)"
      using dump_builder_ok [OF p(1) idx] picks_length [of "wants m"] wf by (auto simp: ys_def)
    show ?thesis
    proof (cases "length ys = length (bm_example_ids m)")
      case False
      then show ?thesis using run sc b(4) fly by (simp add: Let_def finish_dump_def)
    next
      case True
      from finish_dump_spec [where d = ?d, OF _ _ b, of rest ch] open_ok fly
      obtain q d' n' where fin: "finish_dump en ch m (length ys) ?b ?d = (q, d')"
        "q = Inr () \<longrightarrow> bw_fs (bd_world d') (data_block_path (de_block en) (de_partition en)
           (labelled (de_block en) m)) = Some ?rs"
        by auto
      from finish_succeeds [OF open_ok b(1), of "dc_meta_uid ch"] True p(2) b(2,3)
      obtain w' where "finish_data_block (de_block en) (de_partition en) (dc_meta_uid ch) Renamed Renamed ?b
          (builder_opened en ch (bd_world d)) = (Inr (Some (labelled (de_block en) m)), w')"
        unfolding finished_labelled by auto
      then have "q = Inr ()"
        using fin(1) True fly p(2) ch b(2)
        by (auto simp: finish_dump_def on_world_def sx_bind_def sx_assert_def finished_labelled relabel_head_def)
      then show ?thesis using fin run sc True by (simp add: Let_def)
    qed
  qed
qed

section \<open>The queue and the published blocks\<close>

text \<open>
  \<open>acc\<close> are the metas accepted since the process found \<open>n0\<close> blocks; \<open>n\<close> blocks are published
  now, the first \<open>n - n0\<close> of \<open>acc\<close> among them. \<open>queued\<close> says that the queue holds the rest of
  \<open>acc\<close> from \<open>j\<close> on.
\<close>

definition dumper_inv ::
    "('r, 'v) dumper_env \<Rightarrow> (nat \<Rightarrow> 'r block_item list) \<Rightarrow> (nat \<Rightarrow> string) \<Rightarrow> nat \<Rightarrow> int \<Rightarrow>
     data_block_meta list \<Rightarrow> int \<Rightarrow> ('r, 'v) block_dumper \<Rightarrow> bool" where
  "dumper_inv en files path N n0 acc n d \<longleftrightarrow>
     0 \<le> n0 \<and> n0 \<le> n \<and> n \<le> n0 + int (length acc) \<and>
     bd_next_data_block_index d = n0 + int (length acc) \<and>
     (\<forall>i < length acc. bm_data_block_index (acc ! i) = n0 + int i) \<and>
     (\<exists>k c. reads en files path N k (bd_visitor d) c) \<and>
     blocks_ok (de_block en) (de_partition en) n (bd_world d) \<and>
     (\<forall>i. n0 + int i < n \<longrightarrow>
        block_published (de_block en) (de_partition en) (bw_fs (bd_world d)) (n0 + int i)
          (labelled (de_block en) (acc ! i)))"

definition queued :: "('r, 'v) dumper_env \<Rightarrow> data_block_meta list \<Rightarrow> nat \<Rightarrow> ('r, 'v) block_dumper \<Rightarrow> bool" where
  "queued en acc j d \<longleftrightarrow>
     map (labelled (de_block en)) (bd_fly_data_block_meta d) = map (labelled (de_block en)) (drop j acc)"

text \<open>Between the routines, and in the middle of one that has been broken off.\<close>

definition aligned :: "('r, 'v) dumper_env \<Rightarrow> int \<Rightarrow> data_block_meta list \<Rightarrow> int \<Rightarrow> ('r, 'v) block_dumper \<Rightarrow> bool" where
  "aligned en n0 acc n d \<longleftrightarrow> block_synced n (bd_world d) \<and> queued en acc (nat (n - n0)) d"

definition trailing :: "('r, 'v) dumper_env \<Rightarrow> int \<Rightarrow> data_block_meta list \<Rightarrow> int \<Rightarrow> ('r, 'v) block_dumper \<Rightarrow> bool" where
  "trailing en n0 acc n d \<longleftrightarrow>
     queued en acc (nat (n - n0)) d \<or> n0 < n \<and> queued en acc (nat (n - n0) - 1) d"

definition blocks_kept :: "('r, 'v) dumper_env \<Rightarrow> int \<Rightarrow> ('r, 'v) block_dumper \<Rightarrow> ('r, 'v) block_dumper \<Rightarrow> bool" where
  "blocks_kept en n d d' \<longleftrightarrow>
     (\<forall>path. block_file (de_block en) (de_partition en) n path \<longrightarrow>
        bw_fs (bd_world d') path = bw_fs (bd_world d) path)"

lemma blocks_kept_refl [simp]: "blocks_kept en n d d"
  by (simp add: blocks_kept_def)

lemma blocks_kept_trans:
  "blocks_kept en n d d1 \<Longrightarrow> blocks_kept en n1 d1 d2 \<Longrightarrow> n \<le> n1 \<Longrightarrow> blocks_kept en n d d2"
  unfolding blocks_kept_def using block_file_mono by metis

lemma published_kept:
  assumes "blocks_kept en n d d'" "i < n"
    and "block_published (de_block en) (de_partition en) (bw_fs (bd_world d)) i m"
  shows "block_published (de_block en) (de_partition en) (bw_fs (bd_world d')) i m"
proof -
  have "block_file (de_block en) (de_partition en) n (get_data_block_meta_path (de_block en) (de_partition en) i)"
    "block_file (de_block en) (de_partition en) n (data_block_path (de_block en) (de_partition en) m)"
    using assms(2,3) by (auto simp: block_file_def block_published_def)
  then show ?thesis using assms(1,3) by (simp add: blocks_kept_def block_published_def)
qed

lemma queued_Nil: "queued en acc j d \<Longrightarrow> bd_fly_data_block_meta d = [] \<longleftrightarrow> length acc \<le> j"
  unfolding queued_def by (metis drop_eq_Nil map_is_Nil_conv)

lemma queued_Cons:
  assumes "queued en acc j d" "bd_fly_data_block_meta d = m # rest"
  shows "j < length acc" "labelled (de_block en) m = labelled (de_block en) (acc ! j)"
    "map (labelled (de_block en)) rest = map (labelled (de_block en)) (drop (Suc j) acc)"
proof -
  show j: "j < length acc" using queued_Nil [OF assms(1)] assms(2) by simp
  have "drop j acc = acc ! j # drop (Suc j) acc" using j by (simp add: Cons_nth_drop_Suc)
  then show "labelled (de_block en) m = labelled (de_block en) (acc ! j)"
    "map (labelled (de_block en)) rest = map (labelled (de_block en)) (drop (Suc j) acc)"
    using assms by (simp_all add: queued_def)
qed

text \<open>One attempt, seen from the queue.\<close>

lemma attempt_inv:
  assumes iv: "dumper_inv en files path N n0 acc n d" and al: "aligned en n0 acc n d"
    and fly: "bd_fly_data_block_meta d = m # rest"
    and v: "reads en files path N N (bd_visitor d') c'"
    and a: "attempted en n m rest d r d' n'"
  shows "dumper_inv en files path N n0 acc n' d'" "n \<le> n'" "blocks_kept en n d d'"
    "r = Inr () \<Longrightarrow> n' = n + 1 \<and> aligned en n0 acc n' d' \<and> bd_fly_data_block_meta d' = rest"
    "trailing en n0 acc n' d'" "bd_state_stale d' = bd_state_stale d"
proof -
  let ?j = "nat (n - n0)"
  have n: "0 \<le> n0" "n0 \<le> n" "int ?j = n - n0" using iv by (simp_all add: dumper_inv_def)
  note q = queued_Cons [OF conjunct2 [OF al [unfolded aligned_def]] fly]
  have n': "n \<le> n'" "n' \<le> n + 1" and next_eq: "bd_next_data_block_index d' = bd_next_data_block_index d"
    and ok': "blocks_ok (de_block en) (de_partition en) n' (bd_world d')"
    using a by (simp_all add: attempted_def)
  show "n \<le> n'" by fact
  show kept: "blocks_kept en n d d'" using a by (simp add: attempted_def blocks_kept_def)
  show "bd_state_stale d' = bd_state_stale d" using a by (simp add: attempted_def)
  have pub: "block_published (de_block en) (de_partition en) (bw_fs (bd_world d')) (n0 + int i)
      (labelled (de_block en) (acc ! i))" if i: "n0 + int i < n'" for i
  proof (cases "n0 + int i < n")
    case True
    then show ?thesis using published_kept [OF kept True] iv by (simp add: dumper_inv_def)
  next
    case False
    then have "n' = n + 1" "n0 + int i = n" using i n' by simp_all
    then show ?thesis using a q(2) n(3) by (simp add: attempted_def flip: of_nat_eq_iff) (metis nat_int add_diff_cancel_left')
  qed
  have "n' \<le> n0 + int (length acc)" using q(1) n n' by linarith
  then show "dumper_inv en files path N n0 acc n' d'"
    using iv n' next_eq v ok' pub unfolding dumper_inv_def by auto
  have suc: "nat (n + 1 - n0) = Suc ?j" using n(2) by linarith
  show done_ok: "n' = n + 1 \<and> aligned en n0 acc n' d' \<and> bd_fly_data_block_meta d' = rest" if "r = Inr ()"
    using a that q(3) suc by (auto simp: attempted_def aligned_def queued_def)
  show "trailing en n0 acc n' d'"
  proof (cases "r = Inr ()")
    case True
    then show ?thesis using done_ok by (auto simp: trailing_def aligned_def)
  next
    case False
    then obtain h where "bd_fly_data_block_meta d' = h # rest"
        "labelled (de_block en) h = labelled (de_block en) m"
      using a by (auto simp: attempted_def)
    then have "queued en acc ?j d'" using al fly by (simp add: aligned_def queued_def)
    moreover have "n' = n \<or> n' = n + 1" using n' by linarith
    ultimately show ?thesis using suc n by (auto simp: trailing_def)
  qed
qed

text \<open>The head of the queue is the next block to publish.\<close>

lemma head_index:
  assumes "dumper_inv en files path N n0 acc n d" "aligned en n0 acc n d" "bd_fly_data_block_meta d = m # rest"
  shows "bm_data_block_index m = n"
proof -
  note q = queued_Cons [OF conjunct2 [OF assms(2) [unfolded aligned_def]] assms(3)]
  have "n0 \<le> n" "\<And>i. i < length acc \<Longrightarrow> bm_data_block_index (acc ! i) = n0 + int i"
    using assms(1) by (simp_all add: dumper_inv_def)
  then show ?thesis using labelled_index [OF q(2)] q(1) by simp
qed

lemma active_reads:
  assumes r: "env_reads en files path" and v: "reads en files path N k v c"
  shows "\<exists>v' c'. rd_active_visitor (de_manifest en) (de_partition en) v = (Inr (), v') \<and>
    reads en files path N N v' c'"
  using active_tracks [OF _ v [unfolded reads_def]] r unfolding env_reads_def reads_def by blast

text \<open>The loop of the routine.\<close>

lemma dump_loop:
  assumes r: "env_reads en files path" and dp: "N < ve_depth (de_visitor en)"
  shows "dumper_inv en files path N n0 acc n d \<Longrightarrow> aligned en n0 acc n d \<Longrightarrow>
    \<exists>r d' n'. dump_data_blocks en ch i d = Some (r, d') \<and> dumper_inv en files path N n0 acc n' d' \<and>
      n \<le> n' \<and> blocks_kept en n d d' \<and> trailing en n0 acc n' d' \<and> bd_state_stale d' = bd_state_stale d \<and>
      (r = Inr () \<longrightarrow> aligned en n0 acc n' d' \<and> bd_fly_data_block_meta d' = [])"
proof (induction "length (bd_fly_data_block_meta d)" arbitrary: n d i)
  case 0
  then show ?case
    by (intro exI [of _ "Inr ()"] exI [of _ d] exI [of _ n])
      (simp add: dump_data_blocks.simps [of en ch i d] need_dump_def trailing_def aligned_def)
next
  case (Suc l)
  then obtain m rest where fly: "bd_fly_data_block_meta d = m # rest" by (cases "bd_fly_data_block_meta d") auto
  obtain k c where "reads en files path N k (bd_visitor d) c" using Suc.prems(1) by (auto simp: dumper_inv_def)
  then obtain v1 c1 where act: "rd_active_visitor (de_manifest en) (de_partition en) (bd_visitor d) = (Inr (), v1)"
      "reads en files path N N v1 c1"
    using active_reads [OF r] by blast
  let ?d = "d\<lparr>bd_visitor := v1\<rparr>"
  have iv1: "dumper_inv en files path N n0 acc n ?d"
    using Suc.prems(1) act(2) unfolding dumper_inv_def by auto
  have al1: "aligned en n0 acc n ?d" using Suc.prems(2) by (simp add: aligned_def queued_def)
  have fly1: "bd_fly_data_block_meta ?d = m # rest" using fly by simp
  note idx = head_index [OF iv1 al1 fly1]
  have okw: "blocks_ok (de_block en) (de_partition en) n (bd_world ?d)" "block_synced n (bd_world ?d)"
    "reads en files path N N (bd_visitor ?d) c1"
    using iv1 al1 act(2) by (simp_all add: dumper_inv_def aligned_def)
  from dump_block_spec [OF r dp okw(3,1,2) fly1 idx, of "ch i"]
  obtain r1 d1 c2 n1 where one: "dump_data_block_by_meta en (ch i) m ?d = Some (r1, d1)"
      "reads en files path N N (bd_visitor d1) c2" "attempted en n m rest ?d r1 d1 n1" by blast
  note at = attempt_inv [OF iv1 al1 fly1 one(2,3)]
  have kept1: "blocks_kept en n d d1" using at(3) by (simp add: blocks_kept_def)
  have run: "dump_data_blocks en ch i d =
      (case r1 of Inl e \<Rightarrow> Some (Inl e, d1) | Inr _ \<Rightarrow> dump_data_blocks en ch (Suc i) d1)"
    using act(1) one(1) fly
    by (simp add: dump_data_blocks.simps [of en ch i d] need_dump_def get_next_data_block_meta_def)
  show ?case
  proof (cases r1)
    case (Inl e)
    then show ?thesis using run at(1,2,5,6) kept1
      by (intro exI [of _ "Inl e"] exI [of _ d1] exI [of _ n1]) simp
  next
    case (Inr u)
    then have u: "r1 = Inr ()" by simp
    have "l = length (bd_fly_data_block_meta d1)" using Suc.hyps(2) fly at(4) [OF u] by simp
    from Suc.hyps(1) [OF this at(1)] at(4) [OF u] obtain r2 d2 n2 where
      "dump_data_blocks en ch (Suc i) d1 = Some (r2, d2)" "dumper_inv en files path N n0 acc n2 d2"
      "n1 \<le> n2" "blocks_kept en n1 d1 d2" "trailing en n0 acc n2 d2" "bd_state_stale d2 = bd_state_stale d1"
      "r2 = Inr () \<longrightarrow> aligned en n0 acc n2 d2 \<and> bd_fly_data_block_meta d2 = []"
      by blast
    moreover have "blocks_kept en n d d2" using blocks_kept_trans [OF kept1] calculation(4) at(2) by blast
    ultimately show ?thesis using run u at(2,6) by (intro exI [of _ r2] exI [of _ d2] exI [of _ n2]) auto
  qed
qed

text \<open>At the start of a routine: what has been published leaves the queue.\<close>

definition dumper_ok ::
    "('r, 'v) dumper_env \<Rightarrow> (nat \<Rightarrow> 'r block_item list) \<Rightarrow> (nat \<Rightarrow> string) \<Rightarrow> nat \<Rightarrow> int \<Rightarrow>
     data_block_meta list \<Rightarrow> int \<Rightarrow> ('r, 'v) block_dumper \<Rightarrow> bool" where
  "dumper_ok en files path N n0 acc n d \<longleftrightarrow>
     dumper_inv en files path N n0 acc n d \<and>
     (if bd_state_stale d then trailing en n0 acc n d else aligned en n0 acc n d)"

lemma state_stale_simps [simp]:
  "dumper_inv en files path N n0 acc n (d\<lparr>bd_state_stale := x\<rparr>) = dumper_inv en files path N n0 acc n d"
  "aligned en n0 acc n (d\<lparr>bd_state_stale := x\<rparr>) = aligned en n0 acc n d"
  "blocks_kept en n d (d'\<lparr>bd_state_stale := x\<rparr>) = blocks_kept en n d d'"
  "blocks_kept en n (d\<lparr>bd_state_stale := x\<rparr>) d' = blocks_kept en n d d'"
  by (simp_all add: dumper_inv_def aligned_def queued_def blocks_kept_def)

lemma drop_published:
  assumes iv: "dumper_inv en files path N n0 acc n d" and t: "trailing en n0 acc n d"
  shows "map (labelled (de_block en)) (dropWhile (\<lambda>m. bm_data_block_index m < n) (bd_fly_data_block_meta d)) =
    map (labelled (de_block en)) (drop (nat (n - n0)) acc)"
proof -
  let ?P = "\<lambda>m. bm_data_block_index m < n" and ?j = "nat (n - n0)" and ?f = "labelled (de_block en)"
  have n: "0 \<le> n0" "n0 \<le> n" "n \<le> n0 + int (length acc)"
      "\<And>i. i < length acc \<Longrightarrow> bm_data_block_index (acc ! i) = n0 + int i"
    using iv by (simp_all add: dumper_inv_def)
  have through: "map ?f (dropWhile ?P xs) = dropWhile ?P (map ?f xs)" for xs
    by (simp add: dropWhile_map comp_def)
  have here: "dropWhile ?P (map ?f (drop ?j acc)) = map ?f (drop ?j acc)"
  proof (cases "?j < length acc")
    case True
    then have "drop ?j acc = acc ! ?j # drop (Suc ?j) acc" by (simp add: Cons_nth_drop_Suc)
    then show ?thesis using n True by simp
  qed simp
  consider "queued en acc ?j d" | "n0 < n" "queued en acc (?j - 1) d"
    using t by (auto simp: trailing_def)
  then show ?thesis
  proof cases
    case 1
    then show ?thesis using here by (simp add: through queued_def)
  next
    case 2
    then have "?j - 1 < length acc" "Suc (?j - 1) = ?j" using n by simp_all
    then have "drop (?j - 1) acc = acc ! (?j - 1) # drop ?j acc" by (metis Cons_nth_drop_Suc)
    moreover have "bm_data_block_index (acc ! (?j - 1)) < n"
      using n \<open>?j - 1 < length acc\<close> 2(1) by simp
    ultimately show ?thesis using here 2(2) by (simp add: through queued_def)
  qed
qed

lemma count_on_world:
  assumes "blocks_ok (de_block en) (de_partition en) n (bd_world d)" "n \<le> 2 ^ 63 + 1"
  shows "on_world (get_dumped_data_block_count (de_block en) (de_partition en)) d =
    (Inr n, d\<lparr>bd_world := (bd_world d)\<lparr>bw_dumped_index := Some (n - 1), bw_dumping_index := None\<rparr>\<rparr>)"
  using count_spec [OF assms] by (simp add: on_world_def)

lemma dumper_inv_synced:
  "dumper_inv en files path N n0 acc n d \<Longrightarrow>
   dumper_inv en files path N n0 acc n
     (d\<lparr>bd_world := (bd_world d)\<lparr>bw_dumped_index := Some (n - 1), bw_dumping_index := None\<rparr>\<rparr>)"
  unfolding dumper_inv_def by (simp add: synced_ok)

lemma sync_aligned:
  assumes ok: "dumper_ok en files path N n0 acc n d" and n: "n \<le> 2 ^ 63 + 1"
  shows "\<exists>d1. sync_with_data_block_manager en d = (Inr (), d1) \<and>
    dumper_inv en files path N n0 acc n d1 \<and> aligned en n0 acc n d1 \<and> blocks_kept en n d d1 \<and>
    (\<not> bd_state_stale d \<longrightarrow> d1 = d)"
proof (cases "bd_state_stale d")
  case False
  then show ?thesis using ok by (simp add: dumper_ok_def sync_with_data_block_manager_def)
next
  case True
  have iv: "dumper_inv en files path N n0 acc n d" and t: "trailing en n0 acc n d"
    using ok True by (simp_all add: dumper_ok_def)
  have w: "blocks_ok (de_block en) (de_partition en) n (bd_world d)" using iv by (simp add: dumper_inv_def)
  let ?d = "d\<lparr>bd_world := (bd_world d)\<lparr>bw_dumped_index := Some (n - 1), bw_dumping_index := None\<rparr>\<rparr>"
  let ?d1 = "?d\<lparr>bd_fly_data_block_meta :=
      dropWhile (\<lambda>m. bm_data_block_index m < n) (bd_fly_data_block_meta d)\<rparr>"
  have "sync_with_data_block_manager en d = (Inr (), ?d1)"
    using True by (simp add: sync_with_data_block_manager_def evict_dumped_data_block_meta_def sx_bind_def
        count_on_world [OF w n])
  moreover have "dumper_inv en files path N n0 acc n ?d1"
    using dumper_inv_synced [OF iv] unfolding dumper_inv_def by simp
  moreover have "aligned en n0 acc n ?d1"
    using drop_published [OF iv t] by (simp add: aligned_def queued_def)
  ultimately show ?thesis using True by (auto simp: blocks_kept_def)
qed

lemma session_ok:
  assumes r: "env_reads en files path" and dp: "N < ve_depth (de_visitor en)"
    and ok: "dumper_ok en files path N n0 acc n d" and n: "n \<le> 2 ^ 63 + 1"
  shows "\<exists>r d' n'. run_dumper en ch d = Some (r, d') \<and> dumper_ok en files path N n0 acc n' d' \<and>
    n \<le> n' \<and> blocks_kept en n d d' \<and> (r = Inr () \<longrightarrow> bd_fly_data_block_meta d' = [])"
proof -
  obtain d1 where d1: "sync_with_data_block_manager en d = (Inr (), d1)"
    "dumper_inv en files path N n0 acc n d1" "aligned en n0 acc n d1" "blocks_kept en n d d1"
    using sync_aligned [OF ok n] by blast
  let ?d1 = "d1\<lparr>bd_state_stale := True\<rparr>"
  have "dumper_inv en files path N n0 acc n ?d1" "aligned en n0 acc n ?d1"
    using d1(2,3) by simp_all
  from dump_loop [OF r dp this, of ch 0] obtain r2 d2 n2 where l:
    "dump_data_blocks en ch 0 ?d1 = Some (r2, d2)" "dumper_inv en files path N n0 acc n2 d2"
    "n \<le> n2" "blocks_kept en n ?d1 d2" "trailing en n0 acc n2 d2" "bd_state_stale d2 = bd_state_stale ?d1"
    "r2 = Inr () \<longrightarrow> aligned en n0 acc n2 d2 \<and> bd_fly_data_block_meta d2 = []" by blast
  have kept: "blocks_kept en n d d2" using blocks_kept_trans [OF d1(4)] l(4) by simp
  show ?thesis
  proof (cases r2)
    case (Inl e)
    then have "run_dumper en ch d = Some (Inl e, d2)" using d1(1) l(1) by (simp add: run_dumper_def)
    moreover have "dumper_ok en files path N n0 acc n2 d2" using l by (simp add: dumper_ok_def)
    ultimately show ?thesis using l(3) kept by blast
  next
    case (Inr u)
    let ?d2 = "d2\<lparr>bd_state_stale := False\<rparr>"
    have "run_dumper en ch d = Some (Inr (), ?d2)" using d1(1) l(1) Inr by (simp add: run_dumper_def)
    moreover have "dumper_ok en files path N n0 acc n2 ?d2"
      using l(2,7) Inr by (simp add: dumper_ok_def)
    moreover have "blocks_kept en n d ?d2" using kept by simp
    ultimately show ?thesis using l(3,7) Inr by auto
  qed
qed

section \<open>The life of a dumper\<close>

text \<open>
  The peer's messages, the queries of the service, files that other processes publish, and the
  routine, in any order. Adding to the end of the queue while the routine is at its
  front commutes with it, so the routine counts as one step.
\<close>

datatype dumper_reply = Added bool int | Dumped_to int | Nothing

datatype dumper_op =
    Sync_meta data_block_meta
  | Sync_finished
  | Ask_dumped
  | Files_arrive "raw_data_meta list"
  | Run_dumper "nat \<Rightarrow> dump_choice"

fun dumper_exec ::
    "('r, 'v) dumper_env \<Rightarrow> dumper_op \<Rightarrow> ('r, 'v) block_dumper \<Rightarrow>
     (dumper_reply result \<times> ('r, 'v) block_dumper) option" where
  "dumper_exec en (Sync_meta m) d =
     Some (sx_bind (add_synced_data_block_meta m) (\<lambda>(ok, i). sx_return (Added ok i)) d)"
| "dumper_exec en Sync_finished d = Some (Inr Nothing, finish_sync_data_block_meta d)"
| "dumper_exec en Ask_dumped d =
     Some (sx_bind (get_dumped_data_block_index en) (\<lambda>i. sx_return (Dumped_to i)) d)"
| "dumper_exec en (Files_arrive ts) d =
     Some (Inr Nothing, d\<lparr>bd_visitor := (bd_visitor d)\<lparr>v_manager := (v_manager (bd_visitor d))
       \<lparr>rd_kv := publish_files (de_manifest en) (de_partition en) ts (rd_kv (v_manager (bd_visitor d)))\<rparr>\<rparr>\<rparr>)"
| "dumper_exec en (Run_dumper ch) d =
     map_option (\<lambda>(r, d). (map_sum id (\<lambda>_. Nothing) r, d)) (run_dumper en ch d)"

fun dumper_run ::
    "('r, 'v) dumper_env \<Rightarrow> dumper_op list \<Rightarrow> ('r, 'v) block_dumper \<Rightarrow>
     (dumper_reply result list \<times> ('r, 'v) block_dumper) option" where
  "dumper_run en [] d = Some ([], d)"
| "dumper_run en (op # ops) d =
     (case dumper_exec en op d of
        None \<Rightarrow> None
      | Some (r, d1) \<Rightarrow> map_option (\<lambda>(rs, d2). (r # rs, d2)) (dumper_run en ops d1))"

fun accepted :: "dumper_op list \<Rightarrow> dumper_reply result list \<Rightarrow> data_block_meta list" where
  "accepted (Sync_meta m # ops) (Inr (Added True i) # rs) = m # accepted ops rs"
| "accepted (op # ops) (r # rs) = accepted ops rs"
| "accepted ops rs = []"

text \<open>The files that arrive on the way.\<close>

definition arrivals :: "dumper_op list \<Rightarrow> rd_op list" where
  "arrivals ops = concat (map (\<lambda>op. case op of Files_arrive ts \<Rightarrow> [Publish_files ts] | _ \<Rightarrow> []) ops)"

lemma arrivals_simps [simp]:
  "arrivals [] = []"
  "arrivals (Files_arrive ts # ops) = Publish_files ts # arrivals ops"
  "arrivals (Sync_meta m # ops) = arrivals ops"
  "arrivals (Sync_finished # ops) = arrivals ops"
  "arrivals (Ask_dumped # ops) = arrivals ops"
  "arrivals (Run_dumper ch # ops) = arrivals ops"
  by (simp_all add: arrivals_def)

lemma new_dumper_ok:
  assumes "files_ok (de_block en) (de_partition en) n fs" "n \<le> 2 ^ 63 + 1"
    and "store_ok (de_manifest en) (de_partition en) files path kv"
    and "published (de_manifest en) (de_partition en) kv N"
    and new: "new_block_dumper en kv fs = Inr d"
  shows "dumper_ok en files path N n [] n d \<and> \<not> bd_state_stale d \<and> bw_fs (bd_world d) = fs"
proof -
  let ?b = "de_block en" and ?p = "de_partition en"
  let ?w0 = "\<lparr>bw_fs = fs, bw_dumped_index = None, bw_dumping_index = None, bw_cache = []\<rparr>"
  have ok0: "blocks_ok ?b ?p n ?w0" using assms(1) by (simp add: blocks_ok_def cache_ok_def)
  let ?w = "?w0\<lparr>bw_dumped_index := Some (n - 1), bw_dumping_index := None\<rparr>"
  have m: "new_data_block_manager ?b ?p fs = (Inr (), ?w)"
    using sync_spec [OF ok0 assms(2)] by (simp add: new_data_block_manager_def)
  have okw: "blocks_ok ?b ?p n ?w" using synced_ok [OF ok0] .
  obtain v where v: "new_raw_data_visitor (de_manifest en) ?p kv = Inr v"
      "bd_visitor d = v" "bd_world d = ?w" "bd_next_data_block_index d = n"
      "bd_fly_data_block_meta d = []" "\<not> bd_state_stale d"
    using new count_spec [OF okw assms(2)]
    by (auto simp: new_block_dumper_def m bind_result_Inr_iff)
  have rd: "reads en files path N N v start_cursor"
    using new_raw_data_visitor_tracks [OF assms(3,4) v(1)] by (simp add: reads_def)
  have "0 \<le> n" using assms(1) by (simp add: files_ok_def)
  then have "dumper_inv en files path N n [] n d"
    using rd v okw unfolding dumper_inv_def by auto
  moreover have "aligned en n [] n d"
    using v by (simp add: aligned_def queued_def block_synced_def)
  ultimately show ?thesis using v by (simp add: dumper_ok_def)
qed

lemma accept_ok:
  assumes ok: "dumper_ok en files path N n0 acc n d"
    and d': "d' = d\<lparr>bd_fly_data_block_meta := bd_fly_data_block_meta d @ [m],
        bd_next_data_block_index := bd_next_data_block_index d + 1\<rparr>"
    and m: "bd_next_data_block_index d = bm_data_block_index m"
  shows "dumper_ok en files path N n0 (acc @ [m]) n d'"
proof -
  have iv: "dumper_inv en files path N n0 acc n d" using ok by (simp add: dumper_ok_def)
  have len: "nat (n - n0) \<le> length acc" using iv by (simp add: dumper_inv_def nat_le_iff)
  have "n0 + int i < n \<Longrightarrow> i < length acc" for i using iv by (simp add: dumper_inv_def)
  then have "dumper_inv en files path N n0 (acc @ [m]) n d'"
    using iv m d' unfolding dumper_inv_def by (auto simp: nth_append less_Suc_eq)
  moreover have "queued en acc j d \<Longrightarrow> j \<le> length acc \<Longrightarrow> queued en (acc @ [m]) j d'" for j
    using d' by (simp add: queued_def)
  ultimately show ?thesis using ok len d' by (auto simp: dumper_ok_def aligned_def trailing_def)
qed

lemma exec_ok:
  assumes r: "env_reads en files path" and ok: "dumper_ok en files path N n0 acc n d"
    and n: "n0 + int (length acc) \<le> 2 ^ 63 + 1" and dp: "N < ve_depth (de_visitor en)"
    and paths: "paths_ok path N (arrivals [op])"
  shows "\<exists>r d' n'. dumper_exec en op d = Some (r, d') \<and>
    dumper_ok en files path (total_files N (arrivals [op])) n0 (acc @ accepted [op] [r]) n' d' \<and>
    n \<le> n' \<and> blocks_kept en n d d'"
proof -
  have iv: "dumper_inv en files path N n0 acc n d" using ok by (simp add: dumper_ok_def)
  have w: "blocks_ok (de_block en) (de_partition en) n (bd_world d)" "n \<le> 2 ^ 63 + 1"
    using iv n by (simp_all add: dumper_inv_def)
  show ?thesis
  proof (cases op)
    case (Sync_meta m)
    consider "bd_synced_finished d" | "\<not> bd_synced_finished d" "bd_next_data_block_index d \<noteq> bm_data_block_index m"
      | "\<not> bd_synced_finished d" "bd_next_data_block_index d = bm_data_block_index m" by blast
    then show ?thesis
    proof cases
      case 3
      let ?d = "d\<lparr>bd_fly_data_block_meta := bd_fly_data_block_meta d @ [m],
          bd_next_data_block_index := bd_next_data_block_index d + 1\<rparr>"
      have "dumper_exec en op d = Some (Inr (Added True (bd_next_data_block_index d + 1)), ?d)"
        using 3 Sync_meta by (simp add: add_synced_data_block_meta_def sx_bind_def)
      moreover have "blocks_kept en n d ?d" by (simp add: blocks_kept_def)
      ultimately show ?thesis using accept_ok [OF ok refl 3(2)] Sync_meta by fastforce
    qed (use Sync_meta ok in \<open>auto simp: add_synced_data_block_meta_def sx_bind_def intro!: exI [of _ n]\<close>)
  next
    case Sync_finished
    then show ?thesis using ok
      by (auto simp: finish_sync_data_block_meta_def dumper_ok_def dumper_inv_def aligned_def trailing_def
          queued_def blocks_kept_def intro!: exI [of _ n])
  next
    case Ask_dumped
    let ?d = "d\<lparr>bd_world := (bd_world d)\<lparr>bw_dumped_index := Some (n - 1), bw_dumping_index := None\<rparr>\<rparr>"
    have "dumper_ok en files path N n0 acc n ?d"
      using ok dumper_inv_synced [OF iv] by (auto simp: dumper_ok_def aligned_def trailing_def queued_def split: if_splits)
    then show ?thesis using Ask_dumped count_on_world [OF w]
      by (auto simp: get_dumped_data_block_index_def sx_bind_def blocks_kept_def intro!: exI [of _ n])
  next
    case (Files_arrive ts)
    let ?v = "(bd_visitor d)\<lparr>v_manager := (v_manager (bd_visitor d))
       \<lparr>rd_kv := publish_files (de_manifest en) (de_partition en) ts (rd_kv (v_manager (bd_visitor d)))\<rparr>\<rparr>"
    obtain k c where "reads en files path N k (bd_visitor d) c" using iv by (auto simp: dumper_inv_def)
    then have "reads en files path (N + length ts) k ?v c"
      unfolding reads_def by (rule publish_tracks) (use paths Files_arrive in simp)
    then have "dumper_ok en files path (N + length ts) n0 acc n (d\<lparr>bd_visitor := ?v\<rparr>)"
      using ok unfolding dumper_ok_def dumper_inv_def aligned_def trailing_def queued_def by auto
    then show ?thesis using Files_arrive by (auto simp: blocks_kept_def intro!: exI [of _ n])
  next
    case (Run_dumper ch)
    then show ?thesis using session_ok [OF r dp ok w(2), of ch] by auto
  qed
qed

lemma accepted_Cons: "accepted (op # ops) (r # rs) = accepted [op] [r] @ accepted ops rs"
  by (cases "(op # ops, r # rs)" rule: accepted.cases) auto

lemma accepted_one: "length (accepted [op] [r]) \<le> 1"
  by (cases "([op], [r])" rule: accepted.cases) auto

lemma total_files_Cons: "total_files N (arrivals (op # ops)) = total_files (total_files N (arrivals [op])) (arrivals ops)"
  by (cases op) simp_all

lemma paths_ok_Cons:
  "paths_ok path N (arrivals (op # ops)) \<longleftrightarrow>
     paths_ok path N (arrivals [op]) \<and> paths_ok path (total_files N (arrivals [op])) (arrivals ops)"
  by (cases op) simp_all

lemma run_ok:
  assumes r: "env_reads en files path"
  shows "dumper_ok en files path N n0 acc n d \<Longrightarrow> n0 + int (length acc) + int (length ops) \<le> 2 ^ 63 + 1 \<Longrightarrow>
    total_files N (arrivals ops) < ve_depth (de_visitor en) \<Longrightarrow> paths_ok path N (arrivals ops) \<Longrightarrow>
    \<exists>rs d' n'. dumper_run en ops d = Some (rs, d') \<and>
      dumper_ok en files path (total_files N (arrivals ops)) n0 (acc @ accepted ops rs) n' d' \<and>
      n \<le> n' \<and> blocks_kept en n d d'"
proof (induction ops arbitrary: N acc n d)
  case (Cons op ops)
  have dp: "N < ve_depth (de_visitor en)"
    using Cons.prems(3) total_files_ge [of N "arrivals (op # ops)"] by simp
  have p: "paths_ok path N (arrivals [op])"
      "paths_ok path (total_files N (arrivals [op])) (arrivals ops)"
    using Cons.prems(4) unfolding paths_ok_Cons [of path N op ops] by blast+
  from exec_ok [OF r Cons.prems(1) _ dp p(1)] Cons.prems(2)
  obtain r1 d1 n1 where one: "dumper_exec en op d = Some (r1, d1)"
    "dumper_ok en files path (total_files N (arrivals [op])) n0 (acc @ accepted [op] [r1]) n1 d1"
    "n \<le> n1" "blocks_kept en n d d1" by auto
  have "n0 + int (length (acc @ accepted [op] [r1])) + int (length ops) \<le> 2 ^ 63 + 1"
    using Cons.prems(2) accepted_one [of op r1] by simp
  from Cons.IH [OF one(2) this _ p(2)] Cons.prems(3) total_files_Cons [of N op ops]
  obtain rs d2 n2 where "dumper_run en ops d1 = Some (rs, d2)"
    "dumper_ok en files path (total_files N (arrivals (op # ops))) n0
       ((acc @ accepted [op] [r1]) @ accepted ops rs) n2 d2" "n1 \<le> n2" "blocks_kept en n1 d1 d2"
    by auto
  then show ?case using one(1,3) blocks_kept_trans [OF one(4) _ one(3)] accepted_Cons [of op ops r1 rs]
    by (intro exI [of _ "r1 # rs"] exI [of _ d2] exI [of _ n2]) simp
qed auto

section \<open>What a routine publishes\<close>

definition served :: "(nat \<Rightarrow> 'r block_item list) \<Rightarrow> nat \<Rightarrow> data_block_meta \<Rightarrow> bool" where
  "served files N m \<longleftrightarrow> subseq (remdups_adj (wants m)) (map (answers m) (rows files N m))"

definition picked_data ::
    "'r block_env \<Rightarrow> (nat \<Rightarrow> 'r block_item list) \<Rightarrow> nat \<Rightarrow> data_block_meta \<Rightarrow> 'r list" where
  "picked_data en files N m =
     map (place_record en m) (enumerate 0 (picks (wants m) (answers m) (rows files N m)))"

lemma served_picks:
  "well_formed p m \<Longrightarrow>
   served files N m \<longleftrightarrow> length (picks (wants m) (answers m) (rows files N m)) = length (bm_example_ids m)"
  by (simp add: served_def flip: picks_complete)

lemma picked_rows:
  assumes "well_formed p m" "served files N m"
  shows "\<exists>ys. map (answers m) ys = wants m \<and> subseq (remdups_adj ys) (rows files N m) \<and>
    picked_data en files N m = map (place_record en m) (enumerate 0 ys)"
proof -
  let ?ys = "picks (wants m) (answers m) (rows files N m)"
  have "map (answers m) ?ys = wants m"
    using picks_answer [of "answers m" "wants m" "rows files N m"] served_picks [OF assms(1), of files N] assms
    by simp
  then show ?thesis using picks_subseq by (intro exI [of _ ?ys]) (simp add: picked_data_def)
qed

lemma loop_exact:
  assumes r: "env_reads en files path" and dp: "N < ve_depth (de_visitor en)"
    and repl: "joined_replaces (de_block en)"
    and ch: "\<And>i. dc_data_outcome (ch i) = Renamed \<and> dc_meta_outcome (ch i) = Renamed"
  shows "dumper_inv en files path N n0 acc n d \<Longrightarrow> aligned en n0 acc n d \<Longrightarrow>
    \<forall>m \<in> set (bd_fly_data_block_meta d). well_formed (de_partition en) m \<Longrightarrow>
    let ms = bd_fly_data_block_meta d; k = length (takeWhile (served files N) ms) in
    \<exists>d'. dump_data_blocks en ch i d = Some (if k = length ms then Inr () else Inl ProcessExit, d') \<and>
      bd_fly_data_block_meta d' = drop k ms \<and>
      (\<forall>i < k. bw_fs (bd_world d') (data_block_path (de_block en) (de_partition en) (labelled (de_block en) (ms ! i)))
         = Some (picked_data (de_block en) files N (ms ! i)) \<and>
       block_published (de_block en) (de_partition en) (bw_fs (bd_world d'))
         (bm_data_block_index (ms ! i)) (labelled (de_block en) (ms ! i)))"
proof (induction "bd_fly_data_block_meta d" arbitrary: n d i)
  case Nil
  then show ?case by (simp add: dump_data_blocks.simps [of en ch i d] need_dump_def)
next
  case (Cons m rest)
  have fly: "bd_fly_data_block_meta d = m # rest" using Cons.hyps(2) by simp
  obtain k c where "reads en files path N k (bd_visitor d) c" using Cons.prems(1) by (auto simp: dumper_inv_def)
  then obtain v1 c1 where act: "rd_active_visitor (de_manifest en) (de_partition en) (bd_visitor d) = (Inr (), v1)"
      "reads en files path N N v1 c1"
    using active_reads [OF r] by blast
  let ?d = "d\<lparr>bd_visitor := v1\<rparr>"
  have iv1: "dumper_inv en files path N n0 acc n ?d"
    using Cons.prems(1) act(2) unfolding dumper_inv_def by auto
  have al1: "aligned en n0 acc n ?d" using Cons.prems(2) by (simp add: aligned_def queued_def)
  have fly1: "bd_fly_data_block_meta ?d = m # rest" using fly by simp
  note idx = head_index [OF iv1 al1 fly1]
  have wf: "well_formed (de_partition en) m" using Cons.prems(3) fly by simp
  have okw: "blocks_ok (de_block en) (de_partition en) n (bd_world ?d)" "block_synced n (bd_world ?d)"
    "reads en files path N N (bd_visitor ?d) c1"
    using iv1 al1 act(2) by (simp_all add: dumper_inv_def aligned_def)
  from dump_block_spec [OF r dp okw(3,1,2) fly1 idx, of "ch i"]
  obtain r1 d1 c2 n1 where one: "dump_data_block_by_meta en (ch i) m ?d = Some (r1, d1)"
      "reads en files path N N (bd_visitor d1) c2" "attempted en n m rest ?d r1 d1 n1" by blast
  note at = attempt_inv [OF iv1 al1 fly1 one(2,3)]
  note ex = dump_block_exact [OF r dp okw(3,1,2) fly1 idx wf repl conjunct1 [OF ch] conjunct2 [OF ch], of i,
      folded served_picks [OF wf]]
  have run: "dump_data_blocks en ch i d =
      (case r1 of Inl e \<Rightarrow> Some (Inl e, d1) | Inr _ \<Rightarrow> dump_data_blocks en ch (Suc i) d1)"
    using act(1) one(1) fly
    by (simp add: dump_data_blocks.simps [of en ch i d] need_dump_def get_next_data_block_meta_def)
  show ?case
  proof (cases "served files N m")
    case False
    then have "r1 = Inl ProcessExit" "bd_fly_data_block_meta d1 = m # rest" using ex one(1) by auto
    then show ?thesis using run fly False by (simp add: Let_def)
  next
    case True
    let ?path = "data_block_path (de_block en) (de_partition en) (labelled (de_block en) m)"
    have u: "r1 = Inr ()" "bw_fs (bd_world d1) ?path = Some (picked_data (de_block en) files N m)"
      using ex one(1) True by (auto simp: picked_data_def)
    note a4 = at(4) [OF u(1)]
    have pub: "block_published (de_block en) (de_partition en) (bw_fs (bd_world d1)) n (labelled (de_block en) m)"
      using one(3) a4 by (simp add: attempted_def)
    let ?k = "length (takeWhile (served files N) rest)"
    have al': "aligned en n0 acc n1 d1" and fly': "rest = bd_fly_data_block_meta d1" using a4 by auto
    have wf': "\<forall>m \<in> set (bd_fly_data_block_meta d1). well_formed (de_partition en) m"
      using Cons.prems(3) fly fly' by simp
    from Cons.hyps(1) [OF fly' at(1) al' wf', of "Suc i"]
    obtain d2 where d2: "dump_data_blocks en ch (Suc i) d1 =
        Some (if ?k = length rest then Inr () else Inl ProcessExit, d2)"
      "bd_fly_data_block_meta d2 = drop ?k rest"
      "\<forall>i < ?k. bw_fs (bd_world d2) (data_block_path (de_block en) (de_partition en) (labelled (de_block en) (rest ! i)))
         = Some (picked_data (de_block en) files N (rest ! i)) \<and>
       block_published (de_block en) (de_partition en) (bw_fs (bd_world d2))
         (bm_data_block_index (rest ! i)) (labelled (de_block en) (rest ! i))"
      unfolding Let_def fly' [symmetric] by blast
    from dump_loop [OF r dp at(1) al', of ch "Suc i"] d2(1)
    have kept: "blocks_kept en (n + 1) d1 d2" using a4 by auto
    have "block_file (de_block en) (de_partition en) (n + 1) ?path"
      using wf idx unfolding block_file_def by (intro disjI2 exI [of _ "labelled (de_block en) m"])
        (simp add: well_formed_def)
    then have "bw_fs (bd_world d2) ?path = Some (picked_data (de_block en) files N m)"
      using kept u(2) by (simp add: blocks_kept_def)
    moreover have "block_published (de_block en) (de_partition en) (bw_fs (bd_world d2)) n (labelled (de_block en) m)"
      by (rule published_kept [OF kept _ pub]) simp
    moreover have "dump_data_blocks en ch i d = dump_data_blocks en ch (Suc i) d1" using run u(1) by simp
    ultimately show ?thesis using d2 idx fly True
      by (auto simp: Let_def nth_Cons split: nat.splits)
  qed
qed

section \<open>Properties\<close>

text \<open>
  C34. Whatever sequence of messages, queries, new raw data and dump routines a dumper meets, with
  renames that fail before or after they took effect and assertions that fail, it returns from
  each of them; the blocks it has published are, in order and without a gap, the first of the metas
  it has accepted, up to the block id; blocks that were there before are untouched; and the
  queue holds exactly the accepted metas that are not published yet, except that after an
  exception it may still hold the last published one, which the next routine removes.
\<close>

theorem dumper_publishes_accepted:
  assumes "env_reads en files path" and "files_ok (de_block en) (de_partition en) n fs"
    and "store_ok (de_manifest en) (de_partition en) files path kv"
    and "published (de_manifest en) (de_partition en) kv N"
    and "new_block_dumper en kv fs = Inr d"
    and "paths_ok path N (arrivals ops)" and "total_files N (arrivals ops) < ve_depth (de_visitor en)"
    and "n + int (length ops) \<le> 2 ^ 63"
  shows "\<exists>rs d' n'. dumper_run en ops d = Some (rs, d') \<and> n \<le> n' \<and>
    files_ok (de_block en) (de_partition en) n' (bw_fs (bd_world d')) \<and>
    (\<forall>path. block_file (de_block en) (de_partition en) n path \<longrightarrow> bw_fs (bd_world d') path = fs path) \<and>
    (let acc = accepted ops rs; j = nat (n' - n); queue = map (labelled (de_block en)) (bd_fly_data_block_meta d')
     in j \<le> length acc \<and> (\<forall>i < length acc. bm_data_block_index (acc ! i) = n + int i) \<and>
       (\<forall>i < j. block_published (de_block en) (de_partition en) (bw_fs (bd_world d')) (n + int i)
          (labelled (de_block en) (acc ! i))) \<and>
       (queue = map (labelled (de_block en)) (drop j acc) \<or>
        bd_state_stale d' \<and> 0 < j \<and> queue = map (labelled (de_block en)) (drop (j - 1) acc)))"
proof -
  have n: "n \<le> 2 ^ 63 + 1" "n + int (length ([] :: data_block_meta list)) + int (length ops) \<le> 2 ^ 63 + 1"
    using assms(8) by simp_all
  note new = new_dumper_ok [OF assms(2) n(1) assms(3-5)]
  from run_ok [OF assms(1) conjunct1 [OF new] n(2) assms(7,6)]
  obtain rs d' n' where run: "dumper_run en ops d = Some (rs, d')" "n \<le> n'" "blocks_kept en n d d'"
    and ok: "dumper_ok en files path (total_files N (arrivals ops)) n (accepted ops rs) n' d'" by auto
  have iv: "dumper_inv en files path (total_files N (arrivals ops)) n (accepted ops rs) n' d'"
    using ok by (simp add: dumper_ok_def)
  have tr: "trailing en n (accepted ops rs) n' d' \<and>
      (\<not> bd_state_stale d' \<longrightarrow> queued en (accepted ops rs) (nat (n' - n)) d')"
    using ok by (auto simp: dumper_ok_def aligned_def trailing_def split: if_splits)
  have "files_ok (de_block en) (de_partition en) n' (bw_fs (bd_world d'))"
    using iv by (simp add: dumper_inv_def blocks_ok_def)
  moreover have "\<forall>path. block_file (de_block en) (de_partition en) n path \<longrightarrow> bw_fs (bd_world d') path = fs path"
    using run(3) new by (simp add: blocks_kept_def)
  moreover have "nat (n' - n) \<le> length (accepted ops rs)" using iv by (simp add: dumper_inv_def nat_le_iff)
  moreover have "\<forall>i < length (accepted ops rs). bm_data_block_index (accepted ops rs ! i) = n + int i"
    using iv by (simp add: dumper_inv_def)
  moreover have "\<forall>i < nat (n' - n). block_published (de_block en) (de_partition en) (bw_fs (bd_world d'))
      (n + int i) (labelled (de_block en) (accepted ops rs ! i))"
    using iv by (simp add: dumper_inv_def)
  moreover have "map (labelled (de_block en)) (bd_fly_data_block_meta d') =
        map (labelled (de_block en)) (drop (nat (n' - n)) (accepted ops rs)) \<or>
      bd_state_stale d' \<and> 0 < nat (n' - n) \<and> map (labelled (de_block en)) (bd_fly_data_block_meta d') =
        map (labelled (de_block en)) (drop (nat (n' - n) - 1) (accepted ops rs))"
    using tr by (auto simp: trailing_def queued_def)
  ultimately show ?thesis using run(1,2) by (intro exI [of _ rs] exI [of _ d'] exI [of _ n']) (simp add: Let_def)
qed

text \<open>
  C35. When the renames work and the queued metas are in good form, a routine publishes them up
  to the first one whose examples do not occur, in order, among the raw data of its
  window, and ends the process there; otherwise it empties the queue and returns. The data file of
  a published block has one record per place of the meta, in order: that of a row of the window
  that answers the place, the rows of one block in ascending order.
\<close>

theorem dumper_serves_metas:
  assumes "env_reads en files path" and "files_ok (de_block en) (de_partition en) n fs"
    and "store_ok (de_manifest en) (de_partition en) files path kv"
    and "published (de_manifest en) (de_partition en) kv N"
    and "new_block_dumper en kv fs = Inr d0"
    and "paths_ok path N (arrivals ops)" and "total_files N (arrivals ops) < ve_depth (de_visitor en)"
    and "n + int (length ops) \<le> 2 ^ 63"
    and "dumper_run en ops d0 = Some (rs, d)" and "\<not> bd_state_stale d" and "bd_fly_data_block_meta d = ms"
    and "joined_replaces (de_block en)" and "\<forall>m \<in> set ms. well_formed (de_partition en) m"
    and "\<And>i. dc_data_outcome (ch i) = Renamed \<and> dc_meta_outcome (ch i) = Renamed"
    and "k = length (takeWhile (served files (total_files N (arrivals ops))) ms)"
  shows "\<exists>d'. run_dumper en ch d = Some (if k = length ms then Inr () else Inl ProcessExit, d') \<and>
    bd_fly_data_block_meta d' = drop k ms \<and>
    (\<forall>i < k. let m = labelled (de_block en) (ms ! i) in
       block_published (de_block en) (de_partition en) (bw_fs (bd_world d')) (bm_data_block_index m) m \<and>
       (\<exists>ys. map (answers (ms ! i)) ys = wants (ms ! i) \<and>
          subseq (remdups_adj ys) (rows files (total_files N (arrivals ops)) (ms ! i)) \<and>
          bw_fs (bd_world d') (data_block_path (de_block en) (de_partition en) m)
            = Some (map (place_record (de_block en) (ms ! i)) (enumerate 0 ys))))"
proof -
  let ?L = "total_files N (arrivals ops)"
  have n: "n \<le> 2 ^ 63 + 1" "n + int (length ([] :: data_block_meta list)) + int (length ops) \<le> 2 ^ 63 + 1"
    using assms(8) by simp_all
  note new = new_dumper_ok [OF assms(2) n(1) assms(3-5)]
  from run_ok [OF assms(1) conjunct1 [OF new] n(2) assms(7,6)] assms(9)
  obtain n' where ok: "dumper_ok en files path ?L n (accepted ops rs) n' d" by auto
  let ?d = "d\<lparr>bd_state_stale := True\<rparr>"
  have iv: "dumper_inv en files path ?L n (accepted ops rs) n' ?d" "aligned en n (accepted ops rs) n' ?d"
      "\<forall>m \<in> set (bd_fly_data_block_meta ?d). well_formed (de_partition en) m"
    using ok assms(10,11,13) by (simp_all add: dumper_ok_def)
  from loop_exact [where ch = ch, OF assms(1,7,12,14) iv, where i = 0]
  obtain d1 where d1: "dump_data_blocks en ch 0 ?d = Some (if k = length ms then Inr () else Inl ProcessExit, d1)"
      "bd_fly_data_block_meta d1 = drop k ms"
      "\<forall>i < k. bw_fs (bd_world d1) (data_block_path (de_block en) (de_partition en) (labelled (de_block en) (ms ! i)))
         = Some (picked_data (de_block en) files ?L (ms ! i)) \<and>
       block_published (de_block en) (de_partition en) (bw_fs (bd_world d1))
         (bm_data_block_index (ms ! i)) (labelled (de_block en) (ms ! i))"
    using assms(11,15) by (auto simp: Let_def)
  let ?d' = "if k = length ms then d1\<lparr>bd_state_stale := False\<rparr> else d1"
  have "run_dumper en ch d = Some (if k = length ms then Inr () else Inl ProcessExit, ?d')"
    using d1(1) assms(10) by (simp add: run_dumper_def sync_with_data_block_manager_def)
  moreover have "\<exists>ys. map (answers (ms ! i)) ys = wants (ms ! i) \<and> subseq (remdups_adj ys) (rows files ?L (ms ! i)) \<and>
      picked_data (de_block en) files ?L (ms ! i) = map (place_record (de_block en) (ms ! i)) (enumerate 0 ys)"
    if i: "i < k" for i
  proof (rule picked_rows)
    have "ms ! i \<in> set (takeWhile (served files ?L) ms)"
      using i assms(15) by (metis nth_mem takeWhile_nth)
    then show "served files ?L (ms ! i)" "well_formed (de_partition en) (ms ! i)"
      using assms(13) set_takeWhileD by metis+
  qed
  moreover have "bw_fs (bd_world ?d') = bw_fs (bd_world d1)"
      "bd_fly_data_block_meta ?d' = bd_fly_data_block_meta d1" by simp_all
  ultimately show ?thesis using d1(2,3) by (intro exI [of _ ?d']) (simp add: Let_def)
qed

section \<open>Witnesses\<close>

text \<open>Two files, the second one published on the way; two metas over them.\<close>

definition wb_item :: "string \<Rightarrow> (data_block_meta + string) block_item" where
  "wb_item e = \<lparr>it_example_id = e, it_event_time = 1, it_id_type = False, it_record = Inr e\<rparr>"

definition wb_files :: "nat \<Rightarrow> (data_block_meta + string) block_item list" where
  "wb_files q = (if q = 0 then [wb_item ''a'', wb_item ''b'', wb_item ''c''] else [wb_item ''d''])"

definition wb_env :: "(data_block_meta + string, kv_data) dumper_env" where
  "wb_env = \<lparr>de_block = sample_block_env, de_partition = 0, de_manifest = sample_env [],
     de_visitor = \<lparr>ve_disk = (\<lambda>s. (wb_files (length s), None)), ve_gim = rd_gim (sample_env []) 0, ve_depth = 20\<rparr>\<rparr>"

definition wb_meta :: "int \<Rightarrow> string list \<Rightarrow> int \<Rightarrow> int \<Rightarrow> data_block_meta" where
  "wb_meta i ids a e = (empty_data_block_meta 0 i)
     \<lparr>bm_example_ids := ids, bm_leader_start_index := a, bm_leader_end_index := e\<rparr>"

definition wb_choice :: "rename_outcome \<Rightarrow> nat \<Rightarrow> dump_choice" where
  "wb_choice o1 i = \<lparr>dc_uid = ''x'', dc_meta_uid = ''y'', dc_data_outcome = Renamed, dc_meta_outcome = o1\<rparr>"

definition wb_ops :: "dumper_op list" where
  "wb_ops = [Sync_meta (wb_meta 0 [''a'', ''a'', ''c''] 0 2), Files_arrive [wr_meta 1],
     Sync_meta (wb_meta 1 [''d''] 3 3)]"

lemma new_dumper_exists:
  fixes en :: "('r, 'v) dumper_env" and v :: "('r block_item, 'v rd_manager) visitor"
  assumes "files_ok (de_block en) (de_partition en) n fs" "n \<le> 2 ^ 63 + 1"
    and v: "new_raw_data_visitor (de_manifest en) (de_partition en) kv = Inr v"
  shows "\<exists>d. new_block_dumper en kv fs = Inr d \<and> bd_fly_data_block_meta d = [] \<and> \<not> bd_state_stale d \<and>
    \<not> bd_synced_finished d \<and> bd_next_data_block_index d = n"
proof -
  let ?w0 = "\<lparr>bw_fs = fs, bw_dumped_index = None, bw_dumping_index = None, bw_cache = []\<rparr>"
  have ok: "blocks_ok (de_block en) (de_partition en) n ?w0"
    using assms(1) by (simp add: blocks_ok_def cache_ok_def)
  show ?thesis
    using v sync_spec [OF ok assms(2)] count_spec [OF synced_ok [OF ok] assms(2)]
    by (simp add: new_block_dumper_def new_data_block_manager_def)
qed

lemma wb_facts:
  "env_reads wb_env wb_files wr_path"
  "files_ok (de_block wb_env) (de_partition wb_env) 0 (bw_fs empty_blocks)"
  "store_ok (de_manifest wb_env) (de_partition wb_env) wb_files wr_path wr_store"
  "published (de_manifest wb_env) (de_partition wb_env) wr_store 1"
proof -
  show "env_reads wb_env wb_files wr_path"
    by (simp add: env_reads_def readable_def wb_env_def wr_path_def wb_files_def)
  show "files_ok (de_block wb_env) (de_partition wb_env) 0 (bw_fs empty_blocks)"
    using empty_blocks_ok [of "de_block wb_env" "de_partition wb_env"] by (simp add: blocks_ok_def)
  have "meta_for wr_files wr_path q t \<Longrightarrow> t = wr_meta 0 \<Longrightarrow> meta_for wb_files wr_path q t" for q t
    by (simp add: meta_for_def wr_meta_def)
  moreover have "codec_ok (en_codec (sample_env []))" by (simp add: sample_env_def sample_codec_ok)
  moreover have "KMeta t = print_meta (en_codec (sample_env [])) t" for t
    by (simp add: sample_env_def sample_codec_def)
  moreover have "meta_for wb_files wr_path 0 (wr_meta 0)" by (simp add: meta_for_def wr_meta_def)
  ultimately show "store_ok (de_manifest wb_env) (de_partition wb_env) wb_files wr_path wr_store"
    unfolding store_ok_def
    by (auto simp: wb_env_def wr_store_def split: if_splits intro!: exI [of _ "0::nat"] exI [of _ "wr_meta 0"])
  show "published (de_manifest wb_env) (de_partition wb_env) wr_store 1"
    using wr_published by (simp add: wb_env_def)
qed

lemma wb_dumper:
  "\<exists>d. new_block_dumper wb_env wr_store (bw_fs empty_blocks) = Inr d \<and> bd_fly_data_block_meta d = [] \<and>
    \<not> bd_state_stale d \<and> \<not> bd_synced_finished d \<and> bd_next_data_block_index d = 0"
proof -
  have "case new_raw_data_visitor (sample_env []) 0 wr_store of
      Inl _ \<Rightarrow> False | Inr (_ :: ((data_block_meta + string) block_item, kv_data rd_manager) visitor) \<Rightarrow> True"
    by code_simp
  then obtain v :: "((data_block_meta + string) block_item, kv_data rd_manager) visitor"
    where "new_raw_data_visitor (de_manifest wb_env) (de_partition wb_env) wr_store = Inr v"
    by (auto simp: wb_env_def split: sum.splits)
  from new_dumper_exists [OF wb_facts(2) _ this] show ?thesis by simp
qed

theorem dumper_publishes_accepted_witness:
  "\<exists>d rs d' n'. new_block_dumper wb_env wr_store (bw_fs empty_blocks) = Inr d \<and>
     dumper_run wb_env (wb_ops @ [Run_dumper (wb_choice Failed_after), Run_dumper (wb_choice Renamed)]) d = Some (rs, d') \<and>
     files_ok sample_block_env 0 n' (bw_fs (bd_world d')) \<and> 0 \<le> n'"
proof -
  let ?ops = "wb_ops @ [Run_dumper (wb_choice Failed_after), Run_dumper (wb_choice Renamed)]"
  obtain d where d: "new_block_dumper wb_env wr_store (bw_fs empty_blocks) = Inr d" using wb_dumper by blast
  have "paths_ok wr_path 1 (arrivals ?ops)" "total_files 1 (arrivals ?ops) < ve_depth (de_visitor wb_env)"
    by (simp_all add: wb_ops_def wr_meta_def wb_env_def)
  from dumper_publishes_accepted [OF wb_facts d this] d show ?thesis by (auto simp: wb_ops_def wb_env_def)
qed

theorem dumper_serves_metas_witness:
  "\<exists>d0 rs d d'. new_block_dumper wb_env wr_store (bw_fs empty_blocks) = Inr d0 \<and>
     dumper_run wb_env wb_ops d0 = Some (rs, d) \<and> length (bd_fly_data_block_meta d) = 2 \<and>
     run_dumper wb_env (wb_choice Renamed) d = Some (Inr (), d') \<and> bd_fly_data_block_meta d' = []"
proof -
  let ?ms = "[wb_meta 0 [''a'', ''a'', ''c''] 0 2, wb_meta 1 [''d''] 3 3]"
  obtain d0 where d0: "new_block_dumper wb_env wr_store (bw_fs empty_blocks) = Inr d0"
      "bd_fly_data_block_meta d0 = []" "\<not> bd_state_stale d0" "\<not> bd_synced_finished d0"
      "bd_next_data_block_index d0 = 0"
    using wb_dumper by blast
  obtain rs d where run: "dumper_run wb_env wb_ops d0 = Some (rs, d)" "\<not> bd_state_stale d"
      "bd_fly_data_block_meta d = ?ms"
    using d0(2-5)
    by (auto simp: wb_ops_def add_synced_data_block_meta_def sx_bind_def wb_meta_def empty_data_block_meta_def)
  have p: "paths_ok wr_path 1 (arrivals wb_ops)" "total_files 1 (arrivals wb_ops) < ve_depth (de_visitor wb_env)"
    by (simp_all add: wb_ops_def wr_meta_def wb_env_def)
  have wf: "\<forall>m \<in> set ?ms. well_formed (de_partition wb_env) m"
    by (simp add: well_formed_def wb_meta_def empty_data_block_meta_def wb_env_def)
  have "length (takeWhile (served wb_files (total_files 1 (arrivals wb_ops))) ?ms) = 2"
    by code_simp
  moreover have "joined_replaces (de_block wb_env)"
    by (simp add: joined_replaces_def wb_env_def sample_block_env_def)
  ultimately show ?thesis
    using dumper_serves_metas [OF wb_facts d0(1) p _ run(1,2,3) _ wf, of "wb_choice Renamed" 2] d0(1) run
    by (auto simp: wb_ops_def wb_choice_def)
qed

end
