(* ===== verification/Id_Dumper.thy ===== *)
theory Id_Dumper
  imports Complex_Main Example_Id_Visitor Item_Batches Data_Block
begin

text \<open>
  The dumper of example ids (\<open>data_join/example_id_dumper.py\<close>), on the side that joins.

  The peer sends packed batches of example ids; \<open>ExampleIdDumperManager\<close> queues those that
  continue the sequence, and a routine writes them into files, each of which is published by a
  rename and by moving the anchor of \<open>Example_Id_Visitor\<close>. While the routine is in its loop
  the peer goes on adding batches, so the routine is modelled as a sequence of steps: to enter
  it, one round of its loop, to leave it.

  A record of a file is the packed batch it was written from; the file appears under its temporary
  name when its writer is closed, and one whose writer is dropped does not. The time since the last dump, the
  outcome of the rename and whether the store accepts the anchor are arguments of a round.
\<close>

section \<open>State\<close>

record id_file_dumper =
  fd_process_index :: int
  fd_start_index :: int
  fd_end_index :: int
  fd_tmp_fpath :: string
  fd_written :: "packed_lite_example_ids list"
  fd_batch_count :: nat

record 'v id_dumper_env =
  ide_ids :: "'v ei_env"
  ide_dump_interval :: rat
  ide_dump_threshold :: int

record 'v id_dumper =
  id_next_index :: int
  id_fly_batch :: "packed_lite_example_ids list"
  id_sync_finished :: bool
  id_state_stale :: bool
  id_current :: "id_file_dumper option"
  id_manager :: "'v ei_manager"
  id_fs :: "string \<Rightarrow> packed_lite_example_ids list option"

record id_choice =
  ic_uid :: string
  ic_rename :: rename_outcome
  ic_stored :: bool
  ic_at_check :: rat
  ic_at_finish :: rat

definition on_ids :: "('v ei_manager, 'a) sx \<Rightarrow> ('v id_dumper, 'a) sx" where
  "on_ids f d = (case f (id_manager d) of (r, m) \<Rightarrow> (r, d\<lparr>id_manager := m\<rparr>))"

definition on_current :: "(id_file_dumper, 'a) sx \<Rightarrow> ('v id_dumper, 'a) sx" where
  "on_current f d =
     (case id_current d of
        None \<Rightarrow> (Inl AttributeError, d)
      | Some fd \<Rightarrow> (case f fd of (r, fd1) \<Rightarrow> (r, d\<lparr>id_current := Some fd1\<rparr>)))"

section \<open>One file: \<open>ExampleIdDumper\<close>\<close>

definition new_id_file_dumper :: "int \<Rightarrow> int \<Rightarrow> string \<Rightarrow> string \<Rightarrow> id_file_dumper" where
  "new_id_file_dumper process_index start_index dir uid =
     \<lparr>fd_process_index = process_index, fd_start_index = start_index, fd_end_index = start_index - 1,
      fd_tmp_fpath = gen_tmp_fpath dir uid, fd_written = [], fd_batch_count = 0\<rparr>"

definition dump_example_id_batch :: "packed_lite_example_ids \<Rightarrow> (id_file_dumper, unit) sx" where
  "dump_example_id_batch b =
     (if pk_example_id_num b = 0 then sx_return ()
      else sx_bind sx_get (\<lambda>fd.
           sx_bind (sx_assert (fd_end_index fd + 1 = pk_begin_index b)) (\<lambda>_.
           sx_modify (\<lambda>fd. fd\<lparr>fd_written := fd_written fd @ [b],
             fd_end_index := fd_end_index fd + int (pk_example_id_num b),
             fd_batch_count := Suc (fd_batch_count fd)\<rparr>))))"

definition check_dumper_full :: "int \<Rightarrow> id_file_dumper \<Rightarrow> bool" where
  "check_dumper_full dump_threshold fd =
     (let dump_count = fd_end_index fd - fd_start_index fd + 1
      in 0 < dump_threshold \<and> dump_threshold < dump_count)"

definition dumped_example_id_count :: "id_file_dumper \<Rightarrow> int" where
  "dumped_example_id_count fd = fd_end_index fd - fd_start_index fd + 1"

definition dumped_fpath :: "string \<Rightarrow> id_file_dumper \<Rightarrow> string" where
  "dumped_fpath dir fd =
     path_join dir (encode_example_id_dumped_fname (fd_process_index fd) (fd_start_index fd))"

definition id_rename :: "rename_outcome \<Rightarrow> string \<Rightarrow> string \<Rightarrow> ('v id_dumper, unit) sx" where
  "id_rename outcome src dst d =
     (case id_fs d src of
        None \<Rightarrow> (Inl OpError, d)
      | Some content \<Rightarrow>
          if outcome = Failed_before then (Inl OpError, d)
          else (if outcome = Failed_after then Inl OpError else Inr (),
                d\<lparr>id_fs := (id_fs d)(src := None, dst \<mapsto> content),
                  id_manager := (id_manager d)\<lparr>ei_files := dst # ei_files (id_manager d)\<rparr>\<rparr>))"

definition finish_id_file ::
    "string \<Rightarrow> rename_outcome \<Rightarrow> id_file_dumper \<Rightarrow> ('v id_dumper, (index_meta \<times> int) option) sx" where
  "finish_id_file dir outcome fd =
     sx_bind (sx_modify (\<lambda>d. d\<lparr>id_fs := (id_fs d)(fd_tmp_fpath fd \<mapsto> fd_written fd)\<rparr>)) (\<lambda>_.
     if 0 < dumped_example_id_count fd
     then sx_bind (id_rename outcome (fd_tmp_fpath fd) (dumped_fpath dir fd)) (\<lambda>_.
          sx_return (Some (\<lparr>im_process_index = fd_process_index fd, im_start_index = fd_start_index fd,
            im_fpath = dumped_fpath dir fd\<rparr>, fd_end_index fd)))
     else sx_bind (sx_assert (fd_start_index fd = fd_end_index fd)) (\<lambda>_.
          sx_bind (sx_modify (\<lambda>d. d\<lparr>id_fs := (id_fs d)(fd_tmp_fpath fd := None)\<rparr>)) (\<lambda>_.
          sx_return None)))"

section \<open>\<open>ExampleIdDumperManager\<close>\<close>

text \<open>The first index that is not dumped yet.\<close>

definition next_dumped_index :: "'v id_dumper_env \<Rightarrow> ('v id_dumper, int) sx" where
  "next_dumped_index en =
     sx_bind (on_ids (get_last_dumped_index (ide_ids en))) (\<lambda>last_index.
     sx_return (case last_index of None \<Rightarrow> 0 | Some i \<Rightarrow> i + 1))"

definition new_id_dumper ::
    "'v id_dumper_env \<Rightarrow> (string \<times> 'v) list \<Rightarrow> string list \<Rightarrow>
     (string \<Rightarrow> packed_lite_example_ids list option) \<Rightarrow> 'v id_dumper result" where
  "new_id_dumper en kv files fs =
     bind_result (new_example_id_manager (ide_ids en) False [] kv files) (\<lambda>m.
       case next_dumped_index en
              \<lparr>id_next_index = 0, id_fly_batch = [], id_sync_finished = False, id_state_stale = False,
               id_current = None, id_manager = m, id_fs = fs\<rparr> of
         (Inl e, _) \<Rightarrow> Inl e
       | (Inr i, d) \<Rightarrow> Inr (d\<lparr>id_next_index := i\<rparr>))"

definition get_dumped_id_index :: "'v id_dumper_env \<Rightarrow> ('v id_dumper, int) sx" where
  "get_dumped_id_index en =
     sx_bind (on_ids (get_last_dumped_index (ide_ids en))) (\<lambda>dumped_index.
     sx_return (case dumped_index of None \<Rightarrow> - 1 | Some i \<Rightarrow> i))"

definition add_example_id_batch ::
    "'v id_dumper_env \<Rightarrow> packed_lite_example_ids \<Rightarrow> ('v id_dumper, bool \<times> int) sx" where
  "add_example_id_batch en b = sx_bind sx_get (\<lambda>d.
     if id_sync_finished d then sx_raise RuntimeError
     else sx_bind (sx_assert (pk_partition_id b = ei_partition (ide_ids en))) (\<lambda>_.
          if pk_begin_index b \<noteq> id_next_index d then sx_return (False, id_next_index d)
          else sx_bind (sx_modify (\<lambda>d. d\<lparr>id_fly_batch := id_fly_batch d @ [b],
                        id_next_index := pk_begin_index b + int (pk_example_id_num b)\<rparr>)) (\<lambda>_.
               sx_return (True, pk_begin_index b + int (pk_example_id_num b)))))"

definition id_sync_finish :: "'v id_dumper \<Rightarrow> 'v id_dumper" where
  "id_sync_finish d = d\<lparr>id_sync_finished := True\<rparr>"

definition need_finish_dumper :: "'v id_dumper_env \<Rightarrow> bool \<Rightarrow> rat \<Rightarrow> 'v id_dumper \<Rightarrow> bool" where
  "need_finish_dumper en is_batch_finished duration_since_dump d \<longleftrightarrow>
     (case id_current d of
        None \<Rightarrow> False
      | Some fd \<Rightarrow> check_dumper_full (ide_dump_threshold en) fd \<or> is_batch_finished \<or>
          (0 < ide_dump_interval en \<and> ide_dump_interval en \<le> duration_since_dump))"

definition id_need_dump :: "'v id_dumper_env \<Rightarrow> rat \<Rightarrow> 'v id_dumper \<Rightarrow> bool" where
  "id_need_dump en duration d \<longleftrightarrow>
     (if 0 < length (id_fly_batch d) then True else need_finish_dumper en (id_sync_finished d) duration d)"

definition dumped_batch_count :: "'v id_dumper \<Rightarrow> nat" where
  "dumped_batch_count d = (case id_current d of None \<Rightarrow> 0 | Some fd \<Rightarrow> fd_batch_count fd)"

definition get_synced_example_id_batch :: "nat \<Rightarrow> 'v id_dumper \<Rightarrow> packed_lite_example_ids option" where
  "get_synced_example_id_batch batch_index d =
     (if length (id_fly_batch d) \<le> batch_index then None else Some (id_fly_batch d ! batch_index))"

definition is_batch_finished :: "'v id_dumper \<Rightarrow> bool" where
  "is_batch_finished d \<longleftrightarrow>
     (if \<not> id_sync_finished d then False else dumped_batch_count d = length (id_fly_batch d))"

definition create_id_file_dumper :: "'v id_dumper_env \<Rightarrow> string \<Rightarrow> ('v id_dumper, unit) sx" where
  "create_id_file_dumper en uid = sx_bind sx_get (\<lambda>d.
     if id_current d = None
     then sx_bind (next_dumped_index en) (\<lambda>next_index.
          sx_bind (on_ids (get_next_process_index (ide_ids en))) (\<lambda>p.
          sx_modify (\<lambda>d. d\<lparr>id_current :=
            Some (new_id_file_dumper p next_index (ei_dumped_dir (ide_ids en)) uid)\<rparr>)))
     else sx_return ())"

definition dump_one_example_id_batch :: "'v id_dumper_env \<Rightarrow> string \<Rightarrow> ('v id_dumper, unit) sx" where
  "dump_one_example_id_batch en uid = sx_bind sx_get (\<lambda>d.
     case get_synced_example_id_batch (dumped_batch_count d) d of
       None \<Rightarrow> sx_return ()
     | Some b \<Rightarrow>
         sx_bind (create_id_file_dumper en uid) (\<lambda>_. on_current (dump_example_id_batch b)))"

fun evict_batches ::
    "int \<Rightarrow> packed_lite_example_ids list \<Rightarrow> packed_lite_example_ids list result" where
  "evict_batches next_index [] = Inr []"
| "evict_batches next_index (b # bs) =
     (if next_index < pk_begin_index b + int (pk_example_id_num b)
      then py_assert (pk_begin_index b = next_index) (Inr (b # bs))
      else evict_batches next_index bs)"

definition evict_dumped_example_id_batch :: "'v id_dumper_env \<Rightarrow> ('v id_dumper, unit) sx" where
  "evict_dumped_example_id_batch en =
     sx_bind (next_dumped_index en) (\<lambda>next_index.
     sx_bind sx_get (\<lambda>d.
     case evict_batches next_index (id_fly_batch d) of
       Inl e \<Rightarrow> sx_raise e
     | Inr bs \<Rightarrow> sx_modify (\<lambda>d. d\<lparr>id_fly_batch := bs\<rparr>)))"

definition reset_example_id_dumper :: "'v id_dumper \<Rightarrow> 'v id_dumper" where
  "reset_example_id_dumper d = d\<lparr>id_current := None\<rparr>"

definition finish_example_id_dumper ::
    "'v id_dumper_env \<Rightarrow> id_choice \<Rightarrow> ('v id_dumper, unit) sx" where
  "finish_example_id_dumper en ch = sx_bind sx_get (\<lambda>d.
     case id_current d of
       None \<Rightarrow> sx_raise AssertionError
     | Some fd \<Rightarrow>
         sx_bind (finish_id_file (ei_dumped_dir (ide_ids en)) (ic_rename ch) fd) (\<lambda>r.
         sx_bind (case r of
                    None \<Rightarrow> sx_return ()
                  | Some (im, ids_end) \<Rightarrow>
                      on_ids (update_dumped_example_id_anchor (ide_ids en) (ic_stored ch) im ids_end)) (\<lambda>_.
         sx_bind (evict_dumped_example_id_batch en) (\<lambda>_.
         sx_modify reset_example_id_dumper))))"

text \<open>One round of the loop of \<open>_dump_example_id_impl\<close>.\<close>

definition dump_round :: "'v id_dumper_env \<Rightarrow> id_choice \<Rightarrow> ('v id_dumper, unit) sx" where
  "dump_round en ch =
     sx_bind (dump_one_example_id_batch en (ic_uid ch)) (\<lambda>_.
     sx_bind sx_get (\<lambda>d.
     if need_finish_dumper en (is_batch_finished d) (ic_at_finish ch) d
     then finish_example_id_dumper en ch else sx_return ()))"

definition sync_with_example_id_manager :: "'v id_dumper_env \<Rightarrow> ('v id_dumper, unit) sx" where
  "sync_with_example_id_manager en = sx_bind sx_get (\<lambda>d.
     if id_state_stale d
     then sx_bind (evict_dumped_example_id_batch en) (\<lambda>_. sx_modify reset_example_id_dumper)
     else sx_return ())"

section \<open>The steps\<close>

text \<open>
  \<open>make_example_id_dumper\<close> around the loop: the flag says whether the routine is inside. An
  exception leaves it and leaves the state stale.
\<close>

definition routine_step ::
    "'v id_dumper_env \<Rightarrow> id_choice \<Rightarrow> bool \<times> 'v id_dumper \<Rightarrow> unit result \<times> bool \<times> 'v id_dumper" where
  "routine_step en ch = (\<lambda>(inside, d).
     if \<not> inside
     then (case sync_with_example_id_manager en d of
             (Inl e, d) \<Rightarrow> (Inl e, False, d)
           | (Inr _, d) \<Rightarrow> (Inr (), True, d\<lparr>id_state_stale := True\<rparr>))
     else if \<not> id_need_dump en (ic_at_check ch) d then (Inr (), False, d\<lparr>id_state_stale := False\<rparr>)
     else (case dump_round en ch d of
             (Inl e, d) \<Rightarrow> (Inl e, False, d)
           | (Inr _, d) \<Rightarrow> (Inr (), True, d)))"

datatype id_op = Add_batch packed_lite_example_ids | Finish_sync | Ask_index | Routine id_choice

datatype id_reply = Batch_added bool int | Index_is int | Done

fun id_exec ::
    "'v id_dumper_env \<Rightarrow> id_op \<Rightarrow> bool \<times> 'v id_dumper \<Rightarrow> id_reply result \<times> bool \<times> 'v id_dumper" where
  "id_exec en (Add_batch b) (inside, d) =
     (case add_example_id_batch en b d of
        (Inl e, d) \<Rightarrow> (Inl e, inside, d)
      | (Inr (ok, i), d) \<Rightarrow> (Inr (Batch_added ok i), inside, d))"
| "id_exec en Finish_sync (inside, d) = (Inr Done, inside, id_sync_finish d)"
| "id_exec en Ask_index (inside, d) =
     (case get_dumped_id_index en d of (r, d) \<Rightarrow> (map_sum id Index_is r, inside, d))"
| "id_exec en (Routine ch) s = (case routine_step en ch s of (r, s) \<Rightarrow> (map_sum id (\<lambda>_. Done) r, s))"

fun id_run ::
    "'v id_dumper_env \<Rightarrow> id_op list \<Rightarrow> bool \<times> 'v id_dumper \<Rightarrow> id_reply result list \<times> bool \<times> 'v id_dumper"
where
  "id_run en [] s = ([], s)"
| "id_run en (op # ops) s =
     (case id_exec en op s of (r, s) \<Rightarrow> (case id_run en ops s of (rs, s) \<Rightarrow> (r # rs, s)))"

fun added :: "id_op list \<Rightarrow> id_reply result list \<Rightarrow> packed_lite_example_ids list" where
  "added (Add_batch b # ops) (Inr (Batch_added True i) # rs) = b # added ops rs"
| "added (op # ops) (r # rs) = added ops rs"
| "added ops rs = []"

section \<open>What the store holds\<close>

definition nums :: "packed_lite_example_ids list \<Rightarrow> nat" where
  "nums bs = sum_list (map pk_example_id_num bs)"

lemma nums_simps [simp]:
  "nums [] = 0" "nums (b # bs) = pk_example_id_num b + nums bs" "nums (as @ bs) = nums as + nums bs"
  by (simp_all add: nums_def)

abbreviation nonempty :: "packed_lite_example_ids \<Rightarrow> bool" where
  "nonempty b \<equiv> 0 < pk_example_id_num b"

lemma nums_filter [simp]: "nums (filter nonempty bs) = nums bs"
  by (induction bs) auto

text \<open>Batches that continue each other from an index on.\<close>

fun consecutive :: "int \<Rightarrow> packed_lite_example_ids list \<Rightarrow> bool" where
  "consecutive i [] \<longleftrightarrow> True"
| "consecutive i (b # bs) \<longleftrightarrow> pk_begin_index b = i \<and> consecutive (i + int (pk_example_id_num b)) bs"

lemma consecutive_append [simp]:
  "consecutive i (as @ bs) \<longleftrightarrow> consecutive i as \<and> consecutive (i + int (nums as)) bs"
  by (induction as arbitrary: i) (auto simp: add.assoc)

lemma consecutive_drop_nums: "consecutive i bs \<Longrightarrow> consecutive (i + int (nums (take k bs))) (drop k bs)"
  using consecutive_append [of i "take k bs" "drop k bs"] by simp

lemma consecutive_nth:
  "consecutive i bs \<Longrightarrow> k < length bs \<Longrightarrow> pk_begin_index (bs ! k) = i + int (nums (take k bs))"
  using consecutive_drop_nums [of i bs k] by (simp flip: Cons_nth_drop_Suc)

definition stored_anchor :: "'v ei_env \<Rightarrow> 'v ei_manager \<Rightarrow> anchor" where
  "stored_anchor en s =
     (case map_of (ei_kv s) (anchor_key en) of None \<Rightarrow> Undumped | Some v \<Rightarrow> ei_parse en v)"

text \<open>\<open>F\<close> are the files, each the list of its batches.\<close>

definition id_file_path :: "'v ei_env \<Rightarrow> packed_lite_example_ids list list \<Rightarrow> nat \<Rightarrow> string" where
  "id_file_path en F k =
     path_join (ei_dumped_dir en) (encode_example_id_dumped_fname (int k) (int (nums (concat (take k F)))))"

definition anchor_of :: "packed_lite_example_ids list list \<Rightarrow> anchor \<Rightarrow> bool" where
  "anchor_of F a \<longleftrightarrow>
     (if F = [] then a = Undumped
      else \<exists>l. a = Dumped l \<and> ld_process_index l = int (length F) - 1 \<and> ld_end_index l = int (nums (concat F)) - 1)"

definition files_dumped ::
    "'v ei_env \<Rightarrow> packed_lite_example_ids list list \<Rightarrow> 'v ei_manager \<Rightarrow>
     (string \<Rightarrow> packed_lite_example_ids list option) \<Rightarrow> bool" where
  "files_dumped en F s fs \<longleftrightarrow>
     anchor_of F (stored_anchor en s) \<and>
     (\<forall>k < length F. 0 < nums (F ! k) \<and> id_file_path en F k \<in> set (ei_files s) \<and>
        fs (id_file_path en F k) = Some (F ! k))"

definition manager_fresh :: "'v ei_env \<Rightarrow> 'v ei_manager \<Rightarrow> bool" where
  "manager_fresh en s \<longleftrightarrow>
     \<not> ei_visit_only s \<and> (ei_anchor s = None \<or> ei_anchor s = Some (stored_anchor en s))"

definition dumped_dir_ok :: "'v ei_env \<Rightarrow> bool" where
  "dumped_dir_ok en \<longleftrightarrow> ei_dumped_dir en \<noteq> [] \<and> last (ei_dumped_dir en) \<noteq> CHR ''/''"

lemma sync_fresh:
  assumes "manager_fresh en s"
  shows "sync_dumped_example_id_anchor en s = (Inr (stored_anchor en s), s\<lparr>ei_anchor := Some (stored_anchor en s)\<rparr>)"
  using assms by (cases s) (auto simp: manager_fresh_def sync_dumped_example_id_anchor_def stored_anchor_def)

lemma fresh_synced [simp]:
  "stored_anchor en (s\<lparr>ei_anchor := a\<rparr>) = stored_anchor en s"
  "files_dumped en F (s\<lparr>ei_anchor := a\<rparr>) fs = files_dumped en F s fs"
  "manager_fresh en s \<Longrightarrow> manager_fresh en (s\<lparr>ei_anchor := Some (stored_anchor en s)\<rparr>)"
  "manager_fresh en s \<Longrightarrow> manager_fresh en (s\<lparr>ei_anchor := None\<rparr>)"
  by (simp_all add: stored_anchor_def files_dumped_def manager_fresh_def)

lemma no_slash_fmt: "CHR ''/'' \<notin> set (fmt_int w i)"
  by (simp add: fmt_int_def nat_str_not_in)

lemma done_names:
  assumes "dumped_dir_ok en"
  defines "f p i \<equiv> encode_example_id_dumped_fname p i"
  shows "base_name (path_join (ei_dumped_dir en) (f p i)) = f p i"
    "dir_name (path_join (ei_dumped_dir en) (f p i)) = ei_dumped_dir en"
proof -
  have s: "CHR ''/'' \<notin> set (f p i)"
    using no_slash_fmt by (simp add: f_def encode_example_id_dumped_fname_def)
  then have pre: "\<not> prefix ''/'' (f p i)" by (auto simp: prefix_def)
  have suf: "\<not> suffix ''/'' (ei_dumped_dir en)"
    using assms(1) by (auto simp: dumped_dir_ok_def suffix_def)
  have j: "path_join (ei_dumped_dir en) (f p i) = ei_dumped_dir en @ CHR ''/'' # f p i"
    using path_join_plain [OF _ suf pre] assms(1) by (simp add: dumped_dir_ok_def)
  show "base_name (path_join (ei_dumped_dir en) (f p i)) = f p i"
    "dir_name (path_join (ei_dumped_dir en) (f p i)) = ei_dumped_dir en"
    unfolding j using base_name_append [OF s] dir_name_append [OF s] assms(1)
    by (simp_all add: dumped_dir_ok_def)
qed

lemma done_path_inject:
  assumes "dumped_dir_ok en" "0 \<le> p" "0 \<le> p'" "0 \<le> i" "0 \<le> i'"
    and "path_join (ei_dumped_dir en) (encode_example_id_dumped_fname p i) =
      path_join (ei_dumped_dir en) (encode_example_id_dumped_fname p' i')"
  shows "p = p'"
proof -
  have "encode_example_id_dumped_fname p i = encode_example_id_dumped_fname p' i'"
    using done_names(1) [OF assms(1)] assms(6) by metis
  then have "Inr (p, i) = (Inr (p', i') :: (int \<times> int) result)"
    using dumped_fname_roundtrip assms(2-5) by metis
  then show ?thesis by simp
qed

lemma tmp_not_done: "gen_tmp_fpath d uid \<noteq> path_join d' (encode_example_id_dumped_fname p i)"
proof -
  have "suffix ''.done'' (path_join d' (encode_example_id_dumped_fname p i))"
    by (rule path_join_suffix) (simp add: encode_example_id_dumped_fname_def suffix_def)
  then have "last (path_join d' (encode_example_id_dumped_fname p i)) = CHR ''e''"
    using suffix_last by fastforce
  moreover have "last (gen_tmp_fpath d uid) = CHR ''p''"
    using suffix_last [OF path_suffixes(3) [of d uid]] by simp
  ultimately show ?thesis by auto
qed

section \<open>The invariant\<close>

definition file_dumper_ok ::
    "'v ei_env \<Rightarrow> packed_lite_example_ids list list \<Rightarrow> packed_lite_example_ids list \<Rightarrow> id_file_dumper \<Rightarrow> bool" where
  "file_dumper_ok en F fly fd \<longleftrightarrow>
     fd_process_index fd = int (length F) \<and> fd_start_index fd = int (nums (concat F)) \<and>
     fly \<noteq> [] \<and> fd_batch_count fd \<le> length fly \<and> fd_written fd = take (fd_batch_count fd) fly \<and>
     (\<forall>b \<in> set (fd_written fd). nonempty b) \<and>
     fd_end_index fd = int (nums (concat F)) - 1 + int (nums (fd_written fd)) \<and>
     (\<exists>uid. fd_tmp_fpath fd = gen_tmp_fpath (ei_dumped_dir en) uid)"

text \<open>
  \<open>F0\<close> were there when the process started; \<open>acc\<close> are the batches accepted since, of which those
  from \<open>j\<close> on are queued and the others, less the empty ones, are in the files.
\<close>

definition id_inv ::
    "'v id_dumper_env \<Rightarrow> packed_lite_example_ids list list \<Rightarrow> packed_lite_example_ids list \<Rightarrow>
     packed_lite_example_ids list list \<Rightarrow> nat \<Rightarrow> 'v id_dumper \<Rightarrow> bool" where
  "id_inv en F0 acc F j d \<longleftrightarrow>
     manager_fresh (ide_ids en) (id_manager d) \<and> files_dumped (ide_ids en) F (id_manager d) (id_fs d) \<and>
     prefix F0 F \<and> j \<le> length acc \<and> concat F = concat F0 @ filter nonempty (take j acc) \<and>
     id_fly_batch d = drop j acc \<and> consecutive (int (nums (concat F0))) acc \<and>
     id_next_index d = int (nums (concat F0)) + int (nums acc) \<and>
     (\<forall>fd. id_current d = Some fd \<longrightarrow> file_dumper_ok (ide_ids en) F (drop j acc) fd)"

lemma anchor_next:
  "anchor_of F a \<Longrightarrow> (case (case a of Dumped l \<Rightarrow> Some (ld_end_index l) | _ \<Rightarrow> None) of
      None \<Rightarrow> 0 | Some i \<Rightarrow> i + 1) = int (nums (concat F))"
  by (auto simp: anchor_of_def split: if_splits)

definition noted :: "'v id_dumper_env \<Rightarrow> 'v id_dumper \<Rightarrow> 'v id_dumper" where
  "noted en d = d\<lparr>id_manager := (id_manager d)\<lparr>ei_anchor := Some (stored_anchor (ide_ids en) (id_manager d))\<rparr>\<rparr>"

lemma noted_simps [simp]:
  "id_next_index (noted en d) = id_next_index d" "id_fly_batch (noted en d) = id_fly_batch d"
  "id_sync_finished (noted en d) = id_sync_finished d" "id_state_stale (noted en d) = id_state_stale d"
  "id_current (noted en d) = id_current d" "id_fs (noted en d) = id_fs d"
  "stored_anchor (ide_ids en) (id_manager (noted en d)) = stored_anchor (ide_ids en) (id_manager d)"
  "manager_fresh (ide_ids en) (id_manager d) \<Longrightarrow> manager_fresh (ide_ids en) (id_manager (noted en d))"
  "files_dumped (ide_ids en) F (id_manager (noted en d)) fs = files_dumped (ide_ids en) F (id_manager d) fs"
  "noted en (noted en d) = noted en d"
  by (simp_all add: noted_def)

lemma noted_inv [simp]: "id_inv en F0 acc F j d \<Longrightarrow> id_inv en F0 acc F j (noted en d)"
  unfolding id_inv_def by simp

lemma last_index_run:
  "manager_fresh (ide_ids en) (id_manager d) \<Longrightarrow>
   on_ids (get_last_dumped_index (ide_ids en)) d =
     (Inr (case stored_anchor (ide_ids en) (id_manager d) of Dumped l \<Rightarrow> Some (ld_end_index l) | _ \<Rightarrow> None),
      noted en d)"
  by (simp add: on_ids_def get_last_dumped_index_def sx_bind_def sync_fresh noted_def)

lemma next_index_run:
  assumes "manager_fresh (ide_ids en) (id_manager d)" "files_dumped (ide_ids en) F (id_manager d) (id_fs d)"
  shows "next_dumped_index en d = (Inr (int (nums (concat F))), noted en d)"
  using anchor_next assms(2)
  by (auto simp: next_dumped_index_def sx_bind_def last_index_run [OF assms(1)] files_dumped_def)

lemma process_index_run:
  assumes "manager_fresh (ide_ids en) (id_manager d)" "files_dumped (ide_ids en) F (id_manager d) (id_fs d)"
  shows "on_ids (get_next_process_index (ide_ids en)) d = (Inr (int (length F)), noted en d)"
  using assms(2)
  by (auto simp: on_ids_def get_next_process_index_def sx_bind_def sync_fresh [OF assms(1)] noted_def
      files_dumped_def anchor_of_def last_meta_def split: if_splits)


section \<open>Evicting\<close>

lemma evict_consecutive:
  "consecutive i bs \<Longrightarrow> k \<le> length bs \<Longrightarrow>
   evict_batches (i + int (nums (take k bs))) bs = Inr (dropWhile (\<lambda>b. \<not> nonempty b) (drop k bs))"
proof (induction bs arbitrary: i k)
  case (Cons b bs)
  show ?case
  proof (cases k)
    case 0
    then show ?thesis using Cons.prems Cons.IH [of i 0] by (auto simp: py_assert_def)
  next
    case (Suc k')
    then show ?thesis using Cons.prems Cons.IH [of "i + int (pk_example_id_num b)" k']
      by (simp add: add.assoc)
  qed
qed simp

definition rest_from :: "nat \<Rightarrow> packed_lite_example_ids list \<Rightarrow> nat" where
  "rest_from k acc = k + length (takeWhile (\<lambda>b. \<not> nonempty b) (drop k acc))"

lemma rest_from_facts:
  assumes "k \<le> length acc"
  shows "rest_from k acc \<le> length acc" "k \<le> rest_from k acc"
    "filter nonempty (take (rest_from k acc) acc) = filter nonempty (take k acc)"
    "dropWhile (\<lambda>b. \<not> nonempty b) (drop k acc) = drop (rest_from k acc) acc"
    "(\<forall>b \<in> set (drop k acc). nonempty b) \<Longrightarrow> rest_from k acc = k"
proof -
  let ?P = "\<lambda>b. \<not> nonempty b"
  have "length (takeWhile ?P (drop k acc)) \<le> length (drop k acc)" by (rule length_takeWhile_le)
  then show "rest_from k acc \<le> length acc" using assms unfolding rest_from_def by simp
  show "k \<le> rest_from k acc" by (simp add: rest_from_def)
  show "dropWhile ?P (drop k acc) = drop (rest_from k acc) acc"
    by (simp add: rest_from_def dropWhile_eq_drop add.commute)
  have "take (rest_from k acc) acc = take k acc @ takeWhile ?P (drop k acc)"
    by (simp add: rest_from_def take_add takeWhile_eq_take [symmetric] flip: takeWhile_eq_take)
  then show "filter nonempty (take (rest_from k acc) acc) = filter nonempty (take k acc)"
    by (auto simp: filter_empty_conv dest: set_takeWhileD)
  show "rest_from k acc = k" if "\<forall>b \<in> set (drop k acc). nonempty b"
    using that by (cases "drop k acc") (auto simp: rest_from_def)
qed

text \<open>The queue starts at the batch \<open>j\<close> and those before \<open>j + k\<close> are in the files.\<close>

lemma evict_run:
  assumes f: "manager_fresh (ide_ids en) (id_manager d)" "files_dumped (ide_ids en) F (id_manager d) (id_fs d)"
    and F: "concat F = concat F0 @ filter nonempty (take (j + k) acc)"
    and acc: "consecutive (int (nums (concat F0))) acc" "id_fly_batch d = drop j acc" "j + k \<le> length acc"
  shows "evict_dumped_example_id_batch en d =
    (Inr (), (noted en d)\<lparr>id_fly_batch := drop (rest_from (j + k) acc) acc\<rparr>)"
proof -
  have "take (j + k) acc = take j acc @ take k (drop j acc)" by (simp add: take_add)
  then have n: "int (nums (concat F)) = int (nums (concat F0)) + int (nums (take j acc)) + int (nums (take k (drop j acc)))"
    using F by simp
  have "evict_batches (int (nums (concat F))) (drop j acc) =
      Inr (dropWhile (\<lambda>b. \<not> nonempty b) (drop k (drop j acc)))"
    unfolding n using acc(3) by (intro evict_consecutive consecutive_drop_nums acc(1)) simp
  then have "evict_batches (int (nums (concat F))) (id_fly_batch d) = Inr (drop (rest_from (j + k) acc) acc)"
    using rest_from_facts(4) [OF acc(3)] acc(2) by (simp add: add.commute)
  then show ?thesis
    by (simp add: evict_dumped_example_id_batch_def sx_bind_def next_index_run [OF f] sx_get_def sx_modify_def)
qed

lemma reset_inv:
  assumes "manager_fresh (ide_ids en) (id_manager d)" "files_dumped (ide_ids en) F (id_manager d) (id_fs d)"
    and "prefix F0 F" "concat F = concat F0 @ filter nonempty (take k acc)" "k \<le> length acc"
    and "consecutive (int (nums (concat F0))) acc"
    and "id_next_index d = int (nums (concat F0)) + int (nums acc)"
  shows "id_inv en F0 acc F (rest_from k acc)
    (reset_example_id_dumper ((noted en d)\<lparr>id_fly_batch := drop (rest_from k acc) acc\<rparr>))"
proof -
  let ?d = "noted en d"
  have "manager_fresh (ide_ids en) (id_manager ?d)" "files_dumped (ide_ids en) F (id_manager ?d) (id_fs ?d)"
    "id_next_index ?d = int (nums (concat F0)) + int (nums acc)"
    using assms by simp_all
  then show ?thesis
    using assms rest_from_facts(1,3) [OF assms(5)] unfolding id_inv_def reset_example_id_dumper_def by simp
qed

lemma id_inv_evict_reset:
  assumes "id_inv en F0 acc F j d"
  shows "\<exists>j' \<ge> j. evict_dumped_example_id_batch en d = (Inr (), (noted en d)\<lparr>id_fly_batch := drop j' acc\<rparr>) \<and>
    j' = rest_from j acc \<and>
    id_inv en F0 acc F j' (reset_example_id_dumper ((noted en d)\<lparr>id_fly_batch := drop j' acc\<rparr>))"
  using assms evict_run [of en d F F0 j 0 acc] reset_inv [of en d F F0 j acc] rest_from_facts(2) [of j acc]
  unfolding id_inv_def by auto

section \<open>Dumping a batch\<close>

lemma create_run:
  assumes inv: "id_inv en F0 acc F j d" and ne: "id_fly_batch d \<noteq> []"
  shows "\<exists>d' fd. create_id_file_dumper en uid d = (Inr (), d') \<and> id_inv en F0 acc F j d' \<and>
    id_current d' = Some fd \<and> fd_batch_count fd = dumped_batch_count d \<and>
    id_fly_batch d' = id_fly_batch d \<and> id_sync_finished d' = id_sync_finished d \<and>
    id_state_stale d' = id_state_stale d"
proof (cases "id_current d")
  case (Some fd)
  then show ?thesis using inv by (simp add: create_id_file_dumper_def dumped_batch_count_def)
next
  case None
  let ?fd = "new_id_file_dumper (int (length F)) (int (nums (concat F))) (ei_dumped_dir (ide_ids en)) uid"
  have f: "manager_fresh (ide_ids en) (id_manager d)" "files_dumped (ide_ids en) F (id_manager d) (id_fs d)"
    using inv by (simp_all add: id_inv_def)
  have f': "manager_fresh (ide_ids en) (id_manager (noted en d))"
    "files_dumped (ide_ids en) F (id_manager (noted en d)) (id_fs (noted en d))"
    using f by simp_all
  have "file_dumper_ok (ide_ids en) F (drop j acc) ?fd"
    using ne inv by (auto simp: file_dumper_ok_def new_id_file_dumper_def id_inv_def)
  then have "id_inv en F0 acc F j ((noted en d)\<lparr>id_current := Some ?fd\<rparr>)"
    using noted_inv [OF inv] unfolding id_inv_def by simp
  moreover have "create_id_file_dumper en uid d = (Inr (), (noted en d)\<lparr>id_current := Some ?fd\<rparr>)"
    using None by (simp add: create_id_file_dumper_def sx_bind_def sx_get_def sx_modify_def
        next_index_run [OF f] process_index_run [OF f'])
  ultimately show ?thesis by (simp add: dumped_batch_count_def None new_id_file_dumper_def)
qed

lemma file_dumper_take:
  assumes "file_dumper_ok en F fly fd" "fd_batch_count fd < length fly"
    and "consecutive (int (nums (concat F))) fly" "nonempty (fly ! fd_batch_count fd)"
  shows "\<exists>fd'. dump_example_id_batch (fly ! fd_batch_count fd) fd = (Inr (), fd') \<and>
    file_dumper_ok en F fly fd' \<and> fd_batch_count fd' = Suc (fd_batch_count fd)"
proof -
  let ?n = "fd_batch_count fd"
  have b: "pk_begin_index (fly ! ?n) = int (nums (concat F)) + int (nums (take ?n fly))"
    using assms by (intro consecutive_nth)
  have t: "take (Suc ?n) fly = take ?n fly @ [fly ! ?n]"
    using assms(2) by (rule take_Suc_conv_app_nth)
  have "dump_example_id_batch (fly ! ?n) fd = (Inr (),
      fd\<lparr>fd_written := fd_written fd @ [fly ! ?n], fd_end_index := fd_end_index fd + int (pk_example_id_num (fly ! ?n)),
        fd_batch_count := Suc ?n\<rparr>)"
    using assms(1,4) b by (simp add: dump_example_id_batch_def file_dumper_ok_def sx_assert_def)
  then show ?thesis using assms t by (auto simp: file_dumper_ok_def)
qed


lemma dump_one_run:
  assumes inv: "id_inv en F0 acc F j d"
  shows "\<exists>d'. dump_one_example_id_batch en uid d = (Inr (), d') \<and> id_inv en F0 acc F j d' \<and>
    id_fly_batch d' = id_fly_batch d \<and> id_sync_finished d' = id_sync_finished d \<and>
    id_state_stale d' = id_state_stale d \<and>
    (dumped_batch_count d < length (id_fly_batch d) \<longrightarrow> id_current d' \<noteq> None) \<and>
    (\<not> dumped_batch_count d < length (id_fly_batch d) \<longrightarrow> d' = d) \<and>
    dumped_batch_count d' =
      (if dumped_batch_count d < length (id_fly_batch d) \<and> nonempty (id_fly_batch d ! dumped_batch_count d)
       then Suc (dumped_batch_count d) else dumped_batch_count d)"
proof (cases "dumped_batch_count d < length (id_fly_batch d)")
  case False
  then show ?thesis using inv by (simp add: dump_one_example_id_batch_def get_synced_example_id_batch_def)
next
  case True
  define b where "b = id_fly_batch d ! dumped_batch_count d"
  obtain d1 fd where d1: "create_id_file_dumper en uid d = (Inr (), d1)" "id_inv en F0 acc F j d1"
      "id_current d1 = Some fd" "fd_batch_count fd = dumped_batch_count d" "id_fly_batch d1 = id_fly_batch d"
      "id_sync_finished d1 = id_sync_finished d" "id_state_stale d1 = id_state_stale d"
    using create_run [OF inv, of uid] True by (metis length_0_conv less_nat_zero_code)
  have run: "dump_one_example_id_batch en uid d = on_current (dump_example_id_batch b) d1"
    using True by (simp add: dump_one_example_id_batch_def get_synced_example_id_batch_def b_def
        sx_bind_def d1(1) sx_get_def)
  show ?thesis
  proof (cases "nonempty b")
    case False
    then have e: "pk_example_id_num b = 0" by simp
    have "on_current (dump_example_id_batch b) d1 = (Inr (), d1)"
      using d1(3) by (cases d1) (simp add: on_current_def dump_example_id_batch_def e)
    moreover have "dumped_batch_count d1 = dumped_batch_count d"
      using d1(3,4) by (simp add: dumped_batch_count_def [of d1])
    ultimately show ?thesis using run d1(2,3,5-7) False True unfolding b_def by simp
  next
    case ne: True
    have ok: "file_dumper_ok (ide_ids en) F (drop j acc) fd" and fly: "id_fly_batch d = drop j acc"
      using d1(2,3) inv by (simp_all add: id_inv_def)
    have "int (nums (concat F)) = int (nums (concat F0)) + int (nums (take j acc))"
      using inv by (simp add: id_inv_def)
    then have c: "consecutive (int (nums (concat F))) (drop j acc)"
      using consecutive_drop_nums [of "int (nums (concat F0))" acc j] inv by (simp add: id_inv_def)
    have b: "b = drop j acc ! fd_batch_count fd" by (simp add: b_def fly d1(4))
    have lt: "fd_batch_count fd < length (drop j acc)" using True by (simp add: fly d1(4))
    obtain fd' where fd': "dump_example_id_batch b fd = (Inr (), fd')"
        "file_dumper_ok (ide_ids en) F (drop j acc) fd'" "fd_batch_count fd' = Suc (fd_batch_count fd)"
      using file_dumper_take [OF ok lt c] ne unfolding b by metis
    have "on_current (dump_example_id_batch b) d1 = (Inr (), d1\<lparr>id_current := Some fd'\<rparr>)"
      by (simp add: on_current_def d1(3) fd'(1))
    moreover have "id_inv en F0 acc F j (d1\<lparr>id_current := Some fd'\<rparr>)"
      using d1(2) fd'(2) unfolding id_inv_def by simp
    moreover have "dumped_batch_count (d1\<lparr>id_current := Some fd'\<rparr>) = Suc (dumped_batch_count d)"
      using d1(4) fd'(3) by (simp add: dumped_batch_count_def [of "d1\<lparr>id_current := Some fd'\<rparr>"])
    ultimately show ?thesis
      using run d1(5-7) ne True unfolding b_def by simp
  qed
qed

section \<open>Finishing a file\<close>

text \<open>The store gives back what was printed.\<close>

definition store_faithful :: "'v ei_env \<Rightarrow> bool" where
  "store_faithful en \<longleftrightarrow> (\<forall>l. ei_parse en (ei_print en (Dumped l)) = Dumped l)"

lemma file_path_next:
  "id_file_path en (F @ [bs]) (length F) =
     path_join (ei_dumped_dir en) (encode_example_id_dumped_fname (int (length F)) (int (nums (concat F))))"
  "q < length F \<Longrightarrow> id_file_path en (F @ [bs]) q = id_file_path en F q"
  by (simp_all add: id_file_path_def)

lemma file_path_fresh:
  assumes "dumped_dir_ok en" "q < length F"
  shows "id_file_path en F q \<noteq>
    path_join (ei_dumped_dir en) (encode_example_id_dumped_fname (int (length F)) (int (nums (concat F))))"
  using done_path_inject [OF assms(1), of "int q" "int (length F)" "int (nums (concat (take q F)))"
      "int (nums (concat F))"] assms(2)
  by (auto simp: id_file_path_def)

lemma anchor_update_run:
  assumes ok: "dumped_dir_ok en" "store_faithful en"
    and f: "manager_fresh en s" "anchor_of F (stored_anchor en s)"
    and k: "p = int (length F)" "i = int (nums (concat F))" "e = i + int (nums bs) - 1" "0 < nums bs"
    and path: "path = path_join (ei_dumped_dir en) (encode_example_id_dumped_fname p i)" "path \<in> set (ei_files s)"
  shows "\<exists>r s'. update_dumped_example_id_anchor en st
        \<lparr>im_process_index = p, im_start_index = i, im_fpath = path\<rparr> e s = (r, s') \<and>
      manager_fresh en s' \<and> ei_files s' = ei_files s \<and>
      (if st then r = Inr () \<and> anchor_of (F @ [bs]) (stored_anchor en s')
       else r = Inl RuntimeError \<and> stored_anchor en s' = stored_anchor en s)"
proof -
  let ?im = "\<lparr>im_process_index = p, im_start_index = i, im_fpath = path\<rparr>"
  let ?new = "Dumped \<lparr>ld_file_path = path, ld_start_index = i, ld_end_index = e, ld_process_index = p\<rparr>"
  have c1: "check_dumped_file en ?im e s = (Inr (), s)"
    using path k done_names [OF ok(1)] by (simp add: check_dumped_file_def)
  have c2: "check_follows_anchor (stored_anchor en s) ?im s1 = (Inr (), s1)" for s1 :: "'a ei_manager"
    using f(2) k by (auto simp: check_follows_anchor_def anchor_of_def last_meta_def split: if_splits)
  have v: "\<not> ei_visit_only s" using f(1) by (simp add: manager_fresh_def)
  let ?s = "s\<lparr>ei_anchor := if st then Some ?new else None,
      ei_kv := if st then AList.update (anchor_key en) (ei_print en ?new) (ei_kv s) else ei_kv s\<rparr>"
  have "update_dumped_example_id_anchor en st ?im e s = (if st then Inr () else Inl RuntimeError, ?s)"
    by (simp add: update_dumped_example_id_anchor_def sx_bind_def c1 sync_fresh [OF f(1)] c2 v sx_get_def
        sx_modify_def sx_raise_def Let_def)
  moreover have "manager_fresh en ?s"
    using v ok(2) by (auto simp: manager_fresh_def stored_anchor_def store_faithful_def update_conv')
  moreover have "anchor_of (F @ [bs]) (stored_anchor en ?s)" if st
    using that k ok(2) by (simp add: anchor_of_def stored_anchor_def store_faithful_def update_conv')
  moreover have "stored_anchor en ?s = stored_anchor en s" if "\<not> st"
    using that by (simp add: stored_anchor_def)
  ultimately show ?thesis by auto
qed

definition cleared :: "'v id_dumper \<Rightarrow> string \<Rightarrow> string \<Rightarrow> packed_lite_example_ids list \<Rightarrow> 'v id_dumper" where
  "cleared d tmp path bs = d\<lparr>id_fs := (id_fs d)(tmp := None, path \<mapsto> bs),
     id_manager := (id_manager d)\<lparr>ei_files := path # ei_files (id_manager d)\<rparr>\<rparr>"

lemma written_files:
  assumes "files_dumped en F s fs" "\<And>q. q < length F \<Longrightarrow> id_file_path en F q \<notin> P"
    and "\<And>x. x \<notin> P \<Longrightarrow> fs' x = fs x" "set (ei_files s) \<subseteq> set (ei_files s')"
    and "stored_anchor en s' = stored_anchor en s"
  shows "files_dumped en F s' fs'"
  using assms unfolding files_dumped_def by (metis subsetD)


abbreviation next_path :: "'v ei_env \<Rightarrow> packed_lite_example_ids list list \<Rightarrow> string" where
  "next_path en F \<equiv> path_join (ei_dumped_dir en)
     (encode_example_id_dumped_fname (int (length F)) (int (nums (concat F))))"

definition with_tmp :: "id_file_dumper \<Rightarrow> 'v id_dumper \<Rightarrow> 'v id_dumper" where
  "with_tmp fd d = d\<lparr>id_fs := (id_fs d)(fd_tmp_fpath fd \<mapsto> fd_written fd)\<rparr>"

lemma inv_other_files:
  assumes inv: "id_inv en F0 acc F j d" and ok: "dumped_dir_ok (ide_ids en)"
    and P: "\<And>x. fs' x \<noteq> id_fs d x \<Longrightarrow> (\<exists>dir uid. x = gen_tmp_fpath dir uid) \<or> x = next_path (ide_ids en) F"
    and m: "manager_fresh (ide_ids en) m" "set (ei_files (id_manager d)) \<subseteq> set (ei_files m)"
      "stored_anchor (ide_ids en) m = stored_anchor (ide_ids en) (id_manager d)"
  shows "id_inv en F0 acc F j (d\<lparr>id_fs := fs', id_manager := m\<rparr>)"
proof -
  have "files_dumped (ide_ids en) F m fs'"
  proof (rule written_files)
    show "files_dumped (ide_ids en) F (id_manager d) (id_fs d)" using inv by (simp add: id_inv_def)
    show "id_file_path (ide_ids en) F q \<notin> {x. fs' x \<noteq> id_fs d x}" if "q < length F" for q
    proof -
      have "id_file_path (ide_ids en) F q \<noteq> gen_tmp_fpath dir uid" for dir uid
        unfolding id_file_path_def using tmp_not_done by metis
      then show ?thesis using P [of "id_file_path (ide_ids en) F q"] file_path_fresh [OF ok that] by auto
    qed
  qed (use m in auto)
  then show ?thesis using inv m(1) unfolding id_inv_def by simp
qed

lemma tmp_inv:
  assumes inv: "id_inv en F0 acc F j d" and ok: "dumped_dir_ok (ide_ids en)" and fd: "id_current d = Some fd"
  shows "id_inv en F0 acc F j (with_tmp fd d)"
    "id_inv en F0 acc F j (cleared d (fd_tmp_fpath fd) (next_path (ide_ids en) F) (fd_written fd))"
proof -
  obtain uid where tmp: "fd_tmp_fpath fd = gen_tmp_fpath (ei_dumped_dir (ide_ids en)) uid"
    using inv fd by (auto simp: id_inv_def file_dumper_ok_def)
  have m: "manager_fresh (ide_ids en) (id_manager d)" using inv by (simp add: id_inv_def)
  show "id_inv en F0 acc F j (with_tmp fd d)"
  proof -
    have "id_inv en F0 acc F j
        (d\<lparr>id_fs := (id_fs d)(fd_tmp_fpath fd \<mapsto> fd_written fd), id_manager := id_manager d\<rparr>)"
      by (rule inv_other_files [OF inv ok]) (use m tmp in \<open>auto split: if_splits\<close>)
    then show ?thesis by (simp add: with_tmp_def)
  qed
  show "id_inv en F0 acc F j (cleared d (fd_tmp_fpath fd) (next_path (ide_ids en) F) (fd_written fd))"
    unfolding cleared_def
  proof (rule inv_other_files [OF inv ok])
    show "manager_fresh (ide_ids en) ((id_manager d)\<lparr>ei_files := next_path (ide_ids en) F # ei_files (id_manager d)\<rparr>)"
      using m by (simp add: manager_fresh_def stored_anchor_def)
  qed (use tmp in \<open>auto simp: stored_anchor_def split: if_splits\<close>)
qed

lemma nums_pos: "bs \<noteq> [] \<Longrightarrow> \<forall>b \<in> set bs. nonempty b \<Longrightarrow> 0 < nums bs"
  by (cases bs) simp_all

lemma written_pos: "file_dumper_ok en F fly fd \<Longrightarrow> fd_written fd \<noteq> [] \<Longrightarrow> 0 < nums (fd_written fd)"
  using nums_pos unfolding file_dumper_ok_def by blast

lemma finish_file_run:
  assumes "file_dumper_ok en F fly fd" "d_path = next_path en F"
  shows "finish_id_file (ei_dumped_dir en) rn fd d =
    (if fd_written fd = [] then (Inl AssertionError, with_tmp fd d)
     else if rn = Failed_before then (Inl OpError, with_tmp fd d)
     else if rn = Failed_after then (Inl OpError, cleared d (fd_tmp_fpath fd) d_path (fd_written fd))
     else (Inr (Some (\<lparr>im_process_index = int (length F), im_start_index = int (nums (concat F)), im_fpath = d_path\<rparr>,
                  int (nums (concat F)) + int (nums (fd_written fd)) - 1)),
           cleared d (fd_tmp_fpath fd) d_path (fd_written fd)))"
proof -
  note pos = written_pos [OF assms(1)]
  have "dumped_example_id_count fd = int (nums (fd_written fd))" "dumped_fpath (ei_dumped_dir en) fd = d_path"
    using assms by (simp_all add: file_dumper_ok_def dumped_example_id_count_def dumped_fpath_def)
  moreover have "fd_end_index fd = int (nums (concat F)) - 1 + int (nums (fd_written fd))"
      "fd_start_index fd = int (nums (concat F))" "fd_process_index fd = int (length F)"
    using assms(1) by (simp_all add: file_dumper_ok_def)
  ultimately show ?thesis
    using pos by (cases rn) (auto simp: finish_id_file_def sx_bind_def sx_modify_def sx_assert_def sx_raise_def
        sx_return_def with_tmp_def cleared_def id_rename_def)
qed

lemma finish_fails:
  assumes inv: "id_inv en F0 acc F j d" and ok: "dumped_dir_ok (ide_ids en)" "store_faithful (ide_ids en)"
    and fd: "id_current d = Some fd"
    and failing: "fd_written fd = [] \<or> ic_rename ch \<noteq> Renamed \<or> \<not> ic_stored ch"
  shows "\<exists>e d'. finish_example_id_dumper en ch d = (Inl e, d') \<and> id_inv en F0 acc F j d' \<and>
    e = (if fd_written fd = [] then AssertionError
         else if ic_rename ch \<noteq> Renamed then OpError else RuntimeError) \<and>
    id_sync_finished d' = id_sync_finished d \<and> id_state_stale d' = id_state_stale d"
proof -
  have fok: "file_dumper_ok (ide_ids en) F (drop j acc) fd" using inv fd by (simp add: id_inv_def)
  note t = tmp_inv [OF inv ok(1) fd]
  note run = finish_example_id_dumper_def sx_bind_def sx_get_def fd finish_file_run [OF fok refl]
  show ?thesis
  proof (cases "fd_written fd = [] \<or> ic_rename ch \<noteq> Renamed")
    case True
    then show ?thesis using t by (cases "ic_rename ch") (auto simp: run with_tmp_def cleared_def)
  next
    case False
    let ?c = "cleared d (fd_tmp_fpath fd) (next_path (ide_ids en) F) (fd_written fd)"
    have pos: "0 < nums (fd_written fd)" using written_pos [OF fok] False by blast
    have m: "manager_fresh (ide_ids en) (id_manager ?c)" "anchor_of F (stored_anchor (ide_ids en) (id_manager ?c))"
      using t(2) unfolding id_inv_def files_dumped_def by blast+
    obtain s' where s': "update_dumped_example_id_anchor (ide_ids en) (ic_stored ch)
          \<lparr>im_process_index = int (length F), im_start_index = int (nums (concat F)),
           im_fpath = next_path (ide_ids en) F\<rparr>
          (int (nums (concat F)) + int (nums (fd_written fd)) - 1) (id_manager ?c) = (Inl RuntimeError, s')"
        "manager_fresh (ide_ids en) s'" "ei_files s' = ei_files (id_manager ?c)"
        "stored_anchor (ide_ids en) s' = stored_anchor (ide_ids en) (id_manager ?c)"
      using anchor_update_run [OF ok m refl refl refl pos refl, of "ic_stored ch"] failing False
      by (auto simp: cleared_def)
    have "id_inv en F0 acc F j (?c\<lparr>id_fs := id_fs ?c, id_manager := s'\<rparr>)"
      by (rule inv_other_files [OF t(2) ok(1)]) (use s' in auto)
    then show ?thesis using s'(1) False by (auto simp: run on_ids_def cleared_def)
  qed
qed


lemma files_dumped_next:
  assumes "files_dumped en F s fs" "anchor_of (F @ [bs]) (stored_anchor en s')"
    and "ei_files s' = ei_files s" "0 < nums bs"
    and "next_path en F \<in> set (ei_files s)" "fs (next_path en F) = Some bs"
  shows "files_dumped en (F @ [bs]) s' fs"
  using assms by (auto simp: files_dumped_def nth_append file_path_next less_Suc_eq)

lemma id_finish_succeeds:
  assumes inv: "id_inv en F0 acc F j d" and ok: "dumped_dir_ok (ide_ids en)" "store_faithful (ide_ids en)"
    and fd: "id_current d = Some fd" "fd_written fd \<noteq> []"
    and ch: "ic_rename ch = Renamed" "ic_stored ch"
  shows "\<exists>d'. finish_example_id_dumper en ch d = (Inr (), d') \<and> id_current d' = None \<and>
    id_inv en F0 acc (F @ [fd_written fd]) (rest_from (j + fd_batch_count fd) acc) d' \<and>
    id_sync_finished d' = id_sync_finished d \<and> id_state_stale d' = id_state_stale d"
proof -
  let ?w = "fd_written fd" and ?F = "F @ [fd_written fd]" and ?k = "j + fd_batch_count fd"
  let ?c = "cleared d (fd_tmp_fpath fd) (next_path (ide_ids en) F) ?w"
  have fok: "file_dumper_ok (ide_ids en) F (drop j acc) fd" using inv fd by (simp add: id_inv_def)
  have invc: "id_inv en F0 acc F j ?c" by (rule tmp_inv(2) [OF inv ok(1) fd(1)])
  have pos: "0 < nums ?w" using written_pos [OF fok] fd(2) by blast
  have m: "manager_fresh (ide_ids en) (id_manager ?c)" "files_dumped (ide_ids en) F (id_manager ?c) (id_fs ?c)"
    "anchor_of F (stored_anchor (ide_ids en) (id_manager ?c))"
    using invc unfolding id_inv_def files_dumped_def by blast+
  have path: "next_path (ide_ids en) F \<in> set (ei_files (id_manager ?c))"
    "id_fs ?c (next_path (ide_ids en) F) = Some ?w"
    by (simp_all add: cleared_def)
  obtain s' where s': "update_dumped_example_id_anchor (ide_ids en) (ic_stored ch)
        \<lparr>im_process_index = int (length F), im_start_index = int (nums (concat F)),
         im_fpath = next_path (ide_ids en) F\<rparr>
        (int (nums (concat F)) + int (nums ?w) - 1) (id_manager ?c) = (Inr (), s')"
      "manager_fresh (ide_ids en) s'" "ei_files s' = ei_files (id_manager ?c)"
      "anchor_of ?F (stored_anchor (ide_ids en) s')"
    using anchor_update_run [OF ok m(1,3) refl refl refl pos refl path(1), of "ic_stored ch"] ch(2) by auto
  let ?d = "?c\<lparr>id_manager := s'\<rparr>"
  have d: "manager_fresh (ide_ids en) (id_manager ?d)" "files_dumped (ide_ids en) ?F (id_manager ?d) (id_fs ?d)"
    using s'(2) files_dumped_next [OF m(2) s'(4,3) pos path] by simp_all
  have k: "?k \<le> length acc" "consecutive (int (nums (concat F0))) acc" "id_fly_batch ?d = drop j acc"
    "id_next_index ?d = int (nums (concat F0)) + int (nums acc)" "prefix F0 ?F"
    using inv fok by (auto simp: id_inv_def file_dumper_ok_def cleared_def)
  have w: "?w = take (fd_batch_count fd) (drop j acc)" "\<forall>b \<in> set ?w. nonempty b"
    using fok unfolding file_dumper_ok_def by blast+
  have "filter nonempty ?w = ?w" using w(2) by simp
  then have F: "concat ?F = concat F0 @ filter nonempty (take ?k acc)"
    using inv w(1) by (simp add: id_inv_def take_add)
  have ev: "evict_dumped_example_id_batch en ?d =
      (Inr (), (noted en ?d)\<lparr>id_fly_batch := drop (rest_from ?k acc) acc\<rparr>)"
    using evict_run [OF d F k(2,3,1)] .
  have "finish_example_id_dumper en ch d =
      (Inr (), reset_example_id_dumper ((noted en ?d)\<lparr>id_fly_batch := drop (rest_from ?k acc) acc\<rparr>))"
    using ch(1) fd ev s'(1)
    by (simp add: finish_example_id_dumper_def sx_bind_def sx_get_def finish_file_run [OF fok refl] on_ids_def
        sx_modify_def)
  moreover have "id_inv en F0 acc ?F (rest_from ?k acc)
      (reset_example_id_dumper ((noted en ?d)\<lparr>id_fly_batch := drop (rest_from ?k acc) acc\<rparr>))"
    by (rule reset_inv [OF d k(5) F k(1,2,4)])
  ultimately show ?thesis by (simp add: reset_example_id_dumper_def noted_def cleared_def)
qed

section \<open>A round and the steps\<close>

lemma finish_inv:
  assumes inv: "id_inv en F0 acc F j d" and ok: "dumped_dir_ok (ide_ids en)" "store_faithful (ide_ids en)"
    and fd: "id_current d \<noteq> None"
  shows "\<exists>r d' F' j'. finish_example_id_dumper en ch d = (r, d') \<and> id_inv en F0 acc F' j' d' \<and> prefix F F' \<and>
    id_sync_finished d' = id_sync_finished d \<and> id_state_stale d' = id_state_stale d"
proof -
  obtain f where f: "id_current d = Some f" using fd by auto
  show ?thesis
  proof (cases "fd_written f = [] \<or> ic_rename ch \<noteq> Renamed \<or> \<not> ic_stored ch")
    case True
    show ?thesis using finish_fails [OF inv ok f True] by blast
  next
    case False
    then obtain d' where "finish_example_id_dumper en ch d = (Inr (), d')"
        "id_inv en F0 acc (F @ [fd_written f]) (rest_from (j + fd_batch_count f) acc) d'"
        "id_sync_finished d' = id_sync_finished d" "id_state_stale d' = id_state_stale d"
      using id_finish_succeeds [OF inv ok f, of ch] by auto
    moreover have "prefix F (F @ [fd_written f])" by simp
    ultimately show ?thesis by blast
  qed
qed

lemma round_inv:
  assumes inv: "id_inv en F0 acc F j d" and ok: "dumped_dir_ok (ide_ids en)" "store_faithful (ide_ids en)"
  shows "\<exists>r d' F' j'. dump_round en ch d = (r, d') \<and> id_inv en F0 acc F' j' d' \<and> prefix F F' \<and>
    id_sync_finished d' = id_sync_finished d \<and> id_state_stale d' = id_state_stale d"
proof -
  obtain d1 where d1: "dump_one_example_id_batch en (ic_uid ch) d = (Inr (), d1)" "id_inv en F0 acc F j d1"
      "id_sync_finished d1 = id_sync_finished d" "id_state_stale d1 = id_state_stale d"
    using dump_one_run [OF inv, of "ic_uid ch"] by blast
  have run: "dump_round en ch d =
      (if need_finish_dumper en (is_batch_finished d1) (ic_at_finish ch) d1
       then finish_example_id_dumper en ch d1 else (Inr (), d1))"
    by (simp add: dump_round_def sx_bind_def d1(1) sx_get_def sx_return_def)
  show ?thesis
  proof (cases "need_finish_dumper en (is_batch_finished d1) (ic_at_finish ch) d1")
    case True
    then have "id_current d1 \<noteq> None" by (auto simp: need_finish_dumper_def split: option.splits)
    from finish_inv [OF d1(2) ok this, of ch] show ?thesis using True d1(3,4) unfolding run by simp
  next
    case False
    moreover have "prefix F F" by simp
    ultimately show ?thesis using d1(2-4) unfolding run by auto
  qed
qed

lemma id_inv_stale [simp]:
  "id_inv en F0 acc F j (d\<lparr>id_state_stale := b\<rparr>) = id_inv en F0 acc F j d"
  "id_inv en F0 acc F j (d\<lparr>id_sync_finished := b\<rparr>) = id_inv en F0 acc F j d"
  by (simp_all add: id_inv_def)

lemma routine_inv:
  assumes inv: "id_inv en F0 acc F j d" and ok: "dumped_dir_ok (ide_ids en)" "store_faithful (ide_ids en)"
  shows "\<exists>r i' d' F' j'. routine_step en ch (i, d) = (r, i', d') \<and> id_inv en F0 acc F' j' d' \<and> prefix F F' \<and>
    id_sync_finished d' = id_sync_finished d"
proof (cases i)
  case True
  show ?thesis
  proof (cases "id_need_dump en (ic_at_check ch) d")
    case False
    moreover have "prefix F F" by simp
    moreover have "id_inv en F0 acc F j (d\<lparr>id_state_stale := False\<rparr>)" using inv by simp
    ultimately show ?thesis using True by (auto simp: routine_step_def)
  next
    case need: True
    from round_inv [OF inv ok, of ch] obtain r d' F' j' where r: "dump_round en ch d = (r, d')"
        "id_inv en F0 acc F' j' d'" "prefix F F'" "id_sync_finished d' = id_sync_finished d"
      by blast
    then show ?thesis using True need by (cases r) (auto simp: routine_step_def)
  qed
next
  case False
  have p: "prefix F F" by simp
  show ?thesis
  proof (cases "id_state_stale d")
    case True
    from id_inv_evict_reset [OF inv] obtain j' where
      "evict_dumped_example_id_batch en d = (Inr (), (noted en d)\<lparr>id_fly_batch := drop j' acc\<rparr>)"
      "id_inv en F0 acc F j' (reset_example_id_dumper ((noted en d)\<lparr>id_fly_batch := drop j' acc\<rparr>))"
      by blast
    then have "routine_step en ch (i, d) = (Inr (), True,
        (reset_example_id_dumper ((noted en d)\<lparr>id_fly_batch := drop j' acc\<rparr>))\<lparr>id_state_stale := True\<rparr>)"
      "id_inv en F0 acc F j'
        ((reset_example_id_dumper ((noted en d)\<lparr>id_fly_batch := drop j' acc\<rparr>))\<lparr>id_state_stale := True\<rparr>)"
      using False True
      by (simp_all add: routine_step_def sync_with_example_id_manager_def sx_bind_def sx_get_def sx_modify_def)
    then show ?thesis using p by (simp add: reset_example_id_dumper_def) blast
  next
    case ns: False
    then show ?thesis using False p inv
      by (auto simp: routine_step_def sync_with_example_id_manager_def sx_return_def sx_get_def)
  qed
qed


lemma id_inv_added:
  assumes inv: "id_inv en F0 acc F j d" and b: "pk_begin_index b = id_next_index d"
  shows "id_inv en F0 (acc @ [b]) F j (d\<lparr>id_fly_batch := id_fly_batch d @ [b],
    id_next_index := pk_begin_index b + int (pk_example_id_num b)\<rparr>)"
proof -
  have "file_dumper_ok e F (drop j acc @ [b]) fd" if "file_dumper_ok e F (drop j acc) fd" for e :: "'a ei_env" and fd
    using that by (auto simp: file_dumper_ok_def)
  then show ?thesis using inv b unfolding id_inv_def by simp
qed

lemma added_Cons [simp]:
  "added (Finish_sync # ops) (r # rs) = added ops rs" "added (Ask_index # ops) (r # rs) = added ops rs"
  "added (Routine ch # ops) (r # rs) = added ops rs"
  "added (Add_batch b # ops) (Inr (Batch_added ok i) # rs) = (if ok then [b] else []) @ added ops rs"
  "added (Add_batch b # ops) (Inl e # rs) = added ops rs"
  by (cases ok; simp)+

lemma exec_inv:
  assumes inv: "id_inv en F0 acc F j d" and ok: "dumped_dir_ok (ide_ids en)" "store_faithful (ide_ids en)"
  shows "\<exists>r i' d' F' j'. id_exec en op (i, d) = (r, i', d') \<and> id_inv en F0 (acc @ added [op] [r]) F' j' d' \<and>
    prefix F F'"
proof (cases op)
  case (Add_batch b)
  have "prefix F F" by simp
  then show ?thesis using Add_batch inv id_inv_added [OF inv, of b]
    by (auto simp: add_example_id_batch_def sx_bind_def sx_get_def sx_raise_def sx_assert_def sx_return_def
        sx_modify_def)
next
  case Finish_sync
  have "prefix F F" by simp
  then show ?thesis using Finish_sync inv by (auto simp: id_sync_finish_def)
next
  case Ask_index
  have "prefix F F" by simp
  moreover have "manager_fresh (ide_ids en) (id_manager d)" using inv by (simp add: id_inv_def)
  ultimately show ?thesis using Ask_index noted_inv [OF inv]
    by (auto simp: get_dumped_id_index_def sx_bind_def last_index_run sx_return_def split: option.splits)
next
  case (Routine ch)
  from routine_inv [OF inv ok, of ch i] obtain r i' d' F' j' where "routine_step en ch (i, d) = (r, i', d')"
      "id_inv en F0 acc F' j' d'" "prefix F F'"
    by blast
  then show ?thesis using Routine by auto
qed

lemma added_split: "added (op # ops) (r # rs) = added [op] [r] @ added ops rs"
proof (cases op)
  case (Add_batch b)
  show ?thesis
  proof (cases r)
    case (Inr reply)
    then show ?thesis using Add_batch by (cases reply) simp_all
  qed (simp add: Add_batch)
qed simp_all

lemma id_run_inv:
  assumes ok: "dumped_dir_ok (ide_ids en)" "store_faithful (ide_ids en)"
  shows "id_inv en F0 acc F j d \<Longrightarrow> id_run en ops (i, d) = (rs, i', d') \<Longrightarrow>
    \<exists>F' j'. id_inv en F0 (acc @ added ops rs) F' j' d' \<and> prefix F F'"
proof (induction ops arbitrary: acc F j i d rs)
  case Nil
  moreover have "prefix F F" by simp
  ultimately show ?case by auto
next
  case (Cons op ops)
  from exec_inv [OF Cons.prems(1) ok, of op i] obtain r i1 d1 F1 j1 where
    1: "id_exec en op (i, d) = (r, i1, d1)" "id_inv en F0 (acc @ added [op] [r]) F1 j1 d1" "prefix F F1"
    by blast
  obtain rs1 where 2: "id_run en ops (i1, d1) = (rs1, i', d')" "rs = r # rs1"
    using Cons.prems(2) 1(1) by (auto split: prod.splits)
  from Cons.IH [OF 1(2) 2(1)] obtain F2 j2 where
    "id_inv en F0 ((acc @ added [op] [r]) @ added ops rs1) F2 j2 d'" "prefix F1 F2"
    by blast
  then show ?case using 1(3) 2(2) added_split [of op ops r rs1] prefix_order.trans by (metis append_assoc)
qed

section \<open>A started dumper\<close>

definition ids_stored ::
    "'v ei_env \<Rightarrow> packed_lite_example_ids list list \<Rightarrow> (string \<times> 'v) list \<Rightarrow> string list \<Rightarrow>
     (string \<Rightarrow> packed_lite_example_ids list option) \<Rightarrow> bool" where
  "ids_stored en F kv files fs \<longleftrightarrow>
     anchor_of F (case map_of kv (anchor_key en) of None \<Rightarrow> Undumped | Some v \<Rightarrow> ei_parse en v) \<and>
     (\<forall>k < length F. 0 < nums (F ! k) \<and> id_file_path en F k \<in> set files \<and>
        fs (id_file_path en F k) = Some (F ! k))"

lemma ids_stored_iff: "files_dumped en F s fs \<longleftrightarrow> ids_stored en F (ei_kv s) (ei_files s) fs"
  by (simp add: files_dumped_def ids_stored_def stored_anchor_def)

lemma started:
  assumes "ids_stored (ide_ids en) F0 kv files fs"
  shows "\<exists>d. new_id_dumper en kv files fs = Inr d \<and> id_inv en F0 [] F0 0 d \<and> \<not> id_state_stale d \<and>
    \<not> id_sync_finished d \<and> id_current d = None"
proof -
  let ?e = "ide_ids en"
  let ?s = "\<lparr>imm_index_metas = [], ei_anchor = None, ei_visit_only = False, ei_kv = kv, ei_files = files\<rparr>"
  have fr: "manager_fresh ?e ?s" by (simp add: manager_fresh_def)
  let ?m = "?s\<lparr>ei_anchor := Some (stored_anchor ?e ?s)\<rparr>"
  have m: "new_example_id_manager ?e False [] kv files = Inr ?m"
    using sync_fresh [OF fr] by (simp add: new_example_id_manager_def sorted_index_metas_def Let_def)
  let ?d = "\<lparr>id_next_index = 0, id_fly_batch = [], id_sync_finished = False, id_state_stale = False,
               id_current = None, id_manager = ?m, id_fs = fs\<rparr>"
  have "manager_fresh ?e ?m" by (rule fresh_synced(3) [OF fr])
  then have f: "manager_fresh ?e (id_manager ?d)" "files_dumped ?e F0 (id_manager ?d) (id_fs ?d)"
    using assms by (simp_all add: ids_stored_iff)
  have "new_id_dumper en kv files fs = Inr ((noted en ?d)\<lparr>id_next_index := int (nums (concat F0))\<rparr>)"
    using next_index_run [OF f] by (simp add: new_id_dumper_def m)
  moreover have "id_inv en F0 [] F0 0 ((noted en ?d)\<lparr>id_next_index := int (nums (concat F0))\<rparr>)"
    using f by (simp add: id_inv_def)
  ultimately show ?thesis by simp
qed

lemma reached:
  assumes "dumped_dir_ok (ide_ids en)" "store_faithful (ide_ids en)" "ids_stored (ide_ids en) F0 kv files fs"
    and "new_id_dumper en kv files fs = Inr d0" "id_run en ops (False, d0) = (rs, i, d)"
  shows "\<exists>F j. id_inv en F0 (added ops rs) F j d"
  using started [OF assms(3)] id_run_inv [OF assms(1,2) _ assms(5), of F0 "[]" F0 0] assms(4) by auto


lemma file_start_nums:
  assumes "\<forall>k < length F. length (files k) = nums (F ! k)"
  shows "n \<le> length F \<Longrightarrow> file_start files n = int (nums (concat (take n F)))"
proof (induction n)
  case (Suc n)
  then show ?case using assms by (simp add: file_start_def take_Suc_conv_app_nth)
qed (simp add: file_start_def)

lemma stored_dumped:
  assumes "ids_stored en F kv fs content" "\<forall>k < length F. length (files k) = nums (F ! k)"
  shows "ids_dumped en files kv fs (length F)"
proof -
  have s: "file_start files n = int (nums (concat (take n F)))" if "n \<le> length F" for n
    by (rule file_start_nums [OF assms(2) that])
  have "dumped_path en files q = id_file_path en F q" if "q < length F" for q
    using s [of q] that by (simp add: dumped_path_def id_file_path_def)
  moreover have "anchor_at files (length F) a" if "anchor_of F a" for a
    using that s [of "length F"] by (auto simp: anchor_of_def anchor_at_def)
  ultimately show ?thesis using assms(1) by (auto simp: ids_dumped_def ids_stored_def)
qed

text \<open>
  C36. Whatever batches the peer sends, whatever the order of its calls and the rounds of the routine,
  and whichever renames and writes of the anchor fail: the batches accepted continue the files that
  were there; the files hold, in order and each once, those of a prefix of the accepted batches that
  are not empty; the rest is still queued. A process that starts again from what is stored finds the
  same files, asks for the id right after them, and the visitor of the example ids finds them published.
\<close>

theorem id_dumper_keeps_sequence:
  assumes "dumped_dir_ok (ide_ids en)" "store_faithful (ide_ids en)" "ids_stored (ide_ids en) F0 kv files fs"
    and "new_id_dumper en kv files fs = Inr d0" "id_run en ops (False, d0) = (rs, inside, d)"
  shows "\<exists>F j. prefix F0 F \<and> j \<le> length (added ops rs) \<and>
    consecutive (int (nums (concat F0))) (added ops rs) \<and>
    concat F = concat F0 @ filter nonempty (take j (added ops rs)) \<and>
    id_fly_batch d = drop j (added ops rs) \<and>
    ids_stored (ide_ids en) F (ei_kv (id_manager d)) (ei_files (id_manager d)) (id_fs d) \<and>
    (\<exists>d1. new_id_dumper en (ei_kv (id_manager d)) (ei_files (id_manager d)) (id_fs d) = Inr d1 \<and>
       id_next_index d1 = int (nums (concat F)) \<and> id_fly_batch d1 = []) \<and>
    (\<forall>ids. (\<forall>k < length F. length (ids k) = nums (F ! k)) \<longrightarrow>
       ids_dumped (ide_ids en) ids (ei_kv (id_manager d)) (ei_files (id_manager d)) (length F))"
proof -
  from reached [OF assms] obtain F j where inv: "id_inv en F0 (added ops rs) F j d" by blast
  have st: "ids_stored (ide_ids en) F (ei_kv (id_manager d)) (ei_files (id_manager d)) (id_fs d)"
    using inv by (simp add: id_inv_def ids_stored_iff)
  from started [OF st] obtain d1 where
    "new_id_dumper en (ei_kv (id_manager d)) (ei_files (id_manager d)) (id_fs d) = Inr d1" "id_inv en F [] F 0 d1"
    by blast
  moreover from this(2) have "id_next_index d1 = int (nums (concat F))" "id_fly_batch d1 = []"
    by (simp_all add: id_inv_def)
  ultimately show ?thesis using inv st stored_dumped [OF st] unfolding id_inv_def by blast
qed

section \<open>Draining the queue\<close>

definition working :: "id_choice \<Rightarrow> bool" where
  "working ch \<longleftrightarrow> ic_rename ch = Renamed \<and> ic_stored ch"

lemma round_progress:
  assumes inv: "id_inv en F0 acc F j d" and ok: "dumped_dir_ok (ide_ids en)" "store_faithful (ide_ids en)"
    and sync: "id_sync_finished d" and ne: "\<forall>b \<in> set (id_fly_batch d). nonempty b" "id_fly_batch d \<noteq> []"
    and ch: "working ch"
  shows "\<exists>d' F' j'. dump_round en ch d = (Inr (), d') \<and> id_inv en F0 acc F' j' d' \<and> id_sync_finished d' \<and>
    (\<forall>b \<in> set (id_fly_batch d'). nonempty b) \<and>
    (id_fly_batch d' = [] \<and> id_current d' = None \<or>
     dumped_batch_count d' < length (id_fly_batch d') \<and>
     length (id_fly_batch d') - dumped_batch_count d' < length (id_fly_batch d) - dumped_batch_count d)"
proof -
  let ?n = "dumped_batch_count d"
  obtain d1 where d1: "dump_one_example_id_batch en (ic_uid ch) d = (Inr (), d1)" "id_inv en F0 acc F j d1"
      "id_fly_batch d1 = id_fly_batch d" "id_sync_finished d1 = id_sync_finished d"
      "?n < length (id_fly_batch d) \<longrightarrow> id_current d1 \<noteq> None"
      "\<not> ?n < length (id_fly_batch d) \<longrightarrow> d1 = d"
      "dumped_batch_count d1 = (if ?n < length (id_fly_batch d) \<and> nonempty (id_fly_batch d ! ?n) then Suc ?n else ?n)"
    using dump_one_run [OF inv, of "ic_uid ch"] by blast
  have run: "dump_round en ch d =
      (if need_finish_dumper en (is_batch_finished d1) (ic_at_finish ch) d1
       then finish_example_id_dumper en ch d1 else (Inr (), d1))"
    by (simp add: dump_round_def sx_bind_def d1(1) sx_get_def sx_return_def)
  have fly: "id_fly_batch d = drop j acc" using inv by (simp add: id_inv_def)
  have n: "?n < length (id_fly_batch d) \<Longrightarrow> dumped_batch_count d1 = Suc ?n" using d1(7) ne by simp
  have pos: "0 < dumped_batch_count d1"
  proof (cases "?n < length (id_fly_batch d)")
    case False
    then have "0 < ?n" using ne(2) by (cases "id_fly_batch d") simp_all
    then show ?thesis using False d1(6) by simp
  qed (simp add: n)
  then obtain fd where fd: "id_current d1 = Some fd" by (auto simp: dumped_batch_count_def split: option.splits)
  then have c: "fd_batch_count fd = dumped_batch_count d1" by (simp add: dumped_batch_count_def)
  have fok: "file_dumper_ok (ide_ids en) F (drop j acc) fd" using d1(2) fd by (simp add: id_inv_def)
  have w: "fd_written fd \<noteq> []" using fok pos by (simp add: file_dumper_ok_def c)
  have le: "fd_batch_count fd \<le> length (id_fly_batch d)" using fok by (simp add: file_dumper_ok_def fly)
  show ?thesis
  proof (cases "need_finish_dumper en (is_batch_finished d1) (ic_at_finish ch) d1")
    case True
    let ?k = "j + fd_batch_count fd"
    from id_finish_succeeds [OF d1(2) ok fd w] ch obtain d' where d':
      "finish_example_id_dumper en ch d1 = (Inr (), d')" "id_current d' = None"
      "id_inv en F0 acc (F @ [fd_written fd]) (rest_from ?k acc) d'"
      "id_sync_finished d' = id_sync_finished d1"
      unfolding working_def by blast
    have dr: "drop ?k acc = drop (fd_batch_count fd) (id_fly_batch d)" by (simp add: fly add.commute)
    have "j \<le> length acc" using inv unfolding id_inv_def by blast
    then have k: "?k \<le> length acc" using le by (simp add: fly)
    have "\<forall>b \<in> set (drop ?k acc). nonempty b" using ne(1) unfolding dr by (meson in_set_dropD)
    from rest_from_facts(5) [OF k this] have fly': "id_fly_batch d' = drop (fd_batch_count fd) (id_fly_batch d)"
      using d'(3) dr by (simp add: id_inv_def)
    have n0: "dumped_batch_count d' = 0" by (simp add: dumped_batch_count_def d'(2))
    have "length (id_fly_batch d') - dumped_batch_count d' < length (id_fly_batch d) - ?n" if "id_fly_batch d' \<noteq> []"
    proof -
      have "fd_batch_count fd < length (id_fly_batch d)" using that by (simp add: fly')
      then have "?n < length (id_fly_batch d)" using d1(6) c by (cases "?n < length (id_fly_batch d)") auto
      then show ?thesis using n by (simp add: fly' n0 c)
    qed
    moreover have "\<forall>b \<in> set (id_fly_batch d'). nonempty b" using ne(1) unfolding fly' by (meson in_set_dropD)
    moreover have "dump_round en ch d = (Inr (), d')" using True run d'(1) by simp
    ultimately show ?thesis using d'(2-4) d1(4) sync n0 by (metis length_greater_0_conv)
  next
    case False
    then have "dumped_batch_count d1 \<noteq> length (id_fly_batch d)"
      using fd sync d1(3,4) by (auto simp: need_finish_dumper_def is_batch_finished_def)
    then have "dumped_batch_count d1 < length (id_fly_batch d)" using le c by simp
    moreover from this have "?n < length (id_fly_batch d)"
      using d1(6) by (cases "?n < length (id_fly_batch d)") auto
    ultimately show ?thesis using False run d1(2-4) sync ne(1) n by auto
  qed
qed


lemma enter_run:
  assumes inv: "id_inv en F0 acc F j d" and ok: "dumped_dir_ok (ide_ids en)" "store_faithful (ide_ids en)"
    and ne: "\<forall>b \<in> set (id_fly_batch d). nonempty b"
  shows "\<exists>d' F' j'. routine_step en ch (False, d) = (Inr (), True, d') \<and> id_inv en F0 acc F' j' d' \<and>
    id_sync_finished d' = id_sync_finished d \<and> id_fly_batch d' = id_fly_batch d"
proof (cases "id_state_stale d")
  case True
  let ?d = "(reset_example_id_dumper ((noted en d)\<lparr>id_fly_batch := id_fly_batch d\<rparr>))\<lparr>id_state_stale := True\<rparr>"
  have fly: "id_fly_batch d = drop j acc" "j \<le> length acc" using inv unfolding id_inv_def by blast+
  have "rest_from j acc = j" using rest_from_facts(5) [OF fly(2)] ne fly(1) by simp
  with id_inv_evict_reset [OF inv] have
    "evict_dumped_example_id_batch en d = (Inr (), (noted en d)\<lparr>id_fly_batch := id_fly_batch d\<rparr>)"
    "id_inv en F0 acc F j (reset_example_id_dumper ((noted en d)\<lparr>id_fly_batch := id_fly_batch d\<rparr>))"
    unfolding fly(1) by auto
  then have "routine_step en ch (False, d) = (Inr (), True, ?d)" "id_inv en F0 acc F j ?d"
    using True by (simp_all add: routine_step_def sync_with_example_id_manager_def sx_bind_def sx_get_def sx_modify_def)
  then show ?thesis by (intro exI [of _ ?d]) (auto simp: reset_example_id_dumper_def)
next
  case False
  then show ?thesis using inv
    by (auto simp: routine_step_def sync_with_example_id_manager_def sx_return_def sx_get_def)
qed


text \<open>The rounds that are left to do; none when the queue is empty.\<close>

definition todo :: "'v id_dumper \<Rightarrow> nat" where
  "todo d = (if id_fly_batch d = [] then 0 else max 1 (length (id_fly_batch d) - dumped_batch_count d))"

lemma drain_inside:
  assumes ok: "dumped_dir_ok (ide_ids en)" "store_faithful (ide_ids en)"
  shows "id_inv en F0 acc F j d \<Longrightarrow> id_sync_finished d \<Longrightarrow> \<forall>b \<in> set (id_fly_batch d). nonempty b \<Longrightarrow>
    todo d < length chs \<Longrightarrow> \<forall>ch \<in> set chs. working ch \<Longrightarrow>
    \<exists>n \<le> length chs. \<exists>d'. id_run en (map Routine (take n chs)) (True, d) = (replicate n (Inr Done), False, d') \<and>
      id_fly_batch d' = [] \<and> id_current d' = None"
proof (induction chs arbitrary: d F j)
  case (Cons ch chs)
  note inv = Cons.prems(1) and sync = Cons.prems(2) and ne = Cons.prems(3)
  show ?case
  proof (cases "id_fly_batch d = []")
    case True
    then have "id_current d = None"
      using inv by (cases "id_current d") (auto simp: id_inv_def file_dumper_ok_def)
    then have "\<not> id_need_dump en (ic_at_check ch) d" using True by (simp add: id_need_dump_def need_finish_dumper_def)
    then have "id_run en (map Routine (take 1 (ch # chs))) (True, d) =
        (replicate 1 (Inr Done), False, d\<lparr>id_state_stale := False\<rparr>)"
      by (simp add: routine_step_def)
    then show ?thesis using True \<open>id_current d = None\<close> by (intro exI [of _ 1]) simp
  next
    case False
    then have need: "id_need_dump en (ic_at_check ch) d" by (simp add: id_need_dump_def)
    have w: "working ch" using Cons.prems(5) by simp
    from round_progress [OF inv ok sync ne False w] obtain d1 F1 j1 where d1:
      "dump_round en ch d = (Inr (), d1)" "id_inv en F0 acc F1 j1 d1" "id_sync_finished d1"
      "\<forall>b \<in> set (id_fly_batch d1). nonempty b"
      and less: "id_fly_batch d1 = [] \<and> id_current d1 = None \<or>
        dumped_batch_count d1 < length (id_fly_batch d1) \<and>
        length (id_fly_batch d1) - dumped_batch_count d1 < length (id_fly_batch d) - dumped_batch_count d"
      by metis
    have "todo d1 < todo d" using less False by (auto simp: todo_def)
    then have "todo d1 < length chs" using Cons.prems(4) by simp
    from Cons.IH [OF d1(2-4) this] Cons.prems(5) obtain n d' where n: "n \<le> length chs"
      "id_run en (map Routine (take n chs)) (True, d1) = (replicate n (Inr Done), False, d')"
      "id_fly_batch d' = []" "id_current d' = None"
      by auto
    have "id_run en (map Routine (take (Suc n) (ch # chs))) (True, d) =
        (replicate (Suc n) (Inr Done), False, d')"
      using n(2) d1(1) need by (simp add: routine_step_def)
    then show ?thesis using n by (intro exI [of _ "Suc n"]) simp
  qed
qed simp

text \<open>
  C37. Once the peer has said that it has sent everything, and if no queued batch is empty, the routine
  drains the queue: with a store and a file system that work, at most as many steps as there are
  queued batches, and two, take it in and out again; then every accepted batch is in the files.
\<close>

theorem id_dumper_drains:
  assumes ok: "dumped_dir_ok (ide_ids en)" "store_faithful (ide_ids en)" "ids_stored (ide_ids en) F0 kv files fs"
    and run: "new_id_dumper en kv files fs = Inr d0" "id_run en ops (False, d0) = (rs, inside, d)"
    and sync: "id_sync_finished d" and ne: "\<forall>b \<in> set (id_fly_batch d). nonempty b"
    and chs: "length chs = length (id_fly_batch d) + 2" "\<forall>ch \<in> set chs. working ch"
  shows "\<exists>n \<le> length chs. \<exists>d' F. id_run en (map Routine (take n chs)) (inside, d) = (replicate n (Inr Done), False, d') \<and>
    id_fly_batch d' = [] \<and> prefix F0 F \<and> concat F = concat F0 @ filter nonempty (added ops rs) \<and>
    ids_stored (ide_ids en) F (ei_kv (id_manager d')) (ei_files (id_manager d')) (id_fs d')"
proof -
  from reached [OF ok run] obtain F j where inv: "id_inv en F0 (added ops rs) F j d" by blast
  have t1: "todo d' \<le> length (id_fly_batch d')" for d' :: "'a id_dumper"
    by (cases "id_fly_batch d'") (auto simp: todo_def)
  have "\<exists>n \<le> length chs. \<exists>d'. id_run en (map Routine (take n chs)) (inside, d) = (replicate n (Inr Done), False, d') \<and>
      id_fly_batch d' = []"
  proof (cases inside)
    case True
    then show ?thesis using drain_inside [OF ok(1,2) inv sync ne _ chs(2)] t1 [of d] chs(1) by fastforce
  next
    case False
    then obtain ch chs' where c: "chs = ch # chs'" using chs(1) by (cases chs) simp_all
    from enter_run [OF inv ok(1,2) ne, of ch] obtain d1 F1 j1 where d1:
      "routine_step en ch (False, d) = (Inr (), True, d1)" "id_inv en F0 (added ops rs) F1 j1 d1"
      "id_sync_finished d1 = id_sync_finished d" "id_fly_batch d1 = id_fly_batch d"
      by blast
    have "todo d1 < length chs'" using t1 [of d1] chs(1) c d1(4) by simp
    from drain_inside [OF ok(1,2) d1(2) _ _ this] d1(3,4) sync ne chs(2) c obtain n d' where
      "n \<le> length chs'" "id_run en (map Routine (take n chs')) (True, d1) = (replicate n (Inr Done), False, d')"
      "id_fly_batch d' = []"
      by auto
    then show ?thesis using False c d1(1) by (intro exI [of _ "Suc n"]) auto
  qed
  then obtain n d' where n: "n \<le> length chs"
    "id_run en (map Routine (take n chs)) (inside, d) = (replicate n (Inr Done), False, d')" "id_fly_batch d' = []"
    by blast
  have none: "added (map Routine xs) ys = []" for xs ys
  proof (induction xs arbitrary: ys)
    case (Cons x xs)
    then show ?case by (cases ys) simp_all
  qed simp
  from id_run_inv [OF ok(1,2) inv n(2)] none obtain F' j' where inv': "id_inv en F0 (added ops rs) F' j' d'" by auto
  then have "drop j' (added ops rs) = []" using n(3) by (simp add: id_inv_def)
  then have "take j' (added ops rs) = added ops rs" by simp
  then have "prefix F0 F'" "concat F' = concat F0 @ filter nonempty (added ops rs)"
    "ids_stored (ide_ids en) F' (ei_kv (id_manager d')) (ei_files (id_manager d')) (id_fs d')"
    using inv' unfolding id_inv_def ids_stored_iff by auto
  then show ?thesis using n by blast
qed


section \<open>An empty batch\<close>

definition file_full :: "'v id_dumper_env \<Rightarrow> nat \<Rightarrow> bool" where
  "file_full en n \<longleftrightarrow> 0 < ide_dump_threshold en \<and> ide_dump_threshold en < int n"

lemma empty_round:
  assumes inv: "id_inv en F0 acc F j d"
    and b: "dumped_batch_count d < length (id_fly_batch d)" "\<not> nonempty (id_fly_batch d ! dumped_batch_count d)"
    and full: "\<not> file_full en (nums (take (dumped_batch_count d) (id_fly_batch d)))"
  shows "\<exists>d' fd. dump_one_example_id_batch en uid d = (Inr (), d') \<and> id_inv en F0 acc F j d' \<and>
    id_fly_batch d' = id_fly_batch d \<and> dumped_batch_count d' = dumped_batch_count d \<and>
    id_current d' = Some fd \<and> fd_written fd = take (dumped_batch_count d) (id_fly_batch d) \<and>
    need_finish_dumper en (is_batch_finished d') t d' =
      (0 < ide_dump_interval en \<and> ide_dump_interval en \<le> t)"
proof -
  obtain d' where d': "dump_one_example_id_batch en uid d = (Inr (), d')" "id_inv en F0 acc F j d'"
      "id_fly_batch d' = id_fly_batch d" "id_current d' \<noteq> None"
      "dumped_batch_count d' = dumped_batch_count d"
    using dump_one_run [OF inv, of uid] b by auto
  then obtain fd where fd: "id_current d' = Some fd" by auto
  then have c: "fd_batch_count fd = dumped_batch_count d" using d'(5) by (simp add: dumped_batch_count_def [of d'])
  have fly: "id_fly_batch d = drop j acc" using inv by (simp add: id_inv_def)
  have fok: "file_dumper_ok (ide_ids en) F (drop j acc) fd" using d'(2) fd by (simp add: id_inv_def)
  have w: "fd_written fd = take (dumped_batch_count d) (id_fly_batch d)"
    using fok by (simp add: file_dumper_ok_def c fly)
  have "\<not> check_dumper_full (ide_dump_threshold en) fd"
    using fok full by (auto simp: file_dumper_ok_def check_dumper_full_def file_full_def c fly)
  moreover have "\<not> is_batch_finished d'" using b(1) d'(3,5) by (simp add: is_batch_finished_def)
  ultimately show ?thesis using d' fd w by (simp add: need_finish_dumper_def)
qed

text \<open>
  C38. The routine skips a batch that holds no id, and does not count it as dumped: unless the file is
  due for another reason it finds the same batch again in the next round. With no dump interval (the
  default of the worker), however many rounds it runs it neither leaves its loop nor shortens its
  queue, whether or not the peer has finished.
\<close>

theorem empty_batch_stops_dumper:
  assumes ok: "dumped_dir_ok (ide_ids en)" "store_faithful (ide_ids en)" "ids_stored (ide_ids en) F0 kv files fs"
    and run: "new_id_dumper en kv files fs = Inr d0" "id_run en ops (False, d0) = (rs, True, d)"
    and b: "dumped_batch_count d < length (id_fly_batch d)"
      "pk_example_id_num (id_fly_batch d ! dumped_batch_count d) = 0"
    and off: "ide_dump_interval en \<le> 0"
      "\<not> file_full en (nums (take (dumped_batch_count d) (id_fly_batch d)))"
  shows "\<exists>d'. id_run en (map Routine chs) (True, d) = (replicate (length chs) (Inr Done), True, d') \<and>
    id_fly_batch d' = id_fly_batch d \<and> dumped_batch_count d' = dumped_batch_count d"
proof -
  have "id_inv en F0 acc F j d1 \<Longrightarrow> dumped_batch_count d1 < length (id_fly_batch d1) \<Longrightarrow>
      \<not> nonempty (id_fly_batch d1 ! dumped_batch_count d1) \<Longrightarrow>
      \<not> file_full en (nums (take (dumped_batch_count d1) (id_fly_batch d1))) \<Longrightarrow>
      \<exists>d'. id_run en (map Routine chs) (True, d1) = (replicate (length chs) (Inr Done), True, d') \<and>
        id_fly_batch d' = id_fly_batch d1 \<and> dumped_batch_count d' = dumped_batch_count d1" for acc F j d1
  proof (induction chs arbitrary: d1)
    case (Cons ch chs)
    from empty_round [OF Cons.prems, of "ic_uid ch" "ic_at_finish ch"] obtain d2 where d2:
      "dump_one_example_id_batch en (ic_uid ch) d1 = (Inr (), d2)" "id_inv en F0 acc F j d2"
      "id_fly_batch d2 = id_fly_batch d1" "dumped_batch_count d2 = dumped_batch_count d1"
      "\<not> need_finish_dumper en (is_batch_finished d2) (ic_at_finish ch) d2"
      using off(1) by auto
    have "id_need_dump en (ic_at_check ch) d1" using Cons.prems(2) by (auto simp: id_need_dump_def)
    moreover have "dump_round en ch d1 = (Inr (), d2)"
      by (simp add: dump_round_def sx_bind_def d2(1,5) sx_get_def sx_return_def)
    ultimately have "routine_step en ch (True, d1) = (Inr (), True, d2)" by (simp add: routine_step_def)
    then show ?case using Cons.IH [OF d2(2)] Cons.prems(2-4) d2(3,4) by auto
  qed simp
  moreover from reached [OF ok run] obtain F j where "id_inv en F0 (added ops rs) F j d" by blast
  ultimately show ?thesis using b off(2) by auto
qed

text \<open>
  When a dump interval is set and has passed, the file without a batch is finished, which its own
  assertion refuses: a file that holds nothing ends one before its start.
\<close>

lemma empty_file_asserts:
  assumes ok: "dumped_dir_ok (ide_ids en)" "store_faithful (ide_ids en)" "ids_stored (ide_ids en) F0 kv files fs"
    and run: "new_id_dumper en kv files fs = Inr d0" "id_run en ops (False, d0) = (rs, True, d)"
    and b: "dumped_batch_count d = 0" "id_fly_batch d \<noteq> []" "pk_example_id_num (hd (id_fly_batch d)) = 0"
    and due: "0 < ide_dump_interval en" "ide_dump_interval en \<le> ic_at_finish ch"
  shows "\<exists>d'. routine_step en ch (True, d) = (Inl AssertionError, False, d')"
proof -
  from reached [OF ok run] obtain F j where inv: "id_inv en F0 (added ops rs) F j d" by blast
  have "\<not> file_full en (nums (take (dumped_batch_count d) (id_fly_batch d)))"
    using b(1) by (simp add: file_full_def)
  from empty_round [OF inv _ _ this, of "ic_uid ch" "ic_at_finish ch"] b obtain d1 fd where d1:
    "dump_one_example_id_batch en (ic_uid ch) d = (Inr (), d1)" "id_inv en F0 (added ops rs) F j d1"
    "id_current d1 = Some fd" "fd_written fd = []"
    "need_finish_dumper en (is_batch_finished d1) (ic_at_finish ch) d1"
    using due by (auto simp: hd_conv_nth)
  from finish_fails [OF d1(2) ok(1,2) d1(3), of ch] d1(4) obtain d2 where
    "finish_example_id_dumper en ch d1 = (Inl AssertionError, d2)"
    by auto
  then have "dump_round en ch d = (Inl AssertionError, d2)"
    by (simp add: dump_round_def sx_bind_def d1(1,5) sx_get_def)
  moreover have "id_need_dump en (ic_at_check ch) d" using b(2) by (simp add: id_need_dump_def)
  ultimately show ?thesis by (simp add: routine_step_def)
qed


section \<open>Witnesses\<close>

definition sid_env :: "anchor id_dumper_env" where
  "sid_env = \<lparr>ide_ids = wd_env, ide_dump_interval = -1, ide_dump_threshold = 4096\<rparr>"

definition sid_batch :: "int \<Rightarrow> nat \<Rightarrow> packed_lite_example_ids" where
  "sid_batch i n = \<lparr>pk_partition_id = 0, pk_begin_index = i, pk_example_id_num = n, pk_features = []\<rparr>"

definition sid_choice :: "bool \<Rightarrow> id_choice" where
  "sid_choice stored = \<lparr>ic_uid = ''u'', ic_rename = Renamed, ic_stored = stored, ic_at_check = 0, ic_at_finish = 0\<rparr>"

text \<open>The second batch does not continue the first; the anchor of the first file is not stored.\<close>

definition sid_ops :: "id_op list" where
  "sid_ops = [Add_batch (sid_batch 0 2), Add_batch (sid_batch 5 1), Add_batch (sid_batch 2 1),
     Routine (sid_choice True), Routine (sid_choice True), Finish_sync, Routine (sid_choice False)]"

lemma sid_facts:
  "dumped_dir_ok (ide_ids sid_env)" "store_faithful (ide_ids sid_env)" "ids_stored (ide_ids sid_env) [] [] [] (\<lambda>_. None)"
  by (simp_all add: dumped_dir_ok_def store_faithful_def ids_stored_def anchor_of_def sid_env_def wd_env_def)

lemma sid_run:
  "\<exists>d0 rs d. new_id_dumper sid_env [] [] (\<lambda>_. None) = Inr d0 \<and> id_run sid_env sid_ops (False, d0) = (rs, False, d) \<and>
     added sid_ops rs = [sid_batch 0 2, sid_batch 2 1] \<and> id_fly_batch d = [sid_batch 0 2, sid_batch 2 1] \<and>
     id_sync_finished d \<and> last rs = Inl RuntimeError"
proof -
  have "case new_id_dumper sid_env [] [] (\<lambda>_. None) of Inl _ \<Rightarrow> False
    | Inr d0 \<Rightarrow> (case id_run sid_env sid_ops (False, d0) of (rs, i, d) \<Rightarrow> \<not> i \<and>
        added sid_ops rs = [sid_batch 0 2, sid_batch 2 1] \<and> id_fly_batch d = [sid_batch 0 2, sid_batch 2 1] \<and>
        id_sync_finished d \<and> last rs = Inl RuntimeError)"
    by code_simp
  then show ?thesis by (auto split: sum.splits prod.splits)
qed

theorem id_dumper_keeps_sequence_witness:
  "\<exists>d0 rs d F. new_id_dumper sid_env [] [] (\<lambda>_. None) = Inr d0 \<and>
     id_run sid_env sid_ops (False, d0) = (rs, False, d) \<and>
     ids_stored wd_env F (ei_kv (id_manager d)) (ei_files (id_manager d)) (id_fs d) \<and> concat F = []"
proof -
  obtain d0 rs d where d: "new_id_dumper sid_env [] [] (\<lambda>_. None) = Inr d0"
      "id_run sid_env sid_ops (False, d0) = (rs, False, d)"
      "added sid_ops rs = [sid_batch 0 2, sid_batch 2 1]" "id_fly_batch d = [sid_batch 0 2, sid_batch 2 1]"
    using sid_run by blast
  from id_dumper_keeps_sequence [OF sid_facts d(1,2)] obtain F j where F:
    "concat F = filter nonempty (take j (added sid_ops rs))" "id_fly_batch d = drop j (added sid_ops rs)"
    "ids_stored wd_env F (ei_kv (id_manager d)) (ei_files (id_manager d)) (id_fs d)"
    by (auto simp: sid_env_def)
  have "j = 0"
  proof (rule ccontr)
    assume "j \<noteq> 0"
    then have "length (id_fly_batch d) < 2" by (simp add: F(2) d(3))
    then show False by (simp add: d(4))
  qed
  then show ?thesis using d F by auto
qed

theorem id_dumper_drains_witness:
  "\<exists>d0 rs d n d' F. new_id_dumper sid_env [] [] (\<lambda>_. None) = Inr d0 \<and>
     id_run sid_env sid_ops (False, d0) = (rs, False, d) \<and>
     id_run sid_env (map Routine (replicate n (sid_choice True))) (False, d) = (replicate n (Inr Done), False, d') \<and>
     ids_stored wd_env F (ei_kv (id_manager d')) (ei_files (id_manager d')) (id_fs d') \<and>
     concat F = [sid_batch 0 2, sid_batch 2 1]"
proof -
  obtain d0 rs d where d: "new_id_dumper sid_env [] [] (\<lambda>_. None) = Inr d0"
      "id_run sid_env sid_ops (False, d0) = (rs, False, d)"
      "added sid_ops rs = [sid_batch 0 2, sid_batch 2 1]" "id_fly_batch d = [sid_batch 0 2, sid_batch 2 1]"
      "id_sync_finished d"
    using sid_run by blast
  have ne: "\<forall>b \<in> set (id_fly_batch d). nonempty b" by (simp add: d(4) sid_batch_def)
  have len: "length (replicate 4 (sid_choice True)) = length (id_fly_batch d) + 2" by (simp add: d(4))
  have w: "\<forall>ch \<in> set (replicate 4 (sid_choice True)). working ch" by (simp add: working_def sid_choice_def)
  from id_dumper_drains [OF sid_facts d(1,2,5) ne len w] obtain n d' F where
    "id_run sid_env (map Routine (take n (replicate 4 (sid_choice True)))) (False, d) =
       (replicate n (Inr Done), False, d')"
    "ids_stored wd_env F (ei_kv (id_manager d')) (ei_files (id_manager d')) (id_fs d')" "n \<le> 4"
    "concat F = filter nonempty (added sid_ops rs)"
    by (auto simp: sid_env_def)
  moreover from this(3) have "take n (replicate 4 (sid_choice True)) = replicate n (sid_choice True)" by simp
  moreover have "filter nonempty (added sid_ops rs) = [sid_batch 0 2, sid_batch 2 1]"
    by (simp add: d(3)) (simp add: sid_batch_def)
  ultimately show ?thesis using d(1,2) by metis
qed

definition empty_ops :: "id_op list" where
  "empty_ops = [Add_batch (sid_batch 0 0), Add_batch (sid_batch 0 3), Finish_sync, Routine (sid_choice True)]"

theorem empty_batch_stops_dumper_witness:
  "\<exists>d0 rs d d'. new_id_dumper sid_env [] [] (\<lambda>_. None) = Inr d0 \<and>
     id_run sid_env empty_ops (False, d0) = (rs, True, d) \<and>
     id_run sid_env (replicate 1000 (Routine (sid_choice True))) (True, d) = (replicate 1000 (Inr Done), True, d') \<and>
     id_fly_batch d' = [sid_batch 0 0, sid_batch 0 3]"
proof -
  have "case new_id_dumper sid_env [] [] (\<lambda>_. None) of Inl _ \<Rightarrow> False
    | Inr d0 \<Rightarrow> (case id_run sid_env empty_ops (False, d0) of (rs, i, d) \<Rightarrow> i \<and>
        id_fly_batch d = [sid_batch 0 0, sid_batch 0 3] \<and> dumped_batch_count d = 0)"
    by code_simp
  then obtain d0 rs d where d: "new_id_dumper sid_env [] [] (\<lambda>_. None) = Inr d0"
      "id_run sid_env empty_ops (False, d0) = (rs, True, d)"
      "id_fly_batch d = [sid_batch 0 0, sid_batch 0 3]" "dumped_batch_count d = 0"
    by (auto split: sum.splits prod.splits)
  from empty_batch_stops_dumper [OF sid_facts d(1,2), of "replicate 1000 (sid_choice True)"] d(3,4)
  obtain d' where "id_run sid_env (map Routine (replicate 1000 (sid_choice True))) (True, d) =
      (replicate 1000 (Inr Done), True, d')" "id_fly_batch d' = [sid_batch 0 0, sid_batch 0 3]"
    by (auto simp: sid_env_def file_full_def sid_batch_def)
  then show ?thesis using d(1,2) by auto
qed

end
