(* ===== verification/Joiner_Stats.thy ===== *)
theory Joiner_Stats
  imports Complex_Main "HOL-Library.Multiset" Prelude
begin

text \<open>
  The estimate of how many examples are joined (\<open>data_join/joiner_impl/joiner_stats.py\<close>).

  Both parties' example ids are sampled by a hash; each side keeps the last sampled hashes in a
  ring buffer, \<open>_SlideCache\<close>, with a count of each. An id that leaves one window is credited
  when the other window holds it. The hash function (\<open>CityHash64\<close> of the id behind a random
  prefix) and the size of the windows are arguments.
\<close>

section \<open>The code\<close>

record slide_cache =
  sc_buffer :: "nat list"
  sc_cache :: "nat \<Rightarrow> nat option"
  sc_stats_index :: int
  sc_windows_size :: nat
  sc_begin_index :: nat
  sc_item_cnt :: nat

definition new_slide_cache :: "int \<Rightarrow> nat \<Rightarrow> slide_cache" where
  "new_slide_cache stats_index stats_windows_size =
     \<lparr>sc_buffer = replicate stats_windows_size 0, sc_cache = (\<lambda>_. None), sc_stats_index = stats_index,
      sc_windows_size = stats_windows_size, sc_begin_index = 0, sc_item_cnt = 0\<rparr>"

definition inner_index :: "slide_cache \<Rightarrow> nat \<Rightarrow> nat" where
  "inner_index sc i = (i + sc_begin_index sc) mod sc_windows_size sc"

definition sc_item :: "slide_cache \<Rightarrow> nat \<Rightarrow> nat" where
  "sc_item sc hid = (case sc_cache sc hid of None \<Rightarrow> 0 | Some n \<Rightarrow> n)"

definition sc_iter :: "slide_cache \<Rightarrow> nat list" where
  "sc_iter sc = map (\<lambda>i. sc_buffer sc ! inner_index sc i) [0..<sc_item_cnt sc]"

text \<open>The two loops of \<open>fill_hash_ids\<close>; \<open>k\<close> is \<open>_item_cnt + idx\<close>.\<close>

fun slide_fill_loop :: "nat \<Rightarrow> nat list \<Rightarrow> slide_cache \<Rightarrow> slide_cache" where
  "slide_fill_loop k [] sc = sc"
| "slide_fill_loop k (hid # hids) sc =
     slide_fill_loop (Suc k) hids
       (sc\<lparr>sc_buffer := (sc_buffer sc)[inner_index sc k := hid],
           sc_cache := (sc_cache sc)(hid \<mapsto> (case sc_cache sc hid of None \<Rightarrow> 1 | Some n \<Rightarrow> n + 1))\<rparr>)"

fun slide_evict_loop :: "nat list \<Rightarrow> (nat \<Rightarrow> nat option) \<Rightarrow> nat \<Rightarrow> nat option" where
  "slide_evict_loop [] cache = cache"
| "slide_evict_loop (hid # hids) cache =
     slide_evict_loop hids
       (case cache hid of
          None \<Rightarrow> cache
        | Some n \<Rightarrow> if 0 < n then if n - 1 = 0 then cache(hid := None) else cache(hid \<mapsto> n - 1) else cache)"

definition fill_hash_ids :: "int \<Rightarrow> nat list \<Rightarrow> slide_cache \<Rightarrow> nat list \<times> slide_cache" where
  "fill_hash_ids stats_index hids sc =
     (let evict_cnt = (if sc_windows_size sc < length hids + sc_item_cnt sc
                       then length hids + sc_item_cnt sc - sc_windows_size sc else 0);
          evict_hids = map (\<lambda>i. sc_buffer sc ! inner_index sc i) [0..<evict_cnt];
          sc1 = slide_fill_loop (sc_item_cnt sc) hids sc
      in (evict_hids,
          sc1\<lparr>sc_stats_index := max stats_index (sc_stats_index sc),
              sc_cache := slide_evict_loop evict_hids (sc_cache sc1),
              sc_item_cnt := (if 0 < evict_cnt then sc_windows_size sc else sc_item_cnt sc + length hids),
              sc_begin_index := (sc_begin_index sc + evict_cnt) mod sc_windows_size sc\<rparr>))"

record joiner_stats =
  js_stats_cum_join_num :: int
  js_leader_cache :: slide_cache
  js_follower_cache :: slide_cache

definition new_joiner_stats :: "int \<Rightarrow> int \<Rightarrow> int \<Rightarrow> nat \<Rightarrow> joiner_stats" where
  "new_joiner_stats stats_cum_join_num leader_join_index follower_join_index max_stats_windows_size =
     \<lparr>js_stats_cum_join_num = stats_cum_join_num,
      js_leader_cache = new_slide_cache leader_join_index max_stats_windows_size,
      js_follower_cache = new_slide_cache follower_join_index max_stats_windows_size\<rparr>"

abbreviation sample_rate_reciprocal :: nat where "sample_rate_reciprocal \<equiv> 32"

text \<open>\<open>_fill_example_ids\<close>: what is sampled of the ids that are new, and the last of their indices.\<close>

definition sampled_hids :: "(string \<Rightarrow> nat) \<Rightarrow> int \<Rightarrow> (int \<times> string) list \<Rightarrow> nat list" where
  "sampled_hids hash seen eids =
     filter (\<lambda>hid. hid mod sample_rate_reciprocal = 0)
       (map (\<lambda>(idx, eid). hash eid) (filter (\<lambda>(idx, eid). seen < idx) eids))"

definition last_index :: "int \<Rightarrow> (int \<times> string) list \<Rightarrow> int" where
  "last_index seen eids = fold (\<lambda>(idx, eid) mx. if idx \<le> seen then mx else idx) eids (- 1)"

definition fill_example_ids ::
    "(string \<Rightarrow> nat) \<Rightarrow> (int \<times> string) list \<Rightarrow> slide_cache \<Rightarrow> nat list \<times> slide_cache" where
  "fill_example_ids hash eids sc =
     (let max_idx = last_index (sc_stats_index sc) eids
      in if 0 \<le> max_idx then fill_hash_ids max_idx (sampled_hids hash (sc_stats_index sc) eids) sc
         else ([], sc))"

definition fill_leader_example_ids ::
    "(string \<Rightarrow> nat) \<Rightarrow> (int \<times> string) list \<Rightarrow> joiner_stats \<Rightarrow> joiner_stats" where
  "fill_leader_example_ids hash eids js =
     (case fill_example_ids hash eids (js_leader_cache js) of
        (evict_hids, sc) \<Rightarrow> js\<lparr>js_leader_cache := sc,
          js_stats_cum_join_num := js_stats_cum_join_num js +
            int (length (filter (\<lambda>hid. 0 < sc_item (js_follower_cache js) hid) evict_hids))\<rparr>)"

definition fill_follower_example_ids ::
    "(string \<Rightarrow> nat) \<Rightarrow> (int \<times> string) list \<Rightarrow> joiner_stats \<Rightarrow> joiner_stats" where
  "fill_follower_example_ids hash eids js =
     (case fill_example_ids hash eids (js_follower_cache js) of
        (evict_hids, sc) \<Rightarrow> js\<lparr>js_follower_cache := sc,
          js_stats_cum_join_num := js_stats_cum_join_num js +
            int (sum_list (map (sc_item (js_leader_cache js)) evict_hids))\<rparr>)"

definition calc_stats_joined_num :: "joiner_stats \<Rightarrow> int" where
  "calc_stats_joined_num js =
     js_stats_cum_join_num js +
     int (length (filter (\<lambda>hid. 0 < sc_item (js_follower_cache js) hid) (sc_iter (js_leader_cache js))) *
          sample_rate_reciprocal)"

section \<open>The window\<close>

text \<open>
  The ring buffer is sound when its indices are in range and its counts are those of what the
  iterator yields.
\<close>

definition counts :: "nat list \<Rightarrow> nat \<Rightarrow> nat option" where
  "counts xs hid = (if hid \<in> set xs then Some (count_list xs hid) else None)"

definition cache_sound :: "slide_cache \<Rightarrow> bool" where
  "cache_sound sc \<longleftrightarrow>
     length (sc_buffer sc) = sc_windows_size sc \<and> 0 < sc_windows_size sc \<and>
     sc_begin_index sc < sc_windows_size sc \<and> sc_item_cnt sc \<le> sc_windows_size sc \<and>
     sc_cache sc = counts (sc_iter sc)"

lemma sc_iter_length [simp]: "length (sc_iter sc) = sc_item_cnt sc"
  by (simp add: sc_iter_def)

lemma sc_iter_nth: "i < sc_item_cnt sc \<Longrightarrow> sc_iter sc ! i = sc_buffer sc ! inner_index sc i"
  by (simp add: sc_iter_def)

lemma new_sound: "0 < w \<Longrightarrow> cache_sound (new_slide_cache i w) \<and> sc_iter (new_slide_cache i w) = []"
  by (simp add: cache_sound_def new_slide_cache_def sc_iter_def counts_def fun_eq_iff)

lemma counts_Cons:
  "counts (xs @ [x]) = (counts xs)(x \<mapsto> (case counts xs x of None \<Rightarrow> 1 | Some n \<Rightarrow> n + 1))"
  by (auto simp: counts_def fun_eq_iff count_list_0_iff)

lemma count_pos: "x \<in> set xs \<Longrightarrow> 0 < count_list xs x"
  by (simp add: count_list_0_iff flip: neq0_conv)

lemma evict_counts: "slide_evict_loop ys (counts (ys @ xs)) = counts xs"
proof (induction ys)
  case (Cons y ys)
  have c: "counts ((y # ys) @ xs) y = Some (Suc (count_list (ys @ xs) y))" by (simp add: counts_def)
  have "(if count_list (ys @ xs) y = 0 then (counts ((y # ys) @ xs))(y := None)
      else (counts ((y # ys) @ xs))(y \<mapsto> count_list (ys @ xs) y)) = counts (ys @ xs)"
    by (auto simp: counts_def fun_eq_iff count_list_0_iff)
  then show ?case using Cons.IH c by (auto simp del: count_list_append split: if_splits)
qed simp

lemma slide_fill_loop_frame:
  "sc_windows_size (slide_fill_loop k hids sc) = sc_windows_size sc"
  "sc_begin_index (slide_fill_loop k hids sc) = sc_begin_index sc"
  "sc_item_cnt (slide_fill_loop k hids sc) = sc_item_cnt sc"
  "sc_stats_index (slide_fill_loop k hids sc) = sc_stats_index sc"
  "length (sc_buffer (slide_fill_loop k hids sc)) = length (sc_buffer sc)"
  by (induction k hids sc rule: slide_fill_loop.induct) (simp_all add: inner_index_def)

lemma slide_fill_loop_cache:
  "sc_cache sc = counts xs \<Longrightarrow> sc_cache (slide_fill_loop k hids sc) = counts (xs @ hids)"
proof (induction k hids sc arbitrary: xs rule: slide_fill_loop.induct)
  case (2 k hid hids sc)
  then show ?case using "2.IH" [of "xs @ [hid]"] by (simp add: counts_Cons)
qed simp

text \<open>Two places less than a window apart are different slots.\<close>

lemma slots_differ:
  assumes "i < j" "j < i + w" shows "(i + b) mod w \<noteq> (j + b) mod (w::nat)"
proof
  assume "(i + b) mod w = (j + b) mod w"
  moreover have "i + b \<le> j + b" using assms(1) by simp
  ultimately have "w dvd (j + b) - (i + b)" using mod_eq_dvd_iff_nat [of "i + b" "j + b" w] by metis
  then have "w dvd j - i" by simp
  then show False using assms by (auto dest!: dvd_imp_le)
qed

lemma slide_fill_loop_buffer:
  assumes "length (sc_buffer sc) = sc_windows_size sc" "0 < sc_windows_size sc"
  shows "length hids \<le> sc_windows_size sc \<Longrightarrow> i < k + length hids \<Longrightarrow> k + length hids \<le> i + sc_windows_size sc \<Longrightarrow>
    sc_buffer (slide_fill_loop k hids sc) ! inner_index sc i =
      (if i < k then sc_buffer sc ! inner_index sc i else hids ! (i - k))"
  using assms
proof (induction k hids sc rule: slide_fill_loop.induct)
  case (2 k hid hids sc)
  let ?sc = "sc\<lparr>sc_buffer := (sc_buffer sc)[inner_index sc k := hid],
           sc_cache := (sc_cache sc)(hid \<mapsto> (case sc_cache sc hid of None \<Rightarrow> 1 | Some n \<Rightarrow> n + 1))\<rparr>"
  have ix: "inner_index ?sc = inner_index sc" by (simp add: inner_index_def fun_eq_iff)
  have lt: "inner_index sc k < length (sc_buffer sc)" using "2.prems" by (simp add: inner_index_def)
  show ?case
  proof (cases "i < Suc k + length hids")
    case True
    have "sc_buffer (slide_fill_loop k (hid # hids) sc) ! inner_index sc i =
        (if i < Suc k then (sc_buffer sc)[inner_index sc k := hid] ! inner_index sc i else hids ! (i - Suc k))"
      using "2.IH" "2.prems" True by (simp add: ix)
    moreover have "inner_index sc i \<noteq> inner_index sc k" if "i < k"
      using slots_differ [OF that, of "sc_windows_size sc" "sc_begin_index sc"] "2.prems" that
      by (simp add: inner_index_def)
    ultimately show ?thesis using lt by (auto simp: nth_Cons' less_Suc_eq)
  qed (use "2.prems" in simp)
qed simp

text \<open>
  Filling hashes into a sound cache, at most a window of them, slides the window: what leaves it and
  what is left are together what was there and what came.
\<close>

lemma fill_hash_ids_slides:
  assumes "cache_sound sc" "length hids \<le> sc_windows_size sc" "fill_hash_ids i hids sc = (ev, sc')"
  shows "cache_sound sc' \<and> sc_windows_size sc' = sc_windows_size sc \<and>
    sc_iter sc @ hids = ev @ sc_iter sc' \<and>
    length (sc_iter sc') = min (sc_windows_size sc) (length (sc_iter sc) + length hids) \<and>
    sc_stats_index sc' = max i (sc_stats_index sc)"
proof -
  let ?w = "sc_windows_size sc" and ?n = "sc_item_cnt sc" and ?b = "sc_begin_index sc"
  define e where "e = (if ?w < length hids + ?n then length hids + ?n - ?w else 0)"
  let ?sc1 = "slide_fill_loop ?n hids sc"
  have s: "length (sc_buffer sc) = ?w" "0 < ?w" "?b < ?w" "?n \<le> ?w" "sc_cache sc = counts (sc_iter sc)"
    using assms(1) by (simp_all add: cache_sound_def)
  have e: "e \<le> ?n" "?n + length hids - e \<le> ?w" "e \<le> length hids" "?n + length hids - e = min ?w (?n + length hids)"
    "(if 0 < e then ?w else ?n + length hids) = ?n + length hids - e"
    using assms(2) s(4) by (auto simp: e_def)
  have run: "(ev, sc') = (map (\<lambda>i. sc_buffer sc ! inner_index sc i) [0..<e],
      ?sc1\<lparr>sc_stats_index := max i (sc_stats_index sc), sc_cache := slide_evict_loop ev (sc_cache ?sc1),
        sc_item_cnt := (if 0 < e then ?w else ?n + length hids), sc_begin_index := (?b + e) mod ?w\<rparr>)"
    using assms(3) unfolding fill_hash_ids_def Let_def e_def by auto
  have ev: "ev = take e (sc_iter sc)"
    using run e(1) by (simp add: sc_iter_def take_map)
  have sc': "sc' = ?sc1\<lparr>sc_stats_index := max i (sc_stats_index sc),
      sc_cache := slide_evict_loop ev (sc_cache ?sc1), sc_item_cnt := ?n + length hids - e,
      sc_begin_index := (?b + e) mod ?w\<rparr>"
    using run unfolding e(5) by simp
  have cnt: "sc_item_cnt sc' = ?n + length hids - e" by (simp add: sc')
  have buf: "sc_buffer sc' = sc_buffer ?sc1" by (simp add: sc')
  have w': "sc_windows_size sc' = ?w" by (simp add: sc' slide_fill_loop_frame)
  have iter: "sc_iter sc' = drop e (sc_iter sc @ hids)"
  proof (rule nth_equalityI)
    show "length (sc_iter sc') = length (drop e (sc_iter sc @ hids))" using e by (simp add: cnt)
    fix j assume "j < length (sc_iter sc')"
    then have j: "j + e < ?n + length hids" by (simp add: cnt)
    have "inner_index sc' j = inner_index sc (j + e)"
      by (simp add: inner_index_def sc' slide_fill_loop_frame mod_simps ac_simps)
    then have "sc_iter sc' ! j = sc_buffer ?sc1 ! inner_index sc (j + e)"
      using j by (simp add: sc_iter_nth cnt buf)
    also have "\<dots> = (if j + e < ?n then sc_buffer sc ! inner_index sc (j + e) else hids ! (j + e - ?n))"
      using slide_fill_loop_buffer [OF s(1,2) assms(2), of "j + e" ?n] j e(2) by simp
    also have "\<dots> = (sc_iter sc @ hids) ! (e + j)"
      by (simp add: nth_append sc_iter_nth add.commute)
    also have "\<dots> = drop e (sc_iter sc @ hids) ! j"
      using e(1) by (intro nth_drop [symmetric]) simp
    finally show "sc_iter sc' ! j = drop e (sc_iter sc @ hids) ! j" .
  qed
  have split: "sc_iter sc @ hids = ev @ sc_iter sc'"
    using e(1) by (simp add: ev iter)
  moreover have "sc_cache sc' = counts (sc_iter sc')"
  proof -
    have "sc_cache sc' = slide_evict_loop ev (sc_cache ?sc1)" by (simp add: sc')
    also have "sc_cache ?sc1 = counts (ev @ sc_iter sc')"
      using slide_fill_loop_cache [OF s(5), of ?n hids] by (simp only: split)
    finally show ?thesis using evict_counts by simp
  qed
  moreover have "length (sc_buffer sc') = ?w" "sc_begin_index sc' = (?b + e) mod ?w"
    "sc_stats_index sc' = max i (sc_stats_index sc)"
    using s(1) by (simp_all add: sc' slide_fill_loop_frame)
  moreover have "(?b + e) mod ?w < ?w" using s(2) by simp
  ultimately have "cache_sound sc'" using s(2) e(2) w' cnt unfolding cache_sound_def by metis
  moreover have "length (sc_iter sc') = min ?w (length (sc_iter sc) + length hids)"
    by (simp only: sc_iter_length cnt e(4))
  ultimately show ?thesis
    using w' \<open>sc_iter sc @ hids = ev @ sc_iter sc'\<close> \<open>sc_stats_index sc' = _\<close> by (intro conjI)
qed




section \<open>The estimate\<close>

lemma last_index_none:
  "\<forall>x \<in> set eids. fst x \<le> seen \<Longrightarrow> fold (\<lambda>(idx, eid) mx. if idx \<le> (seen :: int) then mx else idx) eids m = m"
  by (induction eids arbitrary: m) auto

lemma last_index_some:
  "\<exists>x \<in> set eids. seen < fst x \<Longrightarrow> \<forall>x \<in> set eids. 0 \<le> fst x \<Longrightarrow>
   0 \<le> fold (\<lambda>(idx, eid) mx. if idx \<le> (seen :: int) then mx else idx) eids m"
proof (induction eids arbitrary: m)
  case (Cons x eids)
  obtain idx eid where x: "x = (idx, eid)" by (cases x)
  show ?case
  proof (cases "\<exists>x \<in> set eids. seen < fst x")
    case True
    then show ?thesis using Cons x by simp
  next
    case False
    then have "\<forall>x \<in> set eids. fst x \<le> seen" by (simp add: not_less)
    then show ?thesis using last_index_none [of eids seen] Cons.prems x False by auto
  qed
qed simp

text \<open>Ids that were counted before are not counted again.\<close>

lemma old_ids_ignored:
  "\<forall>x \<in> set eids. fst x \<le> sc_stats_index sc \<Longrightarrow> fill_example_ids hash eids sc = ([], sc)"
  using last_index_none [of eids "sc_stats_index sc" "- 1"]
  by (simp add: fill_example_ids_def last_index_def)

lemma fill_example_ids_window:
  assumes "cache_sound sc" "\<forall>x \<in> set eids. 0 \<le> fst x"
    and "length (sampled_hids hash (sc_stats_index sc) eids) \<le> sc_windows_size sc"
    and "fill_example_ids hash eids sc = (ev, sc')"
  shows "cache_sound sc' \<and> sc_iter sc @ sampled_hids hash (sc_stats_index sc) eids = ev @ sc_iter sc'"
proof (cases "\<exists>x \<in> set eids. sc_stats_index sc < fst x")
  case True
  then have "0 \<le> last_index (sc_stats_index sc) eids"
    using last_index_some [of eids "sc_stats_index sc" "- 1"] assms(2) by (simp add: last_index_def)
  then show ?thesis using fill_hash_ids_slides [OF assms(1,3)] assms(4) by (simp add: fill_example_ids_def)
next
  case False
  then have all: "\<forall>x \<in> set eids. fst x \<le> sc_stats_index sc" by (simp add: not_less)
  then have "filter (\<lambda>(idx, eid). sc_stats_index sc < idx) eids = []" by (fastforce simp: filter_empty_conv)
  then have "sampled_hids hash (sc_stats_index sc) eids = []" by (simp add: sampled_hids_def)
  then show ?thesis using old_ids_ignored [OF all, of hash] assms(1,4) by auto
qed

definition matched :: "slide_cache \<Rightarrow> nat list \<Rightarrow> int" where
  "matched sc hids = int (length (filter (\<lambda>hid. 0 < sc_item sc hid) hids))"

lemma matched_append [simp]: "matched sc (xs @ ys) = matched sc xs + matched sc ys"
  by (simp add: matched_def)

lemma calc_matched:
  "calc_stats_joined_num js =
     js_stats_cum_join_num js + 32 * matched (js_follower_cache js) (sc_iter (js_leader_cache js))"
  by (simp add: calc_stats_joined_num_def matched_def)

text \<open>
  The estimate counts 32 for every sampled leader id that the follower's window holds, 32 being
  the sampling rate, but it credits only 1 for it once the id has left the leader's window: each
  matched id that slides out takes 31 from the estimate, which so falls behind on long streams.
\<close>

theorem estimate_after_leader_ids:
  assumes "cache_sound (js_leader_cache js)" "\<forall>x \<in> set eids. 0 \<le> fst x"
    and "length (sampled_hids hash (sc_stats_index (js_leader_cache js)) eids) \<le> sc_windows_size (js_leader_cache js)"
  shows "\<exists>ev. sc_iter (js_leader_cache js) @ sampled_hids hash (sc_stats_index (js_leader_cache js)) eids =
      ev @ sc_iter (js_leader_cache (fill_leader_example_ids hash eids js)) \<and>
    calc_stats_joined_num (fill_leader_example_ids hash eids js) = calc_stats_joined_num js +
      32 * matched (js_follower_cache js) (sampled_hids hash (sc_stats_index (js_leader_cache js)) eids) -
      31 * matched (js_follower_cache js) ev"
proof -
  let ?L = "js_leader_cache js" and ?F = "js_follower_cache js"
  obtain ev sc' where f: "fill_example_ids hash eids ?L = (ev, sc')" by fastforce
  have w: "sc_iter ?L @ sampled_hids hash (sc_stats_index ?L) eids = ev @ sc_iter sc'"
    using fill_example_ids_window [OF assms f] by blast
  then have "matched ?F (sc_iter ?L) + matched ?F (sampled_hids hash (sc_stats_index ?L) eids) =
      matched ?F ev + matched ?F (sc_iter sc')"
    using matched_append by metis
  moreover have "fill_leader_example_ids hash eids js = js\<lparr>js_leader_cache := sc',
      js_stats_cum_join_num := js_stats_cum_join_num js + matched ?F ev\<rparr>"
    by (simp add: fill_leader_example_ids_def f matched_def)
  ultimately show ?thesis using w by (auto simp: calc_matched)
qed

section \<open>Witnesses\<close>


definition js_full :: joiner_stats where
  "js_full = fill_follower_example_ids (\<lambda>e. 32 * length e) [(0, ''a'')]
     (fill_leader_example_ids (\<lambda>e. 32 * length e) [(0, ''a''), (1, ''ab'')] (new_joiner_stats 0 (- 1) (- 1) 2))"


theorem estimate_after_leader_ids_witness:
  "calc_stats_joined_num js_full = 32 \<and>
   calc_stats_joined_num (fill_leader_example_ids (\<lambda>e. 32 * length e) [(2, ''abc''), (3, ''abcd'')] js_full) = 1"
proof -
  let ?h = "\<lambda>e :: string. 32 * length e" and ?eids = "[(2::int, ''abc''), (3, ''abcd'')]"
  have s: "cache_sound (js_leader_cache js_full)"
    using fill_example_ids_window [of "new_slide_cache (- 1) 2" "[(0, ''a''), (1, ''ab'')]" ?h
        "fst (fill_example_ids ?h [(0, ''a''), (1, ''ab'')] (new_slide_cache (- 1) 2))"
        "js_leader_cache js_full"] new_sound [of 2 "- 1"]
    by (simp add: js_full_def new_joiner_stats_def fill_leader_example_ids_def fill_follower_example_ids_def
        sampled_hids_def split_beta) (simp add: new_slide_cache_def)
  have c: "sc_stats_index (js_leader_cache js_full) = 1" "sc_windows_size (js_leader_cache js_full) = 2"
    "calc_stats_joined_num js_full = 32" "sc_iter (js_leader_cache js_full) = [32, 64]"
    "matched (js_follower_cache js_full) [32, 64] = 1" "matched (js_follower_cache js_full) [96, 128] = 0"
    "sc_iter (js_leader_cache (fill_leader_example_ids ?h ?eids js_full)) = [96, 128]"
    by code_simp+
  have hs: "sampled_hids ?h 1 ?eids = [96, 128]" by (simp add: sampled_hids_def)
  from estimate_after_leader_ids [OF s, of ?eids ?h] c hs obtain ev where
    "[32, 64, 96, 128] = ev @ [96, 128]"
    "calc_stats_joined_num (fill_leader_example_ids ?h ?eids js_full) =
       32 + 32 * 0 - 31 * matched (js_follower_cache js_full) ev"
    by auto
  then have "calc_stats_joined_num (fill_leader_example_ids ?h ?eids js_full) = 1"
    using c(5) append_same_eq [of "[32, 64]" "[96, 128]" ev] by simp
  then show ?thesis using c(3) by simp
qed

end
