(* ===== verification/Example_Joiner.thy ===== *)
theory Example_Joiner
  imports Complex_Main Joiner_Stats Id_Dumper Block_Dumper
begin

text \<open>
  The base class of the joiners (\<open>data_join/joiner_impl/example_joiner.py\<close>).

  A joiner reads the example ids of the leader through one visitor and the raw data of its own
  side, the follower, through another, and appends what it joins to a block builder. It keeps
  where the follower would have to start again, publishes it in the meta of every block, and
  after an exception or a restart goes back to what the last published meta says.

  Metrics, the statistics of optional fields, which only count and log, and the clock have no
  state here: whether the dump interval has passed is an argument of a run.
\<close>

section \<open>Loops that may not end\<close>

text \<open>State, exceptions and, as \<open>None\<close>, not returning.\<close>

type_synonym ('s, 'a) ox = "'s \<Rightarrow> ('a result \<times> 's) option"

definition ox_lift :: "('s, 'a) sx \<Rightarrow> ('s, 'a) ox" where
  "ox_lift f s = Some (f s)"

definition ox_bind :: "('s, 'a) ox \<Rightarrow> ('a \<Rightarrow> ('s, 'b) ox) \<Rightarrow> ('s, 'b) ox" where
  "ox_bind f g s =
     (case f s of
        None \<Rightarrow> None
      | Some (Inl e, s1) \<Rightarrow> Some (Inl e, s1)
      | Some (Inr a, s1) \<Rightarrow> g a s1)"

abbreviation ox_return :: "'a \<Rightarrow> ('s, 'a) ox" where "ox_return a \<equiv> ox_lift (sx_return a)"

lemma ox_bind_mono [partial_function_mono]:
  fixes B :: "('x \<Rightarrow> 'y option) \<Rightarrow> ('s, 'a) ox"
  assumes "mono_option (\<lambda>h. B h s)" and "\<And>y s. mono_option (\<lambda>h. C y h s)"
  shows "mono_option (\<lambda>h. ox_bind (B h) (\<lambda>y. C y h) s)"
proof -
  have "mono_option (\<lambda>h. Option.bind (B h s)
      (\<lambda>rs. case rs of (Inl e, s1) \<Rightarrow> Some (Inl e, s1) | (Inr a, s1) \<Rightarrow> C a h s1))"
  proof (rule bind_mono [OF assms(1)])
    fix rs :: "'a result \<times> 's"
    show "mono_option (\<lambda>h. case rs of (Inl e, s1) \<Rightarrow> Some (Inl e, s1) | (Inr a, s1) \<Rightarrow> C a h s1)"
      using assms(2) by (cases rs; cases "fst rs") (simp_all add: option.const_mono)
  qed
  moreover have "ox_bind (B h) (\<lambda>y. C y h) s = Option.bind (B h s)
      (\<lambda>rs. case rs of (Inl e, s1) \<Rightarrow> Some (Inl e, s1) | (Inr a, s1) \<Rightarrow> C a h s1)" for h
    by (cases "B h s") (auto simp: ox_bind_def split: sum.split)
  ultimately show ?thesis by simp
qed

section \<open>Visitors\<close>

text \<open>What a joiner calls of a visitor.\<close>

record ('v, 'i) visitor_ops =
  vo_next :: "('v, int \<times> 'i) sx"
  vo_seek :: "int \<Rightarrow> ('v, int \<times> 'i) sx"
  vo_reset :: "'v \<Rightarrow> 'v"
  vo_finished :: "'v \<Rightarrow> bool"
  vo_get_index :: "('v, int) sx"
  vo_active :: "('v, unit) sx"
  vo_stale :: "('v, bool) sx"

record leader_item =
  li_example_id :: string
  li_event_time :: int

definition leader_visitor_ops ::
    "'v ei_env \<Rightarrow> (leader_item, 'v ei_manager) visitor_env \<Rightarrow>
     ((leader_item, 'v ei_manager) visitor, leader_item) visitor_ops" where
  "leader_visitor_ops en ve =
     \<lparr>vo_next = visitor_next ve, vo_seek = visitor_seek ve, vo_reset = visitor_reset,
      vo_finished = v_finished, vo_get_index = visitor_get_index, vo_active = ei_active_visitor en,
      vo_stale = is_visitor_stale (ei_check_index_meta en)\<rparr>"

definition follower_visitor_ops ::
    "'v mg_env \<Rightarrow> int \<Rightarrow> ('r block_item, 'v rd_manager) visitor_env \<Rightarrow>
     (('r block_item, 'v rd_manager) visitor, 'r block_item) visitor_ops" where
  "follower_visitor_ops en p ve =
     \<lparr>vo_next = visitor_next ve, vo_seek = visitor_seek ve, vo_reset = visitor_reset,
      vo_finished = v_finished, vo_get_index = visitor_get_index, vo_active = rd_active_visitor en p,
      vo_stale = is_visitor_stale (rd_check_index_meta en p)\<rparr>"

section \<open>The joiner\<close>

record ('l, 'f, 'r) joiner_env =
  je_block :: "'r block_env"
  je_partition :: int
  je_leader :: "('l, leader_item) visitor_ops"
  je_follower :: "('f, 'r block_item) visitor_ops"
  je_hash :: "string \<Rightarrow> nat"
  je_stats_windows_size :: nat
  je_dump_threshold :: "int option"
  je_min_window :: nat
  je_max_window :: nat
  je_negatives :: bool
  je_make_fake :: "string \<Rightarrow> int \<Rightarrow> 'r block_item"

record ('l, 'f, 'r) joiner =
  ej_leader_visitor :: 'l
  ej_follower_visitor :: 'f
  ej_world :: "'r block_world"
  ej_joiner_stats :: joiner_stats
  ej_builder :: "'r data_block_builder option"
  ej_state_stale :: bool
  ej_follower_restart_index :: int
  ej_sync_example_id_finished :: bool
  ej_raw_data_finished :: bool
  ej_join_finished :: bool
  ej_yielded :: "data_block_meta option list"

text \<open>
  What a run of the routine meets: the names of temporary files and the outcomes of renames by
  the index of the block, whether the dump interval has passed, and which of the unjoined
  leader examples the sampling of negative examples skips.
\<close>

record join_choice =
  jc_uid :: "int \<Rightarrow> string"
  jc_meta_uid :: "int \<Rightarrow> string"
  jc_data_outcome :: "int \<Rightarrow> rename_outcome"
  jc_meta_outcome :: "int \<Rightarrow> rename_outcome"
  jc_interval_passed :: bool
  jc_skip :: "int \<Rightarrow> bool"

type_synonym ('l, 'f, 'r, 'z, 'a) jx = "(('l, 'f, 'r, 'z) joiner_scheme, 'a) sx"

definition on_leader :: "('l, 'a) sx \<Rightarrow> ('l, 'f, 'r, 'z, 'a) jx" where
  "on_leader f s = (case f (ej_leader_visitor s) of (r, v) \<Rightarrow> (r, s\<lparr>ej_leader_visitor := v\<rparr>))"

definition on_follower :: "('f, 'a) sx \<Rightarrow> ('l, 'f, 'r, 'z, 'a) jx" where
  "on_follower f s = (case f (ej_follower_visitor s) of (r, v) \<Rightarrow> (r, s\<lparr>ej_follower_visitor := v\<rparr>))"

definition on_blocks :: "('r block_world, 'a) sx \<Rightarrow> ('l, 'f, 'r, 'z, 'a) jx" where
  "on_blocks f s = (case f (ej_world s) of (r, w) \<Rightarrow> (r, s\<lparr>ej_world := w\<rparr>))"

definition latest_meta :: "('l, 'f, 'r) joiner_env \<Rightarrow> ('l, 'f, 'r, 'z, data_block_meta option) jx" where
  "latest_meta en = on_blocks (get_lastest_data_block_meta (je_block en) (je_partition en))"

text \<open>\<open>_sync_state\<close>\<close>

definition joiner_sync_state :: "('l, 'f, 'r) joiner_env \<Rightarrow> ('l, 'f, 'r, 'z, unit) jx" where
  "joiner_sync_state en = sx_bind (latest_meta en) (\<lambda>meta.
     case meta of
       Some m \<Rightarrow>
         sx_bind (except_stop
           (sx_bind (on_leader (vo_seek (je_leader en) (bm_leader_end_index m))) (\<lambda>_. sx_return ()))
           (sx_return ())) (\<lambda>_.
         except_stop
           (sx_bind (on_follower (vo_seek (je_follower en) (bm_follower_restart_index m))) (\<lambda>_.
            sx_modify (\<lambda>s. s\<lparr>ej_follower_restart_index := bm_follower_restart_index m\<rparr>)))
           (sx_return ()))
     | None \<Rightarrow> sx_modify (\<lambda>s. s\<lparr>ej_leader_visitor := vo_reset (je_leader en) (ej_leader_visitor s),
                 ej_follower_visitor := vo_reset (je_follower en) (ej_follower_visitor s)\<rparr>))"

text \<open>
  The constructor, on a joiner whose visitors and manager have been made; the fields of the
  subclass are not touched.
\<close>

definition init_joiner :: "('l, 'f, 'r) joiner_env \<Rightarrow> ('l, 'f, 'r, 'z, unit) jx" where
  "init_joiner en = sx_bind (latest_meta en) (\<lambda>meta.
     sx_bind (sx_modify (\<lambda>s. s\<lparr>
       ej_joiner_stats :=
         (case meta of
            None \<Rightarrow> new_joiner_stats 0 (- 1) (- 1) (je_stats_windows_size en)
          | Some m \<Rightarrow> new_joiner_stats (si_stats_cum_join_num (bm_joiner_stats_info m))
              (si_leader_stats_index (bm_joiner_stats_info m))
              (si_follower_stats_index (bm_joiner_stats_info m)) (je_stats_windows_size en)),
       ej_builder := None, ej_state_stale := False, ej_follower_restart_index := 0,
       ej_sync_example_id_finished := False, ej_raw_data_finished := False, ej_join_finished := False,
       ej_yielded := []\<rparr>)) (\<lambda>_.
     joiner_sync_state en))"

definition set_sync_example_id_finished :: "('l, 'f, 'r, 'z) joiner_scheme \<Rightarrow> ('l, 'f, 'r, 'z) joiner_scheme" where
  "set_sync_example_id_finished s = s\<lparr>ej_sync_example_id_finished := True\<rparr>"

definition set_raw_data_finished :: "('l, 'f, 'r, 'z) joiner_scheme \<Rightarrow> ('l, 'f, 'r, 'z) joiner_scheme" where
  "set_raw_data_finished s = s\<lparr>ej_raw_data_finished := True\<rparr>"

definition joiner_meta_by_index ::
    "('l, 'f, 'r) joiner_env \<Rightarrow> int \<Rightarrow> ('l, 'f, 'r, 'z, bool \<times> data_block_meta option) jx" where
  "joiner_meta_by_index en index = sx_bind sx_get (\<lambda>s.
     sx_bind (on_blocks (get_data_block_meta_by_index (je_block en) (je_partition en) index)) (\<lambda>m.
     sx_return (ej_join_finished s, m)))"

definition need_join :: "('l, 'f, 'r) joiner_env \<Rightarrow> bool \<Rightarrow> ('l, 'f, 'r, 'z, bool) jx" where
  "need_join en interval_passed = sx_bind sx_get (\<lambda>s.
     if ej_join_finished s then sx_return False
     else if ej_state_stale s \<or> ej_sync_example_id_finished s then sx_return True
     else sx_bind (on_follower (vo_stale (je_follower en))) (\<lambda>f.
          sx_bind (if f then sx_return True else on_leader (vo_stale (je_leader en))) (\<lambda>stale.
          if stale then sx_return True
          else sx_bind sx_get (\<lambda>s.
            if \<not> vo_finished (je_follower en) (ej_follower_visitor s) \<and>
               \<not> vo_finished (je_leader en) (ej_leader_visitor s)
            then sx_return True else sx_return interval_passed))))"

definition reset_data_block_builder :: "('l, 'f, 'r, 'z) joiner_scheme \<Rightarrow> ('l, 'f, 'r, 'z) joiner_scheme" where
  "reset_data_block_builder s = s\<lparr>ej_builder := None\<rparr>"

text \<open>\<open>_prepare_join\<close> of the base class; the flags are read before the visitors are activated.\<close>

definition prepare_join :: "('l, 'f, 'r) joiner_env \<Rightarrow> bool \<Rightarrow> ('l, 'f, 'r, 'z, bool \<times> bool) jx" where
  "prepare_join en state_stale =
     sx_bind (if state_stale
              then sx_bind (joiner_sync_state en) (\<lambda>_. sx_modify reset_data_block_builder)
              else sx_return ()) (\<lambda>_.
     sx_bind sx_get (\<lambda>s.
     sx_bind (on_leader (vo_active (je_leader en))) (\<lambda>_.
     sx_bind (on_follower (vo_active (je_follower en))) (\<lambda>_.
     sx_return (ej_sync_example_id_finished s, ej_raw_data_finished s)))))"

text \<open>\<open>_get_data_block_builder\<close>\<close>

definition joiner_get_builder ::
    "('l, 'f, 'r) joiner_env \<Rightarrow> join_choice \<Rightarrow> bool \<Rightarrow> ('l, 'f, 'r, 'z, 'r data_block_builder option) jx" where
  "joiner_get_builder en ch create_if_no_existed = sx_bind sx_get (\<lambda>s.
     sx_bind
       (if ej_builder s = None \<and> create_if_no_existed
        then sx_bind (on_blocks (get_dumped_data_block_count (je_block en) (je_partition en))) (\<lambda>index.
             sx_bind (on_blocks (new_data_block_builder (je_block en) (je_partition en) index
                        (je_dump_threshold en) (jc_uid ch index))) (\<lambda>b.
             sx_modify (\<lambda>s. s\<lparr>ej_builder := Some (set_data_block_manager b)\<rparr>)))
        else sx_return ()) (\<lambda>_.
     sx_bind (sx_modify (\<lambda>s. s\<lparr>ej_builder :=
       map_option (set_follower_restart_index (ej_follower_restart_index s)) (ej_builder s)\<rparr>)) (\<lambda>_.
     sx_bind sx_get (\<lambda>s. sx_return (ej_builder s)))))"

definition create_join_stats_info ::
    "('l, 'f, 'r) joiner_env \<Rightarrow> join_choice \<Rightarrow> ('l, 'f, 'r, 'z, joiner_stats_info) jx" where
  "create_join_stats_info en ch =
     sx_bind (joiner_get_builder en ch False) (\<lambda>builder.
     sx_bind (latest_meta en) (\<lambda>meta.
     sx_bind sx_get (\<lambda>s. sx_return
       \<lparr>si_stats_cum_join_num = calc_stats_joined_num (ej_joiner_stats s),
        si_actual_cum_join_num =
          (case builder of None \<Rightarrow> 0 | Some b \<Rightarrow> example_count b) +
          (case meta of None \<Rightarrow> 0 | Some m \<Rightarrow> si_actual_cum_join_num (bm_joiner_stats_info m)),
        si_leader_stats_index = sc_stats_index (js_leader_cache (ej_joiner_stats s)),
        si_follower_stats_index = sc_stats_index (js_follower_cache (ej_joiner_stats s))\<rparr>)))"

text \<open>\<open>_finish_data_block\<close> of the base class. The builder is dropped once it has been finished.\<close>

definition joiner_finish_block ::
    "('l, 'f, 'r) joiner_env \<Rightarrow> join_choice \<Rightarrow> ('l, 'f, 'r, 'z, data_block_meta option) jx" where
  "joiner_finish_block en ch = sx_bind sx_get (\<lambda>s.
     if ej_builder s = None then sx_return None
     else sx_bind (create_join_stats_info en ch) (\<lambda>info.
          sx_bind (sx_modify (\<lambda>s. s\<lparr>ej_builder := map_option (set_join_stats_info info) (ej_builder s)\<rparr>)) (\<lambda>_.
          sx_bind sx_get (\<lambda>s.
          let b = the (ej_builder s); i = bm_data_block_index (bb_data_block_meta b) in
          sx_bind (on_blocks (finish_data_block (je_block en) (je_partition en) (jc_meta_uid ch i)
                    (jc_data_outcome ch i) (jc_meta_outcome ch i) b)) (\<lambda>meta.
          sx_bind (sx_modify reset_data_block_builder) (\<lambda>_.
          sx_return meta))))))"

definition on_builder :: "('r data_block_builder, 'a) sx \<Rightarrow> ('l, 'f, 'r, 'z, 'a) jx" where
  "on_builder f s =
     (case ej_builder s of
        None \<Rightarrow> (Inl AssertionError, s)
      | Some b \<Rightarrow> (case f b of (r, b) \<Rightarrow> (r, s\<lparr>ej_builder := Some b\<rparr>)))"

definition yield_meta :: "data_block_meta option \<Rightarrow> ('l, 'f, 'r, 'z, unit) jx" where
  "yield_meta m = sx_modify (\<lambda>s. s\<lparr>ej_yielded := ej_yielded s @ [m]\<rparr>)"

text \<open>
  \<open>make_example_joiner\<close>: the routine with its body \<open>inner\<close>, which is told whether the state is
  stale; an exception leaves it so.
\<close>

definition with_example_joiner ::
    "(bool \<Rightarrow> (('l, 'f, 'r, 'z) joiner_scheme, unit) ox) \<Rightarrow> (('l, 'f, 'r, 'z) joiner_scheme, unit) ox" where
  "with_example_joiner inner s =
     ox_bind (ox_lift (sx_modify (\<lambda>s. s\<lparr>ej_state_stale := True\<rparr>))) (\<lambda>_.
     ox_bind (inner (ej_state_stale s)) (\<lambda>_.
     ox_lift (sx_modify (\<lambda>s. s\<lparr>ej_state_stale := False\<rparr>)))) s"


section \<open>What a joiner relies on\<close>

text \<open>
  A source is a visitor that is a cursor over a sequence \<open>data\<close>, of which it can see the first
  \<open>N\<close> items. \<open>src v b N c\<close> says that \<open>v\<close> stands where the cursor \<open>c\<close> stands; \<open>b\<close> that it was told
  its end. Making it active only ever shows more.
\<close>

definition cursor_within :: "int \<Rightarrow> cursor \<Rightarrow> bool" where
  "cursor_within N c \<longleftrightarrow>
     0 \<le> N \<and> (\<forall>s. cu_seen c = Some s \<longrightarrow> s < N) \<and>
     (cu_finished c \<longrightarrow> 0 < N \<longrightarrow> cu_pos c = Some (N - 1)) \<and>
     (\<forall>k. cu_pos c = Some k \<longrightarrow> 0 \<le> k \<and> (\<exists>s. cu_seen c = Some s \<and> k \<le> s))"

locale join_source =
  fixes vo :: "('v, 'i) visitor_ops" and data :: "int \<Rightarrow> 'i"
    and src :: "'v \<Rightarrow> bool \<Rightarrow> int \<Rightarrow> cursor \<Rightarrow> bool"
  assumes follows_next: "src v b N c \<Longrightarrow>
      \<exists>v'. vo_next vo v = (map_sum id (\<lambda>k. (k, data k)) (fst (cursor_next N c)), v') \<and>
        src v' b N (snd (cursor_next N c))"
    and follows_seek: "src v b N c \<Longrightarrow> 0 \<le> k \<Longrightarrow>
      \<exists>v'. vo_seek vo k v = (map_sum id (\<lambda>k. (k, data k)) (fst (cursor_seek b N k c)), v') \<and>
        src v' b N (snd (cursor_seek b N k c))"
    and follows_reset: "src v b N c \<Longrightarrow> src (vo_reset vo v) b N (c\<lparr>cu_pos := None, cu_finished := False\<rparr>)"
    and follows_index: "src v b N c \<Longrightarrow>
      \<exists>v'. vo_get_index vo v = (Inr (case cu_pos c of None \<Rightarrow> 0 | Some k \<Rightarrow> k), v') \<and> src v' b N c"
    and follows_finished: "src v b N c \<Longrightarrow> vo_finished vo v = cu_finished c"
    and follows_active: "src v b N c \<Longrightarrow>
      \<exists>v' b' N' f. vo_active vo v = (Inr (), v') \<and> N \<le> N' \<and> src v' b' N' (c\<lparr>cu_finished := f\<rparr>)"
    and src_within: "src v b N c \<Longrightarrow> cursor_within N c"

text \<open>Both visitors are sources; \<open>sequence_of\<close> is the concatenation of the files.\<close>

definition sequence_of :: "(nat \<Rightarrow> 'i list) \<Rightarrow> int \<Rightarrow> 'i" where
  "sequence_of files k = item_at files (LEAST L. k < file_start files L) k"

lemma item_at_mono:
  assumes "0 \<le> k" "k < file_start files L" "L \<le> M"
  shows "item_at files M k = item_at files L k"
proof -
  have len: "int (length (concat (map files [0..<n]))) = file_start files n" for n
    by (induction n) simp_all
  have "[0..<M] = [0..<L] @ [L..<M]" using assms(3) by (metis le_add_diff_inverse upt_add_eq_append zero_le)
  moreover have "nat k < length (concat (map files [0..<L]))" using assms(1,2) len [of L] by linarith
  ultimately show ?thesis by (simp add: item_at_def nth_append)
qed

lemma with_item_sequence:
  assumes "0 \<le> k" "k < file_start files L"
  shows "with_item files L k = (k, sequence_of files k)"
proof -
  let ?L = "LEAST L. k < file_start files L"
  have "k < file_start files ?L" "?L \<le> L" using assms(2) by (rule LeastI, rule Least_le)
  then show ?thesis using item_at_mono [OF assms(1), of files ?L L] by (simp add: with_item_def sequence_of_def)
qed

definition leader_src ::
    "'v ei_env \<Rightarrow> ('i, 'v ei_manager) visitor_env \<Rightarrow> (nat \<Rightarrow> 'i list) \<Rightarrow> ('i, 'v ei_manager) visitor \<Rightarrow>
     bool \<Rightarrow> int \<Rightarrow> cursor \<Rightarrow> bool" where
  "leader_src en ve files v b M c \<longleftrightarrow>
     readable (ve_disk ve) files (dumped_path en files) \<and> ve_gim ve = ei_gim en \<and>
     file_start files (ve_depth ve) \<le> 2 ^ 63 \<and>
     (\<exists>N k. N < ve_depth ve \<and> M = file_start files k \<and>
        tracks ei_avail (ei_handed en files N) files (dumped_path en files) b k k v c)"

definition follower_src ::
    "'v mg_env \<Rightarrow> int \<Rightarrow> ('i, 'v rd_manager) visitor_env \<Rightarrow> (nat \<Rightarrow> 'i list) \<Rightarrow> (nat \<Rightarrow> string) \<Rightarrow>
     ('i, 'v rd_manager) visitor \<Rightarrow> bool \<Rightarrow> int \<Rightarrow> cursor \<Rightarrow> bool" where
  "follower_src en p ve files path v b M c \<longleftrightarrow>
     readable (ve_disk ve) files path \<and> ve_gim ve = rd_gim en p \<and> \<not> b \<and>
     (\<exists>N k. N < ve_depth ve \<and> M = file_start files k \<and>
        tracks rd_avail (rd_handed en p files path N) files path False k k v c)"

lemma tracks_within:
  assumes "tracks avail handed files path b L A v c"
  shows "cursor_within (file_start files L) c"
proof -
  obtain pos where pos: "placed files L pos (cu_pos c)" using assms by (auto simp: tracks_def)
  have ge: "0 \<le> file_start files n" for n using file_start_mono [of 0 n files] by simp
  have "0 \<le> k" if "cu_pos c = Some k" for k
    using pos that ge by (cases pos) (auto intro: add_nonneg_nonneg)
  moreover have "cu_pos c = Some (file_start files L - 1)" if "cu_finished c" "0 < file_start files L"
  proof -
    have "0 < L" using that(2) by (cases L) auto
    then show ?thesis using assms that(1) unfolding tracks_def by blast
  qed
  ultimately show ?thesis using assms ge unfolding cursor_within_def tracks_def by blast
qed

lemma cursor_next_range:
  "cursor_within N c \<Longrightarrow> fst (cursor_next N c) = Inr k \<Longrightarrow> 0 \<le> k \<and> k < N"
  by (auto simp: cursor_within_def cursor_next_def Let_def split: option.splits if_splits)

lemma cursor_seek_range:
  "cursor_within N c \<Longrightarrow> 0 \<le> j \<Longrightarrow> fst (cursor_seek b N j c) = Inr k \<Longrightarrow> 0 \<le> k \<and> k < N"
  by (auto simp: cursor_within_def cursor_seek_def split: if_splits)

lemma items_of_sequence:
  assumes "\<And>k. r = Inr k \<Longrightarrow> 0 \<le> k \<and> k < file_start files L"
  shows "map_sum id (with_item files L) r = map_sum id (\<lambda>k. (k, sequence_of files k)) r"
  using assms with_item_sequence by (cases r) auto

lemma tracks_reset:
  assumes "tracks avail handed files path b L A v c"
  shows "tracks avail handed files path b L A (visitor_reset v) (c\<lparr>cu_pos := None, cu_finished := False\<rparr>)"
proof -
  obtain pos n where "visits handed files path v pos n" using assms by (auto simp: tracks_def)
  then have "visits handed files path (visitor_reset v) None n"
    by (auto simp: visits_def visitor_reset_def)
  then have "\<exists>pos n. visits handed files path (visitor_reset v) pos n \<and> placed files L pos None"
    by (intro exI [of _ None]) auto
  then show ?thesis using assms by (auto simp: tracks_def visitor_reset_def)
qed

lemma tracks_index:
  assumes "readable disk files path" "tracks avail handed files path b L A v c"
  shows "visitor_get_index v = (Inr (case cu_pos c of None \<Rightarrow> 0 | Some k \<Rightarrow> k), v)"
proof -
  obtain pos n where "visits handed files path v pos n" "placed files L pos (cu_pos c)"
    using assms(2) by (auto simp: tracks_def)
  then show ?thesis
    by (cases pos) (auto simp: visits_None visits_Some visitor_get_index_def on_iter_def)
qed


interpretation leader_source: join_source "leader_visitor_ops en ve" "sequence_of files" "leader_src en ve files"
  for en ve files
proof (unfold_locales)
  note ops = leader_visitor_ops_def
  fix v b M c
  assume src: "leader_src en ve files v b M c"
  then obtain N k where N: "N < ve_depth ve" "M = file_start files k"
      "tracks ei_avail (ei_handed en files N) files (dumped_path en files) b k k v c"
    and r: "readable (ve_disk ve) files (dumped_path en files)" and g: "ve_gim ve = ei_gim en"
    and small: "file_start files (ve_depth ve) \<le> 2 ^ 63"
    by (auto simp: leader_src_def)
  have "k \<le> N" using N(3) by (auto simp: tracks_def visits_def ei_handed_def)
  then have d: "k < ve_depth ve" using N(1) by simp
  have w: "cursor_within M c" using tracks_within [OF N(3)] N(2) by simp
  have keep: "leader_src en ve files v' b M c'"
    if "tracks ei_avail (ei_handed en files N) files (dumped_path en files) b k k v' c'" for v' c'
    using that N r g small unfolding leader_src_def by blast
  show "cursor_within M c" by (rule w)
  show "vo_finished (leader_visitor_ops en ve) v = cu_finished c"
    using N(3) by (simp add: ops tracks_def)
  show "leader_src en ve files (vo_reset (leader_visitor_ops en ve) v) b M (c\<lparr>cu_pos := None, cu_finished := False\<rparr>)"
    using keep [OF tracks_reset [OF N(3)]] by (simp add: ops)
  show "\<exists>v'. vo_get_index (leader_visitor_ops en ve) v = (Inr (case cu_pos c of None \<Rightarrow> 0 | Some k \<Rightarrow> k), v') \<and>
      leader_src en ve files v' b M c"
    using tracks_index [OF r N(3)] src by (simp add: ops)
  show "\<exists>v'. vo_next (leader_visitor_ops en ve) v =
      (map_sum id (\<lambda>k. (k, sequence_of files k)) (fst (cursor_next M c)), v') \<and>
      leader_src en ve files v' b M (snd (cursor_next M c))"
    using example_ids.next_follows [OF r g d N(3)] items_of_sequence [of "fst (cursor_next M c)" files k]
      cursor_next_range [OF w] keep unfolding N(2) by (auto simp: ops)
  show "\<exists>v'. vo_seek (leader_visitor_ops en ve) j v =
      (map_sum id (\<lambda>k. (k, sequence_of files k)) (fst (cursor_seek b M j c)), v') \<and>
      leader_src en ve files v' b M (snd (cursor_seek b M j c))" if "0 \<le> j" for j
    using example_ids.seek_follows [OF r g d N(3) that] items_of_sequence [of "fst (cursor_seek b M j c)" files k]
      cursor_seek_range [OF w that] keep unfolding N(2) by (auto simp: ops)
  have M: "file_start files k \<le> file_start files N" using \<open>k \<le> N\<close> by (rule file_start_mono)
  have c: "c\<lparr>cu_finished := cu_finished c\<rparr> = c" by simp
  obtain v' where v': "ei_active_visitor en v = (Inr (), v')"
      "if 0 < N \<and> (\<not> b \<or> k < N)
       then tracks ei_avail (ei_handed en files N) files (dumped_path en files) True N N v' (c\<lparr>cu_finished := False\<rparr>)
       else tracks ei_avail (ei_handed en files N) files (dumped_path en files) b k k v' c"
    using activate_tracks [OF N(3)] by blast
  have "\<exists>b' N' f. M \<le> N' \<and> leader_src en ve files v' b' N' (c\<lparr>cu_finished := f\<rparr>)"
  proof (cases "0 < N \<and> (\<not> b \<or> k < N)")
    case True
    then have "leader_src en ve files v' True (file_start files N) (c\<lparr>cu_finished := False\<rparr>)"
      using v'(2) N(1) r g small unfolding leader_src_def by auto
    then show ?thesis using M N(2) by blast
  next
    case False
    then have "tracks ei_avail (ei_handed en files N) files (dumped_path en files) b k k v'
        (c\<lparr>cu_finished := cu_finished c\<rparr>)"
      using v'(2) c by auto
    from keep [OF this] show ?thesis by blast
  qed
  then show "\<exists>v' b' N' f. vo_active (leader_visitor_ops en ve) v = (Inr (), v') \<and> M \<le> N' \<and>
      leader_src en ve files v' b' N' (c\<lparr>cu_finished := f\<rparr>)"
    using v'(1) by (auto simp: ops)
qed

interpretation follower_source: join_source "follower_visitor_ops en p ve" "sequence_of files"
    "follower_src en p ve files path"
  for en p ve files path
proof (unfold_locales)
  note ops = follower_visitor_ops_def
  fix v b M c
  assume src: "follower_src en p ve files path v b M c"
  then obtain N k where N: "N < ve_depth ve" "M = file_start files k"
      "tracks rd_avail (rd_handed en p files path N) files path False k k v c"
    and r: "readable (ve_disk ve) files path" and g: "ve_gim ve = rd_gim en p" and b: "b = False"
    by (auto simp: follower_src_def)
  have "k \<le> N" using N(3) by (auto simp: tracks_def visits_def rd_handed_def)
  then have d: "k < ve_depth ve" using N(1) by simp
  have w: "cursor_within M c" using tracks_within [OF N(3)] N(2) by simp
  have keep: "follower_src en p ve files path v' b M c'"
    if "tracks rd_avail (rd_handed en p files path N) files path False k k v' c'" for v' c'
    using that N r g b unfolding follower_src_def by blast
  show "cursor_within M c" by (rule w)
  show "vo_finished (follower_visitor_ops en p ve) v = cu_finished c"
    using N(3) by (simp add: ops tracks_def)
  show "follower_src en p ve files path (vo_reset (follower_visitor_ops en p ve) v) b M
      (c\<lparr>cu_pos := None, cu_finished := False\<rparr>)"
    using keep [OF tracks_reset [OF N(3)]] by (simp add: ops)
  show "\<exists>v'. vo_get_index (follower_visitor_ops en p ve) v = (Inr (case cu_pos c of None \<Rightarrow> 0 | Some k \<Rightarrow> k), v') \<and>
      follower_src en p ve files path v' b M c"
    using tracks_index [OF r N(3)] src by (simp add: ops)
  show "\<exists>v'. vo_next (follower_visitor_ops en p ve) v =
      (map_sum id (\<lambda>k. (k, sequence_of files k)) (fst (cursor_next M c)), v') \<and>
      follower_src en p ve files path v' b M (snd (cursor_next M c))"
    using raw_data.next_follows [OF r g d N(3)] items_of_sequence [of "fst (cursor_next M c)" files k]
      cursor_next_range [OF w] keep unfolding N(2) by (auto simp: ops)
  show "\<exists>v'. vo_seek (follower_visitor_ops en p ve) j v =
      (map_sum id (\<lambda>k. (k, sequence_of files k)) (fst (cursor_seek b M j c)), v') \<and>
      follower_src en p ve files path v' b M (snd (cursor_seek b M j c))" if "0 \<le> j" for j
    using raw_data.seek_follows [OF r g d N(3) that] items_of_sequence [of "fst (cursor_seek b M j c)" files k]
      cursor_seek_range [OF w that] keep b unfolding N(2) by (auto simp: ops)
  have M: "file_start files k \<le> file_start files N" using \<open>k \<le> N\<close> by (rule file_start_mono)
  obtain v' where v': "rd_active_visitor en p v = (Inr (), v')"
      "tracks rd_avail (rd_handed en p files path N) files path False N N v'
        (if k < N then c\<lparr>cu_finished := False\<rparr> else c)"
    using active_tracks [OF r N(3)] by blast
  have "(if k < N then c\<lparr>cu_finished := False\<rparr> else c) = c\<lparr>cu_finished := if k < N then False else cu_finished c\<rparr>"
    by simp
  with v'(2) have "tracks rd_avail (rd_handed en p files path N) files path False N N v'
      (c\<lparr>cu_finished := if k < N then False else cu_finished c\<rparr>)"
    by (rule subst [rotated])
  then have "follower_src en p ve files path v' False (file_start files N)
      (c\<lparr>cu_finished := if k < N then False else cu_finished c\<rparr>)"
    using N(1) r g unfolding follower_src_def by blast
  then show "\<exists>v' b' N' f. vo_active (follower_visitor_ops en p ve) v = (Inr (), v') \<and> M \<le> N' \<and>
      follower_src en p ve files path v' b' N' (c\<lparr>cu_finished := f\<rparr>)"
    using v'(1) M N(2) by (auto simp: ops)
qed


section \<open>Blocks of joined examples\<close>

definition joined_call ::
    "(int \<Rightarrow> leader_item) \<Rightarrow> (int \<Rightarrow> 'r block_item) \<Rightarrow> 'r append_call \<Rightarrow> bool" where
  "joined_call ld fd c \<longleftrightarrow>
     ac_item c = fd (ac_follower_index c) \<and>
     it_example_id (ac_item c) = li_example_id (ld (ac_leader_index c)) \<and>
     0 \<le> ac_leader_index c \<and> 0 \<le> ac_follower_index c \<and> \<not> ac_allow_dup c"

text \<open>A published block with the calls that made it.\<close>

definition made_block ::
    "'r block_env \<Rightarrow> int \<Rightarrow> (int \<Rightarrow> leader_item) \<Rightarrow> (int \<Rightarrow> 'r block_item) \<Rightarrow> 'r block_fs \<Rightarrow> int \<Rightarrow>
     data_block_meta \<times> 'r append_call list \<Rightarrow> bool" where
  "made_block en p ld fd fs i = (\<lambda>(m, cs).
     block_published en p fs i m \<and> fs (data_block_path en p m) = Some (map (call_record en) cs) \<and>
     cs \<noteq> [] \<and> successively follows cs \<and> (\<forall>c \<in> set cs. joined_call ld fd c) \<and>
     bm_example_ids m = map (\<lambda>c. it_example_id (ac_item c)) cs \<and> covers cs m)"

text \<open>A later block starts behind an earlier one and needs no follower example before its restart index.\<close>

definition chained :: "(data_block_meta \<times> 'r append_call list) list \<Rightarrow> bool" where
  "chained = sorted_wrt (\<lambda>B B'.
     bm_leader_end_index (fst B) < bm_leader_start_index (fst B') \<and>
     bm_follower_restart_index (fst B) \<le> bm_follower_restart_index (fst B') \<and>
     (\<forall>c \<in> set (snd B'). bm_follower_restart_index (fst B) \<le> ac_follower_index c))"

definition world_ok ::
    "'r block_env \<Rightarrow> int \<Rightarrow> (int \<Rightarrow> leader_item) \<Rightarrow> (int \<Rightarrow> 'r block_item) \<Rightarrow>
     (data_block_meta \<times> 'r append_call list) list \<Rightarrow> 'r block_world \<Rightarrow> bool" where
  "world_ok en p ld fd Bs w \<longleftrightarrow>
     block_codec_ok en \<and> blocks_ok en p (int (length Bs)) w \<and> chained Bs \<and>
     (\<forall>i < length Bs. made_block en p ld fd (bw_fs w) (int i) (Bs ! i))"

definition last_end :: "(data_block_meta \<times> 'r append_call list) list \<Rightarrow> int" where
  "last_end Bs = (if Bs = [] then - 1 else bm_leader_end_index (fst (last Bs)))"

definition last_restart :: "(data_block_meta \<times> 'r append_call list) list \<Rightarrow> int" where
  "last_restart Bs = (if Bs = [] then 0 else bm_follower_restart_index (fst (last Bs)))"

lemma covers_range:
  assumes "covers cs m" "\<forall>c \<in> set cs. joined_call ld fd c" "cs \<noteq> []"
  shows "0 \<le> bm_leader_start_index m" "bm_leader_start_index m \<le> bm_leader_end_index m"
  using assms hd_in_set [of cs] by (auto simp: covers_def joined_call_def)

lemma last_end_ge:
  assumes "chained Bs" "\<forall>i < length Bs. made_block en p ld fd fs (int i) (Bs ! i)"
  shows "int (length Bs) \<le> last_end Bs + 1"
  using assms
proof (induction Bs rule: rev_induct)
  case (snoc b Bs)
  obtain m cs where b: "b = (m, cs)" by (cases b)
  have "made_block en p ld fd fs (int (length Bs)) b" using snoc.prems(2) by (metis length_append_singleton lessI nth_append_length)
  then have r: "0 \<le> bm_leader_start_index m" "bm_leader_start_index m \<le> bm_leader_end_index m"
    using covers_range [of cs m ld fd] by (auto simp: made_block_def b)
  have ch: "chained Bs" "\<And>x. x \<in> set Bs \<Longrightarrow> bm_leader_end_index (fst x) < bm_leader_start_index m"
    using snoc.prems(1) by (auto simp: chained_def sorted_wrt_append b)
  have "made_block en p ld fd fs (int i) (Bs ! i)" if "i < length Bs" for i
    using snoc.prems(2) that by (metis less_SucI length_append_singleton nth_append)
  then have "int (length Bs) \<le> last_end Bs + 1" using snoc.IH ch(1) by blast
  then show ?case
    using r ch(2) [of "last Bs"] by (cases "Bs = []") (simp_all add: last_end_def b)
qed (simp add: last_end_def)

lemma world_bound:
  "world_ok en p ld fd Bs w \<Longrightarrow> last_end Bs < 2 ^ 63 \<Longrightarrow> int (length Bs) \<le> 2 ^ 63 + 1"
proof -
  assume ok: "world_ok en p ld fd Bs w" and small: "last_end Bs < 2 ^ 63"
  have "int (length Bs) \<le> last_end Bs + 1"
    using ok by (intro last_end_ge [of Bs en p ld fd "bw_fs w"]) (auto simp: world_ok_def)
  then show ?thesis using small by linarith
qed

text \<open>What the manager's lookups and the files of other names leave alone.\<close>

lemma world_ok_same_files:
  "world_ok en p ld fd Bs w \<Longrightarrow> bw_fs w' = bw_fs w \<Longrightarrow> blocks_ok en p (int (length Bs)) w' \<Longrightarrow>
   world_ok en p ld fd Bs w'"
  by (simp add: world_ok_def)

lemma made_block_files:
  assumes "made_block en p ld fd fs i B" "\<And>path. block_file en p (i + 1) path \<Longrightarrow> fs' path = fs path"
  shows "made_block en p ld fd fs' i B"
proof -
  obtain m cs where B: "B = (m, cs)" by (cases B)
  have m: "bm_data_block_index m = i" "bm_partition_id m = p"
    using assms(1) by (auto simp: made_block_def B block_published_def)
  have "fs' (get_data_block_meta_path en p i) = fs (get_data_block_meta_path en p i)"
    "fs' (data_block_path en p m) = fs (data_block_path en p m)"
    by (rule assms(2), unfold block_file_def, metis less_add_one m)+
  then show ?thesis using assms(1) by (simp add: made_block_def B block_published_def)
qed

lemma world_ok_files:
  assumes "world_ok en p ld fd Bs w" "blocks_ok en p (int (length Bs)) w'"
    and "\<And>path. block_file en p (int (length Bs)) path \<Longrightarrow> bw_fs w' path = bw_fs w path"
  shows "world_ok en p ld fd Bs w'"
proof -
  have "made_block en p ld fd (bw_fs w') (int i) (Bs ! i)" if "i < length Bs" for i
  proof (rule made_block_files)
    show "made_block en p ld fd (bw_fs w) (int i) (Bs ! i)" using assms(1) that by (simp add: world_ok_def)
    show "bw_fs w' path = bw_fs w path" if "block_file en p (int i + 1) path" for path
      using assms(3) block_file_mono [OF that, of "int (length Bs)"] \<open>i < length Bs\<close> by simp
  qed
  then show ?thesis using assms(1,2) by (simp add: world_ok_def)
qed

lemma world_latest:
  assumes ok: "world_ok en p ld fd Bs w" and small: "last_end Bs < 2 ^ 63"
  shows "\<exists>w'. get_lastest_data_block_meta en p w =
      (Inr (if Bs = [] then None else Some (fst (last Bs))), w') \<and> world_ok en p ld fd Bs w' \<and>
      block_synced (int (length Bs)) w'"
proof -
  let ?n = "int (length Bs)" and ?w = "w\<lparr>bw_dumped_index := Some (int (length Bs) - 1), bw_dumping_index := None\<rparr>"
  have b: "blocks_ok en p ?n w" and codec: "block_codec_ok en" using ok by (simp_all add: world_ok_def)
  note n = world_bound [OF ok small]
  have run: "get_lastest_data_block_meta en p w = sync_data_block_meta en p (?n - 1) ?w"
    by (simp add: get_lastest_data_block_meta_def block_sync_then [OF b n] dumped_then)
  have bw: "blocks_ok en p ?n ?w" by (rule synced_ok [OF b])
  show ?thesis
  proof (cases "Bs = []")
    case True
    then have "sync_data_block_meta en p (?n - 1) ?w = (Inr None, ?w)"
      using sync_meta_beyond [OF synced_record, of ?n "?n - 1" en p w] by simp
    then show ?thesis using run True bw world_ok_same_files [OF ok, of ?w] synced_record [of ?n w] by simp
  next
    case False
    then have i: "0 \<le> ?n - 1" "?n - 1 < ?n" by (cases Bs; simp)+
    from sync_meta_spec [OF bw codec _ i] obtain m w' where w':
      "sync_data_block_meta en p (?n - 1) ?w = (Inr (Some m), w')" "bw_fs w' = bw_fs w"
      "block_published en p (bw_fs w) (?n - 1) m" "blocks_ok en p ?n w'" "block_synced ?n w'"
      by auto
    have "made_block en p ld fd (bw_fs w) (?n - 1) (last Bs)"
      using ok False by (cases Bs rule: rev_cases) (auto simp: world_ok_def)
    then have "block_published en p (bw_fs w) (?n - 1) (fst (last Bs))"
      by (cases "last Bs") (simp add: made_block_def)
    then have "be_print en m = be_print en (fst (last Bs))" using w'(3) by (simp add: block_published_def)
    then have "m = fst (last Bs)" using codec unfolding block_codec_ok_def by (metis sum.inject(2))
    then show ?thesis using run w' False world_ok_same_files [OF ok w'(2,4)] by auto
  qed
qed

lemma world_count:
  assumes ok: "world_ok en p ld fd Bs w" and small: "last_end Bs < 2 ^ 63"
  shows "\<exists>w'. get_dumped_data_block_count en p w = (Inr (int (length Bs)), w') \<and> world_ok en p ld fd Bs w'"
proof -
  have b: "blocks_ok en p (int (length Bs)) w" using ok by (simp add: world_ok_def)
  show ?thesis
    using count_spec [OF b world_bound [OF ok small]] world_ok_same_files [OF ok _ synced_ok [OF b]] by simp
qed

lemma world_put_tmp:
  assumes ok: "world_ok en p ld fd Bs w" and t: "suffix ''.tmp'' t"
  shows "world_ok en p ld fd Bs (w\<lparr>bw_fs := (bw_fs w)(t := x)\<rparr>)"
proof (rule world_ok_files [OF ok])
  show "blocks_ok en p (int (length Bs)) (w\<lparr>bw_fs := (bw_fs w)(t := x)\<rparr>)"
    using ok blocks_ok_foreign [OF foreign_tmp [OF t], where en = en and p = p] by (simp add: world_ok_def)
qed (use block_file_differs(1) [OF _ t] in auto)

lemma chained_snoc:
  assumes "chained Bs" "\<forall>i < length Bs. made_block en p ld fd fs (int i) (Bs ! i)"
    and "last_end Bs < bm_leader_start_index m" "last_restart Bs \<le> bm_follower_restart_index m"
    and "\<forall>c \<in> set cs. last_restart Bs \<le> ac_follower_index c"
  shows "chained (Bs @ [(m, cs)])"
proof -
  have "bm_leader_end_index (fst x) \<le> last_end Bs \<and> bm_follower_restart_index (fst x) \<le> last_restart Bs"
    if x: "x \<in> set Bs" for x
  proof (cases Bs rule: rev_cases)
    case Nil
    then show ?thesis using x by simp
  next
    case (snoc Cs B)
    have B: "bm_leader_start_index (fst B) \<le> bm_leader_end_index (fst B)"
    proof -
      have "made_block en p ld fd fs (int (length Cs)) B" using assms(2) by (auto simp: snoc nth_append)
      then show ?thesis using covers_range(2) [of "snd B" "fst B" ld fd] by (auto simp: made_block_def split: prod.splits)
    qed
    have "x = B \<or> x \<in> set Cs" using x snoc by auto
    then show ?thesis
    proof
      assume "x \<in> set Cs"
      then have "bm_leader_end_index (fst x) < bm_leader_start_index (fst B) \<and>
          bm_follower_restart_index (fst x) \<le> bm_follower_restart_index (fst B)"
        using assms(1) by (simp add: chained_def snoc sorted_wrt_append)
      then show ?thesis using B snoc by (simp add: last_end_def last_restart_def)
    qed (simp add: snoc last_end_def last_restart_def)
  qed
  then show ?thesis using assms(1,3-5) unfolding chained_def sorted_wrt_append by force
qed

text \<open>Finishing a block adds it, or leaves the blocks as they were.\<close>

lemma world_finish:
  assumes ok: "world_ok en p ld fd Bs w" and syn: "block_synced (int (length Bs)) w"
    and b: "builder_ok en p (int (length Bs)) b" "collected en cs b"
    and cs: "cs \<noteq> []" "successively follows cs" "\<forall>c \<in> set cs. joined_call ld fd c"
    and ch: "last_end Bs < ac_leader_index (hd cs)"
      "last_restart Bs \<le> bm_follower_restart_index (bb_data_block_meta b)"
      "\<forall>c \<in> set cs. last_restart Bs \<le> ac_follower_index c"
    and run: "finish_data_block en p uid o1 o2 b w = (r, w')"
  shows "(case r of Inl _ \<Rightarrow> world_ok en p ld fd Bs w' \<or> world_ok en p ld fd (Bs @ [(finished_meta en b, cs)]) w'
    | Inr x \<Rightarrow> x = Some (finished_meta en b) \<and> world_ok en p ld fd (Bs @ [(finished_meta en b, cs)]) w')"
proof -
  let ?n = "int (length Bs)" and ?m = "finished_meta en b"
  have bo: "blocks_ok en p ?n w" using ok by (simp add: world_ok_def)
  from finish_spec [OF bo syn b(1) run] obtain n' where n': "?n \<le> n'" "n' \<le> ?n + 1" "blocks_ok en p n' w'"
      "\<forall>m. r = Inr (Some m) \<longrightarrow> n' = ?n + 1 \<and> m = ?m"
      "n' = ?n + 1 \<Longrightarrow> block_published en p (bw_fs w') ?n ?m \<and>
        bw_fs w' (data_block_path en p ?m) = Some (bb_written b)"
      "r = Inr None \<Longrightarrow> bm_example_ids (bb_data_block_meta b) = []"
    by (elim exE conjE) metis
  have tb: "suffix ''.tmp'' (bb_tmp_fpath b)" using b(1) by (simp add: builder_ok_def)
  have keep: "bw_fs w' path = bw_fs w path" if path: "block_file en p ?n path" for path
  proof -
    note k = keeps_finish [OF b(1) block_file_differs(1) [OF path tb]
      block_file_differs(1) [OF path path_suffixes(3)]
      block_file_differs(3) [OF path finished_meta_fields(1,2) [OF b(1)]] block_file_differs(2) [OF path]]
    then show ?thesis using run k [where v = "bw_fs w path"] unfolding sx_keeps_def by (metis snd_conv)
  qed
  have new: "world_ok en p ld fd (Bs @ [(?m, cs)]) w'" if n1: "n' = ?n + 1"
  proof -
    have cov: "covers cs ?m" "bm_leader_start_index ?m = ac_leader_index (hd cs)"
      using b(2) cs(1) by (auto simp: collected_def covers_def finished_meta_def)
    have old: "made_block en p ld fd (bw_fs w') (int i) (Bs ! i)" if "i < length Bs" for i
    proof (rule made_block_files)
      show "made_block en p ld fd (bw_fs w) (int i) (Bs ! i)" using ok that by (simp add: world_ok_def)
      show "bw_fs w' path = bw_fs w path" if "block_file en p (int i + 1) path" for path
        using keep block_file_mono [OF that, of ?n] \<open>i < length Bs\<close> by simp
    qed
    have "made_block en p ld fd (bw_fs w') ?n (?m, cs)"
      using n'(5) [OF n1] b cs cov by (simp add: made_block_def collected_def finished_meta_fields(3))
    moreover have "chained (Bs @ [(?m, cs)])"
      using ok ch cov(2) by (intro chained_snoc) (auto simp: world_ok_def finished_meta_def)
    ultimately show ?thesis using ok old n'(3) n1
      by (auto simp: world_ok_def nth_append less_Suc_eq add.commute)
  qed
  show ?thesis
  proof (cases "n' = ?n + 1")
    case True
    then show ?thesis
      using new n'(4,6) b(2) cs(1) by (cases r) (auto simp: collected_def)
  next
    case False
    then have "n' = ?n" using n'(1,2) by linarith
    then have "blocks_ok en p ?n w'" using n'(3) by simp
    then have "world_ok en p ld fd Bs w'" by (rule world_ok_files [OF ok]) (rule keep)
    then show ?thesis using False n'(4,6) b(2) cs(1) by (cases r) (auto simp: collected_def)
  qed
qed

end
