(* ===== verification/Joining.thy ===== *)
theory Joining
  imports Example_Joiner
begin

text \<open>
  What the operations of the base class keep (\<open>data_join/joiner_impl/example_joiner.py\<close>), for any
  two visitors that are sources.
\<close>

section \<open>The invariant of the base class\<close>

text \<open>Where the cursor stands; the next index it reads is one more.\<close>

definition cursor_at :: "cursor \<Rightarrow> int" where
  "cursor_at c = (case cu_pos c of None \<Rightarrow> - 1 | Some k \<Rightarrow> k)"

text \<open>A cursor from which index \<open>k\<close> can be sought.\<close>

definition can_seek :: "int \<Rightarrow> cursor \<Rightarrow> int \<Rightarrow> bool" where
  "can_seek N c k \<longleftrightarrow> 0 \<le> k \<and> k < N \<and> (cu_finished c \<longrightarrow> (\<exists>s. cu_seen c = Some s \<and> k \<le> s))"

definition last_call :: "(data_block_meta \<times> 'r append_call list) list \<Rightarrow> 'r append_call list \<Rightarrow> int" where
  "last_call Bs cs = (if cs = [] then last_end Bs else ac_leader_index (last cs))"

locale joining =
  lead: join_source "je_leader en" ld lsrc + foll: join_source "je_follower en" fd fsrc
  for en :: "('l, 'f, 'r) joiner_env" and ld lsrc fd fsrc +
  assumes lead_small: "lsrc l b N c \<Longrightarrow> N \<le> 2 ^ 63"
begin

abbreviation world where "world \<equiv> world_ok (je_block en) (je_partition en) ld fd"

text \<open>
  After an exception: the visitors are somewhere, from where the places that the last meta names can
  be reached.
\<close>

definition stale_ok ::
    "(data_block_meta \<times> 'r append_call list) list \<Rightarrow> ('l, 'f, 'r, 'z) joiner_scheme \<Rightarrow> bool" where
  "stale_ok Bs s \<longleftrightarrow>
     world Bs (ej_world s) \<and>
     (\<exists>b N c. lsrc (ej_leader_visitor s) b N c \<and> (Bs \<noteq> [] \<longrightarrow> can_seek N c (last_end Bs))) \<and>
     (\<exists>b N c. fsrc (ej_follower_visitor s) b N c \<and> (Bs \<noteq> [] \<longrightarrow> can_seek N c (last_restart Bs))) \<and>
     (Bs = [] \<longrightarrow> ej_follower_restart_index s = 0)"

text \<open>
  In between, \<open>cs\<close> are the calls that the builder has taken: they lie behind the last block, and
  every follower example they took is at or behind the restart index.
\<close>

definition base_ok ::
    "(data_block_meta \<times> 'r append_call list) list \<Rightarrow> 'r append_call list \<Rightarrow> cursor \<Rightarrow> cursor \<Rightarrow>
     ('l, 'f, 'r, 'z) joiner_scheme \<Rightarrow> bool" where
  "base_ok Bs cs cl cf s \<longleftrightarrow>
     world Bs (ej_world s) \<and>
     (ej_builder s = None \<longleftrightarrow> cs = []) \<and>
     (\<forall>b. ej_builder s = Some b \<longrightarrow>
        builder_ok (je_block en) (je_partition en) (int (length Bs)) b \<and> collected (je_block en) cs b) \<and>
     successively follows cs \<and>
     (\<forall>c \<in> set cs. joined_call ld fd c \<and> ej_follower_restart_index s \<le> ac_follower_index c \<and>
        ac_follower_index c \<le> cursor_at cf) \<and>
     (cs \<noteq> [] \<longrightarrow> last_end Bs < ac_leader_index (hd cs)) \<and>
     last_restart Bs \<le> ej_follower_restart_index s \<and> 0 \<le> last_restart Bs \<and>
     (Bs = [] \<longrightarrow> ej_follower_restart_index s = 0) \<and> (Bs \<noteq> [] \<longrightarrow> 0 \<le> last_end Bs) \<and>
     (\<exists>b N. lsrc (ej_leader_visitor s) b N cl) \<and> last_call Bs cs \<le> cursor_at cl \<and>
     (\<exists>b N. fsrc (ej_follower_visitor s) b N cf) \<and>
     (cu_pos cf = None \<longrightarrow> Bs = []) \<and> ej_follower_restart_index s \<le> max 0 (cursor_at cf)"

lemma cursor_at_ge: "cursor_within N c \<Longrightarrow> cu_pos c = Some k \<Longrightarrow> 0 \<le> k \<and> cursor_at c = k"
  by (auto simp: cursor_within_def cursor_at_def)

lemma at_seen:
  assumes "cursor_within N c" "0 \<le> k" "k \<le> cursor_at c"
  shows "can_seek N c k"
  using assms by (auto simp: cursor_within_def cursor_at_def can_seek_def split: option.splits)

lemma hd_le_last: "successively follows cs \<Longrightarrow> cs \<noteq> [] \<Longrightarrow> ac_leader_index (hd cs) \<le> ac_leader_index (last cs)"
proof (induction cs)
  case (Cons c cs)
  then show ?case by (cases cs) (auto simp: follows_def split: if_splits)
qed simp

lemma base_last:
  assumes "base_ok Bs cs cl cf s"
  shows "last_end Bs \<le> last_call Bs cs"
  using assms hd_le_last [of cs] by (cases "cs = []") (auto simp: base_ok_def last_call_def)

lemma base_stale:
  assumes ok: "base_ok Bs cs cl cf s"
  shows "stale_ok Bs s"
proof -
  obtain b N where l: "lsrc (ej_leader_visitor s) b N cl" using ok by (auto simp: base_ok_def)
  obtain b' N' where f: "fsrc (ej_follower_visitor s) b' N' cf" using ok by (auto simp: base_ok_def)
  have le: "0 \<le> last_end Bs" "last_end Bs \<le> cursor_at cl" if "Bs \<noteq> []"
    using base_last [OF ok] ok that by (auto simp: base_ok_def)
  have re: "0 \<le> last_restart Bs" "last_restart Bs \<le> cursor_at cf" if ne: "Bs \<noteq> []"
  proof -
    obtain k where "cu_pos cf = Some k" using ok ne by (auto simp: base_ok_def)
    from cursor_at_ge [OF foll.src_within [OF f] this] have "0 \<le> cursor_at cf" by simp
    moreover have "last_restart Bs \<le> ej_follower_restart_index s" "ej_follower_restart_index s \<le> max 0 (cursor_at cf)"
      using ok by (simp_all add: base_ok_def)
    ultimately show "last_restart Bs \<le> cursor_at cf" by linarith
    show "0 \<le> last_restart Bs" using ok by (simp add: base_ok_def)
  qed
  have "Bs \<noteq> [] \<longrightarrow> can_seek N cl (last_end Bs)" using at_seen [OF lead.src_within [OF l]] le by blast
  moreover have "Bs \<noteq> [] \<longrightarrow> can_seek N' cf (last_restart Bs)" using at_seen [OF foll.src_within [OF f]] re by blast
  ultimately show ?thesis using ok l f unfolding stale_ok_def base_ok_def by blast
qed

lemma last_end_small:
  assumes "stale_ok Bs s"
  shows "last_end Bs < 2 ^ 63"
proof (cases "Bs = []")
  case False
  then obtain b N c where "lsrc (ej_leader_visitor s) b N c" "last_end Bs < N"
    using assms by (auto simp: stale_ok_def can_seek_def)
  then show ?thesis using lead_small by force
qed (simp add: last_end_def)

lemma latest_run:
  assumes ok: "stale_ok Bs s"
  shows "\<exists>w'. latest_meta en s = (Inr (if Bs = [] then None else Some (fst (last Bs))), s\<lparr>ej_world := w'\<rparr>) \<and>
    world Bs w' \<and> block_synced (int (length Bs)) w'"
proof -
  have "world Bs (ej_world s)" using ok by (simp add: stale_ok_def)
  from world_latest [OF this last_end_small [OF ok]] show ?thesis
    by (auto simp: latest_meta_def on_blocks_def)
qed

text \<open>Going back to the last block, the next leader example is the one behind it.\<close>

lemma cursor_seek_done:
  assumes "can_seek N c k" "cursor_within N c"
  shows "fst (cursor_seek b N k c) = Inr k" "cu_pos (snd (cursor_seek b N k c)) = Some k"
proof -
  show "fst (cursor_seek b N k c) = Inr k"
    using assms(1) by (auto simp: can_seek_def cursor_seek_def)
  show "cu_pos (snd (cursor_seek b N k c)) = Some k"
  proof (cases "cu_finished c \<and> cu_seen c = Some k")
    case True
    then have "cu_pos c = Some (N - 1)" "N - 1 \<le> k" "k < N"
      using assms by (auto simp: can_seek_def cursor_within_def)
    then show ?thesis using True by (auto simp: cursor_seek_def)
  next
    case False
    then show ?thesis using assms(1) by (auto simp: can_seek_def cursor_seek_def cursor_goto_def)
  qed
qed

lemma base_ok_frame:
  assumes "ej_leader_visitor s' = ej_leader_visitor s" "ej_follower_visitor s' = ej_follower_visitor s"
    "ej_world s' = ej_world s" "ej_builder s' = ej_builder s"
    "ej_follower_restart_index s' = ej_follower_restart_index s"
  shows "base_ok Bs cs cl cf s' = base_ok Bs cs cl cf s"
  using assms by (simp add: base_ok_def)

lemma stale_ok_frame:
  assumes "ej_leader_visitor s' = ej_leader_visitor s" "ej_follower_visitor s' = ej_follower_visitor s"
    "ej_world s' = ej_world s" "ej_follower_restart_index s' = ej_follower_restart_index s"
  shows "stale_ok Bs s' = stale_ok Bs s"
  using assms by (simp add: stale_ok_def)

lemma base_leader:
  assumes "base_ok Bs cs cl cf s" "lsrc v b N cl'" "cursor_at cl \<le> cursor_at cl'"
  shows "base_ok Bs cs cl' cf (s\<lparr>ej_leader_visitor := v\<rparr>)"
proof -
  have "last_call Bs cs \<le> cursor_at cl'" using assms(1,3) by (simp add: base_ok_def)
  moreover have "\<exists>b N. lsrc v b N cl'" using assms(2) by blast
  ultimately show ?thesis using assms(1) by (simp add: base_ok_def)
qed

lemma base_restart:
  assumes "base_ok Bs cs cl cf s"
  shows "0 \<le> ej_follower_restart_index s" "last_restart Bs \<le> ej_follower_restart_index s" "0 \<le> last_restart Bs"
  using assms by (auto simp: base_ok_def)

lemma base_follower:
  assumes ok: "base_ok Bs cs cl cf s" and v: "fsrc v b N cf'" and le: "cursor_at cf \<le> cursor_at cf'"
  shows "base_ok Bs cs cl cf' (s\<lparr>ej_follower_visitor := v\<rparr>)"
proof -
  have w: "cursor_within N cf'" using foll.src_within [OF v] .
  have "Bs = []" if "cu_pos cf' = None"
  proof (cases "cu_pos cf")
    case (Some k)
    obtain b0 N0 where "fsrc (ej_follower_visitor s) b0 N0 cf" using ok by (auto simp: base_ok_def)
    from cursor_at_ge [OF foll.src_within [OF this] Some] le that show ?thesis by (simp add: cursor_at_def)
  qed (use ok in \<open>simp add: base_ok_def\<close>)
  moreover have "ej_follower_restart_index s \<le> max 0 (cursor_at cf')"
    using ok le by (auto simp: base_ok_def)
  moreover have "\<forall>c \<in> set cs. ac_follower_index c \<le> cursor_at cf'"
    using ok le by (auto simp: base_ok_def)
  moreover have "\<exists>b N. fsrc v b N cf'" using v by blast
  ultimately show ?thesis using ok by (simp add: base_ok_def)
qed

lemma base_world:
  "base_ok Bs cs cl cf s \<Longrightarrow> world Bs w \<Longrightarrow> base_ok Bs cs cl cf (s\<lparr>ej_world := w\<rparr>)"
  by (simp add: base_ok_def)

lemma base_src:
  assumes "base_ok Bs cs cl cf s"
  shows "\<exists>b N. lsrc (ej_leader_visitor s) b N cl" "\<exists>b N. fsrc (ej_follower_visitor s) b N cf"
  using assms by (simp_all add: base_ok_def)

text \<open>Where an exception leaves the joiner, later blocks included.\<close>

definition broken ::
    "(data_block_meta \<times> 'r append_call list) list \<Rightarrow> ('l, 'f, 'r, 'z) joiner_scheme \<Rightarrow> bool" where
  "broken Bs s \<longleftrightarrow> (\<exists>Bs'. prefix Bs Bs' \<and> stale_ok Bs' s)"

lemma base_broken: "base_ok Bs cs cl cf s \<Longrightarrow> broken Bs s"
  using base_stale unfolding broken_def by blast

text \<open>\<open>_sync_state\<close> goes back to the last block: behind its last leader example, at its restart index.\<close>

lemma seek_run:
  assumes src: "lsrc (ej_leader_visitor s) b N c" and k: "can_seek N c k"
  shows "\<exists>v c'. except_stop (sx_bind (on_leader (vo_seek (je_leader en) k)) (\<lambda>_. sx_return ())) (sx_return ()) s =
      (Inr (), s\<lparr>ej_leader_visitor := v\<rparr>) \<and> lsrc v b N c' \<and> cu_pos c' = Some k"
proof -
  have "0 \<le> k" using k by (simp add: can_seek_def)
  from lead.follows_seek [OF src this] obtain v where v:
      "vo_seek (je_leader en) k (ej_leader_visitor s) =
        (map_sum id (\<lambda>k. (k, ld k)) (fst (cursor_seek b N k c)), v)"
      "lsrc v b N (snd (cursor_seek b N k c))" by blast
  note d = cursor_seek_done [OF k lead.src_within [OF src], of b]
  have "except_stop (sx_bind (on_leader (vo_seek (je_leader en) k)) (\<lambda>_. sx_return ())) (sx_return ()) s =
      (Inr (), s\<lparr>ej_leader_visitor := v\<rparr>)"
    using v(1) d(1) by (simp add: except_stop_def sx_bind_def on_leader_def)
  then show ?thesis using v(2) d(2) by blast
qed

lemma seek_follower_run:
  assumes src: "fsrc (ej_follower_visitor s) b N c" and k: "can_seek N c k"
  shows "\<exists>v c'. except_stop
        (sx_bind (on_follower (vo_seek (je_follower en) k)) (\<lambda>_.
         sx_modify (\<lambda>s. s\<lparr>ej_follower_restart_index := k\<rparr>))) (sx_return ()) s =
      (Inr (), s\<lparr>ej_follower_visitor := v, ej_follower_restart_index := k\<rparr>) \<and> fsrc v b N c' \<and> cu_pos c' = Some k"
proof -
  have "0 \<le> k" using k by (simp add: can_seek_def)
  from foll.follows_seek [OF src this] obtain v where v:
      "vo_seek (je_follower en) k (ej_follower_visitor s) =
        (map_sum id (\<lambda>k. (k, fd k)) (fst (cursor_seek b N k c)), v)"
      "fsrc v b N (snd (cursor_seek b N k c))" by blast
  note d = cursor_seek_done [OF k foll.src_within [OF src], of b]
  show ?thesis
    using v d by (auto simp: except_stop_def sx_bind_def on_follower_def sx_modify_def)
qed

text \<open>The fields of the base class that \<open>_sync_state\<close> and the activation of the visitors touch.\<close>

definition moved ::
    "('l, 'f, 'r, 'z) joiner_scheme \<Rightarrow> 'l \<Rightarrow> 'f \<Rightarrow> 'r block_world \<Rightarrow> 'r data_block_builder option \<Rightarrow> int \<Rightarrow>
     ('l, 'f, 'r, 'z) joiner_scheme" where
  "moved s l f w b ri = s\<lparr>ej_leader_visitor := l, ej_follower_visitor := f, ej_world := w, ej_builder := b,
     ej_follower_restart_index := ri\<rparr>"

lemma sync_run_at:
  assumes ok: "stale_ok Bs s"
  shows "\<exists>l f w ri cl cf. joiner_sync_state en s = (Inr (), moved s l f w (ej_builder s) ri) \<and>
    base_ok Bs [] cl cf (moved s l f w None ri) \<and>
    (Bs \<noteq> [] \<longrightarrow> cu_pos cf = Some (last_restart Bs) \<and> ri = last_restart Bs)"
proof -
  from latest_run [OF ok] obtain w where w: "latest_meta en s =
      (Inr (if Bs = [] then None else Some (fst (last Bs))), s\<lparr>ej_world := w\<rparr>)" "world Bs w" by blast
  obtain b N c where l: "lsrc (ej_leader_visitor s) b N c" "Bs \<noteq> [] \<longrightarrow> can_seek N c (last_end Bs)"
    using ok by (auto simp: stale_ok_def)
  obtain b' N' c' where f: "fsrc (ej_follower_visitor s) b' N' c'" "Bs \<noteq> [] \<longrightarrow> can_seek N' c' (last_restart Bs)"
    using ok by (auto simp: stale_ok_def)
  show ?thesis
  proof (cases "Bs = []")
    case True
    then have run: "joiner_sync_state en s = (Inr (), moved s (vo_reset (je_leader en) (ej_leader_visitor s))
        (vo_reset (je_follower en) (ej_follower_visitor s)) w (ej_builder s) (ej_follower_restart_index s))"
      using w(1) by (simp add: joiner_sync_state_def sx_bind_def moved_def sx_modify_def)
    have "ej_follower_restart_index s = 0" using ok True by (simp add: stale_ok_def)
    then have "base_ok Bs [] (c\<lparr>cu_pos := None, cu_finished := False\<rparr>) (c'\<lparr>cu_pos := None, cu_finished := False\<rparr>)
        (moved s (vo_reset (je_leader en) (ej_leader_visitor s))
          (vo_reset (je_follower en) (ej_follower_visitor s)) w None (ej_follower_restart_index s))"
      using w(2) True lead.follows_reset [OF l(1)] foll.follows_reset [OF f(1)]
      by (auto simp: base_ok_def moved_def last_restart_def last_end_def last_call_def cursor_at_def)
    then show ?thesis using run True by blast
  next
    case False
    let ?k = "last_end Bs" and ?r = "last_restart Bs"
    have k: "can_seek N c ?k" "can_seek N' c' ?r" using False l(2) f(2) by auto
    from seek_run [of "s\<lparr>ej_world := w\<rparr>", simplified, OF l(1) k(1)] obtain v cl where
      v: "except_stop (sx_bind (on_leader (vo_seek (je_leader en) ?k)) (\<lambda>_. sx_return ())) (sx_return ())
          (s\<lparr>ej_world := w\<rparr>) = (Inr (), s\<lparr>ej_world := w, ej_leader_visitor := v\<rparr>)"
        "lsrc v b N cl" "cu_pos cl = Some ?k" by auto
    from seek_follower_run [of "s\<lparr>ej_world := w, ej_leader_visitor := v\<rparr>", simplified, OF f(1) k(2)] obtain u cf where
      u: "except_stop (sx_bind (on_follower (vo_seek (je_follower en) ?r)) (\<lambda>_.
          sx_modify (\<lambda>s. s\<lparr>ej_follower_restart_index := ?r\<rparr>))) (sx_return ())
          (s\<lparr>ej_world := w, ej_leader_visitor := v\<rparr>) =
        (Inr (), s\<lparr>ej_world := w, ej_leader_visitor := v, ej_follower_visitor := u, ej_follower_restart_index := ?r\<rparr>)"
        "fsrc u b' N' cf" "cu_pos cf = Some ?r" by auto
    have e: "bm_leader_end_index (fst (last Bs)) = ?k" "bm_follower_restart_index (fst (last Bs)) = ?r"
      using False by (simp_all add: last_end_def last_restart_def)
    have "joiner_sync_state en s = (Inr (), moved s v u w (ej_builder s) ?r)"
      using w(1) False v(1) u(1) by (simp add: joiner_sync_state_def sx_bind_def e moved_def)
    moreover have "base_ok Bs [] cl cf (moved s v u w None ?r)"
      using w(2) False v(2,3) u(2,3) k by (auto simp: base_ok_def moved_def last_call_def cursor_at_def can_seek_def)
    ultimately show ?thesis using u(3) by blast
  qed
qed

lemma sync_run:
  assumes ok: "stale_ok Bs s"
  shows "\<exists>l f w ri cl cf. joiner_sync_state en s = (Inr (), moved s l f w (ej_builder s) ri) \<and>
    base_ok Bs [] cl cf (moved s l f w None ri)"
  using sync_run_at [OF ok] by blast

lemma active_run:
  assumes ok: "base_ok Bs cs cl cf s"
  shows "\<exists>v f. on_leader (vo_active (je_leader en)) s = (Inr (), s\<lparr>ej_leader_visitor := v\<rparr>) \<and>
    base_ok Bs cs (cl\<lparr>cu_finished := f\<rparr>) cf (s\<lparr>ej_leader_visitor := v\<rparr>)"
proof -
  obtain b N where "lsrc (ej_leader_visitor s) b N cl" using base_src [OF ok] by blast
  from lead.follows_active [OF this] obtain v b' N' f where
    v: "vo_active (je_leader en) (ej_leader_visitor s) = (Inr (), v)" "lsrc v b' N' (cl\<lparr>cu_finished := f\<rparr>)" by blast
  have "base_ok Bs cs (cl\<lparr>cu_finished := f\<rparr>) cf (s\<lparr>ej_leader_visitor := v\<rparr>)"
    by (rule base_leader [OF ok v(2)]) (simp add: cursor_at_def)
  then show ?thesis using v(1) by (auto simp: on_leader_def)
qed

lemma active_follower_run:
  assumes ok: "base_ok Bs cs cl cf s"
  shows "\<exists>v f. on_follower (vo_active (je_follower en)) s = (Inr (), s\<lparr>ej_follower_visitor := v\<rparr>) \<and>
    base_ok Bs cs cl (cf\<lparr>cu_finished := f\<rparr>) (s\<lparr>ej_follower_visitor := v\<rparr>)"
proof -
  obtain b N where "fsrc (ej_follower_visitor s) b N cf" using base_src [OF ok] by blast
  from foll.follows_active [OF this] obtain v b' N' f where
    v: "vo_active (je_follower en) (ej_follower_visitor s) = (Inr (), v)" "fsrc v b' N' (cf\<lparr>cu_finished := f\<rparr>)" by blast
  have "base_ok Bs cs cl (cf\<lparr>cu_finished := f\<rparr>) (s\<lparr>ej_follower_visitor := v\<rparr>)"
    by (rule base_follower [OF ok v(2)]) (simp add: cursor_at_def)
  then show ?thesis using v(1) by (auto simp: on_follower_def)
qed

lemma prepare_active:
  assumes ok: "base_ok Bs cs cl cf s"
  shows "\<exists>l f fl ff. sx_bind sx_get (\<lambda>s0. sx_bind (on_leader (vo_active (je_leader en))) (\<lambda>_.
      sx_bind (on_follower (vo_active (je_follower en))) (\<lambda>_. sx_return (g s0)))) s =
      (Inr (g s), moved s l f (ej_world s) (ej_builder s) (ej_follower_restart_index s)) \<and>
    base_ok Bs cs (cl\<lparr>cu_finished := fl\<rparr>) (cf\<lparr>cu_finished := ff\<rparr>)
      (moved s l f (ej_world s) (ej_builder s) (ej_follower_restart_index s))"
proof -
  from active_run [OF ok] obtain v fl where v: "on_leader (vo_active (je_leader en)) s = (Inr (), s\<lparr>ej_leader_visitor := v\<rparr>)"
    "base_ok Bs cs (cl\<lparr>cu_finished := fl\<rparr>) cf (s\<lparr>ej_leader_visitor := v\<rparr>)" by blast
  from active_follower_run [OF v(2)] obtain u ff where u:
    "on_follower (vo_active (je_follower en)) (s\<lparr>ej_leader_visitor := v\<rparr>) =
       (Inr (), s\<lparr>ej_leader_visitor := v, ej_follower_visitor := u\<rparr>)"
    "base_ok Bs cs (cl\<lparr>cu_finished := fl\<rparr>) (cf\<lparr>cu_finished := ff\<rparr>) (s\<lparr>ej_leader_visitor := v, ej_follower_visitor := u\<rparr>)"
    by blast
  have m: "moved s v u (ej_world s) (ej_builder s) (ej_follower_restart_index s) =
      s\<lparr>ej_leader_visitor := v, ej_follower_visitor := u\<rparr>" by (simp add: moved_def)
  show ?thesis
    using u(2) v(1) u(1) unfolding m [symmetric] by (auto simp: sx_bind_def)
qed

lemma prepare_fresh:
  assumes ok: "base_ok Bs cs cl cf s"
  shows "\<exists>l f fl ff. prepare_join en False s = (Inr (ej_sync_example_id_finished s, ej_raw_data_finished s),
        moved s l f (ej_world s) (ej_builder s) (ej_follower_restart_index s)) \<and>
    base_ok Bs cs (cl\<lparr>cu_finished := fl\<rparr>) (cf\<lparr>cu_finished := ff\<rparr>)
      (moved s l f (ej_world s) (ej_builder s) (ej_follower_restart_index s))"
  using prepare_active [OF ok, of "\<lambda>s. (ej_sync_example_id_finished s, ej_raw_data_finished s)"]
  by (simp add: prepare_join_def)

lemma prepare_stale:
  assumes ok: "stale_ok Bs s"
  shows "\<exists>l f w ri cl cf. prepare_join en True s =
      (Inr (ej_sync_example_id_finished s, ej_raw_data_finished s), moved s l f w None ri) \<and>
    base_ok Bs [] cl cf (moved s l f w None ri)"
proof -
  from sync_run [OF ok] obtain l f w ri cl cf where
    r: "joiner_sync_state en s = (Inr (), moved s l f w (ej_builder s) ri)"
      "base_ok Bs [] cl cf (moved s l f w None ri)" by blast
  have m: "reset_data_block_builder (moved s l f w (ej_builder s) ri) = moved s l f w None ri"
    by (simp add: reset_data_block_builder_def moved_def)
  have mm: "moved (moved s l f w None ri) l' f' w' x ri' = moved s l' f' w' x ri'" for l' f' w' x ri'
    by (simp add: moved_def)
  have fld: "ej_world (moved s l f w None ri) = w" "ej_builder (moved s l f w None ri) = None"
    "ej_follower_restart_index (moved s l f w None ri) = ri"
    "ej_sync_example_id_finished (moved s l f w None ri) = ej_sync_example_id_finished s"
    "ej_raw_data_finished (moved s l f w None ri) = ej_raw_data_finished s"
    by (simp_all add: moved_def)
  have "prepare_join en True s = prepare_join en False (moved s l f w None ri)"
    by (simp add: prepare_join_def sx_bind_def r(1) m)
  then show ?thesis using prepare_fresh [OF r(2)] unfolding mm fld by metis
qed

section \<open>Building blocks\<close>

lemma base_world_ok: "base_ok Bs cs cl cf s \<Longrightarrow> world Bs (ej_world s)"
  by (simp add: base_ok_def)

lemma base_builder:
  "base_ok Bs cs cl cf s \<Longrightarrow> ej_builder s = Some b \<Longrightarrow>
     cs \<noteq> [] \<and> builder_ok (je_block en) (je_partition en) (int (length Bs)) b \<and> collected (je_block en) cs b"
  "base_ok Bs cs cl cf s \<Longrightarrow> ej_builder s = None \<longleftrightarrow> cs = []"
  by (auto simp: base_ok_def)

lemma new_builder_made:
  "new_data_block_builder be p n mx uid w =
     (Inr (fresh_builder be p n mx uid ri\<lparr>bb_managed := False,
        bb_data_block_meta := empty_data_block_meta p n\<rparr>),
      w\<lparr>bw_fs := (bw_fs w)(gen_tmp_fpath (partition_data_block_dir be p) uid \<mapsto> [])\<rparr>)"
  by (simp add: new_data_block_builder_def fresh_builder_def Let_def sx_bind_def fs_put_def
      partition_data_block_dir_def)

lemma set_restart_builder [simp]:
  "builder_ok be p n (set_follower_restart_index ri b) = builder_ok be p n b"
  "collected be cs (set_follower_restart_index ri b) = collected be cs b"
  "bm_follower_restart_index (bb_data_block_meta (set_follower_restart_index ri b)) = ri"
  by (simp_all add: builder_ok_def set_follower_restart_index_def collected_def covers_def)

lemma set_stats_builder [simp]:
  "builder_ok be p n (set_join_stats_info i b) = builder_ok be p n b"
  "collected be cs (set_join_stats_info i b) = collected be cs b"
  "bm_follower_restart_index (bb_data_block_meta (set_join_stats_info i b)) =
     bm_follower_restart_index (bb_data_block_meta b)"
  by (simp_all add: builder_ok_def set_join_stats_info_def collected_def covers_def)

text \<open>A builder is there whenever it is asked for, over the calls so far and at the restart index.\<close>

lemma get_builder_run:
  assumes ok: "base_ok Bs cs cl cf s"
  shows "\<exists>w b. joiner_get_builder en ch True s = (Inr (Some b), s\<lparr>ej_world := w, ej_builder := Some b\<rparr>) \<and>
    world Bs w \<and> builder_ok (je_block en) (je_partition en) (int (length Bs)) b \<and> collected (je_block en) cs b \<and>
    bm_follower_restart_index (bb_data_block_meta b) = ej_follower_restart_index s"
proof (cases "ej_builder s")
  case None
  then have cs: "cs = []" using base_builder(2) [OF ok] by simp
  let ?n = "int (length Bs)" and ?ri = "ej_follower_restart_index s"
  let ?t = "gen_tmp_fpath (partition_data_block_dir (je_block en) (je_partition en)) (jc_uid ch ?n)"
  from world_count [OF base_world_ok [OF ok] last_end_small [OF base_stale [OF ok]]] obtain w where w:
    "get_dumped_data_block_count (je_block en) (je_partition en) (ej_world s) = (Inr ?n, w)" "world Bs w" by blast
  have t: "suffix ''.tmp'' ?t" unfolding gen_tmp_fpath_def by (intro path_join_suffix suffixI) (rule refl)
  define b where "b = fresh_builder (je_block en) (je_partition en) ?n (je_dump_threshold en) (jc_uid ch ?n) ?ri"
  have e: "set_follower_restart_index ?ri (set_data_block_manager (b\<lparr>bb_managed := False,
      bb_data_block_meta := empty_data_block_meta (je_partition en) ?n\<rparr>)) = b"
    by (simp add: b_def fresh_builder_def set_follower_restart_index_def set_data_block_manager_def)
  have "joiner_get_builder en ch True s =
      (Inr (Some b), s\<lparr>ej_world := w\<lparr>bw_fs := (bw_fs w)(?t \<mapsto> [])\<rparr>, ej_builder := Some b\<rparr>)"
    using None w(1) e by (simp add: joiner_get_builder_def sx_bind_def on_blocks_def sx_modify_def
        new_builder_made [where ri = ?ri] b_def)
  moreover have "builder_ok (je_block en) (je_partition en) ?n b" "collected (je_block en) [] b"
    "bm_follower_restart_index (bb_data_block_meta b) = ?ri"
    by (simp_all add: b_def fresh_builder_ok collected_fresh) (simp add: fresh_builder_def)
  ultimately show ?thesis using world_put_tmp [OF w(2) t, of "Some []"] cs by blast
next
  case (Some b)
  let ?b = "set_follower_restart_index (ej_follower_restart_index s) b"
  have "joiner_get_builder en ch True s = (Inr (Some ?b), s\<lparr>ej_world := ej_world s, ej_builder := Some ?b\<rparr>)"
    using Some by (simp add: joiner_get_builder_def sx_bind_def sx_modify_def)
  then show ?thesis using base_builder(1) [OF ok Some] base_world_ok [OF ok] by fastforce
qed

text \<open>The builder takes a joined example behind the last one.\<close>

lemma append_run:
  assumes ok: "base_ok Bs cs cl cf s" and c: "joined_call ld fd c" "ac_event_time c = None"
    and behind: "last_call Bs cs < ac_leader_index c" "ac_leader_index c \<le> cursor_at cl"
    and fol: "ej_follower_restart_index s \<le> ac_follower_index c" "ac_follower_index c \<le> cursor_at cf"
  shows "\<exists>w b. sx_bind (joiner_get_builder en ch True) (\<lambda>_. on_builder (append_item (je_block en) (ac_item c)
        (ac_leader_index c) (ac_follower_index c) None False (ac_joined c))) s =
      (Inr (), s\<lparr>ej_world := w, ej_builder := Some b\<rparr>) \<and>
    base_ok Bs (cs @ [c]) cl cf (s\<lparr>ej_world := w, ej_builder := Some b\<rparr>)"
proof -
  from get_builder_run [OF ok] obtain w b where g:
    "joiner_get_builder en ch True s = (Inr (Some b), s\<lparr>ej_world := w, ej_builder := Some b\<rparr>)"
    "world Bs w" "builder_ok (je_block en) (je_partition en) (int (length Bs)) b" "collected (je_block en) cs b"
    by blast
  have dup: "ac_allow_dup c = False" using c(1) by (simp add: joined_call_def)
  have fol': "cs = [] \<or> follows (last cs) c"
    using behind(1) dup by (auto simp: last_call_def follows_def split: if_splits)
  from collected_append [OF g(4), of c] fol' obtain b' where b':
    "append_call_item (je_block en) c b = (Inr (), b')" "collected (je_block en) (cs @ [c]) b'" by auto
  have item: "append_item (je_block en) (ac_item c) (ac_leader_index c) (ac_follower_index c) None False
      (ac_joined c) b = (Inr (), b')"
    using b'(1) c(2) dup by (simp add: append_call_item_def)
  have bo: "builder_ok (je_block en) (je_partition en) (int (length Bs)) b'"
    using builder_ok_append g(3) item unfolding sx_keeps_def by (metis snd_conv)
  have "sx_bind (joiner_get_builder en ch True) (\<lambda>_. on_builder (append_item (je_block en) (ac_item c)
      (ac_leader_index c) (ac_follower_index c) None False (ac_joined c))) s =
      (Inr (), s\<lparr>ej_world := w, ej_builder := Some b'\<rparr>)"
    using g(1) item by (simp add: sx_bind_def on_builder_def)
  moreover have "successively follows (cs @ [c])"
    using ok fol' by (auto simp: base_ok_def successively_append_iff)
  moreover have "last_end Bs < ac_leader_index (hd (cs @ [c]))"
    using ok behind(1) by (cases "cs = []") (auto simp: base_ok_def last_call_def)
  ultimately show ?thesis
    using ok g(2) bo b'(2) c(1) fol behind(2) by (auto simp: base_ok_def last_call_def)
qed

text \<open>Finishing publishes the block of the calls, or leaves what was published and the exception.\<close>

lemma stats_info_run:
  assumes ok: "base_ok Bs cs cl cf s" and b: "ej_builder s = Some b"
  shows "\<exists>w b' i. create_join_stats_info en ch s = (Inr i, s\<lparr>ej_world := w, ej_builder := Some b'\<rparr>) \<and>
    world Bs w \<and> block_synced (int (length Bs)) w \<and>
    b' = set_follower_restart_index (ej_follower_restart_index s) b"
proof -
  let ?b = "set_follower_restart_index (ej_follower_restart_index s) b"
  have g: "joiner_get_builder en ch False s = (Inr (Some ?b), s\<lparr>ej_builder := Some ?b\<rparr>)"
    using b by (simp add: joiner_get_builder_def sx_bind_def sx_modify_def)
  have "stale_ok Bs (s\<lparr>ej_builder := Some ?b\<rparr>)"
    using base_stale [OF ok] stale_ok_frame [of "s\<lparr>ej_builder := Some ?b\<rparr>" s] by simp
  from latest_run [OF this] obtain w where w: "latest_meta en (s\<lparr>ej_builder := Some ?b\<rparr>) =
      (Inr (if Bs = [] then None else Some (fst (last Bs))), s\<lparr>ej_builder := Some ?b, ej_world := w\<rparr>)"
    "world Bs w" "block_synced (int (length Bs)) w" by auto
  then show ?thesis using g by (intro exI [of _ w]) (simp add: create_join_stats_info_def sx_bind_def)
qed

lemma broken_finished:
  assumes ok: "base_ok Bs cs cl cf s" and cs: "cs \<noteq> []" and w: "world (Bs @ [(m, cs)]) w"
    and m: "bm_leader_end_index m = ac_leader_index (last cs)"
      "bm_follower_restart_index m = ej_follower_restart_index s"
  shows "base_ok (Bs @ [(m, cs)]) [] cl cf (s\<lparr>ej_world := w, ej_builder := None\<rparr>)"
proof -
  have "0 \<le> ac_leader_index (last cs)" "0 \<le> ac_follower_index (last cs)" "ac_follower_index (last cs) \<le> cursor_at cf"
    using ok cs by (auto simp: base_ok_def joined_call_def)
  moreover from this have "cu_pos cf \<noteq> None" by (auto simp: cursor_at_def split: option.splits)
  moreover have "last_end (Bs @ [(m, cs)]) = ac_leader_index (last cs)"
    "last_restart (Bs @ [(m, cs)]) = ej_follower_restart_index s"
    using m by (simp_all add: last_end_def last_restart_def)
  moreover have "last_call (Bs @ [(m, cs)]) [] \<le> cursor_at cl"
    using ok cs m(1) by (simp add: base_ok_def last_call_def last_end_def)
  ultimately show ?thesis using ok w base_restart(1) [OF ok] by (simp add: base_ok_def)
qed

lemma finish_block_run:
  assumes ok: "base_ok Bs cs cl cf s" and cs: "cs \<noteq> []"
  shows "case joiner_finish_block en ch s of
      (Inl _, s') \<Rightarrow> broken Bs s' \<and> ej_state_stale s' = ej_state_stale s
    | (Inr x, s') \<Rightarrow> \<exists>m w. x = Some m \<and> s' = s\<lparr>ej_world := w, ej_builder := None\<rparr> \<and>
        bm_leader_end_index m = ac_leader_index (last cs) \<and>
        bm_follower_restart_index m = ej_follower_restart_index s \<and> base_ok (Bs @ [(m, cs)]) [] cl cf s'"
proof -
  let ?n = "int (length Bs)" and ?ri = "ej_follower_restart_index s"
  obtain b0 where b0: "ej_builder s = Some b0" using base_builder(2) [OF ok] cs by auto
  note b0ok = base_builder(1) [OF ok b0]
  from stats_info_run [OF ok b0] obtain w i where i:
    "create_join_stats_info en ch s =
       (Inr i, s\<lparr>ej_world := w, ej_builder := Some (set_follower_restart_index ?ri b0)\<rparr>)"
    "world Bs w" "block_synced ?n w" by blast
  define b where "b = set_join_stats_info i (set_follower_restart_index ?ri b0)"
  let ?s = "s\<lparr>ej_world := w, ej_builder := Some b\<rparr>"
  have b: "builder_ok (je_block en) (je_partition en) ?n b" "collected (je_block en) cs b"
    "bm_follower_restart_index (bb_data_block_meta b) = ?ri" "bm_data_block_index (bb_data_block_meta b) = ?n"
    using b0ok by (simp_all add: b_def) (simp add: builder_ok_def set_join_stats_info_def set_follower_restart_index_def)
  obtain r w' where f: "finish_data_block (je_block en) (je_partition en) (jc_meta_uid ch ?n)
      (jc_data_outcome ch ?n) (jc_meta_outcome ch ?n) b w = (r, w')" by fastforce
  have run: "joiner_finish_block en ch s =
      (case r of Inl e \<Rightarrow> (Inl e, ?s\<lparr>ej_world := w'\<rparr>)
       | Inr x \<Rightarrow> (Inr x, s\<lparr>ej_world := w', ej_builder := None\<rparr>))"
    using b0 i(1) f b(4)
    by (cases r) (simp_all add: joiner_finish_block_def sx_bind_def on_blocks_def sx_modify_def Let_def
        reset_data_block_builder_def flip: b_def)
  have k: "successively follows cs" "\<forall>c \<in> set cs. joined_call ld fd c" "last_end Bs < ac_leader_index (hd cs)"
    "last_restart Bs \<le> ?ri" "\<forall>c \<in> set cs. last_restart Bs \<le> ac_follower_index c"
    using ok cs by (auto simp: base_ok_def)
  let ?m = "finished_meta (je_block en) b"
  have m: "bm_leader_end_index ?m = ac_leader_index (last cs)" "bm_follower_restart_index ?m = ?ri"
    using b cs by (simp_all add: finished_meta_def collected_def covers_def)
  note fin = world_finish [OF i(2,3) b(1,2) cs k(1-3) _ k(5) f, unfolded b(3), OF k(4)]
  show ?thesis
  proof (cases r)
    case (Inr x)
    then have "x = Some ?m" "world (Bs @ [(?m, cs)]) w'" using fin by auto
    then show ?thesis using run Inr broken_finished [OF ok cs _ m] m by auto
  next
    case (Inl e)
    from fin Inl have "world Bs w' \<or> world (Bs @ [(?m, cs)]) w'" by simp
    then have "broken Bs (?s\<lparr>ej_world := w'\<rparr>)"
    proof
      assume "world Bs w'"
      then have "stale_ok Bs (s\<lparr>ej_world := w'\<rparr>)" using base_stale [OF base_world [OF ok]] by blast
      then show ?thesis
        using stale_ok_frame [of "?s\<lparr>ej_world := w'\<rparr>" "s\<lparr>ej_world := w'\<rparr>" Bs] unfolding broken_def by auto
    next
      assume "world (Bs @ [(?m, cs)]) w'"
      then have "stale_ok (Bs @ [(?m, cs)]) (s\<lparr>ej_world := w', ej_builder := None\<rparr>)"
        using base_stale [OF broken_finished [OF ok cs _ m]] by blast
      then have "stale_ok (Bs @ [(?m, cs)]) (?s\<lparr>ej_world := w'\<rparr>)"
        using stale_ok_frame [of "?s\<lparr>ej_world := w'\<rparr>" "s\<lparr>ej_world := w', ej_builder := None\<rparr>"] by simp
      then show ?thesis unfolding broken_def using prefixI by blast
    qed
    then show ?thesis using run Inl by simp
  qed
qed

end

end
