(* ===== verification/Stream_Joiner.thy ===== *)
theory Stream_Joiner
  imports Example_Joiner "HOL-Library.Char_ord" "HOL-Library.List_Lexorder" "HOL-Library.Product_Lexorder"
begin

text \<open>
  The stream joiner (\<open>data_join/joiner_impl/stream_joiner.py\<close>) and the generator of negative
  examples (\<open>data_join/negative_example_generator.py\<close>).

  The joiner fills a window of leader ids, then windows of follower examples until the follower's
  event times have passed the leader's, remembers which leader ids have been met, writes what is
  joined in the order of the leader window, and starts over with the next leader window.
  The products of a window's size with its rates are taken exactly, not in floating point.
\<close>

section \<open>Windows\<close>

text \<open>\<open>_CmpCtnt\<close>: by event time, then by example id.\<close>

type_synonym cmp_ctnt = "int \<times> string"

definition leader_key :: "leader_item \<Rightarrow> cmp_ctnt" where
  "leader_key x = (li_event_time x, li_example_id x)"

definition follower_key :: "'r block_item \<Rightarrow> cmp_ctnt" where
  "follower_key x = (it_event_time x, it_example_id x)"

record 'i join_window =
  jw_buffer :: "(int \<times> 'i) list"
  jw_cmp_ctnt :: "cmp_ctnt list"
  jw_cmp_ctnt_sorted :: bool
  jw_pt_rate :: rat
  jw_qt_rate :: rat
  jw_committed_pt :: "cmp_ctnt option"

definition new_join_window :: "rat \<Rightarrow> rat \<Rightarrow> 'i join_window" where
  "new_join_window pt_rate qt_rate =
     \<lparr>jw_buffer = [], jw_cmp_ctnt = [], jw_cmp_ctnt_sorted = True, jw_pt_rate = pt_rate,
      jw_qt_rate = qt_rate, jw_committed_pt = None\<rparr>"

definition jw_size :: "'i join_window \<Rightarrow> nat" where
  "jw_size w = length (jw_buffer w)"

definition jw_append :: "('i \<Rightarrow> cmp_ctnt) \<Rightarrow> int \<Rightarrow> 'i \<Rightarrow> 'i join_window \<Rightarrow> 'i join_window" where
  "jw_append key index item w =
     w\<lparr>jw_cmp_ctnt_sorted := (if jw_cmp_ctnt w \<noteq> [] \<and> key item < last (jw_cmp_ctnt w) then False
                            else jw_cmp_ctnt_sorted w),
       jw_cmp_ctnt := jw_cmp_ctnt w @ [key item],
       jw_buffer := jw_buffer w @ [(index, item)]\<rparr>"

text \<open>\<open>_cal_pt\<close> sorts the keys, but not the buffer.\<close>

definition cal_pt :: "rat \<Rightarrow> ('i join_window, cmp_ctnt option) sx" where
  "cal_pt rate = sx_bind sx_get (\<lambda>w.
     if jw_buffer w = [] then sx_return None
     else sx_bind
            (if \<not> jw_cmp_ctnt_sorted w
             then sx_modify (\<lambda>w. w\<lparr>jw_cmp_ctnt := sort (jw_cmp_ctnt w), jw_cmp_ctnt_sorted := True\<rparr>)
             else sx_return ()) (\<lambda>_.
          sx_bind sx_get (\<lambda>w.
          let pos = nat \<lfloor>of_nat (length (jw_buffer w)) * rate\<rfloor>;
              pos = (if pos = length (jw_buffer w) then length (jw_buffer w) - 1 else pos)
          in (\<lambda>w. (map_sum id Some (list_at (jw_cmp_ctnt w) (int pos)), w)))))"

definition forward_pt :: "('i join_window, bool) sx" where
  "forward_pt = sx_bind sx_get (\<lambda>w.
     if length (jw_buffer w) = 0 then sx_return False
     else sx_bind (cal_pt (jw_pt_rate w)) (\<lambda>new_pt.
          if jw_committed_pt w = None \<or> the (jw_committed_pt w) < the new_pt
          then sx_bind (sx_modify (\<lambda>w. w\<lparr>jw_committed_pt := new_pt\<rparr>)) (\<lambda>_. sx_return True)
          else sx_return False))"

definition jw_qt :: "('i join_window, cmp_ctnt option) sx" where
  "jw_qt = sx_bind sx_get (\<lambda>w. cal_pt (jw_qt_rate w))"

definition jw_reset :: "('i \<Rightarrow> cmp_ctnt) \<Rightarrow> (int \<times> 'i) list \<Rightarrow> bool \<Rightarrow> 'i join_window \<Rightarrow> 'i join_window" where
  "jw_reset key new_buffer state_stale w =
     (let ctnt = map (\<lambda>(index, item). key item) new_buffer
      in w\<lparr>jw_cmp_ctnt := ctnt, jw_buffer := new_buffer,
           jw_committed_pt := (if state_stale then None else jw_committed_pt w),
           jw_cmp_ctnt_sorted := sorted ctnt\<rparr>)"

section \<open>Filling a window\<close>

text \<open>Items without an id or an event time are passed over.\<close>

abbreviation key_valid :: "cmp_ctnt \<Rightarrow> bool" where
  "key_valid k \<equiv> snd k \<noteq> [] \<and> fst k \<noteq> InvalidEventTime"

type_synonym 'i item_cache = "(string \<times> int \<times> 'i) list"

text \<open>
  \<open>_consume_item_until_count\<close> and \<open>_fill_join_windows\<close> work on a visitor, a window and, for the
  follower, a cache.
\<close>

type_synonym ('v, 'i) fill_state = "'v \<times> 'i join_window \<times> 'i item_cache option"

definition take_item ::
    "('i \<Rightarrow> cmp_ctnt) \<Rightarrow> int \<Rightarrow> 'i \<Rightarrow> ('v, 'i) fill_state \<Rightarrow> ('v, 'i) fill_state" where
  "take_item key index item = (\<lambda>(v, w, c).
     (v, jw_append key index item w, map_option (AList.update (snd (key item)) (index, item)) c))"

definition fs_next :: "('v, 'i) visitor_ops \<Rightarrow> (('v, 'i) fill_state, (int \<times> 'i) option) sx" where
  "fs_next vo = (\<lambda>(v, w, c).
     case vo_next vo v of
       (Inr x, v) \<Rightarrow> (Inr (Some x), v, w, c)
     | (Inl e, v) \<Rightarrow> (if e = StopIteration then Inr None else Inl e, v, w, c))"

definition fs_finished :: "('v, 'i) visitor_ops \<Rightarrow> ('v, 'i) fill_state \<Rightarrow> bool" where
  "fs_finished vo = (\<lambda>(v, w, c). vo_finished vo v)"

definition fs_size :: "('v, 'i) fill_state \<Rightarrow> nat" where
  "fs_size = (\<lambda>(v, w, c). jw_size w)"

text \<open>The loops are written on the state itself, so that it is clear where they go on.\<close>

partial_function (option) consume_item_until_count ::
    "('v, 'i) visitor_ops \<Rightarrow> ('i \<Rightarrow> cmp_ctnt) \<Rightarrow> nat \<Rightarrow> (('v, 'i) fill_state, unit) ox" where
  "consume_item_until_count vo key required_item_count s =
     ox_bind (ox_lift (fs_next vo)) (\<lambda>r s.
     case r of
       None \<Rightarrow> ox_lift (sx_assert (fs_finished vo s)) s
     | Some x \<Rightarrow>
         if \<not> key_valid (key (snd x)) then consume_item_until_count vo key required_item_count s
         else ox_bind (ox_lift (sx_modify (take_item key (fst x) (snd x)))) (\<lambda>_ s.
              if required_item_count \<le> fs_size s then ox_return () s
              else consume_item_until_count vo key required_item_count s) s) s"

definition fs_forward_pt :: "(('v, 'i) fill_state, bool) sx" where
  "fs_forward_pt = (\<lambda>(v, w, c). case forward_pt w of (r, w) \<Rightarrow> (r, v, w, c))"

definition required_count :: "nat \<Rightarrow> nat \<Rightarrow> nat \<Rightarrow> nat" where
  "required_count min_window max_window sz =
     (let n = (if min_window \<le> sz then 2 * min_window else min_window)
      in if max_window \<le> n then max_window else n)"

partial_function (option) fill_join_windows ::
    "('v, 'i) visitor_ops \<Rightarrow> ('i \<Rightarrow> cmp_ctnt) \<Rightarrow> nat \<Rightarrow> nat \<Rightarrow> (('v, 'i) fill_state, bool) ox" where
  "fill_join_windows vo key min_window max_window s =
     (if \<not> fs_finished vo s \<and> fs_size s < max_window
      then ox_bind (consume_item_until_count vo key (required_count min_window max_window (fs_size s))) (\<lambda>_.
           ox_bind (ox_lift fs_forward_pt) (\<lambda>forwarded s.
           if forwarded then ox_return True s else fill_join_windows vo key min_window max_window s)) s
      else ox_return (max_window \<le> fs_size s) s)"

section \<open>The joiner\<close>

record ('l, 'f, 'r) stream_joiner = "('l, 'f, 'r) joiner" +
  sj_leader_join_window :: "leader_item join_window"
  sj_follower_join_window :: "'r block_item join_window"
  sj_joined_cache :: "'r block_item item_cache"
  sj_leader_unjoined_example_ids :: "string list"
  sj_follower_example_cache :: "'r block_item item_cache"
  sj_fill_leader_enough :: bool
  sj_negative_buf :: "(int \<times> leader_item) list"
  sj_negative_prev_index :: int

type_synonym ('l, 'f, 'r, 'a) sjx = "(('l, 'f, 'r) stream_joiner, 'a) sx"
type_synonym ('l, 'f, 'r, 'a) sjo = "(('l, 'f, 'r) stream_joiner, 'a) ox"

definition reset_joiner_state :: "bool \<Rightarrow> ('l, 'f, 'r) stream_joiner \<Rightarrow> ('l, 'f, 'r) stream_joiner" where
  "reset_joiner_state state_stale s =
     (let s = s\<lparr>sj_leader_join_window := jw_reset leader_key [] state_stale (sj_leader_join_window s),
                sj_fill_leader_enough := False, sj_joined_cache := [], sj_leader_unjoined_example_ids := []\<rparr>
      in if state_stale
         then s\<lparr>sj_follower_join_window := jw_reset follower_key [] True (sj_follower_join_window s),
                sj_follower_example_cache := []\<rparr>
         else s)"

text \<open>The constructor, before and after the data block manager has been made.\<close>

definition joiner_over ::
    "('l, 'f, 'r) joiner_env \<Rightarrow> 'l \<Rightarrow> 'f \<Rightarrow> 'r block_world \<Rightarrow> ('l, 'f, 'r) stream_joiner result" where
  "joiner_over en l f w =
     (case init_joiner en
        \<lparr>ej_leader_visitor = l, ej_follower_visitor = f, ej_world = w,
         ej_joiner_stats = new_joiner_stats 0 (- 1) (- 1) (je_stats_windows_size en), ej_builder = None,
         ej_state_stale = False, ej_follower_restart_index = 0, ej_sync_example_id_finished = False,
         ej_raw_data_finished = False, ej_join_finished = False, ej_yielded = [],
         sj_leader_join_window = new_join_window (1 / 20) (99 / 100),
         sj_follower_join_window = new_join_window (1 / 20) (90 / 100),
         sj_joined_cache = [], sj_leader_unjoined_example_ids = [], sj_follower_example_cache = [],
         sj_fill_leader_enough = False, sj_negative_buf = [], sj_negative_prev_index = 0\<rparr> of
        (Inl e, _) \<Rightarrow> Inl e
      | (Inr _, s) \<Rightarrow> Inr (reset_joiner_state True s))"

definition new_stream_joiner ::
    "('l, 'f, 'r) joiner_env \<Rightarrow> 'l \<Rightarrow> 'f \<Rightarrow> 'r block_fs \<Rightarrow> ('l, 'f, 'r) stream_joiner result" where
  "new_stream_joiner en l f fs =
     (case new_data_block_manager (je_block en) (je_partition en) fs of
        (Inl e, _) \<Rightarrow> Inl e
      | (Inr _, w) \<Rightarrow> joiner_over en l f w)"

definition on_leader_window :: "(leader_item join_window, 'a) sx \<Rightarrow> ('l, 'f, 'r, 'a) sjx" where
  "on_leader_window f s =
     (case f (sj_leader_join_window s) of (r, w) \<Rightarrow> (r, s\<lparr>sj_leader_join_window := w\<rparr>))"

definition on_follower_window :: "('r block_item join_window, 'a) sx \<Rightarrow> ('l, 'f, 'r, 'a) sjx" where
  "on_follower_window f s =
     (case f (sj_follower_join_window s) of (r, w) \<Rightarrow> (r, s\<lparr>sj_follower_join_window := w\<rparr>))"

definition on_leader_fill :: "(('l, leader_item) fill_state, 'a) ox \<Rightarrow> ('l, 'f, 'r, 'a) sjo" where
  "on_leader_fill f s =
     (case f (ej_leader_visitor s, sj_leader_join_window s, None) of
        None \<Rightarrow> None
      | Some (r, v, w, c) \<Rightarrow> Some (r, s\<lparr>ej_leader_visitor := v, sj_leader_join_window := w\<rparr>))"

definition on_follower_fill :: "(('f, 'r block_item) fill_state, 'a) ox \<Rightarrow> ('l, 'f, 'r, 'a) sjo" where
  "on_follower_fill f s =
     (case f (ej_follower_visitor s, sj_follower_join_window s, Some (sj_follower_example_cache s)) of
        None \<Rightarrow> None
      | Some (r, v, w, c) \<Rightarrow> Some (r, s\<lparr>ej_follower_visitor := v, sj_follower_join_window := w,
          sj_follower_example_cache := the c\<rparr>))"

definition window_ids :: "('i \<Rightarrow> cmp_ctnt) \<Rightarrow> nat \<Rightarrow> 'i join_window \<Rightarrow> (int \<times> string) list" where
  "window_ids key start_pos w = map (\<lambda>(index, item). (index, snd (key item))) (drop start_pos (jw_buffer w))"

definition fill_leader_join_window ::
    "('l, 'f, 'r) joiner_env \<Rightarrow> bool \<Rightarrow> ('l, 'f, 'r, bool) sjo" where
  "fill_leader_join_window en sync_example_id_finished = ox_bind (ox_lift sx_get) (\<lambda>s0.
     if sj_fill_leader_enough s0 then ox_return True
     else ox_bind (on_leader_fill (fill_join_windows (je_leader en) leader_key (je_min_window en) (je_max_window en)))
       (\<lambda>filled.
       ox_lift (sx_bind (sx_modify (\<lambda>s.
         let enough = (if filled then True else sync_example_id_finished)
         in s\<lparr>sj_fill_leader_enough := enough,
              sj_leader_unjoined_example_ids :=
                (if enough then map (\<lambda>(index, item). li_example_id item) (jw_buffer (sj_leader_join_window s))
                 else sj_leader_unjoined_example_ids s),
              ej_joiner_stats := fill_leader_example_ids (je_hash en)
                (window_ids leader_key (jw_size (sj_leader_join_window s0)) (sj_leader_join_window s))
                (ej_joiner_stats s)\<rparr>)) (\<lambda>_.
       sx_bind sx_get (\<lambda>s. sx_return (sj_fill_leader_enough s))))))"

definition fill_follower_join_window ::
    "('l, 'f, 'r) joiner_env \<Rightarrow> bool \<Rightarrow> ('l, 'f, 'r, bool) sjo" where
  "fill_follower_join_window en raw_data_finished = ox_bind (ox_lift sx_get) (\<lambda>s0.
     ox_bind (on_follower_fill (fill_join_windows (je_follower en) follower_key (je_min_window en) (je_max_window en)))
       (\<lambda>follower_enough.
       ox_lift (sx_bind (sx_modify (\<lambda>s. s\<lparr>ej_joiner_stats := fill_follower_example_ids (je_hash en)
           (window_ids follower_key (jw_size (sj_follower_join_window s0)) (sj_follower_join_window s))
           (ej_joiner_stats s)\<rparr>)) (\<lambda>_.
       sx_return (follower_enough \<or> raw_data_finished)))))"

definition need_delay_dump :: "('l, 'f, 'r) joiner_env \<Rightarrow> bool \<Rightarrow> ('l, 'f, 'r, bool) sjx" where
  "need_delay_dump en raw_data_finished = sx_bind sx_get (\<lambda>s.
     if vo_finished (je_follower en) (ej_follower_visitor s) \<and> raw_data_finished then sx_return False
     else sx_bind (on_leader_window jw_qt) (\<lambda>leader_qt.
          sx_bind (on_follower_window jw_qt) (\<lambda>follower_qt.
          sx_return (case (leader_qt, follower_qt) of
              (Some l, Some f) \<Rightarrow> if \<not> f < l then False else True
            | _ \<Rightarrow> True))))"

definition update_join_cache :: "('l, 'f, 'r) stream_joiner \<Rightarrow> ('l, 'f, 'r) stream_joiner" where
  "update_join_cache s =
     s\<lparr>sj_joined_cache :=
         fold (\<lambda>e c. case map_of (sj_follower_example_cache s) e of
                  None \<Rightarrow> c | Some x \<Rightarrow> AList.update e x c) (sj_leader_unjoined_example_ids s) (sj_joined_cache s),
       sj_leader_unjoined_example_ids :=
         filter (\<lambda>e. map_of (sj_follower_example_cache s) e = None) (sj_leader_unjoined_example_ids s)\<rparr>"

text \<open>\<open>_finish_data_block\<close> of the stream joiner\<close>

definition sj_finish_data_block ::
    "('l, 'f, 'r) joiner_env \<Rightarrow> join_choice \<Rightarrow> ('l, 'f, 'r, data_block_meta option) sjx" where
  "sj_finish_data_block en ch =
     sx_bind (joiner_finish_block en ch) (\<lambda>meta.
     sx_bind (on_follower (vo_get_index (je_follower en))) (\<lambda>i.
     sx_bind (sx_modify (\<lambda>s.
       let i = (if 0 < jw_size (sj_follower_join_window s) then fst (hd (jw_buffer (sj_follower_join_window s)))
                else i)
       in s\<lparr>ej_follower_restart_index := fold (\<lambda>(e, index, item) i. if index < i then index else i)
              (sj_joined_cache s) i\<rparr>)) (\<lambda>_.
     sx_return meta)))"

definition append_joined ::
    "('l, 'f, 'r) joiner_env \<Rightarrow> join_choice \<Rightarrow> 'r block_item \<Rightarrow> int \<Rightarrow> int \<Rightarrow> int \<Rightarrow> ('l, 'f, 'r, unit) sjx" where
  "append_joined en ch item leader_index follower_index joined =
     sx_bind (joiner_get_builder en ch True) (\<lambda>_.
     on_builder (append_item (je_block en) item leader_index follower_index None False joined))"

definition yield_if_full :: "('l, 'f, 'r) joiner_env \<Rightarrow> join_choice \<Rightarrow> ('l, 'f, 'r, unit) sjx" where
  "yield_if_full en ch = sx_bind sx_get (\<lambda>s.
     if (case ej_builder s of None \<Rightarrow> False | Some b \<Rightarrow> check_data_block_full b)
     then sx_bind (sj_finish_data_block en ch) yield_meta else sx_return ())"

text \<open>
  \<open>generate\<close> of the negative example generator, with the body of the loop that runs over what it
  yields.
\<close>

fun negative_loop ::
    "('l, 'f, 'r) joiner_env \<Rightarrow> join_choice \<Rightarrow> int list \<Rightarrow> ('l, 'f, 'r, unit) sjx" where
  "negative_loop en ch [] = sx_return ()"
| "negative_loop en ch (idx # idxs) = sx_bind sx_get (\<lambda>s.
     case map_of (sj_negative_buf s) idx of
       None \<Rightarrow> negative_loop en ch idxs
     | Some x \<Rightarrow>
         if jc_skip ch idx then negative_loop en ch idxs
         else sx_bind (append_joined en ch (je_make_fake en (li_example_id x) (li_event_time x)) idx 0 0) (\<lambda>_.
              sx_bind (yield_if_full en ch) (\<lambda>_.
              sx_bind (sx_modify (\<lambda>s. s\<lparr>sj_negative_buf := AList.delete idx (sj_negative_buf s)\<rparr>)) (\<lambda>_.
              negative_loop en ch idxs))))"

definition generate_negatives ::
    "('l, 'f, 'r) joiner_env \<Rightarrow> join_choice \<Rightarrow> int \<Rightarrow> ('l, 'f, 'r, unit) sjx" where
  "generate_negatives en ch leader_idx = sx_bind sx_get (\<lambda>s.
     sx_bind (negative_loop en ch [sj_negative_prev_index s..leader_idx - 1]) (\<lambda>_.
     sx_modify (\<lambda>s.
       s\<lparr>sj_negative_buf := filter (\<lambda>(k, v). \<not> k < sj_negative_prev_index s) (sj_negative_buf s),
         sj_negative_prev_index := (if sj_negative_prev_index s < leader_idx then leader_idx
                                    else sj_negative_prev_index s)\<rparr>)))"

text \<open>One round of the loop of \<open>_dump_joined_items\<close>, and the loop.\<close>

definition dump_leader_item ::
    "('l, 'f, 'r) joiner_env \<Rightarrow> join_choice \<Rightarrow> int \<Rightarrow> leader_item \<Rightarrow> ('l, 'f, 'r, unit) sjx" where
  "dump_leader_item en ch leader_idx leader_item = sx_bind sx_get (\<lambda>s.
     let eid = li_example_id leader_item in
     if map_of (sj_follower_example_cache s) eid = None \<and> map_of (sj_joined_cache s) eid = None
     then (if je_negatives en
           then sx_modify (\<lambda>s. s\<lparr>sj_negative_buf := AList.update leader_idx leader_item (sj_negative_buf s)\<rparr>)
           else sx_return ())
     else sx_bind (sx_modify (\<lambda>s.
            if map_of (sj_joined_cache s) eid = None
            then s\<lparr>sj_joined_cache := AList.update eid (the (map_of (sj_follower_example_cache s) eid))
                     (sj_joined_cache s)\<rparr>
            else s)) (\<lambda>_.
          sx_bind (if je_negatives en then generate_negatives en ch leader_idx else sx_return ()) (\<lambda>_.
          sx_bind sx_get (\<lambda>s.
          let (follower_idx, item) = the (map_of (sj_joined_cache s) eid) in
          sx_bind (append_joined en ch item leader_idx follower_idx 1) (\<lambda>_.
          yield_if_full en ch)))))"

fun dump_leader_items ::
    "('l, 'f, 'r) joiner_env \<Rightarrow> join_choice \<Rightarrow> (int \<times> leader_item) list \<Rightarrow> ('l, 'f, 'r, unit) sjx" where
  "dump_leader_items en ch [] = sx_return ()"
| "dump_leader_items en ch ((leader_idx, leader_item) # items) =
     sx_bind (dump_leader_item en ch leader_idx leader_item) (\<lambda>_. dump_leader_items en ch items)"

definition dump_joined_items :: "('l, 'f, 'r) joiner_env \<Rightarrow> join_choice \<Rightarrow> ('l, 'f, 'r, unit) sjx" where
  "dump_joined_items en ch = sx_bind sx_get (\<lambda>s.
     dump_leader_items en ch (jw_buffer (sj_leader_join_window s)))"

section \<open>Eviction\<close>

definition evict_if_useless :: "'r block_item \<Rightarrow> ('l, 'f, 'r, bool) sjx" where
  "evict_if_useless item = sx_bind sx_get (\<lambda>s. sx_return
     ((case jw_committed_pt (sj_leader_join_window s) of None \<Rightarrow> True | Some pt \<Rightarrow> follower_key item < pt) \<or>
      map_of (sj_joined_cache s) (it_example_id item) \<noteq> None))"

definition evict_if_force :: "'r block_item \<Rightarrow> ('l, 'f, 'r, bool) sjx" where
  "evict_if_force item = sx_bind (on_leader_window jw_qt) (\<lambda>qt.
     sx_return (case qt of None \<Rightarrow> True | Some q \<Rightarrow> follower_key item < q))"

fun evict_impl ::
    "('r block_item \<Rightarrow> ('l, 'f, 'r, bool) sjx) \<Rightarrow> (int \<times> 'r block_item) list \<Rightarrow>
     ('l, 'f, 'r, (int \<times> 'r block_item) list) sjx" where
  "evict_impl filter_fn [] = sx_return []"
| "evict_impl filter_fn ((index, item) # candidates) =
     sx_bind (filter_fn item) (\<lambda>evict.
     if evict
     then sx_bind (sx_modify (\<lambda>s. s\<lparr>sj_follower_example_cache :=
            AList.delete (it_example_id item) (sj_follower_example_cache s)\<rparr>)) (\<lambda>_.
          evict_impl filter_fn candidates)
     else sx_bind (evict_impl filter_fn candidates) (\<lambda>reserved. sx_return ((index, item) # reserved)))"

definition evict_stale_follower_cache :: "('l, 'f, 'r) joiner_env \<Rightarrow> ('l, 'f, 'r, unit) sjx" where
  "evict_stale_follower_cache en = sx_bind sx_get (\<lambda>s.
     sx_bind (evict_impl evict_if_useless (jw_buffer (sj_follower_join_window s))) (\<lambda>reserved.
     sx_bind (if length reserved < je_max_window en then sx_return reserved
              else evict_impl evict_if_force reserved) (\<lambda>reserved.
     sx_modify (\<lambda>s. s\<lparr>sj_follower_join_window :=
       jw_reset follower_key reserved False (sj_follower_join_window s)\<rparr>))))"

section \<open>The routine\<close>

definition half_window :: "('l, 'f, 'r) joiner_env \<Rightarrow> 'i join_window \<Rightarrow> bool" where
  "half_window en w \<longleftrightarrow> 2 * jw_size w \<le> je_min_window en"

definition follower_turn :: "('l, 'f, 'r) joiner_env \<Rightarrow> join_choice \<Rightarrow> bool \<Rightarrow> ('l, 'f, 'r, unit) sjx" where
  "follower_turn en ch delay_dump =
     sx_bind (if delay_dump then sx_modify update_join_cache else dump_joined_items en ch) (\<lambda>_.
     evict_stale_follower_cache en)"

text \<open>The inner loop; its values are \<open>delay_dump\<close> and \<open>follower_exhausted\<close>.\<close>

partial_function (option) follower_loop ::
    "('l, 'f, 'r) joiner_env \<Rightarrow> join_choice \<Rightarrow> bool \<Rightarrow> bool \<Rightarrow> bool \<Rightarrow> ('l, 'f, 'r, bool \<times> bool) sjo" where
  "follower_loop en ch raw_data_finished delay_dump follower_exhausted s =
     (if \<not> delay_dump then ox_return (delay_dump, follower_exhausted) s
      else ox_bind (fill_follower_join_window en raw_data_finished) (\<lambda>filled s1.
        if \<not> filled then ox_return (delay_dump, follower_exhausted) s1
        else ox_bind (ox_lift (need_delay_dump en raw_data_finished)) (\<lambda>delay.
             ox_bind (ox_lift (follower_turn en ch delay)) (\<lambda>_.
             follower_loop en ch raw_data_finished delay
               (raw_data_finished \<and> half_window en (sj_follower_join_window s1)))) s1) s)"

definition join_data_finished :: "bool \<Rightarrow> bool \<times> bool \<Rightarrow> bool" where
  "join_data_finished leader_exhausted = (\<lambda>(delay_dump, follower_exhausted).
     if leader_exhausted then \<not> delay_dump else if follower_exhausted then True else False)"

text \<open>The outer loop; its value is \<open>join_data_finished\<close>.\<close>

partial_function (option) leader_loop ::
    "('l, 'f, 'r) joiner_env \<Rightarrow> join_choice \<Rightarrow> bool \<Rightarrow> bool \<Rightarrow> ('l, 'f, 'r, bool) sjo" where
  "leader_loop en ch sync_example_id_finished raw_data_finished s =
     ox_bind (fill_leader_join_window en sync_example_id_finished) (\<lambda>filled s1.
     if \<not> filled then ox_return False s1
     else ox_bind (follower_loop en ch raw_data_finished True False) (\<lambda>r.
          ox_bind (ox_lift (if \<not> fst r then sx_modify (reset_joiner_state False) else sx_return ())) (\<lambda>_ s.
          if fst r \<or> join_data_finished (sync_example_id_finished \<and> half_window en (sj_leader_join_window s1)) r
          then ox_return (join_data_finished
                 (sync_example_id_finished \<and> half_window en (sj_leader_join_window s1)) r) s
          else leader_loop en ch sync_example_id_finished raw_data_finished s)) s1) s"

declare consume_item_until_count.simps [code] fill_join_windows.simps [code]
  follower_loop.simps [code] leader_loop.simps [code]

definition sj_prepare_join ::
    "('l, 'f, 'r) joiner_env \<Rightarrow> bool \<Rightarrow> ('l, 'f, 'r, bool \<times> bool) sjx" where
  "sj_prepare_join en state_stale =
     sx_bind (sx_modify (\<lambda>s. if state_stale then reset_joiner_state True s else s)) (\<lambda>_.
     prepare_join en state_stale)"

definition stream_inner_joiner ::
    "('l, 'f, 'r) joiner_env \<Rightarrow> join_choice \<Rightarrow> bool \<Rightarrow> ('l, 'f, 'r, unit) sjo" where
  "stream_inner_joiner en ch state_stale = ox_bind (ox_lift sx_get) (\<lambda>s.
     if ej_join_finished s then ox_return ()
     else ox_bind (ox_lift (sj_prepare_join en state_stale)) (\<lambda>(sync_example_id_finished, raw_data_finished).
          ox_bind (leader_loop en ch sync_example_id_finished raw_data_finished) (\<lambda>finished.
          ox_lift (sx_bind (joiner_get_builder en ch False) (\<lambda>builder.
          sx_bind
            (if builder \<noteq> None \<and> (jc_interval_passed ch \<or> finished)
             then sx_bind (sj_finish_data_block en ch) yield_meta else sx_return ()) (\<lambda>_.
          if finished then sx_modify (\<lambda>s. s\<lparr>ej_join_finished := True\<rparr>) else sx_return ()))))))"

definition run_stream_joiner ::
    "('l, 'f, 'r) joiner_env \<Rightarrow> join_choice \<Rightarrow> ('l, 'f, 'r, unit) sjo" where
  "run_stream_joiner en ch = with_example_joiner (stream_inner_joiner en ch)"

end
