(* ===== verification/Stream_Joining.thy ===== *)
theory Stream_Joining
  imports Joining Stream_Joiner
begin

text \<open>
  What the stream joiner keeps: the windows and caches hold what the visitors have read, and the
  blocks it publishes pair leader and follower examples of equal id, once each leader example.
\<close>

section \<open>Reasoning about loops that may not end\<close>

text \<open>As \<open>sx_ok\<close>, where there is an outcome.\<close>

definition ox_ok ::
    "('s \<Rightarrow> bool) \<Rightarrow> ('s, 'a) ox \<Rightarrow> ('a \<Rightarrow> 's \<Rightarrow> bool) \<Rightarrow> ('s \<Rightarrow> bool) \<Rightarrow> bool" where
  "ox_ok P f Q I \<longleftrightarrow>
     (\<forall>s. P s \<longrightarrow> (case f s of None \<Rightarrow> True | Some (Inl _, s') \<Rightarrow> I s' | Some (Inr a, s') \<Rightarrow> Q a s'))"

lemma ox_okD:
  assumes "ox_ok P f Q I" "P s"
  shows "f s = Some (Inr a, s') \<Longrightarrow> Q a s'" "f s = Some (Inl e, s') \<Longrightarrow> I s'"
  using assms by (fastforce simp: ox_ok_def)+

lemma ox_okI:
  assumes "\<And>s r s'. P s \<Longrightarrow> f s = Some (r, s') \<Longrightarrow> case r of Inl _ \<Rightarrow> I s' | Inr a \<Rightarrow> Q a s'"
  shows "ox_ok P f Q I"
  using assms by (fastforce simp: ox_ok_def split: option.splits sum.splits)

lemma ox_ok_lift: "sx_ok P f Q I \<Longrightarrow> ox_ok P (ox_lift f) Q I"
  by (auto simp: ox_ok_def sx_ok_def ox_lift_def split: prod.splits sum.splits)

lemma ox_ok_if:
  "ox_ok (\<lambda>s. P s \<and> b s) f Q I \<Longrightarrow> ox_ok (\<lambda>s. P s \<and> \<not> b s) g Q I \<Longrightarrow>
   ox_ok P (\<lambda>s. if b s then f s else g s) Q I"
  by (auto simp: ox_ok_def)

lemma ox_ok_diag: "(\<And>s1. ox_ok P (g s1) Q I) \<Longrightarrow> ox_ok P (\<lambda>s. g s s) Q I"
  by (simp add: ox_ok_def)

lemma ox_ok_bind:
  assumes "ox_ok P f R I" "\<And>a. ox_ok (R a) (g a) Q I"
  shows "ox_ok P (ox_bind f g) Q I"
proof (rule ox_okI)
  fix s r s' assume P: "P s" and run: "ox_bind f g s = Some (r, s')"
  then consider e where "r = Inl e" "f s = Some (Inl e, s')" | a s1 where "f s = Some (Inr a, s1)" "g a s1 = Some (r, s')"
    by (auto simp: ox_bind_def split: option.splits sum.splits)
  then show "case r of Inl _ \<Rightarrow> I s' | Inr a \<Rightarrow> Q a s'"
  proof cases
    case 1
    then show ?thesis using ox_okD(2) [OF assms(1) P] by simp
  next
    case 2
    have "R a s1" using ox_okD(1) [OF assms(1) P 2(1)] .
    then show ?thesis using ox_okD [OF assms(2)] 2(2) by (cases r) auto
  qed
qed

lemma ox_ok_pre: "ox_ok P f Q I \<Longrightarrow> (\<And>s. P' s \<Longrightarrow> P s) \<Longrightarrow> ox_ok P' f Q I"
  by (auto simp: ox_ok_def)

lemma ox_ok_pure: "(b \<Longrightarrow> ox_ok P f Q I) \<Longrightarrow> ox_ok (\<lambda>s. P s \<and> b) f Q I"
  by (auto simp: ox_ok_def)

lemma ox_ok_get: "ox_ok P (ox_lift sx_get) (\<lambda>s0 s. P s \<and> s0 = s) I"
  by (intro ox_ok_lift sx_ok_get)

text \<open>One outcome at a time, for the induction over a loop.\<close>

definition outcome_ok :: "('a \<Rightarrow> 's \<Rightarrow> bool) \<Rightarrow> ('s \<Rightarrow> bool) \<Rightarrow> 'a result \<times> 's \<Rightarrow> bool" where
  "outcome_ok Q I y = (case fst y of Inl _ \<Rightarrow> I (snd y) | Inr a \<Rightarrow> Q a (snd y))"

lemma ox_ok_outcome: "ox_ok P f Q I \<longleftrightarrow> (\<forall>s y. P s \<longrightarrow> f s = Some y \<longrightarrow> outcome_ok Q I y)"
  by (auto simp: ox_ok_def outcome_ok_def split: option.splits sum.splits)

lemma ox_okE: "ox_ok P f Q I \<Longrightarrow> P s \<Longrightarrow> f s = Some y \<Longrightarrow> outcome_ok Q I y"
  unfolding ox_ok_outcome by blast

section \<open>Windows of what was read\<close>

definition win_ok :: "(int \<Rightarrow> 'i) \<Rightarrow> int \<Rightarrow> int \<Rightarrow> (int \<times> 'i) list \<Rightarrow> bool" where
  "win_ok data lo hi xs \<longleftrightarrow>
     sorted_wrt (\<lambda>x y. fst x < fst y) xs \<and> (\<forall>x \<in> set xs. snd x = data (fst x) \<and> lo \<le> fst x \<and> fst x \<le> hi)"

lemma win_ok_Nil [simp]: "win_ok data lo hi []"
  by (simp add: win_ok_def)

lemma win_ok_snoc: "win_ok data lo hi xs \<Longrightarrow> hi < i \<Longrightarrow> lo \<le> i \<Longrightarrow> win_ok data lo i (xs @ [(i, data i)])"
  by (fastforce simp: win_ok_def sorted_wrt_append)

lemma win_ok_mono: "win_ok data lo hi xs \<Longrightarrow> lo' \<le> lo \<Longrightarrow> hi \<le> hi' \<Longrightarrow> win_ok data lo' hi' xs"
  by (fastforce simp: win_ok_def)

lemma win_ok_tl: "win_ok data lo hi (x # xs) \<Longrightarrow> win_ok data (fst x + 1) hi xs"
  by (fastforce simp: win_ok_def)

lemma subseq_set: "subseq ys xs \<Longrightarrow> set ys \<subseteq> set xs"
  by (induction rule: list_emb.induct) auto

lemma sorted_wrt_subseq: "subseq ys xs \<Longrightarrow> sorted_wrt R xs \<Longrightarrow> sorted_wrt R ys"
proof (induction rule: list_emb.induct)
  case (list_emb_Cons2 y x ys xs)
  then show ?case using subseq_set [of ys xs] by auto
qed auto

lemma win_ok_subseq: "win_ok data lo hi xs \<Longrightarrow> subseq ys xs \<Longrightarrow> win_ok data lo hi ys"
  using sorted_wrt_subseq [of ys xs] subseq_set [of ys xs] unfolding win_ok_def by blast

definition cached_in :: "('i \<Rightarrow> cmp_ctnt) \<Rightarrow> (int \<times> 'i) list \<Rightarrow> 'i item_cache \<Rightarrow> bool" where
  "cached_in key xs c \<longleftrightarrow> (\<forall>e x. map_of c e = Some x \<longrightarrow> x \<in> set xs \<and> snd (key (snd x)) = e)"

lemma cached_in_put:
  "cached_in key xs c \<Longrightarrow> cached_in key (xs @ [x]) (AList.update (snd (key (snd x))) x c)"
  by (auto simp: cached_in_def update_conv split: if_splits)

text \<open>The percentiles sort the keys and leave the buffer.\<close>

lemma cal_pt_buffer: "cal_pt rate w = (r, w') \<Longrightarrow> jw_buffer w' = jw_buffer w"
  by (auto simp: cal_pt_def sx_bind_def sx_modify_def Let_def split: if_splits)

lemma forward_pt_buffer: "forward_pt w = (r, w') \<Longrightarrow> jw_buffer w' = jw_buffer w"
  by (auto simp: forward_pt_def sx_bind_def sx_modify_def split: if_splits prod.splits sum.splits
      dest!: cal_pt_buffer)

lemma jw_qt_buffer: "jw_qt w = (r, w') \<Longrightarrow> jw_buffer w' = jw_buffer w"
  by (auto simp: jw_qt_def sx_bind_def dest: cal_pt_buffer)

context join_source
begin

lemma cursor_next_cases:
  "fst (cursor_next N c) = Inl StopIteration \<and> cursor_at (snd (cursor_next N c)) = cursor_at c \<or>
   fst (cursor_next N c) = Inr (cursor_at c + 1) \<and> cursor_at (snd (cursor_next N c)) = cursor_at c + 1"
  by (cases "cu_pos c") (simp_all add: cursor_next_def Let_def cursor_goto_def cursor_at_def)

text \<open>A fill, from where the visitor stood at \<open>k\<close>.\<close>

definition fills :: "('i \<Rightarrow> cmp_ctnt) \<Rightarrow> bool \<Rightarrow> int \<Rightarrow> int \<Rightarrow> ('v, 'i) fill_state \<Rightarrow> bool" where
  "fills key cached lo k s \<longleftrightarrow> lo \<le> k + 1 \<and> (snd (snd s) \<noteq> None \<longleftrightarrow> cached) \<and>
     (\<exists>b N c. src (fst s) b N c \<and> k \<le> cursor_at c \<and> win_ok data lo (cursor_at c) (jw_buffer (fst (snd s))) \<and>
       (\<forall>ca. snd (snd s) = Some ca \<longrightarrow> cached_in key (jw_buffer (fst (snd s))) ca))"

lemma next_ok:
  "sx_ok (fills key cached lo k) (fs_next vo)
     (\<lambda>r s. case r of None \<Rightarrow> fills key cached lo k s
       | Some x \<Rightarrow> fills key cached lo k s \<and> fills key cached lo k (take_item key (fst x) (snd x) s)) (fills key cached lo k)"
proof -
  have "case fs_next vo s of (Inl _, s') \<Rightarrow> fills key cached lo k s'
      | (Inr r, s') \<Rightarrow> (case r of None \<Rightarrow> fills key cached lo k s'
         | Some x \<Rightarrow> fills key cached lo k s' \<and> fills key cached lo k (take_item key (fst x) (snd x) s'))"
    if ok: "fills key cached lo k s" for s
  proof -
    obtain v w ca where s: "s = (v, w, ca)" by (cases s)
    obtain b N c where f: "src v b N c" "k \<le> cursor_at c" "win_ok data lo (cursor_at c) (jw_buffer w)"
        "\<forall>x. ca = Some x \<longrightarrow> cached_in key (jw_buffer w) x" and lo: "lo \<le> k + 1" "ca \<noteq> None \<longleftrightarrow> cached"
      using ok by (auto simp: fills_def s)
    obtain v' where v': "vo_next vo v = (map_sum id (\<lambda>k. (k, data k)) (fst (cursor_next N c)), v')"
        "src v' b N (snd (cursor_next N c))" using follows_next [OF f(1)] by blast
    consider (stop) "fst (cursor_next N c) = Inl StopIteration" "cursor_at (snd (cursor_next N c)) = cursor_at c"
      | (item) "fst (cursor_next N c) = Inr (cursor_at c + 1)" "cursor_at (snd (cursor_next N c)) = cursor_at c + 1"
      using cursor_next_cases [of N c] by blast
    then show ?thesis
    proof cases
      case stop
      then have "\<exists>b N c. src v' b N c \<and> k \<le> cursor_at c \<and> win_ok data lo (cursor_at c) (jw_buffer w)"
        using v'(2) f(2,3) by metis
      then show ?thesis using v'(1) stop f(4) lo unfolding s fs_next_def fills_def by simp
    next
      case item
      have "win_ok data lo (cursor_at c + 1) (jw_buffer w)" by (rule win_ok_mono [OF f(3)]) simp_all
      moreover have "win_ok data lo (cursor_at c + 1) (jw_buffer w @ [(cursor_at c + 1, data (cursor_at c + 1))])"
        using win_ok_snoc [OF f(3)] lo f(2) by simp
      moreover have "cached_in key (jw_buffer w @ [(cursor_at c + 1, data (cursor_at c + 1))])
          (AList.update (snd (key (data (cursor_at c + 1)))) (cursor_at c + 1, data (cursor_at c + 1)) x)"
        if "ca = Some x" for x
        using cached_in_put [of key "jw_buffer w" x "(cursor_at c + 1, data (cursor_at c + 1))"] f(4) that by simp
      ultimately show ?thesis
        using v' item f lo unfolding s fs_next_def fills_def take_item_def jw_append_def by force
    qed
  qed
  then show ?thesis unfolding sx_ok_def by blast
qed

lemma forward_ok: "sx_ok (fills key cached lo k) fs_forward_pt (\<lambda>_. fills key cached lo k) (fills key cached lo k)"
proof -
  have "fills key cached lo k s'" if "fills key cached lo k s" "fs_forward_pt s = (r, s')" for s r s'
    using that by (cases s) (fastforce simp: fs_forward_pt_def fills_def dest!: forward_pt_buffer split: prod.splits)
  then show ?thesis by (auto intro!: sx_okI)
qed

lemma take_next_ok:
  "ox_ok (fills key cached lo k) (ox_lift (fs_next vo))
     (\<lambda>r s. fills key cached lo k s \<and> (\<forall>x. r = Some x \<longrightarrow> fills key cached lo k (take_item key (fst x) (snd x) s)))
     (fills key cached lo k)"
  by (rule ox_ok_lift, rule sx_ok_post [OF next_ok]) (auto split: option.splits)

lemma consume_ok:
  "ox_ok (fills key cached lo k) (consume_item_until_count vo key n) (\<lambda>_. fills key cached lo k) (fills key cached lo k)"
  unfolding ox_ok_outcome
proof (intro allI impI)
  fix s y
  assume s: "fills key cached lo k s" and run: "consume_item_until_count vo key n s = Some y"
  let ?P = "\<lambda>vo' key' n s y. vo' = vo \<longrightarrow> key' = key \<longrightarrow> fills key cached lo k s \<longrightarrow>
    outcome_ok (\<lambda>_. fills key cached lo k) (fills key cached lo k) y"
  have "?P vo key n s y"
  proof (rule consume_item_until_count.raw_induct [where P = ?P, OF _ run])
    fix rec vo' key' n s y
    assume IH: "\<And>vo' key' n s y. rec vo' key' n s = Some y \<Longrightarrow> ?P vo' key' n s y"
      and run: "ox_bind (ox_lift (fs_next vo')) (\<lambda>r s.
        case r of None \<Rightarrow> ox_lift (sx_assert (fs_finished vo' s)) s
        | Some x \<Rightarrow> if \<not> key_valid (key' (snd x)) then rec vo' key' n s
          else ox_bind (ox_lift (sx_modify (take_item key' (fst x) (snd x)))) (\<lambda>_ s.
            if n \<le> fs_size s then ox_return () s else rec vo' key' n s) s) s = Some y"
    show "?P vo' key' n s y"
    proof (intro impI)
      assume v: "vo' = vo" "key' = key" and s: "fills key cached lo k s"
      have rec: "ox_ok (fills key cached lo k) (rec vo key n) (\<lambda>_. fills key cached lo k) (fills key cached lo k)"
        unfolding ox_ok_outcome using IH by blast
      let ?R = "\<lambda>r s. fills key cached lo k s \<and> (\<forall>x. r = Some x \<longrightarrow> fills key cached lo k (take_item key (fst x) (snd x) s))"
      let ?take = "\<lambda>x. ox_bind (ox_lift (sx_modify (take_item key (fst x) (snd x)))) (\<lambda>_ s.
            if n \<le> fs_size s then ox_return () s else rec vo key n s)"
      let ?g = "\<lambda>r s. case r of None \<Rightarrow> ox_lift (sx_assert (fs_finished vo s)) s
        | Some x \<Rightarrow> if \<not> key_valid (key (snd x)) then rec vo key n s else ?take x s"
      have "ox_ok (?R r) (?g r) (\<lambda>_. fills key cached lo k) (fills key cached lo k)" for r
      proof (cases r)
        case None
        then show ?thesis by (auto simp: ox_ok_def ox_lift_def sx_assert_def)
      next
        case (Some x)
        have "ox_ok (fills key cached lo k) (\<lambda>s. if n \<le> fs_size s then ox_return () s else rec vo key n s)
            (\<lambda>_. fills key cached lo k) (fills key cached lo k)"
          using rec by (simp add: ox_ok_def ox_lift_def)
        then have "ox_ok (?R (Some x)) (?take x) (\<lambda>_. fills key cached lo k) (fills key cached lo k)"
          by (rule ox_ok_bind [OF ox_ok_lift, rotated]) (auto intro: sx_ok_modify)
        moreover have "ox_ok (?R (Some x)) (rec vo key n) (\<lambda>_. fills key cached lo k) (fills key cached lo k)"
          by (rule ox_ok_pre [OF rec]) simp
        ultimately show ?thesis by (cases "key_valid (key (snd x))") (simp_all add: Some)
      qed
      then have "ox_ok (fills key cached lo k) (ox_bind (ox_lift (fs_next vo)) ?g) (\<lambda>_. fills key cached lo k) (fills key cached lo k)"
        by (rule ox_ok_bind [OF take_next_ok])
      from ox_okE [OF this s run [unfolded v]] show "outcome_ok (\<lambda>_. fills key cached lo k) (fills key cached lo k) y" .
    qed
  qed
  then show "outcome_ok (\<lambda>_. fills key cached lo k) (fills key cached lo k) y" using s by blast
qed

lemma fill_ok:
  "ox_ok (fills key cached lo k) (fill_join_windows vo key mn mx) (\<lambda>_. fills key cached lo k) (fills key cached lo k)"
  unfolding ox_ok_outcome
proof (intro allI impI)
  fix s y
  assume s: "fills key cached lo k s" and run: "fill_join_windows vo key mn mx s = Some y"
  let ?P = "\<lambda>vo' key' mn mx s y. vo' = vo \<longrightarrow> key' = key \<longrightarrow> fills key cached lo k s \<longrightarrow>
    outcome_ok (\<lambda>_. fills key cached lo k) (fills key cached lo k) y"
  have "?P vo key mn mx s y"
  proof (rule fill_join_windows.raw_induct [where P = ?P, OF _ run])
    fix rec vo' key' mn mx s y
    assume IH: "\<And>vo' key' mn mx s y. rec vo' key' mn mx s = Some y \<Longrightarrow> ?P vo' key' mn mx s y"
      and run: "(if \<not> fs_finished vo' s \<and> fs_size s < mx
        then ox_bind (consume_item_until_count vo' key' (required_count mn mx (fs_size s))) (\<lambda>_.
             ox_bind (ox_lift fs_forward_pt) (\<lambda>forwarded s.
               if forwarded then ox_return True s else rec vo' key' mn mx s)) s
        else ox_return (mx \<le> fs_size s) s) = Some y"
    show "?P vo' key' mn mx s y"
    proof (intro impI)
      assume v: "vo' = vo" "key' = key" and s: "fills key cached lo k s"
      have rec: "ox_ok (fills key cached lo k) (rec vo key mn mx) (\<lambda>_. fills key cached lo k) (fills key cached lo k)"
        unfolding ox_ok_outcome using IH by blast
      have fw: "ox_ok (fills key cached lo k) (ox_lift fs_forward_pt) (\<lambda>_. fills key cached lo k) (fills key cached lo k)"
        by (rule ox_ok_lift, rule forward_ok)
      have "ox_ok (fills key cached lo k) (\<lambda>s. if forwarded then ox_return True s else rec vo key mn mx s)
          (\<lambda>_. fills key cached lo k) (fills key cached lo k)" for forwarded
        using rec by (cases forwarded) (auto simp: ox_ok_def ox_lift_def)
      then have "ox_ok (fills key cached lo k) (ox_bind (consume_item_until_count vo key m) (\<lambda>_.
             ox_bind (ox_lift fs_forward_pt) (\<lambda>forwarded s.
               if forwarded then ox_return True s else rec vo key mn mx s))) (\<lambda>_. fills key cached lo k) (fills key cached lo k)" for m
        by (rule ox_ok_bind [OF consume_ok ox_ok_bind [OF fw]])
      from ox_okE [OF this s] run [unfolded v] show "outcome_ok (\<lambda>_. fills key cached lo k) (fills key cached lo k) y"
        using s by (auto simp: ox_lift_def outcome_ok_def split: if_splits)
    qed
  qed
  then show "outcome_ok (\<lambda>_. fills key cached lo k) (fills key cached lo k) y" using s by blast
qed

end

section \<open>The invariant of the stream joiner\<close>

definition joined_in :: "(int \<Rightarrow> 'r block_item) \<Rightarrow> int \<Rightarrow> int \<Rightarrow> 'r block_item item_cache \<Rightarrow> bool" where
  "joined_in data lo hi c \<longleftrightarrow>
     (\<forall>x \<in> set c. snd (snd x) = data (fst (snd x)) \<and> it_example_id (snd (snd x)) = fst x \<and>
        lo \<le> fst (snd x) \<and> fst (snd x) \<le> hi)"

lemma joined_in_Nil [simp]: "joined_in data lo hi []"
  by (simp add: joined_in_def)

lemma joined_in_mono: "joined_in data lo hi c \<Longrightarrow> lo' \<le> lo \<Longrightarrow> hi \<le> hi' \<Longrightarrow> joined_in data lo' hi' c"
  by (fastforce simp: joined_in_def)

lemma joined_in_put:
  assumes "joined_in data lo hi c" "win_ok data lo hi xs" "cached_in follower_key xs fc" "map_of fc e = Some x"
  shows "joined_in data lo hi (AList.update e x c)"
proof -
  have "x \<in> set xs" "it_example_id (snd x) = e"
    using assms(3,4) unfolding cached_in_def follower_key_def by (metis snd_conv)+
  then have "snd x = data (fst x) \<and> it_example_id (snd x) = e \<and> lo \<le> fst x \<and> fst x \<le> hi"
    using assms(2) by (auto simp: win_ok_def)
  then show ?thesis using assms(1) set_update_subset [of e x c] by (fastforce simp: joined_in_def)
qed

lemma joined_in_lookup:
  assumes "joined_in data lo hi c" "map_of c e = Some x"
  shows "snd x = data (fst x) \<and> it_example_id (snd x) = e \<and> lo \<le> fst x \<and> fst x \<le> hi"
  using map_of_SomeD [OF assms(2)] assms(1) by (fastforce simp: joined_in_def)

text \<open>What the invariant looks at.\<close>

definition core where
  "core s = (ej_state_stale s, ej_leader_visitor s, ej_follower_visitor s, ej_world s, ej_builder s,
     ej_follower_restart_index s, jw_buffer (sj_leader_join_window s), jw_buffer (sj_follower_join_window s),
     sj_joined_cache s, sj_follower_example_cache s)"

text \<open>Eviction keeps in the window what it does not take from the cache.\<close>

definition evicted where
  "evicted cands kept s s' \<longleftrightarrow> subseq kept cands \<and>
     (\<exists>w c. s' = s\<lparr>sj_leader_join_window := w, sj_follower_example_cache := c\<rparr> \<and>
       jw_buffer w = jw_buffer (sj_leader_join_window s) \<and>
       (\<forall>e x. map_of c e = Some x \<longrightarrow> map_of (sj_follower_example_cache s) e = Some x \<and>
          (x \<in> set cands \<longrightarrow> e = it_example_id (snd x) \<longrightarrow> x \<in> set kept)))"

definition pure_filter where
  "pure_filter f \<longleftrightarrow>
     (\<forall>item s r s'. f item s = (r, s') \<longrightarrow>
        (\<exists>w. s' = s\<lparr>sj_leader_join_window := w\<rparr> \<and> jw_buffer w = jw_buffer (sj_leader_join_window s)))"

lemma useless_pure: "pure_filter evict_if_useless"
  unfolding pure_filter_def
proof (intro allI impI)
  fix item s r s'
  assume "evict_if_useless item s = (r, s')"
  then have "s' = s" by (simp add: evict_if_useless_def sx_bind_def)
  then show "\<exists>w. s' = s\<lparr>sj_leader_join_window := w\<rparr> \<and> jw_buffer w = jw_buffer (sj_leader_join_window s)"
    by (intro exI [of _ "sj_leader_join_window s"]) simp
qed

lemma force_pure: "pure_filter evict_if_force"
  unfolding pure_filter_def
proof (intro allI impI)
  fix item s r s'
  assume "evict_if_force item s = (r, s')"
  then show "\<exists>w. s' = s\<lparr>sj_leader_join_window := w\<rparr> \<and> jw_buffer w = jw_buffer (sj_leader_join_window s)"
    by (auto simp: evict_if_force_def sx_bind_def on_leader_window_def dest!: jw_qt_buffer
        split: prod.splits sum.splits)
qed

lemma evicted_refl: "evicted cands cands s s"
proof -
  have "s = s\<lparr>sj_leader_join_window := sj_leader_join_window s,
      sj_follower_example_cache := sj_follower_example_cache s\<rparr>" by simp
  then show ?thesis unfolding evicted_def by blast
qed

lemma evict_impl_run:
  assumes f: "pure_filter f"
  shows "evict_impl f cands s = (r, s') \<Longrightarrow>
    (case r of Inl _ \<Rightarrow> \<exists>kept. evicted cands kept s s' | Inr kept \<Rightarrow> evicted cands kept s s')"
proof (induction cands arbitrary: s r s')
  case Nil
  then show ?case using evicted_refl by auto
next
  case (Cons x cands)
  obtain i item where x: "x = (i, item)" by (cases x)
  obtain d s1 where d: "f item s = (d, s1)" by fastforce
  then obtain w where s1: "s1 = s\<lparr>sj_leader_join_window := w\<rparr>" "jw_buffer w = jw_buffer (sj_leader_join_window s)"
    using f unfolding pure_filter_def by blast
  have keep: "evicted (x # cands) (x # kept) s s2" if e: "evicted cands kept s1 s2" for kept s2
  proof -
    obtain w' c where "s2 = s1\<lparr>sj_leader_join_window := w', sj_follower_example_cache := c\<rparr>"
      "jw_buffer w' = jw_buffer (sj_leader_join_window s1)"
      "\<forall>e x. map_of c e = Some x \<longrightarrow> map_of (sj_follower_example_cache s1) e = Some x \<and>
          (x \<in> set cands \<longrightarrow> e = it_example_id (snd x) \<longrightarrow> x \<in> set kept)" and "subseq kept cands"
      using e unfolding evicted_def by blast
    then show ?thesis unfolding evicted_def s1 using s1(2)
      by (intro conjI exI [of _ w'] exI [of _ c]) auto
  qed
  show ?case
  proof (cases d)
    case (Inl e)
    then have "r = Inl e" "s' = s1" using Cons.prems d by (simp_all add: x sx_bind_def)
    then show ?thesis using keep [OF evicted_refl] by auto
  next
    case (Inr b)
    show ?thesis
    proof (cases b)
      case True
      let ?s2 = "s1\<lparr>sj_follower_example_cache := AList.delete (it_example_id item) (sj_follower_example_cache s1)\<rparr>"
      have run: "evict_impl f cands ?s2 = (r, s')"
        using Cons.prems d Inr True by (simp add: x sx_bind_def sx_modify_def)
      have drop: "evicted (x # cands) kept s s3" if e: "evicted cands kept ?s2 s3" for kept s3
      proof -
        obtain w' c where c: "s3 = ?s2\<lparr>sj_leader_join_window := w', sj_follower_example_cache := c\<rparr>"
          "jw_buffer w' = jw_buffer (sj_leader_join_window ?s2)"
          "\<forall>e x. map_of c e = Some x \<longrightarrow> map_of (sj_follower_example_cache ?s2) e = Some x \<and>
              (x \<in> set cands \<longrightarrow> e = it_example_id (snd x) \<longrightarrow> x \<in> set kept)" and sub: "subseq kept cands"
          using e unfolding evicted_def by blast
        have "\<forall>e y. map_of c e = Some y \<longrightarrow> map_of (sj_follower_example_cache s) e = Some y \<and>
            (y \<in> set (x # cands) \<longrightarrow> e = it_example_id (snd y) \<longrightarrow> y \<in> set kept)"
          using c(3) by (auto simp: s1 x AList.delete_conv split: if_splits)
        then show ?thesis unfolding evicted_def using c(1,2) s1 sub
          by (intro conjI exI [of _ w'] exI [of _ c]) auto
      qed
      show ?thesis using Cons.IH [OF run] drop by (cases r) auto
    next
      case False
      obtain r1 where run: "evict_impl f cands s1 = (r1, s')" and r: "r = map_sum id (Cons x) r1"
        using Cons.prems d Inr False by (auto simp: x sx_bind_def split: prod.splits sum.splits)
      show ?thesis using Cons.IH [OF run] keep r by (cases r1) auto
    qed
  qed
qed

lemma evicted_trans:
  assumes "evicted xs ys s s1" "evicted ys zs s1 s2"
  shows "evicted xs zs s s2"
proof -
  obtain w c where 1: "s1 = s\<lparr>sj_leader_join_window := w, sj_follower_example_cache := c\<rparr>"
      "jw_buffer w = jw_buffer (sj_leader_join_window s)"
      "\<forall>e x. map_of c e = Some x \<longrightarrow> map_of (sj_follower_example_cache s) e = Some x \<and>
          (x \<in> set xs \<longrightarrow> e = it_example_id (snd x) \<longrightarrow> x \<in> set ys)" "subseq ys xs"
    using assms(1) unfolding evicted_def by blast
  obtain w' c' where 2: "s2 = s1\<lparr>sj_leader_join_window := w', sj_follower_example_cache := c'\<rparr>"
      "jw_buffer w' = jw_buffer (sj_leader_join_window s1)"
      "\<forall>e x. map_of c' e = Some x \<longrightarrow> map_of (sj_follower_example_cache s1) e = Some x \<and>
          (x \<in> set ys \<longrightarrow> e = it_example_id (snd x) \<longrightarrow> x \<in> set zs)" "subseq zs ys"
    using assms(2) unfolding evicted_def by blast
  have c: "sj_follower_example_cache s1 = c" using 1(1) by simp
  have "\<forall>e x. map_of c' e = Some x \<longrightarrow> map_of (sj_follower_example_cache s) e = Some x \<and>
          (x \<in> set xs \<longrightarrow> e = it_example_id (snd x) \<longrightarrow> x \<in> set zs)"
    using 1(3) 2(3) c by metis
  moreover have "s2 = s\<lparr>sj_leader_join_window := w', sj_follower_example_cache := c'\<rparr>"
    "jw_buffer w' = jw_buffer (sj_leader_join_window s)" "subseq zs xs"
    using 1 2 subseq_order.order_trans by auto
  ultimately show ?thesis unfolding evicted_def by blast
qed

context joining
begin

text \<open>\<open>L\<close> are the leader examples that are still to be joined.\<close>

definition stream_ok ::
    "(data_block_meta \<times> 'r append_call list) list \<Rightarrow> 'r append_call list \<Rightarrow> (int \<times> leader_item) list \<Rightarrow>
     cursor \<Rightarrow> cursor \<Rightarrow> ('l, 'f, 'r) stream_joiner \<Rightarrow> bool" where
  "stream_ok Bs cs L cl cf s \<longleftrightarrow>
     base_ok Bs cs cl cf s \<and> win_ok ld (last_call Bs cs + 1) (cursor_at cl) L \<and>
     win_ok fd (ej_follower_restart_index s) (cursor_at cf) (jw_buffer (sj_follower_join_window s)) \<and>
     cached_in follower_key (jw_buffer (sj_follower_join_window s)) (sj_follower_example_cache s) \<and>
     joined_in fd (ej_follower_restart_index s) (cursor_at cf) (sj_joined_cache s)"

text \<open>While a run goes on, and after an exception; the flag says that the state is stale.\<close>

definition live where
  "live Bs0 L s \<longleftrightarrow>
     ej_state_stale s \<and> (\<exists>Bs cs cl cf. prefix Bs0 Bs \<and> stream_ok Bs cs L cl cf s)"

definition dead where
  "dead Bs0 s \<longleftrightarrow> ej_state_stale s \<and> broken Bs0 s"

abbreviation full where "full Bs0 s \<equiv> live Bs0 (jw_buffer (sj_leader_join_window s)) s"

lemma stream_ok_core:
  assumes "core s' = core s" shows "stream_ok Bs cs L cl cf s' = stream_ok Bs cs L cl cf s"
  using assms base_ok_frame [of s' s] by (simp add: core_def stream_ok_def)

lemma live_core: "core s' = core s \<Longrightarrow> live Bs0 L s' = live Bs0 L s"
  using stream_ok_core [of s' s] by (simp add: live_def core_def)

lemma full_core: "core s' = core s \<Longrightarrow> full Bs0 s' = full Bs0 s"
  using live_core [of s' s] by (simp add: core_def)

lemma dead_core:
  assumes "core s' = core s" shows "dead Bs0 s' = dead Bs0 s"
  using assms stale_ok_frame [of s' s] by (simp add: core_def dead_def broken_def)

lemma live_dead: "live Bs0 L s \<Longrightarrow> dead Bs0 s"
  unfolding live_def dead_def stream_ok_def broken_def using base_stale prefix_order.order_trans by blast

lemma live_fewer:
  assumes "live Bs0 L s" "subseq L' L" shows "live Bs0 L' s"
  using assms win_ok_subseq unfolding live_def stream_ok_def by blast

lemma modify_live:
  assumes "\<And>s. core (f s) = core s" shows "sx_ok (live Bs0 L) (sx_modify f) (\<lambda>_. live Bs0 L) I"
  by (rule sx_ok_modify) (simp only: live_core [OF assms])

lemma modify_full:
  assumes "\<And>s. core (f s) = core s" shows "sx_ok (full Bs0) (sx_modify f) (\<lambda>_. full Bs0) I"
  by (rule sx_ok_modify) (simp only: full_core [OF assms])

subsection \<open>Filling the windows\<close>

lemma leader_fill:
  assumes f: "\<And>lo k. ox_ok (lead.fills leader_key False lo k) f (\<lambda>_. lead.fills leader_key False lo k) (lead.fills leader_key False lo k)"
  shows "ox_ok (full Bs0) (on_leader_fill f) (\<lambda>_. full Bs0) (dead Bs0)"
proof (rule ox_okI)
  fix s r s'
  assume live: "full Bs0 s" and run: "on_leader_fill f s = Some (r, s')"
  obtain Bs cs cl cf where ok: "stream_ok Bs cs (jw_buffer (sj_leader_join_window s)) cl cf s" "prefix Bs0 Bs"
    and st: "ej_state_stale s" using live by (auto simp: live_def)
  obtain v w c where fr: "f (ej_leader_visitor s, sj_leader_join_window s, None) = Some (r, v, w, c)"
    and s': "s' = s\<lparr>ej_leader_visitor := v, sj_leader_join_window := w\<rparr>"
    using run by (auto simp: on_leader_fill_def split: option.splits)
  have base: "base_ok Bs cs cl cf s" using ok(1) by (simp add: stream_ok_def)
  then obtain b N where "lsrc (ej_leader_visitor s) b N cl" using base_src by blast
  then have "lead.fills leader_key False (last_call Bs cs + 1) (cursor_at cl) (ej_leader_visitor s, sj_leader_join_window s, None)"
    using ok(1) base by (auto simp: lead.fills_def stream_ok_def base_ok_def)
  then have "lead.fills leader_key False (last_call Bs cs + 1) (cursor_at cl) (v, w, c)"
    using ox_okD [OF f _ ] fr by (cases r) blast+
  then obtain b' N' cl' where v: "lsrc v b' N' cl'" "cursor_at cl \<le> cursor_at cl'"
      "win_ok ld (last_call Bs cs + 1) (cursor_at cl') (jw_buffer w)" by (auto simp: lead.fills_def)
  have "stream_ok Bs cs (jw_buffer w) cl' cf (s\<lparr>ej_leader_visitor := v\<rparr>)"
    using ok(1) base_leader [OF base v(1,2)] v(3) by (simp add: stream_ok_def)
  then have "full Bs0 s'"
    using ok(2) st base_ok_frame [of s' "s\<lparr>ej_leader_visitor := v\<rparr>"] unfolding s'
    by (auto simp: live_def stream_ok_def)
  then show "case r of Inl _ \<Rightarrow> dead Bs0 s' | Inr a \<Rightarrow> full Bs0 s'" using live_dead by (cases r) auto
qed

lemma follower_fill:
  assumes f: "\<And>lo k. ox_ok (foll.fills follower_key True lo k) f (\<lambda>_. foll.fills follower_key True lo k) (foll.fills follower_key True lo k)"
  shows "ox_ok (full Bs0) (on_follower_fill f) (\<lambda>_. full Bs0) (dead Bs0)"
proof (rule ox_okI)
  fix s r s'
  assume live: "full Bs0 s" and run: "on_follower_fill f s = Some (r, s')"
  obtain Bs cs cl cf where ok: "stream_ok Bs cs (jw_buffer (sj_leader_join_window s)) cl cf s" "prefix Bs0 Bs"
    and st: "ej_state_stale s" using live by (auto simp: live_def)
  let ?ri = "ej_follower_restart_index s"
  obtain v w c where fr: "f (ej_follower_visitor s, sj_follower_join_window s, Some (sj_follower_example_cache s)) =
      Some (r, v, w, c)"
    and s': "s' = s\<lparr>ej_follower_visitor := v, sj_follower_join_window := w, sj_follower_example_cache := the c\<rparr>"
    using run by (auto simp: on_follower_fill_def split: option.splits)
  have base: "base_ok Bs cs cl cf s" using ok(1) by (simp add: stream_ok_def)
  then obtain b N where src: "fsrc (ej_follower_visitor s) b N cf" using base_src by blast
  have "?ri \<le> max 0 (cursor_at cf)" using base by (simp add: base_ok_def)
  moreover have "- 1 \<le> cursor_at cf" using foll.src_within [OF src] by (auto simp: cursor_at_def cursor_within_def split: option.split)
  ultimately have "?ri \<le> cursor_at cf + 1" by linarith
  then have "foll.fills follower_key True ?ri (cursor_at cf)
      (ej_follower_visitor s, sj_follower_join_window s, Some (sj_follower_example_cache s))"
    using ok(1) src by (auto simp: foll.fills_def stream_ok_def)
  then have fills: "foll.fills follower_key True ?ri (cursor_at cf) (v, w, c)"
    using ox_okD [OF f _ ] fr by (cases r) blast+
  then obtain b' N' cf' where v: "fsrc v b' N' cf'" "cursor_at cf \<le> cursor_at cf'"
      "win_ok fd ?ri (cursor_at cf') (jw_buffer w)" "c \<noteq> None"
      "cached_in follower_key (jw_buffer w) (the c)"
    by (auto simp: foll.fills_def)
  have "stream_ok Bs cs (jw_buffer (sj_leader_join_window s)) cl cf' s'"
    using ok(1) base_follower [OF base v(1,2)] v(3-5)
      joined_in_mono [OF _ order_refl v(2), of fd ?ri "sj_joined_cache s"]
      base_ok_frame [of s' "s\<lparr>ej_follower_visitor := v\<rparr>"] unfolding s'
    by (simp add: stream_ok_def)
  then have "full Bs0 s'" using ok(2) st unfolding s' by (auto simp: live_def)
  then show "case r of Inl _ \<Rightarrow> dead Bs0 s' | Inr a \<Rightarrow> full Bs0 s'" using live_dead by (cases r) auto
qed

subsection \<open>Turns\<close>

lemma frame_ok:
  assumes "\<And>s r s'. f s = (r, s') \<Longrightarrow> core s' = core s"
  shows "sx_ok (live Bs0 L) f (\<lambda>_. live Bs0 L) (dead Bs0)" "sx_ok (full Bs0) f (\<lambda>_. full Bs0) (dead Bs0)"
proof -
  show "sx_ok (live Bs0 L) f (\<lambda>_. live Bs0 L) (dead Bs0)"
    by (rule sx_okI) (use live_core [OF assms] live_dead in blast)+
  show "sx_ok (full Bs0) f (\<lambda>_. full Bs0) (dead Bs0)"
    by (rule sx_okI) (use full_core [OF assms] live_dead in blast)+
qed

lemma leader_qt_core: "on_leader_window jw_qt s = (r, s') \<Longrightarrow> core s' = core s"
  by (auto simp: on_leader_window_def core_def dest!: jw_qt_buffer split: prod.splits)

lemma follower_qt_core: "on_follower_window jw_qt s = (r, s') \<Longrightarrow> core s' = core s"
  by (auto simp: on_follower_window_def core_def dest!: jw_qt_buffer split: prod.splits)

lemma qt_full:
  "sx_ok (full Bs0) (on_leader_window jw_qt) (\<lambda>_. full Bs0) (dead Bs0)"
  "sx_ok (full Bs0) (on_follower_window jw_qt) (\<lambda>_. full Bs0) (dead Bs0)"
  by (rule frame_ok(2), erule leader_qt_core, rule frame_ok(2), erule follower_qt_core)

lemma delay_full: "sx_ok (full Bs0) (need_delay_dump en rf) (\<lambda>_. full Bs0) (dead Bs0)"
  unfolding need_delay_dump_def
proof (rule sx_ok_bind [OF sx_ok_get])
  fix s0 :: "('l, 'f, 'r) stream_joiner"
  have "sx_ok (full Bs0) (if vo_finished (je_follower en) (ej_follower_visitor s0) \<and> rf then sx_return False
      else sx_bind (on_leader_window jw_qt) (\<lambda>l. sx_bind (on_follower_window jw_qt) (\<lambda>f.
        sx_return (case (l, f) of (Some l, Some f) \<Rightarrow> if \<not> f < l then False else True | _ \<Rightarrow> True))))
      (\<lambda>_. full Bs0) (dead Bs0)"
    by (cases "vo_finished (je_follower en) (ej_follower_visitor s0) \<and> rf")
      (auto intro!: sx_ok_return sx_ok_bind [OF qt_full(1)] sx_ok_bind [OF qt_full(2)])
  then show "sx_ok (\<lambda>s. full Bs0 s \<and> s0 = s) (if vo_finished (je_follower en) (ej_follower_visitor s0) \<and> rf
      then sx_return False
      else sx_bind (on_leader_window jw_qt) (\<lambda>l. sx_bind (on_follower_window jw_qt) (\<lambda>f.
        sx_return (case (l, f) of (Some l, Some f) \<Rightarrow> if \<not> f < l then False else True | _ \<Rightarrow> True))))
      (\<lambda>_. full Bs0) (dead Bs0)"
    by (rule sx_ok_pre) simp
qed

text \<open>Remembering the leader ids that have been met.\<close>

lemma fold_joined:
  assumes "joined_in data lo hi c" "win_ok data lo hi xs" "cached_in follower_key xs fc"
  shows "joined_in data lo hi
    (fold (\<lambda>e c. case map_of fc e of None \<Rightarrow> c | Some x \<Rightarrow> AList.update e x c) es c)"
  using assms(1)
proof (induction es arbitrary: c)
  case (Cons e es)
  then have "joined_in data lo hi (case map_of fc e of None \<Rightarrow> c | Some x \<Rightarrow> AList.update e x c)"
    using joined_in_put [OF _ assms(2,3)] by (cases "map_of fc e") auto
  then show ?case using Cons.IH by simp
qed simp

lemma update_cache_full: "sx_ok (full Bs0) (sx_modify update_join_cache) (\<lambda>_. full Bs0) I"
proof (rule sx_ok_modify)
  fix s assume "full Bs0 s"
  then obtain Bs cs cl cf where ok: "stream_ok Bs cs (jw_buffer (sj_leader_join_window s)) cl cf s" "prefix Bs0 Bs"
    and st: "ej_state_stale s" by (auto simp: live_def)
  have "stream_ok Bs cs (jw_buffer (sj_leader_join_window s)) cl cf (update_join_cache s)"
    using ok(1) base_ok_frame [of "update_join_cache s" s]
      fold_joined [of fd "ej_follower_restart_index s" "cursor_at cf" "sj_joined_cache s"
        "jw_buffer (sj_follower_join_window s)" "sj_follower_example_cache s" "sj_leader_unjoined_example_ids s"]
    by (simp add: stream_ok_def update_join_cache_def)
  then show "full Bs0 (update_join_cache s)" using ok(2) st by (auto simp: live_def update_join_cache_def)
qed

lemma evicted_live:
  assumes ok: "live Bs0 L s" and e: "evicted (jw_buffer (sj_follower_join_window s)) kept s s'"
  shows "live Bs0 L (s'\<lparr>sj_follower_join_window := jw_reset follower_key kept False (sj_follower_join_window s')\<rparr>)"
    "live Bs0 L s'"
proof -
  obtain w c where c: "s' = s\<lparr>sj_leader_join_window := w, sj_follower_example_cache := c\<rparr>"
      "jw_buffer w = jw_buffer (sj_leader_join_window s)"
      "\<forall>e x. map_of c e = Some x \<longrightarrow> map_of (sj_follower_example_cache s) e = Some x \<and>
          (x \<in> set (jw_buffer (sj_follower_join_window s)) \<longrightarrow> e = it_example_id (snd x) \<longrightarrow> x \<in> set kept)"
    and sub: "subseq kept (jw_buffer (sj_follower_join_window s))"
    using e unfolding evicted_def by blast
  obtain Bs cs cl cf where so: "stream_ok Bs cs L cl cf s" "prefix Bs0 Bs" and st: "ej_state_stale s"
    using ok by (auto simp: live_def)
  have ci: "cached_in follower_key (jw_buffer (sj_follower_join_window s)) (sj_follower_example_cache s)"
    using so(1) by (simp add: stream_ok_def)
  have "cached_in follower_key kept c" "cached_in follower_key (jw_buffer (sj_follower_join_window s)) c"
    using c(3) ci unfolding cached_in_def follower_key_def by (metis snd_conv)+
  moreover have "win_ok fd (ej_follower_restart_index s) (cursor_at cf) kept"
    using so(1) win_ok_subseq [OF _ sub] by (simp add: stream_ok_def)
  ultimately have "stream_ok Bs cs L cl cf
      (s'\<lparr>sj_follower_join_window := jw_reset follower_key kept False (sj_follower_join_window s')\<rparr>)"
    "stream_ok Bs cs L cl cf s'"
    using so(1) base_ok_frame [of s' s]
      base_ok_frame [of "s'\<lparr>sj_follower_join_window := jw_reset follower_key kept False (sj_follower_join_window s')\<rparr>" s]
    by (simp_all add: stream_ok_def c(1) jw_reset_def Let_def)
  then show "live Bs0 L (s'\<lparr>sj_follower_join_window := jw_reset follower_key kept False (sj_follower_join_window s')\<rparr>)"
    "live Bs0 L s'" using so(2) st by (auto simp: live_def c(1))
qed

lemma evicted_windows:
  assumes "evicted cands kept s s'"
  shows "jw_buffer (sj_leader_join_window s') = jw_buffer (sj_leader_join_window s)"
    "sj_follower_join_window s' = sj_follower_join_window s"
  using assms by (auto simp: evicted_def)

lemma evict_stale:
  "sx_ok (\<lambda>s. live Bs0 L s \<and> jw_buffer (sj_leader_join_window s) = B) (evict_stale_follower_cache en)
     (\<lambda>_ s. live Bs0 L s \<and> jw_buffer (sj_leader_join_window s) = B) (dead Bs0)"
proof -
  have "case evict_stale_follower_cache en s of (Inl _, s') \<Rightarrow> dead Bs0 s'
      | (Inr _, s') \<Rightarrow> live Bs0 L s' \<and> jw_buffer (sj_leader_join_window s') = jw_buffer (sj_leader_join_window s)"
    if ok: "live Bs0 L s" for s
  proof -
    let ?buf = "jw_buffer (sj_follower_join_window s)"
    let ?reset = "\<lambda>kept s. s\<lparr>sj_follower_join_window := jw_reset follower_key kept False (sj_follower_join_window s)\<rparr>"
    obtain r1 s1 where 1: "evict_impl evict_if_useless ?buf s = (r1, s1)" by fastforce
    note e1 = evict_impl_run [OF useless_pure 1]
    show ?thesis
    proof (cases r1)
      case (Inl e)
      then obtain kept where "evicted ?buf kept s s1" using e1 by auto
      then have "dead Bs0 s1" using live_dead evicted_live(2) [OF ok] by blast
      then show ?thesis using 1 Inl by (simp add: evict_stale_follower_cache_def sx_bind_def)
    next
      case (Inr kept)
      then have k: "evicted ?buf kept s s1" using e1 by simp
      show ?thesis
      proof (cases "length kept < je_max_window en")
        case True
        then have "evict_stale_follower_cache en s = (Inr (), ?reset kept s1)"
          using 1 Inr by (simp add: evict_stale_follower_cache_def sx_bind_def sx_modify_def)
        then show ?thesis using evicted_live(1) [OF ok k] evicted_windows(1) [OF k] by simp
      next
        case False
        obtain r2 s2 where 2: "evict_impl evict_if_force kept s1 = (r2, s2)" by fastforce
        have e2: "case r2 of Inl _ \<Rightarrow> \<exists>kept'. evicted ?buf kept' s s2 | Inr kept' \<Rightarrow> evicted ?buf kept' s s2"
          using evict_impl_run [OF force_pure 2] evicted_trans [OF k] by (cases r2) auto
        have run: "evict_stale_follower_cache en s =
            (case r2 of Inl e \<Rightarrow> (Inl e, s2) | Inr kept' \<Rightarrow> (Inr (), ?reset kept' s2))"
          using 1 2 Inr False by (cases r2) (simp_all add: evict_stale_follower_cache_def sx_bind_def sx_modify_def)
        show ?thesis
        proof (cases r2)
          case (Inl e)
          then obtain kept' where "evicted ?buf kept' s s2" using e2 by auto
          then have "dead Bs0 s2" using live_dead evicted_live(2) [OF ok] by blast
          then show ?thesis using run Inl by simp
        next
          case (Inr kept')
          then have "evicted ?buf kept' s s2" using e2 by simp
          then show ?thesis using run Inr evicted_live(1) [OF ok] evicted_windows(1) by simp
        qed
      qed
    qed
  qed
  then show ?thesis unfolding sx_ok_def by (fastforce split: prod.splits sum.splits)
qed

subsection \<open>Writing what is joined\<close>

lemma restart_le:
  fixes c :: "'r block_item item_cache" and i :: int
  shows "fold (\<lambda>x i. if fst (snd x) < i then fst (snd x) else i) c i \<le> i"
    "x \<in> set c \<Longrightarrow> fold (\<lambda>x i. if fst (snd x) < i then fst (snd x) else i) c i \<le> fst (snd x)"
    "lo \<le> i \<Longrightarrow> \<forall>x \<in> set c. lo \<le> fst (snd x) \<Longrightarrow> lo \<le> fold (\<lambda>x i. if fst (snd x) < i then fst (snd x) else i) c i"
proof -
  show le: "fold (\<lambda>x i. if fst (snd x) < i then fst (snd x) else i) c i \<le> i" for c :: "'r block_item item_cache" and i
  proof (induction c arbitrary: i)
    case (Cons y c)
    show ?case using Cons.IH [of "fst (snd y)"] Cons.IH [of i] by auto
  qed simp
  show "x \<in> set c \<Longrightarrow> fold (\<lambda>x i. if fst (snd x) < i then fst (snd x) else i) c i \<le> fst (snd x)"
  proof (induction c arbitrary: i)
    case (Cons y c)
    then show ?case using le [of c "fst (snd y)"] le [of c i] by auto
  qed simp
  show "lo \<le> i \<Longrightarrow> \<forall>x \<in> set c. lo \<le> fst (snd x) \<Longrightarrow> lo \<le> fold (\<lambda>x i. if fst (snd x) < i then fst (snd x) else i) c i"
    by (induction c arbitrary: i) auto
qed

text \<open>After a block the follower would start again at the first example that is still needed.\<close>

lemma new_restart:
  assumes ok: "stream_ok Bs [] L cl cf s" and ne: "Bs \<noteq> []" and pos: "cu_pos cf = Some k"
    and ri: "ri = fold (\<lambda>x i. if fst (snd x) < i then fst (snd x) else i) (sj_joined_cache s)
      (if 0 < jw_size (sj_follower_join_window s) then fst (hd (jw_buffer (sj_follower_join_window s))) else k)"
  shows "stream_ok Bs [] L cl cf (s\<lparr>ej_follower_restart_index := ri\<rparr>)"
proof -
  let ?buf = "jw_buffer (sj_follower_join_window s)" and ?r = "ej_follower_restart_index s"
  let ?i = "if 0 < jw_size (sj_follower_join_window s) then fst (hd ?buf) else k"
  obtain b N where "fsrc (ej_follower_visitor s) b N cf" using ok by (auto simp: stream_ok_def base_ok_def)
  from cursor_at_ge [OF foll.src_within [OF this] pos] have k: "0 \<le> k" "cursor_at cf = k" by auto
  have base: "base_ok Bs [] cl cf s" and w: "win_ok fd ?r k ?buf" and j: "joined_in fd ?r k (sj_joined_cache s)"
    using ok by (simp_all add: stream_ok_def k)
  have r: "?r \<le> k" using base k by (simp add: base_ok_def)
  have i: "?r \<le> ?i" "?i \<le> k" using w r by (auto simp: jw_size_def win_ok_def)
  have hd: "?i \<le> fst x" if x: "x \<in> set ?buf" for x
  proof -
    have "?buf = hd ?buf # tl ?buf" using x by (cases ?buf) auto
    moreover have "sorted_wrt (\<lambda>x y. fst x < fst y) ?buf" using w by (simp add: win_ok_def)
    ultimately have "x = hd ?buf \<or> fst (hd ?buf) < fst x" using x by (metis set_ConsD sorted_wrt.simps(2))
    then show ?thesis using x by (auto simp: jw_size_def)
  qed
  note le = restart_le [where i = ?i and c = "sj_joined_cache s", folded ri]
  have "?r \<le> ri" "ri \<le> k" using le(1) le(3) [of ?r] i j by (auto simp: joined_in_def)
  moreover have "win_ok fd ri k ?buf" using w hd le(1) by (fastforce simp: win_ok_def)
  moreover have "joined_in fd ri k (sj_joined_cache s)" using j le(2) by (fastforce simp: joined_in_def)
  ultimately show ?thesis using ok ne pos k(2) by (auto simp: stream_ok_def base_ok_def)
qed

lemma finish_stream:
  assumes ok: "stream_ok Bs cs L cl cf s" and cs: "cs \<noteq> []" and pre: "prefix Bs0 Bs" and st: "ej_state_stale s"
  shows "case sj_finish_data_block en ch s of (Inl _, s') \<Rightarrow> dead Bs0 s' | (Inr _, s') \<Rightarrow> live Bs0 L s' \<and> ej_builder s' = None \<and>
    sj_leader_join_window s' = sj_leader_join_window s"
proof -
  have base: "base_ok Bs cs cl cf s" using ok by (simp add: stream_ok_def)
  obtain r s1 where f: "joiner_finish_block en ch s = (r, s1)" by fastforce
  note fin = finish_block_run [OF base cs, of ch, unfolded f prod.case]
  show ?thesis
  proof (cases r)
    case (Inl e)
    then have "dead Bs0 s1" using fin pre st prefix_order.order_trans unfolding dead_def broken_def by auto
    then show ?thesis using f Inl by (simp add: sj_finish_data_block_def sx_bind_def)
  next
    case (Inr x)
    then obtain m w where m: "x = Some m" "s1 = s\<lparr>ej_world := w, ej_builder := None\<rparr>"
        "bm_leader_end_index m = ac_leader_index (last cs)"
        "bm_follower_restart_index m = ej_follower_restart_index s" "base_ok (Bs @ [(m, cs)]) [] cl cf s1"
      using fin by auto
    have so: "stream_ok (Bs @ [(m, cs)]) [] L cl cf s1"
      using ok m(3,5) cs by (simp add: stream_ok_def m(2) last_call_def last_end_def)
    obtain b N where src: "fsrc (ej_follower_visitor s1) b N cf" using base_src(2) [OF m(5)] by blast
    obtain v where v: "vo_get_index (je_follower en) (ej_follower_visitor s1) =
        (Inr (case cu_pos cf of None \<Rightarrow> 0 | Some k \<Rightarrow> k), v)" "fsrc v b N cf"
      using foll.follows_index [OF src] by blast
    obtain k where k: "cu_pos cf = Some k" using m(5) by (auto simp: base_ok_def)
    let ?s = "s1\<lparr>ej_follower_visitor := v\<rparr>"
    have so': "stream_ok (Bs @ [(m, cs)]) [] L cl cf ?s"
      using so base_follower [OF m(5) v(2)] by (simp add: stream_ok_def)
    let ?ri = "fold (\<lambda>x i. if fst (snd x) < i then fst (snd x) else i) (sj_joined_cache s1)
      (if 0 < jw_size (sj_follower_join_window s1) then fst (hd (jw_buffer (sj_follower_join_window s1))) else k)"
    have eq: "(\<lambda>(e, index, item) i. if index < i then index else i) =
        (\<lambda>x (i :: int). if fst (snd x) < i then fst (snd x) else i)" by (simp add: fun_eq_iff split: prod.split)
    have run: "sj_finish_data_block en ch s = (Inr x, ?s\<lparr>ej_follower_restart_index := ?ri\<rparr>)"
      using f Inr v(1) k by (simp add: sj_finish_data_block_def sx_bind_def on_follower_def sx_modify_def Let_def eq)
    have "stream_ok (Bs @ [(m, cs)]) [] L cl cf (?s\<lparr>ej_follower_restart_index := ?ri\<rparr>)"
      by (rule new_restart [OF so' _ k]) simp_all
    moreover have "prefix Bs0 (Bs @ [(m, cs)])" using pre by (rule prefix_prefix)
    moreover have "ej_state_stale (?s\<lparr>ej_follower_restart_index := ?ri\<rparr>)"
      "ej_builder (?s\<lparr>ej_follower_restart_index := ?ri\<rparr>) = None" using st by (simp_all add: m(2))
    ultimately have "live Bs0 L (?s\<lparr>ej_follower_restart_index := ?ri\<rparr>)" "ej_builder (?s\<lparr>ej_follower_restart_index := ?ri\<rparr>) = None"
      unfolding live_def by blast+
    then show ?thesis unfolding run by (simp add: m(2))
  qed
qed

lemma live_yield: "live Bs0 L (s\<lparr>ej_yielded := x\<rparr>) = live Bs0 L s"
  by (rule live_core) (simp add: core_def)

lemma yield_full:
  assumes ok: "stream_ok Bs cs L cl cf s" and cs: "cs \<noteq> []" and pre: "prefix Bs0 Bs" and st: "ej_state_stale s"
  shows "case yield_if_full en ch s of (Inl _, s') \<Rightarrow> dead Bs0 s' | (Inr _, s') \<Rightarrow> live Bs0 L s'"
proof -
  obtain r s1 where f: "sj_finish_data_block en ch s = (r, s1)" by fastforce
  note fin = finish_stream [OF ok cs pre st, of ch, unfolded f prod.case]
  have l: "live Bs0 L s" using ok pre st by (auto simp: live_def)
  have run: "yield_if_full en ch s =
      (if (case ej_builder s of None \<Rightarrow> False | Some b \<Rightarrow> check_data_block_full b)
       then (case r of Inl e \<Rightarrow> (Inl e, s1) | Inr m \<Rightarrow> (Inr (), s1\<lparr>ej_yielded := ej_yielded s1 @ [m]\<rparr>))
       else (Inr (), s))"
    using f by (cases r) (simp_all add: yield_if_full_def yield_meta_def sx_bind_def sx_modify_def)
  show ?thesis using fin l live_yield unfolding run by (cases r) auto
qed

text \<open>One leader example: passed over, or appended with the follower example that was met.\<close>

lemma last_call_ge: "base_ok Bs cs cl cf s \<Longrightarrow> - 1 \<le> last_call Bs cs"
  using base_last [of Bs cs cl cf s] by (cases "Bs = []") (auto simp: base_ok_def last_end_def)

lemma joined_remember:
  assumes ok: "stream_ok Bs cs L cl cf s"
    and e: "map_of (sj_follower_example_cache s) e \<noteq> None \<or> map_of (sj_joined_cache s) e \<noteq> None"
  defines "s1 \<equiv> if map_of (sj_joined_cache s) e = None
      then s\<lparr>sj_joined_cache := AList.update e (the (map_of (sj_follower_example_cache s) e)) (sj_joined_cache s)\<rparr>
      else s"
  shows "stream_ok Bs cs L cl cf s1 \<and> (\<exists>x. map_of (sj_joined_cache s1) e = Some x)"
proof (cases "map_of (sj_joined_cache s) e")
  case None
  then obtain x where x: "map_of (sj_follower_example_cache s) e = Some x" using e by auto
  have s1: "s1 = s\<lparr>sj_joined_cache := AList.update e x (sj_joined_cache s)\<rparr>" using None x by (simp add: s1_def)
  have "joined_in fd (ej_follower_restart_index s) (cursor_at cf) (AList.update e x (sj_joined_cache s))"
    using ok by (intro joined_in_put [OF _ _ _ x]) (auto simp: stream_ok_def)
  then show ?thesis using ok base_ok_frame [of s1 s] by (simp add: stream_ok_def s1 update_conv)
qed (use ok in \<open>simp add: s1_def\<close>)

lemma dump_item:
  assumes neg: "\<not> je_negatives en"
  shows "sx_ok (live Bs0 ((i, x) # L)) (dump_leader_item en ch i x) (\<lambda>_. live Bs0 L) (dead Bs0)"
proof -
  have "case dump_leader_item en ch i x s of (Inl _, s') \<Rightarrow> dead Bs0 s' | (Inr _, s') \<Rightarrow> live Bs0 L s'"
    if live: "live Bs0 ((i, x) # L) s" for s
  proof -
    let ?e = "li_example_id x"
    obtain Bs cs cl cf where ok: "stream_ok Bs cs ((i, x) # L) cl cf s" and pre: "prefix Bs0 Bs" and st: "ej_state_stale s"
      using live by (auto simp: live_def)
    show ?thesis
    proof (cases "map_of (sj_follower_example_cache s) ?e = None \<and> map_of (sj_joined_cache s) ?e = None")
      case True
      have "live Bs0 L s" by (rule live_fewer [OF live]) (simp add: list_emb_Cons)
      then show ?thesis using True neg by (simp add: dump_leader_item_def sx_bind_def Let_def)
    next
      case False
      define s1 where "s1 = (if map_of (sj_joined_cache s) ?e = None
        then s\<lparr>sj_joined_cache := AList.update ?e (the (map_of (sj_follower_example_cache s) ?e)) (sj_joined_cache s)\<rparr>
        else s)"
      from joined_remember [OF ok, of ?e] False obtain y where
        ok1: "stream_ok Bs cs ((i, x) # L) cl cf s1" and y: "map_of (sj_joined_cache s1) ?e = Some y"
        unfolding s1_def by auto
      have st1: "ej_state_stale s1" using st by (simp add: s1_def)
      let ?c = "\<lparr>ac_item = snd y, ac_leader_index = i, ac_follower_index = fst y, ac_event_time = None,
          ac_allow_dup = False, ac_joined = 1\<rparr>"
      have base: "base_ok Bs cs cl cf s1" and w: "win_ok ld (last_call Bs cs + 1) (cursor_at cl) ((i, x) # L)"
        and j: "joined_in fd (ej_follower_restart_index s1) (cursor_at cf) (sj_joined_cache s1)"
        using ok1 by (simp_all add: stream_ok_def)
      have yy: "snd y = fd (fst y)" "it_example_id (snd y) = ?e" "ej_follower_restart_index s1 \<le> fst y"
        "fst y \<le> cursor_at cf" using joined_in_lookup [OF j y] by auto
      have i: "x = ld i" "last_call Bs cs < i" "i \<le> cursor_at cl" using w by (auto simp: win_ok_def)
      have jc: "joined_call ld fd ?c"
        using yy i last_call_ge [OF base] base_restart(1) [OF base] by (simp add: joined_call_def)
      from append_run [OF base jc _ _ _ _ _, of ch] yy i obtain w b where ap:
        "append_joined en ch (snd y) i (fst y) 1 s1 = (Inr (), s1\<lparr>ej_world := w, ej_builder := Some b\<rparr>)"
        "base_ok Bs (cs @ [?c]) cl cf (s1\<lparr>ej_world := w, ej_builder := Some b\<rparr>)"
        by (auto simp: append_joined_def)
      let ?s = "s1\<lparr>ej_world := w, ej_builder := Some b\<rparr>"
      have "win_ok ld (last_call Bs (cs @ [?c]) + 1) (cursor_at cl) L"
        using win_ok_tl [OF \<open>win_ok ld _ _ _\<close>] by (simp add: last_call_def)
      then have ok2: "stream_ok Bs (cs @ [?c]) L cl cf ?s" using ok1 ap(2) by (simp add: stream_ok_def)
      have run: "dump_leader_item en ch i x s = yield_if_full en ch ?s"
        using neg ap(1) y
        by (simp add: dump_leader_item_def sx_bind_def Let_def sx_modify_def split_beta if_not_P [OF False] flip: s1_def)
      show ?thesis unfolding run by (rule yield_full [OF ok2 _ pre]) (simp_all add: st1)
    qed
  qed
  then show ?thesis unfolding sx_ok_def by blast
qed

lemma dump_items:
  assumes neg: "\<not> je_negatives en"
  shows "sx_ok (live Bs0 L) (dump_leader_items en ch L) (\<lambda>_. live Bs0 []) (dead Bs0)"
proof (induction L)
  case Nil
  then show ?case by (simp add: sx_ok_def)
next
  case (Cons x L)
  then show ?case by (cases x) (auto intro: sx_ok_bind [OF dump_item [OF neg]])
qed

lemma dump_full:
  assumes neg: "\<not> je_negatives en"
  shows "sx_ok (full Bs0) (dump_joined_items en ch) (\<lambda>_. live Bs0 []) (dead Bs0)"
  using dump_items [OF neg] by (simp add: sx_ok_def dump_joined_items_def sx_bind_def)

text \<open>With the dump delayed the leader window is still to be joined, otherwise nothing of it is.\<close>

abbreviation at_turn where "at_turn Bs0 delay s \<equiv> (if delay then full Bs0 s else live Bs0 [] s)"

lemma evict_full: "sx_ok (at_turn Bs0 delay) (evict_stale_follower_cache en) (\<lambda>_. at_turn Bs0 delay) (dead Bs0)"
proof (cases delay)
  case True
  have "sx_ok (full Bs0) (evict_stale_follower_cache en) (\<lambda>_. full Bs0) (dead Bs0)"
  proof (rule sx_okI)
    fix s e s' assume ok: "full Bs0 s" and run: "evict_stale_follower_cache en s = (Inl e, s')"
    show "dead Bs0 s'" by (rule sx_okD(2) [OF evict_stale _ run]) (use ok in blast)
  next
    fix s u s' assume ok: "full Bs0 s" and run: "evict_stale_follower_cache en s = (Inr u, s')"
    have "live Bs0 (jw_buffer (sj_leader_join_window s)) s' \<and>
        jw_buffer (sj_leader_join_window s') = jw_buffer (sj_leader_join_window s)"
      by (rule sx_okD(1) [OF evict_stale _ run]) (use ok in blast)
    then show "full Bs0 s'" by simp
  qed
  then show ?thesis using True by simp
next
  case False
  have "sx_ok (live Bs0 []) (evict_stale_follower_cache en) (\<lambda>_. live Bs0 []) (dead Bs0)"
    by (rule sx_okI) (use sx_okD [OF evict_stale] in blast)+
  then show ?thesis using False by simp
qed

lemma turn_ok:
  assumes neg: "\<not> je_negatives en"
  shows "sx_ok (full Bs0) (follower_turn en ch delay) (\<lambda>_. at_turn Bs0 delay) (dead Bs0)"
proof -
  have "sx_ok (full Bs0) (if delay then sx_modify update_join_cache else dump_joined_items en ch)
      (\<lambda>_. at_turn Bs0 delay) (dead Bs0)"
    using update_cache_full dump_full [OF neg] by (cases delay) simp_all
  then show ?thesis unfolding follower_turn_def by (rule sx_ok_bind [OF _ evict_full])
qed

subsection \<open>The loops\<close>

lemma fill_leader_ok: "ox_ok (full Bs0) (fill_leader_join_window en sf) (\<lambda>_. full Bs0) (dead Bs0)"
  unfolding fill_leader_join_window_def
proof (rule ox_ok_bind [OF ox_ok_get])
  fix s0 :: "('l, 'f, 'r) stream_joiner"
  let ?upd = "\<lambda>filled s. let enough = (if filled then True else sf)
         in s\<lparr>sj_fill_leader_enough := enough,
              sj_leader_unjoined_example_ids :=
                (if enough then map (\<lambda>(index, item). li_example_id item) (jw_buffer (sj_leader_join_window s))
                 else sj_leader_unjoined_example_ids s),
              ej_joiner_stats := fill_leader_example_ids (je_hash en)
                (window_ids leader_key (jw_size (sj_leader_join_window s0)) (sj_leader_join_window s))
                (ej_joiner_stats s)\<rparr>"
  have upd: "sx_ok (full Bs0) (sx_modify (?upd filled)) (\<lambda>_. full Bs0) (dead Bs0)" for filled
    by (rule modify_full) (simp add: core_def Let_def)
  have g: "sx_ok (full Bs0) (sx_bind sx_get (\<lambda>s. sx_return (sj_fill_leader_enough s))) (\<lambda>_. full Bs0) (dead Bs0)"
    by (simp add: sx_ok_def sx_bind_def)
  have "ox_ok (full Bs0) (if sj_fill_leader_enough s0 then ox_return True
     else ox_bind (on_leader_fill (fill_join_windows (je_leader en) leader_key (je_min_window en) (je_max_window en)))
       (\<lambda>filled. ox_lift (sx_bind (sx_modify (?upd filled)) (\<lambda>_.
         sx_bind sx_get (\<lambda>s. sx_return (sj_fill_leader_enough s)))))) (\<lambda>_. full Bs0) (dead Bs0)"
  proof (cases "sj_fill_leader_enough s0")
    case True
    then show ?thesis by (simp add: ox_ok_def ox_lift_def)
  next
    case False
    show ?thesis unfolding if_not_P [OF False]
      by (rule ox_ok_bind [OF leader_fill [OF lead.fill_ok]], rule ox_ok_lift, rule sx_ok_bind [OF upd g])
  qed
  then show "ox_ok (\<lambda>s. full Bs0 s \<and> s0 = s) (if sj_fill_leader_enough s0 then ox_return True
     else ox_bind (on_leader_fill (fill_join_windows (je_leader en) leader_key (je_min_window en) (je_max_window en)))
       (\<lambda>filled. ox_lift (sx_bind (sx_modify (?upd filled)) (\<lambda>_.
         sx_bind sx_get (\<lambda>s. sx_return (sj_fill_leader_enough s)))))) (\<lambda>_. full Bs0) (dead Bs0)"
    by (rule ox_ok_pre) simp
qed

lemma fill_follower_ok: "ox_ok (full Bs0) (fill_follower_join_window en rf) (\<lambda>_. full Bs0) (dead Bs0)"
  unfolding fill_follower_join_window_def
proof (rule ox_ok_bind [OF ox_ok_get])
  fix s0 :: "('l, 'f, 'r) stream_joiner"
  let ?upd = "\<lambda>s. s\<lparr>ej_joiner_stats := fill_follower_example_ids (je_hash en)
           (window_ids follower_key (jw_size (sj_follower_join_window s0)) (sj_follower_join_window s))
           (ej_joiner_stats s)\<rparr>"
  have upd: "sx_ok (full Bs0) (sx_modify ?upd) (\<lambda>_. full Bs0) (dead Bs0)"
    by (rule modify_full) (simp add: core_def)
  have "ox_ok (full Bs0)
     (ox_bind (on_follower_fill (fill_join_windows (je_follower en) follower_key (je_min_window en) (je_max_window en)))
       (\<lambda>enough. ox_lift (sx_bind (sx_modify ?upd) (\<lambda>_. sx_return (enough \<or> rf))))) (\<lambda>_. full Bs0) (dead Bs0)"
    by (rule ox_ok_bind [OF follower_fill [OF foll.fill_ok]], rule ox_ok_lift, rule sx_ok_bind [OF upd], rule sx_ok_return)
  then show "ox_ok (\<lambda>s. full Bs0 s \<and> s0 = s)
     (ox_bind (on_follower_fill (fill_join_windows (je_follower en) follower_key (je_min_window en) (je_max_window en)))
       (\<lambda>enough. ox_lift (sx_bind (sx_modify ?upd) (\<lambda>_. sx_return (enough \<or> rf))))) (\<lambda>_. full Bs0) (dead Bs0)"
    by (rule ox_ok_pre) simp
qed

lemma follower_loop_ok:
  assumes neg: "\<not> je_negatives en"
  shows "ox_ok (at_turn Bs0 delay) (follower_loop en ch rf delay ex) (\<lambda>r. at_turn Bs0 (fst r)) (dead Bs0)"
  unfolding ox_ok_outcome
proof (intro allI impI)
  fix s y
  assume s: "at_turn Bs0 delay s" and run: "follower_loop en ch rf delay ex s = Some y"
  let ?ok = "outcome_ok (\<lambda>r. at_turn Bs0 (fst r)) (dead Bs0)"
  let ?P = "\<lambda>en' ch rf delay ex s y. en' = en \<longrightarrow> at_turn Bs0 delay s \<longrightarrow> ?ok y"
  have "?P en ch rf delay ex s y"
  proof (rule follower_loop.raw_induct [where P = ?P, OF _ run])
    fix rec en' ch rf delay ex s y
    assume IH: "\<And>en' ch rf delay ex s y. rec en' ch rf delay ex s = Some y \<Longrightarrow> ?P en' ch rf delay ex s y"
      and run: "(if \<not> delay then ox_return (delay, ex) s
        else ox_bind (fill_follower_join_window en' rf) (\<lambda>filled s1.
          if \<not> filled then ox_return (delay, ex) s1
          else ox_bind (ox_lift (need_delay_dump en' rf)) (\<lambda>delay.
               ox_bind (ox_lift (follower_turn en' ch delay)) (\<lambda>_.
               rec en' ch rf delay (rf \<and> half_window en' (sj_follower_join_window s1)))) s1) s) = Some y"
    show "?P en' ch rf delay ex s y"
    proof (intro impI)
      assume e: "en' = en" and s: "at_turn Bs0 delay s"
      have rec: "ox_ok (at_turn Bs0 d) (rec en ch rf d x) (\<lambda>r. at_turn Bs0 (fst r)) (dead Bs0)" for d x
        unfolding ox_ok_outcome using IH by blast
      have turn: "ox_ok (full Bs0) (ox_bind (ox_lift (need_delay_dump en rf)) (\<lambda>delay.
          ox_bind (ox_lift (follower_turn en ch delay)) (\<lambda>_. rec en ch rf delay x)))
          (\<lambda>r. at_turn Bs0 (fst r)) (dead Bs0)" for x
        by (rule ox_ok_bind [OF ox_ok_lift [OF delay_full] ox_ok_bind [OF ox_ok_lift [OF turn_ok [OF neg]] rec]])
      have "ox_ok (full Bs0) (\<lambda>s1. if \<not> filled then ox_return (True, ex) s1
          else ox_bind (ox_lift (need_delay_dump en rf)) (\<lambda>delay.
               ox_bind (ox_lift (follower_turn en ch delay)) (\<lambda>_.
               rec en ch rf delay (rf \<and> half_window en (sj_follower_join_window s1)))) s1)
          (\<lambda>r. at_turn Bs0 (fst r)) (dead Bs0)" for filled
        using turn by (cases filled) (simp_all add: ox_ok_def ox_lift_def)
      then have loop: "ox_ok (full Bs0) (ox_bind (fill_follower_join_window en rf) (\<lambda>filled s1.
          if \<not> filled then ox_return (True, ex) s1
          else ox_bind (ox_lift (need_delay_dump en rf)) (\<lambda>delay.
               ox_bind (ox_lift (follower_turn en ch delay)) (\<lambda>_.
               rec en ch rf delay (rf \<and> half_window en (sj_follower_join_window s1)))) s1))
          (\<lambda>r. at_turn Bs0 (fst r)) (dead Bs0)"
        by (rule ox_ok_bind [OF fill_follower_ok])
      show "?ok y"
      proof (cases delay)
        case True
        then have True': "delay = True" by simp
        have "ox_bind (fill_follower_join_window en rf) (\<lambda>filled s1.
          if \<not> filled then ox_return (True, ex) s1
          else ox_bind (ox_lift (need_delay_dump en rf)) (\<lambda>delay.
               ox_bind (ox_lift (follower_turn en ch delay)) (\<lambda>_.
               rec en ch rf delay (rf \<and> half_window en (sj_follower_join_window s1)))) s1) s = Some y"
          using run unfolding e True' by simp
        from ox_okE [OF loop _ this] show ?thesis using s True by simp
      next
        case False
        then show ?thesis using run s by (auto simp: ox_lift_def outcome_ok_def)
      qed
    qed
  qed
  then show "?ok y" using s by blast
qed

lemma reset_full:
  "sx_ok (at_turn Bs0 d) (if \<not> d then sx_modify (reset_joiner_state False) else sx_return ())
     (\<lambda>_. full Bs0) (dead Bs0)"
proof -
  have "full Bs0 (reset_joiner_state False s)" if ok: "live Bs0 [] s" for s
  proof -
    obtain Bs cs cl cf where so: "stream_ok Bs cs [] cl cf s" "prefix Bs0 Bs" "ej_state_stale s"
      using ok by (auto simp: live_def)
    have "stream_ok Bs cs [] cl cf (reset_joiner_state False s)"
      using so(1) base_ok_frame [of "reset_joiner_state False s" s]
      by (simp add: stream_ok_def reset_joiner_state_def Let_def)
    moreover have "jw_buffer (sj_leader_join_window (reset_joiner_state False s)) = []"
      "ej_state_stale (reset_joiner_state False s)"
      using so(3) by (simp_all add: reset_joiner_state_def jw_reset_def Let_def)
    ultimately show ?thesis using so(2) unfolding live_def by auto
  qed
  then show ?thesis by (cases d) (auto simp: sx_ok_def)
qed

lemma leader_loop_ok:
  assumes neg: "\<not> je_negatives en"
  shows "ox_ok (full Bs0) (leader_loop en ch sf rf) (\<lambda>_. full Bs0) (dead Bs0)"
  unfolding ox_ok_outcome
proof (intro allI impI)
  fix s y
  assume s: "full Bs0 s" and run: "leader_loop en ch sf rf s = Some y"
  let ?ok = "outcome_ok (\<lambda>_. full Bs0) (dead Bs0)"
  let ?P = "\<lambda>en' ch sf rf s y. en' = en \<longrightarrow> full Bs0 s \<longrightarrow> ?ok y"
  have "?P en ch sf rf s y"
  proof (rule leader_loop.raw_induct [where P = ?P, OF _ run])
    fix rec en' ch sf rf s y
    let ?fin = "\<lambda>en' s1 r. join_data_finished (sf \<and> half_window en' (sj_leader_join_window s1)) r"
    assume IH: "\<And>en' ch sf rf s y. rec en' ch sf rf s = Some y \<Longrightarrow> ?P en' ch sf rf s y"
      and run: "ox_bind (fill_leader_join_window en' sf) (\<lambda>filled s1.
         if \<not> filled then ox_return False s1
         else ox_bind (follower_loop en' ch rf True False) (\<lambda>r.
              ox_bind (ox_lift (if \<not> fst r then sx_modify (reset_joiner_state False) else sx_return ())) (\<lambda>_ s.
              if fst r \<or> ?fin en' s1 r then ox_return (?fin en' s1 r) s
              else rec en' ch sf rf s)) s1) s = Some y"
    show "?P en' ch sf rf s y"
    proof (intro impI)
      assume e: "en' = en" and s: "full Bs0 s"
      have rec: "ox_ok (full Bs0) (rec en ch sf rf) (\<lambda>_. full Bs0) (dead Bs0)"
        unfolding ox_ok_outcome using IH by blast
      have "ox_ok (full Bs0) (\<lambda>s. if fst r \<or> ?fin en s1 r then ox_return (?fin en s1 r) s else rec en ch sf rf s)
          (\<lambda>_. full Bs0) (dead Bs0)" for r s1
        using rec by (cases "fst r \<or> ?fin en s1 r") (simp_all add: ox_ok_def ox_lift_def)
      then have body: "ox_ok (full Bs0) (ox_bind (follower_loop en ch rf True False) (\<lambda>r.
          ox_bind (ox_lift (if \<not> fst r then sx_modify (reset_joiner_state False) else sx_return ())) (\<lambda>_ s.
          if fst r \<or> ?fin en s1 r then ox_return (?fin en s1 r) s else rec en ch sf rf s)))
          (\<lambda>_. full Bs0) (dead Bs0)" for s1
        by (intro ox_ok_bind [OF ox_ok_pre [OF follower_loop_ok [OF neg, of True Bs0]]]
            ox_ok_bind [OF ox_ok_lift [OF reset_full]]) simp_all
      let ?G = "\<lambda>s1. ox_bind (follower_loop en ch rf True False) (\<lambda>r.
          ox_bind (ox_lift (if \<not> fst r then sx_modify (reset_joiner_state False) else sx_return ())) (\<lambda>_ s.
          if fst r \<or> ?fin en s1 r then ox_return (?fin en s1 r) s else rec en ch sf rf s))"
      have "ox_ok (full Bs0) (\<lambda>s. ?G s s) (\<lambda>_. full Bs0) (dead Bs0)"
        by (rule ox_ok_diag [where g = ?G], rule body)
      moreover have "ox_ok (full Bs0) (\<lambda>s. ox_return False s) (\<lambda>_. full Bs0) (dead Bs0)"
        by (simp add: ox_ok_def ox_lift_def)
      ultimately have "ox_ok (full Bs0) (\<lambda>s1. if \<not> filled then ox_return False s1 else ?G s1 s1)
          (\<lambda>_. full Bs0) (dead Bs0)" for filled
        by (cases filled) (simp_all only: not_True_eq_False not_False_eq_True if_True if_False)
      then have "ox_ok (full Bs0) (ox_bind (fill_leader_join_window en sf) (\<lambda>filled s1.
         if \<not> filled then ox_return False s1 else ?G s1 s1)) (\<lambda>_. full Bs0) (dead Bs0)"
        by (rule ox_ok_bind [OF fill_leader_ok])
      from ox_okE [OF this s run [unfolded e]] show "?ok y" .
    qed
  qed
  then show "?ok y" using s by blast
qed

subsection \<open>A run\<close>

lemma prepare_full:
  "sx_ok (\<lambda>s. if stale then dead Bs0 s else full Bs0 s) (sj_prepare_join en stale) (\<lambda>_. full Bs0) (dead Bs0)"
proof (cases stale)
  case True
  have "\<exists>a s'. sj_prepare_join en True s = (Inr a, s') \<and> full Bs0 s'" if ok: "dead Bs0 s" for s
  proof -
    let ?s = "reset_joiner_state True s"
    obtain Bs where Bs: "prefix Bs0 Bs" "stale_ok Bs s" and st: "ej_state_stale s"
      using ok by (auto simp: dead_def broken_def)
    have "stale_ok Bs ?s"
      using Bs(2) stale_ok_frame [of ?s s] by (simp add: reset_joiner_state_def Let_def)
    from prepare_stale [OF this] obtain l f w ri cl cf a where
      p: "prepare_join en True ?s = (Inr a, moved ?s l f w None ri)" "base_ok Bs [] cl cf (moved ?s l f w None ri)"
      by blast
    have "stream_ok Bs [] [] cl cf (moved ?s l f w None ri)"
      using p(2) by (simp add: stream_ok_def moved_def reset_joiner_state_def jw_reset_def Let_def cached_in_def)
    then have "full Bs0 (moved ?s l f w None ri)"
      using Bs(1) st by (auto simp: live_def moved_def reset_joiner_state_def jw_reset_def Let_def)
    then show ?thesis using p(1) by (auto simp: sj_prepare_join_def sx_bind_def)
  qed
  then show ?thesis using True by (fastforce simp: sx_ok_def)
next
  case False
  have "\<exists>a s'. sj_prepare_join en False s = (Inr a, s') \<and> full Bs0 s'" if ok: "full Bs0 s" for s
  proof -
    let ?L = "jw_buffer (sj_leader_join_window s)"
    obtain Bs cs cl cf where so: "stream_ok Bs cs ?L cl cf s" "prefix Bs0 Bs" and st: "ej_state_stale s"
      using ok by (auto simp: live_def)
    let ?s = "\<lambda>l f. moved s l f (ej_world s) (ej_builder s) (ej_follower_restart_index s)"
    from so(1) prepare_fresh [of Bs cs cl cf s] obtain l f fl ff a where
      p: "prepare_join en False s = (Inr a, ?s l f)"
        "base_ok Bs cs (cl\<lparr>cu_finished := fl\<rparr>) (cf\<lparr>cu_finished := ff\<rparr>) (?s l f)"
      by (auto simp: stream_ok_def)
    have at: "cursor_at (c\<lparr>cu_finished := b\<rparr>) = cursor_at c" for c b by (simp add: cursor_at_def)
    have "stream_ok Bs cs ?L (cl\<lparr>cu_finished := fl\<rparr>) (cf\<lparr>cu_finished := ff\<rparr>) (?s l f)"
      using so(1) p(2) by (simp add: stream_ok_def at) (simp add: moved_def)
    then have "full Bs0 (?s l f)" using so(2) st unfolding live_def by (auto simp: moved_def)
    then show ?thesis using p(1) by (auto simp: sj_prepare_join_def sx_bind_def)
  qed
  then show ?thesis using False by (fastforce simp: sx_ok_def)
qed

lemma last_block:
  assumes "full Bs0 s"
  shows "case sx_bind (joiner_get_builder en ch False) (\<lambda>builder.
      sx_bind (if builder \<noteq> None \<and> (jc_interval_passed ch \<or> fin)
               then sx_bind (sj_finish_data_block en ch) yield_meta else sx_return ()) (\<lambda>_.
      if fin then sx_modify (\<lambda>s. s\<lparr>ej_join_finished := True\<rparr>) else sx_return ())) s of
    (Inl _, s') \<Rightarrow> dead Bs0 s' | (Inr _, s') \<Rightarrow> full Bs0 s'"
proof -
  let ?L = "jw_buffer (sj_leader_join_window s)"
  define t where "t = s\<lparr>ej_builder :=
      map_option (set_follower_restart_index (ej_follower_restart_index s)) (ej_builder s)\<rparr>"
  have g: "joiner_get_builder en ch False s = (Inr (ej_builder t), t)"
    by (simp add: joiner_get_builder_def sx_bind_def sx_modify_def t_def)
  obtain Bs cs cl cf where so: "stream_ok Bs cs ?L cl cf s" "prefix Bs0 Bs" and st: "ej_state_stale s"
    using assms by (auto simp: live_def)
  have so1: "stream_ok Bs cs ?L cl cf t" using so(1) by (cases "ej_builder s") (auto simp: stream_ok_def base_ok_def t_def)
  have bt: "jw_buffer (sj_leader_join_window t) = ?L" "ej_state_stale t" using st by (simp_all add: t_def)
  then have full1: "full Bs0 t" using so1 so(2) by (auto simp: live_def)
  have fl: "full Bs0 (s\<lparr>ej_join_finished := True\<rparr>) = full Bs0 s" for s
    by (rule full_core) (simp add: core_def)
  show ?thesis
  proof (cases "ej_builder t \<noteq> None \<and> (jc_interval_passed ch \<or> fin)")
    case True
    then have "cs \<noteq> []" using so1 by (auto simp: stream_ok_def base_ok_def)
    obtain r s1 where f: "sj_finish_data_block en ch t = (r, s1)" by fastforce
    have fin': "case r of Inl _ \<Rightarrow> dead Bs0 s1 | Inr _ \<Rightarrow> full Bs0 s1"
      using finish_stream [OF so1 \<open>cs \<noteq> []\<close> so(2) bt(2), of ch] bt(1) f by (cases r) auto
    have fy: "full Bs0 (s1\<lparr>ej_yielded := x\<rparr>) = full Bs0 s1" for x
      by (rule full_core) (simp add: core_def)
    have run: "sx_bind (joiner_get_builder en ch False) (\<lambda>builder.
      sx_bind (if builder \<noteq> None \<and> (jc_interval_passed ch \<or> fin)
               then sx_bind (sj_finish_data_block en ch) yield_meta else sx_return ()) (\<lambda>_.
      if fin then sx_modify (\<lambda>s. s\<lparr>ej_join_finished := True\<rparr>) else sx_return ())) s =
      (case r of Inl e \<Rightarrow> (Inl e, s1)
       | Inr m \<Rightarrow> (Inr (), if fin then s1\<lparr>ej_yielded := ej_yielded s1 @ [m], ej_join_finished := True\<rparr>
                  else s1\<lparr>ej_yielded := ej_yielded s1 @ [m]\<rparr>))"
      using True by (cases r) (auto simp: sx_bind_def g f yield_meta_def sx_modify_def)
    show ?thesis
    proof (cases r)
      case (Inl e)
      then show ?thesis using fin' unfolding run by simp
    next
      case (Inr m)
      then have "full Bs0 (s1\<lparr>ej_yielded := ej_yielded s1 @ [m]\<rparr>)" using fin' fy by simp
      moreover from this have "full Bs0 (s1\<lparr>ej_yielded := ej_yielded s1 @ [m], ej_join_finished := True\<rparr>)"
        using fl [of "s1\<lparr>ej_yielded := ej_yielded s1 @ [m]\<rparr>"] by simp
      ultimately show ?thesis using Inr unfolding run by simp
    qed
  next
    case False
    have run: "sx_bind (joiner_get_builder en ch False) (\<lambda>builder.
      sx_bind (if builder \<noteq> None \<and> (jc_interval_passed ch \<or> fin)
               then sx_bind (sj_finish_data_block en ch) yield_meta else sx_return ()) (\<lambda>_.
      if fin then sx_modify (\<lambda>s. s\<lparr>ej_join_finished := True\<rparr>) else sx_return ())) s =
      (Inr (), if fin then t\<lparr>ej_join_finished := True\<rparr> else t)"
      using False by (auto simp: sx_bind_def g sx_modify_def)
    show ?thesis using full1 fl [of t] unfolding run by (cases fin) simp_all
  qed
qed

lemma inner_ok:
  assumes neg: "\<not> je_negatives en"
    and s: "if stale then dead Bs0 s else full Bs0 s" "\<not> ej_join_finished s"
    and run: "stream_inner_joiner en ch stale s = Some (r, s')"
  shows "case r of Inl _ \<Rightarrow> dead Bs0 s' | Inr _ \<Rightarrow> full Bs0 s'"
proof -
  let ?last = "\<lambda>fin. sx_bind (joiner_get_builder en ch False) (\<lambda>builder.
      sx_bind (if builder \<noteq> None \<and> (jc_interval_passed ch \<or> fin)
               then sx_bind (sj_finish_data_block en ch) yield_meta else sx_return ()) (\<lambda>_.
      if fin then sx_modify (\<lambda>s. s\<lparr>ej_join_finished := True\<rparr>) else sx_return ()))"
  have last: "ox_ok (full Bs0) (ox_lift (?last fin)) (\<lambda>_. full Bs0) (dead Bs0)" for fin
    by (rule ox_ok_lift) (unfold sx_ok_def, intro allI impI, erule last_block)
  have loop: "ox_ok (full Bs0) (ox_bind (leader_loop en ch sf rf) (\<lambda>fin. ox_lift (?last fin))) (\<lambda>_. full Bs0) (dead Bs0)"
    for sf rf by (rule ox_ok_bind [OF leader_loop_ok [OF neg] last])
  have body: "ox_ok (\<lambda>s. if stale then dead Bs0 s else full Bs0 s)
      (ox_bind (ox_lift (sj_prepare_join en stale)) (\<lambda>(sf, rf). ox_bind (leader_loop en ch sf rf) (\<lambda>fin. ox_lift (?last fin))))
      (\<lambda>_. full Bs0) (dead Bs0)"
    by (rule ox_ok_bind [OF ox_ok_lift [OF prepare_full]]) (simp only: case_prod_beta, rule loop)
  have "ox_bind (ox_lift (sj_prepare_join en stale)) (\<lambda>(sf, rf). ox_bind (leader_loop en ch sf rf) (\<lambda>fin. ox_lift (?last fin)))
      s = Some (r, s')"
    using run s(2) by (simp add: stream_inner_joiner_def ox_bind_def [of "ox_lift sx_get"]) (simp add: ox_lift_def)
  then show ?thesis using ox_okD [OF body s(1)] by (cases r) auto
qed

subsection \<open>Between the runs\<close>

text \<open>
  The blocks are published and, unless the state is stale or the join is over, the joiner
  can go on from where it stands.
\<close>

definition joiner_inv where
  "joiner_inv Bs0 s \<longleftrightarrow>
     (\<exists>Bs. prefix Bs0 Bs \<and> stale_ok Bs s \<and> (\<not> ej_state_stale s \<and> \<not> ej_join_finished s \<longrightarrow>
        (\<exists>cs cl cf. stream_ok Bs cs (jw_buffer (sj_leader_join_window s)) cl cf s)))"

lemma stream_stale: "stream_ok Bs cs L cl cf s \<Longrightarrow> stale_ok Bs s"
  using base_stale by (auto simp: stream_ok_def)

lemma stream_ok_flag:
  "stream_ok Bs cs L cl cf (s\<lparr>ej_state_stale := b\<rparr>) = stream_ok Bs cs L cl cf s"
  "stale_ok Bs (s\<lparr>ej_state_stale := b\<rparr>) = stale_ok Bs s"
  using base_ok_frame [of "s\<lparr>ej_state_stale := b\<rparr>" s] stale_ok_frame [of "s\<lparr>ej_state_stale := b\<rparr>" s]
  by (simp_all add: stream_ok_def)

lemma joiner_run_inv:
  assumes neg: "\<not> je_negatives en" and inv: "joiner_inv Bs0 s" and run: "run_stream_joiner en ch s = Some (r, s')"
  shows "joiner_inv Bs0 s'"
proof -
  let ?s = "s\<lparr>ej_state_stale := True\<rparr>"
  obtain Bs where Bs: "prefix Bs0 Bs" "stale_ok Bs s"
      "\<not> ej_state_stale s \<and> \<not> ej_join_finished s \<longrightarrow>
        (\<exists>cs cl cf. stream_ok Bs cs (jw_buffer (sj_leader_join_window s)) cl cf s)"
    using inv by (auto simp: joiner_inv_def)
  have dead: "dead Bs0 ?s" using Bs(1,2) stream_ok_flag by (auto simp: dead_def broken_def)
  obtain q t where q: "stream_inner_joiner en ch (ej_state_stale s) ?s = Some (q, t)"
    and s': "s' = (case q of Inl _ \<Rightarrow> t | Inr _ \<Rightarrow> t\<lparr>ej_state_stale := False\<rparr>)"
    using run by (auto simp: run_stream_joiner_def with_example_joiner_def ox_bind_def ox_lift_def sx_modify_def
        split: option.splits sum.splits)
  show ?thesis
  proof (cases "ej_join_finished s")
    case True
    then have "q = Inr ()" "t = ?s" using q by (simp_all add: stream_inner_joiner_def ox_bind_def ox_lift_def)
    then show ?thesis using Bs(1,2) True stream_ok_flag by (auto simp: joiner_inv_def s')
  next
    case False
    have "if ej_state_stale s then dead Bs0 ?s else full Bs0 ?s"
      using dead Bs(1,3) False stream_ok_flag(1) by (auto simp: live_def)
    from inner_ok [OF neg this _ q] False have post: "case q of Inl _ \<Rightarrow> dead Bs0 t | Inr _ \<Rightarrow> full Bs0 t" by simp
    show ?thesis
    proof (cases q)
      case (Inl e)
      then show ?thesis using post by (auto simp: joiner_inv_def s' dead_def broken_def)
    next
      case (Inr u)
      then obtain Bs' cs cl cf where "prefix Bs0 Bs'" "stream_ok Bs' cs (jw_buffer (sj_leader_join_window t)) cl cf t"
        using post by (auto simp: live_def)
      moreover from this have "stale_ok Bs' t" using stream_stale by blast
      ultimately show ?thesis using stream_ok_flag unfolding joiner_inv_def s' Inr
        by (intro exI [of _ Bs']) auto
    qed
  qed
qed

lemma inv_core:
  assumes inv: "joiner_inv Bs0 s" and s': "core s' = core s" "ej_join_finished s' = ej_join_finished s"
  shows "joiner_inv Bs0 s'"
proof -
  have st: "stale_ok Bs s' = stale_ok Bs s" for Bs using s'(1) stale_ok_frame [of s' s] by (simp add: core_def)
  have "ej_state_stale s' = ej_state_stale s"
    "jw_buffer (sj_leader_join_window s') = jw_buffer (sj_leader_join_window s)" using s'(1) by (simp_all add: core_def)
  then show ?thesis using inv st stream_ok_core [OF s'(1)] s'(2) by (simp add: joiner_inv_def)
qed

text \<open>Looking up a meta moves the caches of the block manager only.\<close>

lemma lookup_world:
  assumes ok: "world Bs w" and small: "last_end Bs < 2 ^ 63"
    and run: "get_data_block_meta_by_index (je_block en) (je_partition en) i w = (r, w')"
  shows "world Bs w'"
proof -
  have b: "blocks_ok (je_block en) (je_partition en) (int (length Bs)) w" and codec: "block_codec_ok (je_block en)"
    using ok by (simp_all add: world_ok_def)
  from get_meta_spec [OF b world_bound [OF ok small] codec, of i] run
  have "bw_fs w' = bw_fs w" "blocks_ok (je_block en) (je_partition en) (int (length Bs)) w'" by auto
  then show ?thesis by (rule world_ok_same_files [OF ok])
qed

lemma world_inv:
  assumes inv: "joiner_inv Bs0 s" and w: "\<And>Bs. stale_ok Bs s \<Longrightarrow> world Bs (ej_world s) \<Longrightarrow> world Bs w"
  shows "joiner_inv Bs0 (s\<lparr>ej_world := w\<rparr>)"
proof -
  have st: "stale_ok Bs (s\<lparr>ej_world := w\<rparr>)" if "stale_ok Bs s" for Bs
    using that w [OF that] by (simp add: stale_ok_def)
  have so: "stream_ok Bs cs L cl cf (s\<lparr>ej_world := w\<rparr>)" if "stream_ok Bs cs L cl cf s" for Bs cs L cl cf
    using that w [OF stream_stale [OF that]] base_world [of Bs cs cl cf s w]
    by (simp add: stream_ok_def base_ok_def)
  show ?thesis using inv st so unfolding joiner_inv_def by (auto, metis)
qed

end

end
