(* ===== verification/Stream_System.thy ===== *)
theory Stream_System
  imports Stream_Joining
begin

text \<open>
  The stream joiner between its two visitors: the example ids that the leader has dumped and the raw
  data of the follower, with the arrivals on both sides and restarts of the process as steps, and what
  holds of every reachable state.
\<close>

section \<open>Arrivals and restarts\<close>

context joining
begin

text \<open>A visitor that shows more, or that was made anew.\<close>

lemma more_can_seek: "can_seek N c k \<Longrightarrow> N \<le> N' \<Longrightarrow> can_seek N' c k"
  by (auto simp: can_seek_def)

lemma leader_arrival:
  assumes inv: "joiner_inv Bs0 s"
    and v: "\<And>b N c. lsrc (ej_leader_visitor s) b N c \<Longrightarrow> \<exists>b' N'. N \<le> N' \<and> lsrc v b' N' c"
  shows "joiner_inv Bs0 (s\<lparr>ej_leader_visitor := v\<rparr>)"
proof -
  have st: "stale_ok Bs (s\<lparr>ej_leader_visitor := v\<rparr>)" if ok: "stale_ok Bs s" for Bs
  proof -
    obtain b N c where c: "lsrc (ej_leader_visitor s) b N c" "Bs \<noteq> [] \<longrightarrow> can_seek N c (last_end Bs)"
      using ok unfolding stale_ok_def by blast
    from v [OF c(1)] obtain b' N' where "N \<le> N'" "lsrc v b' N' c" by blast
    then have "\<exists>b N c. lsrc v b N c \<and> (Bs \<noteq> [] \<longrightarrow> can_seek N c (last_end Bs))"
      using c(2) more_can_seek by blast
    then show ?thesis using ok unfolding stale_ok_def by simp
  qed
  have so: "stream_ok Bs cs L cl cf (s\<lparr>ej_leader_visitor := v\<rparr>)" if ok: "stream_ok Bs cs L cl cf s" for Bs cs L cl cf
  proof -
    have base: "base_ok Bs cs cl cf s" using ok by (simp add: stream_ok_def)
    from base_src(1) [OF base] v obtain b N where "lsrc v b N cl" by blast
    from base_leader [OF base this] have "base_ok Bs cs cl cf (s\<lparr>ej_leader_visitor := v\<rparr>)" by simp
    then show ?thesis using ok by (simp add: stream_ok_def)
  qed
  show ?thesis using inv st so unfolding joiner_inv_def by (auto, metis)
qed

lemma follower_arrival:
  assumes inv: "joiner_inv Bs0 s"
    and v: "\<And>b N c. fsrc (ej_follower_visitor s) b N c \<Longrightarrow> \<exists>b' N'. N \<le> N' \<and> fsrc v b' N' c"
  shows "joiner_inv Bs0 (s\<lparr>ej_follower_visitor := v\<rparr>)"
proof -
  have st: "stale_ok Bs (s\<lparr>ej_follower_visitor := v\<rparr>)" if ok: "stale_ok Bs s" for Bs
  proof -
    obtain b N c where c: "fsrc (ej_follower_visitor s) b N c" "Bs \<noteq> [] \<longrightarrow> can_seek N c (last_restart Bs)"
      using ok unfolding stale_ok_def by blast
    from v [OF c(1)] obtain b' N' where "N \<le> N'" "fsrc v b' N' c" by blast
    then have "\<exists>b N c. fsrc v b N c \<and> (Bs \<noteq> [] \<longrightarrow> can_seek N c (last_restart Bs))"
      using c(2) more_can_seek by blast
    then show ?thesis using ok unfolding stale_ok_def by simp
  qed
  have so: "stream_ok Bs cs L cl cf (s\<lparr>ej_follower_visitor := v\<rparr>)" if ok: "stream_ok Bs cs L cl cf s" for Bs cs L cl cf
  proof -
    have base: "base_ok Bs cs cl cf s" using ok by (simp add: stream_ok_def)
    from base_src(2) [OF base] v obtain b N where "fsrc v b N cf" by blast
    from base_follower [OF base this] have "base_ok Bs cs cl cf (s\<lparr>ej_follower_visitor := v\<rparr>)" by simp
    then show ?thesis using ok by (simp add: stream_ok_def)
  qed
  show ?thesis using inv st so unfolding joiner_inv_def by (auto, metis)
qed

lemma new_joiner_inv:
  fixes l :: 'l and f :: 'f
  assumes w: "world Bs w" "bw_fs w = fs" and small: "last_end Bs < 2 ^ 63"
    and l: "lsrc l b N c" "Bs \<noteq> [] \<longrightarrow> can_seek N c (last_end Bs)"
    and f: "fsrc f b' N' c'" "Bs \<noteq> [] \<longrightarrow> can_seek N' c' (last_restart Bs)"
    and new: "new_stream_joiner en l f fs = Inr s'"
  shows "joiner_inv Bs s'"
proof -
  have bo: "blocks_ok (je_block en) (je_partition en) (int (length Bs)) w" using w(1) by (simp add: world_ok_def)
  obtain r w1 where w1: "new_data_block_manager (je_block en) (je_partition en) fs = (r, w1)" by fastforce
  have "files_ok (je_block en) (je_partition en) (int (length Bs)) fs" using bo w(2) by (simp add: blocks_ok_def)
  from restart_ok [OF this world_bound [OF w(1) small]] w1 have
    "blocks_ok (je_block en) (je_partition en) (int (length Bs)) w1" "bw_fs w1 = bw_fs w" using w(2) by simp_all
  then have world1: "world Bs w1" using world_ok_same_files [OF w(1)] by simp
  show ?thesis
  proof (cases r)
    case (Inl e)
    then show ?thesis using new w1 by (simp add: new_stream_joiner_def joiner_over_def)
  next
    case (Inr u)
    let ?s0 = "\<lparr>ej_leader_visitor = l, ej_follower_visitor = f, ej_world = w1,
              ej_joiner_stats = new_joiner_stats 0 (- 1) (- 1) (je_stats_windows_size en), ej_builder = None,
              ej_state_stale = False, ej_follower_restart_index = 0, ej_sync_example_id_finished = False,
              ej_raw_data_finished = False, ej_join_finished = False, ej_yielded = [],
              sj_leader_join_window = new_join_window (1 / 20) (99 / 100),
              sj_follower_join_window = new_join_window (1 / 20) (90 / 100),
              sj_joined_cache = [], sj_leader_unjoined_example_ids = [], sj_follower_example_cache = [],
              sj_fill_leader_enough = False, sj_negative_buf = [], sj_negative_prev_index = 0\<rparr>
              :: ('l, 'f, 'r) stream_joiner"
    have st0: "stale_ok Bs ?s0" using world1 l f by (auto simp: stale_ok_def)
    from latest_run [OF st0] obtain w2 where w2: "latest_meta en ?s0 =
        (Inr (if Bs = [] then None else Some (fst (last Bs))), ?s0\<lparr>ej_world := w2\<rparr>)" "world Bs w2" by blast
    define js where "js = (case if Bs = [] then None else Some (fst (last Bs)) of
            None \<Rightarrow> new_joiner_stats 0 (- 1) (- 1) (je_stats_windows_size en)
          | Some m \<Rightarrow> new_joiner_stats (si_stats_cum_join_num (bm_joiner_stats_info m))
              (si_leader_stats_index (bm_joiner_stats_info m))
              (si_follower_stats_index (bm_joiner_stats_info m)) (je_stats_windows_size en))"
    let ?s1 = "?s0\<lparr>ej_world := w2, ej_joiner_stats := js\<rparr>"
    have st1: "stale_ok Bs ?s1" using w2(2) l f by (auto simp: stale_ok_def)
    from sync_run [OF st1] obtain l2 f2 w3 ri cl cf where
      sy: "joiner_sync_state en ?s1 = (Inr (), moved ?s1 l2 f2 w3 (ej_builder ?s1) ri)"
        "base_ok Bs [] cl cf (moved ?s1 l2 f2 w3 None ri)" by blast
    have "init_joiner en ?s0 = (Inr (), moved ?s1 l2 f2 w3 None ri)"
      using w2(1) sy(1) by (simp add: init_joiner_def sx_bind_def sx_modify_def js_def)
    then have s': "s' = reset_joiner_state True (moved ?s1 l2 f2 w3 None ri)"
      using new w1 Inr by (simp add: new_stream_joiner_def joiner_over_def)
    let ?t = "reset_joiner_state True (moved ?s1 l2 f2 w3 None ri)"
    have "base_ok Bs [] cl cf ?t"
      using sy(2) base_ok_frame [of ?t "moved ?s1 l2 f2 w3 None ri"] by (simp add: reset_joiner_state_def)
    then have "stream_ok Bs [] (jw_buffer (sj_leader_join_window ?t)) cl cf ?t"
      by (simp add: stream_ok_def reset_joiner_state_def jw_reset_def moved_def cached_in_def)
    then show ?thesis using stream_stale unfolding joiner_inv_def s' by blast
  qed
qed

text \<open>The process is started again, over the files that are there.\<close>

lemma joiner_restart_inv:
  assumes inv: "joiner_inv Bs0 s"
    and l: "\<And>b N c. lsrc (ej_leader_visitor s) b N c \<Longrightarrow> \<exists>b' N'. N \<le> N' \<and> lsrc l b' N' start_cursor"
    and f: "\<And>b N c. fsrc (ej_follower_visitor s) b N c \<Longrightarrow> \<exists>b' N'. N \<le> N' \<and> fsrc f b' N' start_cursor"
    and new: "new_stream_joiner en l f (bw_fs (ej_world s)) = Inr s'"
  shows "joiner_inv Bs0 s'"
proof -
  obtain Bs where Bs: "prefix Bs0 Bs" "stale_ok Bs s" using inv unfolding joiner_inv_def by blast
  have again: "can_seek N' start_cursor k" if "can_seek N c k" "N \<le> N'" for N c k N'
    using that by (auto simp: can_seek_def start_cursor_def)
  obtain b N c where c: "lsrc (ej_leader_visitor s) b N c" "Bs \<noteq> [] \<longrightarrow> can_seek N c (last_end Bs)"
    using Bs(2) unfolding stale_ok_def by blast
  from l [OF c(1)] obtain b' N' where l': "N \<le> N'" "lsrc l b' N' start_cursor" by blast
  obtain d M e where e: "fsrc (ej_follower_visitor s) d M e" "Bs \<noteq> [] \<longrightarrow> can_seek M e (last_restart Bs)"
    using Bs(2) unfolding stale_ok_def by blast
  from f [OF e(1)] obtain d' M' where f': "M \<le> M'" "fsrc f d' M' start_cursor" by blast
  have "world Bs (ej_world s)" using Bs(2) by (simp add: stale_ok_def)
  from new_joiner_inv [OF this refl last_end_small [OF Bs(2)] l'(2) _ f'(2) _ new] c(2) e(2) again l'(1) f'(1)
  have "joiner_inv Bs s'" by blast
  then show ?thesis using Bs(1) prefix_order.order_trans unfolding joiner_inv_def by blast
qed

end

section \<open>The stream joiner over the two visitors\<close>

text \<open>
  A partition as the process of a stream joiner finds it: the dumped example ids of the leader and
  the raw data of the follower.
\<close>

record ('v, 'w, 'r) stream_system =
  sy_joiner :: "((leader_item, 'v ei_manager) visitor, ('r block_item, 'w rd_manager) visitor, 'r) joiner_env"
  sy_ids :: "'v ei_env"
  sy_leader :: "(leader_item, 'v ei_manager) visitor_env"
  sy_leader_files :: "nat \<Rightarrow> leader_item list"
  sy_raw :: "'w mg_env"
  sy_follower :: "('r block_item, 'w rd_manager) visitor_env"
  sy_follower_files :: "nat \<Rightarrow> 'r block_item list"
  sy_follower_path :: "nat \<Rightarrow> string"

type_synonym ('v, 'w, 'r) stream_state =
  "((leader_item, 'v ei_manager) visitor, ('r block_item, 'w rd_manager) visitor, 'r) stream_joiner"

definition stream_env ::
    "('v, 'w, 'r) stream_system \<Rightarrow>
     ((leader_item, 'v ei_manager) visitor, ('r block_item, 'w rd_manager) visitor, 'r) joiner_env" where
  "stream_env sy = (sy_joiner sy)
     \<lparr>je_leader := leader_visitor_ops (sy_ids sy) (sy_leader sy),
      je_follower := follower_visitor_ops (sy_raw sy) (je_partition (sy_joiner sy)) (sy_follower sy)\<rparr>"

definition leader_data :: "('v, 'w, 'r) stream_system \<Rightarrow> int \<Rightarrow> leader_item" where
  "leader_data sy = sequence_of (sy_leader_files sy)"

definition follower_data :: "('v, 'w, 'r) stream_system \<Rightarrow> int \<Rightarrow> 'r block_item" where
  "follower_data sy = sequence_of (sy_follower_files sy)"

definition leader_at where
  "leader_at sy = leader_src (sy_ids sy) (sy_leader sy) (sy_leader_files sy)"

definition follower_at where
  "follower_at sy = follower_src (sy_raw sy) (je_partition (sy_joiner sy)) (sy_follower sy)
     (sy_follower_files sy) (sy_follower_path sy)"

interpretation stream: joining "stream_env sy" "leader_data sy" "leader_at sy" "follower_data sy" "follower_at sy"
  for sy
proof (intro joining.intro joining_axioms.intro)
  show "join_source (je_leader (stream_env sy)) (leader_data sy) (leader_at sy)"
    unfolding leader_data_def leader_at_def stream_env_def
    using leader_source.join_source_axioms by simp
  show "join_source (je_follower (stream_env sy)) (follower_data sy) (follower_at sy)"
    unfolding follower_data_def follower_at_def stream_env_def
    using follower_source.join_source_axioms by simp
  show "N \<le> 2 ^ 63" if at: "leader_at sy l b N c" for l b N c
  proof -
    obtain M k where M: "M < ve_depth (sy_leader sy)" "N = file_start (sy_leader_files sy) k"
        "tracks ei_avail (ei_handed (sy_ids sy) (sy_leader_files sy) M) (sy_leader_files sy)
           (dumped_path (sy_ids sy) (sy_leader_files sy)) b k k l c"
      and small: "file_start (sy_leader_files sy) (ve_depth (sy_leader sy)) \<le> 2 ^ 63"
      using at unfolding leader_at_def leader_src_def by blast
    have "k \<le> M" using M(3) by (auto simp: tracks_def visits_def ei_handed_def)
    then have "N \<le> file_start (sy_leader_files sy) (ve_depth (sy_leader sy))"
      unfolding M(2) using M(1) by (intro file_start_mono) simp
    then show ?thesis using small by simp
  qed
qed

section \<open>The steps\<close>

definition dumped_so_far :: "('v, 'w, 'r) stream_system \<Rightarrow> 'v ei_manager \<Rightarrow> nat \<Rightarrow> bool" where
  "dumped_so_far sy m n \<longleftrightarrow> ids_dumped (sy_ids sy) (sy_leader_files sy) (ei_kv m) (ei_files m) n"

definition published_so_far :: "('v, 'w, 'r) stream_system \<Rightarrow> 'w rd_manager \<Rightarrow> nat \<Rightarrow> bool" where
  "published_so_far sy m n \<longleftrightarrow> published (sy_raw sy) (je_partition (sy_joiner sy)) (rd_kv m) n"

text \<open>
  The joiner runs, with any clock and any outcome of its renames, is told that one side has come
  to its end or is asked for a meta; the next file of ids is dumped, files of raw data are published;
  the process is started again and finds what is in the stores and directories.
\<close>

inductive stream_step :: "('v, 'w, 'r) stream_system \<Rightarrow> ('v, 'w, 'r) stream_state \<Rightarrow> ('v, 'w, 'r) stream_state \<Rightarrow> bool"
  for sy where
  Run: "run_stream_joiner (stream_env sy) ch s = Some (r, s') \<Longrightarrow> stream_step sy s s'"
| Ids_finished: "stream_step sy s (set_sync_example_id_finished s)"
| Raw_finished: "stream_step sy s (set_raw_data_finished s)"
| Ask_meta: "joiner_meta_by_index (stream_env sy) i s = (r, s') \<Longrightarrow> stream_step sy s s'"
| Ids_dumped: "dumped_so_far sy (v_manager (ej_leader_visitor s)) n \<Longrightarrow> Suc n < ve_depth (sy_leader sy) \<Longrightarrow>
    stream_step sy s (s\<lparr>ej_leader_visitor := (ej_leader_visitor s)\<lparr>v_manager :=
      dump_file (sy_ids sy) (next_dump (sy_ids sy) (sy_leader_files sy) n) (v_manager (ej_leader_visitor s))\<rparr>\<rparr>)"
| Files_published: "published_so_far sy (v_manager (ej_follower_visitor s)) n \<Longrightarrow>
    n + length ts < ve_depth (sy_follower sy) \<Longrightarrow>
    (\<forall>j < length ts. rm_file_path (ts ! j) = sy_follower_path sy (n + j)) \<Longrightarrow>
    stream_step sy s (s\<lparr>ej_follower_visitor := (ej_follower_visitor s)\<lparr>v_manager :=
      (v_manager (ej_follower_visitor s))\<lparr>rd_kv := publish_files (sy_raw sy) (je_partition (sy_joiner sy)) ts
        (rd_kv (v_manager (ej_follower_visitor s)))\<rparr>\<rparr>\<rparr>)"
| Restart: "listing_ok (sy_leader_files sy) listing \<Longrightarrow>
    new_example_id_visitor (sy_ids sy) listing (ei_kv (v_manager (ej_leader_visitor s)))
      (ei_files (v_manager (ej_leader_visitor s))) = Inr l \<Longrightarrow>
    new_raw_data_visitor (sy_raw sy) (je_partition (sy_joiner sy)) (rd_kv (v_manager (ej_follower_visitor s))) = Inr f \<Longrightarrow>
    new_stream_joiner (stream_env sy) l f (bw_fs (ej_world s)) = Inr s' \<Longrightarrow> stream_step sy s s'"

text \<open>Where it begins: no block is published yet, and what lies in the stores agrees with the files.\<close>

definition stream_start :: "('v, 'w, 'r) stream_system \<Rightarrow> ('v, 'w, 'r) stream_state \<Rightarrow> bool" where
  "stream_start sy s \<longleftrightarrow>
     (\<exists>listing kv paths n l kv' n' f fs.
        ids_dumped (sy_ids sy) (sy_leader_files sy) kv paths n \<and> n < ve_depth (sy_leader sy) \<and>
        listing_ok (sy_leader_files sy) listing \<and> new_example_id_visitor (sy_ids sy) listing kv paths = Inr l \<and>
        store_ok (sy_raw sy) (je_partition (sy_joiner sy)) (sy_follower_files sy) (sy_follower_path sy) kv' \<and>
        published (sy_raw sy) (je_partition (sy_joiner sy)) kv' n' \<and> n' < ve_depth (sy_follower sy) \<and>
        new_raw_data_visitor (sy_raw sy) (je_partition (sy_joiner sy)) kv' = Inr f \<and>
        (\<forall>i. 0 \<le> i \<longrightarrow> \<not> block_dumped (je_block (sy_joiner sy)) (je_partition (sy_joiner sy)) fs i) \<and>
        new_stream_joiner (stream_env sy) l f fs = Inr s)"

text \<open>
  What the parameters have to be: the visitors read the files from disk, their managers are the
  real ones, what is printed can be parsed, and there are at most \<open>2 ^ 63\<close> leader examples.
  Negative examples are not generated.
\<close>

definition stream_ready :: "('v, 'w, 'r) stream_system \<Rightarrow> bool" where
  "stream_ready sy \<longleftrightarrow>
     readable (ve_disk (sy_leader sy)) (sy_leader_files sy) (dumped_path (sy_ids sy) (sy_leader_files sy)) \<and>
     ve_gim (sy_leader sy) = ei_gim (sy_ids sy) \<and> ei_codec_ok (sy_ids sy) \<and>
     file_start (sy_leader_files sy) (ve_depth (sy_leader sy)) \<le> 2 ^ 63 \<and>
     readable (ve_disk (sy_follower sy)) (sy_follower_files sy) (sy_follower_path sy) \<and>
     ve_gim (sy_follower sy) = rd_gim (sy_raw sy) (je_partition (sy_joiner sy)) \<and>
     block_codec_ok (je_block (sy_joiner sy)) \<and> \<not> je_negatives (sy_joiner sy)"

definition stream_reachable :: "('v, 'w, 'r) stream_system \<Rightarrow> ('v, 'w, 'r) stream_state \<Rightarrow> bool" where
  "stream_reachable sy s \<longleftrightarrow> (\<exists>s0. stream_start sy s0 \<and> (stream_step sy)\<^sup>*\<^sup>* s0 s)"

section \<open>Every step keeps the invariant\<close>

lemma ids_dumped_unique:
  assumes "ids_dumped en files kv fs n" "ids_dumped en files kv fs n'"
  shows "n = n'"
  using assms by (auto simp: ids_dumped_def anchor_at_def split: if_splits option.splits)

lemma published_unique:
  assumes "published en p kv n" "published en p kv n'"
  shows "n = n'"
proof -
  have "q < n \<longleftrightarrow> q < n'" for q using assms by (auto simp: published_def)
  then show ?thesis by (metis linorder_neqE_nat less_irrefl)
qed

lemma dumped_leader:
  assumes ready: "stream_ready sy" and n: "dumped_so_far sy (v_manager v) n" "Suc n < ve_depth (sy_leader sy)"
    and at: "leader_at sy v b N c"
  shows "leader_at sy (v\<lparr>v_manager := dump_file (sy_ids sy) (next_dump (sy_ids sy) (sy_leader_files sy) n) (v_manager v)\<rparr>) b N c"
proof -
  let ?en = "sy_ids sy" and ?files = "sy_leader_files sy"
  obtain M k where M: "N = file_start ?files k"
      "tracks ei_avail (ei_handed ?en ?files M) ?files (dumped_path ?en ?files) b k k v c"
    using at by (auto simp: leader_at_def leader_src_def)
  have "ids_dumped ?en ?files (ei_kv (v_manager v)) (ei_files (v_manager v)) M"
    using M(2) by (auto simp: tracks_def visits_def ei_handed_def)
  from ids_dumped_unique [OF this] n(1) have "M = n" by (simp add: dumped_so_far_def)
  moreover have "ei_codec_ok ?en" using ready by (simp add: stream_ready_def)
  ultimately show ?thesis using dump_tracks [OF M(2)] M(1) n(2) at
    unfolding leader_at_def leader_src_def by blast
qed

lemma published_follower:
  assumes n: "published_so_far sy (v_manager v) n" "n + length ts < ve_depth (sy_follower sy)"
    and ts: "\<forall>j < length ts. rm_file_path (ts ! j) = sy_follower_path sy (n + j)"
    and at: "follower_at sy v b N c"
  shows "follower_at sy (v\<lparr>v_manager := (v_manager v)\<lparr>rd_kv :=
    publish_files (sy_raw sy) (je_partition (sy_joiner sy)) ts (rd_kv (v_manager v))\<rparr>\<rparr>) b N c"
proof -
  let ?en = "sy_raw sy" and ?p = "je_partition (sy_joiner sy)"
  let ?files = "sy_follower_files sy" and ?path = "sy_follower_path sy"
  obtain M k where M: "N = file_start ?files k" "b = False"
      "tracks rd_avail (rd_handed ?en ?p ?files ?path M) ?files ?path False k k v c"
    using at by (auto simp: follower_at_def follower_src_def)
  have "published ?en ?p (rd_kv (v_manager v)) M"
    using M(3) by (auto simp: tracks_def visits_def rd_handed_def)
  from published_unique [OF this] n(1) have "M = n" by (simp add: published_so_far_def)
  then show ?thesis using publish_tracks [OF M(3)] ts M(1,2) n(2) at
    unfolding follower_at_def follower_src_def by blast
qed

text \<open>New visitors start over the same files.\<close>

lemma new_leader:
  assumes ready: "stream_ready sy" and ids: "ids_dumped (sy_ids sy) (sy_leader_files sy) kv paths n"
    and n: "n < ve_depth (sy_leader sy)" and ls: "listing_ok (sy_leader_files sy) listing"
    and new: "new_example_id_visitor (sy_ids sy) listing kv paths = Inr l"
  shows "leader_at sy l False (file_start (sy_leader_files sy) n) start_cursor"
proof -
  let ?en = "sy_ids sy" and ?files = "sy_leader_files sy"
  obtain s where s: "new_example_id_manager ?en True listing kv paths = Inr s"
      "new_visitor s (imm_index_metas s) = Inr l"
    using new by (auto simp: new_example_id_visitor_def bind_result_Inr_iff)
  have ne: "\<forall>q. ?files q \<noteq> []" using ready by (simp add: stream_ready_def readable_def)
  note h = new_example_id_manager_handed [OF ids ls ne s(1)]
  have "imm_index_metas s = map (meta_of ?files (dumped_path ?en ?files)) [0..<length (imm_index_metas s)]"
    using h by (simp add: ei_handed_def)
  then have "tracks ei_avail (ei_handed ?en ?files n) ?files (dumped_path ?en ?files) False n n l start_cursor"
    using new_visitor_tracks [where handed = "ei_handed ?en ?files n" and avail = ei_avail,
        OF conjunct1 [OF h] conjunct2 [OF h]] s(2) by metis
  then show ?thesis using ready n unfolding leader_at_def leader_src_def stream_ready_def by blast
qed

lemma new_follower:
  assumes ready: "stream_ready sy"
    and st: "store_ok (sy_raw sy) (je_partition (sy_joiner sy)) (sy_follower_files sy) (sy_follower_path sy) kv"
      "published (sy_raw sy) (je_partition (sy_joiner sy)) kv n"
    and n: "n < ve_depth (sy_follower sy)"
    and new: "new_raw_data_visitor (sy_raw sy) (je_partition (sy_joiner sy)) kv = Inr f"
  shows "follower_at sy f False (file_start (sy_follower_files sy) n) start_cursor"
  using new_raw_data_visitor_tracks [OF st new] ready n
  unfolding follower_at_def follower_src_def stream_ready_def by blast

lemma leader_again:
  assumes ready: "stream_ready sy" and at: "leader_at sy v b N c" and ls: "listing_ok (sy_leader_files sy) listing"
    and new: "new_example_id_visitor (sy_ids sy) listing (ei_kv (v_manager v)) (ei_files (v_manager v)) = Inr l"
  shows "\<exists>b' N'. N \<le> N' \<and> leader_at sy l b' N' start_cursor"
proof -
  let ?en = "sy_ids sy" and ?files = "sy_leader_files sy"
  obtain M k where M: "M < ve_depth (sy_leader sy)" "N = file_start ?files k"
      "tracks ei_avail (ei_handed ?en ?files M) ?files (dumped_path ?en ?files) b k k v c"
    using at by (auto simp: leader_at_def leader_src_def)
  then have ids: "ids_dumped ?en ?files (ei_kv (v_manager v)) (ei_files (v_manager v)) M" and k: "k \<le> M"
    by (auto simp: tracks_def visits_def ei_handed_def)
  have "N \<le> file_start ?files M" unfolding M(2) using k by (rule file_start_mono)
  then show ?thesis using new_leader [OF ready ids M(1) ls new] by blast
qed

lemma follower_again:
  assumes ready: "stream_ready sy" and at: "follower_at sy v b N c"
    and new: "new_raw_data_visitor (sy_raw sy) (je_partition (sy_joiner sy)) (rd_kv (v_manager v)) = Inr f"
  shows "\<exists>b' N'. N \<le> N' \<and> follower_at sy f b' N' start_cursor"
proof -
  let ?en = "sy_raw sy" and ?p = "je_partition (sy_joiner sy)"
  let ?files = "sy_follower_files sy" and ?path = "sy_follower_path sy"
  obtain M k where M: "M < ve_depth (sy_follower sy)" "N = file_start ?files k"
      "tracks rd_avail (rd_handed ?en ?p ?files ?path M) ?files ?path False k k v c"
    using at by (auto simp: follower_at_def follower_src_def)
  then have st: "store_ok ?en ?p ?files ?path (rd_kv (v_manager v))" "published ?en ?p (rd_kv (v_manager v)) M"
    and k: "k \<le> M"
    by (auto simp: tracks_def visits_def rd_handed_def)
  have "N \<le> file_start ?files M" unfolding M(2) using k by (rule file_start_mono)
  then show ?thesis using new_follower [OF ready st M(1) new] by blast
qed

abbreviation stream_inv where "stream_inv sy \<equiv> stream.joiner_inv sy"

lemma stream_lookup:
  assumes inv: "stream_inv sy Bs0 s" and run: "joiner_meta_by_index (stream_env sy) i s = (r, s')"
  shows "stream_inv sy Bs0 s'"
proof -
  obtain q w where q: "get_data_block_meta_by_index (je_block (stream_env sy)) (je_partition (stream_env sy)) i (ej_world s) = (q, w)"
    and s': "s' = s\<lparr>ej_world := w\<rparr>"
    using run by (auto simp: joiner_meta_by_index_def sx_bind_def on_blocks_def split: prod.splits sum.splits)
  show ?thesis unfolding s'
    using stream.lookup_world [OF _ stream.last_end_small q] by (rule stream.world_inv [OF inv])
qed

lemma stream_step_inv:
  assumes ready: "stream_ready sy" and inv: "stream_inv sy Bs0 s" and step: "stream_step sy s s'"
  shows "stream_inv sy Bs0 s'"
  using step
proof cases
  case (Run ch r)
  have "\<not> je_negatives (stream_env sy)" using ready by (simp add: stream_ready_def stream_env_def)
  then show ?thesis using stream.joiner_run_inv [OF _ inv Run] by blast
next
  case Ids_finished
  then show ?thesis by (auto intro: stream.inv_core [OF inv] simp: core_def set_sync_example_id_finished_def)
next
  case Raw_finished
  then show ?thesis by (auto intro: stream.inv_core [OF inv] simp: core_def set_raw_data_finished_def)
next
  case Ask_meta
  then show ?thesis by (rule stream_lookup [OF inv])
next
  case (Ids_dumped n)
  then show ?thesis using stream.leader_arrival [OF inv] dumped_leader [OF ready Ids_dumped(2,3)] by blast
next
  case (Files_published n ts)
  then show ?thesis using stream.follower_arrival [OF inv] published_follower [OF Files_published(2-4)] by blast
next
  case (Restart listing l f)
  show ?thesis
    using stream.joiner_restart_inv [OF inv _ _ Restart(4)] leader_again [OF ready _ Restart(1,2)]
      follower_again [OF ready _ Restart(3)] by blast
qed

lemma stream_steps_inv:
  assumes "(stream_step sy)\<^sup>*\<^sup>* s s'" "stream_ready sy" "stream_inv sy Bs0 s"
  shows "stream_inv sy Bs0 s'"
  using assms by (induction rule: rtranclp_induct) (auto intro: stream_step_inv)

lemma stream_start_inv:
  assumes ready: "stream_ready sy" and start: "stream_start sy s"
  shows "stream_inv sy [] s"
proof -
  let ?be = "je_block (sy_joiner sy)" and ?p = "je_partition (sy_joiner sy)"
  obtain listing kv paths n l kv' n' f fs where
    l: "ids_dumped (sy_ids sy) (sy_leader_files sy) kv paths n" "n < ve_depth (sy_leader sy)"
      "listing_ok (sy_leader_files sy) listing" "new_example_id_visitor (sy_ids sy) listing kv paths = Inr l" and
    f: "store_ok (sy_raw sy) ?p (sy_follower_files sy) (sy_follower_path sy) kv'"
      "published (sy_raw sy) ?p kv' n'" "n' < ve_depth (sy_follower sy)"
      "new_raw_data_visitor (sy_raw sy) ?p kv' = Inr f" and
    fs: "\<forall>i. 0 \<le> i \<longrightarrow> \<not> block_dumped ?be ?p fs i" and new: "new_stream_joiner (stream_env sy) l f fs = Inr s"
    using start unfolding stream_start_def by blast
  let ?w = "\<lparr>bw_fs = fs, bw_dumped_index = None, bw_dumping_index = None, bw_cache = []\<rparr>"
  have "block_codec_ok ?be" using ready by (simp add: stream_ready_def)
  then have "world_ok ?be ?p (leader_data sy) (follower_data sy) [] ?w"
    using fs by (simp add: world_ok_def blocks_ok_def files_ok_def cache_ok_def chained_def)
  then have w: "world_ok (je_block (stream_env sy)) (je_partition (stream_env sy)) (leader_data sy) (follower_data sy) [] ?w"
    by (simp add: stream_env_def)
  show ?thesis
    by (rule stream.new_joiner_inv [OF w _ _ new_leader [OF ready l] _ new_follower [OF ready f] _ new])
      (simp_all add: last_end_def)
qed

lemma reachable_inv:
  assumes "stream_ready sy" "stream_reachable sy s"
  shows "stream_inv sy [] s"
  using assms stream_start_inv stream_steps_inv unfolding stream_reachable_def by blast

section \<open>What the blocks hold\<close>

text \<open>The blocks that a state has published, with the calls that made them.\<close>

definition stream_blocks ::
    "('v, 'w, 'r) stream_system \<Rightarrow> ('v, 'w, 'r) stream_state \<Rightarrow> (data_block_meta \<times> 'r append_call list) list \<Rightarrow> bool" where
  "stream_blocks sy s Bs \<longleftrightarrow>
     (\<forall>i. 0 \<le> i \<longrightarrow>
        block_dumped (je_block (sy_joiner sy)) (je_partition (sy_joiner sy)) (bw_fs (ej_world s)) i \<longleftrightarrow>
        i < int (length Bs)) \<and>
     (\<forall>i < length Bs. made_block (je_block (sy_joiner sy)) (je_partition (sy_joiner sy)) (leader_data sy)
        (follower_data sy) (bw_fs (ej_world s)) (int i) (Bs ! i))"

lemma stale_blocks:
  assumes "stream.stale_ok sy Bs s"
  shows "stream_blocks sy s Bs" "chained Bs"
proof -
  have "world_ok (je_block (stream_env sy)) (je_partition (stream_env sy)) (leader_data sy) (follower_data sy) Bs (ej_world s)"
    using assms by (simp add: stream.stale_ok_def)
  then have "world_ok (je_block (sy_joiner sy)) (je_partition (sy_joiner sy)) (leader_data sy) (follower_data sy) Bs (ej_world s)"
    by (simp add: stream_env_def)
  then show "stream_blocks sy s Bs" "chained Bs"
    by (simp_all add: world_ok_def stream_blocks_def blocks_ok_def files_ok_def)
qed

lemma follows_sorted:
  assumes "successively follows cs" "\<forall>c \<in> set cs. \<not> ac_allow_dup c"
  shows "sorted_wrt (<) (map ac_leader_index cs)"
  using assms
proof (induction cs)
  case (Cons c cs)
  have sorted: "sorted_wrt (<) (map ac_leader_index cs)" using Cons by (cases cs) auto
  have "ac_leader_index c < ac_leader_index d" if d: "d \<in> set cs" for d
  proof -
    obtain e es where cs: "cs = e # es" using d by (cases cs) auto
    then have "ac_leader_index c < ac_leader_index e" using Cons.prems by (simp add: follows_def)
    moreover have "ac_leader_index e \<le> ac_leader_index d" using d sorted cs by auto
    ultimately show ?thesis by simp
  qed
  then show ?case using sorted by simp
qed simp

lemma made_block_range:
  assumes "made_block en p ld fd fs i (m, cs)" "c \<in> set cs"
  shows "bm_leader_start_index m \<le> ac_leader_index c" "ac_leader_index c \<le> bm_leader_end_index m"
    "sorted_wrt (<) (map ac_leader_index cs)"
proof -
  have cs: "successively follows cs" "\<forall>c \<in> set cs. \<not> ac_allow_dup c" "covers cs m" "cs \<noteq> []"
    using assms by (auto simp: made_block_def joined_call_def)
  note sorted = follows_sorted [OF cs(1,2)]
  then show "sorted_wrt (<) (map ac_leader_index cs)" .
  obtain k where k: "k < length cs" "c = cs ! k" using assms(2) by (metis in_set_conv_nth)
  have "map ac_leader_index cs ! 0 \<le> map ac_leader_index cs ! k"
    using sorted k(1) cs(4) sorted_wrt_nth_less [OF sorted, of 0 k] by (cases "k = 0") auto
  then show "bm_leader_start_index m \<le> ac_leader_index c"
    using cs(3,4) k by (simp add: covers_def hd_conv_nth)
  have "map ac_leader_index cs ! k \<le> map ac_leader_index cs ! (length cs - 1)"
  proof (cases "k = length cs - 1")
    case False
    then have "k < length cs - 1" "length cs - 1 < length cs" using k(1) by linarith+
    then show ?thesis using sorted_wrt_nth_less [OF sorted, of k "length cs - 1"] by simp
  qed simp
  then show "ac_leader_index c \<le> bm_leader_end_index m"
    using cs(3,4) k by (simp add: covers_def last_conv_nth)
qed

lemma blocks_sorted:
  assumes "chained Bs" "\<forall>i < length Bs. made_block en p ld fd fs (int i) (Bs ! i)"
  shows "sorted_wrt (<) (map ac_leader_index (concat (map snd Bs)))"
  using assms
proof (induction Bs rule: rev_induct)
  case (snoc B Bs)
  obtain m cs where B: "B = (m, cs)" by (cases B)
  have made: "made_block en p ld fd fs (int i) (Bs ! i)" if "i < length Bs" for i
    using snoc.prems(2) that by (metis less_SucI length_append_singleton nth_append)
  have mB: "made_block en p ld fd fs (int (length Bs)) (m, cs)"
    using snoc.prems(2) B by (metis length_append_singleton lessI nth_append_length)
  have "ac_leader_index c < ac_leader_index d" if c: "x \<in> set Bs" "c \<in> set (snd x)" and d: "d \<in> set cs" for x c d
  proof -
    obtain i where i: "i < length Bs" "x = Bs ! i" using c(1) by (metis in_set_conv_nth)
    have "made_block en p ld fd fs (int i) (fst x, snd x)" using made [OF i(1)] i(2) by simp
    from made_block_range(2) [OF this c(2)] made_block_range(1) [OF mB d]
    moreover have "bm_leader_end_index (fst x) < bm_leader_start_index m"
      using snoc.prems(1) c(1) by (simp add: chained_def sorted_wrt_append B)
    ultimately show ?thesis by simp
  qed
  moreover have "sorted_wrt (<) (map ac_leader_index cs)"
    using made_block_range(3) [OF mB] by (cases cs) auto
  moreover have "sorted_wrt (<) (map ac_leader_index (concat (map snd Bs)))"
    using snoc.IH snoc.prems(1) made by (simp add: chained_def sorted_wrt_append)
  ultimately show ?case by (auto simp: sorted_wrt_append B)
qed simp

lemma inv_blocks: "stream_inv sy Bs0 s \<Longrightarrow> \<exists>Bs. prefix Bs0 Bs \<and> stream.stale_ok sy Bs s"
  by (auto simp: stream.joiner_inv_def)

lemma inv_from:
  assumes "stream_inv sy Bs0 s"
  shows "\<exists>Bs. stream.stale_ok sy Bs s \<and> stream_inv sy Bs s"
  using assms unfolding stream.joiner_inv_def by blast

text \<open>Behind where a source stands, the next item is the one after.\<close>

lemma next_after:
  assumes src: "join_source vo data src" and v: "src v b N c" and k: "cu_pos c = Some k"
  shows "case vo_next vo v of (Inl e, _) \<Rightarrow> e = StopIteration | (Inr (i, x), _) \<Rightarrow> i = k + 1 \<and> x = data (k + 1)"
proof -
  obtain v' where "vo_next vo v = (map_sum id (\<lambda>k. (k, data k)) (fst (cursor_next N c)), v')"
    using join_source.follows_next [OF src v] by blast
  moreover have "cursor_at c = k" using k by (simp add: cursor_at_def)
  ultimately show ?thesis using join_source.cursor_next_cases [OF src, of N c] by auto
qed

section \<open>Properties\<close>

text \<open>
  C2. Whatever the runs, exceptions, restarts of the process and arrivals of ids and files, every
  published data block holds what it should: its data file has one record for each of a list of
  pairs of a leader and a follower example with equal ids, in the order of the leader, its meta covers
  exactly them, and over all blocks together the leader indices strictly increase, so that
  no leader example is joined twice.
\<close>

theorem stream_joins_once:
  assumes "stream_ready sy" "stream_reachable sy s"
  shows "\<exists>Bs. stream_blocks sy s Bs \<and> sorted_wrt (<) (map ac_leader_index (concat (map snd Bs)))"
proof -
  obtain Bs where "stream.stale_ok sy Bs s" using inv_blocks [OF reachable_inv [OF assms]] by blast
  note b = stale_blocks [OF this]
  then show ?thesis using blocks_sorted unfolding stream_blocks_def by blast
qed

text \<open>
  C12. Published blocks stay as they are, and the restart index of a meta is kept: whatever is published
  later uses no follower example before the \<open>follower_restart_index\<close> of any block that was
  published before.
\<close>

theorem stream_blocks_grow:
  assumes "stream_ready sy" "stream_reachable sy s" "(stream_step sy)\<^sup>*\<^sup>* s s'"
  shows "\<exists>Bs Cs. stream_blocks sy s Bs \<and> stream_blocks sy s' (Bs @ Cs) \<and>
    (\<forall>B \<in> set Bs. \<forall>C \<in> set Cs. \<forall>c \<in> set (snd C). bm_follower_restart_index (fst B) \<le> ac_follower_index c)"
proof -
  from inv_from [OF reachable_inv [OF assms(1,2)]] obtain Bs where
    Bs: "stream.stale_ok sy Bs s" "stream_inv sy Bs s" by blast
  from inv_blocks [OF stream_steps_inv [OF assms(3,1) Bs(2)]] obtain Cs where
    Cs: "stream.stale_ok sy (Bs @ Cs) s'" unfolding prefix_def by blast
  have "\<forall>B \<in> set Bs. \<forall>C \<in> set Cs. \<forall>c \<in> set (snd C). bm_follower_restart_index (fst B) \<le> ac_follower_index c"
    using stale_blocks(2) [OF Cs] by (auto simp: chained_def sorted_wrt_append)
  then show ?thesis using stale_blocks(1) [OF Bs(1)] stale_blocks(1) [OF Cs] by blast
qed

text \<open>
  C40. Between the runs the windows and caches of a joiner are well formed: the indices of both windows
  strictly increase and their items are the ones at those indices, a follower example is cached under its
  id and is in the window, and one that waits in the cache of joined examples has the id it is found under
  and lies at or behind the index at which the follower would restart.
\<close>

theorem stream_windows_ok:
  assumes "stream_ready sy" "stream_reachable sy s" "\<not> ej_state_stale s" "\<not> ej_join_finished s"
  shows "let L = jw_buffer (sj_leader_join_window s); F = jw_buffer (sj_follower_join_window s);
             R = ej_follower_restart_index s
    in sorted_wrt (<) (map fst L) \<and> (\<forall>(i, x) \<in> set L. 0 \<le> i \<and> x = leader_data sy i) \<and>
       sorted_wrt (<) (map fst F) \<and> (\<forall>(i, x) \<in> set F. R \<le> i \<and> x = follower_data sy i) \<and>
       (\<forall>e y. map_of (sj_follower_example_cache s) e = Some y \<longrightarrow> y \<in> set F \<and> it_example_id (snd y) = e) \<and>
       (\<forall>(e, i, x) \<in> set (sj_joined_cache s). R \<le> i \<and> x = follower_data sy i \<and> it_example_id x = e)"
proof -
  obtain Bs cs cl cf where ok: "stream.stream_ok sy Bs cs (jw_buffer (sj_leader_join_window s)) cl cf s"
    using reachable_inv [OF assms(1,2)] assms(3,4) by (auto simp: stream.joiner_inv_def)
  then have "stream.base_ok sy Bs cs cl cf s" by (simp add: stream.stream_ok_def)
  from stream.base_last [OF this] this have "- 1 \<le> last_call Bs cs"
    by (cases "Bs = []") (auto simp: stream.base_ok_def last_end_def)
  then show ?thesis using ok
    unfolding stream.stream_ok_def win_ok_def cached_in_def joined_in_def follower_key_def Let_def
    by (auto simp: sorted_wrt_map)
qed

text \<open>
  Going back to the last block, the joiner seeks the follower to the restart index of the meta and
  then asks for the next example, so that it never reads the example at the restart
  index again, whether or not that one had been joined.
\<close>

theorem restart_skips_head:
  assumes "stream_ready sy" "stream_reachable sy s" "latest_meta (stream_env sy) s = (Inr (Some m), s1)"
    and "joiner_sync_state (stream_env sy) s = (r, s2)"
  shows "r = Inr () \<and> ej_follower_restart_index s2 = bm_follower_restart_index m \<and>
    (case vo_next (je_follower (stream_env sy)) (ej_follower_visitor s2) of
       (Inl e, _) \<Rightarrow> e = StopIteration
     | (Inr (i, x), _) \<Rightarrow> i = bm_follower_restart_index m + 1 \<and> x = follower_data sy i)"
proof -
  obtain Bs where ok: "stream.stale_ok sy Bs s" using inv_blocks [OF reachable_inv [OF assms(1,2)]] by blast
  obtain w where "latest_meta (stream_env sy) s = (Inr (if Bs = [] then None else Some (fst (last Bs))), s\<lparr>ej_world := w\<rparr>)"
    using stream.latest_run [OF ok] by blast
  with assms(3) have m: "Bs \<noteq> []" "last_restart Bs = bm_follower_restart_index m"
    by (auto simp: last_restart_def split: if_splits)
  from stream.sync_run_at [OF ok] m(1) obtain l f w' ri cl cf where
    run: "joiner_sync_state (stream_env sy) s = (Inr (), stream.moved s l f w' (ej_builder s) ri)"
      "stream.base_ok sy Bs [] cl cf (stream.moved s l f w' None ri)" "cu_pos cf = Some (last_restart Bs)" "ri = last_restart Bs"
    by blast
  obtain b N where "follower_at sy (ej_follower_visitor (stream.moved s l f w' None ri)) b N cf"
    using stream.base_src(2) [OF run(2)] by blast
  then have "follower_at sy f b N cf" by (simp add: stream.moved_def)
  from next_after [OF stream.foll.join_source_axioms this run(3)] have
    "case vo_next (je_follower (stream_env sy)) f of (Inl e, _) \<Rightarrow> e = StopIteration
     | (Inr (i, x), _) \<Rightarrow> i = last_restart Bs + 1 \<and> x = follower_data sy (last_restart Bs + 1)" .
  then show ?thesis using assms(4) run(1,4) m(2) by (auto simp: stream.moved_def split: prod.splits sum.splits)
qed

end
