(* ===== verification/Stream_Ending.thy ===== *)
theory Stream_Ending
  imports Stream_System
begin

text \<open>
  A run of the stream joiner comes to an end: each of its loops reads on or makes a window
  smaller.
\<close>

section \<open>Filling a window\<close>

text \<open>The keys of a window are those of its items.\<close>

definition keyed :: "('i \<Rightarrow> cmp_ctnt) \<Rightarrow> 'i join_window \<Rightarrow> bool" where
  "keyed key w \<longleftrightarrow> set (jw_cmp_ctnt w) \<subseteq> (\<lambda>x. key (snd x)) ` set (jw_buffer w)"

lemma keyed_append: "keyed key w \<Longrightarrow> keyed key (jw_append key i x w)"
  by (auto simp: keyed_def jw_append_def)

lemma keyed_reset: "keyed key (jw_reset key xs stale w)"
  by (auto simp: keyed_def jw_reset_def Let_def split_beta)

lemma cal_pt_set: "cal_pt rate w = (r, w') \<Longrightarrow> set (jw_cmp_ctnt w') = set (jw_cmp_ctnt w)"
  by (auto simp: cal_pt_def sx_bind_def sx_modify_def Let_def split: if_splits)

lemma cal_pt_keyed: "cal_pt rate w = (r, w') \<Longrightarrow> keyed key w' = keyed key w"
  using cal_pt_set [of rate w r w'] cal_pt_buffer [of rate w r w'] by (simp add: keyed_def)

lemma forward_pt_keyed:
  assumes run: "forward_pt w = (r, w')" and w: "keyed key w"
  shows "keyed key w'"
proof (cases "jw_buffer w = []")
  case True
  then show ?thesis using run w by (simp add: forward_pt_def sx_bind_def)
next
  case False
  obtain q w1 where q: "cal_pt (jw_pt_rate w) w = (q, w1)" by fastforce
  have "w' = w1 \<or> (\<exists>pt. w' = w1\<lparr>jw_committed_pt := pt\<rparr>)"
    using run False q by (cases q) (auto simp: forward_pt_def sx_bind_def sx_modify_def split: if_splits)
  moreover have "keyed key w1" using cal_pt_keyed [OF q] w by simp
  moreover have "keyed key (w1\<lparr>jw_committed_pt := pt\<rparr>) = keyed key w1" for pt by (simp add: keyed_def)
  ultimately show ?thesis by blast
qed

text \<open>How many more calls of \<open>next\<close> a cursor has in it.\<close>

definition left :: "int \<Rightarrow> cursor \<Rightarrow> nat" where
  "left N c = (if cu_finished c then 0 else nat (N - 1 - cursor_at c) + 1)"

context join_source
begin

definition ahead :: "nat \<Rightarrow> 'v \<Rightarrow> bool" where
  "ahead n v \<longleftrightarrow> (\<exists>b N c. src v b N c \<and> left N c \<le> n)"

lemma ahead_mono: "ahead n v \<Longrightarrow> n \<le> m \<Longrightarrow> ahead m v"
  unfolding ahead_def using le_trans by blast

lemma next_left:
  assumes v: "src v b N c" and c: "\<not> cu_finished c"
  shows "\<exists>r v' c'. vo_next vo v = (r, v') \<and> src v' b N c' \<and> left N c' < left N c \<and>
    (case r of Inl e \<Rightarrow> e = StopIteration \<and> vo_finished vo v' | Inr _ \<Rightarrow> True)"
proof -
  from follows_next [OF v] obtain v' where v':
    "vo_next vo v = (map_sum id (\<lambda>k. (k, data k)) (fst (cursor_next N c)), v')" "src v' b N (snd (cursor_next N c))"
    by blast
  let ?i = "case cu_pos c of None \<Rightarrow> 0 | Some k \<Rightarrow> k + 1"
  have i: "?i = cursor_at c + 1" by (cases "cu_pos c") (simp_all add: cursor_at_def)
  show ?thesis
  proof (cases "?i < N")
    case True
    then have n: "cursor_next N c = (Inr ?i, cursor_goto ?i c)" using c by (simp add: cursor_next_def Let_def)
    then have "left N (snd (cursor_next N c)) < left N c"
      using c True unfolding i by (simp add: left_def cursor_goto_def cursor_at_def)
    then show ?thesis using v' n by auto
  next
    case False
    then have n: "cursor_next N c = (Inl StopIteration, c\<lparr>cu_finished := True\<rparr>)"
      using c by (simp add: cursor_next_def Let_def)
    then have "vo_finished vo v'" using follows_finished [OF v'(2)] by simp
    moreover have "left N (snd (cursor_next N c)) < left N c" using c n by (simp add: left_def)
    ultimately show ?thesis using v' n by auto
  qed
qed

lemma consume_total:
  assumes "src v b N c" "\<not> cu_finished c"
  shows "\<exists>v' w' ca' c'. consume_item_until_count vo key n (v, w, ca) = Some (Inr (), v', w', ca') \<and>
    src v' b N c' \<and> left N c' < left N c \<and> (keyed key w \<longrightarrow> keyed key w')"
  using assms
proof (induction "left N c" arbitrary: v w ca c rule: less_induct)
  case less
  note step = consume_item_until_count.simps [of vo key n "(v, w, ca)"]
  from next_left [OF less.prems] obtain r v1 c1 where n: "vo_next vo v = (r, v1)" "src v1 b N c1"
    "left N c1 < left N c" "case r of Inl e \<Rightarrow> e = StopIteration \<and> vo_finished vo v1 | Inr _ \<Rightarrow> True" by blast
  show ?case
  proof (cases r)
    case (Inl e)
    then have "consume_item_until_count vo key n (v, w, ca) = Some (Inr (), v1, w, ca)"
      using n by (subst step) (simp add: ox_bind_def ox_lift_def fs_next_def fs_finished_def sx_assert_def)
    then show ?thesis using n(2,3) by blast
  next
    case (Inr x)
    have more: "\<exists>v' w' ca' c'. consume_item_until_count vo key n (v1, w1, ca1) = Some (Inr (), v', w', ca') \<and>
        src v' b N c' \<and> left N c' < left N c \<and> (keyed key w1 \<longrightarrow> keyed key w')" for w1 ca1
    proof (cases "cu_finished c1")
      case False
      from less.hyps [OF n(3,2) False, of w1 ca1] n(3) show ?thesis using less_trans by blast
    next
      case True
      have stop: "fst (cursor_next N c1) = Inl StopIteration" "snd (cursor_next N c1) = c1"
        using True by (simp_all add: cursor_next_def Let_def)
      from follows_next [OF n(2)] stop obtain v2 where v2: "vo_next vo v1 = (Inl StopIteration, v2)" "src v2 b N c1" by auto
      then have "consume_item_until_count vo key n (v1, w1, ca1) = Some (Inr (), v2, w1, ca1)"
        using follows_finished [OF v2(2)] True
        by (subst consume_item_until_count.simps) (simp add: ox_bind_def ox_lift_def fs_next_def fs_finished_def sx_assert_def)
      then show ?thesis using v2(2) n(3) by blast
    qed
    let ?t = "take_item key (fst x) (snd x) (v1, w, ca)"
    obtain ca1 where t: "?t = (v1, jw_append key (fst x) (snd x) w, ca1)" by (simp add: take_item_def)
    have run: "consume_item_until_count vo key n (v, w, ca) =
       (if \<not> key_valid (key (snd x)) then consume_item_until_count vo key n (v1, w, ca)
        else if n \<le> fs_size ?t then Some (Inr (), ?t) else consume_item_until_count vo key n ?t)"
      using n(1) Inr by (subst step) (simp add: ox_bind_def ox_lift_def fs_next_def sx_modify_def sx_return_def)
    show ?thesis
    proof (cases "key_valid (key (snd x))")
      case False
      then show ?thesis using more run by auto
    next
      case True
      then show ?thesis
      proof (cases "n \<le> fs_size ?t")
        case True
        then show ?thesis using run \<open>key_valid (key (snd x))\<close> t n(2,3) keyed_append [of key w "fst x" "snd x"] by auto
      next
        case False
        then have "consume_item_until_count vo key n (v, w, ca) = consume_item_until_count vo key n
            (v1, jw_append key (fst x) (snd x) w, ca1)"
          using run \<open>key_valid (key (snd x))\<close> t by simp
        then show ?thesis using more [of "jw_append key (fst x) (snd x) w" ca1] keyed_append [of key w "fst x" "snd x"] by auto
      qed
    qed
  qed
qed

lemma fill_total:
  assumes "src v b N c"
  shows "\<exists>r v' w' ca' c'. fill_join_windows vo key mn mx (v, w, ca) = Some (r, v', w', ca') \<and>
    src v' b N c' \<and> (keyed key w \<longrightarrow> keyed key w') \<and>
    (if \<not> cu_finished c \<and> jw_size w < mx then left N c' < left N c
     else r = Inr (mx \<le> jw_size w) \<and> w' = w \<and> c' = c)"
  using assms
proof (induction "left N c" arbitrary: v w ca c rule: less_induct)
  case less
  note step = fill_join_windows.simps [of vo key mn mx "(v, w, ca)"]
  have fin: "vo_finished vo v = cu_finished c" by (rule follows_finished [OF less.prems])
  show ?case
  proof (cases "\<not> cu_finished c \<and> jw_size w < mx")
    case False
    then have "fill_join_windows vo key mn mx (v, w, ca) = Some (Inr (mx \<le> jw_size w), v, w, ca)"
      using fin by (subst step) (auto simp: fs_finished_def fs_size_def ox_lift_def sx_return_def)
    then show ?thesis using less.prems False by auto
  next
    case True
    then obtain v1 w1 ca1 c1 where c1:
      "consume_item_until_count vo key (required_count mn mx (jw_size w)) (v, w, ca) = Some (Inr (), v1, w1, ca1)"
      "src v1 b N c1" "left N c1 < left N c" "keyed key w \<longrightarrow> keyed key w1"
      using consume_total [OF less.prems] by blast
    obtain q w2 where q: "forward_pt w1 = (q, w2)" by fastforce
    have k2: "keyed key w \<longrightarrow> keyed key w2" using c1(4) forward_pt_keyed [OF q] by blast
    have run: "fill_join_windows vo key mn mx (v, w, ca) =
      (case q of Inl e \<Rightarrow> Some (Inl e, v1, w2, ca1)
       | Inr fw \<Rightarrow> if fw then Some (Inr True, v1, w2, ca1) else fill_join_windows vo key mn mx (v1, w2, ca1))"
      using True fin c1(1) q
      by (subst step) (simp add: fs_finished_def fs_size_def ox_bind_def ox_lift_def fs_forward_pt_def sx_return_def split: sum.splits)
    show ?thesis
    proof (cases "\<exists>fw. q = Inr fw \<and> \<not> fw")
      case False
      then have "\<exists>r. fill_join_windows vo key mn mx (v, w, ca) = Some (r, v1, w2, ca1)"
        using run by (cases q) auto
      then show ?thesis using c1(2,3) k2 True by auto
    next
      case again: True
      from less.hyps [OF c1(3,2), of w2 ca1] obtain r v' w' ca' c' where
        r: "fill_join_windows vo key mn mx (v1, w2, ca1) = Some (r, v', w', ca')" "src v' b N c'"
          "keyed key w2 \<longrightarrow> keyed key w'"
          "if \<not> cu_finished c1 \<and> jw_size w2 < mx then left N c' < left N c1 else r = Inr (mx \<le> jw_size w2) \<and> w' = w2 \<and> c' = c1"
        by blast
      then have "left N c' < left N c" using c1(3) by (auto split: if_splits)
      moreover have "fill_join_windows vo key mn mx (v, w, ca) = Some (r, v', w', ca')" using run again r(1) by auto
      ultimately show ?thesis using r(2,3) k2 True by auto
    qed
  qed
qed

end

section \<open>The percentile of a window\<close>

lemma jw_qt_again: "jw_qt w = (Inr q, w') \<Longrightarrow> jw_qt w' = (Inr q, w')"
  by (auto simp: jw_qt_def cal_pt_def sx_bind_def sx_modify_def Let_def split: if_splits)

lemma list_at_set:
  assumes "list_at xs i = Inr x" shows "x \<in> set xs"
proof -
  obtain k where k: "py_index xs i = Some k" "x = xs ! k" using assms by (auto simp: list_at_def split: option.splits)
  then have "xs \<noteq> []" "k = nat (i mod int (length xs))" by (auto simp: py_index_def split: if_splits)
  moreover from this have "0 \<le> i mod int (length xs)" "i mod int (length xs) < int (length xs)" by simp_all
  ultimately have "k < length xs" by linarith
  then show ?thesis using k(2) by simp
qed

lemma map_Some_Inr: "map_sum id Some r = Inr q \<longleftrightarrow> (\<exists>x. r = Inr x \<and> q = Some x)"
  by (cases r) auto

lemma jw_qt_value:
  assumes "jw_qt w = (Inr q, w')" "jw_buffer w \<noteq> []"
  shows "\<exists>x \<in> set (jw_cmp_ctnt w). q = Some x"
proof -
  obtain i x where x: "q = Some x" "list_at (jw_cmp_ctnt w') i = Inr x"
    using assms by (auto simp: jw_qt_def cal_pt_def sx_bind_def sx_modify_def Let_def map_Some_Inr split: if_splits)
  moreover have "set (jw_cmp_ctnt w') = set (jw_cmp_ctnt w)"
    using assms(1) cal_pt_set [of "jw_qt_rate w" w "Inr q" w'] by (simp add: jw_qt_def sx_bind_def)
  ultimately show ?thesis using list_at_set [OF x(2)] by blast
qed

lemma jw_qt_key:
  assumes "jw_qt w = (Inr (Some q), w')" "jw_buffer w \<noteq> []" "keyed key w"
  shows "\<exists>x \<in> set (jw_buffer w). key (snd x) = q"
  using jw_qt_value [OF assms(1,2)] assms(3) by (auto simp: keyed_def)

section \<open>Eviction makes a full window smaller\<close>

text \<open>A filter that looks at nothing that eviction changes.\<close>

lemma evict_filter:
  assumes f: "\<And>item s. Q s \<Longrightarrow> f item s = (Inr (d item), s)"
    and Q: "\<And>s c. Q s \<Longrightarrow> Q (s\<lparr>sj_follower_example_cache := c\<rparr>)"
  shows "Q s \<Longrightarrow> \<exists>c. evict_impl f cands s =
    (Inr (filter (\<lambda>x. \<not> d (snd x)) cands), s\<lparr>sj_follower_example_cache := c\<rparr>)"
proof (induction cands arbitrary: s)
  case Nil
  show ?case by (intro exI [of _ "sj_follower_example_cache s"]) simp
next
  case (Cons x cands)
  obtain i item where x: "x = (i, item)" by (cases x)
  show ?case
  proof (cases "d item")
    case True
    let ?s = "s\<lparr>sj_follower_example_cache := AList.delete (it_example_id item) (sj_follower_example_cache s)\<rparr>"
    from Cons.IH [OF Q [OF Cons.prems]] obtain c where "evict_impl f cands ?s =
        (Inr (filter (\<lambda>x. \<not> d (snd x)) cands), ?s\<lparr>sj_follower_example_cache := c\<rparr>)" by blast
    then show ?thesis using f [OF Cons.prems, of item] True by (auto simp: x sx_bind_def sx_modify_def)
  next
    case False
    then show ?thesis using f [OF Cons.prems, of item] Cons.IH [OF Cons.prems] by (auto simp: x sx_bind_def)
  qed
qed

lemma filter_swap: "filter P (filter Q xs) = filter Q (filter P xs)"
  by (simp add: conj_commute)

text \<open>
  When the follower's window was full and nothing was dumped, it is smaller afterwards: what is not evicted
  as useless is evicted by force if it lies before the percentile of the leader, and some item does.
\<close>

lemma delayed_turn_shrinks:
  assumes F: "je_max_window en \<le> jw_size (sj_follower_join_window s)" "0 < je_max_window en"
    and keyed: "keyed follower_key (sj_follower_join_window s)"
    and delay: "need_delay_dump en rf s = (Inr True, s1)"
    and turn: "follower_turn en ch True s1 = (Inr u, s2)"
  shows "jw_size (sj_follower_join_window s2) < jw_size (sj_follower_join_window s)"
proof -
  let ?F = "jw_buffer (sj_follower_join_window s)"
  obtain ql wl qf wf where ql: "jw_qt (sj_leader_join_window s) = (Inr ql, wl)"
    and qf: "jw_qt (sj_follower_join_window s) = (Inr qf, wf)"
    and s1: "s1 = s\<lparr>sj_leader_join_window := wl, sj_follower_join_window := wf\<rparr>"
    and cmp: "case (ql, qf) of (Some l, Some f) \<Rightarrow> f < l | _ \<Rightarrow> True"
    using delay by (auto simp: need_delay_dump_def sx_bind_def on_leader_window_def on_follower_window_def
        split: if_splits prod.splits sum.splits option.splits)
  have buf: "jw_buffer wf = ?F" using jw_qt_buffer [OF qf] .
  have ne: "?F \<noteq> []" using F by (auto simp: jw_size_def)
  let ?t = "update_join_cache s1"
  define dn where "dn item \<longleftrightarrow> (case jw_committed_pt wl of None \<Rightarrow> True | Some pt \<Rightarrow> follower_key item < pt) \<or>
    map_of (sj_joined_cache ?t) (it_example_id item) \<noteq> None" for item :: "'c block_item"
  define df where "df item \<longleftrightarrow> (case ql of None \<Rightarrow> True | Some q \<Rightarrow> follower_key item < q)" for item :: "'c block_item"
  have t: "sj_leader_join_window ?t = wl" "jw_buffer (sj_follower_join_window ?t) = ?F"
    using buf by (simp_all add: update_join_cache_def s1)
  let ?same = "\<lambda>s' :: ('a, 'b, 'c) stream_joiner. sj_leader_join_window s' = wl \<and> sj_joined_cache s' = sj_joined_cache ?t"
  have "\<exists>c. evict_impl evict_if_useless ?F ?t =
      (Inr (filter (\<lambda>x. \<not> dn (snd x)) ?F), ?t\<lparr>sj_follower_example_cache := c\<rparr>)"
    by (rule evict_filter [where Q = ?same]) (auto simp: evict_if_useless_def sx_bind_def dn_def t)
  then obtain c where c: "evict_impl evict_if_useless ?F ?t =
      (Inr (filter (\<lambda>x. \<not> dn (snd x)) ?F), ?t\<lparr>sj_follower_example_cache := c\<rparr>)" by blast
  let ?R = "filter (\<lambda>x. \<not> dn (snd x)) ?F" and ?t1 = "?t\<lparr>sj_follower_example_cache := c\<rparr>"
  have wl: "wl = sj_leader_join_window s' \<Longrightarrow> s'\<lparr>sj_leader_join_window := wl\<rparr> = s'" for s' :: "('a, 'b, 'c) stream_joiner"
    by simp
  have "\<exists>c'. evict_impl evict_if_force ?R ?t1 =
      (Inr (filter (\<lambda>x. \<not> df (snd x)) ?R), ?t1\<lparr>sj_follower_example_cache := c'\<rparr>)"
    by (rule evict_filter [where Q = ?same])
      (auto simp: evict_if_force_def sx_bind_def on_leader_window_def df_def t wl jw_qt_again [OF ql])
  then obtain c' where c': "evict_impl evict_if_force ?R ?t1 =
      (Inr (filter (\<lambda>x. \<not> df (snd x)) ?R), ?t1\<lparr>sj_follower_example_cache := c'\<rparr>)" by blast
  have size: "jw_size (sj_follower_join_window s2) =
      (if length ?R < je_max_window en then length ?R else length (filter (\<lambda>x. \<not> df (snd x)) ?R))"
    using turn c c' t
    by (auto simp: follower_turn_def evict_stale_follower_cache_def sx_bind_def sx_modify_def jw_size_def
        jw_reset_def Let_def split: if_splits)
  show ?thesis
  proof (cases "length ?R < je_max_window en")
    case True
    then show ?thesis using size F(1) by simp
  next
    case False
    obtain x where x: "x \<in> set ?F" "df (snd x)"
    proof (cases ql)
      case None
      then show ?thesis using that [of "hd ?F"] ne by (simp add: df_def)
    next
      case (Some l)
      obtain f where f: "qf = Some f" using jw_qt_value [OF qf ne] by blast
      from jw_qt_key [OF qf [unfolded f] ne keyed] cmp Some f show ?thesis using that by (auto simp: df_def)
    qed
    have "length (filter (\<lambda>x. \<not> df (snd x)) ?R) \<le> length (filter (\<lambda>x. \<not> df (snd x)) ?F)"
      by (subst filter_swap) (rule length_filter_le)
    also have "\<dots> < length ?F" using x by (auto intro: length_filter_less)
    finally show ?thesis using size False by (simp add: jw_size_def)
  qed
qed

section \<open>The loops end\<close>

context joining
begin

text \<open>How far the two visitors can still go; the keys of the follower's window are those of its items.\<close>

definition going :: "nat \<Rightarrow> nat \<Rightarrow> ('l, 'f, 'r) stream_joiner \<Rightarrow> bool" where
  "going l f s \<longleftrightarrow> lead.ahead l (ej_leader_visitor s) \<and> foll.ahead f (ej_follower_visitor s) \<and>
     keyed follower_key (sj_follower_join_window s)"

lemma going_frame:
  assumes "ej_leader_visitor s' = ej_leader_visitor s" "ej_follower_visitor s' = ej_follower_visitor s"
    "sj_follower_join_window s' = sj_follower_join_window s"
  shows "going l f s' = going l f s"
  using assms by (simp add: going_def)

lemma going_mono: "going l f s \<Longrightarrow> l \<le> l' \<Longrightarrow> f \<le> f' \<Longrightarrow> going l' f' s"
  unfolding going_def using lead.ahead_mono foll.ahead_mono by blast

lemma keeps_going_modify:
  assumes "\<And>s. ej_leader_visitor (g s) = ej_leader_visitor s" "\<And>s. ej_follower_visitor (g s) = ej_follower_visitor s"
    "\<And>s. sj_follower_join_window (g s) = sj_follower_join_window s"
  shows "sx_keeps (going l f) (sx_modify g)"
  by (rule sx_keeps_modify) (simp add: going_frame [of "g s" s for s] assms)

lemma keeps_going_blocks: "sx_keeps (going l f) (on_blocks g)"
  by (auto simp: sx_keeps_def on_blocks_def going_def split: prod.splits)

lemma keeps_going_builder: "sx_keeps (going l f) (on_builder g)"
  by (auto simp: sx_keeps_def on_builder_def going_def split: prod.splits option.splits)

lemma keeps_going_leader_window: "sx_keeps (going l f) (on_leader_window g)"
  by (auto simp: sx_keeps_def on_leader_window_def going_def split: prod.splits)

lemma keeps_going_follower_qt: "sx_keeps (going l f) (on_follower_window jw_qt)"
proof -
  have "keyed follower_key w'" if "jw_qt w = (r, w')" "keyed follower_key w" for w r and w' :: "'r block_item join_window"
    using that cal_pt_keyed [of "jw_qt_rate w" w r w' follower_key] by (simp add: jw_qt_def sx_bind_def)
  then show ?thesis by (auto simp: sx_keeps_def on_follower_window_def going_def split: prod.splits)
qed

lemma keeps_going_index: "sx_keeps (going l f) (on_follower (vo_get_index (je_follower en)))"
proof -
  have "foll.ahead f v'" if v: "foll.ahead f v" and run: "vo_get_index (je_follower en) v = (r, v')" for v r v'
  proof -
    obtain b N c where c: "fsrc v b N c" "left N c \<le> f" using v by (auto simp: foll.ahead_def)
    from foll.follows_index [OF c(1)] run have "fsrc v' b N c" by auto
    then show ?thesis using c(2) unfolding foll.ahead_def by blast
  qed
  then show ?thesis by (auto simp: sx_keeps_def on_follower_def going_def split: prod.splits)
qed

lemmas keeps_going = sx_keeps_bind sx_keeps_get sx_keeps_return sx_keeps_if sx_keeps_raise keeps_going_modify
  keeps_going_blocks keeps_going_builder keeps_going_leader_window keeps_going_follower_qt keeps_going_index

lemma keeps_get_builder: "sx_keeps (going l f) (joiner_get_builder en' ch b)"
  unfolding joiner_get_builder_def by (intro keeps_going) simp_all

lemma finish_keeps_going: "sx_keeps (going l f) (sj_finish_data_block en ch)"
  unfolding sj_finish_data_block_def joiner_finish_block_def create_join_stats_info_def latest_meta_def Let_def
  by (intro keeps_going keeps_get_builder) (simp_all add: reset_data_block_builder_def)

lemma keeps_append: "sx_keeps (going l f) (append_joined en' ch item i k j)"
  unfolding append_joined_def by (intro keeps_going keeps_get_builder)

lemma keeps_yield: "sx_keeps (going l f) (yield_if_full en ch)"
  unfolding yield_if_full_def yield_meta_def by (intro keeps_going finish_keeps_going) simp_all

lemma keeps_negatives: "sx_keeps (going l f) (negative_loop en ch idxs)"
proof (induction idxs)
  case (Cons idx idxs)
  show ?case unfolding negative_loop.simps
    by (intro keeps_going sx_keeps_option keeps_append keeps_yield Cons.IH) simp_all
qed (simp add: sx_keeps_def)

lemma keeps_dump_item: "sx_keeps (going l f) (dump_leader_item en ch i x)"
  unfolding dump_leader_item_def generate_negatives_def Let_def case_prod_beta
  by (intro keeps_going keeps_append keeps_yield keeps_negatives) (simp_all split: if_splits)

lemma keeps_dump: "sx_keeps (going l f) (dump_leader_items en ch xs)"
proof (induction xs)
  case (Cons x xs)
  then show ?case by (cases x) (simp only: dump_leader_items.simps sx_keeps_bind keeps_dump_item)
qed (simp add: sx_keeps_def)

lemma keeps_evict:
  assumes "\<And>x. sx_keeps (going l f) (g x)"
  shows "sx_keeps (going l f) (evict_impl g xs)"
proof (induction xs)
  case (Cons x xs)
  obtain i item where x: "x = (i, item)" by (cases x)
  show ?case unfolding x evict_impl.simps
    by (intro keeps_going assms Cons.IH) simp_all
qed (simp add: sx_keeps_def)

lemma keeps_reset_follower:
  "sx_keeps (going l f) (sx_modify (\<lambda>s. s\<lparr>sj_follower_join_window := jw_reset follower_key xs b (sj_follower_join_window s)\<rparr>))"
  by (rule sx_keeps_modify) (simp add: going_def keyed_reset)

lemma keeps_turn: "sx_keeps (going l f) (follower_turn en ch delay)"
  unfolding follower_turn_def dump_joined_items_def evict_stale_follower_cache_def evict_if_useless_def
    evict_if_force_def
  by (intro keeps_going keeps_dump keeps_evict keeps_reset_follower) (simp_all add: update_join_cache_def)

lemma keeps_delay: "sx_keeps (going l f) (need_delay_dump en rf)"
  unfolding need_delay_dump_def by (intro keeps_going)

lemma need_delay_finished:
  assumes "need_delay_dump en rf s = (Inr True, s1)"
  shows "\<not> (vo_finished (je_follower en) (ej_follower_visitor s) \<and> rf)"
  using assms by (auto simp: need_delay_dump_def sx_bind_def split: if_splits)

text \<open>A fill of the follower's window reads on, unless the visitor is at its end or the window is full.\<close>

lemma fill_follower_total:
  assumes "going l f s"
  shows "\<exists>r s1. fill_follower_join_window en rf s = Some (r, s1) \<and> going l f s1 \<and>
    ((\<exists>f' < f. going l f' s1) \<or>
     sj_follower_join_window s1 = sj_follower_join_window s \<and>
       (r = Inr True \<longrightarrow> \<not> (vo_finished (je_follower en) (ej_follower_visitor s1) \<and> rf) \<longrightarrow>
          je_max_window en \<le> jw_size (sj_follower_join_window s1)))"
proof -
  let ?w = "sj_follower_join_window s" and ?mx = "je_max_window en"
  obtain b N c where c: "fsrc (ej_follower_visitor s) b N c" "left N c \<le> f"
    using assms by (auto simp: going_def foll.ahead_def)
  from foll.fill_total [OF c(1), of follower_key "je_min_window en" ?mx ?w "Some (sj_follower_example_cache s)"]
  obtain r v w ca c' where r: "fill_join_windows (je_follower en) follower_key (je_min_window en) ?mx
      (ej_follower_visitor s, ?w, Some (sj_follower_example_cache s)) = Some (r, v, w, ca)"
    "fsrc v b N c'" "keyed follower_key ?w \<longrightarrow> keyed follower_key w"
    "if \<not> cu_finished c \<and> jw_size ?w < ?mx then left N c' < left N c else r = Inr (?mx \<le> jw_size ?w) \<and> w = ?w \<and> c' = c"
    by blast
  let ?s1 = "s\<lparr>ej_follower_visitor := v, sj_follower_join_window := w, sj_follower_example_cache := the ca\<rparr>"
  let ?s2 = "?s1\<lparr>ej_joiner_stats := fill_follower_example_ids (je_hash en)
           (window_ids follower_key (jw_size ?w) w) (ej_joiner_stats s)\<rparr>"
  have run: "fill_follower_join_window en rf s =
      Some (case r of Inl e \<Rightarrow> (Inl e, ?s1) | Inr a \<Rightarrow> (Inr (a \<or> rf), ?s2))"
    using r(1) by (cases r) (simp_all add: fill_follower_join_window_def ox_bind_def ox_lift_def on_follower_fill_def
        sx_bind_def sx_modify_def)
  have g: "going l f' ?s1 \<and> going l f' ?s2" if "left N c' \<le> f'" for f'
    using assms r(2,3) that by (auto simp: going_def foll.ahead_def)
  have le: "left N c' \<le> left N c" using r(4) by (auto split: if_splits)
  obtain r' s1 where s1: "fill_follower_join_window en rf s = Some (r', s1)" "s1 = ?s1 \<or> s1 = ?s2"
    "r' = (case r of Inl e \<Rightarrow> Inl e | Inr a \<Rightarrow> Inr (a \<or> rf))"
    using run by (cases r) auto
  have "going l f s1" using g [of f] le c(2) s1(2) by auto
  moreover have "(\<exists>f' < f. going l f' s1) \<or> sj_follower_join_window s1 = ?w \<and>
       (r' = Inr True \<longrightarrow> \<not> (vo_finished (je_follower en) (ej_follower_visitor s1) \<and> rf) \<longrightarrow> ?mx \<le> jw_size (sj_follower_join_window s1))"
  proof (cases "\<not> cu_finished c \<and> jw_size ?w < ?mx")
    case True
    then have "left N c' < f" using r(4) c(2) by simp
    then show ?thesis using g [of "left N c'"] s1(2) by auto
  next
    case False
    then have same: "r = Inr (?mx \<le> jw_size ?w)" "w = ?w" "c' = c" using r(4) by (simp_all only: if_False)
    have "ej_follower_visitor s1 = v" using s1(2) by auto
    then have "vo_finished (je_follower en) (ej_follower_visitor s1) = cu_finished c"
      using foll.follows_finished [OF r(2)] same(3) by simp
    moreover have "sj_follower_join_window s1 = ?w" using s1(2) same(2) by auto
    ultimately show ?thesis using False s1(3) same(1) by auto
  qed
  ultimately show ?thesis using s1(1) by blast
qed

lemma follower_loop_done: "follower_loop en ch rf False ex s = Some (Inr (False, ex), s)"
  by (subst follower_loop.simps) (simp add: ox_lift_def sx_return_def)

lemma follower_loop_total:
  assumes mx: "0 < je_max_window en"
  shows "going l f s \<Longrightarrow> \<exists>r s'. follower_loop en ch rf True ex s = Some (r, s') \<and> going l f s'"
proof (induction f arbitrary: s ex rule: less_induct)
  case outer: (less f)
  show ?case using outer.prems
  proof (induction "jw_size (sj_follower_join_window s)" arbitrary: s ex rule: less_induct)
    case (less s)
    obtain r1 s1 where fill: "fill_follower_join_window en rf s = Some (r1, s1)" "going l f s1"
      "(\<exists>f' < f. going l f' s1) \<or> sj_follower_join_window s1 = sj_follower_join_window s \<and>
       (r1 = Inr True \<longrightarrow> \<not> (vo_finished (je_follower en) (ej_follower_visitor s1) \<and> rf) \<longrightarrow>
          je_max_window en \<le> jw_size (sj_follower_join_window s1))"
      using fill_follower_total [OF less.prems] by blast
    obtain r2 s2 where delay: "need_delay_dump en rf s1 = (r2, s2)" by fastforce
    let ?d = "projr r2"
    obtain r3 s3 where turn: "follower_turn en ch ?d s2 = (r3, s3)" by fastforce
    let ?ex = "rf \<and> half_window en (sj_follower_join_window s1)"
    have run: "follower_loop en ch rf True ex s =
       (case r1 of Inl e \<Rightarrow> Some (Inl e, s1) | Inr filled \<Rightarrow>
          if \<not> filled then Some (Inr (True, ex), s1)
          else case r2 of Inl e \<Rightarrow> Some (Inl e, s2) | Inr d \<Rightarrow>
            (case r3 of Inl e \<Rightarrow> Some (Inl e, s3) | Inr u \<Rightarrow> follower_loop en ch rf d ?ex s3))"
      using fill(1) delay turn
      by (subst follower_loop.simps, cases r1; cases r2; cases r3) (auto simp: ox_bind_def ox_lift_def sx_return_def)
    have keep: "going l f' s2" "going l f' s3" if "going l f' s1" for f'
      using sx_keepsD [OF keeps_delay that delay] sx_keepsD [OF keeps_turn _ turn] by blast+
    show ?case
    proof (cases "r1 = Inr True \<and> r2 = Inr True \<and> (\<exists>u. r3 = Inr u)")
      case False
      then show ?thesis
        using run keep fill(2) follower_loop_done
        by (cases r1; cases r2; cases r3) (auto split: if_splits)
    next
      case True
      then have go: "follower_loop en ch rf True ex s = follower_loop en ch rf True ?ex s3" using run by auto
      show ?thesis
      proof (cases "\<exists>f' < f. going l f' s1")
        case True
        then obtain f' where f': "f' < f" "going l f' s1" by blast
        from outer.IH [OF f'(1) keep(2) [OF f'(2)]] obtain r s' where
          "follower_loop en ch rf True ?ex s3 = Some (r, s')" "going l f' s'" by blast
        then show ?thesis using go going_mono [of l f' s' l f] f'(1) by auto
      next
        case full: False
        have "\<not> (vo_finished (je_follower en) (ej_follower_visitor s1) \<and> rf)"
          using need_delay_finished delay True by blast
        then have "je_max_window en \<le> jw_size (sj_follower_join_window s1)"
          and same: "sj_follower_join_window s1 = sj_follower_join_window s"
          using full fill(3) True by auto
        moreover have "keyed follower_key (sj_follower_join_window s1)" using fill(2) by (simp add: going_def)
        ultimately have "jw_size (sj_follower_join_window s3) < jw_size (sj_follower_join_window s)"
          using delayed_turn_shrinks [OF _ mx, of s1 rf s2 ch] delay turn True by auto
        from less.hyps [OF this keep(2) [OF fill(2)]] show ?thesis using go by simp
      qed
    qed
  qed
qed

text \<open>
  A fill of the leader's window reads on, or leaves the window as it was because the visitor is at
  its end, the window is full or it had been filled before.
\<close>

lemma fill_leader_total:
  assumes "going l f s"
  shows "\<exists>r s1. fill_leader_join_window en sf s = Some (r, s1) \<and> going l f s1 \<and>
    ((\<exists>l' < l. going l' f s1) \<or> sj_fill_leader_enough s \<or> 
     sj_leader_join_window s1 = sj_leader_join_window s \<and>
       (r = Inr True \<longrightarrow> sf \<or> je_max_window en \<le> jw_size (sj_leader_join_window s)))"
proof (cases "sj_fill_leader_enough s")
  case True
  then have "fill_leader_join_window en sf s = Some (Inr True, s)"
    by (simp add: fill_leader_join_window_def ox_bind_def ox_lift_def sx_return_def)
  then show ?thesis using assms True by blast
next
  case False
  let ?w = "sj_leader_join_window s" and ?mx = "je_max_window en"
  obtain b N c where c: "lsrc (ej_leader_visitor s) b N c" "left N c \<le> l"
    using assms by (auto simp: going_def lead.ahead_def)
  from lead.fill_total [OF c(1), of leader_key "je_min_window en" ?mx ?w None]
  obtain r v w ca c' where r: "fill_join_windows (je_leader en) leader_key (je_min_window en) ?mx
      (ej_leader_visitor s, ?w, None) = Some (r, v, w, ca)"
    "lsrc v b N c'"
    "if \<not> cu_finished c \<and> jw_size ?w < ?mx then left N c' < left N c else r = Inr (?mx \<le> jw_size ?w) \<and> w = ?w \<and> c' = c"
    by blast
  let ?s1 = "s\<lparr>ej_leader_visitor := v, sj_leader_join_window := w\<rparr>"
  have g: "going l' f t" if "left N c' \<le> l'" "ej_leader_visitor t = v" "ej_follower_visitor t = ej_follower_visitor s"
    "sj_follower_join_window t = sj_follower_join_window s" for l' t
    using assms r(2) that by (auto simp: going_def lead.ahead_def)
  have le: "left N c' \<le> left N c" using r(3) by (auto split: if_splits)
  obtain r' s1 where s1: "fill_leader_join_window en sf s = Some (r', s1)" "ej_leader_visitor s1 = v"
    "ej_follower_visitor s1 = ej_follower_visitor s" "sj_follower_join_window s1 = sj_follower_join_window s"
    "sj_leader_join_window s1 = w" "\<forall>a. r = Inr a \<longrightarrow> r' = Inr (a \<or> sf)"
    using r(1) False
    by (cases r) (auto simp: fill_leader_join_window_def ox_bind_def ox_lift_def on_leader_fill_def
        sx_bind_def sx_modify_def Let_def)
  have "going l f s1" using g [of l s1] le c(2) s1(2-4) by auto
  moreover have "(\<exists>l' < l. going l' f s1) \<or> sj_leader_join_window s1 = ?w \<and>
       (r' = Inr True \<longrightarrow> sf \<or> ?mx \<le> jw_size ?w)"
  proof (cases "\<not> cu_finished c \<and> jw_size ?w < ?mx")
    case True
    then have "left N c' < l" using r(3) c(2) by simp
    then show ?thesis using g [of "left N c'" s1] s1(2-4) by auto
  next
    case False
    then have "r = Inr (?mx \<le> jw_size ?w)" "w = ?w" using r(3) by (simp_all only: if_False)
    then show ?thesis using s1(5,6) by auto
  qed
  ultimately show ?thesis using s1(1) by blast
qed

text \<open>Behind a leader window that was joined, the next one is empty.\<close>

definition fresh_window :: "('l, 'f, 'r) stream_joiner \<Rightarrow> bool" where
  "fresh_window s \<longleftrightarrow> \<not> sj_fill_leader_enough s \<and> jw_size (sj_leader_join_window s) = 0"

lemma reset_fresh: "fresh_window (reset_joiner_state False s)"
  by (simp add: fresh_window_def reset_joiner_state_def jw_reset_def jw_size_def)

lemma reset_going: "going l f (reset_joiner_state False s) = going l f s"
  by (rule going_frame) (simp_all add: reset_joiner_state_def)

text \<open>One round of the outer loop ends it, or leads to a fresh window.\<close>

lemma leader_round:
  assumes mx: "0 < je_max_window en" and s: "going l f s"
  shows "(\<exists>r s'. leader_loop en ch sf rf s = Some (r, s') \<and> going l f s') \<or>
    (\<exists>t l'. leader_loop en ch sf rf s = leader_loop en ch sf rf t \<and> fresh_window t \<and> going l' f t \<and> l' \<le> l \<and>
       (fresh_window s \<longrightarrow> l' < l))"
proof -
  obtain r1 s1 where fill: "fill_leader_join_window en sf s = Some (r1, s1)" "going l f s1"
    "(\<exists>l' < l. going l' f s1) \<or> sj_fill_leader_enough s \<or>
     sj_leader_join_window s1 = sj_leader_join_window s \<and>
       (r1 = Inr True \<longrightarrow> sf \<or> je_max_window en \<le> jw_size (sj_leader_join_window s))"
    using fill_leader_total [OF s] by blast
  let ?done = "join_data_finished (sf \<and> half_window en (sj_leader_join_window s1))"
  obtain l' where l': "going l' f s1" "l' \<le> l" "(\<exists>l'' < l. going l'' f s1) \<longrightarrow> l' < l"
  proof (cases "\<exists>l'' < l. going l'' f s1")
    case True
    then show ?thesis using that less_imp_le by blast
  next
    case False
    then show ?thesis using that [OF fill(2) order_refl] by blast
  qed
  from follower_loop_total [OF mx l'(1), of ch rf False] obtain r2 s2 where
    loop: "follower_loop en ch rf True False s1 = Some (r2, s2)" "going l' f s2" by blast
  let ?r = "projr r2"
  let ?s3 = "if fst ?r then s2 else reset_joiner_state False s2"
  have run: "leader_loop en ch sf rf s =
     (case r1 of Inl e \<Rightarrow> Some (Inl e, s1) | Inr filled \<Rightarrow>
        if \<not> filled then Some (Inr False, s1)
        else case r2 of Inl e \<Rightarrow> Some (Inl e, s2) | Inr r \<Rightarrow>
          (if fst r \<or> ?done r then Some (Inr (?done r), ?s3) else leader_loop en ch sf rf ?s3))"
  proof (cases r1)
    case (Inl e)
    then show ?thesis using fill(1) by (subst leader_loop.simps) (simp add: ox_bind_def)
  next
    case filled: (Inr filled)
    show ?thesis
    proof (cases r2)
      case (Inl e)
      then show ?thesis using fill(1) loop(1) filled
        by (subst leader_loop.simps) (simp add: ox_bind_def ox_lift_def sx_return_def)
    next
      case (Inr r)
      have "ox_bind (ox_lift (if \<not> fst r then sx_modify (reset_joiner_state False) else sx_return ())) g s2 = g () ?s3"
        for g :: "unit \<Rightarrow> (('l, 'f, 'r) stream_joiner, bool) ox"
        using Inr by (simp add: ox_bind_def ox_lift_def sx_return_def sx_modify_def)
      then show ?thesis using fill(1) loop(1) filled Inr
        by (subst leader_loop.simps) (simp add: ox_bind_def [of "fill_leader_join_window en sf"]
          ox_bind_def [of "follower_loop en ch rf True False"] ox_lift_def [of "sx_return b" for b] sx_return_def)
    qed
  qed
  have g2: "going l f s2" using loop(2) l'(2) going_mono by blast
  then have g3: "going l f ?s3" using reset_going by simp
  show ?thesis
  proof (cases "r1 = Inr True \<and> (\<exists>r. r2 = Inr r \<and> \<not> fst r \<and> \<not> ?done r)")
    case False
    have "\<exists>r s'. leader_loop en ch sf rf s = Some (r, s') \<and> (s' = s1 \<or> s' = s2 \<or> s' = ?s3)"
      using run False by (cases r1; cases r2) (auto split: if_splits)
    then show ?thesis using fill(2) g2 g3 by blast
  next
    case True
    then obtain r where r: "r2 = Inr r" "\<not> fst r" "\<not> ?done r" by blast
    let ?t = "reset_joiner_state False s2"
    have go: "leader_loop en ch sf rf s = leader_loop en ch sf rf ?t" using run True r by auto
    have "l' < l" if fresh: "fresh_window s"
    proof (rule ccontr)
      assume "\<not> l' < l"
      then have "sj_leader_join_window s1 = sj_leader_join_window s" "sf \<or> je_max_window en \<le> jw_size (sj_leader_join_window s)"
        using l'(3) fill(3) fresh True by (auto simp: fresh_window_def)
      then have "sf \<and> half_window en (sj_leader_join_window s1)"
        using fresh mx by (auto simp: fresh_window_def half_window_def)
      then show False using r(2,3) by (simp add: join_data_finished_def split_beta)
    qed
    then show ?thesis using go reset_fresh [of s2] reset_going loop(2) l'(2) by metis
  qed
qed

lemma leader_loop_fresh:
  assumes mx: "0 < je_max_window en"
  shows "going l f s \<Longrightarrow> fresh_window s \<Longrightarrow> \<exists>r s'. leader_loop en ch sf rf s = Some (r, s') \<and> going l f s'"
proof (induction l arbitrary: s rule: less_induct)
  case (less l)
  consider (ends) "\<exists>r s'. leader_loop en ch sf rf s = Some (r, s') \<and> going l f s'"
    | (again) t l' where "leader_loop en ch sf rf s = leader_loop en ch sf rf t" "fresh_window t" "going l' f t" "l' < l"
    using leader_round [OF mx less.prems(1), of ch sf rf] less.prems(2) by blast
  then show ?case
  proof cases
    case again
    from less.IH [OF again(4,3,2)] obtain r s' where "leader_loop en ch sf rf t = Some (r, s')" "going l' f s'" by blast
    then show ?thesis using again(1,4) going_mono [of l' f s' l f] by auto
  qed
qed

lemma leader_loop_total:
  assumes mx: "0 < je_max_window en" and s: "going l f s"
  shows "\<exists>r s'. leader_loop en ch sf rf s = Some (r, s') \<and> going l f s'"
proof -
  consider (ends) "\<exists>r s'. leader_loop en ch sf rf s = Some (r, s') \<and> going l f s'"
    | (again) t l' where "leader_loop en ch sf rf s = leader_loop en ch sf rf t" "fresh_window t" "going l' f t" "l' \<le> l"
    using leader_round [OF assms, of ch sf rf] by blast
  then show ?thesis
  proof cases
    case again
    from leader_loop_fresh [OF mx again(3,2)] obtain r s' where "leader_loop en ch sf rf t = Some (r, s')" "going l' f s'"
      by blast
    then show ?thesis using again(1,4) going_mono [of l' f s' l f] by auto
  qed
qed

section \<open>The routine ends\<close>

definition window_keyed :: "('l, 'f, 'r) stream_joiner \<Rightarrow> bool" where
  "window_keyed s \<longleftrightarrow> keyed follower_key (sj_follower_join_window s)"

lemma window_keyed_frame:
  "sj_follower_join_window s' = sj_follower_join_window s \<Longrightarrow> window_keyed s' = window_keyed s"
  by (simp add: window_keyed_def)

lemma keeps_keyed_on:
  "sx_keeps window_keyed (on_leader g1)" "sx_keeps window_keyed (on_follower g2)"
  "sx_keeps window_keyed (on_blocks g3)" "sx_keeps window_keyed (on_builder g4)"
  by (auto simp: sx_keeps_def on_leader_def on_follower_def on_blocks_def on_builder_def window_keyed_def
      split: prod.splits option.splits)

lemma keeps_keyed_modify:
  assumes "\<And>s. window_keyed s \<Longrightarrow> window_keyed (g s)" shows "sx_keeps window_keyed (sx_modify g)"
  by (rule sx_keeps_modify) (rule assms)

lemma keeps_except_stop:
  assumes f: "sx_keeps I f" and h: "sx_keeps I h"
  shows "sx_keeps I (except_stop f h)"
proof -
  have "I (snd (except_stop f h s))" if s: "I s" for s
  proof -
    obtain r t where t: "f s = (r, t)" by fastforce
    have "I t" by (rule sx_keepsD [OF f s t])
    moreover from this have "I (snd (h t))" using h by (simp add: sx_keeps_def)
    ultimately show ?thesis using t by (cases r; cases "projl r") (simp_all add: except_stop_def)
  qed
  then show ?thesis by (simp add: sx_keeps_def)
qed

lemmas keeps_keyed = sx_keeps_bind sx_keeps_get sx_keeps_return sx_keeps_if sx_keeps_option keeps_except_stop keeps_keyed_on keeps_keyed_modify

lemma keeps_keyed_prepare: "sx_keeps window_keyed (sj_prepare_join en stale)"
  unfolding sj_prepare_join_def prepare_join_def joiner_sync_state_def latest_meta_def
  by (intro keeps_keyed) (simp_all add: window_keyed_def reset_joiner_state_def reset_data_block_builder_def keyed_reset Let_def)

lemma keeps_keyed_last:
  "sx_keeps window_keyed (sx_bind (joiner_get_builder en ch False) (\<lambda>builder.
      sx_bind (if builder \<noteq> None \<and> (jc_interval_passed ch \<or> fin)
               then sx_bind (sj_finish_data_block en ch) yield_meta else sx_return ()) (\<lambda>_.
      if fin then sx_modify (\<lambda>s. s\<lparr>ej_join_finished := True\<rparr>) else sx_return ())))"
  unfolding sj_finish_data_block_def joiner_finish_block_def create_join_stats_info_def latest_meta_def Let_def
    joiner_get_builder_def yield_meta_def
  by (intro keeps_keyed) (simp_all add: window_keyed_def reset_data_block_builder_def)

lemma run_total:
  assumes mx: "0 < je_max_window en" and inv: "joiner_inv Bs0 s" and keyed: "window_keyed s"
  shows "\<exists>r s'. run_stream_joiner en ch s = Some (r, s') \<and> window_keyed s'"
proof -
  let ?s = "s\<lparr>ej_state_stale := True\<rparr>" and ?stale = "ej_state_stale s"
  have k: "window_keyed ?s" using keyed by (simp add: window_keyed_def)
  have "\<exists>r t. stream_inner_joiner en ch ?stale ?s = Some (r, t) \<and> window_keyed t"
  proof (cases "ej_join_finished s")
    case True
    then show ?thesis using k by (simp add: stream_inner_joiner_def ox_bind_def ox_lift_def)
  next
    case False
    obtain Bs where Bs: "prefix Bs0 Bs" "stale_ok Bs s"
        "\<not> ej_state_stale s \<and> \<not> ej_join_finished s \<longrightarrow>
          (\<exists>cs cl cf. stream_ok Bs cs (jw_buffer (sj_leader_join_window s)) cl cf s)"
      using inv by (auto simp: joiner_inv_def)
    have "dead Bs0 ?s" using Bs(1,2) stream_ok_flag by (auto simp: dead_def broken_def)
    then have pre: "if ?stale then dead Bs0 ?s else full Bs0 ?s"
      using Bs(1,3) False stream_ok_flag(1) by (auto simp: live_def)
    obtain q t where q: "sj_prepare_join en ?stale ?s = (q, t)" by fastforce
    have kt: "window_keyed t" by (rule sx_keepsD [OF keeps_keyed_prepare k q])
    show ?thesis
    proof (cases q)
      case (Inl e)
      then show ?thesis using q False kt by (simp add: stream_inner_joiner_def ox_bind_def ox_lift_def)
    next
      case (Inr flags)
      obtain sf rf where flags: "flags = (sf, rf)" by (cases flags)
      have "full Bs0 t" using sx_okD(1) [OF prepare_full pre] q Inr by simp
      then obtain Bs' cs cl cf where base: "base_ok Bs' cs cl cf t" by (auto simp: live_def stream_ok_def)
      from base_src [OF base] obtain l f where "lead.ahead l (ej_leader_visitor t)" "foll.ahead f (ej_follower_visitor t)"
        unfolding lead.ahead_def foll.ahead_def by blast
      then have "going l f t" using kt by (simp add: going_def window_keyed_def)
      from leader_loop_total [OF mx this, of ch sf rf] obtain r2 t2 where
        t2: "leader_loop en ch sf rf t = Some (r2, t2)" "going l f t2" by blast
      have k2: "window_keyed t2" using t2(2) by (simp add: going_def window_keyed_def)
      let ?last = "\<lambda>fin. sx_bind (joiner_get_builder en ch False) (\<lambda>builder.
        sx_bind (if builder \<noteq> None \<and> (jc_interval_passed ch \<or> fin)
                 then sx_bind (sj_finish_data_block en ch) yield_meta else sx_return ()) (\<lambda>_.
        if fin then sx_modify (\<lambda>s. s\<lparr>ej_join_finished := True\<rparr>) else sx_return ()))"
      have "stream_inner_joiner en ch ?stale ?s =
          Some (case r2 of Inl e \<Rightarrow> (Inl e, t2) | Inr fin \<Rightarrow> ?last fin t2)"
        using q Inr flags False t2(1) by (cases r2) (simp_all add: stream_inner_joiner_def ox_bind_def ox_lift_def)
      moreover have "window_keyed (snd (?last fin t2))" for fin
        using keeps_keyed_last k2 unfolding sx_keeps_def by blast
      ultimately show ?thesis using k2 by (cases r2) (auto simp: prod_eq_iff)
    qed
  qed
  then obtain r t where t: "stream_inner_joiner en ch ?stale ?s = Some (r, t)" "window_keyed t" by blast
  then show ?thesis
    by (cases r) (auto simp: run_stream_joiner_def with_example_joiner_def ox_bind_def ox_lift_def sx_modify_def window_keyed_def)
qed

end

section \<open>Over the two visitors\<close>

lemma new_joiner_keyed: "new_stream_joiner en l f fs = Inr s \<Longrightarrow> stream.window_keyed s"
  by (auto simp: new_stream_joiner_def joiner_over_def reset_joiner_state_def Let_def stream.window_keyed_def
      keyed_reset split: prod.splits sum.splits)

lemma stream_step_keyed:
  assumes mx: "0 < je_max_window (sy_joiner sy)" and inv: "stream_inv sy Bs0 s" and keyed: "stream.window_keyed s"
    and step: "stream_step sy s s'"
  shows "stream.window_keyed s'"
  using step
proof cases
  case (Run ch r)
  have "0 < je_max_window (stream_env sy)" using mx by (simp add: stream_env_def)
  from stream.run_total [OF this inv keyed, of ch] Run show ?thesis by auto
next
  case Ids_finished
  then show ?thesis using keyed by (simp add: stream.window_keyed_def set_sync_example_id_finished_def)
next
  case Raw_finished
  then show ?thesis using keyed by (simp add: stream.window_keyed_def set_raw_data_finished_def)
next
  case (Ask_meta i r)
  then show ?thesis using keyed
    by (auto simp: stream.window_keyed_def joiner_meta_by_index_def sx_bind_def on_blocks_def split: prod.splits sum.splits)
next
  case (Restart listing l f)
  then show ?thesis using new_joiner_keyed by blast
qed (use keyed in \<open>simp_all add: stream.window_keyed_def\<close>)

lemma reachable_keyed:
  assumes ready: "stream_ready sy" and mx: "0 < je_max_window (sy_joiner sy)" and s: "stream_reachable sy s"
  shows "stream.window_keyed s"
proof -
  obtain s0 where s0: "stream_start sy s0" "(stream_step sy)\<^sup>*\<^sup>* s0 s" using s by (auto simp: stream_reachable_def)
  have "stream.window_keyed s0" using s0(1) new_joiner_keyed by (auto simp: stream_start_def)
  with s0(2) show ?thesis
  proof (induction rule: rtranclp_induct)
    case (step t u)
    have "stream_inv sy [] t" by (rule stream_steps_inv [OF step.hyps(1) ready stream_start_inv [OF ready s0(1)]])
    from stream_step_keyed [OF mx this _ step.hyps(2)] step show ?case by blast
  qed
qed

section \<open>Property\<close>

text \<open>
  C6. A run of the joiner returns, whatever state the runs, exceptions, restarts and arrivals before it
  have left: none of its four nested loops goes on for ever, provided only that the maximal
  window size is positive. Each fill of a window reads on or finds its visitor at the end or its window
  full, and a full follower window from which nothing could be joined is made smaller by
  the forced eviction.
\<close>

theorem stream_run_returns:
  assumes "stream_ready sy" "stream_reachable sy s" "0 < je_max_window (sy_joiner sy)"
  shows "\<exists>r s'. run_stream_joiner (stream_env sy) ch s = Some (r, s')"
proof -
  have mx: "0 < je_max_window (stream_env sy)" using assms(3) by (simp add: stream_env_def)
  from stream.run_total [OF mx reachable_inv [OF assms(1,2)] reachable_keyed [OF assms(1,3,2)]]
  show ?thesis by blast
qed

end
