(* ===== verification/Stream_Demo.thy ===== *)
theory Stream_Demo
  imports Stream_Ending
begin

text \<open>
  A small partition on which the stream joiner is evaluated: the witnesses of its properties, and two
  histories of which one loses an example.
\<close>

section \<open>A joiner at work\<close>

text \<open>
  The leader has dumped the id \<open>a\<close> and will dump \<open>x\<close>; of the follower's examples \<open>x\<close> comes
  before \<open>a\<close>.
\<close>

definition demo_id :: "string \<Rightarrow> int \<Rightarrow> leader_item" where
  "demo_id e t = \<lparr>li_example_id = e, li_event_time = t\<rparr>"

definition demo_example :: "string \<Rightarrow> int \<Rightarrow> (data_block_meta + string) block_item" where
  "demo_example e t = \<lparr>it_example_id = e, it_event_time = t, it_id_type = True, it_record = Inr e\<rparr>"

definition demo_ids :: "nat \<Rightarrow> leader_item list" where
  "demo_ids q = (if q = 0 then [demo_id ''a'' 1] else [demo_id ''x'' 5])"

definition demo_examples :: "nat \<Rightarrow> (data_block_meta + string) block_item list" where
  "demo_examples q = (if q = 0 then [demo_example ''x'' 5, demo_example ''a'' 1] else [demo_example ''z'' 9])"

definition demo_path :: "nat \<Rightarrow> string" where
  "demo_path q = replicate q CHR ''f''"

definition demo_id_env :: "anchor ei_env" where
  "demo_id_env = \<lparr>ei_name = ''ds'', ei_partition = 0, ei_dumped_dir = ''d'', ei_print = (\<lambda>a. a),
     ei_parse = (\<lambda>a. a)\<rparr>"

definition demo_kv :: "(string \<times> anchor) list" where
  "demo_kv = [(anchor_key demo_id_env, Dumped (next_dump demo_id_env demo_ids 0))]"

definition demo_listing :: "string list" where
  "demo_listing = [encode_example_id_dumped_fname 0 0]"

definition demo_leader_env :: "(leader_item, anchor ei_manager) visitor_env" where
  "demo_leader_env =
     \<lparr>ve_disk = (\<lambda>s. case decode_file s of
          Inl e \<Rightarrow> ([], Some e) | Inr im \<Rightarrow> (demo_ids (nat (im_process_index im)), None)),
      ve_gim = ei_gim demo_id_env, ve_depth = 20\<rparr>"

definition demo_follower_env :: "((data_block_meta + string) block_item, kv_data rd_manager) visitor_env" where
  "demo_follower_env =
     \<lparr>ve_disk = (\<lambda>s. (demo_examples (length s), None)), ve_gim = rd_gim (sample_env []) 0, ve_depth = 20\<rparr>"

definition demo_meta :: raw_data_meta where
  "demo_meta = \<lparr>rm_file_path = demo_path 0, rm_start_index = - 1, rm_timestamp = (0, 0)\<rparr>"

definition demo_store :: "(string \<times> kv_data) list" where
  "demo_store = [(manifest_key (sample_env []) 0, KManifest ((fresh_manifest 0)\<lparr>mf_next_process_index := 1\<rparr>)),
     (meta_key (sample_env []) 0 0, KMeta demo_meta)]"

definition demo_system :: "(anchor, kv_data, data_block_meta + string) stream_system" where
  "demo_system =
     \<lparr>sy_joiner = \<lparr>je_block = sample_block_env, je_partition = 0,
        je_leader = leader_visitor_ops demo_id_env demo_leader_env,
        je_follower = follower_visitor_ops (sample_env []) 0 demo_follower_env,
        je_hash = (\<lambda>_. 0), je_stats_windows_size = 4, je_dump_threshold = None, je_min_window = 2, je_max_window = 4,
        je_negatives = False, je_make_fake = demo_example\<rparr>,
      sy_ids = demo_id_env, sy_leader = demo_leader_env, sy_leader_files = demo_ids,
      sy_raw = sample_env [], sy_follower = demo_follower_env, sy_follower_files = demo_examples,
      sy_follower_path = demo_path\<rparr>"

type_synonym demo_state = "(anchor, kv_data, data_block_meta + string) stream_state"

definition demo_choice :: join_choice where
  "demo_choice = \<lparr>jc_uid = (\<lambda>_. ''u''), jc_meta_uid = (\<lambda>_. ''v''), jc_data_outcome = (\<lambda>_. Renamed),
     jc_meta_outcome = (\<lambda>_. Renamed), jc_interval_passed = True, jc_skip = (\<lambda>_. False)\<rparr>"

text \<open>A manager over files of which the first \<open>n\<close> blocks are there.\<close>

definition synced_world :: "int \<Rightarrow> 'r block_fs \<Rightarrow> 'r block_world" where
  "synced_world n fs = \<lparr>bw_fs = fs, bw_dumped_index = Some (n - 1), bw_dumping_index = None, bw_cache = []\<rparr>"

definition demo_joiner :: "(string \<times> anchor) list \<Rightarrow> string list \<Rightarrow> (string \<times> kv_data) list \<Rightarrow>
    (data_block_meta + string) block_world \<Rightarrow> demo_state result" where
  "demo_joiner kv paths store w =
     bind_result (new_example_id_visitor demo_id_env demo_listing kv paths) (\<lambda>l.
     bind_result (new_raw_data_visitor (sample_env []) 0 store) (\<lambda>f.
     joiner_over (stream_env demo_system) l f w))"

definition demo_start :: "demo_state result" where
  "demo_start = demo_joiner demo_kv [dumped_path demo_id_env demo_ids 0] demo_store (synced_world 0 Map.empty)"

definition demo_run :: "demo_state \<Rightarrow> (unit result \<times> demo_state) option" where
  "demo_run = run_stream_joiner (stream_env demo_system) demo_choice"


text \<open>The leader's second file comes, and both sides are told that there is no more.\<close>

definition demo_rest :: "demo_state \<Rightarrow> demo_state" where
  "demo_rest s = set_raw_data_finished (set_sync_example_id_finished
     (s\<lparr>ej_leader_visitor := (ej_leader_visitor s)\<lparr>v_manager :=
        dump_file demo_id_env (next_dump demo_id_env demo_ids 1) (v_manager (ej_leader_visitor s))\<rparr>\<rparr>))"

definition demo_dumped :: "demo_state \<Rightarrow> bool" where
  "demo_dumped s \<longleftrightarrow>
     map_of (ei_kv (v_manager (ej_leader_visitor s))) (anchor_key demo_id_env) =
       Some (Dumped (next_dump demo_id_env demo_ids 0)) \<and>
     dumped_path demo_id_env demo_ids 0 \<in> set (ei_files (v_manager (ej_leader_visitor s)))"

definition ids_of_block :: "demo_state \<Rightarrow> int \<Rightarrow> string list option" where
  "ids_of_block s i =
     (case bw_fs (ej_world s) (get_data_block_meta_path sample_block_env 0 i) of
        Some [Inl m] \<Rightarrow> Some (bm_example_ids m) | _ \<Rightarrow> None)"

definition demo_first :: "demo_state \<Rightarrow> bool" where
  "demo_first s \<longleftrightarrow> demo_dumped s \<and> \<not> ej_state_stale s \<and> \<not> ej_join_finished s \<and> ids_of_block s 0 = Some [''a''] \<and> 
     bw_fs (ej_world s) (get_data_block_meta_path sample_block_env 0 1) = None"

definition demo_ends :: "string list option \<Rightarrow> (unit result \<times> demo_state) option \<Rightarrow> bool" where
  "demo_ends ids out \<longleftrightarrow>
     (case out of None \<Rightarrow> False
      | Some (r, s) \<Rightarrow> r = Inr () \<and> ej_join_finished s \<and> ids_of_block s 0 = Some [''a''] \<and> ids_of_block s 1 = ids \<and>
          ids_of_block s 2 = None)"

lemma demo_first_run:
  "case demo_start of Inl e \<Rightarrow> False | Inr s0 \<Rightarrow>
     (case demo_run s0 of None \<Rightarrow> False | Some (r, s) \<Rightarrow> r = Inr () \<and> demo_first s)"
  by code_simp

lemma demo_goes_on:
  "case demo_start of Inl e \<Rightarrow> False | Inr s0 \<Rightarrow>
     (case demo_run s0 of None \<Rightarrow> False | Some (r, s) \<Rightarrow> demo_ends (Some [''x'']) (demo_run (demo_rest s)))"
  by code_simp


subsection \<open>The demonstration is one of the system\<close>

lemma demo_system_ready: "stream_ready demo_system"
proof -
  have "readable (ve_disk demo_leader_env) demo_ids (dumped_path demo_id_env demo_ids)"
    using decode_dumped_path [of demo_id_env _ demo_ids]
    by (auto simp: readable_def demo_leader_env_def dumped_path_def demo_ids_def)
  moreover have "readable (ve_disk demo_follower_env) demo_examples demo_path"
    by (simp add: readable_def demo_follower_env_def demo_examples_def demo_path_def)
  moreover have "file_start demo_ids 20 \<le> 2 ^ 63" by code_simp
  ultimately show ?thesis
    by (simp add: stream_ready_def demo_system_def sample_block_codec ei_codec_ok_def demo_id_env_def
        demo_leader_env_def demo_follower_env_def)
qed

lemma demo_store_ok: "store_ok (sample_env []) 0 demo_examples demo_path demo_store"
proof -
  have "codec_ok (en_codec (sample_env []))" by (simp add: sample_env_def sample_codec_ok)
  moreover have "meta_for demo_examples demo_path 0 demo_meta" by (simp add: meta_for_def demo_meta_def)
  moreover have "KMeta t = print_meta (en_codec (sample_env [])) t" for t
    by (simp add: sample_env_def sample_codec_def)
  ultimately show ?thesis
    unfolding store_ok_def
    by (auto simp: demo_store_def split: if_splits intro!: exI [of _ "0::nat"] exI [of _ demo_meta])
qed

lemma demo_published: "published (sample_env []) 0 demo_store 1"
proof -
  have "print_manifest (en_codec (sample_env [])) = KManifest"
    by (simp add: sample_env_def sample_codec_def)
  then show ?thesis by (auto simp: published_def demo_store_def)
qed

lemma demo_dumped_ids:
  assumes "map_of kv (anchor_key demo_id_env) = Some (Dumped (next_dump demo_id_env demo_ids 0))"
    "dumped_path demo_id_env demo_ids 0 \<in> set paths"
  shows "ids_dumped demo_id_env demo_ids kv paths 1"
  using assms by (auto simp: ids_dumped_def anchor_at_def demo_id_env_def next_dump_def)

lemma demo_listing_ok: "listing_ok demo_ids demo_listing"
  by (auto simp: listing_ok_def demo_listing_def intro!: exI [of _ "0 :: nat"])

text \<open>The block manager of a new process finds the published blocks without looking at each name.\<close>

lemma new_joiner_over:
  assumes "files_ok (je_block en) (je_partition en) n fs" "n \<le> 2 ^ 63 + 1"
  shows "new_stream_joiner en l f fs = joiner_over en l f (synced_world n fs)"
proof -
  let ?w = "\<lparr>bw_fs = fs, bw_dumped_index = None, bw_dumping_index = None, bw_cache = []\<rparr>"
  have "blocks_ok (je_block en) (je_partition en) n ?w" using assms(1) by (simp add: blocks_ok_def cache_ok_def)
  from sync_spec [OF this assms(2)] show ?thesis
    by (simp add: new_stream_joiner_def new_data_block_manager_def synced_world_def)
qed

lemma demo_joiner_new:
  assumes "demo_joiner kv paths store (synced_world n fs) = Inr s"
    and "files_ok sample_block_env 0 n fs" "n \<le> 2 ^ 63 + 1"
  shows "\<exists>l f. new_example_id_visitor demo_id_env demo_listing kv paths = Inr l \<and>
    new_raw_data_visitor (sample_env []) 0 store = Inr f \<and> new_stream_joiner (stream_env demo_system) l f fs = Inr s"
proof -
  have "je_block (stream_env demo_system) = sample_block_env" "je_partition (stream_env demo_system) = 0"
    by (simp_all add: stream_env_def demo_system_def)
  then show ?thesis using assms new_joiner_over [of "stream_env demo_system" n fs]
    by (auto simp: demo_joiner_def bind_result_Inr_iff)
qed

lemma demo_begins:
  assumes "demo_start = Inr s"
  shows "stream_start demo_system s"
proof -
  have no: "\<not> block_dumped sample_block_env 0 Map.empty i" for i :: int by (simp add: block_dumped_def)
  then have "files_ok sample_block_env 0 0 Map.empty" by (simp add: files_ok_def)
  from demo_joiner_new [OF assms [unfolded demo_start_def] this] obtain l f where
    "new_example_id_visitor demo_id_env demo_listing demo_kv [dumped_path demo_id_env demo_ids 0] = Inr l"
    "new_raw_data_visitor (sample_env []) 0 demo_store = Inr f"
    "new_stream_joiner (stream_env demo_system) l f Map.empty = Inr s" by auto
  moreover have "ids_dumped demo_id_env demo_ids demo_kv [dumped_path demo_id_env demo_ids 0] 1"
    by (rule demo_dumped_ids) (simp_all add: demo_kv_def)
  moreover have "(1 :: nat) < ve_depth demo_leader_env" "(1 :: nat) < ve_depth demo_follower_env"
    by (simp_all add: demo_leader_env_def demo_follower_env_def)
  ultimately show ?thesis
    using demo_listing_ok demo_store_ok demo_published no
    unfolding stream_start_def demo_system_def stream_system.simps joiner_env.simps by blast
qed

lemma demo_step_run: "demo_run s = Some (r, s') \<Longrightarrow> stream_step demo_system s s'"
  unfolding demo_run_def by (rule stream_step.Run)

lemma demo_step_rest:
  assumes "demo_dumped s"
  shows "(stream_step demo_system)\<^sup>*\<^sup>* s (demo_rest s)"
proof -
  let ?d = "s\<lparr>ej_leader_visitor := (ej_leader_visitor s)\<lparr>v_manager :=
    dump_file demo_id_env (next_dump demo_id_env demo_ids 1) (v_manager (ej_leader_visitor s))\<rparr>\<rparr>"
  have "dumped_so_far demo_system (v_manager (ej_leader_visitor s)) 1"
    using assms demo_dumped_ids by (simp add: dumped_so_far_def demo_system_def demo_dumped_def)
  from stream_step.Ids_dumped [OF this] have "stream_step demo_system s ?d"
    by (simp add: demo_system_def demo_leader_env_def)
  moreover have "stream_step demo_system ?d (set_sync_example_id_finished ?d)" by (rule stream_step.Ids_finished)
  moreover have "stream_step demo_system (set_sync_example_id_finished ?d) (demo_rest s)"
    unfolding demo_rest_def by (rule stream_step.Raw_finished)
  ultimately show ?thesis by (meson converse_rtranclp_into_rtranclp rtranclp.rtrancl_refl)
qed

lemma block_of_ids: "ids_of_block s i = Some xs \<Longrightarrow> block_dumped sample_block_env 0 (bw_fs (ej_world s)) i"
  by (auto simp: ids_of_block_def block_dumped_def split: option.splits)


text \<open>The run up to the first block, and what follows it.\<close>

lemma demo_reaches:
  obtains s0 s where "stream_start demo_system s0" "demo_run s0 = Some (Inr (), s)" "demo_first s"
    "stream_reachable demo_system s0" "stream_reachable demo_system s"
    "(stream_step demo_system)\<^sup>*\<^sup>* s0 s" "demo_start = Inr s0"
proof -
  obtain s0 s where s: "demo_start = Inr s0" "demo_run s0 = Some (Inr (), s)" "demo_first s"
    using demo_first_run by (auto split: sum.splits option.splits)
  have "stream_reachable demo_system s0" using demo_begins [OF s(1)] unfolding stream_reachable_def by blast
  moreover have "(stream_step demo_system)\<^sup>*\<^sup>* s0 s" using demo_step_run [OF s(2)] by blast
  ultimately show ?thesis using that demo_begins [OF s(1)] s unfolding stream_reachable_def by blast
qed

lemma demo_rest_run:
  assumes "demo_dumped s" "demo_ends ids (demo_run (demo_rest s))"
  shows "\<exists>t. (stream_step demo_system)\<^sup>*\<^sup>* s t \<and> ej_join_finished t \<and> ids_of_block t 0 = Some [''a''] \<and>
    ids_of_block t 1 = ids \<and> ids_of_block t 2 = None"
proof -
  obtain t where t: "demo_run (demo_rest s) = Some (Inr (), t)" "ej_join_finished t" "ids_of_block t 0 = Some [''a'']"
      "ids_of_block t 1 = ids" "ids_of_block t 2 = None"
    using assms(2) by (auto simp: demo_ends_def split: option.splits)
  from demo_step_rest [OF assms(1)] demo_step_run [OF t(1)]
  have "(stream_step demo_system)\<^sup>*\<^sup>* s t" by (rule rtranclp.rtrancl_into_rtrancl)
  then show ?thesis using t by blast
qed

lemma demo_joins_both:
  assumes "demo_start = Inr s0" "demo_run s0 = Some (Inr (), s)" "demo_first s"
  shows "\<exists>t. (stream_step demo_system)\<^sup>*\<^sup>* s t \<and> ej_join_finished t \<and> ids_of_block t 0 = Some [''a''] \<and>
    ids_of_block t 1 = Some [''x''] \<and> ids_of_block t 2 = None"
proof (rule demo_rest_run)
  show "demo_dumped s" using assms(3) by (simp add: demo_first_def)
  show "demo_ends (Some [''x'']) (demo_run (demo_rest s))" using demo_goes_on by (simp only: assms(1,2) sum.case option.case prod.case)
qed


subsection \<open>Witnesses\<close>

theorem stream_joins_once_witness:
  "\<exists>s Bs. ids_of_block s 1 = Some [''x''] \<and> stream_blocks demo_system s Bs \<and>
     sorted_wrt (<) (map ac_leader_index (concat (map snd Bs)))"
proof (rule demo_reaches)
  fix s0 s
  assume s: "demo_start = Inr s0" "demo_run s0 = Some (Inr (), s)" "demo_first s" "stream_start demo_system s0"
    "(stream_step demo_system)\<^sup>*\<^sup>* s0 s"
  from demo_joins_both [OF s(1-3)] obtain t where t: "(stream_step demo_system)\<^sup>*\<^sup>* s t" "ids_of_block t 1 = Some [''x'']"
    by blast
  have "stream_reachable demo_system t"
    unfolding stream_reachable_def using s(4) rtranclp_trans [OF s(5) t(1)] by blast
  from stream_joins_once [OF demo_system_ready this] t(2) show ?thesis by blast
qed

theorem stream_blocks_grow_witness:
  "\<exists>s s' Bs Cs. ids_of_block s 0 = Some [''a''] \<and> ids_of_block s' 1 = Some [''x''] \<and>
     stream_blocks demo_system s Bs \<and> stream_blocks demo_system s' (Bs @ Cs)"
proof (rule demo_reaches)
  fix s0 s
  assume s: "demo_start = Inr s0" "demo_run s0 = Some (Inr (), s)" "demo_first s" "stream_reachable demo_system s"
  from demo_joins_both [OF s(1-3)] obtain t where t: "(stream_step demo_system)\<^sup>*\<^sup>* s t" "ids_of_block t 1 = Some [''x'']"
    by blast
  from stream_blocks_grow [OF demo_system_ready s(4) t(1)] t(2) s(3) show ?thesis
    by (auto simp: demo_first_def)
qed

theorem stream_windows_ok_witness:
  "\<exists>s. stream_reachable demo_system s \<and> ids_of_block s 0 = Some [''a''] \<and>
     (\<forall>(i, x) \<in> set (jw_buffer (sj_follower_join_window s)). x = follower_data demo_system i)"
proof (rule demo_reaches)
  fix s0 s
  assume s: "demo_first s" "stream_reachable demo_system s"
  then have "\<not> ej_state_stale s" "\<not> ej_join_finished s" by (simp_all add: demo_first_def)
  from stream_windows_ok [OF demo_system_ready s(2) this] s show ?thesis
    by (auto simp: demo_first_def Let_def)
qed

theorem stream_run_returns_witness:
  "\<exists>s r s'. stream_reachable demo_system s \<and> run_stream_joiner (stream_env demo_system) demo_choice s = Some (r, s')"
proof (rule demo_reaches)
  fix s0 s
  assume s: "stream_reachable demo_system s"
  have "0 < je_max_window (sy_joiner demo_system)" by (simp add: demo_system_def)
  from stream_run_returns [OF demo_system_ready s this, of demo_choice] s show ?thesis by blast
qed

theorem restart_skips_head_witness:
  "\<exists>(s :: demo_state) m s1 r s2. latest_meta (stream_env demo_system) s = (Inr (Some m), s1) \<and>
     joiner_sync_state (stream_env demo_system) s = (r, s2) \<and> r = Inr () \<and>
     ej_follower_restart_index s2 = bm_follower_restart_index m"
proof (rule demo_reaches)
  fix s0 s
  assume s: "demo_first s" "stream_reachable demo_system s"
  obtain Bs where ok: "stream.stale_ok demo_system Bs s"
    using inv_blocks [OF reachable_inv [OF demo_system_ready s(2)]] by blast
  obtain w where w: "latest_meta (stream_env demo_system) s =
      (Inr (if Bs = [] then None else Some (fst (last Bs))), s\<lparr>ej_world := w\<rparr>)"
    using stream.latest_run [OF ok] by blast
  have "block_dumped sample_block_env 0 (bw_fs (ej_world s)) 0"
    using s(1) block_of_ids by (simp add: demo_first_def)
  then have "Bs \<noteq> []" using stale_blocks(1) [OF ok] by (auto simp: stream_blocks_def demo_system_def)
  with w have m: "latest_meta (stream_env demo_system) s = (Inr (Some (fst (last Bs))), s\<lparr>ej_world := w\<rparr>)" by simp
  obtain r s2 where r: "joiner_sync_state (stream_env demo_system) s = (r, s2)" by (metis surj_pair)
  note skips = restart_skips_head [OF demo_system_ready s(2) m r]
  show ?thesis
    by (intro exI conjI, rule m, rule r, rule conjunct1 [OF skips], rule conjunct1 [OF conjunct2 [OF skips]])
qed

end
