(* ===== verification/Transmit_Follower.thy ===== *)
theory Transmit_Follower
  imports Block_Dumper Id_Dumper
begin

text \<open>
  The receiving side of a transmission (\<open>data_join/transmit_follower.py\<close>) and its two
  subclasses, the receiver of example ids (\<open>example_id_sync_follower.py\<close>) and that of data block
  metas (\<open>example_join_follower.py\<close>).

  \<open>TransmitFollower\<close> holds at most one context, for the partition that is being received, and its
  context class is a wrapper around a dumper manager. The methods that the wrapper forwards are a
  record of functions, \<open>transmit_impl\<close>, with \<open>Id_Dumper\<close> and \<open>Block_Dumper\<close> behind the two
  instances. What the follower relies on is the locale \<open>append_log\<close>: a context is a log
  with a durable part and a part that is queued, an item is taken only at the end of the
  log, and the dump routine moves items from the queue to the durable part. The stores of a
  partition (its keys and its files) live in the context while there is one.

  Every method runs under the follower's lock, so it is one step; the rounds of the dump
  routine are steps of their own.
\<close>

section \<open>The interface of a context\<close>

datatype sync_content =
    Packed_ids packed_lite_example_ids
  | Block_meta data_block_meta
  | No_content

text \<open>
  \<open>ti_dump\<close> is a step of the routine that \<open>make_dumper\<close> hands out, \<open>ti_inside\<close> whether the routine is
  between two of them.
\<close>

record ('c, 'd, 'h) transmit_impl =
  ti_new :: "'d \<Rightarrow> 'c result"
  ti_store :: "'c \<Rightarrow> 'd"
  ti_get_next_index :: "'c \<Rightarrow> int"
  ti_get_dumped_index :: "('c, int) sx"
  ti_add_synced_content :: "sync_content \<Rightarrow> ('c, bool \<times> int) sx"
  ti_finish_sync_content :: "'c \<Rightarrow> 'c"
  ti_need_dump :: "rat \<Rightarrow> 'c \<Rightarrow> bool"
  ti_inside :: "'c \<Rightarrow> bool"
  ti_dump :: "'h \<Rightarrow> 'c \<Rightarrow> (unit result \<times> 'c) option"
  ti_is_sync_content_finished :: "'c \<Rightarrow> bool"

record ('c, 'd, 'h) sync_class =
  sc_impl :: "int \<Rightarrow> ('c, 'd, 'h) transmit_impl"
  sc_partition_of :: "sync_content \<Rightarrow> int result"

record ('c, 'd) follower =
  tf_ctx :: "(int \<times> 'c) option"
  tf_disk :: 'd
  tf_worker :: bool
  tf_started :: bool

section \<open>The follower\<close>

definition on_impl :: "('c, 'a) sx \<Rightarrow> (('c, 'd) follower, 'a) sx" where
  "on_impl g f =
     (case tf_ctx f of
        None \<Rightarrow> (Inl AttributeError, f)
      | Some (p, c) \<Rightarrow> (case g c of (r, c) \<Rightarrow> (r, f\<lparr>tf_ctx := Some (p, c)\<rparr>)))"

definition make_new_impl_ctx :: "('c, 'd, 'h) sync_class \<Rightarrow> int \<Rightarrow> (('c, 'd) follower, unit) sx" where
  "make_new_impl_ctx K pid f =
     (case ti_new (sc_impl K pid) (tf_disk f) of
        Inl e \<Rightarrow> (Inl e, f)
      | Inr c \<Rightarrow> (Inr (), f\<lparr>tf_ctx := Some (pid, c)\<rparr>))"

definition start_sync_partition ::
    "('c, 'd, 'h) sync_class \<Rightarrow> int \<Rightarrow> (('c, 'd) follower, int \<times> int) sx" where
  "start_sync_partition K pid = sx_bind sx_get (\<lambda>f.
     sx_bind (case tf_ctx f of
                Some (p, _) \<Rightarrow> if p \<noteq> pid then sx_raise RuntimeError else sx_return ()
              | None \<Rightarrow> make_new_impl_ctx K pid) (\<lambda>_.
     sx_bind (on_impl (\<lambda>c. (Inr (ti_get_next_index (sc_impl K pid) c), c))) (\<lambda>next_index.
     sx_bind (on_impl (ti_get_dumped_index (sc_impl K pid))) (\<lambda>dumped_index.
     sx_return (next_index, dumped_index)))))"

definition check_status :: "int \<Rightarrow> (('c, 'd) follower, unit) sx" where
  "check_status pid = sx_bind sx_get (\<lambda>f.
     case tf_ctx f of
       None \<Rightarrow> sx_raise RuntimeError
     | Some (p, _) \<Rightarrow> if p \<noteq> pid then sx_raise RuntimeError else sx_return ())"

definition wakeup_dump_worker :: "(('c, 'd) follower, unit) sx" where
  "wakeup_dump_worker = sx_bind sx_get (\<lambda>f. if tf_worker f then sx_return () else sx_raise AttributeError)"

definition add_synced_item ::
    "('c, 'd, 'h) sync_class \<Rightarrow> sync_content \<Rightarrow> (('c, 'd) follower, bool \<times> int \<times> int) sx" where
  "add_synced_item K m =
     (case sc_partition_of K m of
        Inl e \<Rightarrow> sx_raise e
      | Inr pid \<Rightarrow>
          sx_bind (check_status pid) (\<lambda>_.
          sx_bind (on_impl (ti_add_synced_content (sc_impl K pid) m)) (\<lambda>(filled, next_index).
          sx_bind (if filled then wakeup_dump_worker else sx_return ()) (\<lambda>_.
          sx_bind (on_impl (ti_get_dumped_index (sc_impl K pid))) (\<lambda>dumped_index.
          sx_return (filled, next_index, dumped_index))))))"

text \<open>The clock that \<open>need_dump\<close> reads is an argument.\<close>

definition finish_sync_partition ::
    "('c, 'd, 'h) sync_class \<Rightarrow> rat \<Rightarrow> int \<Rightarrow> (('c, 'd) follower, bool \<times> int) sx" where
  "finish_sync_partition K t pid =
     sx_bind (check_status pid) (\<lambda>_.
     sx_bind (on_impl (sx_modify (ti_finish_sync_content (sc_impl K pid)))) (\<lambda>_.
     sx_bind (on_impl (\<lambda>c. (Inr (ti_need_dump (sc_impl K pid) t c), c))) (\<lambda>need.
     sx_bind (on_impl (ti_get_dumped_index (sc_impl K pid))) (\<lambda>dumped_index.
     sx_return (\<not> need, dumped_index)))))"

definition reset_partition ::
    "('c, 'd, 'h) sync_class \<Rightarrow> rat \<Rightarrow> int \<Rightarrow> (('c, 'd) follower, unit) sx" where
  "reset_partition K t pid f =
     (case tf_ctx f of
        None \<Rightarrow> (Inr (), f)
      | Some (p, c) \<Rightarrow>
          if p \<noteq> pid then (Inr (), f)
          else if \<not> ti_is_sync_content_finished (sc_impl K pid) c \<or> ti_need_dump (sc_impl K pid) t c
          then (Inl RuntimeError, f)
          else (Inr (), f\<lparr>tf_ctx := None, tf_disk := ti_store (sc_impl K pid) c\<rparr>))"

definition get_processing_partition_id :: "('c, 'd) follower \<Rightarrow> int option" where
  "get_processing_partition_id f = map_option fst (tf_ctx f)"

definition start_dump_worker :: "(('c, 'd) follower, unit) sx" where
  "start_dump_worker = sx_bind sx_get (\<lambda>f.
     if \<not> tf_started f
     then sx_bind (sx_assert (\<not> tf_worker f)) (\<lambda>_.
          sx_modify (\<lambda>f. f\<lparr>tf_worker := True, tf_started := True\<rparr>))
     else sx_return ())"

definition stop_dump_worker :: "('c, 'd) follower \<Rightarrow> ('c, 'd) follower" where
  "stop_dump_worker f = f\<lparr>tf_worker := False\<rparr>"

text \<open>\<open>_dump_cond\<close> touches the worker only to set its arguments.\<close>

definition dump_cond :: "('c, 'd, 'h) sync_class \<Rightarrow> rat \<Rightarrow> (('c, 'd) follower, bool) sx" where
  "dump_cond K t = sx_bind sx_get (\<lambda>f.
     case tf_ctx f of
       None \<Rightarrow> sx_return False
     | Some (p, c) \<Rightarrow>
         if ti_need_dump (sc_impl K p) t c
         then (if tf_worker f then sx_return True else sx_raise AttributeError)
         else sx_return False)"

text \<open>What the thread of the dump worker does next: it is inside the routine, or asks whether to enter.\<close>

definition dump_thread ::
    "('c, 'd, 'h) sync_class \<Rightarrow> rat \<Rightarrow> 'h \<Rightarrow> ('c, 'd) follower \<Rightarrow> (unit result \<times> ('c, 'd) follower) option" where
  "dump_thread K t h f =
     (case tf_ctx f of
        None \<Rightarrow> Some (Inr (), f)
      | Some (p, c) \<Rightarrow>
          if ti_inside (sc_impl K p) c \<or> fst (dump_cond K t f) = Inr True
          then map_option (\<lambda>(r, c). (r, f\<lparr>tf_ctx := Some (p, c)\<rparr>)) (ti_dump (sc_impl K p) h c)
          else Some (map_sum id (\<lambda>_. ()) (fst (dump_cond K t f)), f))"

text \<open>The process ends and another one finds the stores.\<close>

definition fresh_follower :: "'d \<Rightarrow> ('c, 'd) follower" where
  "fresh_follower D = \<lparr>tf_ctx = None, tf_disk = D, tf_worker = False, tf_started = False\<rparr>"

definition follower_stores :: "('c, 'd, 'h) sync_class \<Rightarrow> ('c, 'd) follower \<Rightarrow> 'd" where
  "follower_stores K f = (case tf_ctx f of None \<Rightarrow> tf_disk f | Some (p, c) \<Rightarrow> ti_store (sc_impl K p) c)"

section \<open>The two subclasses\<close>

type_synonym 'v id_stores =
  "(string \<times> 'v) list \<times> string list \<times> (string \<Rightarrow> packed_lite_example_ids list option)"

fun extract_packed_partition :: "sync_content \<Rightarrow> int result" where
  "extract_packed_partition (Packed_ids b) = Inr (pk_partition_id b)"
| "extract_packed_partition _ = Inl AssertionError"

fun packed_content :: "sync_content \<Rightarrow> packed_lite_example_ids" where
  "packed_content (Packed_ids b) = b"
| "packed_content _ = \<lparr>pk_partition_id = 0, pk_begin_index = 0, pk_example_id_num = 0, pk_features = []\<rparr>"

definition on_dumper :: "('d, 'a) sx \<Rightarrow> (bool \<times> 'd, 'a) sx" where
  "on_dumper g s = (case g (snd s) of (r, d) \<Rightarrow> (r, (fst s, d)))"

definition example_id_sync_impl :: "'v id_dumper_env \<Rightarrow> (bool \<times> 'v id_dumper, 'v id_stores, id_choice) transmit_impl" where
  "example_id_sync_impl en =
     \<lparr>ti_new = (\<lambda>(kv, files, fs). bind_result (new_id_dumper en kv files fs) (\<lambda>d. Inr (False, d))),
      ti_store = (\<lambda>(_, d). (ei_kv (id_manager d), ei_files (id_manager d), id_fs d)),
      ti_get_next_index = (\<lambda>(_, d). id_next_index d),
      ti_get_dumped_index = on_dumper (get_dumped_id_index en),
      ti_add_synced_content = (\<lambda>m. on_dumper (add_example_id_batch en (packed_content m))),
      ti_finish_sync_content = (\<lambda>(i, d). (i, id_sync_finish d)),
      ti_need_dump = (\<lambda>t (_, d). id_need_dump en t d),
      ti_inside = fst,
      ti_dump = (\<lambda>h s. Some (routine_step en h s)),
      ti_is_sync_content_finished = (\<lambda>(_, d). id_sync_finished d)\<rparr>"

definition example_id_sync_follower ::
    "(int \<Rightarrow> 'v id_dumper_env) \<Rightarrow> (bool \<times> 'v id_dumper, 'v id_stores, id_choice) sync_class" where
  "example_id_sync_follower en =
     \<lparr>sc_impl = (\<lambda>p. example_id_sync_impl (en p)), sc_partition_of = extract_packed_partition\<rparr>"

type_synonym ('r, 'v) block_stores = "(string \<times> 'v) list \<times> 'r block_fs"

fun extract_meta_partition :: "sync_content \<Rightarrow> int result" where
  "extract_meta_partition (Block_meta m) = Inr (bm_partition_id m)"
| "extract_meta_partition _ = Inl AssertionError"

fun meta_content :: "sync_content \<Rightarrow> data_block_meta" where
  "meta_content (Block_meta m) = m"
| "meta_content _ =
     \<lparr>bm_block_id = [], bm_partition_id = 0, bm_data_block_index = 0, bm_start_time = 0, bm_end_time = 0,
      bm_example_ids = [], bm_leader_start_index = 0, bm_leader_end_index = 0, bm_follower_restart_index = 0,
      bm_indices = [], bm_joined = [],
      bm_joiner_stats_info = \<lparr>si_stats_cum_join_num = 0, si_actual_cum_join_num = 0,
        si_leader_stats_index = 0, si_follower_stats_index = 0\<rparr>\<rparr>"

text \<open>The routine of the block dumper is one step (\<open>Block_Dumper.run_dumper\<close>).\<close>

definition example_join_impl ::
    "('r, 'v) dumper_env \<Rightarrow> (('r, 'v) block_dumper, ('r, 'v) block_stores, nat \<Rightarrow> dump_choice) transmit_impl" where
  "example_join_impl en =
     \<lparr>ti_new = (\<lambda>(kv, fs). new_block_dumper en kv fs),
      ti_store = (\<lambda>d. (rd_kv (v_manager (bd_visitor d)), bw_fs (bd_world d))),
      ti_get_next_index = bd_next_data_block_index,
      ti_get_dumped_index = get_dumped_data_block_index en,
      ti_add_synced_content = (\<lambda>m. add_synced_data_block_meta (meta_content m)),
      ti_finish_sync_content = finish_sync_data_block_meta,
      ti_need_dump = (\<lambda>_. need_dump),
      ti_inside = (\<lambda>_. False),
      ti_dump = run_dumper en,
      ti_is_sync_content_finished = bd_synced_finished\<rparr>"

definition example_join_follower ::
    "(int \<Rightarrow> ('r, 'v) dumper_env) \<Rightarrow>
     (('r, 'v) block_dumper, ('r, 'v) block_stores, nat \<Rightarrow> dump_choice) sync_class" where
  "example_join_follower en =
     \<lparr>sc_impl = (\<lambda>p. example_join_impl (en p)), sc_partition_of = extract_meta_partition\<rparr>"

section \<open>The contract\<close>

lemma on_impl_read: "tf_ctx f = Some (p, c) \<Longrightarrow> on_impl (\<lambda>c. (Inr (g c), c)) f = (Inr (g c), f)"
  by (cases f) (simp add: on_impl_def)

text \<open>
  \<open>disk D H\<close>: the stores \<open>D\<close> hold the log \<open>H\<close>. \<open>ctx c H P\<close>: the context \<open>c\<close> has \<open>H\<close> in its stores
  and \<open>P\<close> queued. A message \<open>m\<close> of the partition that \<open>fits\<close> carries the rows \<open>rows m\<close> and says
  at which place \<open>first m\<close> of the log they belong.
\<close>

locale append_log =
  fixes K :: "('c, 'd, 'h) sync_class"
    and pid :: int
    and disk :: "'d \<Rightarrow> 'x list \<Rightarrow> bool"
    and ctx :: "'c \<Rightarrow> 'x list \<Rightarrow> 'x list \<Rightarrow> bool"
    and fits :: "'c \<Rightarrow> sync_content \<Rightarrow> bool"
    and rows :: "sync_content \<Rightarrow> 'x list"
    and first :: "sync_content \<Rightarrow> int"
  assumes new: "disk D H \<Longrightarrow> ti_new (sc_impl K pid) D = Inr c \<Longrightarrow>
      ctx c H [] \<and> \<not> ti_is_sync_content_finished (sc_impl K pid) c"
    and store: "ctx c H P \<Longrightarrow> disk (ti_store (sc_impl K pid) c) H"
    and next_index: "ctx c H P \<Longrightarrow> ti_get_next_index (sc_impl K pid) c = int (length H + length P)"
    and dumped_index: "ctx c H P \<Longrightarrow>
      \<exists>c'. ti_get_dumped_index (sc_impl K pid) c = (Inr (int (length H) - 1), c') \<and> ctx c' H P \<and>
        ti_is_sync_content_finished (sc_impl K pid) c' = ti_is_sync_content_finished (sc_impl K pid) c"
    and fits_partition: "fits c m \<Longrightarrow> sc_partition_of K m = Inr pid"
    and add: "ctx c H P \<Longrightarrow> fits c m \<Longrightarrow>
      \<exists>c'. ti_add_synced_content (sc_impl K pid) m c =
        (if ti_is_sync_content_finished (sc_impl K pid) c then (Inl RuntimeError, c)
         else if first m \<noteq> int (length H + length P) then (Inr (False, int (length H + length P)), c)
         else (Inr (True, int (length H + length P + length (rows m))), c')) \<and>
        (first m = int (length H + length P) \<longrightarrow> ctx c' H (P @ rows m)) \<and>
        ti_is_sync_content_finished (sc_impl K pid) c' = ti_is_sync_content_finished (sc_impl K pid) c"
    and finish: "ctx c H P \<Longrightarrow> ctx (ti_finish_sync_content (sc_impl K pid) c) H P \<and>
        ti_is_sync_content_finished (sc_impl K pid) (ti_finish_sync_content (sc_impl K pid) c)"
    and drained: "ctx c H P \<Longrightarrow> \<not> ti_need_dump (sc_impl K pid) t c \<Longrightarrow> P = []"
    and dump: "ctx c H P \<Longrightarrow>
      \<exists>r c' k. ti_dump (sc_impl K pid) h c = Some (r, c') \<and> ctx c' (H @ take k P) (drop k P) \<and>
        ti_is_sync_content_finished (sc_impl K pid) c' = ti_is_sync_content_finished (sc_impl K pid) c"
begin

text \<open>What the follower holds: the log, and whether the peer has said that it is complete.\<close>

definition holds :: "('c, 'd) follower \<Rightarrow> 'x list \<Rightarrow> 'x list \<Rightarrow> bool \<Rightarrow> bool" where
  "holds f H P cl \<longleftrightarrow>
     (case tf_ctx f of
        None \<Rightarrow> disk (tf_disk f) H \<and> P = [] \<and> \<not> cl
      | Some (p, c) \<Rightarrow> p = pid \<and> ctx c H P \<and> ti_is_sync_content_finished (sc_impl K pid) c = cl)"

lemma holds_ctx:
  "holds (f\<lparr>tf_ctx := Some (p, c)\<rparr>) H P cl \<longleftrightarrow>
     p = pid \<and> ctx c H P \<and> ti_is_sync_content_finished (sc_impl K pid) c = cl"
  by (simp add: holds_def)

lemma stores: "holds f H P cl \<Longrightarrow> disk (follower_stores K f) H"
  using store by (auto simp: holds_def follower_stores_def split: option.splits)

lemma crash: "holds f H P cl \<Longrightarrow> holds (fresh_follower (follower_stores K f)) H [] False"
  using stores by (simp add: holds_def fresh_follower_def)

lemma dumped_run:
  assumes "ctx c H P"
  shows "\<exists>c'. on_impl (ti_get_dumped_index (sc_impl K pid)) (f\<lparr>tf_ctx := Some (pid, c)\<rparr>) =
      (Inr (int (length H) - 1), f\<lparr>tf_ctx := Some (pid, c')\<rparr>) \<and> ctx c' H P \<and>
      ti_is_sync_content_finished (sc_impl K pid) c' = ti_is_sync_content_finished (sc_impl K pid) c"
  using dumped_index [OF assms] by (auto simp: on_impl_def)

lemma start_run:
  assumes "holds f H P cl"
  shows "\<exists>r f'. start_sync_partition K pid f = (r, f') \<and> holds f' H P cl \<and> tf_worker f' = tf_worker f \<and>
    tf_started f' = tf_started f \<and>
    (r = Inr (int (length H + length P), int (length H) - 1) \<and> tf_ctx f' \<noteq> None \<or>
     tf_ctx f = None \<and> f' = f \<and> (\<exists>e. ti_new (sc_impl K pid) (tf_disk f) = Inl e \<and> r = Inl e))"
proof -
  have main: "\<exists>c'. start_sync_partition K pid f =
      (Inr (int (length H + length P), int (length H) - 1), f\<lparr>tf_ctx := Some (pid, c')\<rparr>) \<and>
      holds (f\<lparr>tf_ctx := Some (pid, c')\<rparr>) H P cl"
    if c: "(case tf_ctx f of
        Some (p, _) \<Rightarrow> if p \<noteq> pid then sx_raise RuntimeError else sx_return ()
      | None \<Rightarrow> make_new_impl_ctx K pid) f = (Inr (), f\<lparr>tf_ctx := Some (pid, c)\<rparr>)"
      "ctx c H P" "ti_is_sync_content_finished (sc_impl K pid) c = cl" for c
  proof -
    obtain c' where c': "on_impl (ti_get_dumped_index (sc_impl K pid)) (f\<lparr>tf_ctx := Some (pid, c)\<rparr>) =
        (Inr (int (length H) - 1), f\<lparr>tf_ctx := Some (pid, c')\<rparr>)" "ctx c' H P"
        "ti_is_sync_content_finished (sc_impl K pid) c' = ti_is_sync_content_finished (sc_impl K pid) c"
      using dumped_run [OF c(2), of f] by blast
    then have "start_sync_partition K pid f =
        (Inr (int (length H + length P), int (length H) - 1), f\<lparr>tf_ctx := Some (pid, c')\<rparr>)"
      using c(1) next_index [OF c(2)] by (simp add: start_sync_partition_def sx_bind_def on_impl_read)
    then show ?thesis using c' c(3) by (auto simp: holds_ctx)
  qed
  show ?thesis
  proof (cases "tf_ctx f")
    case None
    then have d: "disk (tf_disk f) H" "P = []" "\<not> cl" using assms by (auto simp: holds_def)
    show ?thesis
    proof (cases "ti_new (sc_impl K pid) (tf_disk f)")
      case (Inl e)
      then show ?thesis using None assms
        by (auto simp: start_sync_partition_def make_new_impl_ctx_def sx_bind_def)
    next
      case (Inr c)
      then show ?thesis using None main [of c] new [OF d(1) Inr] d by (auto simp: make_new_impl_ctx_def)
    qed
  next
    case (Some a)
    then obtain c where c: "tf_ctx f = Some (pid, c)" "ctx c H P"
        "ti_is_sync_content_finished (sc_impl K pid) c = cl"
      using assms by (auto simp: holds_def)
    moreover from this(1) have "f\<lparr>tf_ctx := Some (pid, c)\<rparr> = f" by (cases f) simp
    ultimately show ?thesis using main [of c] by auto
  qed
qed

text \<open>
  An item is taken when the partition is open, the log not complete and the item the next one. If
  the dump worker is not running the item is taken all the same, and the call raises.
\<close>

lemma add_run:
  assumes h: "holds f H P cl" and m: "sc_partition_of K m = Inr pid" "\<And>c. tf_ctx f = Some (pid, c) \<Longrightarrow> fits c m"
  shows "\<exists>r f'. add_synced_item K m f = (r, f') \<and> tf_worker f' = tf_worker f \<and> tf_started f' = tf_started f \<and>
    (tf_ctx f' = None \<longleftrightarrow> tf_ctx f = None) \<and>
    (if tf_ctx f = None \<or> cl then holds f' H P cl \<and> r = Inl RuntimeError
     else if first m \<noteq> int (length H + length P)
     then holds f' H P cl \<and> r = Inr (False, int (length H + length P), int (length H) - 1)
     else holds f' H (P @ rows m) cl \<and>
       r = (if tf_worker f
            then Inr (True, int (length H + length P + length (rows m)), int (length H) - 1)
            else Inl AttributeError))"
proof (cases "tf_ctx f")
  case None
  then show ?thesis using h m(1) by (auto simp: add_synced_item_def check_status_def sx_bind_def)
next
  case (Some a)
  then obtain c where c: "tf_ctx f = Some (pid, c)" "ctx c H P"
      "ti_is_sync_content_finished (sc_impl K pid) c = cl"
    using h by (auto simp: holds_def)
  have chk: "check_status pid f = (Inr (), f)" using c(1) by (simp add: check_status_def)
  obtain c1 where c1: "ti_add_synced_content (sc_impl K pid) m c =
        (if ti_is_sync_content_finished (sc_impl K pid) c then (Inl RuntimeError, c)
         else if first m \<noteq> int (length H + length P) then (Inr (False, int (length H + length P)), c)
         else (Inr (True, int (length H + length P + length (rows m))), c1))"
      "first m = int (length H + length P) \<Longrightarrow> ctx c1 H (P @ rows m)"
      "ti_is_sync_content_finished (sc_impl K pid) c1 = cl"
    using add [OF c(2) m(2) [OF c(1)]] c(3) by blast
  have f: "f\<lparr>tf_ctx := Some (pid, c)\<rparr> = f" using c(1) by (cases f) simp
  consider "cl" | "\<not> cl" "first m \<noteq> int (length H + length P)" | "\<not> cl" "first m = int (length H + length P)"
    by blast
  then show ?thesis
  proof cases
    case 1
    then show ?thesis using h c c1 chk m(1) f
      by (auto simp: add_synced_item_def sx_bind_def on_impl_def holds_def)
  next
    case 2
    obtain c2 where "on_impl (ti_get_dumped_index (sc_impl K pid)) f =
        (Inr (int (length H) - 1), f\<lparr>tf_ctx := Some (pid, c2)\<rparr>)" "ctx c2 H P"
        "ti_is_sync_content_finished (sc_impl K pid) c2 = cl"
      using dumped_run [OF c(2), of f] c(3) f by auto
    moreover have "on_impl (ti_add_synced_content (sc_impl K pid) m) f = (Inr (False, int (length H + length P)), f)"
      using 2 c c1(1) f by (simp add: on_impl_def)
    ultimately show ?thesis using 2 c(1) chk m(1) by (auto simp: add_synced_item_def sx_bind_def holds_ctx)
  next
    case 3
    have ad: "on_impl (ti_add_synced_content (sc_impl K pid) m) f =
        (Inr (True, int (length H + length P + length (rows m))), f\<lparr>tf_ctx := Some (pid, c1)\<rparr>)"
      using 3 c c1(1) by (simp add: on_impl_def)
    have x1: "ctx c1 H (P @ rows m)" using 3 c1(2) by blast
    obtain c2 where c2: "on_impl (ti_get_dumped_index (sc_impl K pid)) (f\<lparr>tf_ctx := Some (pid, c1)\<rparr>) =
        (Inr (int (length H) - 1), f\<lparr>tf_ctx := Some (pid, c2)\<rparr>)" "ctx c2 H (P @ rows m)"
        "ti_is_sync_content_finished (sc_impl K pid) c2 = cl"
      using dumped_run [OF x1, of f] c1(3) by auto
    show ?thesis
    proof (cases "tf_worker f")
      case True
      then have "add_synced_item K m f =
          (Inr (True, int (length H + length P + length (rows m)), int (length H) - 1), f\<lparr>tf_ctx := Some (pid, c2)\<rparr>)"
        using ad c2(1) chk m(1) by (simp add: add_synced_item_def sx_bind_def wakeup_dump_worker_def)
      then show ?thesis using True 3 c2(2,3) c(1) by (simp add: holds_ctx)
    next
      case False
      then have "add_synced_item K m f = (Inl AttributeError, f\<lparr>tf_ctx := Some (pid, c1)\<rparr>)"
        using ad chk m(1) by (simp add: add_synced_item_def sx_bind_def wakeup_dump_worker_def)
      then show ?thesis using False 3 x1 c1(3) c(1) by (simp add: holds_ctx)
    qed
  qed
qed

lemma closing_run:
  assumes h: "holds f H P cl" and f: "tf_ctx f \<noteq> None"
  shows "\<exists>need f'. finish_sync_partition K t pid f = (Inr (\<not> need, int (length H) - 1), f') \<and>
    holds f' H P True \<and> (\<not> need \<longrightarrow> P = []) \<and> tf_ctx f' \<noteq> None \<and> tf_worker f' = tf_worker f \<and>
    tf_started f' = tf_started f"
proof -
  obtain c where c: "tf_ctx f = Some (pid, c)" "ctx c H P" using h f by (auto simp: holds_def)
  let ?c = "ti_finish_sync_content (sc_impl K pid) c"
  have fin: "ctx ?c H P" "ti_is_sync_content_finished (sc_impl K pid) ?c" using finish [OF c(2)] by blast+
  obtain c2 where c2: "on_impl (ti_get_dumped_index (sc_impl K pid)) (f\<lparr>tf_ctx := Some (pid, ?c)\<rparr>) =
      (Inr (int (length H) - 1), f\<lparr>tf_ctx := Some (pid, c2)\<rparr>)" "ctx c2 H P"
      "ti_is_sync_content_finished (sc_impl K pid) c2"
    using dumped_run [OF fin(1), of f] fin(2) by auto
  have "finish_sync_partition K t pid f =
      (Inr (\<not> ti_need_dump (sc_impl K pid) t ?c, int (length H) - 1), f\<lparr>tf_ctx := Some (pid, c2)\<rparr>)"
    using c(1) c2(1)
    by (simp add: finish_sync_partition_def check_status_def sx_bind_def on_impl_def [of "sx_modify _"]
        on_impl_read)
  then show ?thesis using c2(2,3) drained [OF fin(1), of t] by (auto simp: holds_ctx)
qed

lemma reset_run:
  assumes h: "holds f H P cl"
  shows "\<exists>r f'. reset_partition K t pid f = (r, f') \<and> tf_worker f' = tf_worker f \<and> tf_started f' = tf_started f \<and>
    (r = Inr () \<and> P = [] \<and> holds f' H [] False \<and> tf_ctx f' = None \<or> r = Inl RuntimeError \<and> f' = f)"
proof (cases "tf_ctx f")
  case None
  then show ?thesis using h by (auto simp: reset_partition_def holds_def)
next
  case (Some a)
  then obtain c where c: "tf_ctx f = Some (pid, c)" "ctx c H P" using h by (auto simp: holds_def)
  show ?thesis using c store [OF c(2)] drained [OF c(2), of t] by (auto simp: reset_partition_def holds_def)
qed

lemma thread_run:
  assumes h: "holds f H P cl"
  shows "\<exists>r f' k. dump_thread K t h f = Some (r, f') \<and> holds f' (H @ take k P) (drop k P) cl \<and>
    (tf_ctx f' = None \<longleftrightarrow> tf_ctx f = None) \<and> tf_worker f' = tf_worker f \<and> tf_started f' = tf_started f"
proof (cases "tf_ctx f")
  case None
  then show ?thesis using h by (auto simp: dump_thread_def intro!: exI [of _ 0])
next
  case (Some a)
  then obtain c where c: "tf_ctx f = Some (pid, c)" "ctx c H P"
      "ti_is_sync_content_finished (sc_impl K pid) c = cl"
    using h by (auto simp: holds_def)
  obtain r c' k where d: "ti_dump (sc_impl K pid) h c = Some (r, c')" "ctx c' (H @ take k P) (drop k P)"
      "ti_is_sync_content_finished (sc_impl K pid) c' = cl"
    using dump [OF c(2), of h] c(3) by blast
  show ?thesis
  proof (cases "ti_inside (sc_impl K pid) c \<or> fst (dump_cond K t f) = Inr True")
    case True
    then show ?thesis using c(1) d by (auto simp: dump_thread_def holds_ctx intro!: exI [of _ k])
  next
    case False
    then show ?thesis using c(1) h by (auto simp: dump_thread_def intro!: exI [of _ 0])
  qed
qed

end

text \<open>A log whose context can always be made anew from its stores.\<close>

locale live_log = append_log +
  assumes new_returns: "disk D H \<Longrightarrow> \<exists>c. ti_new (sc_impl K pid) D = Inr c"
begin

lemma start_live:
  assumes "holds f H P cl"
  shows "\<exists>f'. start_sync_partition K pid f = (Inr (int (length H + length P), int (length H) - 1), f') \<and>
    holds f' H P cl \<and> tf_ctx f' \<noteq> None \<and> tf_worker f' = tf_worker f \<and> tf_started f' = tf_started f"
proof -
  have "\<exists>c. ti_new (sc_impl K pid) (tf_disk f) = Inr c" if "tf_ctx f = None"
    using new_returns [of "tf_disk f" H] assms that by (simp add: holds_def)
  then show ?thesis using start_run [OF assms] by fastforce
qed

end

end
