(* ===== verification/Transmit_Logs.thy ===== *)
theory Transmit_Logs
  imports Transmit_Follower
begin

text \<open>
  The two receivers as logs: the contract of \<open>Transmit_Follower\<close> for the context that dumps example ids
  (\<open>Id_Dumper\<close>; a row is a place of a packed batch) and for the one that dumps data blocks
  (\<open>Block_Dumper\<close>; a row is the meta of a block).
\<close>

section \<open>The example ids of a partition as a log\<close>

text \<open>A row is a place of a packed batch.\<close>

definition batch_rows :: "packed_lite_example_ids \<Rightarrow> (packed_lite_example_ids \<times> nat) list" where
  "batch_rows b = map (Pair b) [0..<pk_example_id_num b]"

definition all_rows :: "packed_lite_example_ids list \<Rightarrow> (packed_lite_example_ids \<times> nat) list" where
  "all_rows bs = concat (map batch_rows bs)"

lemma all_rows_simps [simp]:
  "all_rows [] = []" "all_rows (b # bs) = batch_rows b @ all_rows bs" "all_rows (as @ bs) = all_rows as @ all_rows bs"
  by (simp_all add: all_rows_def)

lemma length_all_rows [simp]: "length (all_rows bs) = nums bs"
  by (induction bs) (simp_all add: batch_rows_def)

lemma all_rows_filter [simp]: "all_rows (filter nonempty bs) = all_rows bs"
  by (induction bs) (auto simp: batch_rows_def)

definition id_env_ok :: "'v id_dumper_env \<Rightarrow> int \<Rightarrow> bool" where
  "id_env_ok en pid \<longleftrightarrow>
     dumped_dir_ok (ide_ids en) \<and> store_faithful (ide_ids en) \<and> ei_partition (ide_ids en) = pid"

definition id_disk ::
    "(int \<Rightarrow> 'v id_dumper_env) \<Rightarrow> int \<Rightarrow> 'v id_stores \<Rightarrow> (packed_lite_example_ids \<times> nat) list \<Rightarrow> bool" where
  "id_disk en pid D H \<longleftrightarrow> id_env_ok (en pid) pid \<and>
     (case D of (kv, files, fs) \<Rightarrow> \<exists>F. ids_stored (ide_ids (en pid)) F kv files fs \<and> H = all_rows (concat F))"

definition id_ctx ::
    "(int \<Rightarrow> 'v id_dumper_env) \<Rightarrow> int \<Rightarrow> bool \<times> 'v id_dumper \<Rightarrow> (packed_lite_example_ids \<times> nat) list \<Rightarrow>
     (packed_lite_example_ids \<times> nat) list \<Rightarrow> bool" where
  "id_ctx en pid c H P \<longleftrightarrow> id_env_ok (en pid) pid \<and>
     (\<exists>F0 acc F j. id_inv (en pid) F0 acc F j (snd c) \<and> H = all_rows (concat F) \<and>
        P = all_rows (id_fly_batch (snd c)))"

lemma id_ctxI:
  "id_env_ok (en pid) pid \<Longrightarrow> id_inv (en pid) F0 acc F j d \<Longrightarrow>
   id_ctx en pid (i, d) (all_rows (concat F)) (all_rows (id_fly_batch d))"
  by (auto simp: id_ctx_def)

lemma id_ctxE:
  assumes "id_ctx en pid c H P"
  obtains i d F0 acc F j where "c = (i, d)" "id_env_ok (en pid) pid" "id_inv (en pid) F0 acc F j d"
    "H = all_rows (concat F)" "P = all_rows (id_fly_batch d)"
  using assms by (cases c) (auto simp: id_ctx_def)

fun content_rows :: "sync_content \<Rightarrow> (packed_lite_example_ids \<times> nat) list" where
  "content_rows (Packed_ids b) = batch_rows b"
| "content_rows _ = []"

fun content_first :: "sync_content \<Rightarrow> int" where
  "content_first (Packed_ids b) = pk_begin_index b"
| "content_first _ = 0"

definition id_fits :: "int \<Rightarrow> bool \<times> 'v id_dumper \<Rightarrow> sync_content \<Rightarrow> bool" where
  "id_fits pid c m \<longleftrightarrow> extract_packed_partition m = Inr pid"

lemma id_fitsE: "id_fits pid c m \<Longrightarrow> (\<And>b. m = Packed_ids b \<Longrightarrow> pk_partition_id b = pid \<Longrightarrow> R) \<Longrightarrow> R"
  by (cases m) (simp_all add: id_fits_def)

lemma id_inv_lengths:
  assumes "id_inv en F0 acc F j d"
  shows "id_next_index d = int (nums (concat F) + nums (id_fly_batch d))"
    and "all_rows (concat F) @ all_rows (id_fly_batch d) = all_rows (concat F0 @ acc)"
proof -
  have i: "concat F = concat F0 @ filter nonempty (take j acc)" "id_fly_batch d = drop j acc"
      "id_next_index d = int (nums (concat F0)) + int (nums acc)"
    using assms by (simp_all add: id_inv_def)
  have "nums (take j acc) + nums (drop j acc) = nums acc"
    using nums_simps(3) [of "take j acc" "drop j acc"] by simp
  then show "id_next_index d = int (nums (concat F) + nums (id_fly_batch d))" using i by simp
  have "all_rows (take j acc) @ all_rows (drop j acc) = all_rows acc"
    using all_rows_simps(3) [of "take j acc" "drop j acc"] by simp
  then show "all_rows (concat F) @ all_rows (id_fly_batch d) = all_rows (concat F0 @ acc)" using i by simp
qed

lemma id_dumped_run:
  assumes "id_inv en F0 acc F j d"
  shows "get_dumped_id_index en d = (Inr (int (nums (concat F)) - 1), noted en d)"
proof -
  have f: "manager_fresh (ide_ids en) (id_manager d)" "files_dumped (ide_ids en) F (id_manager d) (id_fs d)"
    using assms by (simp_all add: id_inv_def)
  have "anchor_of F (stored_anchor (ide_ids en) (id_manager d))" using f(2) by (simp add: files_dumped_def)
  then have "(case (case stored_anchor (ide_ids en) (id_manager d) of Dumped l \<Rightarrow> Some (ld_end_index l) | _ \<Rightarrow> None) of
      None \<Rightarrow> - 1 | Some i \<Rightarrow> i) = int (nums (concat F)) - 1"
    by (auto simp: anchor_of_def split: if_splits)
  then show ?thesis by (simp add: get_dumped_id_index_def sx_bind_def last_index_run [OF f(1)])
qed

lemma id_dump_run:
  assumes "id_ctx en pid c H P"
  shows "\<exists>r c' k. routine_step (en pid) h c = (r, c') \<and> id_ctx en pid c' (H @ take k P) (drop k P) \<and>
    id_sync_finished (snd c') = id_sync_finished (snd c)"
proof -
  obtain i d where c: "c = (i, d)" by fastforce
  obtain F0 acc F j where inv: "id_inv (en pid) F0 acc F j d" and H: "H = all_rows (concat F)"
      and P: "P = all_rows (id_fly_batch d)" and ok: "id_env_ok (en pid) pid"
    using assms c by (auto simp: id_ctx_def)
  obtain r i' d' F' j' where s: "routine_step (en pid) h (i, d) = (r, i', d')" "id_inv (en pid) F0 acc F' j' d'"
      "prefix F F'" "id_sync_finished d' = id_sync_finished d"
    using routine_inv [OF inv, of h i] ok by (auto simp: id_env_ok_def)
  have same: "all_rows (concat F') @ all_rows (id_fly_batch d') = H @ P"
    using id_inv_lengths(2) [OF inv] id_inv_lengths(2) [OF s(2)] H P by simp
  obtain G where G: "F' = F @ G" using s(3) by (auto simp: prefix_def)
  let ?N = "all_rows (concat G)"
  have "?N @ all_rows (id_fly_batch d') = P" using same H G by simp
  then have "take (length ?N) P = ?N" "drop (length ?N) P = all_rows (id_fly_batch d')" by auto
  moreover have "id_ctx en pid (i', d') (all_rows (concat F')) (all_rows (id_fly_batch d'))"
    using id_ctxI [where en = en, OF ok s(2)] .
  moreover have "all_rows (concat F') = H @ ?N" using G H by simp
  ultimately have "id_ctx en pid (i', d') (H @ take (length ?N) P) (drop (length ?N) P)" by simp
  then show ?thesis using s(1,4) c by fastforce
qed

lemma id_impl [simp]:
  "ti_new (sc_impl (example_id_sync_follower en) p) (kv, files, fs) =
     bind_result (new_id_dumper (en p) kv files fs) (\<lambda>d. Inr (False, d))"
  "ti_store (sc_impl (example_id_sync_follower en) p) (i, d) =
     (ei_kv (id_manager d), ei_files (id_manager d), id_fs d)"
  "ti_get_next_index (sc_impl (example_id_sync_follower en) p) (i, d) = id_next_index d"
  "ti_get_dumped_index (sc_impl (example_id_sync_follower en) p) = on_dumper (get_dumped_id_index (en p))"
  "ti_add_synced_content (sc_impl (example_id_sync_follower en) p) (Packed_ids b) =
     on_dumper (add_example_id_batch (en p) b)"
  "ti_finish_sync_content (sc_impl (example_id_sync_follower en) p) (i, d) = (i, id_sync_finish d)"
  "ti_need_dump (sc_impl (example_id_sync_follower en) p) t (i, d) = id_need_dump (en p) t d"
  "ti_inside (sc_impl (example_id_sync_follower en) p) (i, d) = i"
  "ti_dump (sc_impl (example_id_sync_follower en) p) h (i, d) = Some (routine_step (en p) h (i, d))"
  "ti_is_sync_content_finished (sc_impl (example_id_sync_follower en) p) (i, d) = id_sync_finished d"
  "sc_partition_of (example_id_sync_follower en) m = extract_packed_partition m"
  by (simp_all add: example_id_sync_follower_def example_id_sync_impl_def)

lemma id_new_run:
  assumes "id_disk en pid D H"
  shows "\<exists>c. ti_new (sc_impl (example_id_sync_follower en) pid) D = Inr c \<and> id_ctx en pid c H [] \<and>
    \<not> ti_is_sync_content_finished (sc_impl (example_id_sync_follower en) pid) c"
proof -
  obtain kv files fs F where D: "D = (kv, files, fs)" "id_env_ok (en pid) pid"
      "ids_stored (ide_ids (en pid)) F kv files fs" "H = all_rows (concat F)"
    using assms by (auto simp: id_disk_def)
  obtain d where d: "new_id_dumper (en pid) kv files fs = Inr d" "id_inv (en pid) F [] F 0 d" "\<not> id_sync_finished d"
    using started [OF D(3)] by blast
  have "id_fly_batch d = []" using d(2) by (simp add: id_inv_def)
  then show ?thesis using D d id_ctxI [where en = en, OF D(2) d(2), of False] by auto
qed

interpretation id_log: live_log "example_id_sync_follower en" pid "id_disk en pid" "id_ctx en pid"
  "id_fits pid" content_rows content_first for en :: "int \<Rightarrow> 'v id_dumper_env" and pid
proof (unfold_locales, goal_cases)
  case (1 D H c)
  then show ?case using id_new_run [OF 1(1)] by auto
next
  case (2 c H P)
  then show ?case
    by (elim id_ctxE) (auto simp: id_disk_def id_inv_def ids_stored_iff simp del: all_rows_filter)
next
  case (3 c H P)
  then show ?case by (elim id_ctxE) (simp add: id_inv_lengths(1))
next
  case (4 c H P)
  then obtain i d F0 acc F j where c: "c = (i, d)" "id_env_ok (en pid) pid" "id_inv (en pid) F0 acc F j d"
      "H = all_rows (concat F)" "P = all_rows (id_fly_batch d)"
    by (rule id_ctxE)
  have "id_ctx en pid (i, noted (en pid) d) H P"
    using id_ctxI [where en = en, OF c(2) noted_inv [OF c(3)], of i] c(4,5) by simp
  then show ?case using c(1,4) by (simp add: on_dumper_def id_dumped_run [OF c(3)])
next
  case (5 c m)
  then show ?case by (simp add: id_fits_def)
next
  case (6 c H P m)
  then obtain i d F0 acc F j where c: "c = (i, d)" "id_env_ok (en pid) pid" "id_inv (en pid) F0 acc F j d"
      "H = all_rows (concat F)" "P = all_rows (id_fly_batch d)"
    by (elim id_ctxE)
  obtain b where b: "m = Packed_ids b" "pk_partition_id b = pid" using 6(2) by (rule id_fitsE)
  have n: "id_next_index d = int (length H + length P)" using id_inv_lengths(1) [OF c(3)] c(4,5) by simp
  let ?d = "d\<lparr>id_fly_batch := id_fly_batch d @ [b],
    id_next_index := pk_begin_index b + int (pk_example_id_num b)\<rparr>"
  have "id_ctx en pid (i, ?d) H (P @ content_rows m)" if "content_first m = int (length H + length P)"
  proof -
    have "id_inv (en pid) F0 (acc @ [b]) F j ?d" using id_inv_added [OF c(3)] that b(1) n by simp
    from id_ctxI [where en = en, OF c(2) this, of i] show ?thesis using b(1) c(4,5) by simp
  qed
  moreover have "length (batch_rows b) = pk_example_id_num b" by (simp add: batch_rows_def)
  ultimately show ?case using b c(1,2) n
    by (intro exI [of _ "(i, ?d)"])
      (auto simp: on_dumper_def add_example_id_batch_def sx_bind_def sx_assert_def id_env_ok_def)
next
  case (7 c H P)
  then obtain i d F0 acc F j where c: "c = (i, d)" "id_env_ok (en pid) pid" "id_inv (en pid) F0 acc F j d"
      "H = all_rows (concat F)" "P = all_rows (id_fly_batch d)"
    by (rule id_ctxE)
  have "id_inv (en pid) F0 acc F j (id_sync_finish d)" using c(3) by (simp add: id_sync_finish_def)
  from id_ctxI [where en = en, OF c(2) this, of i] show ?case using c by (simp add: id_sync_finish_def)
next
  case (8 c H P t)
  then show ?case by (elim id_ctxE) (auto simp: id_need_dump_def split: if_splits)
next
  case (9 c H P h)
  then show ?case using id_dump_run [OF 9, of h] by (cases c) (auto split: prod.splits)
next
  case (10 D H)
  then show ?case using id_new_run by blast
qed

section \<open>The data blocks of a partition as a log\<close>

text \<open>A row is the meta of a block, with its id. The raw data that is there is \<open>files\<close>.\<close>

definition block_disk ::
    "(int \<Rightarrow> ('r, 'v) dumper_env) \<Rightarrow> (nat \<Rightarrow> 'r block_item list) \<Rightarrow> (nat \<Rightarrow> string) \<Rightarrow> int \<Rightarrow>
     ('r, 'v) block_stores \<Rightarrow> data_block_meta list \<Rightarrow> bool" where
  "block_disk en files path pid D H \<longleftrightarrow>
     env_reads (en pid) files path \<and> de_partition (en pid) = pid \<and> int (length H) \<le> 2 ^ 63 \<and>
     (\<exists>N. store_ok (de_manifest (en pid)) pid files path (fst D) \<and>
        published (de_manifest (en pid)) pid (fst D) N \<and> N < ve_depth (de_visitor (en pid))) \<and>
     files_ok (de_block (en pid)) pid (int (length H)) (snd D) \<and>
     (\<forall>i < length H. block_published (de_block (en pid)) pid (snd D) (int i) (H ! i))"

definition block_ctx ::
    "(int \<Rightarrow> ('r, 'v) dumper_env) \<Rightarrow> (nat \<Rightarrow> 'r block_item list) \<Rightarrow> (nat \<Rightarrow> string) \<Rightarrow> int \<Rightarrow>
     ('r, 'v) block_dumper \<Rightarrow> data_block_meta list \<Rightarrow> data_block_meta list \<Rightarrow> bool" where
  "block_ctx en files path pid d H P \<longleftrightarrow>
     env_reads (en pid) files path \<and> de_partition (en pid) = pid \<and>
     (\<exists>N n0 acc. N < ve_depth (de_visitor (en pid)) \<and> n0 + int (length acc) \<le> 2 ^ 63 \<and>
        dumper_ok (en pid) files path N n0 acc (int (length H)) d \<and>
        P = map (labelled (de_block (en pid))) (drop (nat (int (length H) - n0)) acc)) \<and>
     (\<forall>i < length H. block_published (de_block (en pid)) pid (bw_fs (bd_world d)) (int i) (H ! i))"

fun block_rows :: "'r block_env \<Rightarrow> sync_content \<Rightarrow> data_block_meta list" where
  "block_rows en (Block_meta m) = [labelled en m]"
| "block_rows en _ = []"

fun block_first :: "sync_content \<Rightarrow> int" where
  "block_first (Block_meta m) = bm_data_block_index m"
| "block_first _ = 0"

text \<open>Block indices have 63 bits; the last of them is left out.\<close>

definition block_fits :: "int \<Rightarrow> ('r, 'v) block_dumper \<Rightarrow> sync_content \<Rightarrow> bool" where
  "block_fits pid d m \<longleftrightarrow> extract_meta_partition m = Inr pid \<and> bd_next_data_block_index d < 2 ^ 63"

lemma block_fitsE: "block_fits pid d m \<Longrightarrow> (\<And>b. m = Block_meta b \<Longrightarrow> bm_partition_id b = pid \<Longrightarrow>
    bd_next_data_block_index d < 2 ^ 63 \<Longrightarrow> R) \<Longrightarrow> R"
  by (cases m) (simp_all add: block_fits_def)

lemma block_impl [simp]:
  "ti_new (sc_impl (example_join_follower en) p) (kv, fs) = new_block_dumper (en p) kv fs"
  "ti_store (sc_impl (example_join_follower en) p) d = (rd_kv (v_manager (bd_visitor d)), bw_fs (bd_world d))"
  "ti_get_next_index (sc_impl (example_join_follower en) p) d = bd_next_data_block_index d"
  "ti_get_dumped_index (sc_impl (example_join_follower en) p) = get_dumped_data_block_index (en p)"
  "ti_add_synced_content (sc_impl (example_join_follower en) p) m = add_synced_data_block_meta (meta_content m)"
  "ti_finish_sync_content (sc_impl (example_join_follower en) p) = finish_sync_data_block_meta"
  "ti_need_dump (sc_impl (example_join_follower en) p) t d = need_dump d"
  "ti_inside (sc_impl (example_join_follower en) p) d = False"
  "ti_dump (sc_impl (example_join_follower en) p) h d = run_dumper (en p) h d"
  "ti_is_sync_content_finished (sc_impl (example_join_follower en) p) d = bd_synced_finished d"
  "sc_partition_of (example_join_follower en) m = extract_meta_partition m"
  by (simp_all add: example_join_follower_def example_join_impl_def)

text \<open>The routine does not touch the mark that the peer has sent everything.\<close>

lemma finish_dump_synced: "finish_dump en ch m k b d = (r, d') \<Longrightarrow> bd_synced_finished d' = bd_synced_finished d"
  by (auto simp: finish_dump_def relabel_head_def on_world_def sx_bind_def sx_assert_def
      split: if_splits prod.splits sum.splits list.splits)

lemma dump_block_synced:
  "dump_data_block_by_meta en ch m d = Some (r, d') \<Longrightarrow> bd_synced_finished d' = bd_synced_finished d"
  by (auto simp: dump_data_block_by_meta_def on_world_def dest!: finish_dump_synced
      split: prod.splits sum.splits option.splits)

lemma dump_loop_synced:
  assumes "dump_data_blocks en ch i d = Some y"
  shows "bd_synced_finished (snd y) = bd_synced_finished d"
proof (rule dump_data_blocks.raw_induct [where P = "\<lambda>en ch i d y. bd_synced_finished (snd y) = bd_synced_finished d",
      OF _ assms], goal_cases)
  case (1 rec en ch i d y)
  show ?case
  proof (cases "need_dump d \<and> get_next_data_block_meta d \<noteq> None")
    case False
    then show ?thesis using 1 by (auto split: if_splits option.splits)
  next
    case True
    then obtain m where m: "need_dump d" "get_next_data_block_meta d = Some m" by blast
    obtain r v where v: "rd_active_visitor (de_manifest en) (de_partition en) (bd_visitor d) = (r, v)" by fastforce
    show ?thesis
    proof (cases r)
      case (Inl e)
      then show ?thesis using 1(2) m v by auto
    next
      case (Inr u)
      then obtain r2 d2 where d2: "dump_data_block_by_meta en (ch i) m (d\<lparr>bd_visitor := v\<rparr>) = Some (r2, d2)"
        using 1(2) m v by (auto split: option.splits)
      have s2: "bd_synced_finished d2 = bd_synced_finished d" using dump_block_synced [OF d2] by simp
      show ?thesis
      proof (cases r2)
        case (Inl e)
        then have "y = (Inl e, d2)" using 1(2) m v \<open>r = Inr u\<close> d2 by simp
        then show ?thesis using s2 by simp
      next
        case (Inr u2)
        then have "rec en ch (Suc i) d2 = Some y" using 1(2) m v \<open>r = Inr u\<close> d2 by simp
        then show ?thesis using 1(1) [of en ch "Suc i" d2 y] s2 by simp
      qed
    qed
  qed
qed

lemma run_dumper_synced:
  assumes "run_dumper en ch d = Some (r, d')"
  shows "bd_synced_finished d' = bd_synced_finished d"
proof -
  obtain r1 d1 where d1: "sync_with_data_block_manager en d = (r1, d1)" by fastforce
  then have s1: "bd_synced_finished d1 = bd_synced_finished d"
    by (auto simp: sync_with_data_block_manager_def evict_dumped_data_block_meta_def on_world_def sx_bind_def
        split: if_splits prod.splits sum.splits)
  show ?thesis
  proof (cases r1)
    case (Inl e)
    then show ?thesis using assms d1 s1 by (simp add: run_dumper_def)
  next
    case (Inr u)
    then obtain r2 d2 where d2: "dump_data_blocks en ch 0 (d1\<lparr>bd_state_stale := True\<rparr>) = Some (r2, d2)"
      using assms d1 by (auto simp: run_dumper_def split: option.splits)
    have "bd_synced_finished d2 = bd_synced_finished d1" using dump_loop_synced [OF d2] by simp
    then show ?thesis using assms d1 s1 d2 Inr by (cases r2) (auto simp: run_dumper_def)
  qed
qed

lemma block_queue:
  assumes "dumper_ok en files path N n0 acc n d"
  shows "0 \<le> n0" "n0 \<le> n" "n \<le> n0 + int (length acc)" "nat (n - n0) \<le> length acc"
    "bd_next_data_block_index d = n0 + int (length acc)"
    "bd_fly_data_block_meta d = [] \<Longrightarrow> drop (nat (n - n0)) acc = []"
proof -
  have iv: "dumper_inv en files path N n0 acc n d" using assms by (simp add: dumper_ok_def)
  show n: "0 \<le> n0" "n0 \<le> n" "n \<le> n0 + int (length acc)" "bd_next_data_block_index d = n0 + int (length acc)"
    using iv by (simp_all add: dumper_inv_def)
  show j: "nat (n - n0) \<le> length acc" using n(3) by simp
  assume fly: "bd_fly_data_block_meta d = []"
  obtain j where "queued en acc j d" "j \<le> nat (n - n0)"
    using assms by (auto simp: dumper_ok_def aligned_def trailing_def split: if_splits)
  then show "drop (nat (n - n0)) acc = []" using queued_Nil [of en acc j d] fly by simp
qed

lemma dumper_ok_synced:
  "dumper_ok en files path N n0 acc n (d\<lparr>bd_synced_finished := b\<rparr>) = dumper_ok en files path N n0 acc n d"
  by (simp add: dumper_ok_def dumper_inv_def aligned_def trailing_def queued_def)

lemma block_ctxI:
  assumes "env_reads (en pid) files path" "de_partition (en pid) = pid" "N < ve_depth (de_visitor (en pid))"
    and "n0 + int (length acc) \<le> 2 ^ 63" "dumper_ok (en pid) files path N n0 acc (int (length H)) d"
    and "\<forall>i < length H. block_published (de_block (en pid)) pid (bw_fs (bd_world d)) (int i) (H ! i)"
  shows "block_ctx en files path pid d H (map (labelled (de_block (en pid))) (drop (nat (int (length H) - n0)) acc))"
  unfolding block_ctx_def using assms by blast

lemma block_ctxE:
  assumes "block_ctx en files path pid d H P"
  obtains N n0 acc where "env_reads (en pid) files path" "de_partition (en pid) = pid"
    "N < ve_depth (de_visitor (en pid))" "n0 + int (length acc) \<le> 2 ^ 63"
    "dumper_ok (en pid) files path N n0 acc (int (length H)) d"
    "P = map (labelled (de_block (en pid))) (drop (nat (int (length H) - n0)) acc)"
    "\<forall>i < length H. block_published (de_block (en pid)) pid (bw_fs (bd_world d)) (int i) (H ! i)"
  using assms unfolding block_ctx_def by blast

lemma block_total:
  assumes "dumper_ok en files path N n0 acc (int n) d"
  shows "n0 + int (length acc) = int (n + length (map f (drop (nat (int n - n0)) acc)))"
  using block_queue(1-4) [OF assms] by simp

lemma block_dump_run:
  assumes "block_ctx en files path pid d H P"
  shows "\<exists>r d' k. run_dumper (en pid) h d = Some (r, d') \<and>
    block_ctx en files path pid d' (H @ take k P) (drop k P) \<and> bd_synced_finished d' = bd_synced_finished d"
proof -
  let ?l = "labelled (de_block (en pid))"
  obtain N n0 acc where c: "env_reads (en pid) files path" "de_partition (en pid) = pid"
    "N < ve_depth (de_visitor (en pid))" "n0 + int (length acc) \<le> 2 ^ 63"
    "dumper_ok (en pid) files path N n0 acc (int (length H)) d"
    "P = map ?l (drop (nat (int (length H) - n0)) acc)"
    "\<forall>i < length H. block_published (de_block (en pid)) pid (bw_fs (bd_world d)) (int i) (H ! i)"
    using assms by (rule block_ctxE)
  note q = block_queue [OF c(5)]
  obtain r d' n' where r: "run_dumper (en pid) h d = Some (r, d')" "dumper_ok (en pid) files path N n0 acc n' d'"
      "int (length H) \<le> n'" "blocks_kept (en pid) (int (length H)) d d'"
    using session_ok [OF c(1,3,5), of h] q(3) c(4) by auto
  note q' = block_queue [OF r(2)]
  let ?j = "nat (int (length H) - n0)" and ?k = "nat n' - length H"
  let ?H = "H @ take ?k P"
  have k: "?j + ?k = nat (n' - n0)" using q(1,2) q'(2) r(3) by linarith
  have lP: "length P = length acc - ?j" using c(6) by simp
  have k_le: "?k \<le> length P" using k lP q'(4) by linarith
  then have n': "n' = int (length ?H)" using r(3) by simp
  have pub: "block_published (de_block (en pid)) pid (bw_fs (bd_world d')) (int i) (?H ! i)" if i: "i < length ?H" for i
  proof (cases "i < length H")
    case True
    then show ?thesis using c(2,7) published_kept [OF r(4), of "int i" "H ! i"] by (simp add: nth_append)
  next
    case False
    let ?i = "i - length H"
    have "?i < ?k" using False i k_le by simp
    then have "?H ! i = ?l (acc ! (?j + ?i))" using False c(6) lP k_le by (simp add: nth_append)
    moreover have "dumper_inv (en pid) files path N n0 acc n' d'" using r(2) by (simp add: dumper_ok_def)
    moreover have "n0 + int (?j + ?i) = int i" using q(1,2) False by simp
    moreover have "int i < n'" using i n' by simp
    ultimately show ?thesis unfolding dumper_inv_def c(2) by metis
  qed
  have "?k + ?j = nat (n' - n0)" using k by simp
  then have "drop ?k P = map ?l (drop (nat (n' - n0)) acc)" unfolding c(6) drop_map drop_drop by simp
  then have "drop ?k P = map ?l (drop (nat (int (length ?H) - n0)) acc)"
    by (simp only: n' [symmetric])
  then have "block_ctx en files path pid d' ?H (drop ?k P)"
    using block_ctxI [where en = en, OF c(1-4), of ?H d'] r(2) pub n' by simp
  then show ?thesis using r(1) run_dumper_synced [OF r(1)] by blast
qed

lemma block_add_run:
  assumes x: "block_ctx en files path pid d H P"
    and m: "bm_data_block_index m = int (length H + length P)" "bd_next_data_block_index d < 2 ^ 63"
  shows "block_ctx en files path pid (d\<lparr>bd_fly_data_block_meta := bd_fly_data_block_meta d @ [m],
      bd_next_data_block_index := bd_next_data_block_index d + 1\<rparr>) H (P @ [labelled (de_block (en pid)) m])"
proof -
  let ?l = "labelled (de_block (en pid))"
  let ?d = "d\<lparr>bd_fly_data_block_meta := bd_fly_data_block_meta d @ [m],
      bd_next_data_block_index := bd_next_data_block_index d + 1\<rparr>"
  obtain N n0 acc where c: "env_reads (en pid) files path" "de_partition (en pid) = pid"
    "N < ve_depth (de_visitor (en pid))" "n0 + int (length acc) \<le> 2 ^ 63"
    "dumper_ok (en pid) files path N n0 acc (int (length H)) d"
    "P = map ?l (drop (nat (int (length H) - n0)) acc)"
    "\<forall>i < length H. block_published (de_block (en pid)) pid (bw_fs (bd_world d)) (int i) (H ! i)"
    using x by (rule block_ctxE)
  note q = block_queue [OF c(5)]
  have "int (length H + length P) = n0 + int (length acc)"
    using block_total [OF c(5), of ?l] c(6) by simp
  then have "bd_next_data_block_index d = bm_data_block_index m" using q(5) m(1) by simp
  from accept_ok [OF c(5) refl this]
  have "dumper_ok (en pid) files path N n0 (acc @ [m]) (int (length H)) ?d" .
  moreover have "n0 + int (length (acc @ [m])) \<le> 2 ^ 63" using q(5) m(2) by simp
  moreover have "\<forall>i < length H. block_published (de_block (en pid)) pid (bw_fs (bd_world ?d)) (int i) (H ! i)"
    using c(7) by simp
  ultimately have "block_ctx en files path pid ?d H (map ?l (drop (nat (int (length H) - n0)) (acc @ [m])))"
    using block_ctxI [where en = en and acc = "acc @ [m]", OF c(1-3)] by blast
  moreover have "map ?l (drop (nat (int (length H) - n0)) (acc @ [m])) = P @ [?l m]" using c(6) q(4) by simp
  ultimately show ?thesis by simp
qed

lemma block_dumped_run:
  assumes "block_ctx en files path pid d H P"
  shows "\<exists>d'. get_dumped_data_block_index (en pid) d = (Inr (int (length H) - 1), d') \<and>
    block_ctx en files path pid d' H P \<and> bd_synced_finished d' = bd_synced_finished d"
proof -
  obtain N n0 acc where c: "env_reads (en pid) files path" "de_partition (en pid) = pid"
    "N < ve_depth (de_visitor (en pid))" "n0 + int (length acc) \<le> 2 ^ 63"
    "dumper_ok (en pid) files path N n0 acc (int (length H)) d"
    "P = map (labelled (de_block (en pid))) (drop (nat (int (length H) - n0)) acc)"
    "\<forall>i < length H. block_published (de_block (en pid)) pid (bw_fs (bd_world d)) (int i) (H ! i)"
    using assms by (rule block_ctxE)
  let ?d = "d\<lparr>bd_world := (bd_world d)\<lparr>bw_dumped_index := Some (int (length H) - 1), bw_dumping_index := None\<rparr>\<rparr>"
  have iv: "dumper_inv (en pid) files path N n0 acc (int (length H)) d" using c(5) by (simp add: dumper_ok_def)
  have n: "int (length H) \<le> 2 ^ 63 + 1" using block_queue(3) [OF c(5)] c(4) by simp
  have "blocks_ok (de_block (en pid)) (de_partition (en pid)) (int (length H)) (bd_world d)"
    using iv by (simp add: dumper_inv_def)
  from count_on_world [OF this n]
  have "get_dumped_data_block_index (en pid) d = (Inr (int (length H) - 1), ?d)"
    by (simp add: get_dumped_data_block_index_def sx_bind_def)
  moreover have "dumper_ok (en pid) files path N n0 acc (int (length H)) ?d"
    using c(5) dumper_inv_synced [OF iv]
    by (auto simp: dumper_ok_def aligned_def trailing_def queued_def split: if_splits)
  ultimately show ?thesis using block_ctxI [where en = en, OF c(1-4), of H ?d] c(6,7) by simp
qed

interpretation block_log: append_log "example_join_follower en" pid "block_disk en files path pid"
  "block_ctx en files path pid" "block_fits pid" "block_rows (de_block (en pid))" block_first
  for en :: "int \<Rightarrow> ('r, 'v) dumper_env" and files path pid
proof (unfold_locales, goal_cases)
  case (1 D H d)
  obtain kv fs where D: "D = (kv, fs)" by fastforce
  obtain N where N: "env_reads (en pid) files path" "de_partition (en pid) = pid" "int (length H) \<le> 2 ^ 63"
      "store_ok (de_manifest (en pid)) pid files path kv" "published (de_manifest (en pid)) pid kv N"
      "N < ve_depth (de_visitor (en pid))" "files_ok (de_block (en pid)) pid (int (length H)) fs"
      "\<forall>i < length H. block_published (de_block (en pid)) pid fs (int i) (H ! i)"
    using 1(1) D by (auto simp: block_disk_def)
  have new: "new_block_dumper (en pid) kv fs = Inr d" using 1(2) D by simp
  have "dumper_ok (en pid) files path N (int (length H)) [] (int (length H)) d \<and> bw_fs (bd_world d) = fs"
    using new_dumper_ok [where en = "en pid" and n = "int (length H)" and files = files, OF _ _ _ _ new] N by simp
  moreover have "\<not> bd_synced_finished d"
  proof -
    obtain v :: "('r block_item, 'v rd_manager) visitor"
      where "new_raw_data_visitor (de_manifest (en pid)) (de_partition (en pid)) kv = Inr v"
    proof (cases "new_raw_data_visitor (de_manifest (en pid)) (de_partition (en pid)) kv ::
        ('r block_item, 'v rd_manager) visitor result")
      case (Inl e)
      then show ?thesis using new by (simp add: new_block_dumper_def split: prod.splits sum.splits)
    qed
    from new_dumper_exists [OF _ _ this, of "int (length H)" fs] show ?thesis using new N(2,3,7) by auto
  qed
  ultimately show ?case using block_ctxI [where en = en and acc = "[]", OF N(1,2,6), of "int (length H)" H d] N(3,8)
    by simp
next
  case (2 d H P)
  then obtain N n0 acc where c: "env_reads (en pid) files path" "de_partition (en pid) = pid"
      "N < ve_depth (de_visitor (en pid))" "n0 + int (length acc) \<le> 2 ^ 63"
      "dumper_ok (en pid) files path N n0 acc (int (length H)) d"
      "\<forall>i < length H. block_published (de_block (en pid)) pid (bw_fs (bd_world d)) (int i) (H ! i)"
    by (rule block_ctxE)
  then have iv: "dumper_inv (en pid) files path N n0 acc (int (length H)) d" by (simp add: dumper_ok_def)
  then have "store_ok (de_manifest (en pid)) pid files path (rd_kv (v_manager (bd_visitor d)))"
    "published (de_manifest (en pid)) pid (rd_kv (v_manager (bd_visitor d))) N"
    using c(2) by (auto simp: dumper_inv_def reads_def tracks_def visits_def rd_handed_def)
  moreover have "files_ok (de_block (en pid)) pid (int (length H)) (bw_fs (bd_world d))"
    using iv c(2) by (simp add: dumper_inv_def blocks_ok_def)
  moreover have "int (length H) \<le> 2 ^ 63" using block_queue(3) [OF c(5)] c(4) by simp
  ultimately show ?case using c by (auto simp: block_disk_def)
next
  case (3 d H P)
  then show ?case by (elim block_ctxE) (metis block_impl(3) block_queue(5) block_total)
next
  case (4 d H P)
  then show ?case using block_dumped_run by simp
next
  case (5 d m)
  then show ?case by (simp add: block_fits_def)
next
  case (6 d H P m)
  obtain b where b: "m = Block_meta b" "bd_next_data_block_index d < 2 ^ 63" using 6(2) by (rule block_fitsE)
  have n: "bd_next_data_block_index d = int (length H + length P)"
    using 6(1) by (elim block_ctxE) (metis block_queue(5) block_total)
  show ?case using block_add_run [OF 6(1) _ b(2), of b] b n
    by (intro exI [of _ "d\<lparr>bd_fly_data_block_meta := bd_fly_data_block_meta d @ [b],
      bd_next_data_block_index := bd_next_data_block_index d + 1\<rparr>"])
      (auto simp: add_synced_data_block_meta_def sx_bind_def)
next
  case (7 d H P)
  then show ?case
    by (simp add: finish_sync_data_block_meta_def block_ctx_def dumper_ok_synced)
next
  case (8 d H P t)
  then show ?case by (elim block_ctxE) (auto simp: need_dump_def dest: block_queue(6))
next
  case (9 d H P h)
  then show ?case using block_dump_run by simp
qed

end
