(* ===== verification/Join_Worker.thy ===== *)
theory Join_Worker
  imports Transmit_Logs Join_Master
begin

text \<open>
  The service that receives a transmission (the handlers of \<open>DataJoinWorker\<close> in
  \<open>data_join/data_join_worker.py\<close>). A worker passes the calls of its peer to its follower and
  asks the master of its own side whether the partition is finished, to allocate it and to
  mark it as finished.

  The calls to the master are a record of functions over the master's state; the handlers of
  \<open>Join_Master\<close> are the instance, each behind a network that may lose the call or its
  answer. What the worker relies on is the locale \<open>open_partition\<close>: the master calls a partition
  finished only when it has been marked. A handler that raises is a failed call for the peer.
\<close>

section \<open>Calls that may fail\<close>

datatype rpc_fate = Answered | Answer_lost | Call_lost

definition rpc :: "rpc_fate \<Rightarrow> ('s, 'a) sx \<Rightarrow> ('s, 'a) sx" where
  "rpc fate h s =
     (case fate of
        Call_lost \<Rightarrow> (Inl RuntimeError, s)
      | Answer_lost \<Rightarrow> (Inl RuntimeError, snd (h s))
      | Answered \<Rightarrow> (case h s of (Inl e, s) \<Rightarrow> (Inl RuntimeError, s) | (Inr a, s) \<Rightarrow> (Inr a, s)))"

lemma rpc_state: "rpc fate h s = (r, s') \<Longrightarrow> s' = s \<or> s' = snd (h s)"
  by (auto simp: rpc_def split: rpc_fate.splits prod.splits sum.splits)

lemma rpc_answer: "rpc fate h s = (Inr a, s') \<Longrightarrow> h s = (Inr a, s')"
  by (auto simp: rpc_def split: rpc_fate.splits prod.splits sum.splits)

lemma rpc_error: "rpc fate h s = (Inl e, s') \<Longrightarrow> e = RuntimeError"
  by (auto simp: rpc_def split: rpc_fate.splits prod.splits sum.splits)

lemma rpc_keeps: "sx_keeps I h \<Longrightarrow> sx_keeps I (rpc fate h)"
proof -
  assume h: "sx_keeps I h"
  have "I (snd (rpc fate h s))" if "I s" for s
  proof -
    have "snd (rpc fate h s) = s \<or> snd (rpc fate h s) = snd (h s)"
      using rpc_state [of fate h s "fst (rpc fate h s)" "snd (rpc fate h s)"] by simp
    then show ?thesis using h that by (auto simp: sx_keeps_def)
  qed
  then show ?thesis by (simp add: sx_keeps_def)
qed

record 'm master_calls =
  mc_query :: "join_request \<Rightarrow> ('m, manifest) sx"
  mc_request :: "join_request \<Rightarrow> ('m, join_response) sx"
  mc_finish :: "join_request \<Rightarrow> ('m, int) sx"

text \<open>Every call of a handler has its own fate: the query, the request and the mark.\<close>

type_synonym rpc_fates = "rpc_fate \<times> rpc_fate \<times> rpc_fate"

fun join_master_calls ::
    "'v mg_env \<Rightarrow> data_source_meta \<Rightarrow> rpc_fates \<Rightarrow> 'v master master_calls" where
  "join_master_calls en local_meta (query, request, finish) =
     \<lparr>mc_query = (\<lambda>rq. rpc query (query_raw_data_manifest en local_meta rq)),
      mc_request = (\<lambda>rq. rpc request (request_join_partition en local_meta rq)),
      mc_finish = (\<lambda>rq. rpc finish (finish_join_partition en local_meta rq))\<rparr>"

section \<open>The worker\<close>

record ('c, 'd, 'm) worker =
  wk_source :: data_source
  wk_rank_id :: int
  wk_follower :: "('c, 'd) follower"
  wk_master :: 'm

record start_reply =
  sr_code :: int
  sr_next_index :: int
  sr_finished :: bool
  sr_dumped_index :: int

record sync_reply =
  yr_code :: int
  yr_next_index :: int
  yr_dumped_index :: int

record finish_reply =
  fr_code :: int
  fr_finished :: bool
  fr_dumped_index :: int

definition on_receiver :: "(('c, 'd) follower, 'a) sx \<Rightarrow> (('c, 'd, 'm) worker, 'a) sx" where
  "on_receiver g w = (case g (wk_follower w) of (r, f) \<Rightarrow> (r, w\<lparr>wk_follower := f\<rparr>))"

definition on_master :: "('m, 'a) sx \<Rightarrow> (('c, 'd, 'm) worker, 'a) sx" where
  "on_master g w = (case g (wk_master w) of (r, m) \<Rightarrow> (r, w\<lparr>wk_master := m\<rparr>))"

definition check_request :: "data_source_meta \<Rightarrow> int \<Rightarrow> int \<Rightarrow> ('c, 'd, 'm) worker \<Rightarrow> int" where
  "check_request remote_meta remote_rank_id pid w =
     (if remote_meta \<noteq> ds_meta (wk_source w) then - 1
      else if remote_rank_id \<noteq> wk_rank_id w then - 2
      else if pid < 0 \<or> dm_partition_num (ds_meta (wk_source w)) < pid then - 3
      else 0)"

definition worker_raw_data_request :: "int \<Rightarrow> ('c, 'd, 'm) worker \<Rightarrow> join_request" where
  "worker_raw_data_request pid w =
     \<lparr>rq_meta = ds_meta (wk_source w), rq_rank_id = wk_rank_id w, rq_partition_id = pid,
      rq_msg = (if ds_is_leader (wk_source w) then Join_example else Sync_example_id)\<rparr>"

definition partition_done :: "bool \<Rightarrow> manifest \<Rightarrow> bool" where
  "partition_done is_leader m \<longleftrightarrow>
     (if is_leader then rp_state (mf_join_example_rep m) = Joined
      else rp_state (mf_sync_example_id_rep m) = Synced)"

definition is_partition_finished :: "'m master_calls \<Rightarrow> int \<Rightarrow> (('c, 'd, 'm) worker, bool) sx" where
  "is_partition_finished M pid = sx_bind sx_get (\<lambda>w.
     sx_bind (on_master (mc_query M \<lparr>rq_meta = ds_meta (wk_source w), rq_rank_id = wk_rank_id w,
       rq_partition_id = pid, rq_msg = No_msg\<rparr>)) (\<lambda>m.
     sx_bind (sx_assert (mf_partition_id m = pid)) (\<lambda>_.
     sx_return (partition_done (ds_is_leader (wk_source w)) m))))"

definition trigger_allocate_partition :: "'m master_calls \<Rightarrow> int \<Rightarrow> (('c, 'd, 'm) worker, join_response) sx" where
  "trigger_allocate_partition M pid = sx_bind sx_get (\<lambda>w.
     on_master (mc_request M (worker_raw_data_request pid w)))"

definition mark_manifest_finished :: "'m master_calls \<Rightarrow> int \<Rightarrow> (('c, 'd, 'm) worker, int) sx" where
  "mark_manifest_finished M pid = sx_bind sx_get (\<lambda>w.
     on_master (mc_finish M (worker_raw_data_request pid w)))"

text \<open>The handlers. A status code that has been set is not overwritten by a code 0 that is merged into it.\<close>

definition StartPartition ::
    "('c, 'd, 'h) sync_class \<Rightarrow> 'm master_calls \<Rightarrow> data_source_meta \<Rightarrow> int \<Rightarrow> int \<Rightarrow>
     (('c, 'd, 'm) worker, start_reply) sx" where
  "StartPartition K M meta rank_id pid = sx_bind sx_get (\<lambda>w.
     let failed = (\<lambda>code. sx_return \<lparr>sr_code = code, sr_next_index = 0, sr_finished = False, sr_dumped_index = 0\<rparr>);
         check = check_request meta rank_id pid w
     in if check \<noteq> 0 then failed check
        else sx_bind (is_partition_finished M pid) (\<lambda>finished.
             if finished
             then sx_return \<lparr>sr_code = 0, sr_next_index = 0, sr_finished = True, sr_dumped_index = 0\<rparr>
             else sx_bind (case get_processing_partition_id (wk_follower w) of
                     None \<Rightarrow> sx_bind (trigger_allocate_partition M pid) (\<lambda>rsp.
                       sx_return (if rs_code rsp = 0 \<and> rs_manifest rsp = None then - 4 else rs_code rsp))
                   | Some p \<Rightarrow> sx_return (if pid \<noteq> p then - 5 else 0)) (\<lambda>code.
                  if code \<noteq> 0 then failed code
                  else sx_bind (on_receiver (start_sync_partition K pid)) (\<lambda>(next_index, dumped_index).
                       sx_return \<lparr>sr_code = 0, sr_next_index = next_index, sr_finished = False,
                         sr_dumped_index = dumped_index\<rparr>))))"

definition SyncPartition ::
    "('c, 'd, 'h) sync_class \<Rightarrow> data_source_meta \<Rightarrow> int \<Rightarrow> int \<Rightarrow> sync_content \<Rightarrow>
     (('c, 'd, 'm) worker, sync_reply) sx" where
  "SyncPartition K meta rank_id pid content = sx_bind sx_get (\<lambda>w.
     let check = check_request meta rank_id pid w
     in if check \<noteq> 0 then sx_return \<lparr>yr_code = check, yr_next_index = 0, yr_dumped_index = 0\<rparr>
        else sx_bind (on_receiver (add_synced_item K content)) (\<lambda>(filled, next_index, dumped_index).
             sx_return \<lparr>yr_code = (if filled then 0 else - 4), yr_next_index = next_index,
               yr_dumped_index = dumped_index\<rparr>))"

definition FinishPartition ::
    "('c, 'd, 'h) sync_class \<Rightarrow> 'm master_calls \<Rightarrow> rat \<Rightarrow> rat \<Rightarrow> data_source_meta \<Rightarrow> int \<Rightarrow> int \<Rightarrow>
     (('c, 'd, 'm) worker, finish_reply) sx" where
  "FinishPartition K M t_finish t_reset meta rank_id pid = sx_bind sx_get (\<lambda>w.
     let check = check_request meta rank_id pid w
     in if check \<noteq> 0 then sx_return \<lparr>fr_code = check, fr_finished = False, fr_dumped_index = 0\<rparr>
        else sx_bind (if get_processing_partition_id (wk_follower w) = Some pid
                      then on_receiver (finish_sync_partition K t_finish pid)
                      else sx_bind (is_partition_finished M pid) (\<lambda>finished. sx_return (finished, 0)))
          (\<lambda>(finished, dumped_index).
             if \<not> finished then sx_return \<lparr>fr_code = 0, fr_finished = False, fr_dumped_index = dumped_index\<rparr>
             else sx_bind (mark_manifest_finished M pid) (\<lambda>code.
                  sx_bind (if code = 0 then on_receiver (reset_partition K t_reset pid) else sx_return ()) (\<lambda>_.
                  sx_return \<lparr>fr_code = code, fr_finished = True, fr_dumped_index = dumped_index\<rparr>))))"

text \<open>\<open>start\<close> and \<open>stop\<close>, as far as the receiving side goes, and a process that takes the place of another.\<close>

definition start_worker :: "(('c, 'd, 'm) worker, unit) sx" where
  "start_worker = on_receiver start_dump_worker"

definition stop_worker :: "('c, 'd, 'm) worker \<Rightarrow> ('c, 'd, 'm) worker" where
  "stop_worker w = w\<lparr>wk_follower := stop_dump_worker (wk_follower w)\<rparr>"

definition restart_worker :: "('c, 'd, 'h) sync_class \<Rightarrow> ('c, 'd, 'm) worker \<Rightarrow> ('c, 'd, 'm) worker" where
  "restart_worker K w = w\<lparr>wk_follower := fresh_follower (follower_stores K (wk_follower w))\<rparr>"

section \<open>The contract of the master\<close>

text \<open>Until a partition is marked as finished, the master does not call it finished.\<close>

locale open_partition =
  fixes M :: "'n \<Rightarrow> 'm master_calls"
    and is_leader :: bool
    and pid :: int
    and still_open :: "'m \<Rightarrow> bool"
  assumes query: "still_open m \<Longrightarrow> mc_query (M n) rq m = (r, m') \<Longrightarrow> rq_partition_id rq = pid \<Longrightarrow>
      still_open m' \<and> (\<forall>mf. r = Inr mf \<longrightarrow> \<not> partition_done is_leader mf)"
    and request: "still_open m \<Longrightarrow> mc_request (M n) rq m = (a, m') \<Longrightarrow>
      rq_msg rq = (if is_leader then Join_example else Sync_example_id) \<Longrightarrow> still_open m'"

section \<open>The masters of the model\<close>

definition manifest_open :: "bool \<Rightarrow> int \<Rightarrow> int \<Rightarrow> manifest \<Rightarrow> bool" where
  "manifest_open is_leader pid q m \<longleftrightarrow>
     mf_partition_id m = q \<and> (q = pid \<longrightarrow> \<not> partition_done is_leader m)"

text \<open>Neither the store nor the cache of the manifest manager has the partition as finished.\<close>

definition unfinished :: "'v mg_env \<Rightarrow> bool \<Rightarrow> int \<Rightarrow> 'v manager \<Rightarrow> bool" where
  "unfinished en is_leader pid s \<longleftrightarrow> codec_ok (en_codec en) \<and>
     (\<forall>q. pred_option (manifest_open is_leader pid q) (get_kv_manifest en q s)) \<and>
     (\<forall>q. pred_option (manifest_open is_leader pid q) (mg_local s q))"

lemma unfinishedD:
  assumes "unfinished en l pid s"
  shows "get_kv_manifest en q s = Some m \<Longrightarrow> manifest_open l pid q m"
    "mg_local s q = Some m \<Longrightarrow> manifest_open l pid q m"
  using assms by (auto simp: unfinished_def option.pred_set)

lemma unfinished_frame [simp]:
  "unfinished en l pid (s\<lparr>mg_faults := f\<rparr>) = unfinished en l pid s"
  "unfinished en l pid (note_metas p i ms s) = unfinished en l pid s"
  by (simp_all add: unfinished_def get_kv_manifest_def)

lemma set_local_open:
  "pred_option (manifest_open l pid p) mo \<Longrightarrow> sx_keeps (unfinished en l pid) (set_local p mo)"
  unfolding set_local_def by (rule sx_keeps_modify) (auto simp: unfinished_def get_kv_manifest_def)

lemma kv_set_open:
  assumes "manifest_open l pid p m"
  shows "sx_keeps (unfinished en l pid) (kv_set (manifest_key en p) (print_manifest (en_codec en) m))"
proof -
  have "unfinished en l pid (s\<lparr>mg_kv := AList.update (manifest_key en p) (print_manifest (en_codec en) m) (mg_kv s),
      mg_faults := f\<rparr>)" if s: "unfinished en l pid s" for s f
  proof -
    have "parse_manifest (en_codec en) (print_manifest (en_codec en) m) = m"
      using s by (simp add: unfinished_def codec_ok_def)
    then show ?thesis using s assms
      by (auto simp: unfinished_def get_kv_manifest_def update_conv')
  qed
  then show ?thesis by (auto simp: sx_keeps_def kv_set_eq)
qed

lemma update_open:
  "manifest_open l pid (mf_partition_id m) m \<Longrightarrow> sx_keeps (unfinished en l pid) (update_manifest en m)"
  unfolding update_manifest_def by (intro sx_keeps_bind set_local_open kv_set_open) simp_all

lemma load_open:
  "sx_ok (unfinished en l pid) (load_manifest en p)
     (\<lambda>m s. unfinished en l pid s \<and> manifest_open l pid p m) (unfinished en l pid)"
proof (rule sx_okI)
  have fresh: "manifest_open l pid p (fresh_manifest p)"
    by (simp add: manifest_open_def partition_done_def fresh_manifest_def)
  have keeps: "sx_keeps (unfinished en l pid) (update_manifest en (fresh_manifest p))"
    by (rule update_open) (use fresh in \<open>simp add: manifest_open_def\<close>)
  fix s e s' assume "unfinished en l pid s" "load_manifest en p s = (Inl e, s')"
  then show "unfinished en l pid s'" using sx_keepsD [OF keeps]
    by (auto simp: load_manifest_def sx_bind_def split: option.splits prod.splits sum.splits)
next
  have fresh: "manifest_open l pid p (fresh_manifest p)"
    by (simp add: manifest_open_def partition_done_def fresh_manifest_def)
  have keeps: "sx_keeps (unfinished en l pid) (update_manifest en (fresh_manifest p))"
    by (rule update_open) (use fresh in \<open>simp add: manifest_open_def\<close>)
  fix s m s' assume "unfinished en l pid s" "load_manifest en p s = (Inr m, s')"
  then show "unfinished en l pid s' \<and> manifest_open l pid p m" using sx_keepsD [OF keeps] fresh
    by (auto simp: load_manifest_def sx_bind_def dest: unfinishedD(1) split: option.splits prod.splits sum.splits)
qed

lemma process_open:
  assumes m: "manifest_open l pid p m"
  shows "sx_keeps (unfinished en l pid) (process_next_process_index en p m)"
proof -
  have "manifest_open l pid p (m\<lparr>mf_next_process_index := n\<rparr>)" for n
    using m by (auto simp: manifest_open_def partition_done_def split: if_splits)
  then have "sx_keeps (unfinished en l pid) (update_manifest en (m\<lparr>mf_next_process_index := n\<rparr>))" for n
    by (intro update_open) (use m in \<open>simp add: manifest_open_def\<close>)
  moreover have "sx_keeps (unfinished en l pid) (set_local p (Some m))" by (rule set_local_open) (simp add: m)
  moreover have "sx_keeps (unfinished en l pid) (sx_modify (note_metas p i ms))" for i ms
    by (rule sx_keeps_modify) simp
  ultimately show ?thesis unfolding process_next_process_index_def Let_def
    by (intro sx_keeps_bind [OF sx_keeps_assert] sx_keeps_bind [OF sx_keeps_get] sx_keeps_bind sx_keeps_if)
qed

lemma sync_manifest_open: "sx_keeps (unfinished en l pid) (sync_manifest en p)"
proof -
  have "sx_ok (unfinished en l pid) (sx_bind (load_manifest en p) (process_next_process_index en p))
      (\<lambda>_. unfinished en l pid) (unfinished en l pid)"
    using load_open
  proof (rule sx_ok_bind)
    show "sx_ok (\<lambda>s. unfinished en l pid s \<and> manifest_open l pid p m) (process_next_process_index en p m)
        (\<lambda>_. unfinished en l pid) (unfinished en l pid)" for m
      by (rule sx_ok_pure) (use process_open in \<open>simp flip: sx_ok_keeps\<close>)
  qed
  then have "sx_keeps (unfinished en l pid) (sx_bind (load_manifest en p) (process_next_process_index en p))"
    by (simp add: sx_ok_keeps)
  moreover have "sx_keeps (unfinished en l pid) (local_manifest p)"
    by (auto simp: local_manifest_def)
  moreover have "sx_keeps (unfinished en l pid) (sx_bind (case mo of Some _ \<Rightarrow> sx_return () | None \<Rightarrow> g) (\<lambda>_. h))"
    if "sx_keeps (unfinished en l pid) g" "sx_keeps (unfinished en l pid) h" for mo :: "manifest option"
      and g and h :: "('a manager, manifest) sx"
    using that by (intro sx_keeps_bind sx_keeps_option) auto
  ultimately show ?thesis unfolding sync_manifest_def
    by (intro sx_keeps_bind [OF sx_keeps_assert] sx_keeps_bind [OF sx_keeps_get])
qed

lemma sync_manifest_result:
  "sync_manifest en p s = (Inr m, s') \<Longrightarrow> mg_local s' p = Some m"
  by (auto simp: sync_manifest_def local_manifest_def sx_bind_Inr split: option.splits)

lemma synced_open:
  "unfinished en l pid s \<Longrightarrow> sync_manifest en p s = (Inr m, s') \<Longrightarrow> unfinished en l pid s' \<and> manifest_open l pid p m"
  using sx_keepsD [OF sync_manifest_open] sync_manifest_result unfinishedD(2) by metis

lemma alloc_at_open:
  assumes field: "\<And>m. manifest_open l pid p m \<Longrightarrow>
      manifest_open l pid p (snd fd \<lparr>rp_state = target, rp_rank_id = rank\<rparr> m)"
  shows "sx_keeps (unfinished en l pid) (alloc_at en fd src target rank p)"
proof -
  have "unfinished en l pid (snd (alloc_at en fd src target rank p s))" if s: "unfinished en l pid s" for s
  proof (cases "sync_manifest en p s")
    case (Pair r s1)
    then have s1: "unfinished en l pid s1" using s sx_keepsD [OF sync_manifest_open] by blast
    show ?thesis
    proof (cases r)
      case (Inl e)
      then show ?thesis using Pair s1 by (simp add: alloc_at_def sx_bind_def)
    next
      case (Inr m)
      let ?m = "snd fd \<lparr>rp_state = target, rp_rank_id = rank\<rparr> m"
      have m: "manifest_open l pid p m" using synced_open [OF s] Pair Inr by blast
      from field [OF m] have "mf_partition_id ?m = p" "manifest_open l pid p ?m" by (auto simp: manifest_open_def)
      then have "sx_keeps (unfinished en l pid) (update_manifest en ?m)" by (intro update_open) simp
      then have "unfinished en l pid (snd (update_manifest en ?m s1))" using s1 by (simp add: sx_keeps_def)
      then show ?thesis using Pair Inr s1
        by (auto simp: alloc_at_def sx_bind_def Let_def split: prod.split sum.split)
    qed
  qed
  then show ?thesis by (simp add: sx_keeps_def)
qed

lemma search_open: "sx_keeps (unfinished en l pid) (search_partition en fd src target rank ps found)"
  by (induction ps arbitrary: found) (auto simp: Let_def intro!: sync_manifest_open)

lemma alloc_open:
  assumes "\<And>p m. manifest_open l pid p m \<Longrightarrow>
      manifest_open l pid p (snd fd \<lparr>rp_state = target, rp_rank_id = rank\<rparr> m)"
  shows "sx_keeps (unfinished en l pid) (alloc_partition en fd src target rank po)"
  unfolding alloc_partition_def
  by (intro sx_keeps_bind sx_keeps_option search_open alloc_at_open assms) auto

lemma check_partition_open [intro]: "sx_keeps (unfinished en l pid) (check_partition_id en p)"
  by (auto simp: check_partition_id_def)

lemma alloc_sync_open: "sx_keeps (unfinished en False pid) (alloc_sync_exampld_id en rank po)"
  unfolding alloc_sync_exampld_id_def check_opt_partition_def
  by (intro sx_keeps_bind sx_keeps_option alloc_open)
    (auto simp: manifest_open_def partition_done_def sync_field_def)

lemma alloc_join_open: "sx_keeps (unfinished en True pid) (alloc_join_example en rank po)"
  unfolding alloc_join_example_def check_opt_partition_def
  by (intro sx_keeps_bind sx_keeps_option alloc_open)
    (auto simp: manifest_open_def partition_done_def join_field_def)

definition still_open :: "'v mg_env \<Rightarrow> bool \<Rightarrow> int \<Rightarrow> 'v master \<Rightarrow> bool" where
  "still_open en is_leader pid s \<longleftrightarrow> unfinished en is_leader pid (mm_manager s)"

lemma on_manager_open:
  "sx_keeps (unfinished en l pid) g \<Longrightarrow> sx_keeps (still_open en l pid) (on_manager g)"
  by (auto simp: sx_keeps_def still_open_def on_manager_def Let_def split: prod.split)

lemma sync_source_open: "sx_keeps (still_open en l pid) sync_data_source"
  by (auto simp: sync_data_source_def still_open_def sx_keeps_def split: option.split)

lemma request_open:
  assumes "rq_msg rq = (if l then Join_example else Sync_example_id)"
  shows "sx_keeps (still_open en l pid) (request_join_partition en local_meta rq)"
proof -
  have answers: "sx_keeps (still_open en l pid) (case mo of Some m \<Rightarrow> f m | None \<Rightarrow> sx_bind (sx_assert b) (\<lambda>_. g))"
    if "\<And>m. sx_keeps (still_open en l pid) (f m)" "sx_keeps (still_open en l pid) g"
    for mo :: "manifest option" and f b and g :: "('a master, join_response) sx"
    using that by (intro sx_keeps_option) auto
  show ?thesis
  proof (cases l)
    case True
    then show ?thesis using assms answers unfolding request_join_partition_def Let_def
      by (intro sx_keeps_if sx_keeps_bind [OF sync_source_open])
        (auto intro!: sx_keeps_bind [OF on_manager_open [OF alloc_join_open]])
  next
    case False
    then show ?thesis using assms answers unfolding request_join_partition_def Let_def
      by (intro sx_keeps_if sx_keeps_bind [OF sync_source_open])
        (auto intro!: sx_keeps_bind [OF on_manager_open [OF alloc_sync_open]])
  qed
qed

lemma query_open: "sx_keeps (still_open en l pid) (query_raw_data_manifest en local_meta rq)"
  unfolding query_raw_data_manifest_def get_manifest_def check_meta_or_raise_def
  by (auto intro!: on_manager_open sync_manifest_open)

lemma query_answer_open:
  assumes "still_open en l pid s" "query_raw_data_manifest en local_meta rq s = (Inr m, s')"
  shows "manifest_open l pid (rq_partition_id rq) m"
proof -
  obtain s1 where "sync_manifest en (rq_partition_id rq) (mm_manager s) = (Inr m, s1)"
    using assms(2)
    by (auto simp: query_raw_data_manifest_def check_meta_or_raise_def get_manifest_def check_partition_id_def
        on_manager_def sx_bind_def Let_def split: if_splits prod.splits sum.splits)
  with assms(1) show ?thesis using synced_open [of en l pid "mm_manager s"] by (simp add: still_open_def)
qed

interpretation join_masters: open_partition "join_master_calls en local_meta" is_leader pid
  "still_open en is_leader pid" for en local_meta is_leader pid
proof (unfold_locales, goal_cases)
  case (1 m n rq r m')
  obtain query request finish where n: "n = (query, request, finish)" by (cases n)
  have "still_open en is_leader pid m'"
    using sx_keepsD [OF rpc_keeps [OF query_open] 1(1)] 1(2) by (simp add: n)
  moreover have "\<not> partition_done is_leader mf" if "r = Inr mf" for mf
  proof -
    have "query_raw_data_manifest en local_meta rq m = (Inr mf, m')"
      using rpc_answer [of query "query_raw_data_manifest en local_meta rq" m mf m'] 1(2) that
      by (simp add: n)
    from query_answer_open [OF 1(1) this] show ?thesis using 1(3) by (simp add: manifest_open_def)
  qed
  ultimately show ?case by blast
next
  case (2 m n rq a m')
  obtain query request finish where n: "n = (query, request, finish)" by (cases n)
  with 2 show ?case
    using sx_keepsD [OF rpc_keeps [OF request_open [OF 2(3)]] 2(1)] by (simp add: n)
qed

end
