(* ===== verification/Join_Service.thy ===== *)
theory Join_Service
  imports Join_Worker
begin

text \<open>
  The receiving service over time: any sequence of calls, rounds of the dump thread, starts, stops and
  replacements of the process is a run of an abstract log (\<open>log_run\<close>). The locale
  \<open>receiving_worker\<close> joins the contract of the follower with that of the master; the
  receiver of example ids and the receiver of data blocks are its instances.
\<close>

section \<open>A service over time\<close>

text \<open>
  What can happen to a worker, for one partition: a call of the peer, with what the network does to the
  calls that the handler makes itself, a round of the dump thread, \<open>start\<close>, \<open>stop\<close>, and another process that
  takes over.
\<close>

datatype 'h worker_event =
    Start_call rpc_fates data_source_meta int
  | Sync_call data_source_meta int int sync_content
  | Finish_call rpc_fates rat rat data_source_meta int
  | Dump_round rat 'h
  | Worker_starts
  | Worker_stops
  | Worker_restarts

datatype worker_reply =
    Started_reply "start_reply result"
  | Synced_reply "sync_reply result"
  | Finished_reply "finish_reply result"
  | No_reply

fun worker_step ::
    "('c, 'd, 'h) sync_class \<Rightarrow> (rpc_fates \<Rightarrow> 'm master_calls) \<Rightarrow> int \<Rightarrow> 'h worker_event \<Rightarrow>
     ('c, 'd, 'm) worker \<Rightarrow> worker_reply \<times> ('c, 'd, 'm) worker" where
  "worker_step K M pid (Start_call n meta rank_id) w =
     map_prod Started_reply id (StartPartition K (M n) meta rank_id pid w)"
| "worker_step K M pid (Sync_call meta rank_id q content) w =
     map_prod Synced_reply id (SyncPartition K meta rank_id q content w)"
| "worker_step K M pid (Finish_call n t t' meta rank_id) w =
     map_prod Finished_reply id (FinishPartition K (M n) t t' meta rank_id pid w)"
| "worker_step K M pid (Dump_round t h) w =
     (No_reply, case dump_thread K t h (wk_follower w) of None \<Rightarrow> w | Some (_, f) \<Rightarrow> w\<lparr>wk_follower := f\<rparr>)"
| "worker_step K M pid Worker_starts w = (No_reply, snd (start_worker w))"
| "worker_step K M pid Worker_stops w = (No_reply, stop_worker w)"
| "worker_step K M pid Worker_restarts w = (No_reply, restart_worker K w)"

fun run_worker ::
    "('c, 'd, 'h) sync_class \<Rightarrow> (rpc_fates \<Rightarrow> 'm master_calls) \<Rightarrow> int \<Rightarrow> 'h worker_event list \<Rightarrow>
     ('c, 'd, 'm) worker \<Rightarrow> worker_reply list \<times> ('c, 'd, 'm) worker" where
  "run_worker K M pid [] w = ([], w)"
| "run_worker K M pid (e # es) w =
     (case worker_step K M pid e w of (a, w) \<Rightarrow>
      case run_worker K M pid es w of (as, w) \<Rightarrow> (a # as, w))"

text \<open>
  What a peer may rely on: the service is a log with a durable part \<open>H\<close>, a queued part \<open>P\<close> and a flag that
  says that the partition is not finished. The log grows only by items that continue it, only the
  queued part is ever lost, and the flag falls only when nothing is queued. An answer tells the state
  of the log.
\<close>

type_synonym 'x log = "'x list \<times> 'x list \<times> bool"

inductive log_step ::
    "(sync_content \<Rightarrow> 'x list) \<Rightarrow> (sync_content \<Rightarrow> int) \<Rightarrow> 'h worker_event \<Rightarrow> worker_reply \<Rightarrow> 'x log \<Rightarrow> 'x log \<Rightarrow> bool"
  for rows first where
  told: "(\<And>a. r = Inr a \<Longrightarrow> sr_code a = 0 \<Longrightarrow>
      (if sr_finished a then \<not> opn
       else sr_next_index a = int (length H + length P) \<and> sr_dumped_index a = int (length H) - 1)) \<Longrightarrow>
    log_step rows first (Start_call n meta rank_id) (Started_reply r) (H, P, opn) (H, P, opn)"
| taken: "first m = int (length H + length P) \<Longrightarrow>
    (\<And>a. r = Inr a \<Longrightarrow> yr_code a = 0 \<Longrightarrow>
      yr_next_index a = int (length H + length P + length (rows m)) \<and> yr_dumped_index a = int (length H) - 1) \<Longrightarrow>
    log_step rows first (Sync_call meta rank_id q m) (Synced_reply r) (H, P, opn) (H, P @ rows m, opn)"
| refused: "(\<And>a. r = Inr a \<Longrightarrow> yr_code a \<noteq> 0) \<Longrightarrow>
    log_step rows first (Sync_call meta rank_id q m) (Synced_reply r) (H, P, opn) (H, P, opn)"
| finished: "(\<And>a. r = Inr a \<Longrightarrow> fr_finished a \<Longrightarrow> P = []) \<Longrightarrow> (opn \<and> P \<noteq> [] \<Longrightarrow> opn') \<Longrightarrow> (opn' \<Longrightarrow> opn) \<Longrightarrow>
    log_step rows first (Finish_call n t t' meta rank_id) (Finished_reply r) (H, P, opn) (H, P, opn')"
| dumped: "log_step rows first (Dump_round t h) No_reply (H, P, opn) (H @ take k P, drop k P, opn)"
| started: "log_step rows first Worker_starts No_reply (H, P, opn) (H, P, opn)"
| stopped: "log_step rows first Worker_stops No_reply (H, P, opn) (H, P, opn)"
| restarted: "log_step rows first Worker_restarts No_reply (H, P, opn) (H, [], opn)"

inductive log_run ::
    "(sync_content \<Rightarrow> 'x list) \<Rightarrow> (sync_content \<Rightarrow> int) \<Rightarrow> 'h worker_event list \<Rightarrow> worker_reply list \<Rightarrow>
     'x log \<Rightarrow> 'x log \<Rightarrow> bool"
  for rows first where
  log_run_nil: "log_run rows first [] [] l l"
| log_run_cons: "log_step rows first e a l l1 \<Longrightarrow> log_run rows first es as l1 l2 \<Longrightarrow>
    log_run rows first (e # es) (a # as) l l2"

section \<open>A worker that receives\<close>

locale receiving_worker =
  append_log K pid disk ctx fits rows first + open_partition M is_leader pid still_open
  for K :: "('c, 'd, 'h) sync_class" and pid disk ctx fits and rows :: "sync_content \<Rightarrow> 'x list" and first
    and M :: "rpc_fates \<Rightarrow> 'm master_calls" and is_leader still_open
begin

definition serves :: "('c, 'd, 'm) worker \<Rightarrow> 'x list \<Rightarrow> 'x list \<Rightarrow> bool \<Rightarrow> bool" where
  "serves w H P cl \<longleftrightarrow> holds (wk_follower w) H P cl \<and> ds_is_leader (wk_source w) = is_leader"

definition same_service :: "('c, 'd, 'm) worker \<Rightarrow> ('c, 'd, 'm) worker \<Rightarrow> bool" where
  "same_service w w' \<longleftrightarrow> wk_source w' = wk_source w \<and> wk_rank_id w' = wk_rank_id w \<and>
     tf_worker (wk_follower w') = tf_worker (wk_follower w) \<and>
     (still_open (wk_master w) \<longrightarrow> still_open (wk_master w'))"

lemma same_refl [simp]: "same_service w w"
  by (simp add: same_service_def)

lemma finished_run:
  assumes "is_partition_finished (M n) pid w = (r, w')" "serves w H P cl"
  shows "serves w' H P cl" "same_service w w'" "wk_follower w' = wk_follower w"
    "r = Inr True \<Longrightarrow> \<not> still_open (wk_master w)"
proof -
  let ?rq = "\<lparr>rq_meta = ds_meta (wk_source w), rq_rank_id = wk_rank_id w, rq_partition_id = pid, rq_msg = No_msg\<rparr>"
  obtain a m where q: "mc_query (M n) ?rq (wk_master w) = (a, m)" by fastforce
  have w': "w' = w\<lparr>wk_master := m\<rparr>" using assms(1) q
    by (auto simp: is_partition_finished_def on_master_def sx_bind_def sx_assert_def split: sum.splits if_splits)
  then show "serves w' H P cl" "wk_follower w' = wk_follower w" using assms(2) by (simp_all add: serves_def)
  show "same_service w w'" using query [OF _ q] w' by (simp add: same_service_def)
  assume "r = Inr True"
  then obtain mf where "a = Inr mf" "partition_done is_leader mf" using assms q
    by (auto simp: is_partition_finished_def on_master_def sx_bind_def sx_assert_def serves_def
        split: sum.splits if_splits)
  then show "\<not> still_open (wk_master w)" using query [OF _ q] by auto
qed

lemma allocate_run:
  assumes "trigger_allocate_partition (M n) pid w = (r, w')" "serves w H P cl"
  shows "serves w' H P cl" "same_service w w'" "wk_follower w' = wk_follower w"
proof -
  obtain a m where q: "mc_request (M n) (worker_raw_data_request pid w) (wk_master w) = (a, m)" by fastforce
  have w': "w' = w\<lparr>wk_master := m\<rparr>" using assms(1) q
    by (auto simp: trigger_allocate_partition_def on_master_def split: sum.splits)
  then show "serves w' H P cl" "wk_follower w' = wk_follower w" using assms(2) by (simp_all add: serves_def)
  have "rq_msg (worker_raw_data_request pid w) = (if is_leader then Join_example else Sync_example_id)"
    using assms(2) by (simp add: worker_raw_data_request_def serves_def)
  then show "same_service w w'" using request [OF _ q] w' by (simp add: same_service_def)
qed

lemma begin_run:
  assumes "on_receiver (start_sync_partition K pid) w = (r, w')" "serves w H P cl"
  shows "serves w' H P cl" "same_service w w'"
    "r = Inr a \<Longrightarrow> a = (int (length H + length P), int (length H) - 1)"
proof -
  obtain r1 f where f: "start_sync_partition K pid (wk_follower w) = (r1, f)" "holds f H P cl"
      "tf_worker f = tf_worker (wk_follower w)"
      "r1 = Inr (int (length H + length P), int (length H) - 1) \<or> (\<exists>e. r1 = Inl e)"
    using start_run [of "wk_follower w" H P cl] assms(2) by (auto simp: serves_def)
  then have w': "w' = w\<lparr>wk_follower := f\<rparr>" "r = r1" using assms(1) by (simp_all add: on_receiver_def)
  then show "serves w' H P cl" "same_service w w'" using f assms(2) by (simp_all add: serves_def same_service_def)
  show "r = Inr a \<Longrightarrow> a = (int (length H + length P), int (length H) - 1)" using f(4) w'(2) by auto
qed

lemma same_trans: "same_service w w1 \<Longrightarrow> same_service w1 w2 \<Longrightarrow> same_service w w2"
  by (auto simp: same_service_def)

definition serving :: "('c, 'd, 'm) worker \<Rightarrow> 'x list \<Rightarrow> 'x list \<Rightarrow> bool \<Rightarrow> ('c, 'd, 'm) worker \<Rightarrow> bool" where
  "serving w H P cl w' \<longleftrightarrow> serves w' H P cl \<and> same_service w w'"

lemma serving_step:
  "serving w H P cl w1 \<Longrightarrow> serves w2 H P cl \<Longrightarrow> same_service w1 w2 \<Longrightarrow> serving w H P cl w2"
  unfolding serving_def using same_trans by blast

lemma allocate_ok:
  "sx_ok (serving w H P cl) (trigger_allocate_partition (M n) pid) (\<lambda>_. serving w H P cl) (serving w H P cl)"
proof (rule sx_okI)
  fix w1 e w2 assume w1: "serving w H P cl w1" and run: "trigger_allocate_partition (M n) pid w1 = (Inl e, w2)"
  have "serves w1 H P cl" using w1 by (simp add: serving_def)
  from allocate_run(1,2) [OF run this] show "serving w H P cl w2" using serving_step [OF w1] by blast
next
  fix w1 a w2 assume w1: "serving w H P cl w1" and run: "trigger_allocate_partition (M n) pid w1 = (Inr a, w2)"
  have "serves w1 H P cl" using w1 by (simp add: serving_def)
  from allocate_run(1,2) [OF run this] show "serving w H P cl w2" using serving_step [OF w1] by blast
qed

lemma begin_ok:
  "sx_ok (serving w H P cl) (on_receiver (start_sync_partition K pid))
     (\<lambda>a w'. serving w H P cl w' \<and> a = (int (length H + length P), int (length H) - 1)) (serving w H P cl)"
proof (rule sx_okI)
  fix w1 e w2 assume w1: "serving w H P cl w1" and run: "on_receiver (start_sync_partition K pid) w1 = (Inl e, w2)"
  have "serves w1 H P cl" using w1 by (simp add: serving_def)
  from begin_run(1,2) [OF run this] show "serving w H P cl w2" using serving_step [OF w1] by blast
next
  fix w1 a w2 assume w1: "serving w H P cl w1" and run: "on_receiver (start_sync_partition K pid) w1 = (Inr a, w2)"
  have s: "serves w1 H P cl" using w1 by (simp add: serving_def)
  show "serving w H P cl w2 \<and> a = (int (length H + length P), int (length H) - 1)"
    using begin_run(1,2) [OF run s] serving_step [OF w1] begin_run(3) [OF run s refl] by simp
qed

text \<open>An answer that the partition is under way tells the peer where the log ends and how much of it is durable.\<close>

lemma start_handler:
  assumes w: "serves w H P cl"
  shows "sx_ok (\<lambda>w'. w' = w) (StartPartition K (M n) meta rank_id pid)
    (\<lambda>a w'. serving w H P cl w' \<and> (sr_code a = 0 \<longrightarrow>
      (if sr_finished a then \<not> still_open (wk_master w)
       else sr_next_index a = int (length H + length P) \<and> sr_dumped_index a = int (length H) - 1)))
    (serving w H P cl)"
proof -
  let ?I = "serving w H P cl"
  let ?Q = "\<lambda>a w'. ?I w' \<and> (sr_code a = 0 \<longrightarrow>
      (if sr_finished a then \<not> still_open (wk_master w)
       else sr_next_index a = int (length H + length P) \<and> sr_dumped_index a = int (length H) - 1))"
  have failed: "sx_ok ?I (sx_return \<lparr>sr_code = code, sr_next_index = 0, sr_finished = False, sr_dumped_index = 0\<rparr>) ?Q ?I"
    if "code \<noteq> 0" for code using that by (intro sx_ok_return) simp
  have under: "sx_ok ?I (sx_bind (case po of
        None \<Rightarrow> sx_bind (trigger_allocate_partition (M n) pid) (\<lambda>rsp. sx_return (g rsp))
      | Some p \<Rightarrow> sx_return (h p)) (\<lambda>code.
        if code \<noteq> 0
        then sx_return \<lparr>sr_code = code, sr_next_index = 0, sr_finished = False, sr_dumped_index = 0\<rparr>
        else sx_bind (on_receiver (start_sync_partition K pid)) (\<lambda>(next_index, dumped_index).
          sx_return \<lparr>sr_code = 0, sr_next_index = next_index, sr_finished = False, sr_dumped_index = dumped_index\<rparr>)))
      ?Q ?I" for po :: "int option" and g h
  proof (rule sx_ok_bind [where R = "\<lambda>_. ?I"])
    show "sx_ok ?I (case po of
        None \<Rightarrow> sx_bind (trigger_allocate_partition (M n) pid) (\<lambda>rsp. sx_return (g rsp))
      | Some p \<Rightarrow> sx_return (h p)) (\<lambda>_. ?I) ?I"
      by (cases po) (auto intro!: sx_ok_bind [OF allocate_ok] sx_ok_return)
    have "sx_ok ?I (sx_bind (on_receiver (start_sync_partition K pid)) (\<lambda>(next_index, dumped_index).
          sx_return \<lparr>sr_code = 0, sr_next_index = next_index, sr_finished = False, sr_dumped_index = dumped_index\<rparr>))
      ?Q ?I"
      by (rule sx_ok_bind [OF begin_ok]) (auto simp: sx_ok_def split: prod.splits)
    then show "sx_ok ?I (if code \<noteq> 0
        then sx_return \<lparr>sr_code = code, sr_next_index = 0, sr_finished = False, sr_dumped_index = 0\<rparr>
        else sx_bind (on_receiver (start_sync_partition K pid)) (\<lambda>(next_index, dumped_index).
          sx_return \<lparr>sr_code = 0, sr_next_index = next_index, sr_finished = False, sr_dumped_index = dumped_index\<rparr>))
      ?Q ?I" for code
      using failed by simp
  qed
  obtain r1 w1 where fin: "is_partition_finished (M n) pid w = (r1, w1)" by fastforce
  have w0: "?I w" using w by (simp add: serving_def)
  have w1: "?I w1" "r1 = Inr True \<Longrightarrow> \<not> still_open (wk_master w)"
    using finished_run [OF fin w] by (auto simp: serving_def)
  show ?thesis
  proof (cases "check_request meta rank_id pid w = 0")
    case False
    then show ?thesis using w0 by (simp add: StartPartition_def sx_ok_def)
  next
    case True
    show ?thesis
    proof (cases "r1 = Inr False")
      case False
      then show ?thesis using True fin w1
        by (cases r1) (auto simp: StartPartition_def sx_ok_def sx_bind_def)
    next
      case False': True
      then show ?thesis using True fin sx_ok_case [OF under w1(1)]
        by (simp add: StartPartition_def sx_ok_def Let_def sx_bind_def)
    qed
  qed
qed

text \<open>
  An item is taken only at the end of the log, and only before the log was declared complete. The
  partition that the request names is checked only against the number of partitions: the item goes
  where the item says.
\<close>

lemma sync_handler:
  assumes w: "serves w H P cl" and m: "sc_partition_of K m = Inr pid"
      "\<And>c. tf_ctx (wk_follower w) = Some (pid, c) \<Longrightarrow> fits c m"
    and run: "SyncPartition K meta rank_id q m w = (r, w')"
  obtains P' where "serves w' H P' cl" "same_service w w'" "wk_master w' = wk_master w"
    "P' = P \<or> \<not> cl \<and> tf_ctx (wk_follower w) \<noteq> None \<and> first m = int (length H + length P) \<and> P' = P @ rows m"
    "\<forall>a. r = Inr a \<longrightarrow> yr_code a = 0 \<longrightarrow> \<not> cl \<and> P' = P @ rows m \<and> first m = int (length H + length P) \<and>
       yr_next_index a = int (length H + length P') \<and> yr_dumped_index a = int (length H) - 1"
proof (cases "check_request meta rank_id q w = 0")
  case False
  then have "w' = w" "r = Inr \<lparr>yr_code = check_request meta rank_id q w, yr_next_index = 0, yr_dumped_index = 0\<rparr>"
    using run by (auto simp: SyncPartition_def sx_bind_def)
  then show ?thesis using that [of P] w False by auto
next
  case True
  have h: "holds (wk_follower w) H P cl" using w by (simp add: serves_def)
  obtain r1 f' where ad: "add_synced_item K m (wk_follower w) = (r1, f')" "tf_worker f' = tf_worker (wk_follower w)"
      "if tf_ctx (wk_follower w) = None \<or> cl then holds f' H P cl \<and> r1 = Inl RuntimeError
       else if first m \<noteq> int (length H + length P)
       then holds f' H P cl \<and> r1 = Inr (False, int (length H + length P), int (length H) - 1)
       else holds f' H (P @ rows m) cl \<and>
         r1 = (if tf_worker (wk_follower w)
               then Inr (True, int (length H + length P + length (rows m)), int (length H) - 1)
               else Inl AttributeError)"
    using add_run [OF h m] by blast
  have w': "w' = w\<lparr>wk_follower := f'\<rparr>" and r: "r = map_sum id (\<lambda>(filled, next_index, dumped_index).
      \<lparr>yr_code = if filled then 0 else - 4, yr_next_index = next_index, yr_dumped_index = dumped_index\<rparr>) r1"
    using run True ad(1) by (auto simp: SyncPartition_def sx_bind_def on_receiver_def split: sum.splits)
  have keep: "serves w' H Q cl" "same_service w w'" "wk_master w' = wk_master w" if "holds f' H Q cl" for Q
    using that w w' ad(2) by (simp_all add: serves_def same_service_def)
  consider "tf_ctx (wk_follower w) = None \<or> cl"
    | "tf_ctx (wk_follower w) \<noteq> None" "\<not> cl" "first m \<noteq> int (length H + length P)"
    | "tf_ctx (wk_follower w) \<noteq> None" "\<not> cl" "first m = int (length H + length P)" by blast
  then show ?thesis
  proof cases
    case 1
    then show ?thesis using that [of P] keep ad(3) r by auto
  next
    case 2
    then show ?thesis using that [of P] keep ad(3) r by auto
  next
    case 3
    then show ?thesis using that [of "P @ rows m"] keep ad(3) r by (auto split: if_splits)
  qed
qed

lemma mark_run:
  assumes "mark_manifest_finished (M n) pid w = (r, w')"
  shows "\<exists>m. w' = w\<lparr>wk_master := m\<rparr>"
  using assms by (auto simp: mark_manifest_finished_def on_master_def split: prod.splits)

text \<open>
  The partition is marked as finished, and the peer told so, only when nothing is queued: everything
  that was taken is durable.
\<close>

lemma finish_tail:
  assumes w: "serves w H P cl"
    and run: "(if \<not> finished then sx_return \<lparr>fr_code = 0, fr_finished = False, fr_dumped_index = i\<rparr>
      else sx_bind (mark_manifest_finished (M n) pid) (\<lambda>code.
           sx_bind (if code = 0 then on_receiver (reset_partition K t pid) else sx_return ()) (\<lambda>_.
           sx_return \<lparr>fr_code = code, fr_finished = True, fr_dumped_index = i\<rparr>))) w = (r, w')"
  obtains cl' where "serves w' H P cl'" "wk_rank_id w' = wk_rank_id w" "wk_source w' = wk_source w"
    "tf_worker (wk_follower w') = tf_worker (wk_follower w)"
    "\<not> finished \<longrightarrow> wk_master w' = wk_master w"
    "\<forall>a. r = Inr a \<longrightarrow> fr_finished a = finished \<and>
       (finished \<and> fr_code a = 0 \<longrightarrow> P = [] \<and> tf_ctx (wk_follower w') = None)"
proof (cases finished)
  case False
  then show ?thesis using that [of cl] w run by auto
next
  case True
  obtain r1 w1 where mk: "mark_manifest_finished (M n) pid w = (r1, w1)" by fastforce
  obtain m where w1: "w1 = w\<lparr>wk_master := m\<rparr>" using mark_run [OF mk] by blast
  then have h: "holds (wk_follower w1) H P cl" using w by (simp add: serves_def)
  obtain r2 f where rs: "reset_partition K t pid (wk_follower w1) = (r2, f)"
      "tf_worker f = tf_worker (wk_follower w1)"
      "r2 = Inr () \<and> P = [] \<and> holds f H [] False \<and> tf_ctx f = None \<or> r2 = Inl RuntimeError \<and> f = wk_follower w1"
    using reset_run [OF h] by blast
  show ?thesis
  proof (cases "r1 = Inr 0")
    case False
    then have "w' = w1" "\<And>a. r = Inr a \<Longrightarrow> fr_finished a \<and> fr_code a \<noteq> 0"
      using run True mk by (auto simp: sx_bind_def split: sum.splits)
    then show ?thesis using that [of cl] w1 w True by (auto simp: serves_def)
  next
    case ok: True
    then have w': "w' = w1\<lparr>wk_follower := f\<rparr>"
      and r: "\<And>a. r = Inr a \<Longrightarrow> r2 = Inr () \<and> fr_finished a"
      using run True mk rs(1) by (auto simp: sx_bind_def on_receiver_def split: sum.splits)
    have "\<exists>c. holds f H P c" using rs(3) h by auto
    then obtain c where "holds f H P c" ..
    then have s: "serves w' H P c" using w w1 w' by (simp add: serves_def)
    show ?thesis
      by (rule that [OF s]) (use w1 w' rs(2,3) r True in \<open>auto\<close>)
  qed
qed

lemma finish_handler:
  assumes w: "serves w H P cl"
    and run: "FinishPartition K (M n) t_finish t_reset meta rank_id pid w = (r, w')"
  obtains cl' where "serves w' H P cl'" "wk_rank_id w' = wk_rank_id w" "wk_source w' = wk_source w"
    "tf_worker (wk_follower w') = tf_worker (wk_follower w)"
    "still_open (wk_master w) \<longrightarrow> P \<noteq> [] \<longrightarrow> still_open (wk_master w')"
    "\<forall>a. r = Inr a \<longrightarrow> fr_finished a \<longrightarrow> P = [] \<and>
       (tf_ctx (wk_follower w) = None \<longrightarrow> \<not> still_open (wk_master w))"
proof (cases "check_request meta rank_id pid w = 0")
  case False
  then have "w' = w" "\<And>a. r = Inr a \<Longrightarrow> \<not> fr_finished a"
    using run by (auto simp: FinishPartition_def sx_bind_def)
  then show ?thesis using that [of cl] w by auto
next
  case chk: True
  have h: "holds (wk_follower w) H P cl" using w by (simp add: serves_def)
  show ?thesis
  proof (cases "tf_ctx (wk_follower w)")
    case (Some a)
    then have ne: "tf_ctx (wk_follower w) \<noteq> None" and pid: "get_processing_partition_id (wk_follower w) = Some pid"
      using h by (auto simp: holds_def get_processing_partition_id_def)
    obtain need f where f: "finish_sync_partition K t_finish pid (wk_follower w) = (Inr (\<not> need, int (length H) - 1), f)"
        "holds f H P True" "\<not> need \<longrightarrow> P = []" "tf_worker f = tf_worker (wk_follower w)"
      using closing_run [OF h ne] by blast
    let ?w = "w\<lparr>wk_follower := f\<rparr>"
    have s: "serves ?w H P True" using f(2) w by (simp add: serves_def)
    have "(if \<not> (\<not> need) then sx_return \<lparr>fr_code = 0, fr_finished = False, fr_dumped_index = int (length H) - 1\<rparr>
      else sx_bind (mark_manifest_finished (M n) pid) (\<lambda>code.
           sx_bind (if code = 0 then on_receiver (reset_partition K t_reset pid) else sx_return ()) (\<lambda>_.
           sx_return \<lparr>fr_code = code, fr_finished = True, fr_dumped_index = int (length H) - 1\<rparr>))) ?w = (r, w')"
      using run chk pid f(1) by (simp add: FinishPartition_def Let_def sx_bind_def [of _ _ w] on_receiver_def [of _ w])
    from finish_tail [OF s this] obtain c where c: "serves w' H P c" "wk_rank_id w' = wk_rank_id ?w"
      "wk_source w' = wk_source ?w" "tf_worker (wk_follower w') = tf_worker (wk_follower ?w)"
      "\<not> \<not> need \<longrightarrow> wk_master w' = wk_master ?w" "\<forall>a. r = Inr a \<longrightarrow> fr_finished a = (\<not> need) \<and>
       (\<not> need \<and> fr_code a = 0 \<longrightarrow> P = [] \<and> tf_ctx (wk_follower w') = None)" .
    show ?thesis by (rule that [OF c(1)]) (use c f ne in auto)
  next
    case None
    then have empty: "P = []" and pid: "get_processing_partition_id (wk_follower w) \<noteq> Some pid"
      using h by (auto simp: holds_def get_processing_partition_id_def)
    obtain r1 w1 where fin: "is_partition_finished (M n) pid w = (r1, w1)" by fastforce
    note f = finished_run [OF fin w]
    show ?thesis
    proof (cases r1)
      case (Inl e)
      then have "w' = w1" "\<And>a. r \<noteq> Inr a"
        using run chk pid fin by (auto simp: FinishPartition_def sx_bind_def)
      then show ?thesis using that [of cl] f(1,2) empty by (auto simp: same_service_def)
    next
      case (Inr finished)
      then have "(if \<not> finished then sx_return \<lparr>fr_code = 0, fr_finished = False, fr_dumped_index = 0\<rparr>
        else sx_bind (mark_manifest_finished (M n) pid) (\<lambda>code.
             sx_bind (if code = 0 then on_receiver (reset_partition K t_reset pid) else sx_return ()) (\<lambda>_.
             sx_return \<lparr>fr_code = code, fr_finished = True, fr_dumped_index = 0\<rparr>))) w1 = (r, w')"
        using run chk pid fin by (simp add: FinishPartition_def Let_def sx_bind_def [of _ _ w])
      from finish_tail [OF f(1) this] obtain c where c: "serves w' H P c" "wk_rank_id w' = wk_rank_id w1"
        "wk_source w' = wk_source w1" "tf_worker (wk_follower w') = tf_worker (wk_follower w1)"
        "\<not> finished \<longrightarrow> wk_master w' = wk_master w1"
        "\<forall>a. r = Inr a \<longrightarrow> fr_finished a = finished \<and>
         (finished \<and> fr_code a = 0 \<longrightarrow> P = [] \<and> tf_ctx (wk_follower w') = None)" .
      show ?thesis
        by (rule that [OF c(1)]) (use c f(2,4) Inr empty in \<open>auto simp: same_service_def\<close>)
    qed
  qed
qed

text \<open>
  Every event of a service is a step of the log. \<open>opn\<close> is ghost: once it has fallen, the master may have
  the partition as finished.
\<close>

definition serves_log :: "('c, 'd, 'm) worker \<Rightarrow> 'x log \<Rightarrow> bool" where
  "serves_log w l \<longleftrightarrow> (case l of (H, P, opn) \<Rightarrow> (\<exists>cl. serves w H P cl) \<and> (opn \<longrightarrow> still_open (wk_master w)))"

lemma refused_item:
  assumes "sc_partition_of K m \<noteq> Inr pid" "serves w H P cl" "SyncPartition K meta rank_id q m w = (r, w')"
  shows "w' = w" "r = Inr a \<Longrightarrow> yr_code a \<noteq> 0"
proof -
  have "\<exists>e. add_synced_item K m (wk_follower w) = (Inl e, wk_follower w)"
  proof (cases "sc_partition_of K m")
    case (Inl e)
    then show ?thesis by (auto simp: add_synced_item_def)
  next
    case (Inr p)
    then have "p \<noteq> pid" using assms(1) by simp
    then have "\<exists>e. check_status p (wk_follower w) = (Inl e, wk_follower w)"
      using assms(2) by (auto simp: serves_def holds_def check_status_def split: option.splits)
    then show ?thesis using Inr by (auto simp: add_synced_item_def sx_bind_def)
  qed
  then obtain e where "add_synced_item K m (wk_follower w) = (Inl e, wk_follower w)" ..
  then show "w' = w" "r = Inr a \<Longrightarrow> yr_code a \<noteq> 0"
    using assms(3) by (auto simp: SyncPartition_def sx_bind_def on_receiver_def Let_def split: if_splits)
qed

lemma start_step:
  assumes w: "serves_log w l" and run: "StartPartition K (M n) meta rank_id pid w = (r, w')"
  shows "serves_log w' l \<and> log_step rows first (Start_call n' meta rank_id) (Started_reply r) l l"
proof -
  obtain H P opn cl where l: "l = (H, P, opn)" "serves w H P cl" "opn \<longrightarrow> still_open (wk_master w)"
    using w by (cases l) (auto simp: serves_log_def)
  note h = sx_ok_case [OF start_handler [OF l(2), of n meta rank_id] refl, unfolded run]
  have a: "serving w H P cl w'" using h by (cases r) simp_all
  have answer: "if sr_finished a then \<not> still_open (wk_master w)
      else sr_next_index a = int (length H + length P) \<and> sr_dumped_index a = int (length H) - 1"
    if "r = Inr a" "sr_code a = 0" for a using h that by simp
  have "log_step rows first (Start_call n' meta rank_id) (Started_reply r) (H, P, opn) (H, P, opn)"
    proof (rule told)
    fix a assume "r = Inr a" "sr_code a = 0"
    from answer [OF this] show "if sr_finished a then \<not> opn
        else sr_next_index a = int (length H + length P) \<and> sr_dumped_index a = int (length H) - 1"
      using l(3) by (auto split: if_splits)
  qed
  moreover have "serves_log w' l" using a l by (auto simp: serves_log_def serving_def same_service_def)
  ultimately show ?thesis using l(1) by simp
qed

lemma sync_step:
  assumes w: "serves w H P cl" "opn \<longrightarrow> still_open (wk_master w)"
    and fit: "\<And>c. tf_ctx (wk_follower w) = Some (pid, c) \<Longrightarrow> sc_partition_of K m = Inr pid \<Longrightarrow> fits c m"
    and run: "SyncPartition K meta rank_id q m w = (r, w')"
  obtains P' where "serves_log w' (H, P', opn)" "P' = P \<or> P' = P @ rows m"
    "log_step rows first (Sync_call meta rank_id q m) (Synced_reply r) (H, P, opn) (H, P', opn)"
proof (cases "sc_partition_of K m = Inr pid")
  case False
  note f = refused_item [OF False w(1) run]
  show ?thesis
    by (rule that [of P]) (use f w in \<open>auto simp: serves_log_def intro!: refused\<close>)
next
  case True
  have fit': "fits c m" if "tf_ctx (wk_follower w) = Some (pid, c)" for c using fit [OF that True] .
  obtain P' where p: "serves w' H P' cl" "same_service w w'" "wk_master w' = wk_master w"
    "P' = P \<or> \<not> cl \<and> tf_ctx (wk_follower w) \<noteq> None \<and> first m = int (length H + length P) \<and> P' = P @ rows m"
    "\<forall>a. r = Inr a \<longrightarrow> yr_code a = 0 \<longrightarrow> \<not> cl \<and> P' = P @ rows m \<and> first m = int (length H + length P) \<and>
       yr_next_index a = int (length H + length P') \<and> yr_dumped_index a = int (length H) - 1"
    using sync_handler [OF w(1) True fit' run] by blast
  have "log_step rows first (Sync_call meta rank_id q m) (Synced_reply r) (H, P, opn) (H, P', opn)"
  proof (cases "\<exists>a. r = Inr a \<and> yr_code a = 0")
    case True
    then have "P' = P @ rows m" "first m = int (length H + length P)" using p(5) by blast+
    then show ?thesis using taken [of first m H P r rows] p(5) by simp
  next
    case False
    show ?thesis
    proof (cases "P' = P")
      case True
      then show ?thesis using False by (auto intro: refused)
    next
      case False
      then have "P' = P @ rows m" "first m = int (length H + length P)" using p(4) by blast+
      then show ?thesis using taken [of first m H P r rows] p(5) by simp
    qed
  qed
  then show ?thesis using that [of P'] p w(2) by (auto simp: serves_log_def)
qed

lemma finish_step:
  assumes w: "serves_log w (H, P, opn)"
    and run: "FinishPartition K (M n) t t' meta rank_id pid w = (r, w')"
  obtains opn' where "serves_log w' (H, P, opn')"
    "log_step rows first (Finish_call n' t t' meta rank_id) (Finished_reply r) (H, P, opn) (H, P, opn')"
proof -
  obtain cl where s: "serves w H P cl" "opn \<longrightarrow> still_open (wk_master w)" using w by (auto simp: serves_log_def)
  obtain cl' where f: "serves w' H P cl'" "wk_rank_id w' = wk_rank_id w" "wk_source w' = wk_source w"
      "tf_worker (wk_follower w') = tf_worker (wk_follower w)"
      "still_open (wk_master w) \<longrightarrow> P \<noteq> [] \<longrightarrow> still_open (wk_master w')"
      "\<forall>a. r = Inr a \<longrightarrow> fr_finished a \<longrightarrow> P = [] \<and>
         (tf_ctx (wk_follower w) = None \<longrightarrow> \<not> still_open (wk_master w))"
    by (rule finish_handler [OF s(1) run])
  let ?o = "opn \<and> still_open (wk_master w')"
  have "log_step rows first (Finish_call n' t t' meta rank_id) (Finished_reply r) (H, P, opn) (H, P, ?o)"
    by (rule finished) (use f(5,6) s(2) in auto)
  moreover have "serves_log w' (H, P, ?o)" using f(1) by (auto simp: serves_log_def)
  ultimately show ?thesis using that by blast
qed

lemma dump_step:
  assumes w: "serves_log w (H, P, opn)" and d: "dump_thread K t h (wk_follower w) = Some (r, f)"
  obtains k where "serves_log (w\<lparr>wk_follower := f\<rparr>) (H @ take k P, drop k P, opn)"
proof -
  obtain cl where s: "serves w H P cl" "opn \<longrightarrow> still_open (wk_master w)" using w by (auto simp: serves_log_def)
  then have "holds (wk_follower w) H P cl" by (simp add: serves_def)
  from thread_run [OF this, of t h] d obtain k where "holds f (H @ take k P) (drop k P) cl" by auto
  then show ?thesis using that [of k] s by (auto simp: serves_log_def serves_def)
qed

lemma restart_step: "serves_log w (H, P, opn) \<Longrightarrow> serves_log (restart_worker K w) (H, [], opn)"
  by (auto simp: serves_log_def serves_def restart_worker_def intro: crash)

lemma worker_log_step:
  assumes w: "serves_log w (H, P, opn)" and run: "worker_step K M pid e w = (a, w')"
    and fit: "\<And>meta rank_id q m c. e = Sync_call meta rank_id q m \<Longrightarrow> tf_ctx (wk_follower w) = Some (pid, c) \<Longrightarrow>
      sc_partition_of K m = Inr pid \<Longrightarrow> fits c m"
  obtains H' P' opn' where "serves_log w' (H', P', opn')" "log_step rows first e a (H, P, opn) (H', P', opn')"
proof (cases e)
  case (Start_call n meta rank_id)
  then obtain r where r: "StartPartition K (M n) meta rank_id pid w = (r, w')" "a = Started_reply r"
    using run by (auto simp: map_prod_def split: prod.splits)
  show ?thesis using that start_step [OF w r(1), of n] Start_call r(2) by blast
next
  case (Sync_call meta rank_id q m)
  then obtain r where r: "SyncPartition K meta rank_id q m w = (r, w')" "a = Synced_reply r"
    using run by (auto simp: map_prod_def split: prod.splits)
  obtain cl where s: "serves w H P cl" "opn \<longrightarrow> still_open (wk_master w)" using w by (auto simp: serves_log_def)
  show ?thesis
    by (rule sync_step [OF s fit [OF Sync_call] r(1)]) (use that Sync_call r(2) in auto)
next
  case (Finish_call n t t' meta rank_id)
  then obtain r where r: "FinishPartition K (M n) t t' meta rank_id pid w = (r, w')" "a = Finished_reply r"
    using run by (auto simp: map_prod_def split: prod.splits)
  show ?thesis
    by (rule finish_step [OF w r(1), where n' = n]) (use that Finish_call r(2) in auto)
next
  case (Dump_round t h)
  then have a: "a = No_reply" using run by simp
  obtain cl where "holds (wk_follower w) H P cl" using w by (auto simp: serves_log_def serves_def)
  from thread_run [OF this, of t h] obtain r f where d: "dump_thread K t h (wk_follower w) = Some (r, f)" by blast
  then have "w' = w\<lparr>wk_follower := f\<rparr>" using run Dump_round by simp
  then show ?thesis using dump_step [OF w d] that Dump_round a dumped by metis
next
  case Worker_starts
  have same: "tf_ctx (wk_follower w') = tf_ctx (wk_follower w)" "tf_disk (wk_follower w') = tf_disk (wk_follower w)"
      "wk_source w' = wk_source w" "wk_master w' = wk_master w"
    using run Worker_starts
    by (auto simp: start_worker_def start_dump_worker_def sx_bind_def sx_assert_def on_receiver_def split: if_splits)
  then have "holds (wk_follower w') H P = holds (wk_follower w) H P"
    by (intro ext) (simp add: holds_def split: option.split)
  then have "serves_log w' (H, P, opn)" using w same(3,4) by (simp add: serves_log_def serves_def)
  moreover have "a = No_reply" using run Worker_starts by simp
  ultimately show ?thesis using that [of H P opn] Worker_starts started [of rows first H P opn] by simp
next
  case Worker_stops
  then have w': "w' = stop_worker w" using run by simp
  then have "holds (wk_follower w') H P = holds (wk_follower w) H P"
    by (intro ext) (simp add: holds_def stop_worker_def stop_dump_worker_def split: option.split)
  then have "serves_log w' (H, P, opn)" using w w' by (simp add: serves_log_def serves_def stop_worker_def)
  then show ?thesis using that Worker_stops run by (auto intro: stopped)
next
  case Worker_restarts
  then have "serves_log w' (H, [], opn)" using run w restart_step by auto
  then show ?thesis using that Worker_restarts run by (auto intro: restarted)
qed

end

interpretation id_worker: receiving_worker "example_id_sync_follower en" pid "id_disk en pid" "id_ctx en pid"
  "id_fits pid" content_rows content_first "join_master_calls men local_meta" False "still_open men False pid"
  for en :: "int \<Rightarrow> 'v id_dumper_env" and pid and men :: "'w mg_env" and local_meta
  by (intro receiving_worker.intro id_log.append_log_axioms join_masters.open_partition_axioms)

interpretation block_worker: receiving_worker "example_join_follower en" pid "block_disk en files path pid"
  "block_ctx en files path pid" "block_fits pid" "block_rows (de_block (en pid))" block_first
  "join_master_calls men local_meta" True "still_open men True pid"
  for en :: "int \<Rightarrow> ('r, 'v) dumper_env" and files path pid and men :: "'w mg_env" and local_meta
  by (intro receiving_worker.intro block_log.append_log_axioms join_masters.open_partition_axioms)

lemma log_run_prefix: "log_run rw ix es as l l' \<Longrightarrow> prefix (fst l) (fst l')"
proof (induction rule: log_run.induct)
  case (log_run_cons e a l l1 es as l2)
  from log_run_cons.hyps(1) have "prefix (fst l) (fst l1)" by cases auto
  then show ?case using log_run_cons.IH by (rule prefix_order.trans)
qed simp

lemma run_worker_Cons:
  assumes "run_worker K M pid (e # es) w = (as, w')"
  obtains a w1 bs where "worker_step K M pid e w = (a, w1)" "run_worker K M pid es w1 = (bs, w')" "as = a # bs"
  using assms by (auto split: prod.splits)

lemma ids_log_run:
  assumes "run_worker (example_id_sync_follower en) (join_master_calls men local_meta) pid es w = (as, w')"
    "id_worker.serves_log en pid men w l"
  shows "\<exists>l'. id_worker.serves_log en pid men w' l' \<and> log_run content_rows content_first es as l l'"
  using assms
proof (induction es arbitrary: w as l)
  case Nil
  then have "as = []" "w = w'" by simp_all
  then show ?case using Nil(2) log_run_nil [of content_rows content_first l] by blast
next
  case (Cons e es)
  obtain a w1 bs where r: "worker_step (example_id_sync_follower en) (join_master_calls men local_meta) pid e w = (a, w1)"
      "run_worker (example_id_sync_follower en) (join_master_calls men local_meta) pid es w1 = (bs, w')" "as = a # bs"
    using run_worker_Cons [OF Cons.prems(1)] .
  obtain H P opn where l: "l = (H, P, opn)" by (cases l)
  obtain H' P' opn' where s: "id_worker.serves_log en pid men w1 (H', P', opn')"
      "log_step content_rows content_first e a (H, P, opn) (H', P', opn')"
    using id_worker.worker_log_step [OF Cons.prems(2) [unfolded l] r(1)]
    by (auto simp: id_fits_def simp del: split_paired_Ex)
  from Cons.IH [OF r(2) s(1)] show ?case using s(2) r(3) l by (auto intro: log_run_cons)
qed

text \<open>
  C4. The service that receives example ids is a log, whatever happens to it. Take a worker over stores
  that hold the rows \<open>H0\<close>, and any sequence of calls of the peer (with any contents, indices and meta
  data), rounds of the dump thread with any failures of files and of the anchor, starts, stops and
  replacements of the process, where every call to the own master may fail or lose its answer. Then
  the answers and the stores are those of the log: a batch is taken only when it continues the log,
  the next index and the dumped index that are told are the ends of the log and of its durable part, only the
  queued part is lost when the process is replaced, and the master is told that the partition is
  finished, and the peer that everything has been dumped, only when nothing is queued.
\<close>

theorem ids_received_as_log:
  assumes "id_disk en pid D H0" "wk_follower w = fresh_follower D" "\<not> ds_is_leader (wk_source w)"
    "still_open men False pid (wk_master w)"
    "run_worker (example_id_sync_follower en) (join_master_calls men local_meta) pid es w = (as, w')"
  shows "\<exists>H P opn. log_run content_rows content_first es as (H0, [], True) (H, P, opn) \<and> prefix H0 H \<and>
    id_disk en pid (follower_stores (example_id_sync_follower en) (wk_follower w')) H \<and>
    (opn \<longrightarrow> still_open men False pid (wk_master w'))"
proof -
  have "id_worker.serves_log en pid men w (H0, [], True)"
    using assms(1-4) by (auto simp: id_worker.serves_log_def id_worker.serves_def id_log.holds_def fresh_follower_def
        intro!: exI [of _ False])
  from ids_log_run [OF assms(5) this] obtain H P opn cl where
    "log_run content_rows content_first es as (H0, [], True) (H, P, opn)"
    "id_log.holds en pid (wk_follower w') H P cl" "opn \<longrightarrow> still_open men False pid (wk_master w')"
    by (auto simp: id_worker.serves_log_def id_worker.serves_def)
  then show ?thesis using id_log.stores log_run_prefix by fastforce
qed

lemma log_step_grows:
  assumes "log_step rw ix e a (H, P, opn) (H', P', opn')" "\<And>m. length (rw m) \<le> 1"
  shows "length H' + length P' \<le> Suc (length H + length P)"
  using assms(1)
proof cases
  case (taken m meta rank_id q r)
  then show ?thesis using assms(2) [of m] by simp
qed auto

lemma blocks_log_run:
  assumes "run_worker (example_join_follower en) (join_master_calls men local_meta) pid es w = (as, w')"
    "block_worker.serves_log en pid files path men w (H, P, opn)"
    "int (length H + length P) + int (length es) \<le> 2 ^ 63"
  shows "\<exists>l'. block_worker.serves_log en pid files path men w' l' \<and>
    log_run (block_rows (de_block (en pid))) block_first es as (H, P, opn) l'"
  using assms
proof (induction es arbitrary: w as H P opn)
  case Nil
  then have "as = []" "w = w'" by simp_all
  then show ?case using Nil(2) log_run_nil [of "block_rows (de_block (en pid))" block_first "(H, P, opn)"] by blast
next
  case (Cons e es)
  let ?K = "example_join_follower en"
  obtain a w1 bs where r: "worker_step ?K (join_master_calls men local_meta) pid e w = (a, w1)"
      "run_worker ?K (join_master_calls men local_meta) pid es w1 = (bs, w')" "as = a # bs"
    using run_worker_Cons [OF Cons.prems(1)] .
  have fits: "block_fits pid c m" if "tf_ctx (wk_follower w) = Some (pid, c)" "sc_partition_of ?K m = Inr pid" for m c
  proof -
    have "block_ctx en files path pid c H P" using Cons.prems(2) that(1)
      by (auto simp: block_worker.serves_log_def block_worker.serves_def block_log.holds_def)
    from block_log.next_index [OF this] show ?thesis
      using that(2) Cons.prems(3) by (simp add: block_fits_def)
  qed
  obtain H' P' opn' where s: "block_worker.serves_log en pid files path men w1 (H', P', opn')"
      "log_step (block_rows (de_block (en pid))) block_first e a (H, P, opn) (H', P', opn')"
    using block_worker.worker_log_step [OF Cons.prems(2) r(1) fits] by blast
  have "length (block_rows (de_block (en pid)) m) \<le> 1" for m by (cases m) simp_all
  from log_step_grows [OF s(2) this] Cons.prems(3) have "int (length H' + length P') + int (length es) \<le> 2 ^ 63" by simp
  from Cons.IH [OF r(2) s(1) this] show ?case using s(2) r(3) by (auto intro: log_run_cons)
qed

text \<open>
  C10. The service that receives data block metas is a log in the same sense, whose rows are metas
  and whose durable part is the published blocks, over raw data that does not change and up to the
  number of blocks that an index of 64 bits counts.
\<close>

theorem blocks_received_as_log:
  assumes "block_disk en files path pid D H0" "wk_follower w = fresh_follower D" "ds_is_leader (wk_source w)"
    "still_open men True pid (wk_master w)" "int (length H0) + int (length es) \<le> 2 ^ 63"
    "run_worker (example_join_follower en) (join_master_calls men local_meta) pid es w = (as, w')"
  shows "\<exists>H P opn. log_run (block_rows (de_block (en pid))) block_first es as (H0, [], True) (H, P, opn) \<and>
    prefix H0 H \<and>
    block_disk en files path pid (follower_stores (example_join_follower en) (wk_follower w')) H \<and>
    (opn \<longrightarrow> still_open men True pid (wk_master w'))"
proof -
  have "block_worker.serves_log en pid files path men w (H0, [], True)"
    using assms(1-4)
    by (auto simp: block_worker.serves_log_def block_worker.serves_def block_log.holds_def fresh_follower_def
        intro!: exI [of _ False])
  from blocks_log_run [OF assms(6) this] assms(5) obtain H P opn cl where
    "log_run (block_rows (de_block (en pid))) block_first es as (H0, [], True) (H, P, opn)"
    "block_log.holds en pid files path (wk_follower w') H P cl" "opn \<longrightarrow> still_open men True pid (wk_master w')"
    by (auto simp: block_worker.serves_log_def block_worker.serves_def)
  then show ?thesis using block_log.stores log_run_prefix by fastforce
qed

section \<open>Witnesses\<close>

definition sample_worker :: "bool \<Rightarrow> 'd \<Rightarrow> ('c, 'd, kv_data master) worker" where
  "sample_worker is_leader D =
     \<lparr>wk_source = (sample_source Processing)\<lparr>ds_is_leader := is_leader\<rparr>, wk_rank_id = 0,
      wk_follower = fresh_follower D, wk_master = sample_master Processing True\<rparr>"

lemma sample_still_open: "still_open (sample_env []) l 0 (sample_master st b)"
proof -
  have "codec_ok (en_codec (sample_env []))" by (simp add: sample_env_def sample_codec_ok)
  then show ?thesis
    by (simp add: still_open_def unfinished_def sample_master_def manager_init_def get_kv_manifest_def)
qed

text \<open>
  Two batches come in, one call of a batch that does not fit, the process is replaced before
  anything was dumped, and the peer starts again at 0.
\<close>

definition sample_calls :: "'h \<Rightarrow> 'h worker_event list" where
  "sample_calls h =
     (let meta = ds_meta (sample_source Processing); ok = (Answered, Answered, Answered)
      in [Worker_starts, Start_call ok meta 0, Sync_call meta 0 0 (Packed_ids (sid_batch 0 2)),
          Sync_call meta 0 0 (Packed_ids (sid_batch 5 1)), Sync_call meta 0 0 (Packed_ids (sid_batch 2 1)),
          Dump_round 0 h, Finish_call ok 0 0 meta 0, Worker_restarts, Start_call ok meta 0])"

definition sample_ids_run :: "worker_reply list \<times> (bool \<times> anchor id_dumper, anchor id_stores, kv_data master) worker" where
  "sample_ids_run = run_worker (example_id_sync_follower (\<lambda>_. sid_env))
     (join_master_calls (sample_env []) (ds_meta (sample_source Processing))) 0 (sample_calls (sid_choice True))
     (sample_worker False ([], [], \<lambda>_. None))"

theorem ids_received_as_log_witness:
  "\<exists>H P opn. log_run content_rows content_first (sample_calls (sid_choice True)) (fst sample_ids_run) ([], [], True) (H, P, opn) \<and>
     id_disk (\<lambda>_. sid_env) 0
       (follower_stores (example_id_sync_follower (\<lambda>_. sid_env)) (wk_follower (snd sample_ids_run))) H \<and>
     fst sample_ids_run ! 4 = Synced_reply (Inr \<lparr>yr_code = 0, yr_next_index = 3, yr_dumped_index = - 1\<rparr>) \<and>
     last (fst sample_ids_run) = Started_reply (Inr \<lparr>sr_code = 0, sr_next_index = 0, sr_finished = False, sr_dumped_index = - 1\<rparr>)"
proof -
  let ?w = "sample_worker False ([], [], \<lambda>_. None)"
  have d: "id_disk (\<lambda>_. sid_env) 0 ([], [], \<lambda>_. None) []"
    using sid_facts by (auto simp: id_disk_def id_env_ok_def sid_env_def wd_env_def intro!: exI [of _ "[]"])
  have w: "wk_follower ?w = fresh_follower ([], [], \<lambda>_. None)" "\<not> ds_is_leader (wk_source ?w)"
    "still_open (sample_env []) False 0 (wk_master ?w)"
    using sample_still_open by (simp_all add: sample_worker_def)
  have run: "run_worker (example_id_sync_follower (\<lambda>_. sid_env))
     (join_master_calls (sample_env []) (ds_meta (sample_source Processing))) 0 (sample_calls (sid_choice True)) ?w =
     (fst sample_ids_run, snd sample_ids_run)"
    by (simp add: sample_ids_run_def)
  have "fst sample_ids_run ! 4 = Synced_reply (Inr \<lparr>yr_code = 0, yr_next_index = 3, yr_dumped_index = - 1\<rparr>) \<and>
     last (fst sample_ids_run) = Started_reply (Inr \<lparr>sr_code = 0, sr_next_index = 0, sr_finished = False, sr_dumped_index = - 1\<rparr>)"
    by code_simp
  with ids_received_as_log [OF d w run] show ?thesis by blast
qed

definition sample_block_calls :: "'h \<Rightarrow> 'h worker_event list" where
  "sample_block_calls h =
     (let meta = ds_meta (sample_source Processing); ok = (Answered, Answered, Answered)
      in [Worker_starts, Start_call ok meta 0, Sync_call meta 0 0 (Block_meta (wb_meta 0 [''a'', ''c''] 0 2)),
          Sync_call meta 0 0 (Block_meta (wb_meta 3 [''c''] 2 2)), Worker_restarts, Start_call ok meta 0])"

definition sample_blocks_run ::
    "worker_reply list \<times> ((data_block_meta + string, kv_data) block_dumper, (data_block_meta + string, kv_data) block_stores,
       kv_data master) worker" where
  "sample_blocks_run = run_worker (example_join_follower (\<lambda>_. wb_env))
     (join_master_calls (sample_env []) (ds_meta (sample_source Processing))) 0
     (sample_block_calls (wb_choice Renamed))
     (sample_worker True (wr_store, bw_fs empty_blocks))"

theorem blocks_received_as_log_witness:
  "\<exists>H P opn. log_run (block_rows (de_block wb_env)) block_first (sample_block_calls (wb_choice Renamed))
       (fst sample_blocks_run) ([], [], True) (H, P, opn) \<and>
     block_disk (\<lambda>_. wb_env) wb_files wr_path 0
       (follower_stores (example_join_follower (\<lambda>_. wb_env)) (wk_follower (snd sample_blocks_run))) H"
proof -
  let ?w = "sample_worker True (wr_store, bw_fs empty_blocks)"
  have d: "block_disk (\<lambda>_. wb_env) wb_files wr_path 0 (wr_store, bw_fs empty_blocks) []"
    using wb_facts by (auto simp: block_disk_def wb_env_def intro!: exI [of _ "1::nat"])
  have w: "wk_follower ?w = fresh_follower (wr_store, bw_fs empty_blocks)" "ds_is_leader (wk_source ?w)"
    "still_open (sample_env []) True 0 (wk_master ?w)"
    using sample_still_open by (simp_all add: sample_worker_def)
  have run: "run_worker (example_join_follower (\<lambda>_. wb_env))
     (join_master_calls (sample_env []) (ds_meta (sample_source Processing))) 0
     (sample_block_calls (wb_choice Renamed)) ?w = (fst sample_blocks_run, snd sample_blocks_run)"
    by (simp add: sample_blocks_run_def)
  have len: "int (length ([] :: data_block_meta list)) +
      int (length (sample_block_calls (wb_choice Renamed))) \<le> 2 ^ 63"
    by (simp add: sample_block_calls_def Let_def)
  from blocks_received_as_log [OF d w len run] show ?thesis by blast
qed

end
