(* ===== verification/Spec2Isabelle.thy ===== *)
theory Spec2Isabelle
  imports Channel_System Send_Queue Item_Batches Kv_Store Publisher Join_Master Example_Id_Visitor
    Block_Dumper Id_Dumper Joiner_Stats
    Stream_Demo Join_Service
begin

text \<open>
  A verification library for FedLearner, a platform for federated learning between two
  parties. Two deployments of the same program talk through a gRPC channel; before they
  train together they join their data: each party has rows that carry an example id, cut
  into partitions, and the data join finds the ids that both have and writes, on both sides,
  data blocks that hold the joined rows in the same order. The sources are under
  \<open>src/fedlearner\<close>; file names below are relative to that directory.

  \<^bold>\<open>The program's parts and how they interact.\<close>

  \<^item> \<open>channel/\<close> keeps the connection: a state machine that both parties step by CONNECT,
    HEARTBEAT and CLOSE calls, and interceptors that resend what the peer has not
    acknowledged and drop what it has seen.
  \<^item> \<open>common/\<close> has the key value stores in which all persistent state other than the
    records lives (etcd or its mock, MySQL, the file system).
  \<^item> \<open>data_join/\<close>: publishers put the paths of raw data files into the store; the master of
    a party subscribes them into the manifests of the partitions, steps the data source
    through its states against the peer's master, and hands partitions to workers. A worker
    reads a partition through a visitor, batches what it reads into a window, sends example
    ids to the peer or joins them with the ids it has received, and builds data blocks.

  \<^bold>\<open>Theories.\<close> Each theory models the files named; a record of the theory is the object of
  the code with its fields, and there is one definition per method, with the method's name
  where Isabelle allows it.

  \<^item> \<open>Prelude\<close>: exceptions, the result type, the state and exception monad \<open>sx\<close>, Python's
    list indexing and \<open>bisect\<close>; the contract \<open>ranked_fsm\<close>. \<open>Py_String\<close>: integers and
    paths as strings.
  \<^item> \<open>Channel\<close> (\<open>channel/channel.py\<close>): states, events, the transition table, every method
    of \<open>Channel\<close>. \<open>Channel_System\<close>: the interleavings of the state thread, the server's
    handlers and the user, as the step relation \<open>chan_step\<close>.
  \<^item> \<open>Send_Queue\<close> (\<open>channel/client_interceptor.py\<close>, \<open>channel/server_interceptor.py\<close>): the
    resend queue, the response iterator, the metadata of a call.
  \<^item> \<open>Kv_Store\<close> (\<open>common/mock_kvstore.py\<close>, \<open>etcd_client.py\<close>, \<open>mysql_client.py\<close>,
    \<open>dfs_client.py\<close>): the stores and their contract \<open>kv_backend\<close>.
  \<^item> \<open>Data_Join_Common\<close> (\<open>data_join/common.py\<close>): block ids, keys, file names, intervals.
  \<^item> \<open>Publisher\<close> (\<open>data_join/raw_data_publisher.py\<close>): concurrent publishers over any
    \<open>kv_backend\<close>.
  \<^item> \<open>Manifest\<close> (\<open>data_join/raw_data_manifest_manager.py\<close>): manifests, their cache, the
    subscription of published files, the allocation of partitions to ranks.
  \<^item> \<open>Join_Master\<close> (\<open>data_join/data_join_master.py\<close>): the state machine of the data source
    and the request handlers over the manifest manager.
  \<^item> \<open>Visitor\<close> (\<open>data_join/visitor.py\<close>, \<open>raw_data_iter_impl/raw_data_iter.py\<close>): reading the
    files of a partition as one sequence; the contract \<open>index_source\<close> of the managers that
    say which file comes next. \<open>Raw_Data_Visitor\<close> (\<open>data_join/raw_data_visitor.py\<close>) and
    \<open>Example_Id_Visitor\<close> (\<open>data_join/example_id_visitor.py\<close>) are the two managers.
  \<^item> \<open>Batch_Seq\<close> (\<open>data_join/item_batch_seq_processor.py\<close>): the window of batches in flight.
    \<open>Item_Batches\<close> (\<open>example_id_batch_fetcher.py\<close> and its siblings): the batch classes, the
    generator that fills them, the wire format of an example id batch.
  \<^item> \<open>Data_Block\<close> (\<open>data_join/data_block_manager.py\<close>): the builder and the manager of data
    blocks, over a file system whose renames may fail. \<open>Block_Dumper\<close>
    (\<open>data_join/data_block_dumper.py\<close>): the leader's side, which builds the blocks that the
    follower's metas name. \<open>Id_Dumper\<close> (\<open>data_join/example_id_dumper.py\<close>): batches of received
    example ids written to files behind an anchor.
  \<^item> \<open>Joiner_Stats\<close> (\<open>data_join/joiner_impl/joiner_stats.py\<close>): the ring of hashed ids and
    the estimate of the joined number. \<open>Example_Joiner\<close> (\<open>joiner_impl/example_joiner.py\<close>): the
    base class of the joiners, with the contract \<open>join_source\<close> of its two visitors.
    \<open>Stream_Joiner\<close> (\<open>joiner_impl/stream_joiner.py\<close>, \<open>negative_example_generator.py\<close>): the
    joiner that works in windows of event time. \<open>Joining\<close> and \<open>Stream_Joining\<close> prove, in the
    locale \<open>joining\<close> over any two sources, what its operations and loops keep,
    \<open>Stream_Ending\<close> that the loops end; \<open>Stream_System\<close> puts the joiner between the real
    visitors, with arrivals and restarts as the step relation \<open>stream_step\<close>, and
    \<open>Stream_Demo\<close> evaluates it on a small partition.
  \<^item> \<open>Transmit_Follower\<close> (\<open>data_join/transmit_follower.py\<close>, \<open>example_id_sync_follower.py\<close>,
    \<open>example_join_follower.py\<close>): the receiving side of a transmission, with the contract
    \<open>append_log\<close> of its contexts; \<open>Transmit_Logs\<close> shows it for the two dumpers. \<open>Join_Worker\<close>
    (\<open>data_join/data_join_worker.py\<close>): the handlers of the service around it and their calls to the
    master, with the contract \<open>open_partition\<close>; \<open>Join_Service\<close>: the service over time as a run of the
    abstract log \<open>log_run\<close>.

  \<^bold>\<open>What the lemmas show.\<close> The channel: no party is READY or DONE before the handshake and
  the shutdown have taken place on both sides, states only move forward, and each request
  is delivered in order whatever reconnects happen. The stores: a compare-and-swap against
  an absent value has one winner on each of them, which is what publishing rests on. The
  publishers: entries of a partition are gap free, no file is overwritten, nothing follows the
  end mark. The manifests: cache and store agree, they only move forward, a
  partition has one owner. The masters: a round refines the abstract machine, and two
  machines walk side by side unless one fails. Reading: a visitor is a cursor over the
  concatenation of the files (\<open>cursor\<close>, \<open>growing_exec\<close>), whatever is published meanwhile. The
  window: it holds a gap free run of the items, and the lookups of the code equal a
  linear one. Data blocks: published blocks are gap free and durable through failing
  renames and restarts; the leader's dumper publishes every meta it has accepted, once and in
  order; the files of dumped ids and their anchor stay one sequence. The stream joiner: its
  published blocks pair examples of equal id, each leader example at most once, through exceptions,
  restarts and arrivals; its windows and caches are well formed; every run returns. The
  receiving services: whatever calls come and fail and whenever the process is replaced, each is
  an append-only log with a durable part; what it answers is the state of that log, and a partition
  is marked as finished only when nothing is queued.

  Where the code does something that its comments or callers do not expect, the property says
  so (a CLOSE that is lost in \<open>CONNECTING_CONNECTED\<close>, an optional field that is present in
  only some items, an empty last file, a value read back from a store that never compares
  equal to what was written, the follower example at the restart index that a restarted joiner
  never reads again).

  \<^bold>\<open>Conventions, bounds and fuel.\<close> Python integers are \<open>int\<close>; the only fixed
  widths are the byte encodings of \<open>Data_Join_Common\<close>. Errors are values of \<open>result\<close>; a method
  that changes state and may raise is an \<open>sx\<close> function, which keeps the state at the point of
  the exception; \<open>os._exit\<close> is the exception \<open>ProcessExit\<close>, after which nothing is claimed but
  the stored state. Failures of the outside are arguments: a list of flags for the writes
  to a store, an outcome for each rename, a list of the commits to come; the theorems hold
  for all of them. The search for the first free index runs over \<open>[0, 2 ^ 63]\<close> as in the
  code and takes at most 64 probes, so its theorems assume fewer than \<open>2 ^ 63\<close> blocks or
  entries. The cache of block metas holds at most 1024. \<open>ve_depth\<close> is the depth at
  which Python stops \<open>_forward_to_target\<close>; one frame per file is used, so the theorems
  assume more frames than files. A loop that may run for ever (the subscription of raw data, the loops of
  the stream joiner) is a \<open>partial_function\<close>, so that it does not return is a value; for the
  stream joiner it is proved that it returns. The leader's files of a joined partition hold at most
  \<open>2 ^ 63\<close> ids. The percentiles of a join window are taken with exact products where the
  code multiplies floating point numbers.

  \<^bold>\<open>Not under src.\<close> The text format of protobuf, \<open>tf.train.Example\<close> and the gRPC library are
  parameters: a codec of which the properties use that parsing undoes printing, the items that
  opening a file yields, the outcome of a remote call.

  \<^bold>\<open>Not modelled.\<close> Metrics, logging and locks that protect one call (each public method is one
  atomic step, or several where the lock is released or another process can write in between);
  the real etcd server; record formats. \<open>need_join\<close> of the joiners is defined but is no step
  of \<open>stream_step\<close>, and the properties of the stream joiner are about one that makes no negative
  examples. Of the data join, the universal and the sorted run joiner, the sending side of the
  transmission, the partitioner and RSA PSI are left; of the rest of the
  repository, the trainer's master and bridge, federated averaging, the homomorphic
  encryption with the packing of gradients, and the workflow transactions of the web console.
  TensorFlow models, examples, the Go operator and the web front end are not candidates:
  they are numerical code over a library, demonstrations, or another language.
\<close>

end
